(* ===== verification/Xv6_Prelude.thy ===== *)
theory Xv6_Prelude
  imports Main "HOL-Library.Word"
begin

unbundle bit_operations_syntax

text \<open>
  What every theory of the development shares: the C integer types at their width, kernel panics
  as values, byte-addressed memory with little-endian 64-bit loads and stores, the constants of
  \<^verbatim>\<open>kernel/param.h\<close>, \<^verbatim>\<open>kernel/memlayout.h\<close>, \<^verbatim>\<open>kernel/riscv.h\<close> and \<^verbatim>\<open>kernel/fs.h\<close>, and the generic
  lemmas on lists, words and memory that the component proofs use.
\<close>

section \<open>Integers and results\<close>

type_synonym u8 = "8 word"
type_synonym u16 = "16 word"
type_synonym u32 = "32 word"
type_synonym u64 = "64 word"

text \<open>A C \<open>int\<close> is a 32-bit word read by \<^const>\<open>sint\<close>.\<close>

type_synonym cint = "32 word"

text \<open>
  A kernel function returns, panics, or goes to sleep on a condition that only another thread can
  change; \<open>panic\<close> of \<^verbatim>\<open>kernel/printf.c\<close> never returns, so a panic is the final value of a
  computation. A sequential model cannot go on past a sleep, so that is a final value too
  (\<open>Blocked\<close>), and so is a loop that never ends (\<open>Diverges\<close>). \<open>UB\<close> is C's undefined behaviour: an
  access outside an array.
\<close>

datatype error = Panic string | Blocked string | Diverges | UB string

type_synonym 'a result = "error + 'a"

definition bind_result :: "'a result \<Rightarrow> ('a \<Rightarrow> 'b result) \<Rightarrow> 'b result" where
  "bind_result r f = (case r of Inl e \<Rightarrow> Inl e | Inr x \<Rightarrow> f x)"

section \<open>Memory\<close>

text \<open>
  Memory is a function of the address, and a pointer that is only read (a string argument) is the
  function of the offset, \<^typ>\<open>nat \<Rightarrow> u8\<close>. RISC-V is little-endian.
\<close>

type_synonym mem = "u64 \<Rightarrow> u8"
type_synonym cptr = "nat \<Rightarrow> u8"

definition view :: "mem \<Rightarrow> u64 \<Rightarrow> cptr" where
  "view m a = (\<lambda>i. m (a + of_nat i))"

fun le_bytes :: "nat \<Rightarrow> 'a::len word \<Rightarrow> u8 list" where
  "le_bytes 0 w = []"
| "le_bytes (Suc n) w = ucast w # le_bytes n (drop_bit 8 w)"

fun of_le_bytes :: "u8 list \<Rightarrow> 'a::len word" where
  "of_le_bytes [] = 0"
| "of_le_bytes (b # bs) = ucast b OR push_bit 8 (of_le_bytes bs)"

fun store_bytes :: "mem \<Rightarrow> u64 \<Rightarrow> u8 list \<Rightarrow> mem" where
  "store_bytes m a [] = m"
| "store_bytes m a (b # bs) = store_bytes (m(a := b)) (a + 1) bs"

definition load_bytes :: "mem \<Rightarrow> u64 \<Rightarrow> nat \<Rightarrow> u8 list" where
  "load_bytes m a n = map (\<lambda>i. m (a + of_nat i)) [0..<n]"

text \<open>The same for a 32-bit field at a byte offset of an array of bytes.\<close>

definition get32 :: "u8 list \<Rightarrow> nat \<Rightarrow> u32" where
  "get32 d off = of_le_bytes (take 4 (drop off d))"

definition put32 :: "u8 list \<Rightarrow> nat \<Rightarrow> u32 \<Rightarrow> u8 list" where
  "put32 d off v = take off d @ le_bytes 4 v @ drop (off + 4) d"

definition load64 :: "mem \<Rightarrow> u64 \<Rightarrow> u64" where
  "load64 m a = of_le_bytes (load_bytes m a 8)"

definition store64 :: "mem \<Rightarrow> u64 \<Rightarrow> u64 \<Rightarrow> mem" where
  "store64 m a v = store_bytes m a (le_bytes 8 v)"

definition aligned :: "nat \<Rightarrow> u64 \<Rightarrow> bool" where
  "aligned k a \<longleftrightarrow> unat a mod k = 0"

section \<open>Constants of the headers\<close>

definition NPROC :: nat where "NPROC = 64"
definition NCPU :: nat where "NCPU = 8"
definition NOFILE :: nat where "NOFILE = 16"
definition NFILE :: nat where "NFILE = 100"
definition NINODE :: nat where "NINODE = 50"
definition NDEV :: nat where "NDEV = 10"
definition ROOTDEV :: u32 where "ROOTDEV = 1"
definition MAXARG :: nat where "MAXARG = 32"
definition MAXOPBLOCKS :: nat where "MAXOPBLOCKS = 10"
definition LOGBLOCKS :: nat where "LOGBLOCKS = MAXOPBLOCKS * 3"
definition NBUF :: nat where "NBUF = MAXOPBLOCKS * 3"
definition FSSIZE :: nat where "FSSIZE = 2000"
definition MAXPATH :: nat where "MAXPATH = 128"
definition USERSTACK :: nat where "USERSTACK = 2"

definition PGSIZE :: u64 where "PGSIZE = 4096"
definition PGSHIFT :: nat where "PGSHIFT = 12"
definition KERNBASE :: u64 where "KERNBASE = 0x80000000"
definition PHYSTOP :: u64 where "PHYSTOP = KERNBASE + 128 * 1024 * 1024"
definition MAXVA :: u64 where "MAXVA = push_bit (9 + 9 + 9 + 12 - 1) 1"
definition TRAMPOLINE :: u64 where "TRAMPOLINE = MAXVA - PGSIZE"
definition TRAPFRAME :: u64 where "TRAPFRAME = TRAMPOLINE - PGSIZE"
definition KSTACK :: "u64 \<Rightarrow> u64" where "KSTACK p = TRAMPOLINE - (p + 1) * 2 * PGSIZE"

definition PGROUNDUP :: "u64 \<Rightarrow> u64" where
  "PGROUNDUP sz = (sz + PGSIZE - 1) AND NOT (PGSIZE - 1)"

definition PGROUNDDOWN :: "u64 \<Rightarrow> u64" where
  "PGROUNDDOWN a = a AND NOT (PGSIZE - 1)"

section \<open>Shared automation\<close>

text \<open>\<open>xv6_const\<close> unfolds the header constants, \<open>mem_simps\<close> simplifies loads and stores.\<close>

named_theorems xv6_const
named_theorems mem_simps

lemmas header_constants [xv6_const] =
  NPROC_def NCPU_def NOFILE_def NFILE_def NINODE_def NDEV_def MAXARG_def MAXOPBLOCKS_def
  LOGBLOCKS_def NBUF_def FSSIZE_def MAXPATH_def USERSTACK_def

subsection \<open>Ring buffers\<close>

lemma mod_cancel_less: "(a + i) mod n = (a + j) mod n \<Longrightarrow> i < n \<Longrightarrow> j < n \<Longrightarrow> i = (j :: nat)"
proof (induction i j rule: linorder_wlog)
  case (le i j)
  then have "n dvd (a + j) - (a + i)" by (metis mod_eq_dvd_iff_nat nat_add_left_cancel_le)
  then show ?case using le by (auto dest: dvd_imp_le)
qed simp

text \<open>The \<open>n\<close> elements of a ring of \<open>N\<close> from index \<open>a\<close> on.\<close>

definition window :: "(nat \<Rightarrow> 'a) \<Rightarrow> nat \<Rightarrow> nat \<Rightarrow> nat \<Rightarrow> 'a list" where
  "window f N a n = map (\<lambda>j. f ((a + j) mod N)) [0..<n]"

lemma length_window [simp]: "length (window f N a n) = n"
  by (simp add: window_def)

lemma window_mod: "a mod N = b mod N \<Longrightarrow> window f N a n = window f N b n"
  unfolding window_def by (metis mod_add_cong)

lemma window_put: "n < N \<Longrightarrow> window (f((a + n) mod N := x)) N a (Suc n) = window f N a n @ [x]"
  by (auto simp: window_def dest: mod_cancel_less [of a _ N n])

lemma window_get: "window f N a (Suc n) = f (a mod N) # window f N (Suc a) n"
  by (simp add: window_def upt_conv_Cons map_Suc_upt [symmetric] del: upt_Suc)

subsection \<open>Results\<close>

lemma bind_result_simps [simp]:
  "bind_result (Inl e) f = Inl e" "bind_result (Inr x) f = f x"
  by (simp_all add: bind_result_def)

lemma bind_result_Inr_iff:
  "bind_result r f = Inr y \<longleftrightarrow> (\<exists>x. r = Inr x \<and> f x = Inr y)"
  by (cases r) auto

lemma bind_result_Inl_iff:
  "bind_result r f = Inl e \<longleftrightarrow> r = Inl e \<or> (\<exists>x. r = Inr x \<and> f x = Inl e)"
  by (cases r) auto

lemma bind_result_InrE:
  assumes "bind_result r f = Inr y"
  obtains x where "r = Inr x" "f x = Inr y"
  using assms by (auto simp: bind_result_Inr_iff)

subsection \<open>Lists\<close>

lemma find_SomeD: "List.find P xs = Some x \<Longrightarrow> x \<in> set xs \<and> P x"
  by (auto simp: find_Some_iff)

subsection \<open>Words\<close>

lemma unat_PGSIZE [simp]: "unat PGSIZE = 4096"
  by (simp add: PGSIZE_def)

lemma unat_PHYSTOP: "unat PHYSTOP = 0x88000000"
  by (simp add: PHYSTOP_def KERNBASE_def)

lemma unat_MAXVA: "unat MAXVA = 2 ^ 38"
  by (simp add: MAXVA_def)

lemma unat_add_no_wrap:
  fixes a b :: "'a::len word"
  assumes "unat a + unat b < 2 ^ LENGTH('a)"
  shows "unat (a + b) = unat a + unat b"
  using assms by (simp add: unat_word_ariths)

lemma uint_inject [simp]: "uint (a :: 'a::len word) = uint b \<longleftrightarrow> a = b"
  by (simp add: word_uint_eq_iff)

lemma uint_is_0 [simp]: "uint (a :: 'a::len word) = 0 \<longleftrightarrow> a = 0"
  by (simp add: word_uint_eq_iff)

lemma unat_of_nat64: "n < 2 ^ 64 \<Longrightarrow> unat (of_nat n :: u64) = n"
  by (simp add: unat_of_nat take_bit_nat_eq_self)

lemma unat_offset:
  fixes a :: u64
  assumes "unat a + i < 2 ^ 64"
  shows "unat (a + of_nat i) = unat a + i"
  using assms by (simp add: unat_word_ariths unat_of_nat take_bit_nat_eq_self)

lemma and_not_mask_word: "a AND NOT (mask n) = a - take_bit n (a :: 'a::len word)"
proof -
  have "a AND NOT (mask n) = push_bit n (drop_bit n a)"
    by (rule bit_word_eqI) (auto simp: bit_simps)
  then show ?thesis
    using bits_ident [of n a] by (simp add: algebra_simps)
qed

lemma unat_and_not_mask: "unat (a AND NOT (mask n) :: 'a::len word) = unat a - unat a mod 2 ^ n"
proof -
  have "take_bit n a \<le> a"
    by (simp add: word_le_nat_alt unsigned_take_bit_eq take_bit_nat_less_eq_self)
  then have "unat (a AND NOT (mask n)) = unat a - unat (take_bit n a)"
    by (simp add: and_not_mask_word unat_sub)
  then show ?thesis
    by (simp add: unsigned_take_bit_eq flip: take_bit_eq_mod)
qed

lemma PGROUNDDOWN_unat: "unat (PGROUNDDOWN a) = unat a - unat a mod 4096"
proof -
  have "PGSIZE - 1 = mask 12"
    by (simp add: PGSIZE_def mask_eq_exp_minus_1)
  then show ?thesis
    by (simp add: PGROUNDDOWN_def unat_and_not_mask)
qed

lemma PGROUNDUP_unat:
  assumes "unat sz + 4095 < 2 ^ 64"
  shows "unat (PGROUNDUP sz) = (unat sz + 4095) div 4096 * 4096"
proof -
  have "PGROUNDUP sz = (sz + 4095) AND NOT (mask 12)"
    by (simp add: PGROUNDUP_def PGSIZE_def mask_eq_exp_minus_1 add.commute)
  moreover have "unat (sz + 4095) = unat sz + 4095"
    using assms by (simp add: unat_word_ariths)
  ultimately show ?thesis
    by (simp only: unat_and_not_mask) (simp add: minus_mod_eq_div_mult)
qed

lemma unat_lt64: "unat (x :: u64) < 2 ^ 64"
proof -
  have "unat x < 2 ^ LENGTH(64)" by (rule unsigned_less)
  then show ?thesis by simp
qed

lemma unat_minus_step:
  fixes x a :: u64
  assumes "x \<noteq> a"
  shows "unat (x - a) = Suc (unat (x - (a + 1)))"
proof -
  have "x - a = (x - (a + 1)) + 1" by simp
  moreover have "x - (a + 1) + 1 \<noteq> 0" using assms by simp
  ultimately show ?thesis
    using unatSuc[of "x - (a+1)"] by (simp add: add.commute)
qed

subsection \<open>Little-endian encodings\<close>

lemma length_le_bytes [simp]: "length (le_bytes n w) = n"
  by (induction n arbitrary: w) auto

lemma of_le_bytes_le_bytes: "of_le_bytes (le_bytes n w) = take_bit (8 * n) w"
proof (induction n arbitrary: w)
  case (Suc n)
  show ?case
    by (rule bit_word_eqI) (auto simp: Suc bit_simps)
qed simp

lemma bit_of_le_bytes: "bit (of_le_bytes bs :: 'a::len word) i \<Longrightarrow> i < 8 * length bs"
proof (induction bs arbitrary: i)
  case (Cons b bs)
  then consider "bit b i" | "8 \<le> i" "bit (of_le_bytes bs :: 'a word) (i - 8)"
    by (auto simp: bit_simps)
  then show ?case
    by cases (auto dest: bit_imp_le_length Cons.IH)
qed simp

lemma le_bytes_of_le_bytes:
  "8 * length bs \<le> LENGTH('a::len) \<Longrightarrow> le_bytes (length bs) (of_le_bytes bs :: 'a word) = bs"
proof (induction bs)
  case (Cons b bs)
  let ?w = "of_le_bytes bs :: 'a word"
  have hd: "ucast (ucast b OR push_bit 8 ?w) = b"
    using Cons.prems by (intro bit_word_eqI) (auto simp: bit_simps)
  have tl: "drop_bit 8 (ucast b OR push_bit 8 ?w) = ?w"
    using Cons.prems
    by (intro bit_word_eqI) (auto simp: bit_simps dest: bit_imp_le_length bit_of_le_bytes)
  from Cons.prems have "le_bytes (length bs) ?w = bs"
    by (intro Cons.IH) simp
  then show ?case
    by (simp only: list.size of_le_bytes.simps le_bytes.simps add_Suc_right add_0_right hd tl)
qed simp

subsection \<open>Loads and stores\<close>

lemma store_bytes_apply:
  assumes "length bs \<le> 2 ^ 64"
  shows "store_bytes m a bs x = (if unat (x - a) < length bs then bs ! unat (x - a) else m x)"
  using assms
proof (induction bs arbitrary: m a)
  case (Cons b bs)
  show ?case
  proof (cases "x = a")
    case True
    have "unat (- 1 :: u64) = 2 ^ 64 - 1" by (simp add: unsigned_minus_1_eq_mask mask_eq_exp_minus_1)
    with True Cons show ?thesis by (simp add: Cons.IH)
  next
    case False
    with Cons show ?thesis by (simp add: unat_minus_step [OF False])
  qed
qed simp
lemma load_bytes_nth [simp]: "i < n \<Longrightarrow> load_bytes m a n ! i = m (a + of_nat i)"
  by (simp add: load_bytes_def)

lemma length_load_bytes [simp]: "length (load_bytes m a n) = n"
  by (simp add: load_bytes_def)

lemma load_store_bytes:
  assumes "length bs \<le> 2 ^ 64"
  shows "load_bytes (store_bytes m a bs) a (length bs) = bs"
proof (rule nth_equalityI)
  fix i assume "i < length (load_bytes (store_bytes m a bs) a (length bs))"
  then have i: "i < length bs" by simp
  then have "unat (of_nat i :: u64) = i"
    using assms by (simp add: unat_of_nat take_bit_nat_eq_self)
  with i assms show "load_bytes (store_bytes m a bs) a (length bs) ! i = bs ! i"
    by (simp add: store_bytes_apply)
qed simp

lemma load64_store64_same [simp]: "load64 (store64 m a v) a = v"
proof -
  have "load_bytes (store64 m a v) a 8 = le_bytes 8 v"
    using load_store_bytes [of "le_bytes 8 v" m a] by (simp add: store64_def)
  then show ?thesis by (simp add: load64_def of_le_bytes_le_bytes take_bit_word_eq_self)
qed

lemma unat_diff_mod:
  fixes a b :: u64
  assumes "k dvd 2 ^ 64" "aligned k a" "aligned k b"
  shows "unat (b - a) mod k = 0"
proof -
  have d: "k dvd unat a" "k dvd unat b" using assms by (auto simp: aligned_def)
  have "unat (b - a) = (if a \<le> b then unat b - unat a else unat b + 2 ^ 64 - unat a)"
    by (simp add: unat_sub_if' word_le_nat_alt)
  with d assms(1) show ?thesis
    by (auto simp: mod_eq_0_iff_dvd intro: dvd_diff_nat)
qed

text \<open>Two different aligned blocks of the same size do not overlap.\<close>

lemma aligned_disjoint:
  fixes a b :: u64
  assumes "k dvd 2 ^ 64" "aligned k a" "aligned k b" "a \<noteq> b" "i < k"
  shows "\<not> unat (b + of_nat i - a) < k"
proof -
  let ?d = "unat (b - a)"
  have k: "0 < k" "k \<le> 2 ^ 64" using assms(1,5) by (auto dest: dvd_imp_le)
  have "?d mod k = 0" by (rule unat_diff_mod) (use assms in auto)
  moreover have "?d \<noteq> 0" using assms(4) by (simp add: unat_gt_0)
  ultimately have lo: "k \<le> ?d" by (auto simp: mod_eq_0_iff_dvd dest: dvd_imp_le)
  have "?d < 2 ^ 64" by (rule unat_lt64)
  then have "k \<le> 2 ^ 64 - ?d"
    using \<open>?d mod k = 0\<close> assms(1) by (intro dvd_imp_le dvd_diff_nat) auto
  then have hi: "?d + i < 2 ^ 64" using assms(5) by simp
  have eq: "b + of_nat i - a = (b - a) + of_nat i" by simp
  have "unat (b + of_nat i - a) = ?d + i"
    unfolding eq using hi by (rule unat_offset)
  then show ?thesis using lo by simp
qed

lemma load64_cong: "(\<And>i. i < 8 \<Longrightarrow> m (a + of_nat i) = m' (a + of_nat i)) \<Longrightarrow> load64 m a = load64 m' a"
  by (auto simp: load64_def load_bytes_def intro!: arg_cong [where f = of_le_bytes])

lemma load64_store64_other:
  assumes "aligned 8 a" "aligned 8 b" "a \<noteq> b"
  shows "load64 (store64 m a v) b = load64 m b"
proof (rule load64_cong)
  fix i :: nat assume "i < 8"
  then have "\<not> unat (b + of_nat i - a) < 8"
    using assms by (intro aligned_disjoint) auto
  then show "store64 m a v (b + of_nat i) = m (b + of_nat i)"
    by (simp add: store64_def store_bytes_apply)
qed
subsection \<open>Fields of byte arrays\<close>

lemma length_put32 [simp]: "off + 4 \<le> length d \<Longrightarrow> length (put32 d off v) = length d"
  by (simp add: put32_def)

lemma get32_put32_same [simp]: "off + 4 \<le> length d \<Longrightarrow> get32 (put32 d off v) off = v"
  by (simp add: get32_def put32_def of_le_bytes_le_bytes take_bit_word_eq_self)

lemma get32_put32_other:
  assumes "off + 4 \<le> length d" "off + 4 \<le> off' \<or> off' + 4 \<le> off"
  shows "get32 (put32 d off v) off' = get32 d off'"
proof -
  have "take 4 (drop off' (put32 d off v)) = take 4 (drop off' d)"
  proof (rule nth_equalityI)
    fix i assume "i < length (take 4 (drop off' (put32 d off v)))"
    then show "take 4 (drop off' (put32 d off v)) ! i = take 4 (drop off' d) ! i"
      using assms by (auto simp: put32_def nth_append)
  qed (use assms in simp)
  then show ?thesis by (simp add: get32_def)
qed

end
