(* ===== verification/Sleeplock.thy ===== *)
theory Sleeplock
  imports Xv6_Prelude
begin

text \<open>
  \<^verbatim>\<open>kernel/sleeplock.c\<close> as one process sees it: the caller's process id is the argument \<open>pid\<close>
  (\<open>myproc()->pid\<close>), and acquiring a lock that is held puts the caller to sleep. The inner
  spinlock \<open>lk->lk\<close> is taken and released within each operation.
\<close>

record sleeplock =
  slocked :: bool
  spid :: cint

definition initsleeplock :: sleeplock where
  "initsleeplock = \<lparr>slocked = False, spid = 0\<rparr>"

definition acquiresleep :: "cint \<Rightarrow> sleeplock \<Rightarrow> sleeplock result" where
  "acquiresleep pid lk =
     (if slocked lk then Inl (Blocked ''sleep lock'') else Inr (lk\<lparr>slocked := True, spid := pid\<rparr>))"

definition releasesleep :: "sleeplock \<Rightarrow> sleeplock" where
  "releasesleep lk = lk\<lparr>slocked := False, spid := 0\<rparr>"

definition holdingsleep :: "cint \<Rightarrow> sleeplock \<Rightarrow> bool" where
  "holdingsleep pid lk \<longleftrightarrow> slocked lk \<and> spid lk = pid"

lemma acquiresleep_Inr:
  "acquiresleep pid lk = Inr lk' \<longleftrightarrow> \<not> slocked lk \<and> lk' = lk\<lparr>slocked := True, spid := pid\<rparr>"
  by (auto simp: acquiresleep_def)

lemma holding_after_acquire: "acquiresleep pid lk = Inr lk' \<Longrightarrow> holdingsleep pid lk'"
  by (auto simp: acquiresleep_Inr holdingsleep_def)

end
