(* ===== verification/Bio.thy ===== *)
theory Bio
  imports Sleeplock
begin

text \<open>
  \<^verbatim>\<open>kernel/bio.c\<close>, the buffer cache. Buffers are numbered \<open>0 .. NBUF - 1\<close> and the list head is the
  number \<open>NBUF\<close>; the \<open>prev\<close> and \<open>next\<close> pointers of all of them are the maps \<open>bprev\<close> and \<open>bnext\<close>, so
  that the doubly linked least-recently-used list is the one of the code. The disk behind
  \<open>virtio_disk_rw\<close> is a map from block numbers to contents (the driver ignores \<open>b->dev\<close>), together
  with the sequence of the blocks written so far, from which a crash at any point is computed.
  \<open>pid\<close> is the calling process.
\<close>

section \<open>State\<close>

type_synonym block = "u8 list"

definition BSIZE :: nat where "BSIZE = 1024"

record buf =
  bvalid :: bool
  bdev :: u32
  blockno :: u32
  block_lock :: sleeplock
  refcnt :: u32
  bdata :: block

record bstate =
  bufs :: "nat \<Rightarrow> buf"
  bnext :: "nat \<Rightarrow> nat"
  bprev :: "nat \<Rightarrow> nat"
  disk :: "u32 \<Rightarrow> block"
  dtrace :: "(u32 \<times> block) list"

abbreviation bhead :: nat where "bhead \<equiv> NBUF"

text \<open>Static storage starts out zero.\<close>

definition zero_buf :: buf where
  "zero_buf = \<lparr>bvalid = False, bdev = 0, blockno = 0, block_lock = initsleeplock, refcnt = 0,
     bdata = replicate BSIZE 0\<rparr>"

section \<open>Operations\<close>

text \<open>One turn of the loop of \<open>binit\<close>: link buffer \<open>b\<close> in right after the head.\<close>

definition link_front :: "nat \<Rightarrow> bstate \<Rightarrow> bstate" where
  "link_front b s =
     (let s = s\<lparr>bnext := (bnext s)(b := bnext s bhead)\<rparr>;
          s = s\<lparr>bprev := (bprev s)(b := bhead)\<rparr>;
          s = s\<lparr>bprev := (bprev s)(bnext s bhead := b)\<rparr>
      in s\<lparr>bnext := (bnext s)(bhead := b)\<rparr>)"

fun binit_loop :: "nat \<Rightarrow> nat \<Rightarrow> bstate \<Rightarrow> bstate" where
  "binit_loop b 0 s = s"
| "binit_loop b (Suc n) s =
     binit_loop (Suc b) n
       (link_front b (s\<lparr>bufs := (bufs s)(b := (bufs s b)\<lparr>block_lock := initsleeplock\<rparr>)\<rparr>))"

definition binit :: "bstate \<Rightarrow> bstate" where
  "binit s =
     binit_loop 0 NBUF (s\<lparr>bprev := (bprev s)(bhead := bhead), bnext := (bnext s)(bhead := bhead)\<rparr>)"

text \<open>The two scans of \<open>bget\<close>; \<open>None\<close> when \<open>fuel\<close> turns did not reach the head.\<close>

fun scan :: "(nat \<Rightarrow> nat) \<Rightarrow> (nat \<Rightarrow> bool) \<Rightarrow> nat \<Rightarrow> nat \<Rightarrow> nat option option" where
  "scan step P 0 i = None"
| "scan step P (Suc fuel) i =
     (if i = bhead then Some None else if P i then Some (Some i) else scan step P fuel (step i))"

declare scan.simps [simp del]

definition lock_buf :: "cint \<Rightarrow> nat \<Rightarrow> bstate \<Rightarrow> (nat \<times> bstate) result" where
  "lock_buf pid b s =
     bind_result (acquiresleep pid (block_lock (bufs s b)))
       (\<lambda>lk. Inr (b, s\<lparr>bufs := (bufs s)(b := (bufs s b)\<lparr>block_lock := lk\<rparr>)\<rparr>))"

definition bget :: "cint \<Rightarrow> u32 \<Rightarrow> u32 \<Rightarrow> bstate \<Rightarrow> (nat \<times> bstate) result" where
  "bget pid dev bno s =
     (case scan (bnext s) (\<lambda>i. bdev (bufs s i) = dev \<and> blockno (bufs s i) = bno)
             (Suc NBUF) (bnext s bhead) of
        None \<Rightarrow> Inl Diverges
      | Some (Some b) \<Rightarrow>
          lock_buf pid b
            (s\<lparr>bufs := (bufs s)(b := (bufs s b)\<lparr>refcnt := refcnt (bufs s b) + 1\<rparr>)\<rparr>)
      | Some None \<Rightarrow>
          (case scan (bprev s) (\<lambda>i. refcnt (bufs s i) = 0) (Suc NBUF) (bprev s bhead) of
             None \<Rightarrow> Inl Diverges
           | Some (Some b) \<Rightarrow>
               lock_buf pid b
                 (s\<lparr>bufs := (bufs s)(b := (bufs s b)\<lparr>bdev := dev, blockno := bno, bvalid := False,
                    refcnt := 1\<rparr>)\<rparr>)
           | Some None \<Rightarrow> Inl (Panic ''bget: no buffers'')))"

text \<open>What \<open>virtio_disk_rw\<close> does to the buffer and the disk.\<close>

definition disk_rw :: "nat \<Rightarrow> bool \<Rightarrow> bstate \<Rightarrow> bstate" where
  "disk_rw b write s =
     (let x = bufs s b
      in if write
         then s\<lparr>disk := (disk s)(blockno x := bdata x), dtrace := dtrace s @ [(blockno x, bdata x)]\<rparr>
         else s\<lparr>bufs := (bufs s)(b := x\<lparr>bdata := disk s (blockno x)\<rparr>)\<rparr>)"

definition bread :: "cint \<Rightarrow> u32 \<Rightarrow> u32 \<Rightarrow> bstate \<Rightarrow> (nat \<times> bstate) result" where
  "bread pid dev bno s =
     bind_result (bget pid dev bno s) (\<lambda>(b, s).
       if \<not> bvalid (bufs s b)
       then let s = disk_rw b False s
            in Inr (b, s\<lparr>bufs := (bufs s)(b := (bufs s b)\<lparr>bvalid := True\<rparr>)\<rparr>)
       else Inr (b, s))"

definition bwrite :: "cint \<Rightarrow> nat \<Rightarrow> bstate \<Rightarrow> bstate result" where
  "bwrite pid b s =
     (if \<not> holdingsleep pid (block_lock (bufs s b)) then Inl (Panic ''bwrite'')
      else Inr (disk_rw b True s))"

definition brelse :: "cint \<Rightarrow> nat \<Rightarrow> bstate \<Rightarrow> bstate result" where
  "brelse pid b s =
     (if \<not> holdingsleep pid (block_lock (bufs s b)) then Inl (Panic ''brelse'')
      else
        let x = bufs s b;
            x = x\<lparr>block_lock := releasesleep (block_lock x)\<rparr>;
            x = x\<lparr>refcnt := refcnt x - 1\<rparr>;
            s = s\<lparr>bufs := (bufs s)(b := x)\<rparr>
        in if refcnt x = 0
           then let s = s\<lparr>bprev := (bprev s)(bnext s b := bprev s b)\<rparr>;
                    s = s\<lparr>bnext := (bnext s)(bprev s b := bnext s b)\<rparr>
                in Inr (link_front b s)
           else Inr s)"

definition bpin :: "nat \<Rightarrow> bstate \<Rightarrow> bstate" where
  "bpin b s = s\<lparr>bufs := (bufs s)(b := (bufs s b)\<lparr>refcnt := refcnt (bufs s b) + 1\<rparr>)\<rparr>"

definition bunpin :: "nat \<Rightarrow> bstate \<Rightarrow> bstate" where
  "bunpin b s = s\<lparr>bufs := (bufs s)(b := (bufs s b)\<lparr>refcnt := refcnt (bufs s b) - 1\<rparr>)\<rparr>"

text \<open>The callers of \<open>bread\<close> change \<open>b->data\<close> in place.\<close>

definition set_data :: "nat \<Rightarrow> block \<Rightarrow> bstate \<Rightarrow> bstate" where
  "set_data b d s = s\<lparr>bufs := (bufs s)(b := (bufs s b)\<lparr>bdata := d\<rparr>)\<rparr>"

section \<open>The least-recently-used list\<close>

text \<open>
  \<open>dseg nx pv i xs j\<close>: following \<open>next\<close> from \<open>i\<close> one meets \<open>xs\<close> and then \<open>j\<close>, and the \<open>prev\<close>
  pointers lead back the same way.
\<close>

fun dseg :: "(nat \<Rightarrow> nat) \<Rightarrow> (nat \<Rightarrow> nat) \<Rightarrow> nat \<Rightarrow> nat list \<Rightarrow> nat \<Rightarrow> bool" where
  "dseg nx pv i [] j \<longleftrightarrow> nx i = j \<and> pv j = i"
| "dseg nx pv i (x # xs) j \<longleftrightarrow> nx i = x \<and> pv x = i \<and> dseg nx pv x xs j"

definition lru :: "bstate \<Rightarrow> nat list \<Rightarrow> bool" where
  "lru s xs \<longleftrightarrow> dseg (bnext s) (bprev s) bhead xs bhead \<and> distinct xs \<and> set xs = {..<NBUF}"

lemma dseg_append:
  "dseg nx pv i (xs @ y # ys) j \<longleftrightarrow> dseg nx pv i xs y \<and> dseg nx pv y ys j"
  by (induction xs arbitrary: i) auto

lemma dseg_cong:
  "(\<And>a. a \<in> insert i (set xs) \<Longrightarrow> nx' a = nx a) \<Longrightarrow> (\<And>a. a \<in> insert j (set xs) \<Longrightarrow> pv' a = pv a) \<Longrightarrow>
    dseg nx' pv' i xs j = dseg nx pv i xs j"
  by (induction xs arbitrary: i) auto

lemma dseg_last: "dseg nx pv i xs b \<Longrightarrow> pv b = last (i # xs)"
  by (induction xs arbitrary: i) auto

lemma dseg_link_front:
  assumes "dseg nx pv h xs h" "distinct (h # b # xs)"
  shows "dseg (nx(b := nx h, h := b)) ((pv(b := h))(nx h := b)) h (b # xs) h"
proof (cases xs)
  case Nil
  with assms show ?thesis by auto
next
  case (Cons x ys)
  then have "dseg (nx(b := nx h, h := b)) ((pv(b := h))(nx h := b)) x ys h = dseg nx pv x ys h"
    using assms by (intro dseg_cong) auto
  with Cons assms show ?thesis by auto
qed

lemma dseg_unlink:
  assumes "dseg nx pv h (xs @ b # ys) h" "distinct (h # xs @ b # ys)"
  shows "dseg (nx(pv b := nx b)) (pv(nx b := pv b)) h (xs @ ys) h"
proof -
  let ?nx = "nx(pv b := nx b)" and ?pv = "pv(nx b := pv b)"
  have l: "dseg nx pv h xs b" and r: "dseg nx pv b ys h"
    using assms(1) by (auto simp: dseg_append)
  have pb: "pv b \<in> insert h (set xs)" using dseg_last [OF l] by auto
  have right: "dseg ?nx ?pv z zs h" if "ys = z # zs" for z zs
  proof -
    have "dseg ?nx ?pv z zs h = dseg nx pv z zs h"
      using that assms(2) r pb by (intro dseg_cong) auto
    with that r show ?thesis by simp
  qed
  show ?thesis
  proof (cases xs rule: rev_cases)
    case Nil
    with l r right show ?thesis by (cases ys) auto
  next
    case (snoc zs p)
    then have pb: "pv b = p" "dseg nx pv h zs p" using l by (auto simp: dseg_append)
    have nb: "nx b = hd (ys @ [h])" using r by (cases ys) auto
    have "dseg ?nx ?pv h zs p = dseg nx pv h zs p"
      using snoc assms(2) pb nb by (intro dseg_cong) (cases ys; auto)+
    with snoc pb r right show ?thesis by (cases ys) (auto simp: dseg_append)
  qed
qed

lemma lru_range: "lru s xs \<Longrightarrow> i \<in> set xs \<Longrightarrow> i < NBUF"
  by (auto simp: lru_def)

lemma lru_link_front:
  assumes "dseg (bnext s) (bprev s) bhead xs bhead" "distinct (bhead # b # xs)"
  shows "dseg (bnext (link_front b s)) (bprev (link_front b s)) bhead (b # xs) bhead"
  using dseg_link_front [OF assms] assms(2) by (simp add: link_front_def Let_def)

text \<open>\<open>binit\<close> links all the buffers in, the last one first.\<close>

lemma binit_loop_lru:
  assumes "dseg (bnext s) (bprev s) bhead xs bhead" "distinct xs" "set xs = {..<b}" "b + n \<le> NBUF"
  shows "dseg (bnext (binit_loop b n s)) (bprev (binit_loop b n s)) bhead (rev [b..<b + n] @ xs) bhead"
  using assms
proof (induction n arbitrary: b s xs)
  case (Suc n)
  let ?s = "link_front b (s\<lparr>bufs := (bufs s)(b := (bufs s b)\<lparr>block_lock := initsleeplock\<rparr>)\<rparr>)"
  have "dseg (bnext ?s) (bprev ?s) bhead (b # xs) bhead"
    using Suc.prems by (intro lru_link_front) simp_all
  then have "dseg (bnext (binit_loop (Suc b) n ?s)) (bprev (binit_loop (Suc b) n ?s)) bhead
      (rev [Suc b..<Suc b + n] @ b # xs) bhead"
    using Suc.prems by (intro Suc.IH) (simp_all add: lessThan_Suc)
  moreover have "rev [b..<b + Suc n] @ xs = rev [Suc b..<Suc b + n] @ b # xs"
    by (simp add: upt_conv_Cons del: upt_Suc)
  ultimately show ?case by (simp only: binit_loop.simps)
qed simp

lemma binit_lru: "lru (binit s) (rev [0..<NBUF])"
  using binit_loop_lru [of _ "[]" 0 NBUF]
  by (auto simp: lru_def binit_def lessThan_atLeast0)

subsection \<open>The scans\<close>

lemma scan_forward:
  "dseg nx pv i xs bhead \<Longrightarrow> bhead \<notin> set xs \<Longrightarrow> length xs < fuel \<Longrightarrow>
    scan nx P fuel (nx i) = Some (List.find P xs)"
proof (induction xs arbitrary: i fuel)
  case Nil
  then show ?case by (cases fuel) (auto simp: scan.simps)
next
  case (Cons x xs)
  then show ?case by (cases fuel) (auto simp: scan.simps)
qed

lemma dseg_rev: "dseg nx pv i xs j \<Longrightarrow> dseg pv nx j (rev xs) i"
proof (induction xs arbitrary: i)
  case (Cons x xs)
  then show ?case by (auto simp: dseg_append)
qed auto

lemma bget_forward_scan:
  assumes "lru s xs"
  shows "scan (bnext s) P (Suc NBUF) (bnext s bhead) = Some (List.find P xs)"
proof -
  have "length xs = NBUF"
    using assms distinct_card [of xs] by (simp add: lru_def)
  then show ?thesis
    using assms by (intro scan_forward) (auto simp: lru_def)
qed

lemma bget_backward_scan:
  assumes "lru s xs"
  shows "scan (bprev s) P (Suc NBUF) (bprev s bhead) = Some (List.find P (rev xs))"
proof -
  have "length xs = NBUF"
    using assms distinct_card [of xs] by (simp add: lru_def)
  then show ?thesis
    using assms by (intro scan_forward [where pv = "bnext s"]) (auto simp: lru_def intro: dseg_rev)
qed

section \<open>The cache invariant\<close>

text \<open>
  For the device \<open>dev\<close> in use: at most one buffer per block; a buffer nobody references is
  unlocked and, if valid, agrees with the disk. \<open>holder\<close> is the buffer of a block.
\<close>

definition matches :: "u32 \<Rightarrow> u32 \<Rightarrow> bstate \<Rightarrow> nat \<Rightarrow> bool" where
  "matches dev b s i \<longleftrightarrow> bdev (bufs s i) = dev \<and> blockno (bufs s i) = b"

definition cache_inv :: "u32 \<Rightarrow> bstate \<Rightarrow> nat list \<Rightarrow> bool" where
  "cache_inv dev s xs \<longleftrightarrow> lru s xs \<and>
     (\<forall>i<NBUF. \<forall>j<NBUF. \<forall>b. matches dev b s i \<and> matches dev b s j \<longrightarrow> i = j) \<and>
     (\<forall>i<NBUF. refcnt (bufs s i) = 0 \<longrightarrow> \<not> slocked (block_lock (bufs s i)) \<and>
        (bdev (bufs s i) = dev \<and> bvalid (bufs s i) \<longrightarrow> bdata (bufs s i) = disk s (blockno (bufs s i))))"

definition holder :: "u32 \<Rightarrow> bstate \<Rightarrow> u32 \<Rightarrow> nat option" where
  "holder dev s b = List.find (matches dev b s) [0..<NBUF]"

text \<open>What a block's readers see, how often it is referenced, whether its buffer is locked, and
  how many buffers can be recycled.\<close>

definition bview :: "u32 \<Rightarrow> bstate \<Rightarrow> u32 \<Rightarrow> block" where
  "bview dev s b =
     (case holder dev s b of
        Some i \<Rightarrow> if bvalid (bufs s i) then bdata (bufs s i) else disk s b
      | None \<Rightarrow> disk s b)"

definition brefs :: "u32 \<Rightarrow> bstate \<Rightarrow> u32 \<Rightarrow> u32" where
  "brefs dev s b = (case holder dev s b of Some i \<Rightarrow> refcnt (bufs s i) | None \<Rightarrow> 0)"

definition bheld :: "u32 \<Rightarrow> bstate \<Rightarrow> u32 \<Rightarrow> bool" where
  "bheld dev s b = (case holder dev s b of Some i \<Rightarrow> slocked (block_lock (bufs s i)) | None \<Rightarrow> False)"

definition unused :: "bstate \<Rightarrow> nat set" where
  "unused s = {i. i < NBUF \<and> refcnt (bufs s i) = 0}"

definition nfree :: "bstate \<Rightarrow> nat" where
  "nfree s = card (unused s)"

definition owns :: "cint \<Rightarrow> u32 \<Rightarrow> bstate \<Rightarrow> nat \<Rightarrow> u32 \<Rightarrow> bool" where
  "owns pid dev s i b \<longleftrightarrow> i < NBUF \<and> matches dev b s i \<and> bvalid (bufs s i) \<and>
     holdingsleep pid (block_lock (bufs s i)) \<and> refcnt (bufs s i) \<noteq> 0"

lemma holder_SomeD: "holder dev s b = Some i \<Longrightarrow> i < NBUF \<and> matches dev b s i"
  by (auto simp: holder_def find_Some_iff)

lemma holder_NoneD: "holder dev s b = None \<Longrightarrow> i < NBUF \<Longrightarrow> \<not> matches dev b s i"
  by (auto simp: holder_def find_None_iff)

lemma matches_unique:
  "cache_inv dev s xs \<Longrightarrow> i < NBUF \<Longrightarrow> j < NBUF \<Longrightarrow> matches dev b s i \<Longrightarrow> matches dev b s j \<Longrightarrow> i = j"
  by (auto simp: cache_inv_def)

lemma holder_eqI:
  assumes "cache_inv dev s xs" "i < NBUF" "matches dev b s i"
  shows "holder dev s b = Some i"
  using assms by (cases "holder dev s b") (auto dest: holder_NoneD holder_SomeD matches_unique)

lemma holder_Some_iff:
  "cache_inv dev s xs \<Longrightarrow> holder dev s b = Some i \<longleftrightarrow> i < NBUF \<and> matches dev b s i"
  using holder_SomeD holder_eqI by blast

lemma holder_cong:
  "(\<And>i. i < NBUF \<Longrightarrow> matches dev b s' i = matches dev b s i) \<Longrightarrow> holder dev s' b = holder dev s b"
  unfolding holder_def by (rule find_cong) auto

lemma finite_unused [simp]: "finite (unused s)"
  by (simp add: unused_def)

text \<open>
  The one change every operation makes: buffer \<open>i\<close>, which holds block \<open>b\<close> or is free to be
  recycled for it, becomes the valid buffer \<open>x\<close> of \<open>b\<close>.
\<close>

definition put_buf :: "nat \<Rightarrow> buf \<Rightarrow> bstate \<Rightarrow> bstate" where
  "put_buf i x s = s\<lparr>bufs := (bufs s)(i := x)\<rparr>"

definition can_put :: "u32 \<Rightarrow> bstate \<Rightarrow> nat \<Rightarrow> buf \<Rightarrow> u32 \<Rightarrow> bool" where
  "can_put dev s i x b \<longleftrightarrow> i < NBUF \<and> bdev x = dev \<and> blockno x = b \<and> bvalid x \<and>
     (holder dev s b = Some i \<or> holder dev s b = None \<and> refcnt (bufs s i) = 0) \<and>
     (refcnt x = 0 \<longrightarrow> \<not> slocked (block_lock x) \<and> bdata x = disk s b)"

lemma put_buf_simps [simp]:
  "bufs (put_buf i x s) = (bufs s)(i := x)" "bnext (put_buf i x s) = bnext s"
  "bprev (put_buf i x s) = bprev s" "disk (put_buf i x s) = disk s"
  "dtrace (put_buf i x s) = dtrace s"
  by (simp_all add: put_buf_def)

lemma put_buf_inv:
  assumes "cache_inv dev s xs" "can_put dev s i x b"
  shows "cache_inv dev (put_buf i x s) xs"
proof -
  have none: "\<not> matches dev b s j" if "j < NBUF" "j \<noteq> i" for j
    using assms that by (auto simp: can_put_def dest: holder_NoneD holder_SomeD matches_unique)
  have m: "matches dev c (put_buf i x s) j \<longleftrightarrow> (if j = i then c = b else matches dev c s j)" for c j
    using assms(2) by (auto simp: can_put_def matches_def)
  have "\<forall>j<NBUF. \<forall>k<NBUF. \<forall>c.
      matches dev c (put_buf i x s) j \<and> matches dev c (put_buf i x s) k \<longrightarrow> j = k"
    using none matches_unique [OF assms(1)] by (auto simp: m)
  then show ?thesis
    using assms by (auto simp: cache_inv_def can_put_def lru_def)
qed

lemma holder_put:
  assumes "cache_inv dev s xs" "can_put dev s i x b"
  shows "holder dev (put_buf i x s) b' =
    (if b' = b then Some i else if holder dev s b' = Some i then None else holder dev s b')"
proof -
  let ?s = "put_buf i x s"
  note inv' = put_buf_inv [OF assms]
  have x: "matches dev b ?s i" "i < NBUF" "\<And>j c. j \<noteq> i \<Longrightarrow> matches dev c ?s j = matches dev c s j"
    using assms(2) by (auto simp: can_put_def matches_def)
  show ?thesis
  proof (cases "b' = b")
    case True
    then show ?thesis using x holder_eqI [OF inv'] by simp
  next
    case False
    then have ni: "\<not> matches dev b' ?s i" using assms(2) by (auto simp: can_put_def matches_def)
    show ?thesis
    proof (cases "holder dev ?s b'")
      case None
      then have "holder dev s b' = None \<or> holder dev s b' = Some i"
        using x(3) by (cases "holder dev s b'") (auto dest: holder_NoneD holder_SomeD)
      with None False show ?thesis by auto
    next
      case (Some j)
      then have "j \<noteq> i" "j < NBUF" "matches dev b' ?s j" using ni by (auto dest: holder_SomeD)
      then have "holder dev s b' = Some j" using x(3) holder_eqI [OF assms(1)] by auto
      with Some False \<open>j \<noteq> i\<close> show ?thesis by simp
    qed
  qed
qed

text \<open>The buffer of another block is recycled only when it agrees with the disk.\<close>

lemma evicted_clean:
  assumes "cache_inv dev s xs" "can_put dev s i x b" "holder dev s b' = Some i" "b' \<noteq> b"
  shows "refcnt (bufs s i) = 0" "\<not> slocked (block_lock (bufs s i))"
    "bvalid (bufs s i) \<Longrightarrow> bdata (bufs s i) = disk s b'"
proof -
  have m: "matches dev b' s i" "i < NBUF" using assms(3) by (auto dest: holder_SomeD)
  then have "holder dev s b \<noteq> Some i"
    using assms(4) by (auto dest: holder_SomeD simp: matches_def)
  with assms(2) show r: "refcnt (bufs s i) = 0" by (auto simp: can_put_def)
  with assms(1) m show "\<not> slocked (block_lock (bufs s i))"
    "bvalid (bufs s i) \<Longrightarrow> bdata (bufs s i) = disk s b'"
    by (auto simp: cache_inv_def matches_def)
qed

lemma put_buf_abs:
  assumes "cache_inv dev s xs" "can_put dev s i x b"
  shows "bview dev (put_buf i x s) = (bview dev s)(b := bdata x)"
    and "brefs dev (put_buf i x s) = (brefs dev s)(b := refcnt x)"
    and "bheld dev (put_buf i x s) = (bheld dev s)(b := slocked (block_lock x))"
    and "unused (put_buf i x s) = (if refcnt x = 0 then insert i (unused s) else unused s - {i})"
proof -
  have ne: "j \<noteq> i" if "holder dev s b' = Some j" "holder dev s b' \<noteq> Some i" for b' j
    using that by auto
  have valid: "bvalid x" using assms(2) by (simp add: can_put_def)
  show "bview dev (put_buf i x s) = (bview dev s)(b := bdata x)"
    using evicted_clean [OF assms] ne valid
    by (auto simp: bview_def holder_put [OF assms] fun_eq_iff split: option.splits)
  show "brefs dev (put_buf i x s) = (brefs dev s)(b := refcnt x)"
    using evicted_clean [OF assms] ne
    by (auto simp: brefs_def holder_put [OF assms] fun_eq_iff split: option.splits)
  show "bheld dev (put_buf i x s) = (bheld dev s)(b := slocked (block_lock x))"
    using evicted_clean [OF assms] ne
    by (auto simp: bheld_def holder_put [OF assms] fun_eq_iff split: option.splits)
  show "unused (put_buf i x s) = (if refcnt x = 0 then insert i (unused s) else unused s - {i})"
    using assms(2) by (auto simp: unused_def can_put_def)
qed

section \<open>What the operations do\<close>

lemma find_holder:
  assumes "cache_inv dev s xs"
  shows "List.find (\<lambda>i. bdev (bufs s i) = dev \<and> blockno (bufs s i) = b) xs = holder dev s b"
proof -
  have xs: "set xs = {..<NBUF}" using assms by (simp add: cache_inv_def lru_def)
  show ?thesis
  proof (cases "List.find (\<lambda>i. bdev (bufs s i) = dev \<and> blockno (bufs s i) = b) xs")
    case None
    then have "holder dev s b = None"
      using xs unfolding holder_def by (auto simp: find_None_iff matches_def)
    with None show ?thesis by simp
  next
    case (Some i)
    then have "i < NBUF" "matches dev b s i"
      using xs by (auto simp: find_Some_iff matches_def)
    with Some holder_eqI [OF assms] show ?thesis by auto
  qed
qed

lemma valid_idem: "bvalid x \<Longrightarrow> x\<lparr>refcnt := r, block_lock := l, bvalid := True\<rparr> = x\<lparr>refcnt := r, block_lock := l\<rparr>"
  by (cases x) simp

lemma bread_put:
  assumes inv: "cache_inv dev s xs" and free: "\<not> bheld dev s b"
    and room: "brefs dev s b \<noteq> 0 \<or> unused s \<noteq> {}" and nowrap: "brefs dev s b + 1 \<noteq> 0"
  shows "\<exists>i x. bread pid dev b s = Inr (i, put_buf i x s) \<and> can_put dev s i x b \<and>
    bdata x = bview dev s b \<and> refcnt x = brefs dev s b + 1 \<and> holdingsleep pid (block_lock x) \<and>
    \<not> slocked (block_lock (bufs s i))"
proof -
  have l: "lru s xs" using inv by (simp add: cache_inv_def)
  note scans = bget_forward_scan [OF l] bget_backward_scan [OF l] find_holder [OF inv]
  show ?thesis
  proof (cases "holder dev s b")
    case (Some i)
    then have i: "i < NBUF" "matches dev b s i" "\<not> slocked (block_lock (bufs s i))"
      using free by (auto simp: bheld_def dest: holder_SomeD)
    let ?x = "(bufs s i)\<lparr>refcnt := refcnt (bufs s i) + 1,
      block_lock := (block_lock (bufs s i))\<lparr>slocked := True, spid := pid\<rparr>,
      bdata := bview dev s b, bvalid := True\<rparr>"
    have "bread pid dev b s = Inr (i, put_buf i ?x s)"
      using Some i by (auto simp: bread_def bget_def scans lock_buf_def acquiresleep_def disk_rw_def
          put_buf_def Let_def bview_def matches_def valid_idem)
    moreover have "can_put dev s i ?x b"
      using Some i nowrap by (auto simp: can_put_def matches_def brefs_def)
    ultimately show ?thesis
      using Some i by (auto simp: brefs_def holdingsleep_def)
  next
    case None
    then have "unused s \<noteq> {}" using room by (auto simp: brefs_def)
    then obtain i where f: "List.find (\<lambda>i. refcnt (bufs s i) = 0) (rev xs) = Some i"
      using l by (cases "List.find (\<lambda>i. refcnt (bufs s i) = 0) (rev xs)")
        (auto simp: find_None_iff unused_def lru_def)
    from find_SomeD [OF f] have i: "i < NBUF" "refcnt (bufs s i) = 0"
      using lru_range [OF l] by simp_all
    then have ul: "\<not> slocked (block_lock (bufs s i))" using inv by (auto simp: cache_inv_def)
    let ?x = "(bufs s i)\<lparr>bdev := dev, blockno := b, refcnt := 1,
      block_lock := (block_lock (bufs s i))\<lparr>slocked := True, spid := pid\<rparr>,
      bdata := disk s b, bvalid := True\<rparr>"
    have "bread pid dev b s = Inr (i, put_buf i ?x s)"
      using None i ul by (auto simp: bread_def bget_def scans f lock_buf_def acquiresleep_def
          disk_rw_def put_buf_def Let_def)
    moreover have "can_put dev s i ?x b"
      using None i by (auto simp: can_put_def)
    ultimately show ?thesis
      using None ul by (auto simp: brefs_def holdingsleep_def bview_def)
  qed
qed

lemma bread_no_buffers:
  assumes "cache_inv dev s xs" "brefs dev s b = 0" "unused s = {}"
  shows "bread pid dev b s = Inl (Panic ''bget: no buffers'')"
proof -
  have l: "lru s xs" using assms by (simp add: cache_inv_def)
  have "holder dev s b = None"
    using assms(2,3) by (cases "holder dev s b") (auto simp: brefs_def unused_def dest: holder_SomeD)
  moreover have "List.find (\<lambda>i. refcnt (bufs s i) = 0) (rev xs) = None"
    using assms(3) l by (auto simp: find_None_iff unused_def lru_def)
  ultimately show ?thesis
    by (simp add: bread_def bget_def bget_forward_scan [OF l] bget_backward_scan [OF l]
        find_holder [OF assms(1)])
qed

lemma owns_can_put:
  assumes "cache_inv dev s xs" "owns pid dev s i b"
    and "bdev x = bdev (bufs s i)" "blockno x = blockno (bufs s i)" "bvalid x"
    and "refcnt x = 0 \<longrightarrow> \<not> slocked (block_lock x) \<and> bdata x = disk s b"
  shows "can_put dev s i x b"
proof -
  have "holder dev s b = Some i"
    using assms(2) by (intro holder_eqI [OF assms(1)]) (auto simp: owns_def)
  then show ?thesis using assms by (auto simp: can_put_def owns_def matches_def)
qed

lemma owns_abs:
  assumes "cache_inv dev s xs" "owns pid dev s i b"
  shows "bview dev s b = bdata (bufs s i)" "brefs dev s b = refcnt (bufs s i)"
    "bheld dev s b" "i \<notin> unused s"
  using assms holder_eqI [OF assms(1)]
  by (auto simp: owns_def bview_def brefs_def bheld_def holdingsleep_def unused_def)

text \<open>
  \<open>bread\<close> as a specification: the caller owns the buffer of \<open>b\<close> with the contents readers see;
  what readers see does not change, and a buffer is recycled only if nobody uses it.
\<close>

lemma bread_spec:
  assumes inv: "cache_inv dev s xs" and "\<not> bheld dev s b"
    and "brefs dev s b \<noteq> 0 \<or> unused s \<noteq> {}" and "brefs dev s b + 1 \<noteq> 0"
  obtains i s' where "bread pid dev b s = Inr (i, s')" "cache_inv dev s' xs" "owns pid dev s' i b"
    "bdata (bufs s' i) = bview dev s b" "bview dev s' = bview dev s"
    "brefs dev s' = (brefs dev s)(b := brefs dev s b + 1)" "bheld dev s' = (bheld dev s)(b := True)"
    "disk s' = disk s" "dtrace s' = dtrace s"
    "nfree s' = (if brefs dev s b = 0 then nfree s - 1 else nfree s)"
    "\<And>j c. owns pid dev s j c \<Longrightarrow> owns pid dev s' j c \<and> bufs s' j = bufs s j"
proof -
  obtain i x where r: "bread pid dev b s = Inr (i, put_buf i x s)" and p: "can_put dev s i x b"
    and x: "bdata x = bview dev s b" "refcnt x = brefs dev s b + 1" "holdingsleep pid (block_lock x)"
    and ul: "\<not> slocked (block_lock (bufs s i))"
    using bread_put [OF assms, of pid] by blast
  note abs = put_buf_abs [OF inv p]
  have own: "owns pid dev (put_buf i x s) i b"
    using p x assms(4) by (auto simp: owns_def can_put_def matches_def)
  have "owns pid dev (put_buf i x s) j c \<and> bufs (put_buf i x s) j = bufs s j"
    if "owns pid dev s j c" for j c
  proof -
    from that ul have "j \<noteq> i" by (auto simp: owns_def holdingsleep_def)
    with that show ?thesis by (auto simp: owns_def matches_def)
  qed
  moreover have "bview dev (put_buf i x s) = bview dev s" using abs(1) x by auto
  moreover have "i \<in> unused s \<longleftrightarrow> brefs dev s b = 0"
    using p by (auto simp: can_put_def brefs_def unused_def)
  then have "nfree (put_buf i x s) = (if brefs dev s b = 0 then nfree s - 1 else nfree s)"
    using abs(4) x assms(4) by (auto simp: nfree_def card_Diff_singleton)
  ultimately show ?thesis
    using that [OF r put_buf_inv [OF inv p] own] abs x assms(4) by (auto simp: holdingsleep_def)
qed

text \<open>Changing the data of an owned buffer changes what readers of that block see.\<close>

lemma set_data_spec:
  assumes inv: "cache_inv dev s xs" and own: "owns pid dev s i b" and s'_def: "s' = set_data i d s"
  shows "cache_inv dev s' xs" "owns pid dev s' i b" "bview dev s' = (bview dev s)(b := d)"
    "brefs dev s' = brefs dev s" "bheld dev s' = bheld dev s" "disk s' = disk s" "dtrace s' = dtrace s"
    "unused s' = unused s"
proof -
  let ?x = "(bufs s i)\<lparr>bdata := d\<rparr>"
  have s': "s' = put_buf i ?x s" by (simp add: s'_def put_buf_def set_data_def)
  have p: "can_put dev s i ?x b"
    using own by (intro owns_can_put [OF inv own]) (auto simp: owns_def)
  note abs = put_buf_abs [OF inv p] owns_abs [OF inv own]
  show "cache_inv dev s' xs" unfolding s' by (rule put_buf_inv [OF inv p])
  show "owns pid dev s' i b" using own by (auto simp: s'_def set_data_def owns_def matches_def)
  show "bview dev s' = (bview dev s)(b := d)" using abs by (simp add: s')
  show "brefs dev s' = brefs dev s" using abs by (auto simp: s')
  show "bheld dev s' = bheld dev s" using abs own
    by (auto simp: s' owns_def holdingsleep_def fun_upd_idem)
  show "unused s' = unused s" using abs own by (auto simp: s' owns_def)
qed (simp_all add: s'_def set_data_def)

lemma bwrite_spec:
  assumes inv: "cache_inv dev s xs" and own: "owns pid dev s i b"
  obtains s' where "bwrite pid i s = Inr s'" "cache_inv dev s' xs" "bufs s' = bufs s"
    "bview dev s' = bview dev s" "brefs dev s' = brefs dev s" "bheld dev s' = bheld dev s"
    "disk s' = (disk s)(b := bview dev s b)" "dtrace s' = dtrace s @ [(b, bview dev s b)]"
    "unused s' = unused s"
proof -
  let ?d = "bdata (bufs s i)"
  let ?s = "s\<lparr>disk := (disk s)(b := ?d), dtrace := dtrace s @ [(b, ?d)]\<rparr>"
  have h: "holder dev s b = Some i"
    using own by (intro holder_eqI [OF inv]) (auto simp: owns_def)
  have hs: "holder dev ?s c = holder dev s c" for c by (intro holder_cong) (simp add: matches_def)
  have i: "bvalid (bufs s i)" "refcnt (bufs s i) \<noteq> 0" "i < NBUF" "matches dev b s i"
    using own by (auto simp: owns_def)
  have eq: "bwrite pid i s = Inr ?s"
    using own by (auto simp: bwrite_def disk_rw_def Let_def owns_def matches_def)
  have "blockno (bufs s j) \<noteq> b" if "j < NBUF" "bdev (bufs s j) = dev" "refcnt (bufs s j) = 0" for j
  proof
    assume "blockno (bufs s j) = b"
    then have "matches dev b s j" using that by (simp add: matches_def)
    then have "j = i" using matches_unique [OF inv that(1) i(3)] i(4) by blast
    then show False using that i(2) by simp
  qed
  then have "cache_inv dev ?s xs"
    using inv by (auto simp: cache_inv_def lru_def matches_def)
  moreover have "bview dev ?s = bview dev s"
    using h i(1) by (auto simp: bview_def hs fun_eq_iff split: option.splits)
  moreover have "brefs dev ?s = brefs dev s" "bheld dev ?s = bheld dev s" "unused ?s = unused s"
    by (auto simp: brefs_def bheld_def hs unused_def fun_eq_iff split: option.splits)
  moreover have "bview dev s b = ?d" using owns_abs [OF inv own] by simp
  ultimately show ?thesis using that [OF eq] by simp
qed

lemma lru_move_front:
  assumes l: "lru s xs" and i: "i < NBUF"
  defines "s1 \<equiv> s\<lparr>bprev := (bprev s)(bnext s i := bprev s i)\<rparr>"
  defines "s2 \<equiv> s1\<lparr>bnext := (bnext s1)(bprev s1 i := bnext s1 i)\<rparr>"
  shows "lru (link_front i s2) (i # remove1 i xs)"
proof -
  obtain ys zs where xs: "xs = ys @ i # zs" using l i by (metis lru_def lessThan_iff split_list)
  with l have d: "distinct (bhead # ys @ i # zs)" by (auto simp: lru_def)
  have seg: "dseg (bnext s) (bprev s) bhead (ys @ i # zs) bhead" using l xs by (simp add: lru_def)
  then have "bnext s i = hd (zs @ [bhead])" by (cases zs) (auto simp: dseg_append)
  with d have "bnext s i \<noteq> i" by (cases zs) auto
  then have "dseg (bnext s2) (bprev s2) bhead (ys @ zs) bhead"
    using dseg_unlink [OF seg d] by (simp add: s1_def s2_def)
  then have "dseg (bnext (link_front i s2)) (bprev (link_front i s2)) bhead (i # ys @ zs) bhead"
    using d by (intro lru_link_front) auto
  moreover have "remove1 i xs = ys @ zs" using d xs by (simp add: remove1_append)
  ultimately show ?thesis using l xs by (auto simp: lru_def)
qed

lemma link_front_simps [simp]:
  "bufs (link_front i s) = bufs s" "disk (link_front i s) = disk s" "dtrace (link_front i s) = dtrace s"
  by (simp_all add: link_front_def Let_def)

lemma abs_cong:
  assumes "bufs s' = bufs s" "disk s' = disk s"
  shows "bview dev s' = bview dev s" "brefs dev s' = brefs dev s" "bheld dev s' = bheld dev s"
    "unused s' = unused s"
proof -
  have "holder dev s' b = holder dev s b" for b
    using assms by (intro holder_cong) (simp add: matches_def)
  then show "bview dev s' = bview dev s" "brefs dev s' = brefs dev s" "bheld dev s' = bheld dev s"
    "unused s' = unused s"
    using assms
    by (auto simp: bview_def brefs_def bheld_def unused_def intro!: ext split: option.splits)
qed

lemma cache_inv_relink:
  assumes "cache_inv dev s xs" "bufs s' = bufs s" "disk s' = disk s" "lru s' ys"
  shows "cache_inv dev s' ys"
  using assms by (simp add: cache_inv_def matches_def)

lemma brelse_spec:
  assumes inv: "cache_inv dev s xs" and own: "owns pid dev s i b"
    and clean: "brefs dev s b = 1 \<Longrightarrow> bview dev s b = disk s b"
  obtains s' ys where "brelse pid i s = Inr s'" "cache_inv dev s' ys" "bview dev s' = bview dev s"
    "brefs dev s' = (brefs dev s)(b := brefs dev s b - 1)" "bheld dev s' = (bheld dev s)(b := False)"
    "disk s' = disk s" "dtrace s' = dtrace s"
    "nfree s' = (if brefs dev s b = 1 then nfree s + 1 else nfree s)"
    "\<And>j c. j \<noteq> i \<Longrightarrow> owns pid dev s j c \<Longrightarrow> owns pid dev s' j c \<and> bufs s' j = bufs s j"
    "ys = (if brefs dev s b = 1 then i # remove1 i xs else xs)"
proof -
  let ?x = "(bufs s i)\<lparr>block_lock := releasesleep (block_lock (bufs s i)), refcnt := refcnt (bufs s i) - 1\<rparr>"
  note oa = owns_abs [OF inv own]
  have r1: "refcnt (bufs s i) - 1 = 0 \<longleftrightarrow> brefs dev s b = 1" using oa(2) by auto
  have p: "can_put dev s i ?x b"
    using own clean oa r1 by (intro owns_can_put [OF inv own]) (auto simp: owns_def releasesleep_def)
  note inv1 = put_buf_inv [OF inv p] and abs = put_buf_abs [OF inv p]
  define s1 where "s1 = put_buf i ?x s"
  have s1: "cache_inv dev s1 xs" "bview dev s1 = bview dev s"
    "brefs dev s1 = (brefs dev s)(b := brefs dev s b - 1)" "bheld dev s1 = (bheld dev s)(b := False)"
    "disk s1 = disk s" "dtrace s1 = dtrace s"
    "nfree s1 = (if brefs dev s b = 1 then nfree s + 1 else nfree s)"
    "\<And>j c. j \<noteq> i \<Longrightarrow> owns pid dev s j c \<Longrightarrow> owns pid dev s1 j c \<and> bufs s1 j = bufs s j"
    using inv1 abs oa r1 by (auto simp: s1_def releasesleep_def owns_def matches_def nfree_def)
  define u where "u = s1\<lparr>bprev := (bprev s1)(bnext s1 i := bprev s1 i)\<rparr>"
  define v where "v = u\<lparr>bnext := (bnext u)(bprev u i := bnext u i)\<rparr>"
  have eq: "brelse pid i s = Inr (if brefs dev s b = 1 then link_front i v else s1)"
    using own r1 by (auto simp: brelse_def Let_def s1_def u_def v_def put_buf_def owns_def)
  show ?thesis
  proof (cases "brefs dev s b = 1")
    case True
    have "lru (link_front i v) (i # remove1 i xs)"
      using lru_move_front [of s1 xs i] s1(1) own by (simp add: u_def v_def cache_inv_def owns_def)
    moreover have "bufs (link_front i v) = bufs s1" "disk (link_front i v) = disk s1"
      "dtrace (link_front i v) = dtrace s1" by (simp_all add: u_def v_def)
    ultimately show ?thesis
      using that [of "link_front i v" "i # remove1 i xs"] eq True s1 abs_cong [of "link_front i v" s1]
        cache_inv_relink [OF s1(1)] by (auto simp: owns_def matches_def nfree_def)
  next
    case False
    then show ?thesis using that [of s1 xs] eq s1 by auto
  qed
qed

lemma bpin_spec:
  assumes inv: "cache_inv dev s xs" and own: "owns pid dev s i b" and "brefs dev s b + 1 \<noteq> 0"
    and s'_def: "s' = bpin i s"
  shows "cache_inv dev s' xs" "owns pid dev s' i b" "bview dev s' = bview dev s"
    "brefs dev s' = (brefs dev s)(b := brefs dev s b + 1)" "bheld dev s' = bheld dev s"
    "disk s' = disk s" "dtrace s' = dtrace s" "unused s' = unused s" "bdata (bufs s' i) = bdata (bufs s i)"
    "\<And>j c. owns pid dev s j c \<Longrightarrow> owns pid dev s' j c"
proof -
  let ?x = "(bufs s i)\<lparr>refcnt := refcnt (bufs s i) + 1\<rparr>"
  note oa = owns_abs [OF inv own]
  have s': "s' = put_buf i ?x s" by (simp add: s'_def bpin_def put_buf_def)
  have p: "can_put dev s i ?x b"
    using own assms(3) oa by (intro owns_can_put [OF inv own]) (auto simp: owns_def)
  note abs = put_buf_abs [OF inv p]
  show "cache_inv dev s' xs" unfolding s' by (rule put_buf_inv [OF inv p])
  show "\<And>j c. owns pid dev s j c \<Longrightarrow> owns pid dev s' j c"
    using assms(3) oa by (auto simp: s' owns_def matches_def)
  then show "owns pid dev s' i b" using own .
  show "bview dev s' = bview dev s" "brefs dev s' = (brefs dev s)(b := brefs dev s b + 1)"
    "bheld dev s' = bheld dev s" "unused s' = unused s"
    using abs oa assms(3) own by (auto simp: s' fun_upd_idem owns_def holdingsleep_def)
qed (simp_all add: s'_def bpin_def)

lemma bunpin_spec:
  assumes inv: "cache_inv dev s xs" and own: "owns pid dev s i b" and "brefs dev s b - 1 \<noteq> 0"
    and s'_def: "s' = bunpin i s"
  shows "cache_inv dev s' xs" "owns pid dev s' i b" "bview dev s' = bview dev s"
    "brefs dev s' = (brefs dev s)(b := brefs dev s b - 1)" "bheld dev s' = bheld dev s"
    "disk s' = disk s" "dtrace s' = dtrace s" "unused s' = unused s"
    "\<And>j c. owns pid dev s j c \<Longrightarrow> owns pid dev s' j c"
proof -
  let ?x = "(bufs s i)\<lparr>refcnt := refcnt (bufs s i) - 1\<rparr>"
  note oa = owns_abs [OF inv own]
  have s': "s' = put_buf i ?x s" by (simp add: s'_def bunpin_def put_buf_def)
  have p: "can_put dev s i ?x b"
    using own assms(3) oa by (intro owns_can_put [OF inv own]) (auto simp: owns_def)
  note abs = put_buf_abs [OF inv p]
  show "cache_inv dev s' xs" unfolding s' by (rule put_buf_inv [OF inv p])
  show "\<And>j c. owns pid dev s j c \<Longrightarrow> owns pid dev s' j c"
    using assms(3) oa by (auto simp: s' owns_def matches_def)
  then show "owns pid dev s' i b" using own .
  show "bview dev s' = bview dev s" "brefs dev s' = (brefs dev s)(b := brefs dev s b - 1)"
    "bheld dev s' = bheld dev s" "unused s' = unused s"
    using abs oa assms(3) own by (auto simp: s' fun_upd_idem owns_def holdingsleep_def)
qed (simp_all add: s'_def bunpin_def)

lemma unreferenced_clean:
  assumes "cache_inv dev s xs" "brefs dev s b = 0"
  shows "bview dev s b = disk s b"
  using assms
  by (auto simp: bview_def brefs_def cache_inv_def matches_def dest!: holder_SomeD split: option.splits)

lemma nfree_pos: "nfree s \<noteq> 0 \<longleftrightarrow> unused s \<noteq> {}"
  by (simp add: nfree_def)

section \<open>The operations on the abstract state\<close>

text \<open>
  \<open>abs_state dev c v r h d t n\<close> names everything clients depend on: the contents readers see, the
  references and locks per block, the disk, the writes so far, and the number of spare buffers.
\<close>

definition abs_state :: "u32 \<Rightarrow> bstate \<Rightarrow> (u32 \<Rightarrow> block) \<Rightarrow> (u32 \<Rightarrow> u32) \<Rightarrow> (u32 \<Rightarrow> bool) \<Rightarrow>
    (u32 \<Rightarrow> block) \<Rightarrow> (u32 \<times> block) list \<Rightarrow> nat \<Rightarrow> bool" where
  "abs_state dev c v r h d t n \<longleftrightarrow> (\<exists>xs. cache_inv dev c xs) \<and> bview dev c = v \<and> brefs dev c = r \<and>
     bheld dev c = h \<and> disk c = d \<and> dtrace c = t \<and> nfree c = n"

lemma abs_state_clean: "abs_state dev c v r h d t n \<Longrightarrow> r b = 0 \<Longrightarrow> v b = d b"
  using unreferenced_clean by (auto simp: abs_state_def)

lemma abs_state_owns:
  assumes "abs_state dev c v r h d t n" "owns pid dev c i b"
  shows "bdata (bufs c i) = v b" "r b \<noteq> 0" "h b"
  using assms owns_abs [of dev c _ pid i b] by (auto simp: abs_state_def owns_def)

lemma abs_bread:
  assumes "abs_state dev c v r h d t n" "\<not> h b" "r b \<noteq> 0 \<or> n \<noteq> 0" "r b + 1 \<noteq> 0"
  obtains i c' where "bread pid dev b c = Inr (i, c')" "owns pid dev c' i b"
    "abs_state dev c' v (r(b := r b + 1)) (h(b := True)) d t (if r b = 0 then n - 1 else n)"
    "\<And>j e. owns pid dev c j e \<Longrightarrow> owns pid dev c' j e"
proof -
  obtain xs where "cache_inv dev c xs" using assms(1) by (auto simp: abs_state_def)
  then show ?thesis
    using assms(2-4) by (rule_tac bread_spec [of dev c xs b pid])
      (use assms nfree_pos [of c] that in \<open>auto simp: abs_state_def\<close>)
qed

lemma abs_set_data:
  assumes "abs_state dev c v r h d t n" "owns pid dev c i b"
  shows "abs_state dev (set_data i x c) (v(b := x)) r h d t n"
    "owns pid dev c j e \<Longrightarrow> owns pid dev (set_data i x c) j e"
proof -
  obtain xs where "cache_inv dev c xs" using assms(1) by (auto simp: abs_state_def)
  note s = set_data_spec [OF this assms(2) refl, of x]
  show "abs_state dev (set_data i x c) (v(b := x)) r h d t n"
    using s assms(1) by (auto simp: abs_state_def nfree_def)
  show "owns pid dev c j e \<Longrightarrow> owns pid dev (set_data i x c) j e"
    by (auto simp: owns_def set_data_def matches_def)
qed

lemma abs_bwrite:
  assumes "abs_state dev c v r h d t n" "owns pid dev c i b"
  obtains c' where "bwrite pid i c = Inr c'" "abs_state dev c' v r h (d(b := v b)) (t @ [(b, v b)]) n"
    "\<And>j e. owns pid dev c j e \<Longrightarrow> owns pid dev c' j e"
proof -
  obtain xs where inv: "cache_inv dev c xs" using assms(1) by (auto simp: abs_state_def)
  obtain c' where "bwrite pid i c = Inr c'" "cache_inv dev c' xs" "bufs c' = bufs c"
    "bview dev c' = bview dev c" "brefs dev c' = brefs dev c" "bheld dev c' = bheld dev c"
    "disk c' = (disk c)(b := bview dev c b)" "dtrace c' = dtrace c @ [(b, bview dev c b)]"
    "unused c' = unused c"
    using bwrite_spec [OF inv assms(2)] by metis
  then show ?thesis
    using assms(1) by (intro that) (auto simp: abs_state_def nfree_def owns_def matches_def)
qed

lemma abs_brelse:
  assumes "abs_state dev c v r h d t n" "owns pid dev c i b" "r b = 1 \<Longrightarrow> v b = d b"
  obtains c' where "brelse pid i c = Inr c'"
    "abs_state dev c' v (r(b := r b - 1)) (h(b := False)) d t (if r b = 1 then n + 1 else n)"
    "\<And>j e. j \<noteq> i \<Longrightarrow> owns pid dev c j e \<Longrightarrow> owns pid dev c' j e"
proof -
  obtain xs where inv: "cache_inv dev c xs" using assms(1) by (auto simp: abs_state_def)
  show ?thesis
    by (rule brelse_spec [OF inv assms(2)]) (use assms that in \<open>auto simp: abs_state_def\<close>)
qed

lemma abs_bpin:
  assumes "abs_state dev c v r h d t n" "owns pid dev c i b" "r b + 1 \<noteq> 0"
  shows "abs_state dev (bpin i c) v (r(b := r b + 1)) h d t n"
    "owns pid dev c j e \<Longrightarrow> owns pid dev (bpin i c) j e"
proof -
  obtain xs where inv: "cache_inv dev c xs" using assms(1) by (auto simp: abs_state_def)
  have "brefs dev c b + 1 \<noteq> 0" using assms by (auto simp: abs_state_def)
  note s = bpin_spec [OF inv assms(2) this refl]
  show "abs_state dev (bpin i c) v (r(b := r b + 1)) h d t n"
    using s assms(1) by (auto simp: abs_state_def nfree_def)
  show "owns pid dev c j e \<Longrightarrow> owns pid dev (bpin i c) j e" using s by blast
qed

lemma abs_bunpin:
  assumes "abs_state dev c v r h d t n" "owns pid dev c i b" "r b - 1 \<noteq> 0"
  shows "abs_state dev (bunpin i c) v (r(b := r b - 1)) h d t n"
    "owns pid dev c j e \<Longrightarrow> owns pid dev (bunpin i c) j e"
proof -
  obtain xs where inv: "cache_inv dev c xs" using assms(1) by (auto simp: abs_state_def)
  have "brefs dev c b - 1 \<noteq> 0" using assms by (auto simp: abs_state_def)
  note s = bunpin_spec [OF inv assms(2) this refl]
  show "abs_state dev (bunpin i c) v (r(b := r b - 1)) h d t n"
    using s assms(1) by (auto simp: abs_state_def nfree_def)
  show "owns pid dev c j e \<Longrightarrow> owns pid dev (bunpin i c) j e" using s by blast
qed

lemma owns_distinct:
  "owns pid dev c i b \<Longrightarrow> owns pid dev c j e \<Longrightarrow> b \<noteq> e \<Longrightarrow> i \<noteq> j"
  by (auto simp: owns_def matches_def)

text \<open>The cache after a reboot: \<open>binit\<close> on zeroed memory.\<close>

definition boot_cache :: "(u32 \<Rightarrow> block) \<Rightarrow> bstate" where
  "boot_cache d = binit \<lparr>bufs = (\<lambda>_. zero_buf), bnext = (\<lambda>_. 0), bprev = (\<lambda>_. 0), disk = d, dtrace = []\<rparr>"

lemma binit_loop_bufs:
  "(\<And>i. bufs s i = zero_buf) \<Longrightarrow> bufs (binit_loop b k s) i = zero_buf \<and>
     disk (binit_loop b k s) = disk s \<and> dtrace (binit_loop b k s) = dtrace s"
proof (induction k arbitrary: b s)
  case (Suc k)
  have "bufs (link_front b (s\<lparr>bufs := (bufs s)(b := (bufs s b)\<lparr>block_lock := initsleeplock\<rparr>)\<rparr>)) i = zero_buf"
    for i using Suc.prems by (simp add: zero_buf_def)
  from Suc.IH [OF this] show ?case by simp
qed simp

lemma boot_cache_abs:
  assumes "dev \<noteq> 0"
  shows "abs_state dev (boot_cache d) d (\<lambda>_. 0) (\<lambda>_. False) d [] NBUF"
proof -
  have c: "bufs (boot_cache d) i = zero_buf" "disk (boot_cache d) = d" "dtrace (boot_cache d) = []" for i
    using binit_loop_bufs by (simp_all add: boot_cache_def binit_def)
  have m: "\<not> matches dev b (boot_cache d) i" for b i
    using assms by (simp add: matches_def c zero_buf_def)
  then have h: "holder dev (boot_cache d) b = None" for b
    by (simp add: holder_def find_None_iff)
  have "lru (boot_cache d) (rev [0..<NBUF])" by (simp add: boot_cache_def binit_lru)
  then have "cache_inv dev (boot_cache d) (rev [0..<NBUF])"
    using m assms by (simp add: cache_inv_def c) (simp add: zero_buf_def initsleeplock_def)
  moreover have "unused (boot_cache d) = {..<NBUF}" by (auto simp: unused_def c zero_buf_def)
  moreover from this have "nfree (boot_cache d) = NBUF" by (simp add: nfree_def)
  moreover have "bview dev (boot_cache d) = d" "brefs dev (boot_cache d) = (\<lambda>_. 0)"
    "bheld dev (boot_cache d) = (\<lambda>_. False)"
    by (intro ext; simp add: bview_def brefs_def bheld_def h c)+
  ultimately show ?thesis
    unfolding abs_state_def using c(2,3) by blast
qed

section \<open>Properties\<close>

text \<open>C7: \<open>bread\<close> of a block nobody holds locked returns a locked buffer of that block with the
  contents its last holder left; no reader of any block sees a change, the disk is only read, and
  of the other buffers only one that nobody references may change. It panics exactly when the
  block is not referenced and every buffer is.\<close>

theorem bread_correct:
  assumes "cache_inv dev s xs" "\<not> bheld dev s b" "brefs dev s b + 1 \<noteq> 0"
  shows "if brefs dev s b = 0 \<and> unused s = {} then bread pid dev b s = Inl (Panic ''bget: no buffers'')
    else \<exists>i s'. bread pid dev b s = Inr (i, s') \<and> cache_inv dev s' xs \<and> owns pid dev s' i b \<and>
      bdata (bufs s' i) = bview dev s b \<and> bview dev s' = bview dev s \<and>
      brefs dev s' = (brefs dev s)(b := brefs dev s b + 1) \<and> disk s' = disk s \<and> dtrace s' = dtrace s \<and>
      (\<forall>j<NBUF. j \<noteq> i \<longrightarrow> bufs s' j = bufs s j) \<and> (matches dev b s i \<or> refcnt (bufs s i) = 0)"
proof (cases "brefs dev s b = 0 \<and> unused s = {}")
  case True
  then show ?thesis using bread_no_buffers [OF assms(1)] by simp
next
  case False
  obtain i x where r: "bread pid dev b s = Inr (i, put_buf i x s)" and p: "can_put dev s i x b"
    using bread_put [OF assms(1,2) _ assms(3), of pid] False by blast
  obtain i' s' where s': "bread pid dev b s = Inr (i', s')" "cache_inv dev s' xs" "owns pid dev s' i' b"
    "bdata (bufs s' i') = bview dev s b" "bview dev s' = bview dev s"
    "brefs dev s' = (brefs dev s)(b := brefs dev s b + 1)" "disk s' = disk s" "dtrace s' = dtrace s"
    using bread_spec [OF assms(1,2) _ assms(3), of pid thesis] False by blast
  have "i' = i" "s' = put_buf i x s" using r s'(1) by auto
  moreover have "matches dev b s i \<or> refcnt (bufs s i) = 0"
    using p holder_SomeD by (auto simp: can_put_def)
  ultimately have "\<exists>i s'. bread pid dev b s = Inr (i, s') \<and> cache_inv dev s' xs \<and> owns pid dev s' i b \<and>
      bdata (bufs s' i) = bview dev s b \<and> bview dev s' = bview dev s \<and>
      brefs dev s' = (brefs dev s)(b := brefs dev s b + 1) \<and> disk s' = disk s \<and> dtrace s' = dtrace s \<and>
      (\<forall>j<NBUF. j \<noteq> i \<longrightarrow> bufs s' j = bufs s j) \<and> (matches dev b s i \<or> refcnt (bufs s i) = 0)"
    using s' by (intro exI [of _ i] exI [of _ s']) (auto simp: put_buf_def)
  then show ?thesis by (simp only: if_not_P [OF False])
qed

lemma boot_example:
  obtains xs where "cache_inv 1 (boot_cache d) xs" "\<not> bheld 1 (boot_cache d) b" "brefs 1 (boot_cache d) b = 0"
    "unused (boot_cache d) \<noteq> {}" "bview 1 (boot_cache d) = d"
  using boot_cache_abs [of 1 d] nfree_pos [of "boot_cache d"] by (auto simp: abs_state_def xv6_const)

theorem bread_correct_witness:
  "\<exists>i s'. bread 3 1 7 (boot_cache (\<lambda>b. [ucast b])) = Inr (i, s') \<and> bdata (bufs s' i) = [7]"
proof -
  obtain xs where "cache_inv 1 (boot_cache (\<lambda>b. [ucast b])) xs" "\<not> bheld 1 (boot_cache (\<lambda>b. [ucast b])) 7"
    "brefs 1 (boot_cache (\<lambda>b. [ucast b])) 7 = 0" "unused (boot_cache (\<lambda>b. [ucast b])) \<noteq> {}"
    "bview 1 (boot_cache (\<lambda>b. [ucast b])) = (\<lambda>b. [ucast b])" by (rule boot_example)
  then show ?thesis using bread_correct [of 1 "boot_cache (\<lambda>b. [ucast b])" xs 7 3] by auto
qed

text \<open>C8: Releasing a buffer the caller owns does not panic and keeps the cache invariant; when it
  was the last reference (and the data is on disk) the buffer moves to the most-recently-used end
  of the list and the order of the others is kept, otherwise the list does not change.\<close>

theorem brelse_correct:
  assumes "cache_inv dev s xs" "owns pid dev s i b" "brefs dev s b = 1 \<longrightarrow> bview dev s b = disk s b"
  shows "\<exists>s'. brelse pid i s = Inr s' \<and>
    cache_inv dev s' (if brefs dev s b = 1 then i # remove1 i xs else xs) \<and>
    bview dev s' = bview dev s \<and> brefs dev s' = (brefs dev s)(b := brefs dev s b - 1) \<and> \<not> bheld dev s' b"
  by (rule brelse_spec [OF assms(1,2)]) (use assms(3) in auto)

theorem brelse_correct_witness:
  "\<exists>i s s' xs. owns 3 1 s i 7 \<and> brelse 3 i s = Inr s' \<and> cache_inv 1 s' (i # xs)"
proof -
  obtain i s where s: "owns 3 1 s i 7"
    "abs_state 1 s (\<lambda>b. [ucast b]) ((\<lambda>_. 0)(7 := 1)) ((\<lambda>_. False)(7 := True)) (\<lambda>b. [ucast b]) [] (NBUF - 1)"
    by (rule abs_bread [OF boot_cache_abs [where dev = 1 and d = "\<lambda>b. [ucast b]"], where b = 7 and pid = 3]) (auto simp: xv6_const)
  then obtain xs where "cache_inv 1 s xs" "brefs 1 s 7 = 1" "bview 1 s 7 = disk s 7"
    by (auto simp: abs_state_def)
  with s(1) show ?thesis using brelse_correct [of 1 s xs 3 i 7] by auto
qed

end
