(* ===== verification/Log.thy ===== *)
theory Log
  imports Bio
begin

text \<open>
  \<^verbatim>\<open>kernel/log.c\<close>, the write-ahead log, on top of the buffer cache of theory Bio. \<open>lh_n\<close> and
  \<open>lh_block\<close> are the in-memory log header, the on-disk header is the little-endian encoding of the
  same structure in block \<open>start\<close>. An access to \<open>lh_block\<close> past its \<open>LOGBLOCKS\<close> entries is \<open>UB\<close>.
  \<open>wakeup(&log)\<close> only makes sleeping processes runnable (theory Proc) and \<open>printf\<close> only writes to
  the console, so neither has an effect on this state; a \<open>begin_op\<close> that has to wait is \<open>Blocked\<close>.
\<close>

section \<open>State\<close>

record lstate =
  cache :: bstate
  start :: u32
  outstanding :: int
  committing :: bool
  ldev :: u32
  lh_n :: int
  lh_block :: "u32 list"

section \<open>Operations\<close>

text \<open>The loop body that \<open>install_trans\<close> and \<open>write_log\<close> go through once per logged block.\<close>

fun install_loop :: "cint \<Rightarrow> bool \<Rightarrow> nat \<Rightarrow> nat \<Rightarrow> lstate \<Rightarrow> lstate result" where
  "install_loop pid recovering tail 0 s = Inr s"
| "install_loop pid recovering tail (Suc k) s =
     (if length (lh_block s) \<le> tail then Inl (UB ''log.lh.block'')
      else
        bind_result (bread pid (ldev s) (start s + of_nat tail + 1) (cache s)) (\<lambda>(lbuf, c).
        bind_result (bread pid (ldev s) (lh_block s ! tail) c) (\<lambda>(dbuf, c).
        bind_result (bwrite pid dbuf (set_data dbuf (bdata (bufs c lbuf)) c)) (\<lambda>c.
        bind_result (brelse pid lbuf (if recovering then c else bunpin dbuf c)) (\<lambda>c.
        bind_result (brelse pid dbuf c) (\<lambda>c.
        install_loop pid recovering (Suc tail) k (s\<lparr>cache := c\<rparr>)))))))"

definition install_trans :: "cint \<Rightarrow> bool \<Rightarrow> lstate \<Rightarrow> lstate result" where
  "install_trans pid recovering s = install_loop pid recovering 0 (nat (lh_n s)) s"

fun read_entries :: "block \<Rightarrow> nat \<Rightarrow> nat \<Rightarrow> u32 list \<Rightarrow> u32 list result" where
  "read_entries d i 0 bl = Inr bl"
| "read_entries d i (Suc k) bl =
     (if length bl \<le> i then Inl (UB ''log.lh.block'')
      else read_entries d (Suc i) k (bl[i := get32 d (4 + 4 * i)]))"

definition read_head :: "cint \<Rightarrow> lstate \<Rightarrow> lstate result" where
  "read_head pid s =
     bind_result (bread pid (ldev s) (start s) (cache s)) (\<lambda>(b, c).
       let d = bdata (bufs c b); n = sint (get32 d 0)
       in bind_result (read_entries d 0 (nat n) (lh_block s)) (\<lambda>bl.
          bind_result (brelse pid b c) (\<lambda>c.
          Inr (s\<lparr>cache := c, lh_n := n, lh_block := bl\<rparr>))))"

fun write_entries :: "u32 list \<Rightarrow> nat \<Rightarrow> nat \<Rightarrow> block \<Rightarrow> block" where
  "write_entries bl i 0 d = d"
| "write_entries bl i (Suc k) d = write_entries bl (Suc i) k (put32 d (4 + 4 * i) (bl ! i))"

definition write_head :: "cint \<Rightarrow> lstate \<Rightarrow> lstate result" where
  "write_head pid s =
     (if length (lh_block s) < nat (lh_n s) then Inl (UB ''log.lh.block'')
      else
        bind_result (bread pid (ldev s) (start s) (cache s)) (\<lambda>(b, c).
          let d = put32 (bdata (bufs c b)) 0 (of_int (lh_n s));
              d = write_entries (lh_block s) 0 (nat (lh_n s)) d
          in bind_result (bwrite pid b (set_data b d c)) (\<lambda>c.
             bind_result (brelse pid b c) (\<lambda>c. Inr (s\<lparr>cache := c\<rparr>)))))"

definition recover_from_log :: "cint \<Rightarrow> lstate \<Rightarrow> lstate result" where
  "recover_from_log pid s =
     bind_result (read_head pid s) (\<lambda>s.
     bind_result (install_trans pid True s) (\<lambda>s.
     write_head pid (s\<lparr>lh_n := 0\<rparr>)))"

definition initlog :: "cint \<Rightarrow> u32 \<Rightarrow> u32 \<Rightarrow> lstate \<Rightarrow> lstate result" where
  "initlog pid dev logstart s =
     (if BSIZE \<le> 4 + 4 * LOGBLOCKS then Inl (Panic ''initlog: too big logheader'')
      else recover_from_log pid (s\<lparr>start := logstart, ldev := dev\<rparr>))"

definition begin_op :: "lstate \<Rightarrow> lstate result" where
  "begin_op s =
     (if committing s then Inl (Blocked ''log'')
      else if lh_n s + (outstanding s + 1) * int MAXOPBLOCKS > int LOGBLOCKS then Inl (Blocked ''log'')
      else Inr (s\<lparr>outstanding := outstanding s + 1\<rparr>))"

fun write_log_loop :: "cint \<Rightarrow> nat \<Rightarrow> nat \<Rightarrow> lstate \<Rightarrow> lstate result" where
  "write_log_loop pid tail 0 s = Inr s"
| "write_log_loop pid tail (Suc k) s =
     (if length (lh_block s) \<le> tail then Inl (UB ''log.lh.block'')
      else
        bind_result (bread pid (ldev s) (start s + of_nat tail + 1) (cache s)) (\<lambda>(to, c).
        bind_result (bread pid (ldev s) (lh_block s ! tail) c) (\<lambda>(from, c).
        bind_result (bwrite pid to (set_data to (bdata (bufs c from)) c)) (\<lambda>c.
        bind_result (brelse pid from c) (\<lambda>c.
        bind_result (brelse pid to c) (\<lambda>c.
        write_log_loop pid (Suc tail) k (s\<lparr>cache := c\<rparr>)))))))"

definition write_log :: "cint \<Rightarrow> lstate \<Rightarrow> lstate result" where
  "write_log pid s = write_log_loop pid 0 (nat (lh_n s)) s"

definition commit :: "cint \<Rightarrow> lstate \<Rightarrow> lstate result" where
  "commit pid s =
     (if lh_n s > 0
      then bind_result (write_log pid s) (\<lambda>s.
           bind_result (write_head pid s) (\<lambda>s.
           bind_result (install_trans pid False s) (\<lambda>s.
           write_head pid (s\<lparr>lh_n := 0\<rparr>))))
      else Inr s)"

definition end_op :: "cint \<Rightarrow> lstate \<Rightarrow> lstate result" where
  "end_op pid s =
     (let s = s\<lparr>outstanding := outstanding s - 1\<rparr>
      in if committing s then Inl (Panic ''log.committing'')
         else if outstanding s = 0
         then bind_result (commit pid (s\<lparr>committing := True\<rparr>)) (\<lambda>s. Inr (s\<lparr>committing := False\<rparr>))
         else Inr s)"

text \<open>The absorption loop of \<open>log_write\<close>: the index of \<open>b\<close> among the first entries, or their number.\<close>

fun find_entry :: "u32 list \<Rightarrow> u32 \<Rightarrow> nat \<Rightarrow> nat \<Rightarrow> nat" where
  "find_entry bl b i 0 = i"
| "find_entry bl b i (Suc k) = (if bl ! i = b then i else find_entry bl b (Suc i) k)"

definition log_write :: "nat \<Rightarrow> lstate \<Rightarrow> lstate result" where
  "log_write b s =
     (if lh_n s \<ge> int LOGBLOCKS then Inl (Panic ''too big a transaction'')
      else if outstanding s < 1 then Inl (Panic ''log_write outside of trans'')
      else
        let bno = blockno (bufs (cache s) b);
            i = find_entry (lh_block s) bno 0 (nat (lh_n s));
            s = s\<lparr>lh_block := (lh_block s)[i := bno]\<rparr>
        in if int i = lh_n s
           then Inr (s\<lparr>cache := bpin b (cache s), lh_n := lh_n s + 1\<rparr>)
           else Inr s)"

section \<open>Copying a block through the cache\<close>

text \<open>What one turn of either loop does to what readers see, to the disk and to the references.\<close>

lemma small_ref: "r < 5 \<Longrightarrow> r + 1 \<noteq> (0 :: u32)"
  by (auto simp: word_less_nat_alt unat_arith_simps)

lemma small_ref1: "r < 5 \<Longrightarrow> r + 1 = (1 :: u32) \<longleftrightarrow> r = 0"
  by (auto simp: word_less_nat_alt unat_arith_simps)

lemma spare_two: "2 \<le> n \<Longrightarrow> Suc (n - Suc (Suc 0)) = n - Suc 0"
  by simp

lemma copy_to_log:
  assumes a: "abs_state dev c v r (\<lambda>_. False) d t n" and "dst \<noteq> src" "r dst = 0" "r src < 5"
    and spare: "2 \<le> n \<or> (1 \<le> n \<and> r src \<noteq> 0)"
  obtains c' where
    "\<And>f :: bstate \<Rightarrow> lstate result. bind_result (bread pid dev dst c) (\<lambda>(to, c).
        bind_result (bread pid dev src c) (\<lambda>(from, c).
        bind_result (bwrite pid to (set_data to (bdata (bufs c from)) c)) (\<lambda>c.
        bind_result (brelse pid from c) (\<lambda>c.
        bind_result (brelse pid to c) f)))) = f c'"
    "abs_state dev c' (v(dst := v src)) r (\<lambda>_. False) (d(dst := v src)) (t @ [(dst, v src)]) n"
proof -
  obtain i c1 where c1: "bread pid dev dst c = Inr (i, c1)" "owns pid dev c1 i dst"
    "abs_state dev c1 v (r(dst := 1)) ((\<lambda>_. False)(dst := True)) d t (n - 1)"
    by (rule abs_bread [OF a, of dst pid]) (use assms in auto)
  obtain j c2 where c2: "bread pid dev src c1 = Inr (j, c2)" "owns pid dev c2 j src" "owns pid dev c2 i dst"
    "abs_state dev c2 v (r(dst := 1, src := r src + 1)) ((\<lambda>_. False)(dst := True, src := True)) d t
       (if r src = 0 then n - 1 - 1 else n - 1)"
    by (rule abs_bread [OF c1(3), of src pid])
      (use assms small_ref c1(2) in \<open>auto simp: fun_upd_twist\<close>)
  note x = abs_state_owns(1) [OF c2(4,2)]
  define c3 where "c3 = set_data i (bdata (bufs c2 j)) c2"
  have c3: "abs_state dev c3 (v(dst := v src)) (r(dst := 1, src := r src + 1))
      ((\<lambda>_. False)(dst := True, src := True)) d t (if r src = 0 then n - 1 - 1 else n - 1)"
    "owns pid dev c3 i dst" "owns pid dev c3 j src"
    using abs_set_data [OF c2(4,3)] c2 x by (simp_all add: c3_def)
  obtain c4 where c4: "bwrite pid i c3 = Inr c4" "owns pid dev c4 i dst" "owns pid dev c4 j src"
    "abs_state dev c4 (v(dst := v src)) (r(dst := 1, src := r src + 1))
      ((\<lambda>_. False)(dst := True, src := True)) (d(dst := v src)) (t @ [(dst, v src)])
      (if r src = 0 then n - 1 - 1 else n - 1)"
    by (rule abs_bwrite [OF c3(1,2)]) (use c3 in simp)
  have ij: "j \<noteq> i" using owns_distinct c4(2,3) assms(2) by blast
  obtain c5 where c5: "brelse pid j c4 = Inr c5" "owns pid dev c5 i dst"
    "abs_state dev c5 (v(dst := v src)) (r(dst := 1))
      ((\<lambda>_. False)(dst := True)) (d(dst := v src)) (t @ [(dst, v src)]) (n - 1)"
    by (rule abs_brelse [OF c4(4,3)])
      (use assms ij c4(2) small_ref1 spare_two [of n] abs_state_clean [OF a, of src] in
        \<open>auto simp: fun_upd_twist fun_upd_idem split: if_splits\<close>)
  obtain c6 where c6: "brelse pid i c5 = Inr c6"
    "abs_state dev c6 (v(dst := v src)) r (\<lambda>_. False) (d(dst := v src)) (t @ [(dst, v src)]) n"
    by (rule abs_brelse [OF c5(3,2)])
      (use assms in \<open>auto simp: fun_upd_twist fun_upd_idem split: if_splits\<close>)
  show ?thesis
    by (rule that [OF _ c6(2)]) (simp add: c1 c2 c4 c5 c6 flip: c3_def)
qed

lemma install_block:
  assumes a: "abs_state dev c v r (\<lambda>_. False) d t n" and "dst \<noteq> src" "r src = 0" "r dst < 5"
    and spare: "2 \<le> n \<or> (1 \<le> n \<and> r dst \<noteq> 0)"
    and pinned: "recovering \<or> r dst = 1"
  obtains c' where
    "\<And>f :: bstate \<Rightarrow> lstate result. bind_result (bread pid dev src c) (\<lambda>(lbuf, c).
        bind_result (bread pid dev dst c) (\<lambda>(dbuf, c).
        bind_result (bwrite pid dbuf (set_data dbuf (bdata (bufs c lbuf)) c)) (\<lambda>c.
        bind_result (brelse pid lbuf (if recovering then c else bunpin dbuf c)) (\<lambda>c.
        bind_result (brelse pid dbuf c) f)))) = f c'"
    "abs_state dev c' (v(dst := v src)) (if recovering then r else r(dst := 0)) (\<lambda>_. False)
      (d(dst := v src)) (t @ [(dst, v src)]) (if recovering then n else n + 1)"
proof -
  obtain i c1 where c1: "bread pid dev src c = Inr (i, c1)" "owns pid dev c1 i src"
    "abs_state dev c1 v (r(src := 1)) ((\<lambda>_. False)(src := True)) d t (n - 1)"
    by (rule abs_bread [OF a, of src pid]) (use assms in auto)
  let ?n = "if r dst = 0 then n - 1 - 1 else n - 1"
  let ?h = "(\<lambda>_. False)(src := True, dst := True)"
  obtain j c2 where c2: "bread pid dev dst c1 = Inr (j, c2)" "owns pid dev c2 j dst" "owns pid dev c2 i src"
    "abs_state dev c2 v (r(src := 1, dst := r dst + 1)) ?h d t ?n"
    by (rule abs_bread [OF c1(3), of dst pid])
      (use assms small_ref c1(2) in \<open>auto simp: fun_upd_twist\<close>)
  note x = abs_state_owns(1) [OF c2(4,3)]
  define c3 where "c3 = set_data j (bdata (bufs c2 i)) c2"
  have c3: "abs_state dev c3 (v(dst := v src)) (r(src := 1, dst := r dst + 1)) ?h d t ?n"
    "owns pid dev c3 j dst" "owns pid dev c3 i src"
    using abs_set_data [OF c2(4,2)] c2 x by (simp_all add: c3_def)
  obtain c4 where c4: "bwrite pid j c3 = Inr c4" "owns pid dev c4 j dst" "owns pid dev c4 i src"
    "abs_state dev c4 (v(dst := v src)) (r(src := 1, dst := r dst + 1)) ?h
      (d(dst := v src)) (t @ [(dst, v src)]) ?n"
    by (rule abs_bwrite [OF c3(1,2)]) (use c3 in simp)
  define c5 where "c5 = (if recovering then c4 else bunpin j c4)"
  define rd where "rd = (if recovering then r dst else 0)"
  have c5: "abs_state dev c5 (v(dst := v src)) (r(src := 1, dst := rd + 1)) ?h
      (d(dst := v src)) (t @ [(dst, v src)]) ?n" "owns pid dev c5 j dst" "owns pid dev c5 i src"
    using abs_bunpin [OF c4(4,2)] c4 pinned by (auto simp: c5_def rd_def)
  have ij: "j \<noteq> i" using owns_distinct c4(2,3) assms(2) by blast
  obtain c6 where c6: "brelse pid i c5 = Inr c6" "owns pid dev c6 j dst"
    "abs_state dev c6 (v(dst := v src)) (r(dst := rd + 1))
      ((\<lambda>_. False)(dst := True)) (d(dst := v src)) (t @ [(dst, v src)]) (if r dst = 0 then n - 1 else n)"
    by (rule abs_brelse [OF c5(1,3)])
      (use assms ij c5(2) spare_two [of n] abs_state_clean [OF a, of src] in
        \<open>auto simp: fun_upd_twist fun_upd_idem split: if_splits\<close>)
  have rd: "rd < 5" "rd + 1 = 1 \<longleftrightarrow> rd = 0" "rd + 1 - 1 = rd"
    using assms(4) small_ref1 [of "r dst"] by (auto simp: rd_def)
  obtain c7 where c7: "brelse pid j c6 = Inr c7"
    "abs_state dev c7 (v(dst := v src)) (r(dst := rd)) (\<lambda>_. False) (d(dst := v src)) (t @ [(dst, v src)])
      (if recovering then n else n + 1)"
    by (rule abs_brelse [OF c6(3,2)])
      (use assms rd in \<open>auto simp: fun_upd_idem rd_def split: if_splits\<close>)
  have "r(dst := rd) = (if recovering then r else r(dst := 0))" by (simp add: rd_def)
  then show ?thesis
    by (intro that [of c7]) (use c7 in \<open>simp_all add: c1 c2 c4 c6 flip: c3_def c5_def\<close>)
qed

section \<open>The loops\<close>

text \<open>
  A sequence of block writes and its effect on a disk. \<open>log_copies\<close> is what \<open>write_log\<close> writes,
  \<open>installs\<close> what \<open>install_trans\<close> writes, from index \<open>i\<close> for \<open>k\<close> blocks; \<open>v\<close> is what readers see
  when they start.
\<close>

definition apply_writes :: "(u32 \<times> block) list \<Rightarrow> (u32 \<Rightarrow> block) \<Rightarrow> u32 \<Rightarrow> block" where
  "apply_writes ws d = fold (\<lambda>(b, x) d. d(b := x)) ws d"

definition log_slot :: "u32 \<Rightarrow> nat \<Rightarrow> u32" where
  "log_slot st i = st + of_nat i + 1"

definition log_copies :: "u32 \<Rightarrow> u32 list \<Rightarrow> (u32 \<Rightarrow> block) \<Rightarrow> nat \<Rightarrow> nat \<Rightarrow> (u32 \<times> block) list" where
  "log_copies st bl v i k = map (\<lambda>j. (log_slot st j, v (bl ! j))) [i..<i + k]"

definition installs :: "u32 \<Rightarrow> u32 list \<Rightarrow> (u32 \<Rightarrow> block) \<Rightarrow> nat \<Rightarrow> nat \<Rightarrow> (u32 \<times> block) list" where
  "installs st bl v i k = map (\<lambda>j. (bl ! j, v (log_slot st j))) [i..<i + k]"

text \<open>The log's own blocks: the header and the slots.\<close>

definition log_region :: "u32 \<Rightarrow> u32 set" where
  "log_region st = insert st (log_slot st ` {..<LOGBLOCKS})"

lemma apply_writes_simps [simp]:
  "apply_writes [] d = d" "apply_writes ((b, x) # ws) d = apply_writes ws (d(b := x))"
  "apply_writes (ws @ vs) d = apply_writes vs (apply_writes ws d)"
  by (simp_all add: apply_writes_def)

lemma apply_writes_other: "b \<notin> fst ` set ws \<Longrightarrow> apply_writes ws d b = d b"
  by (induction ws arbitrary: d) auto

lemma apply_writes_distinct:
  "distinct (map fst ws) \<Longrightarrow> (b, x) \<in> set ws \<Longrightarrow> apply_writes ws d b = x"
proof (induction ws arbitrary: d)
  case (Cons w ws)
  then show ?case by (cases w) (auto simp: image_iff apply_writes_other)
qed simp

lemma log_slot_inj: "i < LOGBLOCKS \<Longrightarrow> j < LOGBLOCKS \<Longrightarrow> log_slot st i = log_slot st j \<longleftrightarrow> i = j"
  by (auto simp: log_slot_def xv6_const of_nat_eq_iff word_of_nat_eq_iff take_bit_nat_eq_self)

lemma log_slot_not_header: "i < LOGBLOCKS \<Longrightarrow> log_slot st i \<noteq> st"
proof
  assume "i < LOGBLOCKS" "log_slot st i = st"
  then have "(of_nat (Suc i) :: u32) = 0" by (simp add: log_slot_def add.commute)
  then show False
    using \<open>i < LOGBLOCKS\<close> by (simp only: word_of_nat_eq_0_iff) (auto simp: xv6_const dest: dvd_imp_le)
qed

lemma log_region_iff: "i < LOGBLOCKS \<Longrightarrow> log_slot st i \<in> log_region st"
  by (auto simp: log_region_def)

lemma log_copies_Suc: "log_copies st bl v i (Suc k) =
    (log_slot st i, v (bl ! i)) # log_copies st bl v (Suc i) k"
  by (simp add: log_copies_def upt_conv_Cons del: upt_Suc)

lemma installs_Suc: "installs st bl v i (Suc k) =
    (bl ! i, v (log_slot st i)) # installs st bl v (Suc i) k"
  by (simp add: installs_def upt_conv_Cons del: upt_Suc)

lemma write_log_loop_spec:
  assumes "abs_state (ldev s) (cache s) v r (\<lambda>_. False) d t n" "1 \<le> n" "i + k \<le> LOGBLOCKS"
    "length (lh_block s) = LOGBLOCKS"
    "\<And>j. j < i + k \<Longrightarrow> lh_block s ! j \<notin> log_region (start s) \<and> r (lh_block s ! j) = 1"
    "\<And>b. b \<in> log_region (start s) \<Longrightarrow> r b = 0"
  shows "\<exists>c. write_log_loop pid i k s = Inr (s\<lparr>cache := c\<rparr>) \<and>
    abs_state (ldev s) c (apply_writes (log_copies (start s) (lh_block s) v i k) v) r (\<lambda>_. False)
      (apply_writes (log_copies (start s) (lh_block s) v i k) d)
      (t @ log_copies (start s) (lh_block s) v i k) n"
  using assms
proof (induction k arbitrary: i s v d t)
  case 0
  then show ?case by (intro exI [of _ "cache s"]) (simp add: log_copies_def)
next
  case (Suc k)
  let ?to = "log_slot (start s) i" and ?from = "lh_block s ! i"
  have i: "i < LOGBLOCKS" using Suc.prems(3) by simp
  have to: "?to \<in> log_region (start s)" using log_region_iff [OF i] .
  obtain c' where eq: "\<And>f :: bstate \<Rightarrow> lstate result. bind_result (bread pid (ldev s) ?to (cache s)) (\<lambda>(to, c).
        bind_result (bread pid (ldev s) ?from c) (\<lambda>(from, c).
        bind_result (bwrite pid to (set_data to (bdata (bufs c from)) c)) (\<lambda>c.
        bind_result (brelse pid from c) (\<lambda>c.
        bind_result (brelse pid to c) f)))) = f c'"
    and c': "abs_state (ldev s) c' (v(?to := v ?from)) r (\<lambda>_. False) (d(?to := v ?from))
      (t @ [(?to, v ?from)]) n"
    by (rule copy_to_log [OF Suc.prems(1), of ?to ?from pid])
      (use Suc.prems(5) [of i] Suc.prems(2,6) to in auto)
  let ?v = "v(?to := v ?from)" and ?s = "s\<lparr>cache := c'\<rparr>"
  have same: "log_copies (start s) (lh_block s) ?v (Suc i) k = log_copies (start s) (lh_block s) v (Suc i) k"
    using Suc.prems(5) to by (fastforce simp: log_copies_def simp del: upt_Suc)
  have "write_log_loop pid i (Suc k) s = write_log_loop pid (Suc i) k ?s"
    using i Suc.prems(4) eq [of "\<lambda>c. write_log_loop pid (Suc i) k (s\<lparr>cache := c\<rparr>)"]
    by (simp add: log_slot_def)
  moreover have "\<exists>c. write_log_loop pid (Suc i) k ?s = Inr (?s\<lparr>cache := c\<rparr>) \<and>
    abs_state (ldev ?s) c (apply_writes (log_copies (start ?s) (lh_block ?s) ?v (Suc i) k) ?v) r (\<lambda>_. False)
      (apply_writes (log_copies (start ?s) (lh_block ?s) ?v (Suc i) k) (d(?to := v ?from)))
      ((t @ [(?to, v ?from)]) @ log_copies (start ?s) (lh_block ?s) ?v (Suc i) k) n"
    by (rule Suc.IH) (use Suc.prems c' in \<open>auto simp: fun_upd_def\<close>)
  ultimately show ?case by (simp add: same log_copies_Suc)
qed

lemma install_loop_spec:
  assumes "abs_state (ldev s) (cache s) v r (\<lambda>_. False) d t n" "2 \<le> n \<or> (1 \<le> n \<and> \<not> recovering)" "i + k \<le> LOGBLOCKS"
    "length (lh_block s) = LOGBLOCKS" "distinct (take (i + k) (lh_block s))"
    "\<And>j. j < i + k \<Longrightarrow> lh_block s ! j \<notin> log_region (start s)"
    "\<And>b. b \<in> log_region (start s) \<Longrightarrow> r b = 0"
    "\<And>j. i \<le> j \<Longrightarrow> j < i + k \<Longrightarrow> r (lh_block s ! j) < 5 \<and> (recovering \<or> r (lh_block s ! j) = 1)"
  shows "\<exists>c. install_loop pid recovering i k s = Inr (s\<lparr>cache := c\<rparr>) \<and>
    abs_state (ldev s) c (apply_writes (installs (start s) (lh_block s) v i k) v)
      (if recovering then r
       else (\<lambda>b. if b \<in> fst ` set (installs (start s) (lh_block s) v i k) then 0 else r b)) (\<lambda>_. False)
      (apply_writes (installs (start s) (lh_block s) v i k) d)
      (t @ installs (start s) (lh_block s) v i k) (if recovering then n else n + k)"
  using assms
proof (induction k arbitrary: i s v r d t n)
  case 0
  then show ?case by (intro exI [of _ "cache s"]) (simp add: installs_def)
next
  case (Suc k)
  let ?src = "log_slot (start s) i" and ?dst = "lh_block s ! i"
  have i: "i < LOGBLOCKS" using Suc.prems(3) by simp
  have src: "?src \<in> log_region (start s)" using log_region_iff [OF i] .
  have nodst: "?dst \<notin> log_region (start s)" using Suc.prems(6) [of i] by simp
  define r' where "r' = (if recovering then r else r(?dst := 0))"
  have fresh: "lh_block s ! j \<noteq> ?dst" if "i < j" "j < Suc (i + k)" for j
    using Suc.prems(3-5) that nth_eq_iff_index_eq [of "take (i + Suc k) (lh_block s)" j i] by simp
  obtain c' where eq: "\<And>f :: bstate \<Rightarrow> lstate result. bind_result (bread pid (ldev s) ?src (cache s)) (\<lambda>(lbuf, c).
        bind_result (bread pid (ldev s) ?dst c) (\<lambda>(dbuf, c).
        bind_result (bwrite pid dbuf (set_data dbuf (bdata (bufs c lbuf)) c)) (\<lambda>c.
        bind_result (brelse pid lbuf (if recovering then c else bunpin dbuf c)) (\<lambda>c.
        bind_result (brelse pid dbuf c) f)))) = f c'"
    and c': "abs_state (ldev s) c' (v(?dst := v ?src)) r' (\<lambda>_. False)
      (d(?dst := v ?src)) (t @ [(?dst, v ?src)]) (if recovering then n else n + 1)"
    by (rule install_block [OF Suc.prems(1), of ?dst ?src recovering pid])
      (use Suc.prems(2) Suc.prems(7) Suc.prems(8) [of i] src nodst in \<open>auto simp: r'_def\<close>)
  let ?v = "v(?dst := v ?src)" and ?s = "s\<lparr>cache := c'\<rparr>"
  have same: "installs (start s) (lh_block s) ?v (Suc i) k = installs (start s) (lh_block s) v (Suc i) k"
  proof -
    have "log_slot (start s) j \<noteq> ?dst" if "j < LOGBLOCKS" for j
      using that nodst log_region_iff by metis
    then show ?thesis using Suc.prems(3) by (simp add: installs_def del: upt_Suc)
  qed
  have "install_loop pid recovering i (Suc k) s = install_loop pid recovering (Suc i) k ?s"
    using i Suc.prems(4) eq [of "\<lambda>c. install_loop pid recovering (Suc i) k (s\<lparr>cache := c\<rparr>)"]
    by (simp add: log_slot_def)
  moreover have "\<exists>c. install_loop pid recovering (Suc i) k ?s = Inr (?s\<lparr>cache := c\<rparr>) \<and>
    abs_state (ldev ?s) c (apply_writes (installs (start ?s) (lh_block ?s) ?v (Suc i) k) ?v)
      (if recovering then r'
       else (\<lambda>b. if b \<in> fst ` set (installs (start ?s) (lh_block ?s) ?v (Suc i) k) then 0 else r' b)) (\<lambda>_. False)
      (apply_writes (installs (start ?s) (lh_block ?s) ?v (Suc i) k) (d(?dst := v ?src)))
      ((t @ [(?dst, v ?src)]) @ installs (start ?s) (lh_block ?s) ?v (Suc i) k)
      (if recovering then (if recovering then n else n + 1) else (if recovering then n else n + 1) + k)"
    by (rule Suc.IH) (use Suc.prems c' fresh nodst in \<open>auto simp: fun_upd_def r'_def\<close>)
  moreover have "recovering \<or> (\<lambda>b. if b \<in> fst ` set (installs (start s) (lh_block s) v (Suc i) k) then 0
      else r' b) = (\<lambda>b. if b \<in> fst ` set (installs (start s) (lh_block s) v i (Suc k)) then 0 else r b)"
    "recovering \<longrightarrow> r' = r"
    by (auto simp: installs_Suc r'_def)
  ultimately show ?case by (cases recovering) (simp_all add: same installs_Suc)
qed

subsection \<open>The header block\<close>

lemma length_write_entries [simp]:
  "4 + 4 * (i + k) \<le> length d \<Longrightarrow> length (write_entries bl i k d) = length d"
  by (induction k arbitrary: i d) auto

lemma write_entries_before:
  "4 + 4 * (i + k) \<le> length d \<Longrightarrow> off + 4 \<le> 4 + 4 * i \<Longrightarrow> get32 (write_entries bl i k d) off = get32 d off"
  by (induction k arbitrary: i d) (auto simp: get32_put32_other)

lemma write_entries_get:
  "4 + 4 * (i + k) \<le> length d \<Longrightarrow> i \<le> j \<Longrightarrow> j < i + k \<Longrightarrow>
    get32 (write_entries bl i k d) (4 + 4 * j) = bl ! j"
proof (induction k arbitrary: i d)
  case (Suc k)
  then show ?case
    by (cases "j = i") (auto simp: write_entries_before)
qed simp

definition head_block :: "u32 list \<Rightarrow> nat \<Rightarrow> block \<Rightarrow> block" where
  "head_block bl n d = write_entries bl 0 n (put32 d 0 (of_nat n))"

definition head_n :: "block \<Rightarrow> int" where
  "head_n d = sint (get32 d 0)"

lemma sint_of_small: "n \<le> LOGBLOCKS \<Longrightarrow> sint (of_nat n :: u32) = int n"
  by (simp add: xv6_const sint_uint unsigned_of_nat signed_take_bit_int_eq_self take_bit_nat_eq_self)

lemma head_block_get:
  assumes "length d = BSIZE" "n \<le> LOGBLOCKS"
  shows "length (head_block bl n d) = BSIZE" "head_n (head_block bl n d) = int n"
    "j < n \<Longrightarrow> get32 (head_block bl n d) (4 + 4 * j) = bl ! j"
proof -
  have n: "4 + 4 * (0 + n) \<le> length (put32 d 0 (of_nat n))" "4 \<le> length d"
    using assms by (simp_all add: BSIZE_def) (simp add: xv6_const)
  show "length (head_block bl n d) = BSIZE"
    using n assms by (simp add: head_block_def)
  show "head_n (head_block bl n d) = int n"
    using write_entries_before [OF n(1), of 0] n assms sint_of_small [of n]
    by (simp add: head_block_def head_n_def)
  show "j < n \<Longrightarrow> get32 (head_block bl n d) (4 + 4 * j) = bl ! j"
    using write_entries_get [OF n(1), of j] by (simp add: head_block_def)
qed

lemma read_entries_spec:
  "i + k \<le> length bl \<Longrightarrow> \<exists>bl'. read_entries d i k bl = Inr bl' \<and> length bl' = length bl \<and>
     (\<forall>j. bl' ! j = (if i \<le> j \<and> j < i + k then get32 d (4 + 4 * j) else bl ! j))"
proof (induction k arbitrary: i bl)
  case (Suc k)
  from Suc.prems have "Suc i + k \<le> length (bl[i := get32 d (4 + 4 * i)])" by simp
  from Suc.IH [OF this] obtain bl' where bl': "read_entries d (Suc i) k (bl[i := get32 d (4 + 4 * i)]) = Inr bl'"
    "length bl' = length bl" "\<And>j. bl' ! j = (if Suc i \<le> j \<and> j < Suc i + k then get32 d (4 + 4 * j)
      else bl[i := get32 d (4 + 4 * i)] ! j)" by auto
  then show ?case using Suc.prems by (auto simp: nth_list_update)
qed auto

lemma read_head_spec:
  assumes a: "abs_state (ldev s) (cache s) v r (\<lambda>_. False) d t n" and "r (start s) = 0" "n \<noteq> 0"
    and len: "length (lh_block s) = LOGBLOCKS" and hn: "head_n (v (start s)) \<le> int LOGBLOCKS"
  obtains c bl where "read_head pid s = Inr (s\<lparr>cache := c, lh_n := head_n (v (start s)), lh_block := bl\<rparr>)"
    "length bl = LOGBLOCKS" "\<And>j. int j < head_n (v (start s)) \<Longrightarrow> bl ! j = get32 (v (start s)) (4 + 4 * j)"
    "abs_state (ldev s) c v r (\<lambda>_. False) d t n"
proof -
  obtain i c1 where c1: "bread pid (ldev s) (start s) (cache s) = Inr (i, c1)" "owns pid (ldev s) c1 i (start s)"
    "abs_state (ldev s) c1 v (r(start s := 1)) ((\<lambda>_. False)(start s := True)) d t (n - 1)"
    by (rule abs_bread [OF a, of "start s" pid]) (use assms in auto)
  note x = abs_state_owns(1) [OF c1(3,2)]
  obtain c2 where c2: "brelse pid i c1 = Inr c2" "abs_state (ldev s) c2 v r (\<lambda>_. False) d t n"
    by (rule abs_brelse [OF c1(3,2)])
      (use assms(2,3) abs_state_clean [OF a] in \<open>auto simp: fun_upd_idem\<close>)
  let ?n = "nat (head_n (v (start s)))"
  have "0 + ?n \<le> length (lh_block s)" using len hn by simp
  from read_entries_spec [OF this, of "v (start s)"] obtain bl where bl:
    "read_entries (v (start s)) 0 ?n (lh_block s) = Inr bl" "length bl = LOGBLOCKS"
    "\<And>j. j < ?n \<Longrightarrow> bl ! j = get32 (v (start s)) (4 + 4 * j)" using len by auto
  have "read_head pid s = Inr (s\<lparr>cache := c2, lh_n := head_n (v (start s)), lh_block := bl\<rparr>)"
    using bl(1) by (simp add: read_head_def c1 c2 x Let_def head_n_def)
  then show ?thesis using that bl c2(2) by simp
qed

lemma write_head_spec:
  assumes a: "abs_state (ldev s) (cache s) v r (\<lambda>_. False) d t n" and "r (start s) = 0" "n \<noteq> 0"
    and len: "length (lh_block s) = LOGBLOCKS" and hn: "lh_n s = int m" "m \<le> LOGBLOCKS"
  defines "x \<equiv> head_block (lh_block s) m (v (start s))"
  obtains c where "write_head pid s = Inr (s\<lparr>cache := c\<rparr>)"
    "abs_state (ldev s) c (v(start s := x)) r (\<lambda>_. False) (d(start s := x)) (t @ [(start s, x)]) n"
proof -
  obtain i c1 where c1: "bread pid (ldev s) (start s) (cache s) = Inr (i, c1)" "owns pid (ldev s) c1 i (start s)"
    "abs_state (ldev s) c1 v (r(start s := 1)) ((\<lambda>_. False)(start s := True)) d t (n - 1)"
    by (rule abs_bread [OF a, of "start s" pid]) (use assms in auto)
  note y = abs_state_owns(1) [OF c1(3,2)]
  note c2 = abs_set_data [OF c1(3,2), where x = x]
  obtain c3 where c3: "bwrite pid i (set_data i x c1) = Inr c3" "owns pid (ldev s) c3 i (start s)"
    "abs_state (ldev s) c3 (v(start s := x)) (r(start s := 1)) ((\<lambda>_. False)(start s := True))
      (d(start s := x)) (t @ [(start s, x)]) (n - 1)"
    by (rule abs_bwrite [OF c2(1) c2(2) [OF c1(2)]]) (use c2(2) [OF c1(2)] in simp)
  obtain c4 where c4: "brelse pid i c3 = Inr c4"
    "abs_state (ldev s) c4 (v(start s := x)) r (\<lambda>_. False) (d(start s := x)) (t @ [(start s, x)]) n"
    by (rule abs_brelse [OF c3(3,2)]) (use assms(2,3) in \<open>auto simp: fun_upd_idem\<close>)
  have "x = write_entries (lh_block s) 0 m (put32 (bdata (bufs c1 i)) 0 (of_int (lh_n s)))"
    by (simp add: x_def y head_block_def hn)
  then have "write_head pid s = Inr (s\<lparr>cache := c4\<rparr>)"
    using len hn c3(1) by (simp add: write_head_def c1 c4 Let_def)
  then show ?thesis using that c4(2) by simp
qed

section \<open>Recovery\<close>

text \<open>The log's state at boot, before \<open>initlog\<close>, on a disk \<open>d\<close>.\<close>

definition boot_log :: "(u32 \<Rightarrow> block) \<Rightarrow> lstate" where
  "boot_log d = \<lparr>cache = boot_cache d, start = 0, outstanding = 0, committing = False, ldev = 0, lh_n = 0,
     lh_block = replicate LOGBLOCKS 0\<rparr>"

definition logged :: "lstate \<Rightarrow> u32 list" where
  "logged s = take (nat (lh_n s)) (lh_block s)"

text \<open>
  The log between two calls, when nobody holds a buffer: the logged blocks are distinct, outside
  the log, and pinned once; no other block is referenced; the header on disk is empty.
\<close>

definition log_quiet :: "lstate \<Rightarrow> bool" where
  "log_quiet s \<longleftrightarrow> ldev s \<noteq> 0 \<and> 0 \<le> lh_n s \<and> lh_n s \<le> int LOGBLOCKS \<and> length (lh_block s) = LOGBLOCKS \<and>
     distinct (logged s) \<and> set (logged s) \<inter> log_region (start s) = {} \<and>
     (\<exists>v d t n. abs_state (ldev s) (cache s) v (\<lambda>b. if b \<in> set (logged s) then 1 else 0) (\<lambda>_. False) d t n \<and>
        n + nat (lh_n s) = NBUF) \<and>
     head_n (disk (cache s) (start s)) = 0 \<and> length (disk (cache s) (start s)) = BSIZE"

text \<open>A header that recovery can replay.\<close>

definition valid_head :: "u32 \<Rightarrow> block \<Rightarrow> nat \<Rightarrow> bool" where
  "valid_head st x m \<longleftrightarrow> length x = BSIZE \<and> head_n x = int m \<and> m \<le> LOGBLOCKS \<and>
     distinct (map (\<lambda>j. get32 x (4 + 4 * j)) [0..<m]) \<and>
     (\<forall>j<m. get32 x (4 + 4 * j) \<notin> log_region st)"

lemma installs_fst: "map fst (installs st bl v i k) = map (\<lambda>j. bl ! j) [i..<i + k]"
  by (simp add: installs_def)

lemma map_nth_take: "k \<le> length xs \<Longrightarrow> map (\<lambda>j. xs ! j) [0..<k] = take k xs"
  by (rule nth_equalityI) auto

lemma installs_region:
  "(\<And>j. j < k \<Longrightarrow> bl ! j \<notin> log_region st) \<Longrightarrow> b \<in> log_region st \<Longrightarrow>
    apply_writes (installs st bl v 0 k) d b = d b"
  by (rule apply_writes_other) (auto simp: installs_def)

lemma st_in_region [simp]: "st \<in> log_region st"
  by (simp add: log_region_def)

lemma recover_spec:
  assumes a: "abs_state (ldev s) (cache s) d (\<lambda>_. 0) (\<lambda>_. False) d t NBUF" and "ldev s \<noteq> 0"
    and len: "length (lh_block s) = LOGBLOCKS" and h: "valid_head (start s) (d (start s)) m"
  obtains r where "recover_from_log pid s = Inr r" "log_quiet r" "lh_n r = 0" "start r = start s"
    "ldev r = ldev s" "outstanding r = outstanding s" "committing r = committing s"
    "\<And>b. b \<notin> log_region (start s) \<Longrightarrow> disk (cache r) b =
       apply_writes (map (\<lambda>j. (get32 (d (start s)) (4 + 4 * j), d (log_slot (start s) j))) [0..<m]) d b"
proof -
  let ?st = "start s" and ?x = "d (start s)"
  have hn: "head_n ?x = int m" and m: "m \<le> LOGBLOCKS" and hl: "length ?x = BSIZE"
    using h by (auto simp: valid_head_def)
  obtain c1 bl where c1: "read_head pid s = Inr (s\<lparr>cache := c1, lh_n := int m, lh_block := bl\<rparr>)"
    "length bl = LOGBLOCKS" "\<And>j. j < m \<Longrightarrow> bl ! j = get32 ?x (4 + 4 * j)"
    "abs_state (ldev s) c1 d (\<lambda>_. 0) (\<lambda>_. False) d t NBUF"
    by (rule read_head_spec [OF a _ _ len, of pid]) (use hn m in \<open>simp_all add: xv6_const\<close>)
  define s1 where "s1 = s\<lparr>cache := c1, lh_n := int m, lh_block := bl\<rparr>"
  have s1: "ldev s1 = ldev s" "cache s1 = c1" "lh_n s1 = int m" "lh_block s1 = bl" "start s1 = ?st"
    by (simp_all add: s1_def)
  have ent: "map (\<lambda>j. bl ! j) [0..<m] = map (\<lambda>j. get32 ?x (4 + 4 * j)) [0..<m]" using c1(3) by simp
  have bl: "distinct (take m bl)" "\<And>j. j < m \<Longrightarrow> bl ! j \<notin> log_region ?st"
    using h c1(2,3) m map_nth_take [where k = m and xs = bl] by (simp_all add: valid_head_def ent del: map_eq_conv)
  let ?W = "installs ?st bl d 0 m"
  have "\<exists>c. install_loop pid True 0 m s1 = Inr (s1\<lparr>cache := c\<rparr>) \<and>
    abs_state (ldev s1) c (apply_writes (installs (start s1) (lh_block s1) d 0 m) d)
      (if True then (\<lambda>_. 0) else (\<lambda>b. if b \<in> fst ` set (installs (start s1) (lh_block s1) d 0 m) then 0 else 0))
      (\<lambda>_. False) (apply_writes (installs (start s1) (lh_block s1) d 0 m) d)
      (t @ installs (start s1) (lh_block s1) d 0 m) (if True then NBUF else NBUF + m)"
    by (rule install_loop_spec) (use c1 m bl in \<open>simp_all add: s1 xv6_const\<close>)
  then obtain c2 where c2: "install_loop pid True 0 m s1 = Inr (s1\<lparr>cache := c2\<rparr>)"
    "abs_state (ldev s) c2 (apply_writes ?W d) (\<lambda>_. 0) (\<lambda>_. False) (apply_writes ?W d) (t @ ?W) NBUF"
    by (auto simp: s1)
  define s2 where "s2 = s1\<lparr>cache := c2, lh_n := 0\<rparr>"
  have s2: "ldev s2 = ldev s" "cache s2 = c2" "lh_n s2 = int 0" "lh_block s2 = bl" "start s2 = ?st"
    by (simp_all add: s2_def s1)
  have Wst: "apply_writes ?W d ?st = ?x" using bl by (intro installs_region) auto
  define y where "y = head_block bl 0 ?x"
  note a2 = c2(2) [folded s2(1), folded s2(2)]
  obtain c3 where c3: "write_head pid s2 = Inr (s2\<lparr>cache := c3\<rparr>)"
    "abs_state (ldev s) c3 ((apply_writes ?W d)(?st := y)) (\<lambda>_. 0) (\<lambda>_. False) ((apply_writes ?W d)(?st := y))
      ((t @ ?W) @ [(?st, y)]) NBUF"
    by (rule write_head_spec [OF a2 _ _ _ s2(3), of pid])
      (use c1(2) in \<open>simp_all add: s2 Wst y_def xv6_const\<close>)
  have rec: "recover_from_log pid s = Inr (s2\<lparr>cache := c3\<rparr>)"
    using c1(1) c2(1) c3(1) by (simp add: recover_from_log_def install_trans_def s1 s2_def flip: s1_def)
  have y: "head_n y = 0" "length y = BSIZE" using head_block_get [OF hl, where n = 0 and bl = bl] by (simp_all add: y_def)
  have c3d: "disk c3 = (apply_writes ?W d)(?st := y)" using c3(2) by (simp add: abs_state_def)
  have "log_quiet (s2\<lparr>cache := c3\<rparr>)"
    using c3(2) y c1(2) assms(2) by (auto simp: log_quiet_def logged_def s2 c3d)
  moreover have W: "?W = map (\<lambda>j. (get32 ?x (4 + 4 * j), d (log_slot ?st j))) [0..<m]"
    using c1(3) by (simp add: installs_def)
  then have "disk (cache (s2\<lparr>cache := c3\<rparr>)) b =
      apply_writes (map (\<lambda>j. (get32 ?x (4 + 4 * j), d (log_slot ?st j))) [0..<m]) d b"
    if "b \<notin> log_region ?st" for b
    using that by (auto simp: c3d log_region_def)
  ultimately show ?thesis by (intro that [OF rec]) (simp_all add: s2_def s1_def)
qed

section \<open>Commit\<close>

text \<open>The block writes of a commit, in order, when readers see \<open>v\<close> and \<open>m\<close> blocks are logged.\<close>

definition commit_writes :: "u32 \<Rightarrow> u32 list \<Rightarrow> (u32 \<Rightarrow> block) \<Rightarrow> nat \<Rightarrow> (u32 \<times> block) list" where
  "commit_writes st bl v m =
     (let x = head_block bl m (v st)
      in log_copies st bl v 0 m @ (st, x) # map (\<lambda>j. (bl ! j, v (bl ! j))) [0..<m] @ [(st, head_block bl 0 x)])"

lemma log_copies_fst: "m \<le> LOGBLOCKS \<Longrightarrow> fst ` set (log_copies st bl v 0 m) \<subseteq> log_region st - {st}"
  using log_slot_not_header by (auto simp: log_copies_def log_region_def)

lemma log_copies_slot:
  assumes "m \<le> LOGBLOCKS" "j < m"
  shows "apply_writes (log_copies st bl v 0 m) d (log_slot st j) = v (bl ! j)"
proof (rule apply_writes_distinct)
  have "inj_on (log_slot st) {0..<m}" using assms(1) log_slot_inj by (auto simp: inj_on_def)
  moreover have "map fst (log_copies st bl v 0 m) = map (log_slot st) [0..<m]"
    by (simp add: log_copies_def)
  ultimately show "distinct (map fst (log_copies st bl v 0 m))" by (simp add: distinct_map)
  show "(log_slot st j, v (bl ! j)) \<in> set (log_copies st bl v 0 m)"
    using assms(2) by (auto simp: log_copies_def)
qed

lemma commit_spec:
  assumes a: "abs_state (ldev s) (cache s) v (\<lambda>b. if b \<in> set (logged s) then 1 else 0) (\<lambda>_. False) d t n"
    and q: "log_quiet s" and m: "lh_n s = int m" "0 < m" "m < LOGBLOCKS" and n: "n + m = NBUF"
  defines "W \<equiv> commit_writes (start s) (lh_block s) v m"
  obtains c where "commit pid s = Inr (s\<lparr>lh_n := 0, cache := c\<rparr>)"
    "abs_state (ldev s) c (apply_writes W v) (\<lambda>_. 0) (\<lambda>_. False) (apply_writes W d) (t @ W) NBUF"
proof -
  let ?st = "start s" and ?bl = "lh_block s" and ?r = "\<lambda>b. if b \<in> set (logged s) then (1 :: u32) else 0"
  have q': "length ?bl = LOGBLOCKS" "distinct (take m ?bl)" "set (take m ?bl) \<inter> log_region ?st = {}"
    "logged s = take m ?bl"
    using q m by (auto simp: log_quiet_def logged_def)
  have mem: "?bl ! j \<in> set (logged s)" "?bl ! j \<notin> log_region ?st" if "j < m" for j
    using that q' m(3) in_set_conv_nth [of "?bl ! j" "take m ?bl"] by auto
  have r0: "?r b = 0" if "b \<in> log_region ?st" for b using that q' by auto
  have n1: "1 \<le> n" using n m by (simp add: xv6_const)
  let ?W1 = "log_copies ?st ?bl v 0 m"
  have "\<exists>c. write_log_loop pid 0 m s = Inr (s\<lparr>cache := c\<rparr>) \<and>
    abs_state (ldev s) c (apply_writes ?W1 v) ?r (\<lambda>_. False) (apply_writes ?W1 d) (t @ ?W1) n"
    by (rule write_log_loop_spec) (use a n1 m q' mem r0 in auto)
  then obtain c1 where c1: "write_log_loop pid 0 m s = Inr (s\<lparr>cache := c1\<rparr>)"
    "abs_state (ldev s) c1 (apply_writes ?W1 v) ?r (\<lambda>_. False) (apply_writes ?W1 d) (t @ ?W1) n" by blast
  have st1: "apply_writes ?W1 v ?st = v ?st"
    using log_copies_fst [of m ?st] m by (intro apply_writes_other) fastforce
  let ?x = "head_block ?bl m (v ?st)"
  let ?v2 = "(apply_writes ?W1 v)(?st := ?x)" and ?d2 = "(apply_writes ?W1 d)(?st := ?x)"
  obtain c2 where c2: "write_head pid (s\<lparr>cache := c1\<rparr>) = Inr (s\<lparr>cache := c2\<rparr>)"
    "abs_state (ldev s) c2 ?v2 ?r (\<lambda>_. False) ?d2 ((t @ ?W1) @ [(?st, ?x)]) n"
    by (rule write_head_spec [of "s\<lparr>cache := c1\<rparr>" "apply_writes ?W1 v" ?r "apply_writes ?W1 d" "t @ ?W1" n m pid])
      (use c1(2) n1 q' m r0 [of ?st] in \<open>simp_all add: st1\<close>)
  let ?W3 = "installs ?st ?bl ?v2 0 m"
  have W3: "?W3 = map (\<lambda>j. (?bl ! j, v (?bl ! j))) [0..<m]"
    using log_copies_slot m log_slot_not_header by (simp add: installs_def)
  have f3: "fst ` set ?W3 = set (logged s)"
    using arg_cong [OF map_nth_take [where k = m and xs = ?bl], of set] q' m by (simp add: W3 image_image)
  have "\<exists>c. install_loop pid False 0 m (s\<lparr>cache := c2\<rparr>) = Inr (s\<lparr>cache := c2\<rparr>\<lparr>cache := c\<rparr>) \<and>
    abs_state (ldev (s\<lparr>cache := c2\<rparr>)) c (apply_writes (installs (start (s\<lparr>cache := c2\<rparr>)) (lh_block (s\<lparr>cache := c2\<rparr>)) ?v2 0 m) ?v2)
      (if False then ?r else (\<lambda>b. if b \<in> fst ` set (installs (start (s\<lparr>cache := c2\<rparr>)) (lh_block (s\<lparr>cache := c2\<rparr>)) ?v2 0 m)
         then 0 else ?r b))
      (\<lambda>_. False) (apply_writes (installs (start (s\<lparr>cache := c2\<rparr>)) (lh_block (s\<lparr>cache := c2\<rparr>)) ?v2 0 m) ?d2)
      (((t @ ?W1) @ [(?st, ?x)]) @ installs (start (s\<lparr>cache := c2\<rparr>)) (lh_block (s\<lparr>cache := c2\<rparr>)) ?v2 0 m)
      (if False then n else n + m)"
    by (rule install_loop_spec) (use c2(2) n1 m q' mem r0 in auto)
  moreover have "(\<lambda>b. if b \<in> fst ` set ?W3 then 0 else ?r b) = (\<lambda>_. 0)" by (auto simp: f3)
  ultimately obtain c3 where c3: "install_loop pid False 0 m (s\<lparr>cache := c2\<rparr>) = Inr (s\<lparr>cache := c3\<rparr>)"
    "abs_state (ldev s) c3 (apply_writes ?W3 ?v2) (\<lambda>_. 0) (\<lambda>_. False) (apply_writes ?W3 ?d2)
      (((t @ ?W1) @ [(?st, ?x)]) @ ?W3) NBUF"
    using n by auto
  have st3: "apply_writes ?W3 ?v2 ?st = ?x" using installs_region mem by simp
  obtain c4 where c4: "write_head pid (s\<lparr>cache := c3, lh_n := 0\<rparr>) = Inr (s\<lparr>lh_n := 0, cache := c4\<rparr>)"
    "abs_state (ldev s) c4 ((apply_writes ?W3 ?v2)(?st := head_block ?bl 0 ?x)) (\<lambda>_. 0) (\<lambda>_. False)
      ((apply_writes ?W3 ?d2)(?st := head_block ?bl 0 ?x))
      ((((t @ ?W1) @ [(?st, ?x)]) @ ?W3) @ [(?st, head_block ?bl 0 ?x)]) NBUF"
    by (rule write_head_spec [of "s\<lparr>cache := c3, lh_n := 0\<rparr>" "apply_writes ?W3 ?v2" "\<lambda>_. 0" "apply_writes ?W3 ?d2"
          "((t @ ?W1) @ [(?st, ?x)]) @ ?W3" NBUF 0 pid])
      (use c3(2) q' in \<open>simp_all add: st3 xv6_const\<close>)
  have W: "W = ?W1 @ [(?st, ?x)] @ ?W3 @ [(?st, head_block ?bl 0 ?x)]"
    by (simp add: W_def commit_writes_def Let_def W3)
  have "commit pid s = Inr (s\<lparr>lh_n := 0, cache := c4\<rparr>)"
    using c1(1) c2(1) c3(1) c4(1) m by (simp add: commit_def write_log_def install_trans_def)
  then show ?thesis using c4(2) by (intro that) (simp_all add: W)
qed

section \<open>Crash atomicity\<close>

lemma valid_head_empty: "head_n x = 0 \<Longrightarrow> length x = BSIZE \<Longrightarrow> valid_head st x 0"
  by (simp add: valid_head_def)

lemma valid_head_logged:
  assumes "length x = BSIZE" "m \<le> LOGBLOCKS" "length bl = LOGBLOCKS" "distinct (take m bl)"
    "set (take m bl) \<inter> log_region st = {}"
  shows "valid_head st (head_block bl m x) m"
proof -
  have "map (\<lambda>j. get32 (head_block bl m x) (4 + 4 * j)) [0..<m] = take m bl"
  proof -
    have "map (\<lambda>j. get32 (head_block bl m x) (4 + 4 * j)) [0..<m] = map (\<lambda>j. bl ! j) [0..<m]"
      using assms by (auto intro!: map_cong simp: head_block_get)
    then show ?thesis using assms map_nth_take [where k = m and xs = bl] by simp
  qed
  moreover have "bl ! j \<notin> log_region st" if "j < m" for j
    using that assms in_set_conv_nth [of "bl ! j" "take m bl"] by auto
  ultimately show ?thesis
    using assms head_block_get [OF assms(1,2)] by (simp add: valid_head_def)
qed

text \<open>Writing each block of a list of pairs \<open>(b, v b)\<close> once makes the disk agree with \<open>v\<close> on them.\<close>

lemma apply_view_writes:
  "apply_writes (map (\<lambda>j. (bl ! j, v (bl ! j))) js) d b = (if b \<in> (!) bl ` set js then v b else d b)"
  by (induction js arbitrary: d) auto

lemma log_quiet_abs:
  assumes "log_quiet s"
  obtains n where "abs_state (ldev s) (cache s) (bview (ldev s) (cache s))
      (\<lambda>b. if b \<in> set (logged s) then 1 else 0) (\<lambda>_. False) (disk (cache s)) (dtrace (cache s)) n"
    "n + nat (lh_n s) = NBUF"
  using assms by (auto simp: log_quiet_def abs_state_def)

lemma recover_boot:
  assumes "dev \<noteq> 0" "valid_head st (d st) m"
  obtains r where "initlog pid dev st (boot_log d) = Inr r" "log_quiet r" "lh_n r = 0"
    "start r = st" "ldev r = dev" "outstanding r = 0" "\<not> committing r"
    "\<And>b. b \<notin> log_region st \<Longrightarrow> disk (cache r) b =
       apply_writes (map (\<lambda>j. (get32 (d st) (4 + 4 * j), d (log_slot st j))) [0..<m]) d b"
proof -
  let ?s = "boot_log d\<lparr>start := st, ldev := dev\<rparr>"
  have "abs_state (ldev ?s) (cache ?s) d (\<lambda>_. 0) (\<lambda>_. False) d [] NBUF"
    using boot_cache_abs [OF assms(1)] by (simp add: boot_log_def)
  moreover have "ldev ?s \<noteq> 0" "length (lh_block ?s) = LOGBLOCKS" "valid_head (start ?s) (d (start ?s)) m"
    using assms by (simp_all add: boot_log_def)
  ultimately obtain r where "recover_from_log pid ?s = Inr r" "log_quiet r" "lh_n r = 0"
    "start r = start ?s" "ldev r = ldev ?s" "outstanding r = outstanding ?s" "committing r = committing ?s"
    "\<And>b. b \<notin> log_region (start ?s) \<Longrightarrow> disk (cache r) b =
       apply_writes (map (\<lambda>j. (get32 (d (start ?s)) (4 + 4 * j), d (log_slot (start ?s) j))) [0..<m]) d b"
    by (rule recover_spec) blast
  moreover have "initlog pid dev st (boot_log d) = recover_from_log pid ?s"
    by (simp add: initlog_def BSIZE_def xv6_const)
  ultimately show ?thesis by (intro that) (simp_all add: boot_log_def)
qed

lemma crash_recovery:
  assumes q: "log_quiet s" and m: "lh_n s = int m" "m \<le> LOGBLOCKS"
  defines "v \<equiv> bview (ldev s) (cache s)" and "d \<equiv> disk (cache s)"
  defines "W \<equiv> commit_writes (start s) (lh_block s) v m"
  assumes k: "k \<le> length W"
  obtains r where "initlog pid (ldev s) (start s) (boot_log (apply_writes (take k W) d)) = Inr r"
    "log_quiet r" "lh_n r = 0"
    "\<And>b. b \<notin> log_region (start s) \<Longrightarrow> disk (cache r) b = (if k \<le> m then d b else v b)"
proof -
  let ?st = "start s" and ?bl = "lh_block s" and ?x = "head_block (lh_block s) m (v (start s))"
  let ?W1 = "log_copies ?st ?bl v 0 m" and ?W3 = "\<lambda>i. map (\<lambda>j. (?bl ! j, v (?bl ! j))) [0..<i]"
  let ?D = "apply_writes (take k W) d"
  obtain n where abs: "abs_state (ldev s) (cache s) v (\<lambda>b. if b \<in> set (logged s) then 1 else 0) (\<lambda>_. False)
      d (dtrace (cache s)) n"
    using log_quiet_abs [OF q] by (auto simp: v_def d_def)
  have bl: "length ?bl = LOGBLOCKS" "distinct (take m ?bl)" "set (take m ?bl) \<inter> log_region ?st = {}"
    and dev: "ldev s \<noteq> 0" and hd: "head_n (d ?st) = 0" "length (d ?st) = BSIZE"
    using q m by (auto simp: log_quiet_def logged_def d_def)
  have full: "(!) ?bl ` {0..<m} = set (take m ?bl)"
    using bl m arg_cong [OF map_nth_take [where k = m and xs = ?bl], of set] by simp
  have im: "(!) ?bl ` {0..<i} \<subseteq> set (take m ?bl)" if "i \<le> m" for i
    using that by (auto simp flip: full)
  have clean: "v b = d b" if "b \<notin> set (take m ?bl)" for b
    using abs_state_clean [OF abs] that m by (auto simp: logged_def)
  have vst: "v ?st = d ?st" using bl(3) st_in_region by (intro clean) blast
  have d1: "apply_writes ws d b = d b" if "b \<notin> log_region ?st - {?st}" "set ws \<subseteq> set ?W1" for b ws
    using that log_copies_fst [OF m(2), of ?st] by (intro apply_writes_other) fastforce
  have len: "length ?W1 = m" by (simp add: log_copies_def)
  have x: "valid_head ?st ?x m" "length ?x = BSIZE" "head_n (head_block ?bl 0 ?x) = 0"
    "length (head_block ?bl 0 ?x) = BSIZE" "\<And>j. j < m \<Longrightarrow> get32 ?x (4 + 4 * j) = ?bl ! j"
    using valid_head_logged [of "v ?st" m ?bl ?st] head_block_get [of "v ?st" m] m bl hd vst
      head_block_get [of ?x 0] by auto
  consider (old) "k \<le> m" | (mid) i where "k = Suc m + i" "i \<le> m" | (new) "k = length W"
  proof -
    have "length W = 2 * m + 2" by (simp add: W_def commit_writes_def Let_def len)
    then consider "k \<le> m" | "m < k" "k \<le> 2 * m + 1" | "k = length W" using k by linarith
    then show ?thesis
    proof cases
      case 2
      then show ?thesis by (intro that(2) [of "k - Suc m"]) simp_all
    qed (use that in blast)+
  qed
  then show ?thesis
  proof cases
    case old
    then have D: "?D b = d b" if "b \<notin> log_region ?st - {?st}" for b
      using that len by (simp add: W_def commit_writes_def Let_def d1 set_take_subset)
    then have "valid_head ?st (?D ?st) 0" using hd valid_head_empty by simp
    from recover_boot [where d = ?D and st = ?st, OF dev this, of pid] show ?thesis
      using that D old by (simp add: log_region_def) (metis (no_types, lifting))
  next
    case mid
    then have D: "?D = apply_writes (?W3 i) ((apply_writes ?W1 d)(?st := ?x))"
      using len by (simp add: W_def commit_writes_def Let_def take_map)
    have avoid: "b \<notin> (!) ?bl ` {0..<i}" if "b \<in> log_region ?st" for b
      using that im [OF mid(2)] bl(3) by blast
    have st: "?D ?st = ?x" using avoid [OF st_in_region] by (simp add: D apply_view_writes)
    have slot: "?D (log_slot ?st j) = v (?bl ! j)" if "j < m" for j
      using that avoid [OF log_region_iff [of j ?st]] m log_slot_not_header [of j ?st]
      by (simp add: D apply_view_writes log_copies_slot)
    have other: "?D b = v b" if "b \<notin> log_region ?st" "b \<notin> set (take m ?bl)" for b
      using that clean by (auto simp: D apply_view_writes d1)
    have "valid_head ?st (?D ?st) m" using st x by simp
    from recover_boot [where d = ?D and st = ?st, OF dev this, of pid] obtain r where r:
      "initlog pid (ldev s) ?st (boot_log ?D) = Inr r" "log_quiet r" "lh_n r = 0"
      "\<And>b. b \<notin> log_region ?st \<Longrightarrow> disk (cache r) b = apply_writes (?W3 m) ?D b"
      by (metis (no_types, lifting) x(5) st slot atLeastLessThan_iff map_cong set_upt)
    then show ?thesis
      using mid other full by (intro that [OF r(1-3)]) (auto simp: apply_view_writes)
  next
    case new
    then have D: "?D = (apply_writes (?W3 m) ((apply_writes ?W1 d)(?st := ?x)))(?st := head_block ?bl 0 ?x)"
      by (simp add: W_def commit_writes_def Let_def)
    have "valid_head ?st (?D ?st) 0" using x by (simp add: D valid_head_empty)
    from recover_boot [where d = ?D and st = ?st, OF dev this, of pid] obtain r where r:
      "initlog pid (ldev s) ?st (boot_log ?D) = Inr r" "log_quiet r" "lh_n r = 0"
      "\<And>b. b \<notin> log_region ?st \<Longrightarrow> disk (cache r) b = ?D b" by auto
    have "m < length W" by (simp add: W_def commit_writes_def Let_def len)
    moreover have "?D b = v b" if "b \<notin> log_region ?st" for b
      using that clean full by (auto simp: D apply_view_writes d1 log_region_def)
    ultimately show ?thesis using r new by (intro that [OF r(1-3)]) auto
  qed
qed

lemma commit_quiet:
  assumes q: "log_quiet s" and "lh_n s < int LOGBLOCKS"
  obtains s' where "commit pid s = Inr s'" "log_quiet s'" "lh_n s' = 0" "start s' = start s" "ldev s' = ldev s"
    "outstanding s' = outstanding s" "committing s' = committing s"
    "dtrace (cache s') = dtrace (cache s) @ (if lh_n s = 0 then []
       else commit_writes (start s) (lh_block s) (bview (ldev s) (cache s)) (nat (lh_n s)))"
    "\<And>b. b \<notin> log_region (start s) \<Longrightarrow> disk (cache s') b = bview (ldev s) (cache s) b \<and>
       bview (ldev s) (cache s') b = bview (ldev s) (cache s) b"
proof (cases "lh_n s = 0")
  case True
  then have "commit pid s = Inr s" by (simp add: commit_def)
  moreover obtain n where "abs_state (ldev s) (cache s) (bview (ldev s) (cache s))
      (\<lambda>b. if b \<in> set (logged s) then 1 else 0) (\<lambda>_. False) (disk (cache s)) (dtrace (cache s)) n"
    using log_quiet_abs [OF q] by blast
  then have "bview (ldev s) (cache s) b = disk (cache s) b" for b
    using abs_state_clean True by (fastforce simp: logged_def)
  ultimately show ?thesis using that q True by simp
next
  case False
  let ?v = "bview (ldev s) (cache s)" and ?st = "start s" and ?bl = "lh_block s"
  obtain m where m: "lh_n s = int m" "0 < m" "m < LOGBLOCKS"
    using q False assms(2) by (auto simp: log_quiet_def intro: that [of "nat (lh_n s)"])
  obtain n where abs: "abs_state (ldev s) (cache s) ?v
      (\<lambda>b. if b \<in> set (logged s) then 1 else 0) (\<lambda>_. False) (disk (cache s)) (dtrace (cache s)) n"
    and n: "n + m = NBUF" using log_quiet_abs [OF q] m by auto
  let ?W = "commit_writes ?st ?bl ?v m"
  obtain c where c: "commit pid s = Inr (s\<lparr>lh_n := 0, cache := c\<rparr>)"
    "abs_state (ldev s) c (apply_writes ?W ?v) (\<lambda>_. 0) (\<lambda>_. False) (apply_writes ?W (disk (cache s)))
      (dtrace (cache s) @ ?W) NBUF"
    by (rule commit_spec [OF abs q m n, of pid])
  have cd: "disk c = apply_writes ?W (disk (cache s))" "bview (ldev s) c = apply_writes ?W ?v"
    "dtrace c = dtrace (cache s) @ ?W" using c(2) by (auto simp: abs_state_def)
  have bl: "length ?bl = LOGBLOCKS" "set (take m ?bl) \<inter> log_region ?st = {}" "ldev s \<noteq> 0"
    "length (disk (cache s) ?st) = BSIZE"
    using q m by (auto simp: log_quiet_def logged_def)
  have full: "(!) ?bl ` {0..<m} = set (take m ?bl)"
    using bl m arg_cong [OF map_nth_take [where k = m and xs = ?bl], of set] by simp
  have clean: "?v b = disk (cache s) b" if "b \<notin> set (take m ?bl)" for b
    using abs_state_clean [OF abs] that m by (auto simp: logged_def)
  have vst: "?v ?st = disk (cache s) ?st" using bl(2) st_in_region by (intro clean) blast
  have cp: "apply_writes (log_copies ?st ?bl ?v 0 m) f b = f b" if "b \<notin> log_region ?st" for f b
    using that log_copies_fst [of m ?st ?bl ?v] m by (intro apply_writes_other) fastforce
  have home: "disk c b = ?v b \<and> bview (ldev s) c b = ?v b" if "b \<notin> log_region ?st" for b
    using that clean full cp [OF that]
    by (auto simp: cd commit_writes_def Let_def apply_view_writes log_region_def)
  have "disk c ?st = head_block ?bl 0 (head_block ?bl m (?v ?st))"
    by (simp add: cd commit_writes_def Let_def)
  moreover have "length (head_block ?bl m (?v ?st)) = BSIZE"
    using head_block_get(1) bl m vst by simp
  ultimately have "head_n (disk c ?st) = 0" "length (disk c ?st) = BSIZE"
    using head_block_get(1,2) [of "head_block ?bl m (?v ?st)" 0] by simp_all
  then have "log_quiet (s\<lparr>lh_n := 0, cache := c\<rparr>)"
    using c(2) bl by (auto simp: log_quiet_def logged_def)
  then show ?thesis using that [OF c(1)] home cd(3) m by simp
qed

subsection \<open>Logging a block\<close>

lemma find_entry_spec:
  "(\<exists>j. find_entry bl b i k = j \<and> i \<le> j \<and> j < i + k \<and> bl ! j = b) \<or>
   (find_entry bl b i k = i + k \<and> (\<forall>j. i \<le> j \<and> j < i + k \<longrightarrow> bl ! j \<noteq> b))"
proof (induction k arbitrary: i)
  case (Suc k)
  from Suc [of "Suc i"] show ?case by (auto simp: Suc_le_eq) (metis le_neq_implies_less)+
qed auto

text \<open>How the callers update a block within a transaction: \<open>bread\<close>, change the data, \<open>log_write\<close>,
  \<open>brelse\<close> (the use the comment above \<open>log_write\<close> prescribes).\<close>

definition log_update :: "cint \<Rightarrow> u32 \<Rightarrow> block \<Rightarrow> lstate \<Rightarrow> lstate result" where
  "log_update pid b x s =
     bind_result (bread pid (ldev s) b (cache s)) (\<lambda>(i, c).
     bind_result (log_write i (s\<lparr>cache := set_data i x c\<rparr>)) (\<lambda>s.
     bind_result (brelse pid i (cache s)) (\<lambda>c. Inr (s\<lparr>cache := c\<rparr>))))"

lemma log_update_spec:
  assumes q: "log_quiet s" and "lh_n s < int LOGBLOCKS" "1 \<le> outstanding s" "b \<notin> log_region (start s)"
  obtains s' where "log_update pid b x s = Inr s'" "log_quiet s'"
    "logged s' = (if b \<in> set (logged s) then logged s else logged s @ [b])"
    "bview (ldev s) (cache s') = (bview (ldev s) (cache s))(b := x)"
    "disk (cache s') = disk (cache s)" "start s' = start s" "ldev s' = ldev s"
    "outstanding s' = outstanding s" "committing s' = committing s" "lh_n s' \<le> lh_n s + 1"
proof -
  let ?v = "bview (ldev s) (cache s)" and ?r = "\<lambda>e. if e \<in> set (logged s) then (1 :: u32) else 0"
  let ?h = "(\<lambda>_. False)(b := True)" and ?d = "disk (cache s)" and ?t = "dtrace (cache s)"
  obtain m where m: "lh_n s = int m" "m < LOGBLOCKS"
    using q assms(2) by (auto simp: log_quiet_def intro: that [of "nat (lh_n s)"])
  obtain n where abs: "abs_state (ldev s) (cache s) ?v ?r (\<lambda>_. False) ?d ?t n" and n: "n + m = NBUF"
    using log_quiet_abs [OF q] m by auto
  have bl: "length (lh_block s) = LOGBLOCKS" "logged s = take m (lh_block s)"
    using q m by (auto simp: log_quiet_def logged_def)
  obtain i c1 where c1: "bread pid (ldev s) b (cache s) = Inr (i, c1)" "owns pid (ldev s) c1 i b"
    "abs_state (ldev s) c1 ?v (?r(b := ?r b + 1)) ?h ?d ?t (if ?r b = 0 then n - 1 else n)"
    by (rule abs_bread [OF abs, of b pid]) (use n m in \<open>auto simp: xv6_const\<close>)
  define c2 where "c2 = set_data i x c1"
  have c2: "owns pid (ldev s) c2 i b"
    "abs_state (ldev s) c2 (?v(b := x)) (?r(b := ?r b + 1)) ?h ?d ?t (if ?r b = 0 then n - 1 else n)"
    using abs_set_data [OF c1(3,2)] c1(2) by (simp_all add: c2_def)
  have bno: "blockno (bufs c2 i) = b" using c2(1) by (auto simp: owns_def matches_def)
  let ?f = "find_entry (lh_block s) b 0 m"
  have lw: "log_write i (s\<lparr>cache := c2\<rparr>) =
      (if ?f = m then Inr (s\<lparr>cache := bpin i c2, lh_block := (lh_block s)[m := b], lh_n := int m + 1\<rparr>)
       else Inr (s\<lparr>cache := c2, lh_block := (lh_block s)[?f := b]\<rparr>))"
    using m assms(3) by (simp add: log_write_def Let_def bno)
  show ?thesis
  proof (cases "b \<in> set (logged s)")
    case True
    then have f: "?f < m" "lh_block s ! ?f = b"
      using find_entry_spec [of "lh_block s" b 0 m] bl m by (auto simp: in_set_conv_nth)
    then have "(lh_block s)[?f := b] = lh_block s" by (metis list_update_id)
    then have lw1: "log_write i (s\<lparr>cache := c2\<rparr>) = Inr (s\<lparr>cache := c2\<rparr>)" using lw f by simp
    obtain c3 where c3: "brelse pid i c2 = Inr c3" "abs_state (ldev s) c3 (?v(b := x)) ?r (\<lambda>_. False) ?d ?t n"
      by (rule abs_brelse [OF c2(2,1)]) (use True in \<open>auto simp: fun_upd_idem\<close>)
    have r: "log_update pid b x s = Inr (s\<lparr>cache := c3\<rparr>)"
      using lw1 by (simp add: log_update_def c1 c3 flip: c2_def)
    have "bview (ldev s) c3 = ?v(b := x)" "disk c3 = ?d" using c3(2) by (auto simp: abs_state_def)
    moreover have "log_quiet (s\<lparr>cache := c3\<rparr>)"
      using q c3(2) n m \<open>disk c3 = ?d\<close> by (auto simp: log_quiet_def logged_def)
    ultimately show ?thesis using True by (intro that [OF r]) (simp_all add: logged_def)
  next
    case False
    then have f: "?f = m"
      using find_entry_spec [of "lh_block s" b 0 m] bl m by (fastforce simp: in_set_conv_nth)
    let ?r1 = "\<lambda>e. if e \<in> set (logged s @ [b]) then (1 :: u32) else 0"
    have c3: "abs_state (ldev s) (bpin i c2) (?v(b := x)) (?r(b := 2)) ?h ?d ?t (n - 1)"
      "owns pid (ldev s) (bpin i c2) i b"
      using abs_bpin [OF c2(2,1)] c2 False by auto
    have r1: "?r(b := 1) = ?r1" by auto
    obtain c4 where c4: "brelse pid i (bpin i c2) = Inr c4"
      "abs_state (ldev s) c4 (?v(b := x)) ?r1 (\<lambda>_. False) ?d ?t (n - 1)"
      by (rule abs_brelse [OF c3]) (use r1 in \<open>auto simp: fun_upd_idem\<close>)
    let ?s = "s\<lparr>lh_block := (lh_block s)[m := b], lh_n := int m + 1, cache := c4\<rparr>"
    have r: "log_update pid b x s = Inr ?s"
      using lw f by (simp add: log_update_def c1 c4 flip: c2_def)
    have lg: "logged ?s = logged s @ [b]"
      using bl m by (simp add: logged_def nat_add_distrib take_Suc_conv_app_nth flip: Suc_eq_plus1)
    have v: "bview (ldev s) c4 = ?v(b := x)" "disk c4 = ?d" using c4(2) by (auto simp: abs_state_def)
    have n': "(n - 1) + nat (int m + 1) = NBUF" using n m by (simp add: xv6_const)
    have "\<exists>v d t n. abs_state (ldev ?s) (cache ?s) v (\<lambda>e. if e \<in> set (logged ?s) then 1 else 0) (\<lambda>_. False) d t n \<and>
        n + nat (lh_n ?s) = NBUF"
      unfolding lg using c4(2) n' by (intro exI conjI) (assumption | simp)+
    moreover have "distinct (logged ?s)" "set (logged ?s) \<inter> log_region (start ?s) = {}"
      using q False assms(4) by (auto simp: lg log_quiet_def)
    ultimately have "log_quiet ?s"
      using q v m unfolding log_quiet_def by simp
    then show ?thesis using False v lg m by (intro that [OF r]) simp_all
  qed
qed

section \<open>Transactions\<close>

text \<open>
  Any interleaving of file-system calls that each log at most \<open>MAXOPBLOCKS\<close> blocks: the list holds
  what every call in progress may still log.
\<close>

inductive log_run :: "lstate \<Rightarrow> nat list \<Rightarrow> bool" where
  run_init: "log_quiet s \<Longrightarrow> lh_n s = 0 \<Longrightarrow> outstanding s = 0 \<Longrightarrow> \<not> committing s \<Longrightarrow> log_run s []"
| run_begin: "log_run s os \<Longrightarrow> begin_op s = Inr s' \<Longrightarrow> log_run s' (MAXOPBLOCKS # os)"
| run_write: "log_run s (us @ Suc k # vs) \<Longrightarrow> b \<notin> log_region (start s) \<Longrightarrow>
    log_update pid b x s = Inr s' \<Longrightarrow> log_run s' (us @ k # vs)"
| run_end: "log_run s (us @ k # vs) \<Longrightarrow> end_op pid s = Inr s' \<Longrightarrow> log_run s' (us @ vs)"

lemma log_quiet_update [simp]:
  "log_quiet (s\<lparr>outstanding := n\<rparr>) = log_quiet s" "log_quiet (s\<lparr>committing := b\<rparr>) = log_quiet s"
  by (simp_all add: log_quiet_def logged_def)

lemma commit_full:
  assumes q: "log_quiet s" and full: "lh_n s = int LOGBLOCKS"
  shows "commit pid s = Inl (Panic ''bget: no buffers'')"
proof -
  obtain n where abs: "abs_state (ldev s) (cache s) (bview (ldev s) (cache s))
      (\<lambda>b. if b \<in> set (logged s) then 1 else 0) (\<lambda>_. False) (disk (cache s)) (dtrace (cache s)) n"
    and n: "n + nat (lh_n s) = NBUF" using log_quiet_abs [OF q] by blast
  have "start s + 1 \<in> log_region (start s)"
    using log_region_iff [of 0 "start s"] by (simp add: log_slot_def xv6_const)
  then have "start s + 1 \<notin> set (logged s)" using q by (auto simp: log_quiet_def)
  then have "brefs (ldev s) (cache s) (start s + 1) = 0" "unused (cache s) = {}"
    using abs n full nfree_pos [of "cache s"] by (auto simp: abs_state_def xv6_const)
  then have "bread pid (ldev s) (start s + 1) (cache s) = Inl (Panic ''bget: no buffers'')"
    using abs bread_no_buffers by (auto simp: abs_state_def)
  moreover have "lh_block s \<noteq> []" "lh_n s > 0"
    using full q by (auto simp: xv6_const log_quiet_def)
  moreover from this obtain k where "nat (lh_n s) = Suc k" by (cases "nat (lh_n s)") auto
  ultimately show ?thesis
    by (simp add: commit_def write_log_def)
qed

lemma log_run_inv:
  "log_run s os \<Longrightarrow> log_quiet s \<and> \<not> committing s \<and> outstanding s = int (length os) \<and>
     (\<forall>k\<in>set os. k \<le> MAXOPBLOCKS) \<and> lh_n s + int (sum_list os) \<le> int LOGBLOCKS"
proof (induction rule: log_run.induct)
  case (run_init s)
  then show ?case by (simp add: log_quiet_def)
next
  case (run_begin s os s')
  have "sum_list os \<le> length os * MAXOPBLOCKS"
    using run_begin.IH sum_list_mono [of os "\<lambda>k. k" "\<lambda>_. MAXOPBLOCKS"] by (simp add: sum_list_triv)
  then have "int (sum_list os) \<le> int (length os) * int MAXOPBLOCKS"
    by (simp flip: of_nat_mult)
  with run_begin show ?case
    by (auto simp: begin_op_def algebra_simps split: if_splits)
next
  case (run_write s us k vs b pid x s')
  then have "lh_n s < int LOGBLOCKS" "1 \<le> outstanding s" by auto
  then obtain s1 where "log_update pid b x s = Inr s1" "log_quiet s1" "outstanding s1 = outstanding s"
    "committing s1 = committing s" "lh_n s1 \<le> lh_n s + 1"
    using log_update_spec [of s b pid x thesis] run_write by blast
  with run_write show ?case by auto
next
  case (run_end s us k vs pid s')
  let ?s = "s\<lparr>outstanding := outstanding s - 1, committing := True\<rparr>"
  have q: "log_quiet ?s" using run_end.IH by simp
  show ?case
  proof (cases "outstanding s = 1")
    case False
    with run_end show ?thesis by (auto simp: end_op_def Let_def)
  next
    case True
    then have "int (length us + length vs) = 0" using run_end.IH by simp
    then have "length us + length vs = 0" by (simp only: of_nat_eq_0_iff)
    then have e: "us = []" "vs = []" by simp_all
    have "lh_n s \<noteq> int LOGBLOCKS"
    proof
      assume "lh_n s = int LOGBLOCKS"
      then have "commit pid ?s = Inl (Panic ''bget: no buffers'')" using q by (intro commit_full) auto
      then show False using run_end.hyps True run_end.IH by (simp add: end_op_def Let_def)
    qed
    then have "lh_n ?s < int LOGBLOCKS" using run_end.IH by simp
    then obtain s1 where "commit pid ?s = Inr s1" "log_quiet s1" "lh_n s1 = 0" "outstanding s1 = outstanding ?s"
      using commit_quiet [OF q, of pid thesis] by blast
    then show ?thesis using run_end True e by (auto simp: end_op_def Let_def)
  qed
qed

text \<open>An example: a file system on zeroed blocks, and one transaction that logs block 100.\<close>

lemma zero_head: "valid_head st (replicate BSIZE 0) 0"
proof -
  have "take 4 (replicate BSIZE (0 :: u8)) = [0, 0, 0, 0]"
    by (simp add: BSIZE_def numeral_eq_Suc)
  then show ?thesis by (intro valid_head_empty) (simp_all add: head_n_def get32_def)
qed

lemma log_example:
  obtains s where "log_run s ([] @ Suc 9 # [])" "lh_n s = 0" "start s = 2" "ldev s = 1" "(100 :: u32) \<notin> log_region 2"
proof -
  obtain r where r: "log_quiet r" "lh_n r = 0" "start r = 2" "ldev r = 1" "outstanding r = 0" "\<not> committing r"
    using recover_boot [of 1 2 "\<lambda>_. replicate BSIZE 0" 0 0 thesis] zero_head by auto
  have "begin_op r = Inr (r\<lparr>outstanding := 1\<rparr>)" using r by (simp add: begin_op_def xv6_const)
  then have "log_run (r\<lparr>outstanding := 1\<rparr>) [MAXOPBLOCKS]"
    using r by (intro run_begin run_init) auto
  moreover have "(100 :: u32) \<notin> log_region 2"
  proof
    assume "(100 :: u32) \<in> log_region 2"
    then obtain i where "i < 30" "(of_nat i :: u32) = of_nat 97"
      by (auto simp: log_region_def log_slot_def xv6_const)
    then show False by (simp only: word_of_nat_eq_iff) (simp add: take_bit_nat_eq_self)
  qed
  ultimately show ?thesis using r by (intro that [of "r\<lparr>outstanding := 1\<rparr>"]) (simp_all add: xv6_const)
qed

lemma log_example_written:
  obtains s where "log_run s [9]" "logged s = [100]" "lh_n s = 1" "start s = 2" "ldev s = 1"
    "bview 1 (cache s) 100 = replicate BSIZE 7"
proof -
  obtain s where s: "log_run s ([] @ Suc 9 # [])" "lh_n s = 0" "start s = 2" "ldev s = 1" "(100 :: u32) \<notin> log_region 2"
    by (rule log_example)
  note inv = log_run_inv [OF s(1)]
  obtain s' where s': "log_update 1 100 (replicate BSIZE 7) s = Inr s'" "log_quiet s'"
    "logged s' = logged s @ [100]" "start s' = start s" "ldev s' = ldev s"
    "bview (ldev s) (cache s') = (bview (ldev s) (cache s))(100 := replicate BSIZE 7)"
    using log_update_spec [of s 100 1 "replicate BSIZE 7" thesis] inv s by (auto simp: logged_def xv6_const)
  have "log_run s' ([] @ 9 # [])" by (rule run_write [OF s(1) _ s'(1)]) (use s in simp)
  moreover have "lh_n s' = 1"
  proof -
    have "length (logged s') = nat (lh_n s')" using s'(2) by (auto simp: log_quiet_def logged_def)
    moreover have "length (logged s') = 1" using s'(3) s(2) by (simp add: logged_def)
    ultimately show ?thesis using s'(2) by (auto simp: log_quiet_def)
  qed
  ultimately show ?thesis using s s' by (intro that [of s']) (simp_all add: logged_def)
qed

text \<open>C1: Crash atomicity. A commit of a transaction that logged fewer than \<open>LOGBLOCKS\<close> blocks
  returns. If the machine stops after any number \<open>k\<close> of the block writes of the commit and boots
  again, \<open>initlog\<close> returns with an empty log, and every block outside the log holds either what it
  held before the commit (when \<open>k\<close> has not reached the header write, the \<open>lh_n + 1\<close>-th) or, for all
  blocks alike, what the transaction wrote.\<close>

theorem commit_crash_atomic:
  assumes "log_quiet s" "lh_n s < int LOGBLOCKS"
  shows "\<exists>s' W. commit pid s = Inr s' \<and> dtrace (cache s') = dtrace (cache s) @ W \<and>
    (\<forall>k\<le>length W. \<exists>r. initlog pid' (ldev s) (start s) (boot_log (apply_writes (take k W) (disk (cache s)))) = Inr r \<and>
       log_quiet r \<and> lh_n r = 0 \<and>
       (\<forall>b. b \<notin> log_region (start s) \<longrightarrow> disk (cache r) b =
          (if k \<le> nat (lh_n s) then disk (cache s) b else bview (ldev s) (cache s) b)))"
proof -
  obtain s' where s': "commit pid s = Inr s'"
    "dtrace (cache s') = dtrace (cache s) @ (if lh_n s = 0 then []
       else commit_writes (start s) (lh_block s) (bview (ldev s) (cache s)) (nat (lh_n s)))"
    using commit_quiet [OF assms, of pid thesis] by blast
  have m: "lh_n s = int (nat (lh_n s))" "nat (lh_n s) \<le> LOGBLOCKS"
    using assms by (auto simp: log_quiet_def)
  let ?W = "if lh_n s = 0 then []
       else commit_writes (start s) (lh_block s) (bview (ldev s) (cache s)) (nat (lh_n s))"
  have "\<exists>r. initlog pid' (ldev s) (start s) (boot_log (apply_writes (take k ?W) (disk (cache s)))) = Inr r \<and>
       log_quiet r \<and> lh_n r = 0 \<and>
       (\<forall>b. b \<notin> log_region (start s) \<longrightarrow> disk (cache r) b =
          (if k \<le> nat (lh_n s) then disk (cache s) b else bview (ldev s) (cache s) b))" if "k \<le> length ?W" for k
  proof -
    let ?W' = "commit_writes (start s) (lh_block s) (bview (ldev s) (cache s)) (nat (lh_n s))"
    have k: "k \<le> length ?W'" "take k ?W = take k ?W'" using that by (auto split: if_splits)
    show ?thesis
      by (rule crash_recovery [OF assms(1) m k(1), of pid']) (use k(2) in auto)
  qed
  then show ?thesis using s' by (intro exI conjI) (assumption | blast)+
qed

theorem commit_crash_atomic_witness:
  "\<exists>s s'. log_quiet s \<and> lh_n s = 1 \<and> bview 1 (cache s) 100 = replicate BSIZE 7 \<and> commit 1 s = Inr s'"
proof -
  obtain s where s: "log_run s [9]" "lh_n s = 1" "bview 1 (cache s) 100 = replicate BSIZE 7"
    by (rule log_example_written)
  then show ?thesis
    using commit_crash_atomic [of s 1 1] log_run_inv [OF s(1)] by (auto simp: xv6_const)
qed

text \<open>C2: In every interleaving of transactions that keep to their \<open>MAXOPBLOCKS\<close> blocks the log has
  room: a call that may still log a block never meets a panic of \<open>log_write\<close> or of the buffer
  cache, readers see the new contents at once, the disk does not change, and a block logged again
  takes no new log slot.\<close>

theorem log_write_has_room:
  assumes "log_run s (us @ Suc k # vs)" "b \<notin> log_region (start s)"
  shows "\<exists>s'. log_update pid b x s = Inr s' \<and> log_quiet s' \<and> disk (cache s') = disk (cache s) \<and>
    bview (ldev s) (cache s') = (bview (ldev s) (cache s))(b := x) \<and>
    logged s' = (if b \<in> set (logged s) then logged s else logged s @ [b])"
proof -
  have "log_quiet s" "lh_n s < int LOGBLOCKS" "1 \<le> outstanding s"
    using log_run_inv [OF assms(1)] by auto
  then show ?thesis using log_update_spec [of s b pid x ?thesis] assms(2) by blast
qed

theorem log_write_has_room_witness:
  "\<exists>s s'. log_run s [10] \<and> log_update 1 100 (replicate BSIZE 7) s = Inr s' \<and> logged s' = [100]"
proof -
  obtain s where s: "log_run s ([] @ Suc 9 # [])" "lh_n s = 0" "start s = 2" "(100 :: u32) \<notin> log_region 2"
    by (rule log_example)
  then show ?thesis
    using log_write_has_room [OF s(1), of 100 1 "replicate BSIZE 7"] by (auto simp: logged_def)
qed

text \<open>C3: A log with all \<open>LOGBLOCKS\<close> entries used pins every buffer of the cache (\<open>NBUF\<close> equals
  \<open>LOGBLOCKS\<close>), so the last \<open>end_op\<close>, which has to read the log blocks to commit, panics; with
  fewer entries it commits, and the disk then holds what readers saw.\<close>

theorem end_op_commits_unless_full:
  assumes "log_run s [k]"
  shows "if lh_n s = int LOGBLOCKS then end_op pid s = Inl (Panic ''bget: no buffers'')
    else \<exists>s'. end_op pid s = Inr s' \<and> lh_n s' = 0 \<and> outstanding s' = 0 \<and> \<not> committing s' \<and>
      (\<forall>b. b \<notin> log_region (start s) \<longrightarrow> disk (cache s') b = bview (ldev s) (cache s) b \<and>
         bview (ldev s) (cache s') b = bview (ldev s) (cache s) b)"
proof -
  let ?s = "s\<lparr>outstanding := outstanding s - 1, committing := True\<rparr>"
  note inv = log_run_inv [OF assms]
  have q: "log_quiet ?s" using inv by simp
  have e: "end_op pid s = bind_result (commit pid ?s) (\<lambda>s. Inr (s\<lparr>committing := False\<rparr>))"
    using inv by (simp add: end_op_def Let_def)
  show ?thesis
  proof (cases "lh_n s = int LOGBLOCKS")
    case True
    then show ?thesis using commit_full [OF q] e by simp
  next
    case False
    then have "lh_n ?s < int LOGBLOCKS" using inv by simp
    then obtain s1 where "commit pid ?s = Inr s1" "lh_n s1 = 0" "outstanding s1 = 0"
      "\<And>b. b \<notin> log_region (start s) \<Longrightarrow> disk (cache s1) b = bview (ldev s) (cache s) b \<and>
         bview (ldev s) (cache s1) b = bview (ldev s) (cache s) b"
      using inv by (auto intro: commit_quiet [OF q, of pid])
    then show ?thesis using e False by simp
  qed
qed

theorem end_op_commits_unless_full_witness:
  "\<exists>s s'. log_run s [9] \<and> lh_n s = 1 \<and> end_op 1 s = Inr s' \<and> lh_n s' = 0"
proof -
  obtain s where s: "log_run s [9]" "lh_n s = 1" by (rule log_example_written)
  then show ?thesis using end_op_commits_unless_full [OF s(1), of 1] by (auto simp: xv6_const)
qed

end
