(* ===== verification/Kstring.thy ===== *)
theory Kstring
  imports Xv6_Prelude
begin

text \<open>
  \<^verbatim>\<open>kernel/string.c\<close> and the string routines of \<^verbatim>\<open>user/ulib.c\<close>. Routines that write through a
  pointer into memory that may overlap their source (\<open>memset\<close>, \<open>memmove\<close>) work on a \<^typ>\<open>mem\<close>;
  routines that only read take the readable view \<^typ>\<open>cptr\<close> of each pointer, and \<open>strncpy\<close> and
  \<open>safestrcpy\<close> return the updated view of their destination. Loops are recursions on the count
  that is left; a loop that stops only at a NUL byte is \<open>partial_function (option)\<close>.
\<close>

section \<open>Writing memory\<close>

fun memset_loop :: "mem \<Rightarrow> u64 \<Rightarrow> u8 \<Rightarrow> nat \<Rightarrow> mem" where
  "memset_loop m d c 0 = m"
| "memset_loop m d c (Suc n) = memset_loop (m(d := c)) (d + 1) c n"

definition memset :: "mem \<Rightarrow> u64 \<Rightarrow> cint \<Rightarrow> u32 \<Rightarrow> mem" where
  "memset m dst c n = memset_loop m dst (ucast c) (unat n)"

fun copy_up :: "mem \<Rightarrow> u64 \<Rightarrow> u64 \<Rightarrow> nat \<Rightarrow> mem" where
  "copy_up m d s 0 = m"
| "copy_up m d s (Suc n) = copy_up (m(d := m s)) (d + 1) (s + 1) n"

fun copy_down :: "mem \<Rightarrow> u64 \<Rightarrow> u64 \<Rightarrow> nat \<Rightarrow> mem" where
  "copy_down m d s 0 = m"
| "copy_down m d s (Suc n) = copy_down (m(d - 1 := m (s - 1))) (d - 1) (s - 1) n"

definition memmove :: "mem \<Rightarrow> u64 \<Rightarrow> u64 \<Rightarrow> u32 \<Rightarrow> mem" where
  "memmove m dst src n =
     (if n = 0 then m
      else if src < dst \<and> dst < src + ucast n
      then copy_down m (dst + ucast n) (src + ucast n) (unat n)
      else copy_up m dst src (unat n))"

definition memcpy :: "mem \<Rightarrow> u64 \<Rightarrow> u64 \<Rightarrow> u32 \<Rightarrow> mem" where
  "memcpy m dst src n = memmove m dst src n"

text \<open>
  \<^verbatim>\<open>user/ulib.c\<close> chooses the direction by the order of the pointers alone, and its count is a
  signed \<open>int\<close>: a count that is not positive copies nothing.
\<close>

definition user_memmove :: "mem \<Rightarrow> u64 \<Rightarrow> u64 \<Rightarrow> cint \<Rightarrow> mem" where
  "user_memmove m vdst vsrc n =
     (if vdst < vsrc then copy_up m vdst vsrc (nat (sint n))
      else copy_down m (vdst + scast n) (vsrc + scast n) (nat (sint n)))"

section \<open>Reading memory\<close>

fun memcmp_loop :: "cptr \<Rightarrow> cptr \<Rightarrow> nat \<Rightarrow> nat \<Rightarrow> int" where
  "memcmp_loop s1 s2 i 0 = 0"
| "memcmp_loop s1 s2 i (Suc n) =
     (if s1 i \<noteq> s2 i then uint (s1 i) - uint (s2 i) else memcmp_loop s1 s2 (Suc i) n)"

definition memcmp :: "cptr \<Rightarrow> cptr \<Rightarrow> u32 \<Rightarrow> int" where
  "memcmp v1 v2 n = memcmp_loop v1 v2 0 (unat n)"

fun strncmp_loop :: "cptr \<Rightarrow> cptr \<Rightarrow> nat \<Rightarrow> nat \<Rightarrow> int" where
  "strncmp_loop p q i 0 = 0"
| "strncmp_loop p q i (Suc n) =
     (if p i \<noteq> 0 \<and> p i = q i then strncmp_loop p q (Suc i) n else uint (p i) - uint (q i))"

definition strncmp :: "cptr \<Rightarrow> cptr \<Rightarrow> u32 \<Rightarrow> int" where
  "strncmp p q n = strncmp_loop p q 0 (unat n)"

partial_function (option) strlen_from :: "cptr \<Rightarrow> nat \<Rightarrow> nat option" where
  "strlen_from s n = (if s n = 0 then Some n else strlen_from s (Suc n))"

definition strlen :: "cptr \<Rightarrow> nat option" where
  "strlen s = strlen_from s 0"

partial_function (option) strcmp_from :: "cptr \<Rightarrow> cptr \<Rightarrow> nat \<Rightarrow> int option" where
  "strcmp_from p q i =
     (if p i \<noteq> 0 \<and> p i = q i then strcmp_from p q (Suc i) else Some (uint (p i) - uint (q i)))"

definition strcmp :: "cptr \<Rightarrow> cptr \<Rightarrow> int option" where
  "strcmp p q = strcmp_from p q 0"

text \<open>\<open>strchr\<close> of \<^verbatim>\<open>user/ulib.c\<close>: the offset of the match, \<open>None\<close> inside for a null result.\<close>

partial_function (option) strchr_from :: "cptr \<Rightarrow> u8 \<Rightarrow> nat \<Rightarrow> nat option option" where
  "strchr_from s c i =
     (if s i = 0 then Some None else if s i = c then Some (Some i) else strchr_from s c (Suc i))"

definition strchr :: "cptr \<Rightarrow> u8 \<Rightarrow> nat option option" where
  "strchr s c = strchr_from s c 0"

section \<open>Copying strings\<close>

fun zero_fill :: "cptr \<Rightarrow> nat \<Rightarrow> nat \<Rightarrow> cptr" where
  "zero_fill s i 0 = s"
| "zero_fill s i (Suc n) = zero_fill (s(i := 0)) (Suc i) n"

fun strncpy_loop :: "cptr \<Rightarrow> cptr \<Rightarrow> nat \<Rightarrow> nat \<Rightarrow> cptr" where
  "strncpy_loop s t i 0 = s"
| "strncpy_loop s t i (Suc n) =
     (if t i \<noteq> 0 then strncpy_loop (s(i := t i)) t (Suc i) n
      else zero_fill (s(i := t i)) (Suc i) n)"

definition strncpy :: "cptr \<Rightarrow> cptr \<Rightarrow> cint \<Rightarrow> cptr" where
  "strncpy s t n = strncpy_loop s t 0 (nat (sint n))"

text \<open>
  The count \<open>n\<close> of the loop is decremented before it is tested; after a NUL was copied the
  pointer is already past it, so \<open>*s = 0\<close> writes one more zero byte.
\<close>

fun safestrcpy_loop :: "cptr \<Rightarrow> cptr \<Rightarrow> nat \<Rightarrow> nat \<Rightarrow> cptr" where
  "safestrcpy_loop s t i 0 = s"
| "safestrcpy_loop s t i (Suc n) =
     (if n > 0
      then (if t i \<noteq> 0 then safestrcpy_loop (s(i := t i)) t (Suc i) n
            else (s(i := t i))(Suc i := 0))
      else s(i := 0))"

definition safestrcpy :: "cptr \<Rightarrow> cptr \<Rightarrow> cint \<Rightarrow> cptr" where
  "safestrcpy s t n = (if sint n \<le> 0 then s else safestrcpy_loop s t 0 (nat (sint n)))"

section \<open>Memory routines\<close>

text \<open>An address lies in the \<open>n\<close> bytes from \<open>a\<close> when its offset from \<open>a\<close> is below \<open>n\<close>.\<close>

lemma memset_loop_apply:
  "n \<le> 2 ^ 64 \<Longrightarrow> memset_loop m d c n x = (if unat (x - d) < n then c else m x)"
proof (induction n arbitrary: m d)
  case (Suc n)
  show ?case
  proof (cases "x = d")
    case True
    with Suc show ?thesis
      by (simp add: Suc.IH unsigned_minus_1_eq_mask mask_eq_exp_minus_1)
  next
    case False
    with Suc show ?thesis by (simp add: unat_minus_step [OF False])
  qed
qed simp

lemma memset_apply: "memset m d c n x = (if unat (x - d) < unat n then ucast c else m x)"
proof -
  have "unat n < 2 ^ LENGTH(32)" by (rule unsigned_less)
  then show ?thesis by (simp add: memset_def memset_loop_apply)
qed

lemma copy_up_apply:
  assumes "unat d + n \<le> 2 ^ 64" "unat s + n \<le> 2 ^ 64" "d \<le> s \<or> unat s + n \<le> unat d"
  shows "copy_up m d s n x = (if unat (x - d) < n then m (s + (x - d)) else m x)"
  using assms
proof (induction n arbitrary: m d s)
  case (Suc n)
  show ?case
  proof (cases "n = 0")
    case True
    then show ?thesis by (auto simp: unat_eq_0)
  next
    case False
    then have d1: "unat (d + 1) = unat d + 1" and s1: "unat (s + 1) = unat s + 1"
      using Suc.prems unat_offset [of d 1] unat_offset [of s 1] by auto
    have IH: "copy_up (m(d := m s)) (d + 1) (s + 1) n x =
        (if unat (x - (d + 1)) < n then (m(d := m s)) (s + 1 + (x - (d + 1))) else (m(d := m s)) x)"
      using Suc.prems d1 s1 by (intro Suc.IH) (auto simp: word_le_nat_alt)
    show ?thesis
    proof (cases "x = d")
      case True
      with IH Suc.prems show ?thesis
        by (simp add: unsigned_minus_1_eq_mask mask_eq_exp_minus_1)
    next
      case False
      let ?k = "unat (x - (d + 1))"
      have "s + (x - d) \<noteq> d" if "?k < n"
      proof -
        have "x - d = of_nat (Suc ?k)"
          by (simp flip: unat_minus_step [OF False])
        then have "unat (s + (x - d)) = unat s + Suc ?k"
          using that Suc.prems by (simp only:) (rule unat_offset, simp)
        with that Suc.prems(3) have "unat (s + (x - d)) \<noteq> unat d"
          by (auto simp: word_le_nat_alt)
        then show ?thesis by (intro notI) (simp only:)
      qed
      with False IH show ?thesis
        by (simp add: unat_minus_step [OF False] algebra_simps)
    qed
  qed
qed simp

lemma copy_down_apply:
  assumes "unat d + n \<le> 2 ^ 64" "unat s + n \<le> 2 ^ 64" "s \<le> d \<or> unat d + n \<le> unat s"
  shows "copy_down m (d + of_nat n) (s + of_nat n) n x =
    (if unat (x - d) < n then m (s + (x - d)) else m x)"
  using assms
proof (induction n arbitrary: m)
  case (Suc n)
  let ?m = "m(d + of_nat n := m (s + of_nat n))"
  have top: "d + of_nat (Suc n) - 1 = d + of_nat n" "s + of_nat (Suc n) - 1 = s + of_nat n"
    by simp_all
  have IH: "copy_down ?m (d + of_nat n) (s + of_nat n) n x =
      (if unat (x - d) < n then ?m (s + (x - d)) else ?m x)"
    using Suc.prems by (intro Suc.IH) auto
  have n64: "unat (of_nat n :: u64) = n"
    using Suc.prems by (intro unat_of_nat64) simp
  have at: "x = d + of_nat n \<longleftrightarrow> unat (x - d) = n"
  proof
    assume "unat (x - d) = n"
    then have "x - d = of_nat n" by auto
    then show "x = d + of_nat n" by (simp add: algebra_simps)
  qed (simp add: n64)
  have ne: "s + (x - d) \<noteq> d + of_nat n" if "unat (x - d) < n"
  proof -
    have "unat (s + of_nat (unat (x - d))) = unat s + unat (x - d)"
      using that Suc.prems by (intro unat_offset) simp
    moreover have "unat (d + of_nat n) = unat d + n"
      using Suc.prems by (intro unat_offset) simp
    ultimately have "unat (s + (x - d)) \<noteq> unat (d + of_nat n)"
      using that Suc.prems by (auto simp: word_le_nat_alt)
    then show ?thesis by (intro notI) (simp only:)
  qed
  show ?case
    using IH at ne by (simp only: copy_down.simps top) (auto simp: less_Suc_eq)
qed simp

text \<open>Both \<open>memmove\<close>s copy the source as it was before the call, overlapping or not.\<close>

lemma memmove_apply:
  assumes "unat dst + unat n \<le> 2 ^ 64" "unat src + unat n < 2 ^ 64"
  shows "memmove m dst src n x =
    (if unat (x - dst) < unat n then m (src + (x - dst)) else m x)"
proof -
  have sn: "unat (src + ucast n) = unat src + unat n"
    using unat_offset [OF assms(2)] by simp
  consider "n = 0" | "n \<noteq> 0" "src < dst" "dst < src + ucast n"
    | "dst \<le> src \<or> unat src + unat n \<le> unat dst"
    by (metis linorder_not_less sn word_le_nat_alt)
  then show ?thesis
  proof cases
    case 2
    then show ?thesis
      using assms copy_down_apply [of dst "unat n" src m x]
      by (simp add: memmove_def word_less_nat_alt word_le_nat_alt)
  next
    case 3
    moreover from this have "\<not> (src < dst \<and> dst < src + ucast n)"
      using sn by (auto simp: word_less_nat_alt word_le_nat_alt)
    ultimately show ?thesis
      using assms copy_up_apply [of dst "unat n" src m x]
      by (cases "n = 0") (auto simp: memmove_def)
  qed (simp add: memmove_def)
qed

lemma user_memmove_apply:
  assumes "0 \<le> sint n" "unat dst + nat (sint n) \<le> 2 ^ 64" "unat src + nat (sint n) \<le> 2 ^ 64"
  shows "user_memmove m dst src n x =
    (if unat (x - dst) < nat (sint n) then m (src + (x - dst)) else m x)"
proof -
  let ?k = "nat (sint n)"
  have n: "of_nat ?k = (scast n :: u64)"
    using assms(1) by (simp only: of_nat_nat scast_eq)
  show ?thesis
  proof (cases "dst < src")
    case True
    then show ?thesis
      using assms copy_up_apply [of dst ?k src m x]
      by (simp add: user_memmove_def word_less_nat_alt word_le_nat_alt)
  next
    case False
    then show ?thesis
      using assms copy_down_apply [of dst ?k src m x] n
      by (simp add: user_memmove_def word_less_nat_alt word_le_nat_alt)
  qed
qed

section \<open>String routines\<close>

text \<open>The C string at a pointer, cut at \<open>n\<close> bytes: what comes before the first NUL.\<close>

fun cstr :: "cptr \<Rightarrow> nat \<Rightarrow> nat \<Rightarrow> u8 list" where
  "cstr p i 0 = []"
| "cstr p i (Suc n) = (if p i = 0 then [] else p i # cstr p (Suc i) n)"

lemma cstr_eq:
  "i \<le> j \<Longrightarrow> (\<And>k. i \<le> k \<Longrightarrow> k < j \<Longrightarrow> p k \<noteq> 0) \<Longrightarrow> j \<le> i + n \<Longrightarrow> p j = 0 \<or> j = i + n \<Longrightarrow>
    cstr p i n = map p [i..<j]"
proof (induction n arbitrary: i)
  case (Suc n)
  show ?case
  proof (cases "i = j")
    case False
    with Suc.prems have "i < j" "p i \<noteq> 0" by auto
    moreover have "cstr p (Suc i) n = map p [Suc i..<j]"
      using Suc.prems \<open>i < j\<close> by (intro Suc.IH) auto
    ultimately show ?thesis by (simp add: upt_conv_Cons)
  qed (use Suc.prems in auto)
qed auto

lemma strncmp_loop_eq_0: "strncmp_loop p q i n = 0 \<longleftrightarrow> cstr p i n = cstr q i n"
  by (induction n arbitrary: i) auto

lemma memcmp_loop_eq_0: "memcmp_loop p q i n = 0 \<longleftrightarrow> (\<forall>j<n. p (i + j) = q (i + j))"
proof (induction n arbitrary: i)
  case (Suc n)
  then show ?case by (auto simp: less_Suc_eq_0_disj)
qed simp

lemma strlen_from_eq:
  "n \<le> k \<Longrightarrow> s k = 0 \<Longrightarrow> (\<And>i. n \<le> i \<Longrightarrow> i < k \<Longrightarrow> s i \<noteq> 0) \<Longrightarrow> strlen_from s n = Some k"
proof (induction "k - n" arbitrary: n)
  case 0
  then show ?case by (simp add: strlen_from.simps)
next
  case (Suc d)
  then have "strlen_from s (Suc n) = Some k" by (intro Suc.hyps(1)) auto
  moreover from Suc have "s n \<noteq> 0" by simp
  ultimately show ?case by (simp add: strlen_from.simps [of s n])
qed

lemma strlen_eqI: "s k = 0 \<Longrightarrow> (\<And>i. i < k \<Longrightarrow> s i \<noteq> 0) \<Longrightarrow> strlen s = Some k"
  by (simp add: strlen_def strlen_from_eq)

lemma strlen_exists:
  assumes "s j = 0"
  shows "\<exists>k\<le>j. strlen s = Some k \<and> s k = 0 \<and> (\<forall>i<k. s i \<noteq> 0)"
proof -
  let ?k = "LEAST k. s k = 0"
  have "s ?k = 0" "?k \<le> j" "\<forall>i<?k. s i \<noteq> 0"
    using assms by (rule LeastI, rule Least_le, blast dest: not_less_Least)
  then show ?thesis using strlen_eqI [of s ?k] by blast
qed

lemma zero_fill_apply: "zero_fill s i n j = (if i \<le> j \<and> j < i + n then 0 else s j)"
  by (induction n arbitrary: s i) auto

lemma strncpy_loop_apply:
  "strncpy_loop s t i n j =
    (if i \<le> j \<and> j < i + n then (if \<exists>k. i \<le> k \<and> k < j \<and> t k = 0 then 0 else t j) else s j)"
proof (induction n arbitrary: s i)
  case (Suc n)
  show ?case
  proof (cases "t i = 0")
    case True
    then show ?thesis by (auto simp: zero_fill_apply intro: exI [of _ i])
  next
    case False
    have "(\<exists>k. Suc i \<le> k \<and> k < j \<and> t k = 0) \<longleftrightarrow> (\<exists>k. i \<le> k \<and> k < j \<and> t k = 0)"
      using False by (metis Suc_leD le_antisym not_less_eq_eq)
    then show ?thesis using False Suc by auto
  qed
qed auto

lemma safestrcpy_loop_frame: "j < i \<or> i + n \<le> j \<Longrightarrow> safestrcpy_loop s t i n j = s j"
  by (induction n arbitrary: s i) auto

lemma safestrcpy_loop_spec:
  "0 < n \<Longrightarrow> \<exists>j. i \<le> j \<and> j < i + n \<and> safestrcpy_loop s t i n j = 0 \<and>
     (\<forall>k. i \<le> k \<and> k < j \<longrightarrow> t k \<noteq> 0 \<and> safestrcpy_loop s t i n k = t k) \<and>
     (t j = 0 \<or> j = i + n - 1)"
proof (induction n arbitrary: s i)
  case (Suc n)
  show ?case
  proof (cases "0 < n \<and> t i \<noteq> 0")
    case True
    let ?s = "s(i := t i)"
    obtain j where j: "Suc i \<le> j" "j < Suc i + n" "safestrcpy_loop ?s t (Suc i) n j = 0"
      "\<forall>k. Suc i \<le> k \<and> k < j \<longrightarrow> t k \<noteq> 0 \<and> safestrcpy_loop ?s t (Suc i) n k = t k"
      "t j = 0 \<or> j = Suc i + n - 1"
      using Suc.IH [of "Suc i" ?s] True by blast
    moreover have "safestrcpy_loop ?s t (Suc i) n i = t i"
      by (simp add: safestrcpy_loop_frame)
    moreover have "k = i \<or> Suc i \<le> k" if "i \<le> k" for k using that by auto
    ultimately show ?thesis using True
      by (intro exI [of _ j]) (auto simp: Suc_le_eq)
  next
    case False
    then show ?thesis by (intro exI [of _ i]) auto
  qed
qed simp

section \<open>Correctness of the routines\<close>

text \<open>C29: the kernel's \<open>memmove\<close> leaves at the destination what the source held before the call,
  also when the two ranges overlap in either direction, and changes nothing else.\<close>

theorem memmove_correct:
  assumes "unat dst + unat n \<le> 2 ^ 64" "unat src + unat n < 2 ^ 64"
  shows "load_bytes (memmove m dst src n) dst (unat n) = load_bytes m src (unat n) \<and>
    (\<forall>x. unat n \<le> unat (x - dst) \<longrightarrow> memmove m dst src n x = m x)"
proof -
  have "memmove m dst src n (dst + of_nat i) = m (src + of_nat i)" if "i < unat n" for i
  proof -
    have "unat (of_nat i :: u64) = i"
      using that assms by (intro unat_of_nat64) simp
    then show ?thesis using that assms by (simp add: memmove_apply)
  qed
  then show ?thesis
    using assms by (auto simp: load_bytes_def memmove_apply)
qed

theorem memmove_correct_witness:
  "load_bytes (memmove (\<lambda>a. ucast a) 0x1002 0x1000 5) 0x1002 5 = [0, 1, 2, 3, 4]"
  using memmove_correct [of "0x1002" 5 "0x1000" "\<lambda>a. ucast a"]
  by (simp add: load_bytes_def upt_rec)

text \<open>C30: \<open>safestrcpy\<close> with a positive count leaves a NUL-terminated string within the first \<open>n\<close>
  bytes, which is the source string cut to \<open>n - 1\<close> bytes, and writes nothing at or past \<open>n\<close>.\<close>

theorem safestrcpy_terminates_string:
  assumes "0 < sint n"
  shows "(\<exists>j<nat (sint n). cstr (safestrcpy s t n) 0 (nat (sint n)) = cstr t 0 (nat (sint n) - 1)
      \<and> safestrcpy s t n j = 0) \<and>
    (\<forall>i\<ge>nat (sint n). safestrcpy s t n i = s i)"
proof -
  let ?n = "nat (sint n)"
  let ?r = "safestrcpy_loop s t 0 ?n"
  from assms have eq: "safestrcpy s t n = ?r" and n: "0 < ?n" by (auto simp: safestrcpy_def)
  from safestrcpy_loop_spec [OF n, of 0 s t] obtain j where j: "j < ?n" "?r j = 0"
    "\<forall>k<j. t k \<noteq> 0 \<and> ?r k = t k" "t j = 0 \<or> j = ?n - 1" by auto
  have "cstr ?r 0 ?n = map t [0..<j]"
    using cstr_eq [of 0 j ?r ?n] j by (auto cong: map_cong)
  moreover have "cstr t 0 (?n - 1) = map t [0..<j]"
    using cstr_eq [of 0 j t "?n - 1"] j by auto
  ultimately show ?thesis
    using j by (auto simp: eq safestrcpy_loop_frame)
qed

theorem safestrcpy_terminates_string_witness:
  "cstr (safestrcpy (\<lambda>_. 9) (\<lambda>i. if i < 7 then 65 else 0) 4) 0 4 = [65, 65, 65]"
proof -
  let ?t = "\<lambda>i::nat. if i < 7 then 65 else 0 :: u8"
  have t: "cstr ?t 0 (4 - 1) = [65, 65, 65]" by code_simp
  have n: "nat (sint (4 :: cint)) = 4" by simp
  show ?thesis
    using safestrcpy_terminates_string [of 4 "\<lambda>_. 9" ?t] t unfolding n by fastforce
qed

end
