(* ===== verification/Kalloc.thy ===== *)
theory Kalloc
  imports Kstring
begin

text \<open>
  \<^verbatim>\<open>kernel/kalloc.c\<close>, the physical page allocator. Its free list is threaded through the free
  pages themselves, so the state is the head pointer and the physical memory. The address \<open>end\<close>
  that the linker script defines is the parameter \<open>kend\<close>. \<open>kmem.lock\<close> is taken and released
  within each operation; see theory Spinlock for what that pair does.
\<close>

section \<open>The allocator\<close>

record kmem =
  freelist :: u64
  pmem :: mem

definition kfree :: "u64 \<Rightarrow> u64 \<Rightarrow> kmem \<Rightarrow> kmem result" where
  "kfree kend pa k =
     (if pa mod PGSIZE \<noteq> 0 \<or> pa < kend \<or> PHYSTOP \<le> pa then Inl (Panic ''kfree'')
      else let m = memset (pmem k) pa 1 (ucast PGSIZE)
           in Inr (k\<lparr>pmem := store64 m pa (freelist k), freelist := pa\<rparr>))"

definition kalloc :: "kmem \<Rightarrow> u64 \<times> kmem" where
  "kalloc k =
     (let r = freelist k
      in if r \<noteq> 0
         then (r, k\<lparr>freelist := load64 (pmem k) r, pmem := memset (pmem k) r 5 (ucast PGSIZE)\<rparr>)
         else (r, k))"

text \<open>Only a successful \<open>kfree\<close> lets the loop go on, and that bounds \<open>p\<close> by \<open>PHYSTOP\<close>.\<close>

function freerange_loop :: "u64 \<Rightarrow> u64 \<Rightarrow> u64 \<Rightarrow> kmem \<Rightarrow> kmem result" where
  "freerange_loop kend p pa_end k =
     (if p + PGSIZE \<le> pa_end
      then (case kfree kend p k of
              Inl e \<Rightarrow> Inl e
            | Inr k' \<Rightarrow> freerange_loop kend (p + PGSIZE) pa_end k')
      else Inr k)"
  by pat_completeness auto
termination
proof (relation "measure (\<lambda>(kend, p, pa_end, k). unat PHYSTOP - unat p)")
  fix kend p pa_end :: u64 and k k'
  assume "kfree kend p k = Inr k'"
  then have "unat p < unat PHYSTOP"
    by (auto simp: kfree_def Let_def word_less_nat_alt word_le_nat_alt split: if_splits)
  moreover from this have "unat (p + PGSIZE) = unat p + 4096"
    by (subst unat_add_no_wrap) (auto simp: unat_PHYSTOP)
  ultimately show "((kend, p + PGSIZE, pa_end, k'), kend, p, pa_end, k) \<in>
      measure (\<lambda>(kend, p, pa_end, k). unat PHYSTOP - unat p)"
    by simp
qed simp

declare freerange_loop.simps [simp del]

definition freerange :: "u64 \<Rightarrow> u64 \<Rightarrow> u64 \<Rightarrow> kmem \<Rightarrow> kmem result" where
  "freerange kend pa_start pa_end k = freerange_loop kend (PGROUNDUP pa_start) pa_end k"

definition kinit :: "u64 \<Rightarrow> kmem \<Rightarrow> kmem result" where
  "kinit kend k = freerange kend kend PHYSTOP k"

text \<open>A run of allocations, for statements about what successive calls hand out.\<close>

fun alloc_many :: "('s \<Rightarrow> u64 \<times> 's) \<Rightarrow> nat \<Rightarrow> 's \<Rightarrow> u64 list \<times> 's" where
  "alloc_many alloc 0 s = ([], s)"
| "alloc_many alloc (Suc n) s =
     (let (p, s') = alloc s; (ps, s'') = alloc_many alloc n s' in (p # ps, s''))"

section \<open>The free-list invariant\<close>

fun free_chain :: "mem \<Rightarrow> u64 \<Rightarrow> u64 list \<Rightarrow> bool" where
  "free_chain m p [] \<longleftrightarrow> p = 0"
| "free_chain m p (a # as) \<longleftrightarrow> p = a \<and> a \<noteq> 0 \<and> free_chain m (load64 m a) as"

definition good_page :: "u64 \<Rightarrow> u64 \<Rightarrow> bool" where
  "good_page kend p \<longleftrightarrow> p mod PGSIZE = 0 \<and> kend \<le> p \<and> p < PHYSTOP \<and> p \<noteq> 0"

definition kmem_inv :: "u64 \<Rightarrow> u64 list \<Rightarrow> kmem \<Rightarrow> bool" where
  "kmem_inv kend ps k \<longleftrightarrow>
     free_chain (pmem k) (freelist k) ps \<and> distinct ps \<and> (\<forall>p\<in>set ps. good_page kend p)"

definition free_pages :: "u64 \<Rightarrow> kmem \<Rightarrow> u64 set \<Rightarrow> bool" where
  "free_pages kend k F \<longleftrightarrow> (\<exists>ps. kmem_inv kend ps k \<and> set ps = F)"

lemma mod_PGSIZE_aligned: "p mod PGSIZE = 0 \<longleftrightarrow> aligned 4096 p"
proof -
  have "p mod PGSIZE = 0 \<longleftrightarrow> unat (p mod PGSIZE) = 0" by (simp add: unat_eq_0)
  then show ?thesis by (simp add: aligned_def unat_mod_distrib)
qed

lemma aligned_page_8: "aligned 4096 p \<Longrightarrow> aligned 8 p"
  by (auto simp: aligned_def mod_eq_0_iff_dvd intro: dvd_trans [of 8 4096])

lemma ucast_PGSIZE [simp]: "unat (ucast PGSIZE :: u32) = 4096"
  by (simp add: PGSIZE_def)

lemma load64_memset_page:
  assumes "aligned 4096 a" "aligned 4096 b" "a \<noteq> b"
  shows "load64 (memset m a c (ucast PGSIZE)) b = load64 m b"
proof (rule load64_cong)
  fix i :: nat assume "i < 8"
  then have "\<not> unat (b + of_nat i - a) < 4096"
    using assms by (intro aligned_disjoint) auto
  then show "memset m a c (ucast PGSIZE) (b + of_nat i) = m (b + of_nat i)"
    by (simp add: memset_apply)
qed

lemma free_chain_cong:
  "(\<And>a. a \<in> set ps \<Longrightarrow> load64 m' a = load64 m a) \<Longrightarrow> free_chain m' p ps = free_chain m p ps"
  by (induction ps arbitrary: p) auto

lemma kfree_inv:
  assumes inv: "kmem_inv kend ps k" and pa: "good_page kend pa" "pa \<notin> set ps"
  shows "\<exists>k'. kfree kend pa k = Inr k' \<and> kmem_inv kend (pa # ps) k'"
proof -
  let ?m = "memset (pmem k) pa 1 (ucast PGSIZE)"
  let ?m' = "store64 ?m pa (freelist k)"
  have al: "aligned 4096 pa" "\<forall>p\<in>set ps. aligned 4096 p \<and> p \<noteq> pa"
    using inv pa by (auto simp: kmem_inv_def good_page_def mod_PGSIZE_aligned)
  have "load64 ?m' p = load64 (pmem k) p" if "p \<in> set ps" for p
    using al that by (metis aligned_page_8 load64_memset_page load64_store64_other)
  then have "free_chain ?m' (freelist k) ps"
    using inv free_chain_cong [of ps ?m' "pmem k"] by (auto simp: kmem_inv_def)
  then show ?thesis
    using inv pa by (auto simp: kfree_def Let_def kmem_inv_def good_page_def)
qed

lemma kalloc_empty: "kmem_inv kend [] k \<Longrightarrow> kalloc k = (0, k)"
  by (simp add: kmem_inv_def kalloc_def)

lemma kalloc_inv:
  assumes inv: "kmem_inv kend (p # ps) k"
  shows "\<exists>k'. kalloc k = (p, k') \<and> kmem_inv kend ps k'"
proof -
  let ?m = "memset (pmem k) p 5 (ucast PGSIZE)"
  have al: "aligned 4096 p" "\<forall>q\<in>set ps. aligned 4096 q \<and> q \<noteq> p"
    using inv by (auto simp: kmem_inv_def good_page_def mod_PGSIZE_aligned)
  then have "load64 ?m q = load64 (pmem k) q" if "q \<in> set ps" for q
    using that by (metis load64_memset_page)
  then have "free_chain ?m (load64 (pmem k) p) ps"
    using inv free_chain_cong [of ps ?m "pmem k"] by (auto simp: kmem_inv_def)
  then show ?thesis
    using inv by (auto simp: kalloc_def Let_def kmem_inv_def)
qed

section \<open>The interface of a page allocator\<close>

text \<open>
  What the rest of the kernel relies on: an abstraction relation to the set of free pages,
  allocation that takes one page out of it, and freeing that puts one back.
\<close>

locale page_allocator =
  fixes rel :: "'s \<Rightarrow> u64 set \<Rightarrow> bool"
    and alloc :: "'s \<Rightarrow> u64 \<times> 's"
    and free :: "u64 \<Rightarrow> 's \<Rightarrow> 's result"
    and ok :: "u64 \<Rightarrow> bool"
  assumes alloc_empty: "rel s {} \<Longrightarrow> alloc s = (0, s)"
    and alloc_some: "rel s F \<Longrightarrow> F \<noteq> {} \<Longrightarrow> \<exists>p s'. alloc s = (p, s') \<and> p \<in> F \<and> rel s' (F - {p})"
    and free_page: "rel s F \<Longrightarrow> ok p \<Longrightarrow> p \<notin> F \<Longrightarrow> \<exists>s'. free p s = Inr s' \<and> rel s' (insert p F)"
    and rel_ok: "rel s F \<Longrightarrow> p \<in> F \<Longrightarrow> ok p \<and> p \<noteq> 0"
    and rel_finite: "rel s F \<Longrightarrow> finite F"
begin

lemma alloc_many_distinct:
  "rel s F \<Longrightarrow> n \<le> card F \<Longrightarrow> \<exists>ps s'. alloc_many alloc n s = (ps, s') \<and> length ps = n \<and>
     distinct ps \<and> set ps \<subseteq> F \<and> rel s' (F - set ps)"
proof (induction n arbitrary: s F)
  case (Suc n)
  then have "F \<noteq> {}" by auto
  then obtain p s1 where p: "alloc s = (p, s1)" "p \<in> F" "rel s1 (F - {p})"
    using alloc_some [OF Suc.prems(1)] by auto
  moreover have "n \<le> card (F - {p})"
    using Suc.prems p rel_finite [OF Suc.prems(1)] by auto
  ultimately obtain ps s2 where "alloc_many alloc n s1 = (ps, s2)" "length ps = n" "distinct ps"
    "set ps \<subseteq> F - {p}" "rel s2 (F - {p} - set ps)"
    using Suc.IH by blast
  with p show ?case by (auto simp: Diff_insert2 [symmetric] insert_Diff_if)
qed simp

lemma alloc_then_free:
  assumes "rel s F" "F \<noteq> {}"
  shows "\<exists>p s' s''. alloc s = (p, s') \<and> free p s' = Inr s'' \<and> rel s'' F"
proof -
  obtain p s' where p: "alloc s = (p, s')" "p \<in> F" "rel s' (F - {p})"
    using alloc_some [OF assms] by auto
  obtain s'' where "free p s' = Inr s''" "rel s'' (insert p (F - {p}))"
    using free_page [OF p(3), of p] rel_ok [OF assms(1) p(2)] by auto
  with p show ?thesis by (auto simp: insert_absorb)
qed

end

interpretation kpages: page_allocator "free_pages kend" kalloc "kfree kend" "good_page kend" for kend
proof unfold_locales
  fix s assume "free_pages kend s {}"
  then show "kalloc s = (0, s)" by (auto simp: free_pages_def intro: kalloc_empty)
next
  fix s F assume "free_pages kend s F" "F \<noteq> {}"
  then obtain p ps where "kmem_inv kend (p # ps) s" and F: "F = set (p # ps)"
    unfolding free_pages_def by (metis list.set_cases list.set_intros(1) neq_Nil_conv set_empty)
  moreover from this obtain k' where "kalloc s = (p, k')" "kmem_inv kend ps k'"
    using kalloc_inv by blast
  moreover have "F - {p} = set ps"
    using F \<open>kmem_inv kend (p # ps) s\<close> by (auto simp: kmem_inv_def)
  ultimately show "\<exists>p s'. kalloc s = (p, s') \<and> p \<in> F \<and> free_pages kend s' (F - {p})"
    by (auto simp: free_pages_def)
next
  fix s F p assume "free_pages kend s F" "good_page kend p" "p \<notin> F"
  then show "\<exists>s'. kfree kend p s = Inr s' \<and> free_pages kend s' (insert p F)"
    unfolding free_pages_def by (metis kfree_inv list.simps(15))
qed (auto simp: free_pages_def kmem_inv_def good_page_def)

section \<open>Initialisation\<close>

lemma kfree_panics_iff:
  "(\<exists>e. kfree kend pa k = Inl e) \<longleftrightarrow> pa mod PGSIZE \<noteq> 0 \<or> pa < kend \<or> PHYSTOP \<le> pa"
  by (auto simp: kfree_def Let_def)

lemma page_step:
  assumes "aligned 4096 p" "p < PHYSTOP"
  shows "unat (p + PGSIZE) = unat p + 4096" "p + PGSIZE \<le> PHYSTOP" "aligned 4096 (p + PGSIZE)"
proof -
  have p: "unat p < 0x88000000" using assms(2) by (simp add: word_less_nat_alt unat_PHYSTOP)
  show u: "unat (p + PGSIZE) = unat p + 4096"
    using p by (subst unat_add_no_wrap) auto
  have "unat p + 4096 \<le> 0x88000000"
    using p assms(1) by (auto simp: aligned_def mod_eq_0_iff_dvd elim!: dvdE)
  with u show "p + PGSIZE \<le> PHYSTOP" by (simp add: word_le_nat_alt unat_PHYSTOP)
  show "aligned 4096 (p + PGSIZE)" using assms(1) u by (simp add: aligned_def)
qed

lemma next_aligned:
  assumes "aligned 4096 p" "aligned 4096 q" "p \<le> q" "unat (p + PGSIZE) = unat p + 4096"
  shows "q = p \<or> p + PGSIZE \<le> q"
proof -
  obtain i j where "unat p = 4096 * i" "unat q = 4096 * j"
    using assms(1,2) by (auto simp: aligned_def mod_eq_0_iff_dvd elim!: dvdE)
  then show ?thesis
    using assms(3,4) by (auto simp: word_le_nat_alt word_unat_eq_iff)
qed

lemma freerange_loop_inv:
  assumes "kmem_inv kend ps k" "aligned 4096 p" "kend \<le> p" "p \<noteq> 0" "p \<le> PHYSTOP" "\<forall>q\<in>set ps. q < p"
  shows "\<exists>k' ps'. freerange_loop kend p PHYSTOP k = Inr k' \<and> kmem_inv kend ps' k' \<and>
    set ps' = set ps \<union> {q. aligned 4096 q \<and> p \<le> q \<and> q < PHYSTOP}"
  using assms
proof (induction "unat PHYSTOP - unat p" arbitrary: p k ps rule: less_induct)
  case less
  show ?case
  proof (cases "p = PHYSTOP")
    case True
    then have "\<not> p + PGSIZE \<le> PHYSTOP"
      by (simp add: PHYSTOP_def KERNBASE_def PGSIZE_def)
    moreover have "{q. aligned 4096 q \<and> p \<le> q \<and> q < PHYSTOP} = {}"
      using True by auto
    ultimately show ?thesis
      using less.prems(1) by (auto simp: freerange_loop.simps [of kend p])
  next
    case False
    then have lt: "p < PHYSTOP" using less.prems by simp
    note st = page_step [OF less.prems(2) lt]
    have good: "good_page kend p" "p \<notin> set ps"
      using less.prems lt by (auto simp: good_page_def mod_PGSIZE_aligned)
    obtain k1 where k1: "kfree kend p k = Inr k1" "kmem_inv kend (p # ps) k1"
      using kfree_inv [OF less.prems(1) good] by auto
    have lt1: "p < p + PGSIZE" by (simp add: word_less_nat_alt st)
    obtain k' ps' where "freerange_loop kend (p + PGSIZE) PHYSTOP k1 = Inr k'" "kmem_inv kend ps' k'"
      "set ps' = set (p # ps) \<union> {q. aligned 4096 q \<and> p + PGSIZE \<le> q \<and> q < PHYSTOP}"
      using less.hyps [of "p + PGSIZE" "p # ps" k1] less.prems k1(2) lt lt1 st
      by (fastforce simp: word_less_nat_alt word_le_nat_alt)
    moreover have "{q. aligned 4096 q \<and> p \<le> q \<and> q < PHYSTOP} =
        insert p {q. aligned 4096 q \<and> p + PGSIZE \<le> q \<and> q < PHYSTOP}"
      using less.prems(2) lt lt1 next_aligned [of p] st(1) by auto
    ultimately show ?thesis
      using k1(1) st(2) by (auto simp: freerange_loop.simps [of kend p])
  qed
qed

lemma PGROUNDUP_le_iff:
  assumes "unat a + 4095 < 2 ^ 64" "aligned 4096 q"
  shows "PGROUNDUP a \<le> q \<longleftrightarrow> a \<le> q"
proof -
  obtain j where j: "unat q = 4096 * j"
    using assms(2) by (auto simp: aligned_def mod_eq_0_iff_dvd elim!: dvdE)
  have "(unat a + 4095) div 4096 * 4096 \<le> 4096 * j \<longleftrightarrow> unat a \<le> 4096 * j"
  proof -
    have "(unat a + 4095) div 4096 * 4096 \<le> 4096 * j \<longleftrightarrow> (unat a + 4095) div 4096 < Suc j"
      by (simp add: mult.commute [of _ 4096] less_Suc_eq_le)
    also have "\<dots> \<longleftrightarrow> unat a \<le> 4096 * j"
      by (subst div_less_iff_less_mult) auto
    finally show ?thesis .
  qed
  then show ?thesis by (simp add: word_le_nat_alt PGROUNDUP_unat [OF assms(1)] j)
qed

section \<open>Correctness of the allocator\<close>

text \<open>C26: \<open>kinit\<close> does not panic and puts exactly the page-aligned addresses between the end of
  the kernel and \<open>PHYSTOP\<close> on the free list, each once.\<close>

theorem kinit_frees_all_pages:
  assumes "0 < kend" "kend \<le> PHYSTOP" "freelist k = 0"
  shows "\<exists>k'. kinit kend k = Inr k' \<and>
    free_pages kend k' {q. q mod PGSIZE = 0 \<and> kend \<le> q \<and> q < PHYSTOP}"
proof -
  let ?p = "PGROUNDUP kend"
  have nw: "unat kend + 4095 < 2 ^ 64"
    using assms(2) by (simp add: word_le_nat_alt unat_PHYSTOP)
  have al: "aligned 4096 ?p" by (simp add: aligned_def PGROUNDUP_unat [OF nw])
  have le: "kend \<le> ?p" using PGROUNDUP_le_iff [OF nw al] by simp
  then have "?p \<noteq> 0" using assms(1) by auto
  moreover have "aligned 4096 PHYSTOP" by (simp add: aligned_def unat_PHYSTOP)
  then have "?p \<le> PHYSTOP" using PGROUNDUP_le_iff [OF nw] assms(2) by simp
  moreover have "kmem_inv kend [] k" using assms(3) by (simp add: kmem_inv_def)
  ultimately obtain k' ps' where "freerange_loop kend ?p PHYSTOP k = Inr k'" "kmem_inv kend ps' k'"
    "set ps' = {q. aligned 4096 q \<and> ?p \<le> q \<and> q < PHYSTOP}"
    using freerange_loop_inv [of kend "[]" k ?p] al le by auto
  moreover have "{q. aligned 4096 q \<and> ?p \<le> q \<and> q < PHYSTOP} =
      {q. q mod PGSIZE = 0 \<and> kend \<le> q \<and> q < PHYSTOP}"
    using PGROUNDUP_le_iff [OF nw] by (auto simp: mod_PGSIZE_aligned)
  ultimately show ?thesis
    by (auto simp: kinit_def freerange_def free_pages_def)
qed

definition kmem_ex :: kmem where
  "kmem_ex = \<lparr>freelist = 0x80003000, pmem = store64 (\<lambda>_. 0) 0x80003000 0x80001000\<rparr>"

lemma kmem_ex_inv: "kmem_inv 0x80000800 [0x80003000, 0x80001000] kmem_ex"
proof -
  have "load64 (store64 (\<lambda>_. 0) 0x80003000 0x80001000) 0x80001000 = load64 (\<lambda>_. 0) 0x80001000"
    by (rule load64_store64_other) (simp_all add: aligned_def)
  also have "\<dots> = 0" by (simp add: load64_def load_bytes_def upt_rec)
  finally show ?thesis
    by (simp add: kmem_inv_def kmem_ex_def good_page_def PHYSTOP_def KERNBASE_def PGSIZE_def)
qed

lemma kmem_ex_pages: "free_pages 0x80000800 kmem_ex {0x80003000, 0x80001000}"
  using kmem_ex_inv unfolding free_pages_def by (intro exI [of _ "[0x80003000, 0x80001000]"]) auto

theorem kinit_frees_all_pages_witness:
  "\<exists>k'. kinit 0x80020123 \<lparr>freelist = 0, pmem = (\<lambda>_. 7)\<rparr> = Inr k' \<and>
    free_pages 0x80020123 k' {q. q mod PGSIZE = 0 \<and> 0x80020123 \<le> q \<and> q < PHYSTOP}"
  by (rule kinit_frees_all_pages) (simp_all add: PHYSTOP_def KERNBASE_def)

text \<open>C27: successive \<open>kalloc\<close> calls hand out different pages, all of them free before, while any
  are left, and the pages handed out are no longer on the free list.\<close>

theorem kalloc_distinct_pages:
  assumes "free_pages kend k F" "n \<le> card F"
  shows "\<exists>ps k'. alloc_many kalloc n k = (ps, k') \<and> length ps = n \<and> distinct ps \<and>
    set ps \<subseteq> F \<and> free_pages kend k' (F - set ps)"
  using assms by (rule kpages.alloc_many_distinct)

theorem kalloc_distinct_pages_witness:
  "\<exists>ps k'. alloc_many kalloc 2 kmem_ex = (ps, k') \<and> length ps = 2 \<and> distinct ps \<and>
    set ps \<subseteq> {0x80003000, 0x80001000} \<and>
    free_pages 0x80000800 k' ({0x80003000, 0x80001000} - set ps)"
  by (rule kalloc_distinct_pages [OF kmem_ex_pages]) simp

text \<open>C28: \<open>kfree\<close> panics exactly on an address that is not page-aligned or not in the allocator's
  range; on a page of the range that is not free already it adds that page to the free list, and
  the next \<open>kalloc\<close> returns it.\<close>

theorem kfree_correct:
  assumes "free_pages kend k F" "pa \<notin> F" "0 < kend"
  shows "if pa mod PGSIZE \<noteq> 0 \<or> pa < kend \<or> PHYSTOP \<le> pa
    then kfree kend pa k = Inl (Panic ''kfree'')
    else \<exists>k'. kfree kend pa k = Inr k' \<and> free_pages kend k' (insert pa F) \<and> fst (kalloc k') = pa"
proof (cases "pa mod PGSIZE \<noteq> 0 \<or> pa < kend \<or> PHYSTOP \<le> pa")
  case False
  then have good: "good_page kend pa" using assms(3) by (auto simp: good_page_def)
  obtain ps where ps: "kmem_inv kend ps k" "set ps = F"
    using assms(1) by (auto simp: free_pages_def)
  obtain k' where k': "kfree kend pa k = Inr k'" "kmem_inv kend (pa # ps) k'"
    using kfree_inv [OF ps(1) good] assms(2) ps(2) by auto
  then show ?thesis
    using False ps(2) kalloc_inv [OF k'(2)] by (auto simp: free_pages_def)
qed (simp add: kfree_def)

theorem kfree_correct_witness:
  "\<exists>k'. kfree 0x80000800 0x80002000 kmem_ex = Inr k' \<and>
    free_pages 0x80000800 k' {0x80002000, 0x80003000, 0x80001000} \<and> fst (kalloc k') = 0x80002000"
  using kfree_correct [OF kmem_ex_pages, of "0x80002000"]
  by (simp add: PHYSTOP_def KERNBASE_def PGSIZE_def)

end
