(* ===== verification/Vm.thy ===== *)
theory Vm
  imports Kalloc
begin

text \<open>
  \<^verbatim>\<open>kernel/vm.c\<close>: Sv39 page tables and user memory. Page-table pages live in the physical memory of
  theory Kalloc, and the kernel reads and writes them through its identity mapping, so every
  operation is a function of the allocator's state. \<open>etext\<close>, \<open>trampoline\<close> and \<open>end\<close> (\<open>kend\<close>) are
  addresses the linker script defines. \<open>vmfault\<close> looks at the running process: its page table and
  size are the arguments \<open>curpt\<close> and \<open>cursz\<close>. A kernel buffer that is copied to or from user space
  is a list of bytes.
\<close>

section \<open>Page table entries\<close>

definition PTE_V :: u64 where "PTE_V = 1"
definition PTE_R :: u64 where "PTE_R = 2"
definition PTE_W :: u64 where "PTE_W = 4"
definition PTE_X :: u64 where "PTE_X = 8"
definition PTE_U :: u64 where "PTE_U = 16"

definition PA2PTE :: "u64 \<Rightarrow> u64" where "PA2PTE pa = push_bit 10 (drop_bit 12 pa)"
definition PTE2PA :: "u64 \<Rightarrow> u64" where "PTE2PA pte = push_bit 12 (drop_bit 10 pte)"
definition PTE_FLAGS :: "u64 \<Rightarrow> u64" where "PTE_FLAGS pte = pte AND 0x3FF"
definition PX :: "nat \<Rightarrow> u64 \<Rightarrow> u64" where "PX level va = drop_bit (PGSHIFT + 9 * level) va AND 0x1FF"

text \<open>The address \<open>&pagetable[i]\<close>.\<close>

definition pte_addr :: "u64 \<Rightarrow> u64 \<Rightarrow> u64" where "pte_addr pt i = pt + 8 * i"

definition set_mem64 :: "u64 \<Rightarrow> u64 \<Rightarrow> kmem \<Rightarrow> kmem" where
  "set_mem64 a v k = k\<lparr>pmem := store64 (pmem k) a v\<rparr>"

definition zero_page :: "u64 \<Rightarrow> kmem \<Rightarrow> kmem" where
  "zero_page p k = k\<lparr>pmem := memset (pmem k) p 0 (ucast PGSIZE)\<rparr>"

section \<open>Operations\<close>

text \<open>The loop of \<open>walk\<close>, for \<open>level\<close> down to 0; the result 0 is the null pointer.\<close>

fun walk_loop :: "nat \<Rightarrow> u64 \<Rightarrow> u64 \<Rightarrow> bool \<Rightarrow> kmem \<Rightarrow> u64 \<times> kmem" where
  "walk_loop 0 pt va alloc k = (pte_addr pt (PX 0 va), k)"
| "walk_loop (Suc level) pt va alloc k =
     (let pte = pte_addr pt (PX (Suc level) va); e = load64 (pmem k) pte
      in if e AND PTE_V \<noteq> 0 then walk_loop level (PTE2PA e) va alloc k
         else if \<not> alloc then (0, k)
         else let (p, k) = kalloc k
              in if p = 0 then (0, k)
                 else walk_loop level p va alloc (set_mem64 pte (PA2PTE p OR PTE_V) (zero_page p k)))"

definition walk :: "u64 \<Rightarrow> u64 \<Rightarrow> bool \<Rightarrow> kmem \<Rightarrow> (u64 \<times> kmem) result" where
  "walk pt va alloc k =
     (if MAXVA \<le> va then Inl (Panic ''walk'') else Inr (walk_loop 2 pt va alloc k))"

definition walkaddr :: "u64 \<Rightarrow> u64 \<Rightarrow> kmem \<Rightarrow> u64" where
  "walkaddr pt va k =
     (if MAXVA \<le> va then 0
      else let (pte, k) = walk_loop 2 pt va False k
           in if pte = 0 then 0
              else let e = load64 (pmem k) pte
                   in if e AND PTE_V = 0 then 0 else if e AND PTE_U = 0 then 0 else PTE2PA e)"

lemma walk_lt_MAXVA: "walk pt va alloc k = Inr r \<Longrightarrow> va < MAXVA"
  by (auto simp: walk_def split: if_splits)

lemma page_step_lt_MAXVA: "a < MAXVA \<Longrightarrow> unat (a + PGSIZE) = unat a + 4096"
  by (subst unat_add_no_wrap) (auto simp: word_less_nat_alt unat_MAXVA)

text \<open>The loop goes on only past a successful \<open>walk\<close>, so below \<open>MAXVA\<close>.\<close>

function mappages_loop :: "u64 \<Rightarrow> u64 \<Rightarrow> u64 \<Rightarrow> u64 \<Rightarrow> u64 \<Rightarrow> kmem \<Rightarrow> (bool \<times> kmem) result" where
  "mappages_loop pt a last_a pa perm k =
     (case walk pt a True k of
        Inl e \<Rightarrow> Inl e
      | Inr (pte, k') \<Rightarrow>
          if pte = 0 then Inr (False, k')
          else if load64 (pmem k') pte AND PTE_V \<noteq> 0 then Inl (Panic ''mappages: remap'')
          else let k'' = set_mem64 pte (PA2PTE pa OR perm OR PTE_V) k'
               in if a = last_a then Inr (True, k'')
                  else mappages_loop pt (a + PGSIZE) last_a (pa + PGSIZE) perm k'')"
  by pat_completeness auto
termination
  by (relation "measure (\<lambda>(pt, a, last_a, pa, perm, k). unat MAXVA - unat a)")
    (auto simp: page_step_lt_MAXVA word_less_nat_alt dest!: walk_lt_MAXVA)

declare mappages_loop.simps [simp del]

text \<open>\<open>True\<close> is the return value 0, \<open>False\<close> is -1.\<close>

definition mappages :: "u64 \<Rightarrow> u64 \<Rightarrow> u64 \<Rightarrow> u64 \<Rightarrow> u64 \<Rightarrow> kmem \<Rightarrow> (bool \<times> kmem) result" where
  "mappages pt va sz pa perm k =
     (if va mod PGSIZE \<noteq> 0 then Inl (Panic ''mappages: va not aligned'')
      else if sz mod PGSIZE \<noteq> 0 then Inl (Panic ''mappages: size not aligned'')
      else if sz = 0 then Inl (Panic ''mappages: size'')
      else mappages_loop pt va (va + sz - PGSIZE) pa perm k)"

definition kvmmap :: "u64 \<Rightarrow> u64 \<Rightarrow> u64 \<Rightarrow> u64 \<Rightarrow> u64 \<Rightarrow> kmem \<Rightarrow> kmem result" where
  "kvmmap kpgtbl va pa sz perm k =
     bind_result (mappages kpgtbl va sz pa perm k) (\<lambda>(ok, k).
       if \<not> ok then Inl (Panic ''kvmmap'') else Inr k)"

definition UART0 :: u64 where "UART0 = 0x10000000"
definition VIRTIO0 :: u64 where "VIRTIO0 = 0x10001000"
definition PLIC :: u64 where "PLIC = 0x0c000000"

text \<open>\<open>proc_mapstacks\<close> of \<^verbatim>\<open>kernel/proc.c\<close>, for the processes from number \<open>i\<close> on.\<close>

fun mapstacks_loop :: "u64 \<Rightarrow> nat \<Rightarrow> nat \<Rightarrow> kmem \<Rightarrow> kmem result" where
  "mapstacks_loop kpgtbl i 0 k = Inr k"
| "mapstacks_loop kpgtbl i (Suc n) k =
     (let (pa, k) = kalloc k
      in if pa = 0 then Inl (Panic ''kalloc'')
         else bind_result (kvmmap kpgtbl (KSTACK (of_nat i)) pa PGSIZE (PTE_R OR PTE_W) k)
                (mapstacks_loop kpgtbl (Suc i) n))"

definition proc_mapstacks :: "u64 \<Rightarrow> kmem \<Rightarrow> kmem result" where
  "proc_mapstacks kpgtbl k = mapstacks_loop kpgtbl 0 NPROC k"

definition kvmmake :: "u64 \<Rightarrow> u64 \<Rightarrow> kmem \<Rightarrow> (u64 \<times> kmem) result" where
  "kvmmake etext trampoline k =
     (let (kpgtbl, k) = kalloc k; k = zero_page kpgtbl k
      in bind_result (kvmmap kpgtbl UART0 UART0 PGSIZE (PTE_R OR PTE_W) k) (\<lambda>k.
         bind_result (kvmmap kpgtbl VIRTIO0 VIRTIO0 PGSIZE (PTE_R OR PTE_W) k) (\<lambda>k.
         bind_result (kvmmap kpgtbl PLIC PLIC 0x4000000 (PTE_R OR PTE_W) k) (\<lambda>k.
         bind_result (kvmmap kpgtbl KERNBASE KERNBASE (etext - KERNBASE) (PTE_R OR PTE_X) k) (\<lambda>k.
         bind_result (kvmmap kpgtbl etext etext (PHYSTOP - etext) (PTE_R OR PTE_W) k) (\<lambda>k.
         bind_result (kvmmap kpgtbl TRAMPOLINE trampoline PGSIZE (PTE_R OR PTE_X) k) (\<lambda>k.
         bind_result (proc_mapstacks kpgtbl k) (\<lambda>k. Inr (kpgtbl, k)))))))))"

definition uvmcreate :: "kmem \<Rightarrow> u64 \<times> kmem" where
  "uvmcreate k =
     (let (pt, k) = kalloc k
      in if pt = 0 then (0, k) else (pt, zero_page pt k))"

text \<open>The loop of \<open>uvmunmap\<close>, up to \<open>va + npages*PGSIZE\<close>.\<close>

function uvmunmap_loop :: "u64 \<Rightarrow> u64 \<Rightarrow> u64 \<Rightarrow> u64 \<Rightarrow> bool \<Rightarrow> kmem \<Rightarrow> kmem result" where
  "uvmunmap_loop kend pt a end_a do_free k =
     (if a < end_a
      then (case walk pt a False k of
              Inl e \<Rightarrow> Inl e
            | Inr (pte, k') \<Rightarrow>
                if pte = 0 then uvmunmap_loop kend pt (a + PGSIZE) end_a do_free k'
                else if load64 (pmem k') pte AND PTE_V = 0
                then uvmunmap_loop kend pt (a + PGSIZE) end_a do_free k'
                else (case (if do_free then kfree kend (PTE2PA (load64 (pmem k') pte)) k' else Inr k') of
                        Inl e \<Rightarrow> Inl e
                      | Inr k'' \<Rightarrow> uvmunmap_loop kend pt (a + PGSIZE) end_a do_free (set_mem64 pte 0 k'')))
      else Inr k)"
  by pat_completeness auto
termination
  by (relation "measure (\<lambda>(kend, pt, a, end_a, do_free, k). unat MAXVA - unat a)")
    (auto simp: page_step_lt_MAXVA word_less_nat_alt dest!: walk_lt_MAXVA)

declare uvmunmap_loop.simps [simp del]

definition uvmunmap :: "u64 \<Rightarrow> u64 \<Rightarrow> u64 \<Rightarrow> u64 \<Rightarrow> bool \<Rightarrow> kmem \<Rightarrow> kmem result" where
  "uvmunmap kend pt va npages do_free k =
     (if va mod PGSIZE \<noteq> 0 then Inl (Panic ''uvmunmap: not aligned'')
      else uvmunmap_loop kend pt va (va + npages * PGSIZE) do_free k)"

text \<open>The number of pages passes through an \<open>int\<close>.\<close>

definition uvmdealloc :: "u64 \<Rightarrow> u64 \<Rightarrow> u64 \<Rightarrow> u64 \<Rightarrow> kmem \<Rightarrow> (u64 \<times> kmem) result" where
  "uvmdealloc kend pt oldsz newsz k =
     (if newsz \<ge> oldsz then Inr (oldsz, k)
      else if PGROUNDUP newsz < PGROUNDUP oldsz
      then let npages = ucast ((PGROUNDUP oldsz - PGROUNDUP newsz) div PGSIZE) :: cint
           in bind_result (uvmunmap kend pt (PGROUNDUP newsz) (scast npages) True k)
                (\<lambda>k. Inr (newsz, k))
      else Inr (newsz, k))"

lemma mappages_lt_MAXVA: "mappages pt va sz pa perm k = Inr r \<Longrightarrow> va < MAXVA"
  by (subst (asm) mappages_def, subst (asm) mappages_loop.simps)
    (auto split: if_splits sum.splits dest: walk_lt_MAXVA)

text \<open>On failure everything allocated so far is given back and 0 is returned.\<close>

function uvmalloc_loop :: "u64 \<Rightarrow> u64 \<Rightarrow> u64 \<Rightarrow> u64 \<Rightarrow> u64 \<Rightarrow> u64 \<Rightarrow> kmem \<Rightarrow> (u64 \<times> kmem) result" where
  "uvmalloc_loop kend pt a oldsz newsz xperm k =
     (if a < newsz
      then let (p, k1) = kalloc k
           in if p = 0
              then bind_result (uvmdealloc kend pt a oldsz k1) (\<lambda>(_, k). Inr (0, k))
              else (case mappages pt a PGSIZE p (PTE_R OR PTE_U OR xperm) (zero_page p k1) of
                      Inl e \<Rightarrow> Inl e
                    | Inr (ok, k2) \<Rightarrow>
                        if \<not> ok
                        then bind_result (kfree kend p k2) (\<lambda>k3.
                             bind_result (uvmdealloc kend pt a oldsz k3) (\<lambda>(_, k). Inr (0, k)))
                        else uvmalloc_loop kend pt (a + PGSIZE) oldsz newsz xperm k2)
      else Inr (newsz, k))"
  by pat_completeness auto
termination
  by (relation "measure (\<lambda>(kend, pt, a, oldsz, newsz, xperm, k). unat MAXVA - unat a)")
    (auto simp: page_step_lt_MAXVA word_less_nat_alt dest!: mappages_lt_MAXVA)

declare uvmalloc_loop.simps [simp del]

definition uvmalloc :: "u64 \<Rightarrow> u64 \<Rightarrow> u64 \<Rightarrow> u64 \<Rightarrow> u64 \<Rightarrow> kmem \<Rightarrow> (u64 \<times> kmem) result" where
  "uvmalloc kend pt oldsz newsz xperm k =
     (if newsz < oldsz then Inr (oldsz, k)
      else uvmalloc_loop kend pt (PGROUNDUP oldsz) (PGROUNDUP oldsz) newsz xperm k)"

text \<open>
  \<open>freewalk\<close> descends as deep as the page table does; \<open>depth\<close> bounds that, and a table deeper than
  \<open>depth\<close> gives \<open>Diverges\<close>. \<open>freewalk_entries\<close> is the loop over the entries from \<open>i\<close> on.
\<close>

fun freewalk_entries :: "(u64 \<Rightarrow> kmem \<Rightarrow> kmem result) \<Rightarrow> u64 \<Rightarrow> nat \<Rightarrow> nat \<Rightarrow> kmem \<Rightarrow> kmem result" where
  "freewalk_entries sub pt i 0 k = Inr k"
| "freewalk_entries sub pt i (Suc n) k =
     (let pte = load64 (pmem k) (pte_addr pt (of_nat i))
      in if pte AND PTE_V \<noteq> 0 \<and> pte AND (PTE_R OR PTE_W OR PTE_X) = 0
         then bind_result (sub (PTE2PA pte) k) (\<lambda>k.
              freewalk_entries sub pt (Suc i) n (set_mem64 (pte_addr pt (of_nat i)) 0 k))
         else if pte AND PTE_V \<noteq> 0 then Inl (Panic ''freewalk: leaf'')
         else freewalk_entries sub pt (Suc i) n k)"

fun freewalk :: "u64 \<Rightarrow> nat \<Rightarrow> u64 \<Rightarrow> kmem \<Rightarrow> kmem result" where
  "freewalk kend 0 pt k = Inl Diverges"
| "freewalk kend (Suc depth) pt k =
     bind_result (freewalk_entries (freewalk kend depth) pt 0 512 k) (kfree kend pt)"

definition uvmfree :: "u64 \<Rightarrow> nat \<Rightarrow> u64 \<Rightarrow> u64 \<Rightarrow> kmem \<Rightarrow> kmem result" where
  "uvmfree kend depth pt sz k =
     bind_result (if sz > 0 then uvmunmap kend pt 0 (PGROUNDUP sz div PGSIZE) True k else Inr k)
       (freewalk kend depth pt)"

function uvmcopy_loop :: "u64 \<Rightarrow> u64 \<Rightarrow> u64 \<Rightarrow> u64 \<Rightarrow> u64 \<Rightarrow> kmem \<Rightarrow> (bool \<times> kmem) result" where
  "uvmcopy_loop kend old new i sz k =
     (if i < sz
      then (case walk old i False k of
              Inl e \<Rightarrow> Inl e
            | Inr (pte, k1) \<Rightarrow>
                if pte = 0 then uvmcopy_loop kend old new (i + PGSIZE) sz k1
                else if load64 (pmem k1) pte AND PTE_V = 0 then uvmcopy_loop kend old new (i + PGSIZE) sz k1
                else let pa = PTE2PA (load64 (pmem k1) pte); flags = PTE_FLAGS (load64 (pmem k1) pte);
                         (p, k2) = kalloc k1
                     in if p = 0
                        then bind_result (uvmunmap kend new 0 (i div PGSIZE) True k2) (\<lambda>k. Inr (False, k))
                        else (case mappages new i PGSIZE p flags
                                     (k2\<lparr>pmem := memmove (pmem k2) p pa (ucast PGSIZE)\<rparr>) of
                                Inl e \<Rightarrow> Inl e
                              | Inr (ok, k3) \<Rightarrow>
                                  if \<not> ok
                                  then bind_result (kfree kend p k3) (\<lambda>k.
                                       bind_result (uvmunmap kend new 0 (i div PGSIZE) True k) (\<lambda>k. Inr (False, k)))
                                  else uvmcopy_loop kend old new (i + PGSIZE) sz k3))
      else Inr (True, k))"
  by pat_completeness auto
termination
  by (relation "measure (\<lambda>(kend, old, new, i, sz, k). unat MAXVA - unat i)")
    (auto simp: page_step_lt_MAXVA word_less_nat_alt dest!: mappages_lt_MAXVA walk_lt_MAXVA)

declare uvmcopy_loop.simps [simp del]

definition uvmcopy :: "u64 \<Rightarrow> u64 \<Rightarrow> u64 \<Rightarrow> u64 \<Rightarrow> kmem \<Rightarrow> (bool \<times> kmem) result" where
  "uvmcopy kend old new sz k = uvmcopy_loop kend old new 0 sz k"

definition uvmclear :: "u64 \<Rightarrow> u64 \<Rightarrow> kmem \<Rightarrow> kmem result" where
  "uvmclear pt va k =
     bind_result (walk pt va False k) (\<lambda>(pte, k).
       if pte = 0 then Inl (Panic ''uvmclear'')
       else Inr (set_mem64 pte (load64 (pmem k) pte AND NOT PTE_U) k))"

definition ismapped :: "u64 \<Rightarrow> u64 \<Rightarrow> kmem \<Rightarrow> bool result" where
  "ismapped pt va k =
     bind_result (walk pt va False k) (\<lambda>(pte, k).
       if pte = 0 then Inr False else Inr (load64 (pmem k) pte AND PTE_V \<noteq> 0))"

definition vmfault :: "u64 \<Rightarrow> u64 \<Rightarrow> u64 \<Rightarrow> u64 \<Rightarrow> u64 \<Rightarrow> kmem \<Rightarrow> (u64 \<times> kmem) result" where
  "vmfault kend curpt cursz pt va k =
     (if va \<ge> cursz then Inr (0, k)
      else let va = PGROUNDDOWN va
           in bind_result (ismapped pt va k) (\<lambda>mapped.
                if mapped then Inr (0, k)
                else let (p, k) = kalloc k
                     in if p = 0 then Inr (0, k)
                        else bind_result (mappages curpt va PGSIZE p (PTE_W OR PTE_U OR PTE_R) (zero_page p k))
                               (\<lambda>(ok, k). if \<not> ok then bind_result (kfree kend p k) (\<lambda>k. Inr (0, k))
                                          else Inr (p, k))))"

lemma page_offset: "unat (va - PGROUNDDOWN va) = unat va mod 4096"
proof -
  have "PGROUNDDOWN va \<le> va" by (simp add: word_le_nat_alt PGROUNDDOWN_unat)
  then show ?thesis by (simp add: unat_sub PGROUNDDOWN_unat)
qed

lemma page_room: "0 < len \<Longrightarrow> len - min (4096 - unat (va - PGROUNDDOWN va)) len < len"
  by (simp add: page_offset)

text \<open>
  The copies between kernel and user memory go page by page; \<open>n\<close> bytes in this turn. The physical
  address comes from \<open>walkaddr\<close> or, for a page that is not there yet, from \<open>vmfault\<close>.
\<close>

definition user_page :: "u64 \<Rightarrow> u64 \<Rightarrow> u64 \<Rightarrow> u64 \<Rightarrow> u64 \<Rightarrow> kmem \<Rightarrow> (u64 \<times> kmem) result" where
  "user_page kend curpt cursz pt va0 k =
     (let pa0 = walkaddr pt va0 k
      in if pa0 = 0 then vmfault kend curpt cursz pt va0 k else Inr (pa0, k))"

function copyout :: "u64 \<Rightarrow> u64 \<Rightarrow> u64 \<Rightarrow> u64 \<Rightarrow> u64 \<Rightarrow> u8 list \<Rightarrow> kmem \<Rightarrow> (bool \<times> kmem) result" where
  "copyout kend curpt cursz pt dstva src k =
     (if src = [] then Inr (True, k)
      else let va0 = PGROUNDDOWN dstva
           in if va0 \<ge> MAXVA then Inr (False, k)
              else bind_result (user_page kend curpt cursz pt va0 k) (\<lambda>(pa0, k).
                     if pa0 = 0 then Inr (False, k)
                     else bind_result (walk pt va0 False k) (\<lambda>(pte, k).
                       if pte = 0 then Inl (UB ''copyout: null pte'')
                       else if load64 (pmem k) pte AND PTE_W = 0 then Inr (False, k)
                       else let n = min (4096 - unat (dstva - va0)) (length src)
                            in copyout kend curpt cursz pt (va0 + PGSIZE) (drop n src)
                                 (k\<lparr>pmem := store_bytes (pmem k) (pa0 + (dstva - va0)) (take n src)\<rparr>))))"
  by pat_completeness auto
termination
  by (relation "measure (\<lambda>(kend, curpt, cursz, pt, dstva, src, k). length src)") (auto simp: page_room)

declare copyout.simps [simp del]

text \<open>The bytes that have reached \<open>dst\<close>, and whether all of them did.\<close>

function copyin :: "u64 \<Rightarrow> u64 \<Rightarrow> u64 \<Rightarrow> u64 \<Rightarrow> u64 \<Rightarrow> nat \<Rightarrow> kmem \<Rightarrow> (u8 list \<times> bool \<times> kmem) result" where
  "copyin kend curpt cursz pt srcva len k =
     (if len = 0 then Inr ([], True, k)
      else let va0 = PGROUNDDOWN srcva
           in bind_result (user_page kend curpt cursz pt va0 k) (\<lambda>(pa0, k).
                if pa0 = 0 then Inr ([], False, k)
                else let n = min (4096 - unat (srcva - va0)) len
                     in bind_result (copyin kend curpt cursz pt (va0 + PGSIZE) (len - n) k) (\<lambda>(bs, ok, k').
                          Inr (load_bytes (pmem k) (pa0 + (srcva - va0)) n @ bs, ok, k'))))"
  by pat_completeness auto
termination
  by (relation "measure (\<lambda>(kend, curpt, cursz, pt, srcva, len, k). len)") (auto simp: page_room)

declare copyin.simps [simp del]

text \<open>The inner loop of \<open>copyinstr\<close>: the bytes copied (with the 0 if one was met), and \<open>got_null\<close>.\<close>

fun copystr_page :: "mem \<Rightarrow> u64 \<Rightarrow> nat \<Rightarrow> u8 list \<times> bool" where
  "copystr_page m p 0 = ([], False)"
| "copystr_page m p (Suc n) =
     (if m p = 0 then ([0], True)
      else let (bs, got_null) = copystr_page m (p + 1) n in (m p # bs, got_null))"

function copyinstr :: "u64 \<Rightarrow> u64 \<Rightarrow> nat \<Rightarrow> kmem \<Rightarrow> u8 list \<times> bool" where
  "copyinstr pt srcva maxn k =
     (if maxn = 0 then ([], False)
      else let va0 = PGROUNDDOWN srcva; pa0 = walkaddr pt va0 k
           in if pa0 = 0 then ([], False)
              else let n = min (4096 - unat (srcva - va0)) maxn;
                       (bs, got_null) = copystr_page (pmem k) (pa0 + (srcva - va0)) n
                   in if got_null then (bs, True)
                      else let (cs, ok) = copyinstr pt (va0 + PGSIZE) (maxn - n) k in (bs @ cs, ok))"
  by pat_completeness auto
termination
  by (relation "measure (\<lambda>(pt, srcva, maxn, k). maxn)") (auto simp: page_room)

declare copyinstr.simps [simp del]

section \<open>Addresses inside a page\<close>

lemma page_end: "aligned 4096 p \<Longrightarrow> unat p + 4096 \<le> 2 ^ 64"
proof -
  assume "aligned 4096 p"
  then have "4096 dvd 2 ^ 64 - unat p" by (intro dvd_diff_nat) (auto simp: aligned_def)
  then have "4096 \<le> 2 ^ 64 - unat p" using unat_lt64 [of p] by (intro dvd_imp_le) simp_all
  then show ?thesis by simp
qed

lemma unat_pte_addr:
  assumes "aligned 4096 p" "i < 512"
  shows "unat (pte_addr p i) = unat p + 8 * unat i"
proof -
  have i: "unat (8 * i) = 8 * unat i" "unat i < 512"
    using assms(2) by (simp_all add: unat_word_ariths word_less_nat_alt)
  then show ?thesis using page_end [OF assms(1)] by (simp add: pte_addr_def unat_add_no_wrap)
qed

lemma pte_addr_aligned: "aligned 4096 p \<Longrightarrow> i < 512 \<Longrightarrow> aligned 8 (pte_addr p i)"
  using aligned_page_8 [of p] by (simp add: aligned_def unat_pte_addr)

lemma pte_addr_inj:
  assumes "aligned 4096 p" "aligned 4096 q" "i < 512" "j < 512"
  shows "pte_addr p i = pte_addr q j \<longleftrightarrow> p = q \<and> i = j"
proof
  assume "pte_addr p i = pte_addr q j"
  then have e: "unat p + 8 * unat i = unat q + 8 * unat j"
    using assms by (metis unat_pte_addr)
  obtain x y where xy: "unat p = 4096 * x" "unat q = 4096 * y"
    using assms by (auto simp: aligned_def elim!: dvdE)
  have lt: "unat i < 512" "unat j < 512" using assms by (simp_all add: word_less_nat_alt)
  have "512 * x + unat i = 512 * y + unat j" using e xy by linarith
  then have "(512 * x + unat i) div 512 = (512 * y + unat j) div 512" by simp
  then have "x = y" using lt by simp
  then have "unat p = unat q" "unat i = unat j" using xy e by simp_all
  then show "p = q \<and> i = j" by (simp add: word_unat_eq_iff)
qed simp

definition entry :: "mem \<Rightarrow> u64 \<Rightarrow> u64 \<Rightarrow> u64" where
  "entry m p i = load64 m (pte_addr p i)"

lemma entry_store:
  assumes "aligned 4096 p" "aligned 4096 q" "i < 512" "j < 512"
  shows "entry (store64 m (pte_addr p i) v) q j = (if q = p \<and> j = i then v else entry m q j)"
  using assms pte_addr_inj [OF assms] load64_store64_other [of "pte_addr p i" "pte_addr q j" m v]
  by (auto simp: entry_def pte_addr_aligned)

lemma slot_in_page:
  assumes "aligned 4096 p" "i < 512" "n < 8"
  shows "pte_addr p i + of_nat n = p + of_nat (8 * unat i + n)"
  using assms by (simp add: pte_addr_def)

lemma entry_memset_other:
  assumes "aligned 4096 p" "aligned 4096 q" "p \<noteq> q" "i < 512"
  shows "entry (memset m p c (ucast PGSIZE)) q i = entry m q i"
  unfolding entry_def
proof (rule load64_cong)
  fix n :: nat assume "n < 8"
  then have "\<not> unat (q + of_nat (8 * unat i + n) - p) < 4096"
    using assms by (intro aligned_disjoint) (auto simp: word_less_nat_alt)
  then have "\<not> unat (pte_addr q i + of_nat n - p) < 4096"
    by (simp only: slot_in_page [OF assms(2,4) \<open>n < 8\<close>] not_False_eq_True)
  then show "memset m p c (ucast PGSIZE) (pte_addr q i + of_nat n) = m (pte_addr q i + of_nat n)"
    by (simp add: memset_apply)
qed

lemma entry_zero_page:
  assumes "aligned 4096 p" "i < 512"
  shows "entry (memset m p 0 (ucast PGSIZE)) p i = 0"
proof -
  have "memset m p 0 (ucast PGSIZE) (pte_addr p i + of_nat n) = (\<lambda>_. 0) (pte_addr p i + of_nat n)"
    if n: "n < 8" for n
  proof -
    have "unat (of_nat (8 * unat i + n) :: u64) = 8 * unat i + n"
      using assms(2) n by (intro unat_of_nat64) (simp add: word_less_nat_alt)
    then show ?thesis
      using assms n slot_in_page [OF assms n] by (simp add: memset_apply word_less_nat_alt)
  qed
  then have "entry (memset m p 0 (ucast PGSIZE)) p i = load64 (\<lambda>_. 0) (pte_addr p i)"
    unfolding entry_def by (rule load64_cong)
  also have "\<dots> = 0" by (simp add: load64_def load_bytes_def numeral_eq_Suc)
  finally show ?thesis .
qed

subsection \<open>Encoding of entries\<close>

lemma aligned_low_bits: "aligned 4096 p \<Longrightarrow> bit p n \<Longrightarrow> 12 \<le> n"
proof -
  assume "aligned 4096 p" "bit p n"
  have "unat (take_bit 12 p) = take_bit 12 (unat p)" by (simp add: unsigned_take_bit_eq)
  also have "\<dots> = unat p mod 4096" by (simp add: take_bit_eq_mod)
  finally have "unat (take_bit 12 p) = unat p mod 4096" .
  with \<open>aligned 4096 p\<close> have "take_bit 12 p = 0"
    by (simp add: aligned_def word_unat_eq_iff)
  then have "\<not> bit (take_bit 12 p) n" by simp
  with \<open>bit p n\<close> show ?thesis by (auto simp: bit_simps)
qed

lemma PTE2PA_entry:
  assumes "aligned 4096 p" "f AND 0x3FF = f"
  shows "PTE2PA (PA2PTE p OR f) = p"
proof -
  have f: "f = take_bit 10 f" using assms(2) by (simp add: take_bit_eq_mask mask_eq_exp_minus_1)
  show ?thesis
    unfolding PTE2PA_def PA2PTE_def
  proof (subst f, rule bit_word_eqI)
    fix n
    show "bit (push_bit 12 (drop_bit 10 (push_bit 10 (drop_bit 12 p) OR take_bit 10 f))) n = bit p n"
      by (cases "12 \<le> n") (auto simp: bit_simps dest: aligned_low_bits [OF assms(1)] bit_imp_le_length)
  qed
qed

lemma PTE_FLAGS_entry:
  assumes "f AND 0x3FF = f"
  shows "PTE_FLAGS (PA2PTE p OR f) = f"
proof -
  have f: "f = take_bit 10 f" using assms by (simp add: take_bit_eq_mask mask_eq_exp_minus_1)
  have "PTE_FLAGS x = take_bit 10 x" for x
    by (simp add: PTE_FLAGS_def take_bit_eq_mask mask_eq_exp_minus_1)
  moreover have "take_bit 10 (PA2PTE p OR f) = take_bit 10 f"
    unfolding PA2PTE_def by (rule bit_word_eqI) (auto simp: bit_simps)
  ultimately show ?thesis using f by simp
qed

lemma entry_flag_bit:
  assumes "b AND 0x3FF = b"
  shows "(PA2PTE p OR f) AND b = f AND b"
proof -
  have f: "b = take_bit 10 b" using assms by (simp add: take_bit_eq_mask mask_eq_exp_minus_1)
  show ?thesis
    unfolding PA2PTE_def by (subst f, subst (2) f) (rule bit_word_eqI, auto simp: bit_simps)
qed

lemma PX_lt: "PX l va < 512"
proof -
  have "PX l va = take_bit 9 (drop_bit (PGSHIFT + 9 * l) va)"
    by (simp add: PX_def take_bit_eq_mask mask_eq_exp_minus_1)
  then have "unat (PX l va) = take_bit 9 (unat (drop_bit (PGSHIFT + 9 * l) va))"
    by (simp add: unsigned_take_bit_eq)
  also have "\<dots> < 2 ^ 9" by (rule take_bit_nat_less_exp)
  finally show ?thesis by (simp add: word_less_nat_alt)
qed

text \<open>Two page addresses below \<open>MAXVA\<close> with the same three indices are the same page.\<close>

lemma PX_bit: "bit (PX l va) n \<longleftrightarrow> n < 9 \<and> bit va (12 + 9 * l + n)"
proof -
  have "PX l va = take_bit 9 (drop_bit (12 + 9 * l) va)"
    by (simp add: PX_def PGSHIFT_def take_bit_eq_mask mask_eq_exp_minus_1)
  then show ?thesis by (auto simp: bit_simps ac_simps dest: bit_imp_le_length)
qed

lemma lt_MAXVA_bit: "va < MAXVA \<Longrightarrow> bit va n \<Longrightarrow> n < 38"
proof (rule ccontr)
  assume va: "va < MAXVA" "bit va n" "\<not> n < 38"
  have "unat va < 2 ^ 38" using va(1) by (simp add: word_less_nat_alt unat_MAXVA)
  then have "take_bit 38 va = va"
    by (simp add: word_unat_eq_iff unsigned_take_bit_eq take_bit_nat_eq_self)
  with va(2,3) show False by (metis bit_take_bit_iff)
qed

lemma PX_inj:
  assumes "va < MAXVA" "vb < MAXVA" "aligned 4096 va" "aligned 4096 vb"
    "PX 2 va = PX 2 vb" "PX 1 va = PX 1 vb" "PX 0 va = PX 0 vb"
  shows "va = vb"
proof (rule bit_word_eqI)
  fix n
  have px: "bit va (12 + 9 * l + j) = bit vb (12 + 9 * l + j)" if "l \<in> {0, 1, 2}" "j < 9" for l j
    using that assms(5-7) PX_bit [of l va j] PX_bit [of l vb j] by auto
  show "bit va n = bit vb n"
  proof (cases "12 \<le> n \<and> n < 38")
    case True
    then consider "n < 21" | "21 \<le> n" "n < 30" | "30 \<le> n" "n < 39" by linarith
    then show ?thesis
      using True px [of 0 "n - 12"] px [of 1 "n - 21"] px [of 2 "n - 30"] by cases simp_all
  next
    case False
    then show ?thesis
      using lt_MAXVA_bit [OF assms(1)] lt_MAXVA_bit [OF assms(2)]
        aligned_low_bits [OF assms(3)] aligned_low_bits [OF assms(4)] by blast
  qed
qed

section \<open>Well-formed page tables\<close>

text \<open>
  A page table is a tree of at most three levels: \<open>tab\<close> names the page at the end of a path of
  indices, \<open>[]\<close> the root, \<open>[PX 2, PX 1]\<close> a leaf table. The pages are distinct, none is on the free
  list, and every directory entry is what the tree says. \<open>pte_of\<close> is the leaf entry of an address.
\<close>

type_synonym tree = "u64 list \<Rightarrow> u64 option"

definition dir_entry :: "mem \<Rightarrow> u64 \<Rightarrow> u64 \<Rightarrow> u64 option \<Rightarrow> bool" where
  "dir_entry m p i c \<longleftrightarrow>
     (case c of None \<Rightarrow> entry m p i AND PTE_V = 0 | Some q \<Rightarrow> entry m p i = PA2PTE q OR PTE_V)"

lemma dir_entry_cong: "entry m' p i = entry m p i \<Longrightarrow> dir_entry m' p i c = dir_entry m p i c"
  by (cases c) (simp_all add: dir_entry_def)

definition pt_tree :: "u64 \<Rightarrow> mem \<Rightarrow> u64 \<Rightarrow> tree \<Rightarrow> bool" where
  "pt_tree kend m pt tab \<longleftrightarrow> tab [] = Some pt \<and>
     (\<forall>x p. tab x = Some p \<longrightarrow> good_page kend p \<and> length x \<le> 2 \<and> (\<forall>i\<in>set x. i < 512)) \<and>
     (\<forall>x y p. tab x = Some p \<and> tab y = Some p \<longrightarrow> x = y) \<and>
     (\<forall>x i. tab x = None \<longrightarrow> tab (x @ [i]) = None) \<and>
     (\<forall>x p i. tab x = Some p \<and> length x < 2 \<and> i < 512 \<longrightarrow> dir_entry m p i (tab (x @ [i])))"

definition pt_state :: "u64 \<Rightarrow> u64 \<Rightarrow> tree \<Rightarrow> u64 list \<Rightarrow> kmem \<Rightarrow> bool" where
  "pt_state kend pt tab ps k \<longleftrightarrow>
     kmem_inv kend ps k \<and> pt_tree kend (pmem k) pt tab \<and> (\<forall>x p. tab x = Some p \<longrightarrow> p \<notin> set ps)"

definition pte_of :: "mem \<Rightarrow> tree \<Rightarrow> u64 \<Rightarrow> u64" where
  "pte_of m tab va = (case tab [PX 2 va, PX 1 va] of Some q \<Rightarrow> entry m q (PX 0 va) | None \<Rightarrow> 0)"

lemma good_page_aligned: "good_page kend p \<Longrightarrow> aligned 4096 p"
  by (simp add: good_page_def mod_PGSIZE_aligned)

lemma pt_treeD:
  assumes "pt_tree kend m pt tab" "tab x = Some p"
  shows "aligned 4096 p" "good_page kend p" "length x \<le> 2" "p \<noteq> 0"
  using assms by (auto simp: pt_tree_def good_page_def mod_PGSIZE_aligned)

lemma pt_tree_inj: "pt_tree kend m pt tab \<Longrightarrow> tab x = Some p \<Longrightarrow> tab y = Some p \<Longrightarrow> x = y"
  unfolding pt_tree_def by blast

lemma pte_addr_nonzero: "pt_tree kend m pt tab \<Longrightarrow> tab x = Some p \<Longrightarrow> i < 512 \<Longrightarrow> pte_addr p i \<noteq> 0"
  using pt_treeD [of kend m pt tab x p] unat_pte_addr [of p i] by (auto simp: unat_eq_0)

text \<open>The path that \<open>walk_loop\<close> follows from level \<open>l\<close> on.\<close>

fun walk_path :: "nat \<Rightarrow> u64 \<Rightarrow> u64 list" where
  "walk_path 0 va = []"
| "walk_path (Suc l) va = PX (Suc l) va # walk_path l va"

lemma walk_path_2: "walk_path 2 va = [PX 2 va, PX 1 va]"
  by (simp add: numeral_2_eq_2)

lemma tab_None_append: "pt_tree kend m pt tab \<Longrightarrow> tab x = None \<Longrightarrow> tab (x @ ys) = None"
proof (induction ys rule: rev_induct)
  case (snoc y ys)
  then have "tab (x @ ys) = None" by simp
  with snoc.prems(1) show ?case by (auto simp: pt_tree_def simp flip: append_assoc)
qed simp

lemma walk_loop_lookup:
  assumes "pt_tree kend (pmem k) pt tab" "tab x = Some p" "length x + l = 2"
  shows "walk_loop l p va False k =
    ((case tab (x @ walk_path l va) of Some q \<Rightarrow> pte_addr q (PX 0 va) | None \<Rightarrow> 0), k)"
  using assms
proof (induction l arbitrary: x p)
  case (Suc l)
  let ?i = "PX (Suc l) va"
  have d: "dir_entry (pmem k) p ?i (tab (x @ [?i]))"
    using Suc.prems PX_lt by (auto simp: pt_tree_def)
  show ?case
  proof (cases "tab (x @ [?i])")
    case None
    then have "tab (x @ [?i] @ walk_path l va) = None"
      using tab_None_append [OF Suc.prems(1), of "x @ [?i]"] by simp
    with None d show ?thesis by (simp add: dir_entry_def entry_def Let_def)
  next
    case (Some q)
    then have "aligned 4096 q" using pt_treeD Suc.prems(1) by blast
    then have e: "PTE2PA (entry (pmem k) p ?i) = q" "entry (pmem k) p ?i AND PTE_V \<noteq> 0"
      using d Some PTE2PA_entry [of q PTE_V] entry_flag_bit [of PTE_V q PTE_V]
      by (simp_all add: dir_entry_def PTE_V_def)
    have "walk_loop l q va False k =
      ((case tab ((x @ [?i]) @ walk_path l va) of Some q \<Rightarrow> pte_addr q (PX 0 va) | None \<Rightarrow> 0), k)"
      using Suc.prems Some by (intro Suc.IH) simp_all
    then show ?thesis using e by (simp add: Let_def entry_def)
  qed
qed simp

text \<open>Attaching a page fresh from the allocator.\<close>

lemma attach_page:
  assumes st: "pt_state kend pt tab (q # ps) k" and x: "tab x = Some p" "length x < 2" "i < 512"
    and free: "tab (x @ [i]) = None" and k1: "kalloc k = (q, k1)"
    and k': "k' = set_mem64 (pte_addr p i) (PA2PTE q OR PTE_V) (zero_page q k1)"
  shows "pt_state kend pt (tab(x @ [i] \<mapsto> q)) ps k'"
    and "\<And>va. pte_of (pmem k') (tab(x @ [i] \<mapsto> q)) va = pte_of (pmem k) tab va"
proof -
  have tree: "pt_tree kend (pmem k) pt tab" and inv: "kmem_inv kend (q # ps) k"
    and sep: "\<And>x p. tab x = Some p \<Longrightarrow> p \<notin> set (q # ps)" using st by (auto simp: pt_state_def)
  have q: "good_page kend q" "q \<notin> set ps" using inv by (auto simp: kmem_inv_def)
  have al: "aligned 4096 q" "aligned 4096 p" using q good_page_aligned pt_treeD [OF tree x(1)] by auto
  have m1: "pmem k1 = memset (pmem k) q 5 (ucast PGSIZE)" "freelist k1 = load64 (pmem k) q"
    using k1 q by (auto simp: kalloc_def Let_def good_page_def split: if_splits)
  have m': "pmem k' = store64 (memset (pmem k1) q 0 (ucast PGSIZE)) (pte_addr p i) (PA2PTE q OR PTE_V)"
    "freelist k' = freelist k1"
    by (simp_all add: k' set_mem64_def zero_page_def)
  have old: "entry (pmem k') g j = (if g = p \<and> j = i then PA2PTE q OR PTE_V else entry (pmem k) g j)"
    if "tab y = Some g" "j < 512" for y g j
  proof -
    have "aligned 4096 g" "g \<noteq> q" using that sep pt_treeD [OF tree that(1)] by auto
    then show ?thesis
      using that(2) x(3) al by (simp add: m' m1 entry_store entry_memset_other)
  qed
  have new: "entry (pmem k') q j = 0" if "j < 512" for j
  proof -
    have "q \<noteq> p" using sep x(1) by auto
    then show ?thesis using that x(3) al by (simp add: m' entry_store entry_zero_page)
  qed
  obtain k2 where "kalloc k = (q, k2)" "kmem_inv kend ps k2" using kalloc_inv [OF inv] by blast
  then have "kmem_inv kend ps k1" using k1 by simp
  moreover have "load64 (pmem k') f = load64 (pmem k1) f" if "f \<in> set ps" for f
  proof -
    have "aligned 4096 f" "f \<noteq> q" "f \<noteq> p"
      using that inv sep x(1) by (auto simp: kmem_inv_def good_page_def mod_PGSIZE_aligned)
    moreover have "load64 m f = entry m f 0" for m by (simp add: entry_def pte_addr_def)
    ultimately show ?thesis using al x(3) by (simp add: m' entry_store entry_memset_other)
  qed
  ultimately have "kmem_inv kend ps k'"
    using free_chain_cong [of ps "pmem k'" "pmem k1"] by (simp add: kmem_inv_def m'(2))
  moreover have "pt_tree kend (pmem k') pt (tab(x @ [i] \<mapsto> q))"
  proof -
    let ?t = "tab(x @ [i] \<mapsto> q)"
    have "dir_entry (pmem k') g j (?t (y @ [j]))" if g: "?t y = Some g" "length y < 2" "j < 512" for y g j
    proof (cases "y = x @ [i]")
      case True
      then have "tab (y @ [j]) = None" using tab_None_append [OF tree free] by simp
      then show ?thesis using True g new by (auto simp: dir_entry_def)
    next
      case False
      then have y: "tab y = Some g" using g by simp
      have "dir_entry (pmem k) g j (tab (y @ [j]))" using tree y g by (auto simp: pt_tree_def)
      moreover have "g = p \<longleftrightarrow> y = x" using tree y x(1) by (auto simp: pt_tree_def)
      ultimately show ?thesis using old [OF y g(3)] by (auto simp: dir_entry_def split: option.splits)
    qed
    moreover have "\<forall>y g. ?t y = Some g \<longrightarrow> good_page kend g \<and> length y \<le> 2 \<and> (\<forall>j\<in>set y. j < 512)"
    proof -
      have "\<And>y g. tab y = Some g \<Longrightarrow> good_page kend g \<and> length y \<le> 2 \<and> (\<forall>j\<in>set y. j < 512)"
        using tree unfolding pt_tree_def by blast
      moreover from this [OF x(1)] have "length (x @ [i]) \<le> 2" "\<forall>j\<in>set (x @ [i]). j < 512"
        using x(2,3) by auto
      ultimately show ?thesis using q(1) by (simp only: fun_upd_apply split: if_split) blast
    qed
    moreover have "\<forall>y z g. ?t y = Some g \<and> ?t z = Some g \<longrightarrow> y = z"
    proof -
      have "tab y \<noteq> Some q" for y using sep by auto
      then show ?thesis using pt_tree_inj [OF tree] by (simp only: fun_upd_apply split: if_split) blast
    qed
    moreover have "\<forall>y j. ?t y = None \<longrightarrow> ?t (y @ [j]) = None"
      using tab_None_append [OF tree] x(1) by (auto split: if_splits)
    moreover have "?t [] = Some pt" using tree by (simp add: pt_tree_def)
    ultimately show ?thesis unfolding pt_tree_def by blast
  qed
  ultimately show "pt_state kend pt (tab(x @ [i] \<mapsto> q)) ps k'"
    using sep q by (auto simp: pt_state_def)
  show "pte_of (pmem k') (tab(x @ [i] \<mapsto> q)) va = pte_of (pmem k) tab va" for va
  proof (cases "x @ [i] = [PX 2 va, PX 1 va]")
    case True
    then show ?thesis using free new PX_lt by (simp add: pte_of_def)
  next
    case False
    have nl: "tab [PX 2 va, PX 1 va] \<noteq> Some p"
      using pt_tree_inj [OF tree x(1), of "[PX 2 va, PX 1 va]"] x(2) by auto
    have "(tab(x @ [i] \<mapsto> q)) [PX 2 va, PX 1 va] = tab [PX 2 va, PX 1 va]" using False by auto
    then show ?thesis
      using nl old [of "[PX 2 va, PX 1 va]"] PX_lt [of 0 va]
      by (cases "tab [PX 2 va, PX 1 va]") (auto simp: pte_of_def)
  qed
qed

text \<open>
  \<open>walk\<close> with allocation: it only adds tables, keeps every leaf entry, and fails only when the free
  list is empty.
\<close>

lemma walk_loop_alloc:
  assumes "pt_state kend pt tab ps k" "tab x = Some p" "length x + l = 2"
  shows "\<exists>r k' tab' ps'. walk_loop l p va True k = (r, k') \<and> pt_state kend pt tab' ps' k' \<and> tab \<subseteq>\<^sub>m tab' \<and>
    set ps' \<subseteq> set ps \<and> (\<forall>vb. pte_of (pmem k') tab' vb = pte_of (pmem k) tab vb) \<and>
    (r = 0 \<longrightarrow> ps' = []) \<and> (r \<noteq> 0 \<longrightarrow> (\<exists>q. tab' (x @ walk_path l va) = Some q \<and> r = pte_addr q (PX 0 va))) \<and>
    (l \<le> length ps \<longrightarrow> r \<noteq> 0 \<and> length ps \<le> length ps' + l) \<and>
    (tab (x @ walk_path l va) \<noteq> None \<longrightarrow> r \<noteq> 0 \<and> ps' = ps)"
  using assms
proof (induction l arbitrary: x p tab ps k)
  case 0
  then have "pte_addr p (PX 0 va) \<noteq> 0" using pte_addr_nonzero PX_lt by (fastforce simp: pt_state_def)
  with 0 show ?case by (intro exI [of _ "pte_addr p (PX 0 va)"] exI [of _ k] exI [of _ tab] exI [of _ ps]) simp
next
  case (Suc l)
  let ?i = "PX (Suc l) va" and ?e = "entry (pmem k) p (PX (Suc l) va)"
  have tree: "pt_tree kend (pmem k) pt tab" using Suc.prems(1) by (simp add: pt_state_def)
  have d: "dir_entry (pmem k) p ?i (tab (x @ [?i]))"
    using tree Suc.prems PX_lt by (auto simp: pt_tree_def)
  show ?case
  proof (cases "tab (x @ [?i])")
    case (Some q)
    then have "aligned 4096 q" using pt_treeD tree by blast
    then have e: "PTE2PA ?e = q" "?e AND PTE_V \<noteq> 0"
      using d Some PTE2PA_entry [of q PTE_V] entry_flag_bit [of PTE_V q PTE_V]
      by (simp_all add: dir_entry_def PTE_V_def)
    have w: "walk_loop (Suc l) p va True k = walk_loop l q va True k"
      using e by (simp add: Let_def entry_def)
    have "length (x @ [?i]) + l = 2" using Suc.prems(3) by simp
    from Suc.IH [OF Suc.prems(1) Some this] obtain r k' tab' ps' where
      "walk_loop l q va True k = (r, k')" "pt_state kend pt tab' ps' k'" "tab \<subseteq>\<^sub>m tab'"
      "set ps' \<subseteq> set ps" "\<forall>vb. pte_of (pmem k') tab' vb = pte_of (pmem k) tab vb"
      "r = 0 \<longrightarrow> ps' = []"
      "r \<noteq> 0 \<longrightarrow> (\<exists>q. tab' (x @ walk_path (Suc l) va) = Some q \<and> r = pte_addr q (PX 0 va))"
      "l \<le> length ps \<longrightarrow> r \<noteq> 0 \<and> length ps \<le> length ps' + l"
      "tab (x @ walk_path (Suc l) va) \<noteq> None \<longrightarrow> r \<noteq> 0 \<and> ps' = ps"
      by (simp only: walk_path.simps append_Cons append_Nil append_assoc) blast
    then show ?thesis
      unfolding w by (intro exI [of _ r] exI [of _ k'] exI [of _ tab'] exI [of _ ps']) auto
  next
    case None
    then have e: "?e AND PTE_V = 0" using d by (simp add: dir_entry_def)
    have gone: "tab (x @ walk_path (Suc l) va) = None"
      using tab_None_append [OF tree None, of "walk_path l va"] by simp
    show ?thesis
    proof (cases ps)
      case Nil
      then have "kalloc k = (0, k)" using Suc.prems(1) kalloc_empty by (auto simp: pt_state_def)
      then have "walk_loop (Suc l) p va True k = (0, k)" using e by (simp add: Let_def entry_def)
      with Suc.prems(1) Nil gone show ?thesis
        by (intro exI [of _ 0] exI [of _ k] exI [of _ tab] exI [of _ "[]"]) simp
    next
      case (Cons q qs)
      then obtain k1 where k1: "kalloc k = (q, k1)" "q \<noteq> 0"
        using Suc.prems(1) kalloc_inv [of kend q qs k] by (auto simp: pt_state_def kmem_inv_def good_page_def)
      let ?k = "set_mem64 (pte_addr p ?i) (PA2PTE q OR PTE_V) (zero_page q k1)"
      have st: "pt_state kend pt tab (q # qs) k" using Suc.prems(1) Cons by simp
      have at: "pt_state kend pt (tab(x @ [?i] \<mapsto> q)) qs ?k"
        "\<And>vb. pte_of (pmem ?k) (tab(x @ [?i] \<mapsto> q)) vb = pte_of (pmem k) tab vb"
        using attach_page [OF st Suc.prems(2) _ PX_lt None k1(1) refl] Suc.prems(3) by auto
      have w: "walk_loop (Suc l) p va True k = walk_loop l q va True ?k"
        using e k1 by (simp add: Let_def entry_def)
      define t' where "t' = tab(x @ [?i] \<mapsto> q)"
      have sub: "tab \<subseteq>\<^sub>m t'" using None by (auto simp: map_le_def t'_def)
      have "t' (x @ [?i]) = Some q" "length (x @ [?i]) + l = 2" using Suc.prems(3) by (simp_all add: t'_def)
      from Suc.IH [OF at(1) [folded t'_def] this] obtain r k' tab' ps' where
        "walk_loop l q va True ?k = (r, k')" "pt_state kend pt tab' ps' k'" "t' \<subseteq>\<^sub>m tab'"
        "set ps' \<subseteq> set qs" "\<forall>vb. pte_of (pmem k') tab' vb = pte_of (pmem ?k) t' vb"
        "r = 0 \<longrightarrow> ps' = []"
        "r \<noteq> 0 \<longrightarrow> (\<exists>q. tab' ((x @ [?i]) @ walk_path l va) = Some q \<and> r = pte_addr q (PX 0 va))"
        "l \<le> length qs \<longrightarrow> r \<noteq> 0 \<and> length qs \<le> length ps' + l"
        by blast
      then show ?thesis
        unfolding w using at(2) [folded t'_def] map_le_trans [OF sub] Cons gone
        by (intro exI [of _ r] exI [of _ k'] exI [of _ tab'] exI [of _ ps']) auto
    qed
  qed
qed

lemma walk_alloc:
  assumes "pt_state kend pt tab ps k" "va < MAXVA"
  obtains r k' tab' ps' where "walk pt va True k = Inr (r, k')" "pt_state kend pt tab' ps' k'" "tab \<subseteq>\<^sub>m tab'"
    "set ps' \<subseteq> set ps" "\<And>vb. pte_of (pmem k') tab' vb = pte_of (pmem k) tab vb"
    "r = 0 \<Longrightarrow> ps' = []"
    "r \<noteq> 0 \<Longrightarrow> \<exists>q. tab' [PX 2 va, PX 1 va] = Some q \<and> r = pte_addr q (PX 0 va)"
    "2 \<le> length ps \<Longrightarrow> r \<noteq> 0 \<and> length ps \<le> length ps' + 2"
    "tab [PX 2 va, PX 1 va] \<noteq> None \<Longrightarrow> r \<noteq> 0 \<and> ps' = ps"
proof -
  have "tab [] = Some pt" using assms(1) by (simp add: pt_state_def pt_tree_def)
  from walk_loop_alloc [OF assms(1) this, of 2 va] obtain r k' tab' ps' where
    "walk_loop 2 pt va True k = (r, k')" "pt_state kend pt tab' ps' k'" "tab \<subseteq>\<^sub>m tab'"
    "set ps' \<subseteq> set ps" "\<forall>vb. pte_of (pmem k') tab' vb = pte_of (pmem k) tab vb"
    "r = 0 \<longrightarrow> ps' = []" "r \<noteq> 0 \<longrightarrow> (\<exists>q. tab' [PX 2 va, PX 1 va] = Some q \<and> r = pte_addr q (PX 0 va))"
    "2 \<le> length ps \<longrightarrow> r \<noteq> 0 \<and> length ps \<le> length ps' + 2"
    "tab [PX 2 va, PX 1 va] \<noteq> None \<longrightarrow> r \<noteq> 0 \<and> ps' = ps"
    by (simp add: walk_path_2) blast
  moreover from this have "walk pt va True k = Inr (r, k')" using assms(2) by (simp add: walk_def)
  ultimately show ?thesis using that by blast
qed

lemma walk_lookup:
  assumes "pt_tree kend (pmem k) pt tab" "va < MAXVA"
  shows "walk pt va False k =
    Inr (case tab [PX 2 va, PX 1 va] of Some q \<Rightarrow> pte_addr q (PX 0 va) | None \<Rightarrow> 0, k)"
proof -
  have "tab [] = Some pt" using assms(1) by (simp add: pt_tree_def)
  from walk_loop_lookup [OF assms(1) this, of 2 va] show ?thesis
    using assms(2) by (simp add: walk_def walk_path_2)
qed

text \<open>Writing a leaf entry.\<close>

lemma set_leaf:
  fixes v :: u64
  assumes st: "pt_state kend pt tab ps k" and q: "tab [PX 2 va, PX 1 va] = Some q"
    and va: "va < MAXVA" "aligned 4096 va"
  defines "k' \<equiv> set_mem64 (pte_addr q (PX 0 va)) v k"
  shows "pt_state kend pt tab ps k'" "pte_of (pmem k') tab va = v"
    "\<And>vb. vb < MAXVA \<Longrightarrow> aligned 4096 vb \<Longrightarrow> vb \<noteq> va \<Longrightarrow> pte_of (pmem k') tab vb = pte_of (pmem k) tab vb"
proof -
  have tree: "pt_tree kend (pmem k) pt tab" and inv: "kmem_inv kend ps k"
    and sep: "\<And>x p. tab x = Some p \<Longrightarrow> p \<notin> set ps" using st by (auto simp: pt_state_def)
  have m': "pmem k' = store64 (pmem k) (pte_addr q (PX 0 va)) v" "freelist k' = freelist k"
    by (simp_all add: k'_def set_mem64_def)
  have alq: "aligned 4096 q" using pt_treeD [OF tree q] by simp
  have e: "entry (pmem k') g j = (if g = q \<and> j = PX 0 va then v else entry (pmem k) g j)"
    if "aligned 4096 g" "j < 512" for g j
    using that alq PX_lt by (simp add: m' entry_store)
  have "load64 (pmem k') f = load64 (pmem k) f" if "f \<in> set ps" for f
  proof -
    have "aligned 4096 f" "f \<noteq> q"
      using that inv sep q by (auto simp: kmem_inv_def good_page_def mod_PGSIZE_aligned)
    moreover have "load64 m f = entry m f 0" for m by (simp add: entry_def pte_addr_def)
    ultimately show ?thesis by (simp add: e)
  qed
  then have "kmem_inv kend ps k'"
    using inv free_chain_cong [of ps "pmem k'" "pmem k"] by (simp add: kmem_inv_def m'(2))
  moreover have "dir_entry (pmem k') g j (tab (y @ [j]))" if "tab y = Some g" "length y < 2" "j < 512" for y g j
  proof -
    have "g \<noteq> q" using pt_tree_inj [OF tree that(1), of "[PX 2 va, PX 1 va]"] q that(2) by auto
    then have "entry (pmem k') g j = entry (pmem k) g j" using e that pt_treeD [OF tree that(1)] by simp
    moreover have "dir_entry (pmem k) g j (tab (y @ [j]))" using tree that by (simp add: pt_tree_def)
    ultimately show ?thesis using dir_entry_cong by blast
  qed
  then have "pt_tree kend (pmem k') pt tab" using tree unfolding pt_tree_def by blast
  ultimately show "pt_state kend pt tab ps k'" using sep by (auto simp: pt_state_def)
  show "pte_of (pmem k') tab va = v" using q e alq PX_lt by (simp add: pte_of_def)
  show "pte_of (pmem k') tab vb = pte_of (pmem k) tab vb" if vb: "vb < MAXVA" "aligned 4096 vb" "vb \<noteq> va" for vb
  proof (cases "tab [PX 2 vb, PX 1 vb]")
    case (Some g)
    have "\<not> (g = q \<and> PX 0 vb = PX 0 va)"
    proof
      assume g: "g = q \<and> PX 0 vb = PX 0 va"
      have "[PX 2 vb, PX 1 vb] = [PX 2 va, PX 1 va]"
        using tree Some q g unfolding pt_tree_def by blast
      then show False using PX_inj [of vb va] vb va g by simp
    qed
    then show ?thesis using Some e pt_treeD(1) [OF tree Some] PX_lt by (auto simp: pte_of_def)
  qed (simp add: pte_of_def)
qed

section \<open>Mapping pages\<close>

text \<open>The loop of \<open>mappages\<close> over the \<open>n\<close> pages from \<open>va\<close>: either every one of them gets its entry,
  or the free list is exhausted; entries of other pages stay as they are.\<close>

definition leaf :: "u64 \<Rightarrow> u64 \<Rightarrow> u64" where
  "leaf pa perm = PA2PTE pa OR perm OR PTE_V"

definition page :: "u64 \<Rightarrow> nat \<Rightarrow> u64" where
  "page va i = va + of_nat i * PGSIZE"

definition page_range :: "u64 \<Rightarrow> nat \<Rightarrow> u64 set" where
  "page_range va n = page va ` {..<n}"

lemma page_Suc: "page (va + PGSIZE) i = page va (Suc i)"
  by (simp add: page_def algebra_simps)

lemma page_range_Suc: "page_range va (Suc n) = insert va (page_range (va + PGSIZE) n)"
proof -
  have "{..<Suc n} = insert 0 (Suc ` {..<n})" by (auto simp: image_iff less_Suc_eq_0_disj)
  then show ?thesis by (simp add: page_range_def image_image page_Suc) (simp add: page_def)
qed

lemma unat_page:
  assumes "unat va + 4096 * n \<le> unat MAXVA" "i < n"
  shows "unat (page va i) = unat va + 4096 * i" "page va i < MAXVA"
proof -
  have "unat (of_nat i * PGSIZE :: u64) = 4096 * i"
    using assms by (simp add: unat_word_ariths PGSIZE_def unat_of_nat take_bit_nat_eq_self unat_MAXVA)
  then show "unat (page va i) = unat va + 4096 * i"
    using assms by (simp add: page_def unat_add_no_wrap unat_MAXVA)
  then show "page va i < MAXVA" using assms by (simp add: word_less_nat_alt)
qed

lemma page_aligned: "aligned 4096 va \<Longrightarrow> unat va + 4096 * n \<le> unat MAXVA \<Longrightarrow> i < n \<Longrightarrow> aligned 4096 (page va i)"
  using unat_page(1) [of va n i] by (simp add: aligned_def)

lemma page_inj:
  "unat va + 4096 * n \<le> unat MAXVA \<Longrightarrow> i < n \<Longrightarrow> j < n \<Longrightarrow> page va i = page va j \<longleftrightarrow> i = j"
  using unat_page(1) [of va n i] unat_page(1) [of va n j] by (metis add_left_cancel mult_left_cancel zero_neq_numeral)

lemma mappages_loop_spec:
  assumes "pt_state kend pt tab ps k" "aligned 4096 va" "unat va + 4096 * Suc n \<le> unat MAXVA"
    and "\<And>i. i \<le> n \<Longrightarrow> pte_of (pmem k) tab (page va i) AND PTE_V = 0"
  shows "\<exists>ok k' tab' ps'. mappages_loop pt va (page va n) pa perm k = Inr (ok, k') \<and>
    pt_state kend pt tab' ps' k' \<and> tab \<subseteq>\<^sub>m tab' \<and> set ps' \<subseteq> set ps \<and> (\<not> ok \<longrightarrow> ps' = []) \<and>
    (ok \<longrightarrow> (\<forall>i\<le>n. pte_of (pmem k') tab' (page va i) = leaf (page pa i) perm)) \<and>
    (\<forall>vb. vb < MAXVA \<longrightarrow> aligned 4096 vb \<longrightarrow> vb \<notin> page_range va (Suc n) \<longrightarrow>
       pte_of (pmem k') tab' vb = pte_of (pmem k) tab vb)"
  using assms
proof (induction n arbitrary: va pa tab ps k)
  case 0
  then have va: "va < MAXVA" by (simp add: word_less_nat_alt)
  obtain r k1 t1 p1 where w: "walk pt va True k = Inr (r, k1)" "pt_state kend pt t1 p1 k1" "tab \<subseteq>\<^sub>m t1"
    "set p1 \<subseteq> set ps" "\<And>vb. pte_of (pmem k1) t1 vb = pte_of (pmem k) tab vb" "r = 0 \<Longrightarrow> p1 = []"
    "r \<noteq> 0 \<Longrightarrow> \<exists>q. t1 [PX 2 va, PX 1 va] = Some q \<and> r = pte_addr q (PX 0 va)"
    using walk_alloc [OF 0(1) va] by metis
  have p0: "page va 0 = va" "page pa 0 = pa" by (simp_all add: page_def)
  show ?case
  proof (cases "r = 0")
    case True
    then have "mappages_loop pt va (page va 0) pa perm k = Inr (False, k1)"
      by (subst mappages_loop.simps) (simp add: w p0)
    then show ?thesis using w True by (intro exI [of _ False] exI [of _ k1] exI [of _ t1] exI [of _ p1]) simp
  next
    case False
    then obtain q where q: "t1 [PX 2 va, PX 1 va] = Some q" "r = pte_addr q (PX 0 va)" using w(7) by blast
    have "pte_of (pmem k1) t1 va = load64 (pmem k1) r" using q by (simp add: pte_of_def entry_def)
    then have "load64 (pmem k1) r AND PTE_V = 0" using 0(4) [of 0] w(5) p0 by simp
    then have e: "mappages_loop pt va (page va 0) pa perm k = Inr (True, set_mem64 r (leaf pa perm) k1)"
      using False by (subst mappages_loop.simps) (simp add: w p0 leaf_def or.assoc)
    note sl = set_leaf [OF w(2) q(1) va 0(2), where v = "leaf pa perm", folded q(2)]
    show ?thesis
      using e sl w False p0
      by (intro exI [of _ True] exI [of _ "set_mem64 r (leaf pa perm) k1"] exI [of _ t1] exI [of _ p1])
        (auto simp: page_range_def)
  qed
next
  case (Suc n)
  then have va: "va < MAXVA" by (simp add: word_less_nat_alt)
  obtain r k1 t1 p1 where w: "walk pt va True k = Inr (r, k1)" "pt_state kend pt t1 p1 k1" "tab \<subseteq>\<^sub>m t1"
    "set p1 \<subseteq> set ps" "\<And>vb. pte_of (pmem k1) t1 vb = pte_of (pmem k) tab vb" "r = 0 \<Longrightarrow> p1 = []"
    "r \<noteq> 0 \<Longrightarrow> \<exists>q. t1 [PX 2 va, PX 1 va] = Some q \<and> r = pte_addr q (PX 0 va)"
    using walk_alloc [OF Suc.prems(1) va] by metis
  have p0: "page va 0 = va" "page pa 0 = pa" by (simp_all add: page_def)
  have unext: "unat (va + PGSIZE) = unat va + 4096" by (rule page_step_lt_MAXVA [OF va])
  have next_al: "aligned 4096 (va + PGSIZE)" using Suc.prems(2) by (simp add: aligned_def unext)
  show ?case
  proof (cases "r = 0")
    case True
    then have "mappages_loop pt va (page va (Suc n)) pa perm k = Inr (False, k1)"
      by (subst mappages_loop.simps) (simp add: w)
    then show ?thesis using w True by (intro exI [of _ False] exI [of _ k1] exI [of _ t1] exI [of _ p1]) simp
  next
    case False
    then obtain q where q: "t1 [PX 2 va, PX 1 va] = Some q" "r = pte_addr q (PX 0 va)" using w(7) by blast
    have "pte_of (pmem k1) t1 va = load64 (pmem k1) r" using q by (simp add: pte_of_def entry_def)
    then have v0: "load64 (pmem k1) r AND PTE_V = 0" using Suc.prems(4) [of 0] w(5) p0 by simp
    define k2 where "k2 = set_mem64 r (leaf pa perm) k1"
    have "va \<noteq> page va (Suc n)"
      using page_inj [of va "Suc (Suc n)" 0 "Suc n"] Suc.prems(3) p0 by simp
    then have e: "mappages_loop pt va (page va (Suc n)) pa perm k =
        mappages_loop pt (va + PGSIZE) (page (va + PGSIZE) n) (pa + PGSIZE) perm k2"
      using False v0 by (subst mappages_loop.simps) (simp add: w leaf_def or.assoc page_Suc k2_def)
    note sl = set_leaf [OF w(2) q(1) va Suc.prems(2), where v = "leaf pa perm", folded q(2), folded k2_def]
    have other: "page va i \<noteq> va \<and> page va i < MAXVA \<and> aligned 4096 (page va i)" if "0 < i" "i \<le> Suc n" for i
      using that Suc.prems(2,3) page_inj [of va "Suc (Suc n)" i 0] unat_page(2) [of va "Suc (Suc n)" i]
        page_aligned [of va "Suc (Suc n)" i] p0 by auto
    have "pte_of (pmem k2) t1 (page (va + PGSIZE) i) AND PTE_V = 0" if "i \<le> n" for i
      using other [of "Suc i"] that sl(3) [of "page va (Suc i)"] Suc.prems(4) [of "Suc i"] w(5)
      by (simp add: page_Suc)
    from Suc.IH [OF sl(1) next_al _ this, where pa = "pa + PGSIZE"] obtain ok k3 t3 p3 where r3:
      "mappages_loop pt (va + PGSIZE) (page (va + PGSIZE) n) (pa + PGSIZE) perm k2 = Inr (ok, k3)"
      "pt_state kend pt t3 p3 k3" "t1 \<subseteq>\<^sub>m t3" "set p3 \<subseteq> set p1" "\<not> ok \<longrightarrow> p3 = []"
      "ok \<longrightarrow> (\<forall>i\<le>n. pte_of (pmem k3) t3 (page (va + PGSIZE) i) = leaf (page (pa + PGSIZE) i) perm)"
      "\<forall>vb. vb < MAXVA \<longrightarrow> aligned 4096 vb \<longrightarrow> vb \<notin> page_range (va + PGSIZE) (Suc n) \<longrightarrow>
         pte_of (pmem k3) t3 vb = pte_of (pmem k2) t1 vb"
      using Suc.prems(3) unext by auto
    have "va \<notin> page_range (va + PGSIZE) (Suc n)"
    proof
      assume "va \<in> page_range (va + PGSIZE) (Suc n)"
      then obtain i where "i < Suc n" "va = page va (Suc i)" unfolding page_range_def page_Suc by blast
      then show False using other [of "Suc i"] by simp
    qed
    then have first: "pte_of (pmem k3) t3 va = leaf pa perm"
      using r3(7) va Suc.prems(2) sl(2) by simp
    have all: "ok \<longrightarrow> (\<forall>i\<le>Suc n. pte_of (pmem k3) t3 (page va i) = leaf (page pa i) perm)"
    proof (intro impI allI)
      fix i assume "ok" "i \<le> Suc n"
      then show "pte_of (pmem k3) t3 (page va i) = leaf (page pa i) perm"
        using r3(6) first p0 by (cases i) (auto simp: page_Suc)
    qed
    have frame: "\<forall>vb. vb < MAXVA \<longrightarrow> aligned 4096 vb \<longrightarrow> vb \<notin> page_range va (Suc (Suc n)) \<longrightarrow>
       pte_of (pmem k3) t3 vb = pte_of (pmem k) tab vb"
      using r3(7) sl(3) w(5) by (simp add: page_range_Suc [of va "Suc n"])
    have "tab \<subseteq>\<^sub>m t3" "set p3 \<subseteq> set ps" using map_le_trans w(3,4) r3(3,4) by blast+
    then show ?thesis using e r3(1,2,5) all frame by metis
  qed
qed

text \<open>One page: the entry is made if two pages are free, or with none when the leaf table is there.\<close>

lemma mappages_one:
  assumes st: "pt_state kend pt tab ps k" and va: "aligned 4096 va" "va < MAXVA"
    and free: "pte_of (pmem k) tab va AND PTE_V = 0"
    and room: "2 \<le> length ps \<or> tab [PX 2 va, PX 1 va] \<noteq> None"
  obtains k' tab' ps' where "mappages pt va PGSIZE pa perm k = Inr (True, k')" "pt_state kend pt tab' ps' k'"
    "tab \<subseteq>\<^sub>m tab'" "set ps' \<subseteq> set ps" "tab' [PX 2 va, PX 1 va] \<noteq> None"
    "length ps \<le> length ps' + 2" "tab [PX 2 va, PX 1 va] \<noteq> None \<Longrightarrow> ps' = ps"
    "pte_of (pmem k') tab' va = leaf pa perm"
    "\<And>vb. vb < MAXVA \<Longrightarrow> aligned 4096 vb \<Longrightarrow> vb \<noteq> va \<Longrightarrow> pte_of (pmem k') tab' vb = pte_of (pmem k) tab vb"
proof -
  obtain r k1 t1 p1 where w: "walk pt va True k = Inr (r, k1)" "pt_state kend pt t1 p1 k1" "tab \<subseteq>\<^sub>m t1"
    "set p1 \<subseteq> set ps" "\<And>vb. pte_of (pmem k1) t1 vb = pte_of (pmem k) tab vb"
    "r = 0 \<Longrightarrow> p1 = []"
    "r \<noteq> 0 \<Longrightarrow> \<exists>q. t1 [PX 2 va, PX 1 va] = Some q \<and> r = pte_addr q (PX 0 va)"
    "2 \<le> length ps \<Longrightarrow> r \<noteq> 0 \<and> length ps \<le> length p1 + 2"
    "tab [PX 2 va, PX 1 va] \<noteq> None \<Longrightarrow> r \<noteq> 0 \<and> p1 = ps"
    by (rule walk_alloc [OF st va(2)]) (rule that)
  have r: "r \<noteq> 0" using room w(8,9) by blast
  then obtain q where q: "t1 [PX 2 va, PX 1 va] = Some q" "r = pte_addr q (PX 0 va)" using w(7) by blast
  have "pte_of (pmem k1) t1 va = load64 (pmem k1) r" using q by (simp add: pte_of_def entry_def)
  then have "load64 (pmem k1) r AND PTE_V = 0" using free w(5) by simp
  then have "mappages_loop pt va va pa perm k = Inr (True, set_mem64 r (leaf pa perm) k1)"
    using r by (subst mappages_loop.simps) (simp add: w leaf_def or.assoc)
  then have "mappages pt va PGSIZE pa perm k = Inr (True, set_mem64 r (leaf pa perm) k1)"
    using va(1) by (simp add: mappages_def mod_PGSIZE_aligned) (simp add: PGSIZE_def)
  moreover have "length ps \<le> length p1 + 2" using room w(8,9) by (cases "2 \<le> length ps") auto
  moreover note sl = set_leaf [OF w(2) q(1) va(2,1), where v = "leaf pa perm", folded q(2)]
  moreover have "tab [PX 2 va, PX 1 va] \<noteq> None \<Longrightarrow> p1 = ps" using w(9) by simp
  ultimately show ?thesis
    using q(1) w(3,4,5) by (intro that [of "set_mem64 r (leaf pa perm) k1" t1 p1]) simp_all
qed

text \<open>A root table from \<open>uvmcreate\<close> is empty.\<close>

lemma uvmcreate_spec:
  assumes inv: "kmem_inv kend (q # ps) k"
  obtains k' where "uvmcreate k = (q, k')" "pt_state kend q [[] \<mapsto> q] ps k'" "q \<noteq> 0"
    "\<And>va. pte_of (pmem k') [[] \<mapsto> q] va = 0"
proof -
  obtain k1 where k1: "kalloc k = (q, k1)" "kmem_inv kend ps k1" using kalloc_inv [OF inv] by blast
  have q: "good_page kend q" "q \<notin> set ps" "aligned 4096 q" "q \<noteq> 0"
    using inv by (auto simp: kmem_inv_def good_page_def mod_PGSIZE_aligned)
  let ?m = "memset (pmem k1) q 0 (ucast PGSIZE)"
  have "load64 ?m f = load64 (pmem k1) f" if "f \<in> set ps" for f
    using that k1(2) q by (intro load64_memset_page) (auto simp: kmem_inv_def good_page_def mod_PGSIZE_aligned)
  then have "kmem_inv kend ps (zero_page q k1)"
    using k1(2) free_chain_cong [of ps ?m "pmem k1"] by (simp add: kmem_inv_def zero_page_def)
  moreover have "entry (pmem (zero_page q k1)) q i = 0" if "i < 512" for i
    using entry_zero_page [OF q(3) that] by (simp add: zero_page_def)
  then have "pt_tree kend (pmem (zero_page q k1)) q [[] \<mapsto> q]"
    using q(1) by (auto simp: pt_tree_def dir_entry_def split: if_splits)
  ultimately have "pt_state kend q [[] \<mapsto> q] ps (zero_page q k1)"
    using q(2) by (auto simp: pt_state_def split: if_splits)
  then show ?thesis using k1 q(4) by (intro that [of "zero_page q k1"]) (simp_all add: uvmcreate_def pte_of_def)
qed

section \<open>Looking up addresses\<close>

lemma walkaddr_pte:
  assumes "pt_tree kend (pmem k) pt tab" "va < MAXVA"
  shows "walkaddr pt va k =
    (let e = pte_of (pmem k) tab va
     in if e AND PTE_V = 0 \<or> e AND PTE_U = 0 then 0 else PTE2PA e)"
proof -
  have root: "tab [] = Some pt" and lt: "\<not> MAXVA \<le> va" using assms by (simp_all add: pt_tree_def)
  note w = walk_loop_lookup [OF assms(1) root, of 2 va, unfolded walk_path_2]
  show ?thesis
  proof (cases "tab [PX 2 va, PX 1 va]")
    case (Some q)
    then have "pte_addr q (PX 0 va) \<noteq> 0" using pte_addr_nonzero [OF assms(1)] PX_lt by blast
    with Some w lt show ?thesis by (simp add: walkaddr_def pte_of_def entry_def Let_def)
  qed (use w lt in \<open>simp add: walkaddr_def pte_of_def Let_def\<close>)
qed

lemma ismapped_pte:
  assumes "pt_tree kend (pmem k) pt tab" "va < MAXVA"
  shows "ismapped pt va k = Inr (pte_of (pmem k) tab va AND PTE_V \<noteq> 0)"
proof (cases "tab [PX 2 va, PX 1 va]")
  case (Some q)
  then have "pte_addr q (PX 0 va) \<noteq> 0" using pte_addr_nonzero [OF assms(1)] PX_lt by blast
  with Some walk_lookup [OF assms] show ?thesis by (simp add: ismapped_def pte_of_def entry_def)
qed (use walk_lookup [OF assms] in \<open>simp add: ismapped_def pte_of_def\<close>)

lemma leaf_valid: "leaf pa perm AND PTE_V \<noteq> 0"
proof -
  have "leaf pa perm AND PTE_V = (perm OR PTE_V) AND PTE_V"
    using entry_flag_bit [of PTE_V pa "perm OR PTE_V"] by (simp add: leaf_def PTE_V_def or.assoc)
  moreover have "bit ((perm OR PTE_V) AND PTE_V) 0" by (simp add: PTE_V_def bit_simps)
  ultimately show ?thesis by auto
qed

lemma leaf_decode:
  assumes "aligned 4096 pa" "perm AND 0x3FF = perm"
  shows "PTE2PA (leaf pa perm) = pa" "leaf pa perm AND PTE_U = perm AND PTE_U"
proof -
  have f: "(perm OR PTE_V) AND 0x3FF = perm OR PTE_V"
    using assms(2) by (simp add: PTE_V_def bit.conj_disj_distrib2)
  show "PTE2PA (leaf pa perm) = pa"
    using PTE2PA_entry [OF assms(1) f] by (simp add: leaf_def or.assoc)
  have "leaf pa perm AND PTE_U = (perm OR PTE_V) AND PTE_U"
    using entry_flag_bit [of PTE_U pa "perm OR PTE_V"] by (simp add: leaf_def PTE_U_def or.assoc)
  also have "\<dots> = perm AND PTE_U"
    by (simp add: PTE_V_def PTE_U_def bit.conj_disj_distrib2)
  finally show "leaf pa perm AND PTE_U = perm AND PTE_U" .
qed

lemma page_add_aligned: "aligned 4096 pa \<Longrightarrow> aligned 4096 (page pa i)"
proof -
  assume "aligned 4096 pa"
  then have "4096 dvd unat pa" by (simp add: aligned_def mod_eq_0_iff_dvd)
  moreover have "unat (page pa i) = (unat pa + i * 4096 mod 2 ^ 64) mod 2 ^ 64"
    by (simp add: page_def PGSIZE_def unat_word_ariths unat_of_nat take_bit_eq_mod mod_mult_left_eq)
  moreover have "4096 dvd (2 ^ 64 :: nat)" by simp
  ultimately show ?thesis
    unfolding aligned_def mod_eq_0_iff_dvd by (metis dvd_add dvd_mod dvd_triv_right)
qed

section \<open>Properties\<close>

text \<open>C13: \<open>mappages\<close> on a page-aligned range below \<open>MAXVA\<close> that is not mapped yet never panics: either
  every page of the range is mapped, so that \<open>walkaddr\<close> finds its physical address if the
  permissions let the user have it and 0 otherwise, or it returns -1 and no free page is left. No
  other translation changes, and the page table stays a tree of distinct pages off the free list.\<close>

theorem mappages_correct:
  assumes "pt_state kend pt tab ps k" "aligned 4096 va" "aligned 4096 pa" "perm AND 0x3FF = perm"
    and "0 < n" "unat va + 4096 * n \<le> unat MAXVA"
    and "\<forall>i<n. pte_of (pmem k) tab (page va i) AND PTE_V = 0"
  shows "\<exists>ok k' tab' ps'. mappages pt va (of_nat n * PGSIZE) pa perm k = Inr (ok, k') \<and>
    pt_state kend pt tab' ps' k' \<and> (\<not> ok \<longrightarrow> ps' = []) \<and>
    (ok \<longrightarrow> (\<forall>i<n. walkaddr pt (page va i) k' = (if perm AND PTE_U = 0 then 0 else page pa i))) \<and>
    (\<forall>vb. vb < MAXVA \<longrightarrow> aligned 4096 vb \<longrightarrow> vb \<notin> page_range va n \<longrightarrow> walkaddr pt vb k' = walkaddr pt vb k)"
proof -
  obtain m where n: "n = Suc m" using assms(5) by (cases n) auto
  have sz: "of_nat n * PGSIZE \<noteq> 0" "of_nat n * PGSIZE mod PGSIZE = 0"
    "va + of_nat n * PGSIZE - PGSIZE = page va m"
  proof -
    have u: "unat (of_nat n * PGSIZE :: u64) = 4096 * n"
      using assms(6) by (simp add: unat_word_ariths PGSIZE_def unat_of_nat take_bit_nat_eq_self unat_MAXVA)
    then show "of_nat n * PGSIZE \<noteq> 0" using n by (auto simp: unat_eq_0 [symmetric])
    show "of_nat n * PGSIZE mod PGSIZE = 0" using u by (simp add: mod_PGSIZE_aligned aligned_def)
    show "va + of_nat n * PGSIZE - PGSIZE = page va m" by (simp add: n page_def algebra_simps)
  qed
  have "\<And>i. i \<le> m \<Longrightarrow> pte_of (pmem k) tab (page va i) AND PTE_V = 0" using assms(7) n by auto
  from mappages_loop_spec [OF assms(1,2) _ this, where n = m and pa = pa and perm = perm] obtain ok k' tab' ps' where r:
    "mappages_loop pt va (page va m) pa perm k = Inr (ok, k')" "pt_state kend pt tab' ps' k'" "\<not> ok \<longrightarrow> ps' = []"
    "ok \<longrightarrow> (\<forall>i\<le>m. pte_of (pmem k') tab' (page va i) = leaf (page pa i) perm)"
    "\<forall>vb. vb < MAXVA \<longrightarrow> aligned 4096 vb \<longrightarrow> vb \<notin> page_range va (Suc m) \<longrightarrow>
       pte_of (pmem k') tab' vb = pte_of (pmem k) tab vb"
    using assms(6) n by auto
  have "mappages pt va (of_nat n * PGSIZE) pa perm k = Inr (ok, k')"
    using assms(2) sz r(1) by (simp add: mappages_def mod_PGSIZE_aligned)
  moreover have t: "pt_tree kend (pmem k') pt tab'" "pt_tree kend (pmem k) pt tab"
    using r(2) assms(1) by (simp_all add: pt_state_def)
  have "walkaddr pt (page va i) k' = (if perm AND PTE_U = 0 then 0 else page pa i)" if "ok" "i < n" for i
    using walkaddr_pte [OF t(1) unat_page(2) [OF assms(6) that(2)]] r(4) that n leaf_valid
      leaf_decode [OF page_add_aligned [OF assms(3)] assms(4), of i] by simp
  moreover have "walkaddr pt vb k' = walkaddr pt vb k"
    if "vb < MAXVA" "aligned 4096 vb" "vb \<notin> page_range va n" for vb
    using that r(5) n by (simp add: walkaddr_pte [OF t(1)] walkaddr_pte [OF t(2)])
  ultimately show ?thesis using r(2,3) by (intro exI [of _ ok] exI [of _ k'] exI [of _ tab'] exI [of _ ps']) simp
qed

text \<open>A one-page example: an empty root table at \<open>0x80002000\<close>, with two free pages.\<close>

definition vm_ex :: kmem where
  "vm_ex = zero_page 0x80002000 kmem_ex"

lemma vm_ex_state:
  "pt_state 0x80000800 0x80002000 [[] \<mapsto> 0x80002000] [0x80003000, 0x80001000] vm_ex"
proof -
  let ?m = "memset (pmem kmem_ex) 0x80002000 0 (ucast PGSIZE)"
  have al: "aligned 4096 (0x80002000 :: u64)" "aligned 4096 (0x80003000 :: u64)" "aligned 4096 (0x80001000 :: u64)"
    by (simp_all add: aligned_def)
  have "load64 ?m f = load64 (pmem kmem_ex) f" if "f \<in> {0x80003000, 0x80001000}" for f
    using that al by (auto intro!: load64_memset_page)
  then have "free_chain ?m (freelist kmem_ex) [0x80003000, 0x80001000]"
    using kmem_ex_inv free_chain_cong [of "[0x80003000, 0x80001000]" ?m "pmem kmem_ex"]
    unfolding kmem_inv_def by auto
  then have "kmem_inv 0x80000800 [0x80003000, 0x80001000] vm_ex"
    using kmem_ex_inv unfolding kmem_inv_def by (simp add: vm_ex_def zero_page_def)
  moreover have "entry (pmem vm_ex) 0x80002000 i = 0" if "i < 512" for i
    using entry_zero_page [OF al(1) that] by (simp add: vm_ex_def zero_page_def)
  then have "pt_tree 0x80000800 (pmem vm_ex) 0x80002000 [[] \<mapsto> 0x80002000]"
    by (auto simp: pt_tree_def dir_entry_def good_page_def PHYSTOP_def KERNBASE_def PGSIZE_def split: if_splits)
  ultimately show ?thesis by (auto simp: pt_state_def split: if_splits)
qed

lemma vm_ex_unmapped: "pte_of (pmem vm_ex) [[] \<mapsto> 0x80002000] va = 0"
  by (simp add: pte_of_def)

theorem mappages_correct_witness:
  "\<exists>ok k'. mappages 0x80002000 0x1000 (of_nat 1 * PGSIZE) 0x80005000 PTE_U vm_ex = Inr (ok, k') \<and>
     (ok \<longrightarrow> walkaddr 0x80002000 0x1000 k' = 0x80005000)"
proof -
  have "page 0x1000 0 = 0x1000" "page 0x80005000 0 = 0x80005000" by (simp_all add: page_def)
  then show ?thesis
    using mappages_correct [OF vm_ex_state, where va = "0x1000" and pa = "0x80005000" and perm = PTE_U and n = 1]
    by (simp add: vm_ex_unmapped aligned_def PTE_U_def unat_MAXVA) blast
qed

lemma copystr_page_spec:
  "copystr_page m p n = (bs, ok) \<Longrightarrow> length bs \<le> n \<and> 0 \<notin> set (butlast bs) \<and>
     (ok \<longrightarrow> bs \<noteq> [] \<and> last bs = 0) \<and> (\<not> ok \<longrightarrow> length bs = n \<and> 0 \<notin> set bs)"
proof (induction n arbitrary: p bs ok)
  case (Suc n)
  show ?case
  proof (cases "m p = 0")
    case False
    obtain cs ok' where c: "copystr_page m (p + 1) n = (cs, ok')" by (cases "copystr_page m (p + 1) n")
    with Suc.IH [OF c] Suc.prems False show ?thesis by (auto split: if_splits)
  qed (use Suc.prems in auto)
qed simp

lemma copyinstr_spec:
  "copyinstr pt va n k = (bs, ok) \<Longrightarrow> length bs \<le> n \<and> 0 \<notin> set (butlast bs) \<and>
     (ok \<longrightarrow> bs \<noteq> [] \<and> last bs = 0) \<and> (\<not> ok \<longrightarrow> 0 \<notin> set bs)"
proof (induction pt va n k arbitrary: bs ok rule: copyinstr.induct)
  case (1 pt va n k)
  let ?pa = "walkaddr pt (PGROUNDDOWN va) k" and ?n = "min (4096 - unat (va - PGROUNDDOWN va)) n"
  show ?case
  proof (cases "n = 0 \<or> ?pa = 0")
    case True
    then show ?thesis using "1.prems" by (subst (asm) copyinstr.simps) (auto simp: Let_def split: if_splits)
  next
    case False
    obtain cs got where c: "copystr_page (pmem k) (?pa + (va - PGROUNDDOWN va)) ?n = (cs, got)"
      by (cases "copystr_page (pmem k) (?pa + (va - PGROUNDDOWN va)) ?n")
    obtain ds ok' where d: "copyinstr pt (PGROUNDDOWN va + PGSIZE) (n - ?n) k = (ds, ok')"
      by (cases "copyinstr pt (PGROUNDDOWN va + PGSIZE) (n - ?n) k")
    have e: "(bs, ok) = (if got then (cs, True) else (cs @ ds, ok'))"
      using "1.prems" False c d by (subst (asm) copyinstr.simps) (auto simp: Let_def split: if_splits)
    show ?thesis
    proof (cases got)
      case True
      then show ?thesis using e copystr_page_spec [OF c] by simp
    next
      case False
      then have "length ds \<le> n - ?n \<and> 0 \<notin> set (butlast ds) \<and> (ok' \<longrightarrow> ds \<noteq> [] \<and> last ds = 0) \<and>
        (\<not> ok' \<longrightarrow> 0 \<notin> set ds)"
        using "1.IH" [OF _ refl refl _ refl c [symmetric] _ _ d] \<open>\<not> (n = 0 \<or> ?pa = 0)\<close> by simp
      then show ?thesis using e False copystr_page_spec [OF c] by (auto simp: butlast_append)
    qed
  qed
qed

text \<open>C14: \<open>copyinstr\<close> never stores more than \<open>max\<close> bytes; it reports success exactly when the last
  byte it stored is the terminating 0, and no byte before it is 0, so the kernel always gets a
  terminated string or an error.\<close>

theorem copyinstr_string:
  "case copyinstr pt va n k of (bs, ok) \<Rightarrow> length bs \<le> n \<and> 0 \<notin> set (butlast bs) \<and>
     (ok \<longleftrightarrow> bs \<noteq> [] \<and> last bs = 0)"
  using copyinstr_spec [of pt va n k] by (cases "copyinstr pt va n k") (auto dest: last_in_set)

end
