(* ===== verification/Pipe.thy ===== *)
theory Pipe
  imports Vm
begin

text \<open>
  \<^verbatim>\<open>kernel/pipe.c\<close>: \<open>pipewrite\<close>, \<open>piperead\<close> and \<open>pipeclose\<close>. A system call that has to sleep gives up
  the CPU in the middle of its loop and goes on there when it is woken: the outcome \<open>Sleeps i\<close>
  carries the loop counter, and the call is resumed by running its loop again from \<open>i\<close>. The list
  of channels is what the call passed to \<open>wakeup\<close>. The running process is given by its page table
  and size and by whether it was killed. \<open>pipealloc\<close> is in theory File.
\<close>

section \<open>State\<close>

definition PIPESIZE :: u32 where "PIPESIZE = 512"

record pipe =
  data :: "u8 list"
  nread :: u32
  nwrite :: u32
  readopen :: bool
  writeopen :: bool

datatype pchan = Chan_nread | Chan_nwrite

datatype outcome = Returns int | Sleeps int

record uproc =
  ukend :: u64
  upt :: u64
  usz :: u64
  ukilled :: bool

definition new_pipe :: "u8 list \<Rightarrow> pipe" where
  "new_pipe d = \<lparr>data = d, nread = 0, nwrite = 0, readopen = True, writeopen = True\<rparr>"

section \<open>Operations\<close>

definition ring_put :: "u8 \<Rightarrow> pipe \<Rightarrow> pipe" where
  "ring_put ch pi = pi\<lparr>data := (data pi)[unat (nwrite pi mod PIPESIZE) := ch], nwrite := nwrite pi + 1\<rparr>"

definition ring_get :: "pipe \<Rightarrow> u8 \<times> pipe" where
  "ring_get pi = (data pi ! unat (nread pi mod PIPESIZE), pi\<lparr>nread := nread pi + 1\<rparr>)"

text \<open>The second argument is the number of turns left, \<open>n - i\<close>.\<close>

fun pipewrite_loop :: "uproc \<Rightarrow> u64 \<Rightarrow> int \<Rightarrow> nat \<Rightarrow> pipe \<Rightarrow> kmem \<Rightarrow>
    (outcome \<times> pchan list \<times> pipe \<times> kmem) result" where
  "pipewrite_loop p addr i 0 pi k = Inr (Returns i, [Chan_nread], pi, k)"
| "pipewrite_loop p addr i (Suc n) pi k =
     (if \<not> readopen pi \<or> ukilled p then Inr (Returns (-1), [], pi, k)
      else if nwrite pi = nread pi + PIPESIZE then Inr (Sleeps i, [Chan_nread], pi, k)
      else bind_result (copyin (ukend p) (upt p) (usz p) (upt p) (addr + of_int i) 1 k) (\<lambda>(bs, ok, k).
             if \<not> ok then Inr (Returns i, [Chan_nread], pi, k)
             else pipewrite_loop p addr (i + 1) n (ring_put (hd bs) pi) k))"

definition pipewrite :: "uproc \<Rightarrow> u64 \<Rightarrow> int \<Rightarrow> pipe \<Rightarrow> kmem \<Rightarrow> (outcome \<times> pchan list \<times> pipe \<times> kmem) result" where
  "pipewrite p addr n pi k = pipewrite_loop p addr 0 (nat n) pi k"

fun piperead_copy :: "uproc \<Rightarrow> u64 \<Rightarrow> int \<Rightarrow> nat \<Rightarrow> pipe \<Rightarrow> kmem \<Rightarrow> (int \<times> pipe \<times> kmem) result" where
  "piperead_copy p addr i 0 pi k = Inr (i, pi, k)"
| "piperead_copy p addr i (Suc n) pi k =
     (if nread pi = nwrite pi then Inr (i, pi, k)
      else let (ch, pi) = ring_get pi
           in bind_result (copyout (ukend p) (upt p) (usz p) (upt p) (addr + of_int i) [ch] k) (\<lambda>(ok, k).
                if \<not> ok then Inr (i, pi, k) else piperead_copy p addr (i + 1) n pi k))"

definition piperead :: "uproc \<Rightarrow> u64 \<Rightarrow> int \<Rightarrow> pipe \<Rightarrow> kmem \<Rightarrow> (outcome \<times> pchan list \<times> pipe \<times> kmem) result" where
  "piperead p addr n pi k =
     (if nread pi = nwrite pi \<and> writeopen pi
      then if ukilled p then Inr (Returns (-1), [], pi, k) else Inr (Sleeps 0, [], pi, k)
      else bind_result (piperead_copy p addr 0 (nat n) pi k) (\<lambda>(i, pi, k).
             Inr (Returns i, [Chan_nwrite], pi, k)))"

text \<open>The last result says whether the pipe's page is freed.\<close>

definition pipeclose :: "bool \<Rightarrow> pipe \<Rightarrow> pchan list \<times> pipe \<times> bool" where
  "pipeclose writable pi =
     (let (w, pi) = (if writable then ([Chan_nread], pi\<lparr>writeopen := False\<rparr>)
                     else ([Chan_nwrite], pi\<lparr>readopen := False\<rparr>))
      in (w, pi, \<not> readopen pi \<and> \<not> writeopen pi))"

section \<open>The ring is a bounded first-in first-out queue\<close>

text \<open>
  The interface of a bounded queue: \<open>items\<close> is the abstraction, \<open>put\<close> appends when there is room,
  \<open>get\<close> takes from the front when there is something. \<open>queue_run\<close> is any interleaving of both.
\<close>

locale bounded_queue =
  fixes inv :: "'q \<Rightarrow> bool" and items :: "'q \<Rightarrow> 'a list" and cap :: nat
    and put :: "'a \<Rightarrow> 'q \<Rightarrow> 'q" and get :: "'q \<Rightarrow> 'a \<times> 'q" and full :: "'q \<Rightarrow> bool" and empty :: "'q \<Rightarrow> bool"
  assumes items_bound: "inv q \<Longrightarrow> length (items q) \<le> cap"
    and full_iff: "inv q \<Longrightarrow> full q \<longleftrightarrow> length (items q) = cap"
    and empty_iff: "inv q \<Longrightarrow> empty q \<longleftrightarrow> items q = []"
    and put_spec: "inv q \<Longrightarrow> \<not> full q \<Longrightarrow> inv (put x q) \<and> items (put x q) = items q @ [x]"
    and get_spec: "inv q \<Longrightarrow> \<not> empty q \<Longrightarrow> get q = (y, q') \<Longrightarrow> inv q' \<and> items q = y # items q'"
begin

inductive queue_run :: "'q \<Rightarrow> 'a list \<Rightarrow> 'a list \<Rightarrow> 'q \<Rightarrow> bool" for q0 where
  run_start: "queue_run q0 [] [] q0"
| run_put: "queue_run q0 ws rs q \<Longrightarrow> \<not> full q \<Longrightarrow> queue_run q0 (ws @ [x]) rs (put x q)"
| run_get: "queue_run q0 ws rs q \<Longrightarrow> \<not> empty q \<Longrightarrow> get q = (y, q') \<Longrightarrow> queue_run q0 ws (rs @ [y]) q'"

lemma queue_run_fifo:
  "queue_run q0 ws rs q \<Longrightarrow> inv q0 \<Longrightarrow> inv q \<and> items q0 @ ws = rs @ items q"
proof (induction rule: queue_run.induct)
  case (run_put ws rs q x)
  then show ?case using put_spec [of q x] by (simp flip: append_assoc)
next
  case (run_get ws rs q y q')
  then show ?case using get_spec [of q y q'] by simp
qed simp

lemma get_bound: "inv q \<Longrightarrow> \<not> empty q \<Longrightarrow> get q = (y, q') \<Longrightarrow> length (items q') < cap"
  using get_spec items_bound by fastforce

end

definition pipe_inv :: "pipe \<Rightarrow> bool" where
  "pipe_inv pi \<longleftrightarrow> length (data pi) = 512 \<and> unat (nwrite pi - nread pi) \<le> 512"

definition contents :: "pipe \<Rightarrow> u8 list" where
  "contents pi = map (\<lambda>j. data pi ! unat ((nread pi + of_nat j) mod PIPESIZE)) [0..<unat (nwrite pi - nread pi)]"

definition ring_full :: "pipe \<Rightarrow> bool" where "ring_full pi \<longleftrightarrow> nwrite pi = nread pi + PIPESIZE"
definition ring_empty :: "pipe \<Rightarrow> bool" where "ring_empty pi \<longleftrightarrow> nread pi = nwrite pi"

lemma length_contents: "length (contents pi) = unat (nwrite pi - nread pi)"
  by (simp add: contents_def)

lemma unat_mod_512: "unat (x mod PIPESIZE) = unat x mod 512"
  by (simp add: PIPESIZE_def unat_mod_distrib)

lemma slot_distinct:
  fixes r :: u32
  assumes "i < 512" "j < 512" "unat ((r + of_nat i) mod PIPESIZE) = unat ((r + of_nat j) mod PIPESIZE)"
  shows "i = j"
proof -
  have "unat (r + of_nat i) mod 512 = (unat r + i) mod 512" for i
    by (simp add: unat_word_ariths unat_of_nat take_bit_eq_mod mod_mod_cancel mod_simps)
  then have "(unat r + i) mod 512 = (unat r + j) mod 512" using assms(3) by (simp add: unat_mod_512)
  then show ?thesis using assms(1,2) mod_cancel_less by blast
qed

lemma pipe_used_Suc:
  fixes w r :: u32
  assumes "unat (w - r) < 512"
  shows "unat (w + 1 - r) = Suc (unat (w - r))"
proof -
  have "unat (w + 1 - r) = unat ((w - r) + 1)" by (simp add: algebra_simps)
  also have "\<dots> = unat (w - r) + 1" using assms by (subst unat_add_no_wrap) simp_all
  finally show ?thesis by simp
qed

lemma ring_full_iff: "pipe_inv pi \<Longrightarrow> ring_full pi \<longleftrightarrow> length (contents pi) = 512"
proof -
  have "nwrite pi = nread pi + PIPESIZE \<longleftrightarrow> nwrite pi - nread pi = 512"
    by (auto simp: PIPESIZE_def diff_eq_eq add.commute)
  also have "\<dots> \<longleftrightarrow> unat (nwrite pi - nread pi) = 512" by (auto simp: word_unat_eq_iff)
  finally show ?thesis by (simp add: ring_full_def length_contents)
qed

lemma ring_put_simps [simp]:
  "nread (ring_put x pi) = nread pi" "readopen (ring_put x pi) = readopen pi"
  "writeopen (ring_put x pi) = writeopen pi"
  by (simp_all add: ring_put_def)

lemma ring_put_spec:
  assumes inv: "pipe_inv pi" and "\<not> ring_full pi"
  shows "pipe_inv (ring_put x pi)" "contents (ring_put x pi) = contents pi @ [x]"
proof -
  let ?n = "unat (nwrite pi - nread pi)"
  have lt: "?n < 512" using assms ring_full_iff [OF inv] by (simp add: pipe_inv_def length_contents)
  note used = pipe_used_Suc [OF lt]
  show "pipe_inv (ring_put x pi)" using inv lt used by (simp add: pipe_inv_def ring_put_def)
  have w: "unat ((nread pi + of_nat ?n) mod PIPESIZE) = unat (nwrite pi mod PIPESIZE)" by simp
  have "data (ring_put x pi) ! unat ((nread pi + of_nat j) mod PIPESIZE) =
      (if j = ?n then x else data pi ! unat ((nread pi + of_nat j) mod PIPESIZE))" if "j \<le> ?n" for j
  proof -
    have "unat ((nread pi + of_nat j) mod PIPESIZE) < length (data pi)"
      using inv by (simp add: unat_mod_512 pipe_inv_def)
    moreover have "unat (nwrite pi mod PIPESIZE) = unat ((nread pi + of_nat j) mod PIPESIZE) \<longleftrightarrow> j = ?n"
    proof -
      have "j < 512" using lt that by simp
      then show ?thesis using slot_distinct [OF lt, of j "nread pi"] w by auto
    qed
    moreover have "unat (nwrite pi mod PIPESIZE) < length (data pi)"
      using inv by (simp add: unat_mod_512 pipe_inv_def)
    ultimately show ?thesis by (auto simp: ring_put_def nth_list_update)
  qed
  moreover have "data (ring_put x pi) ! unat (nwrite pi mod PIPESIZE) = x"
    using inv by (simp add: ring_put_def unat_mod_512 pipe_inv_def)
  ultimately show "contents (ring_put x pi) = contents pi @ [x]"
    using used by (auto simp: contents_def ring_put_def)
qed

lemma ring_get_spec:
  assumes inv: "pipe_inv pi" and "\<not> ring_empty pi" and g: "ring_get pi = (y, pi')"
  shows "pipe_inv pi'" "contents pi = y # contents pi'"
proof -
  have "nwrite pi - nread pi \<noteq> 0" using assms(2) by (simp add: ring_empty_def)
  then have "unat (nwrite pi - nread pi) \<noteq> 0" by (simp add: unat_eq_0)
  then obtain n where n: "unat (nwrite pi - nread pi) = Suc n" by (cases "unat (nwrite pi - nread pi)") auto
  have "nwrite pi - nread pi = (nwrite pi - (nread pi + 1)) + 1" by simp
  then have n': "unat (nwrite pi - (nread pi + 1)) = n"
    using n by (metis unatSuc add.commute unat_eq_0 nat.distinct(1) nat.inject)
  have pi': "pi' = pi\<lparr>nread := nread pi + 1\<rparr>" "y = data pi ! unat (nread pi mod PIPESIZE)"
    using g by (simp_all add: ring_get_def)
  show "pipe_inv pi'" using inv n n' by (simp add: pipe_inv_def pi')
  show "contents pi = y # contents pi'"
    using n n' by (simp add: contents_def pi' upt_conv_Cons map_Suc_upt [symmetric] add.assoc del: upt_Suc)
qed

interpretation pq: bounded_queue pipe_inv contents 512 ring_put ring_get ring_full ring_empty
proof
  fix pi :: pipe and x y pi'
  assume inv: "pipe_inv pi"
  show "length (contents pi) \<le> 512" using inv by (simp add: pipe_inv_def length_contents)
  show "ring_full pi \<longleftrightarrow> length (contents pi) = 512" by (rule ring_full_iff [OF inv])
  have "nread pi = nwrite pi \<longleftrightarrow> nwrite pi - nread pi = 0" by auto
  then show "ring_empty pi \<longleftrightarrow> contents pi = []"
    using length_contents [of pi] by (simp add: ring_empty_def unat_eq_0 flip: length_0_conv)
  show "\<not> ring_full pi \<Longrightarrow> pipe_inv (ring_put x pi) \<and> contents (ring_put x pi) = contents pi @ [x]"
    using ring_put_spec [OF inv] by blast
  show "\<not> ring_empty pi \<Longrightarrow> ring_get pi = (y, pi') \<Longrightarrow> pipe_inv pi' \<and> contents pi = y # contents pi'"
    using ring_get_spec [OF inv] by blast
qed

section \<open>The system calls on the queue\<close>

lemma copyin_length:
  "copyin kend curpt cursz pt va len k = Inr (bs, ok, k') \<Longrightarrow> length bs \<le> len \<and> (ok \<longrightarrow> length bs = len)"
proof (induction kend curpt cursz pt va len k arbitrary: bs ok k' rule: copyin.induct)
  case (1 kend curpt cursz pt va len k)
  show ?case
  proof (cases "len = 0")
    case True
    then show ?thesis using "1.prems" by (subst (asm) copyin.simps) simp
  next
    case False
    let ?n = "min (4096 - unat (va - PGROUNDDOWN va)) len"
    from False "1.prems" obtain pa k1 where u: "user_page kend curpt cursz pt (PGROUNDDOWN va) k = Inr (pa, k1)"
      and r: "(if pa = 0 then Inr ([], False, k1)
        else bind_result (copyin kend curpt cursz pt (PGROUNDDOWN va + PGSIZE) (len - ?n) k1) (\<lambda>(cs, ok, k').
               Inr (load_bytes (pmem k1) (pa + (va - PGROUNDDOWN va)) ?n @ cs, ok, k'))) = Inr (bs, ok, k')"
      by (simp only: copyin.simps [of kend curpt cursz pt va len k]) (auto simp: Let_def bind_result_Inr_iff cong: if_cong)
    show ?thesis
    proof (cases "pa = 0")
      case True
      then show ?thesis using r by simp
    next
      case False
      with r obtain cs where c: "copyin kend curpt cursz pt (PGROUNDDOWN va + PGSIZE) (len - ?n) k1 = Inr (cs, ok, k')"
        "bs = load_bytes (pmem k1) (pa + (va - PGROUNDDOWN va)) ?n @ cs"
        by (auto simp: bind_result_Inr_iff)
      have "length cs \<le> len - ?n \<and> (ok \<longrightarrow> length cs = len - ?n)"
        using "1.IH" [OF \<open>len \<noteq> 0\<close> refl False refl c(1)] by simp
      then show ?thesis by (auto simp: c(2))
    qed
  qed
qed

text \<open>\<open>fetched p addr i bs k k'\<close>: \<open>bs\<close> are the bytes of user memory from \<open>addr + i\<close> on.\<close>

inductive fetched :: "uproc \<Rightarrow> u64 \<Rightarrow> int \<Rightarrow> u8 list \<Rightarrow> kmem \<Rightarrow> kmem \<Rightarrow> bool" for p addr where
  fetched_none: "fetched p addr i [] k k"
| fetched_more: "copyin (ukend p) (upt p) (usz p) (upt p) (addr + of_int i) 1 k = Inr ([b], True, k1) \<Longrightarrow>
    fetched p addr (i + 1) bs k1 k2 \<Longrightarrow> fetched p addr i (b # bs) k k2"

lemma pipewrite_loop_spec:
  assumes "pipe_inv pi" "pipewrite_loop p addr i n pi k = Inr (out, w, pi', k')"
  shows "pipe_inv pi' \<and> nread pi' = nread pi \<and> readopen pi' = readopen pi \<and> writeopen pi' = writeopen pi \<and>
    (\<exists>bs k1. fetched p addr i bs k k1 \<and> contents pi' = contents pi @ bs \<and> length bs \<le> n \<and>
      (case out of
         Returns r \<Rightarrow> (r = i + int (length bs) \<and> w = [Chan_nread]) \<or> (r = -1 \<and> (\<not> readopen pi \<or> ukilled p))
       | Sleeps j \<Rightarrow> j = i + int (length bs) \<and> length bs < n \<and> ring_full pi' \<and> w = [Chan_nread]))"
  using assms
proof (induction n arbitrary: i pi k)
  case 0
  then show ?case by (auto intro!: exI [of _ k'] intro: fetched_none)
next
  case (Suc n)
  show ?case
  proof (cases "\<not> readopen pi \<or> ukilled p \<or> ring_full pi")
    case True
    then show ?thesis using Suc.prems
      by (auto simp: ring_full_def split: if_splits intro!: exI [of _ k] intro: fetched_none)
  next
    case False
    with Suc.prems obtain bs ok k1 where c:
      "copyin (ukend p) (upt p) (usz p) (upt p) (addr + of_int i) 1 k = Inr (bs, ok, k1)"
      by (auto simp: ring_full_def bind_result_Inr_iff)
    show ?thesis
    proof (cases ok)
      case False
      then have "out = Returns i" "w = [Chan_nread]" "pi' = pi"
        using \<open>\<not> (\<not> readopen pi \<or> ukilled p \<or> ring_full pi)\<close> Suc.prems c by (auto simp: ring_full_def)
      then show ?thesis using Suc.prems by (auto intro!: exI [of _ k] intro: fetched_none)
    next
      case True
      then obtain b where b: "bs = [b]" using copyin_length [OF c] by (cases bs) auto
      have nf: "\<not> ring_full pi" using False by simp
      note put = ring_put_spec [OF Suc.prems(1) nf, of b]
      have "pipewrite_loop p addr (i + 1) n (ring_put b pi) k1 = Inr (out, w, pi', k')"
        using False Suc.prems c True b by (simp add: ring_full_def)
      note IH = Suc.IH [OF put(1) this, unfolded put(2) ring_put_simps append_assoc append_Cons append_Nil]
      from IH obtain cs k2 where
        r: "pipe_inv pi'" "nread pi' = nread pi" "readopen pi' = readopen pi" "writeopen pi' = writeopen pi"
        and cs: "fetched p addr (i + 1) cs k1 k2" "contents pi' = contents pi @ b # cs" "length cs \<le> n"
        "case out of
         Returns r \<Rightarrow> (r = i + 1 + int (length cs) \<and> w = [Chan_nread]) \<or> (r = -1 \<and> (\<not> readopen pi \<or> ukilled p))
       | Sleeps j \<Rightarrow> j = i + 1 + int (length cs) \<and> length cs < n \<and> ring_full pi' \<and> w = [Chan_nread]"
        by blast
      have "fetched p addr i (b # cs) k k2"
        by (rule fetched_more [OF _ cs(1)]) (use c True b in simp)
      then show ?thesis using r cs(2-4) by (intro conjI exI [of _ "b # cs"] exI [of _ k2]) (auto split: outcome.splits)
    qed
  qed
qed

text \<open>\<open>delivered p addr i bs k k'\<close>: the bytes \<open>bs\<close> have been stored in user memory from \<open>addr + i\<close> on.\<close>

inductive delivered :: "uproc \<Rightarrow> u64 \<Rightarrow> int \<Rightarrow> u8 list \<Rightarrow> kmem \<Rightarrow> kmem \<Rightarrow> bool" for p addr where
  delivered_none: "delivered p addr i [] k k"
| delivered_more: "copyout (ukend p) (upt p) (usz p) (upt p) (addr + of_int i) [b] k = Inr (True, k1) \<Longrightarrow>
    delivered p addr (i + 1) bs k1 k2 \<Longrightarrow> delivered p addr i (b # bs) k k2"

inductive_simps delivered_simps [simp]: "delivered p addr i [] k k'" "delivered p addr i (b # bs) k k'"

text \<open>What a successful \<open>copyout\<close> of one byte does to memory.\<close>

lemma walk_no_alloc: "walk pt va False k = Inr (pte, k') \<Longrightarrow> k' = k"
proof -
  have "snd (walk_loop l q va False k) = k" for l q by (induction l arbitrary: q) (simp_all add: Let_def)
  from this [of 2 pt] show "walk pt va False k = Inr (pte, k') \<Longrightarrow> k' = k" by (auto simp: walk_def split: if_splits)
qed

lemma copyout_byte:
  assumes "copyout kend curpt cursz pt va [b] k = Inr (True, k')"
  obtains pa k1 where "user_page kend curpt cursz pt (PGROUNDDOWN va) k = Inr (pa, k1)" "pa \<noteq> 0"
    "pmem k' = (pmem k1)(pa + (va - PGROUNDDOWN va) := b)"
proof -
  have n: "min (4096 - unat (va - PGROUNDDOWN va)) (length [b]) = 1" by (simp add: page_offset Suc_leI)
  let ?va = "PGROUNDDOWN va"
  obtain pa k1 pte k2 where u: "user_page kend curpt cursz pt ?va k = Inr (pa, k1)" "pa \<noteq> 0" and w: "walk pt ?va False k1 = Inr (pte, k2)"
    and r0: "copyout kend curpt cursz pt (?va + PGSIZE) (drop 1 [b]) (k2\<lparr>pmem := store_bytes (pmem k2) (pa + (va - ?va)) (take 1 [b])\<rparr>) = Inr (True, k')"
    using assms by (simp only: copyout.simps [of kend curpt cursz pt va "[b]" k] n Let_def) (auto simp: bind_result_Inr_iff split: if_splits)
  note r = r0 [unfolded walk_no_alloc [OF w]]
  have "pmem k' = (pmem k1)(pa + (va - PGROUNDDOWN va) := b)" using r by (subst (asm) copyout.simps) auto
  then show thesis using that u by blast
qed

lemma piperead_copy_spec:
  assumes "pipe_inv pi" "piperead_copy p addr i n pi k = Inr (r, pi', k')"
  shows "pipe_inv pi' \<and> nwrite pi' = nwrite pi \<and> writeopen pi' = writeopen pi \<and>
    (\<exists>bs k1. delivered p addr i bs k k1 \<and> r = i + int (length bs) \<and> length bs \<le> n \<and>
      (contents pi = bs @ contents pi' \<and> k' = k1 \<and> (length bs = n \<or> contents pi' = []) \<or>
       (\<exists>ch. contents pi = bs @ ch # contents pi' \<and> length bs < n \<and>
         copyout (ukend p) (upt p) (usz p) (upt p) (addr + of_int r) [ch] k1 = Inr (False, k'))))"
  using assms
proof (induction n arbitrary: i pi k)
  case (Suc n)
  show ?case
  proof (cases "ring_empty pi")
    case True
    then have "contents pi = []" using pq.empty_iff [OF Suc.prems(1)] by simp
    then show ?thesis using Suc.prems True by (auto simp: ring_empty_def)
  next
    case False
    obtain ch pi1 where g: "ring_get pi = (ch, pi1)" by (cases "ring_get pi")
    note get = ring_get_spec [OF Suc.prems(1) False g]
    have same: "nwrite pi1 = nwrite pi" "writeopen pi1 = writeopen pi" using g by (auto simp: ring_get_def)
    obtain ok k1 where c: "copyout (ukend p) (upt p) (usz p) (upt p) (addr + of_int i) [ch] k = Inr (ok, k1)"
      using Suc.prems False g by (auto simp: ring_empty_def bind_result_Inr_iff)
    show ?thesis
    proof (cases ok)
      case False
      then have "r = i" "pi' = pi1" "k' = k1" using Suc.prems \<open>\<not> ring_empty pi\<close> g c by (auto simp: ring_empty_def)
      then show ?thesis using get same c False by (intro conjI exI [of _ "[]"] exI [of _ k]) auto
    next
      case True
      then have "piperead_copy p addr (i + 1) n pi1 k1 = Inr (r, pi', k')"
        using Suc.prems \<open>\<not> ring_empty pi\<close> g c by (simp add: ring_empty_def)
      from Suc.IH [OF get(1) this] obtain bs k2 where
        r: "pipe_inv pi'" "nwrite pi' = nwrite pi" "writeopen pi' = writeopen pi"
        and bs: "delivered p addr (i + 1) bs k1 k2" "r = i + 1 + int (length bs)" "length bs \<le> n"
        "contents pi1 = bs @ contents pi' \<and> k' = k2 \<and> (length bs = n \<or> contents pi' = []) \<or>
         (\<exists>ch. contents pi1 = bs @ ch # contents pi' \<and> length bs < n \<and>
           copyout (ukend p) (upt p) (usz p) (upt p) (addr + of_int r) [ch] k2 = Inr (False, k'))"
        using same by auto
      have "delivered p addr i (ch # bs) k k2" using delivered_more [OF _ bs(1)] c True by simp
      then show ?thesis using r bs(2-4) get(2) by (intro conjI exI [of _ "ch # bs"] exI [of _ k2]) auto
    qed
  qed
qed (auto intro!: exI [of _ "[]"])

section \<open>Properties\<close>

text \<open>C15: \<open>pipewrite\<close>, run from any point of its loop, appends to the queue exactly the bytes it
  fetched from the caller's memory, in order, and never overfills the buffer. It returns the
  number of bytes written so far, or -1 when the read end is closed or the caller was killed, and
  it goes to sleep only when the buffer is full, after waking the readers.\<close>

theorem pipewrite_appends:
  assumes "pipe_inv pi" "pipewrite_loop p addr i n pi k = Inr (out, w, pi', k')"
  shows "pipe_inv pi' \<and> (\<exists>bs k1. fetched p addr i bs k k1 \<and> contents pi' = contents pi @ bs \<and>
      length (contents pi') \<le> 512 \<and> length bs \<le> n \<and>
      (case out of
         Returns r \<Rightarrow> (r = i + int (length bs) \<and> w = [Chan_nread]) \<or> (r = -1 \<and> (\<not> readopen pi \<or> ukilled p))
       | Sleeps j \<Rightarrow> j = i + int (length bs) \<and> length bs < n \<and> length (contents pi') = 512 \<and> w = [Chan_nread]))"
proof -
  from pipewrite_loop_spec [OF assms] obtain bs k1 where
    "pipe_inv pi'" "fetched p addr i bs k k1" "contents pi' = contents pi @ bs" "length bs \<le> n"
    "case out of
         Returns r \<Rightarrow> (r = i + int (length bs) \<and> w = [Chan_nread]) \<or> (r = -1 \<and> (\<not> readopen pi \<or> ukilled p))
       | Sleeps j \<Rightarrow> j = i + int (length bs) \<and> length bs < n \<and> ring_full pi' \<and> w = [Chan_nread]" by blast
  moreover from this have "length (contents pi') \<le> 512" "ring_full pi' \<longleftrightarrow> length (contents pi') = 512"
    using pq.items_bound ring_full_iff by blast+
  ultimately show ?thesis by (intro conjI exI [of _ bs] exI [of _ k1]) (auto split: outcome.splits)
qed

definition proc_ex :: uproc where
  "proc_ex = \<lparr>ukend = 0x80000800, upt = 0x80002000, usz = 0, ukilled = False\<rparr>"

lemma new_pipe_inv: "length d = 512 \<Longrightarrow> pipe_inv (new_pipe d) \<and> contents (new_pipe d) = []"
  by (simp add: pipe_inv_def contents_def new_pipe_def)

text \<open>A process with one page, at address 0.\<close>

definition user_mem_ex :: kmem where
  "user_mem_ex = \<lparr>freelist = 0, pmem = store64 (store64 (store64 (\<lambda>_. 9) 0x80002000 (PA2PTE 0x80003000 OR PTE_V))
     0x80003000 (PA2PTE 0x80004000 OR PTE_V)) 0x80004000 (PA2PTE 0x80005000 OR PTE_V OR PTE_R OR PTE_W OR PTE_U)\<rparr>"

definition user_proc_ex :: uproc where
  "user_proc_ex = \<lparr>ukend = 0x80000800, upt = 0x80002000, usz = 4096, ukilled = False\<rparr>"

lemma user_mem_ex_load:
  "load64 (pmem user_mem_ex) 0x80002000 = 0x20000C01" "load64 (pmem user_mem_ex) 0x80003000 = 0x20001001"
  "load64 (pmem user_mem_ex) 0x80004000 = 0x20001417"
  by (simp_all add: user_mem_ex_def load64_store64_other aligned_def PA2PTE_def PTE_V_def PTE_R_def PTE_W_def PTE_U_def)

lemma user_mem_ex_walk: "walk_loop 2 0x80002000 0 False user_mem_ex = (0x80004000, user_mem_ex)"
proof -
  have "walk_loop (Suc (Suc 0)) 0x80002000 0 False user_mem_ex = (0x80004000, user_mem_ex)"
    by (simp add: pte_addr_def PX_def PGSHIFT_def PTE2PA_def user_mem_ex_load PTE_V_def Let_def)
  then show ?thesis by (simp only: numeral_2_eq_2)
qed

lemma user_mem_ex_page:
  "walkaddr 0x80002000 0 user_mem_ex = 0x80005000" "walk 0x80002000 0 False user_mem_ex = Inr (0x80004000, user_mem_ex)"
  by (simp_all add: walkaddr_def walk_def user_mem_ex_walk user_mem_ex_load PTE_V_def PTE_U_def PTE2PA_def MAXVA_def Let_def)

lemma page_0: "PGROUNDDOWN 0 = 0" "MAXVA \<noteq> 0"
  by (simp_all add: PGROUNDDOWN_def MAXVA_def)

lemma copyin_ex: "copyin 0x80000800 0x80002000 4096 0x80002000 0 1 user_mem_ex = Inr ([pmem user_mem_ex 0x80005000], True, user_mem_ex)"
  by (simp add: copyin.simps [of _ _ _ _ _ "Suc 0"] copyin.simps [of _ _ _ _ _ 0] user_page_def user_mem_ex_page page_0 Let_def load_bytes_def)

lemma copyout_ex: "copyout 0x80000800 0x80002000 4096 0x80002000 0 [b] user_mem_ex =
    Inr (True, user_mem_ex\<lparr>pmem := (pmem user_mem_ex)(0x80005000 := b)\<rparr>)"
  by (simp add: copyout.simps [of _ _ _ _ _ "[b]"] copyout.simps [of _ _ _ _ _ "[]"] user_page_def user_mem_ex_page page_0
      user_mem_ex_load PTE_W_def Let_def)

theorem pipewrite_appends_witness:
  "\<exists>pi'. pipewrite_loop user_proc_ex 0 0 1 (new_pipe (replicate 512 0)) user_mem_ex = Inr (Returns 1, [Chan_nread], pi', user_mem_ex) \<and>
    contents pi' = [pmem user_mem_ex 0x80005000]"
proof -
  let ?p = "new_pipe (replicate 512 0)" and ?b = "pmem user_mem_ex 0x80005000"
  have w: "pipewrite_loop user_proc_ex 0 0 (Suc 0) ?p user_mem_ex = Inr (Returns 1, [Chan_nread], ring_put ?b ?p, user_mem_ex)"
    using copyin_ex by (simp add: user_proc_ex_def new_pipe_def PIPESIZE_def)
  obtain bs k1 where bs: "fetched user_proc_ex 0 0 bs user_mem_ex k1" "contents (ring_put ?b ?p) = bs" "length bs = 1"
    using pipewrite_appends [OF _ w] new_pipe_inv [of "replicate 512 0"] by auto
  then obtain c where c: "bs = [c]" by (auto simp: length_Suc_conv)
  have "c = ?b" using bs(1) copyin_ex unfolding c by (cases rule: fetched.cases) (auto simp: user_proc_ex_def)
  then show ?thesis using w bs c by simp
qed

text \<open>C16: \<open>piperead\<close> takes bytes off the front of the queue in order, leaves the rest, and stores exactly the bytes that it took, in
  order, at the reader's addresses from \<open>addr\<close> on, each by a successful \<open>copyout\<close>; the value returned is their number. It sleeps only on an
  empty pipe whose write end is open, and returns -1 only there, for a killed process; both change nothing. Otherwise it wakes
  the writers and delivers all that was asked for unless the queue ran empty or a \<open>copyout\<close> failed; a failed \<open>copyout\<close> loses
  just the byte that it was to store. So it returns 0 on a non-zero request only at the end of file or when the first byte cannot be stored.\<close>

theorem piperead_takes:
  assumes "pipe_inv pi" "piperead p addr n pi k = Inr (out, w, pi', k')"
  shows "pipe_inv pi' \<and>
    (case out of
       Sleeps j \<Rightarrow> contents pi = [] \<and> writeopen pi \<and> \<not> ukilled p \<and> pi' = pi \<and> k' = k
     | Returns r \<Rightarrow> (r = -1 \<and> ukilled p \<and> contents pi = [] \<and> writeopen pi \<and> pi' = pi \<and> k' = k) \<or>
         ((contents pi \<noteq> [] \<or> \<not> writeopen pi) \<and> w = [Chan_nwrite] \<and>
          (\<exists>bs k1. delivered p addr 0 bs k k1 \<and> r = int (length bs) \<and> length bs \<le> nat n \<and>
          (contents pi = bs @ contents pi' \<and> k' = k1 \<and> (length bs = nat n \<or> contents pi' = []) \<or>
           (\<exists>ch. contents pi = bs @ ch # contents pi' \<and> length bs < nat n \<and>
             copyout (ukend p) (upt p) (usz p) (upt p) (addr + of_int r) [ch] k1 = Inr (False, k'))))))"
proof (cases "nread pi = nwrite pi \<and> writeopen pi")
  case True
  moreover from this have "contents pi = []" using pq.empty_iff [OF assms(1)] by (simp add: ring_empty_def)
  ultimately show ?thesis using assms by (auto simp: piperead_def split: if_splits)
next
  case False
  then obtain r where r: "piperead_copy p addr 0 (nat n) pi k = Inr (r, pi', k')" "out = Returns r" "w = [Chan_nwrite]"
    using assms(2) by (auto simp: piperead_def bind_result_Inr_iff)
  moreover have "contents pi \<noteq> [] \<or> \<not> writeopen pi"
    using False pq.empty_iff [OF assms(1)] by (auto simp: ring_empty_def)
  ultimately show ?thesis using piperead_copy_spec [OF assms(1) r(1)] by simp
qed

text \<open>A pipe with one byte: it reaches the page of the reader.\<close>

theorem piperead_takes_witness:
  "\<exists>pi' k'. piperead user_proc_ex 0 3 (ring_put 7 (new_pipe (replicate 512 0))) user_mem_ex = Inr (Returns 1, [Chan_nwrite], pi', k') \<and>
    contents pi' = [] \<and> delivered user_proc_ex 0 0 [7] user_mem_ex k' \<and> pmem k' 0x80005000 = 7"
proof -
  let ?p = "ring_put 7 (new_pipe (replicate 512 0))" and ?k = "user_mem_ex\<lparr>pmem := (pmem user_mem_ex)(0x80005000 := 7)\<rparr>"
  have inv: "pipe_inv ?p" "contents ?p = [7]"
    using ring_put_spec [of "new_pipe (replicate 512 0)" 7] new_pipe_inv [of "replicate 512 0"] ring_full_iff [of "new_pipe (replicate 512 0)"] by simp_all
  have "ring_get ?p = (7, ?p\<lparr>nread := 1\<rparr>)" by (simp add: ring_get_def ring_put_def new_pipe_def PIPESIZE_def)
  then have "piperead_copy user_proc_ex 0 0 (Suc (Suc (Suc 0))) ?p user_mem_ex = Inr (1, ?p\<lparr>nread := 1\<rparr>, ?k)"
    using copyout_ex by (simp add: user_proc_ex_def ring_put_def new_pipe_def)
  then have r: "piperead user_proc_ex 0 3 ?p user_mem_ex = Inr (Returns 1, [Chan_nwrite], ?p\<lparr>nread := 1\<rparr>, ?k)"
    by (simp add: piperead_def numeral_3_eq_3) (simp add: ring_put_def new_pipe_def)
  from piperead_takes [OF inv(1) r] obtain bs k1 where bs: "delivered user_proc_ex 0 0 bs user_mem_ex k1" "length bs = 1"
    "[7] = bs @ contents (?p\<lparr>nread := 1\<rparr>) \<and> ?k = k1 \<or> (\<exists>ch. [7] = bs @ ch # contents (?p\<lparr>nread := 1\<rparr>))"
    using inv(2) by auto
  then have "bs = [7]" "contents (?p\<lparr>nread := 1\<rparr>) = []" "?k = k1" by (auto simp: Cons_eq_append_conv)
  then show ?thesis using r bs(1) by auto
qed

end
