(* ===== verification/Fs.thy ===== *)
theory Fs
  imports Log Pipe
begin

text \<open>
  \<^verbatim>\<open>kernel/fs.c\<close>: superblock, free map, inodes, file contents, directories and path names, on top
  of the log and the buffer cache. An in-memory inode is named by its index in \<open>itable\<close>; the disk
  inode is read and written at its byte offset in the inode block. Every operation is a function
  of the file-system state that also carries the running process and physical memory, because
  \<open>readi\<close> and \<open>writei\<close> copy to and from user space. \<open>printf\<close> is dropped.
\<close>

section \<open>State\<close>

record superblock =
  magic :: u32
  fssize :: u32
  nblocks :: u32
  ninodes :: u32
  nlog :: u32
  logstart :: u32
  inodestart :: u32
  bmapstart :: u32

record inode =
  idev :: u32
  inum :: u32
  iref :: int
  ilk :: sleeplock
  ivalid :: bool
  itype :: u16
  imajor :: u16
  iminor :: u16
  inlink :: u16
  isize :: u32
  iaddrs :: "u32 list"

record fs =
  flog :: lstate
  itab :: "nat \<Rightarrow> inode"
  sb :: superblock
  fmem :: kmem
  fpid :: cint
  fproc :: uproc
  fcwd :: nat

definition FSMAGIC :: u32 where "FSMAGIC = 0x10203040"
definition ROOTINO :: u32 where "ROOTINO = 1"
definition NDIRECT :: nat where "NDIRECT = 12"
definition NINDIRECT :: nat where "NINDIRECT = 256"
definition MAXFILE :: nat where "MAXFILE = NDIRECT + NINDIRECT"
definition IPB :: u32 where "IPB = 16"
definition BPB :: u32 where "BPB = 8192"
definition DIRSIZ :: nat where "DIRSIZ = 14"
definition T_DIR :: u16 where "T_DIR = 1"
definition T_FILE :: u16 where "T_FILE = 2"
definition T_DEVICE :: u16 where "T_DEVICE = 3"

lemmas fs_const [xv6_const] = NDIRECT_def NINDIRECT_def MAXFILE_def IPB_def BPB_def DIRSIZ_def

definition IBLOCK :: "u32 \<Rightarrow> superblock \<Rightarrow> u32" where "IBLOCK i s = i div IPB + inodestart s"
definition BBLOCK :: "u32 \<Rightarrow> superblock \<Rightarrow> u32" where "BBLOCK b s = b div BPB + bmapstart s"

section \<open>Sequencing\<close>

type_synonym 'a fsm = "fs \<Rightarrow> ('a \<times> fs) result"

definition ret :: "'a \<Rightarrow> 's \<Rightarrow> ('a \<times> 's) result" where "ret x s = Inr (x, s)"
definition fail :: "error \<Rightarrow> 's \<Rightarrow> ('a \<times> 's) result" where "fail e s = Inl e"

definition seq :: "('s \<Rightarrow> ('a \<times> 's) result) \<Rightarrow> ('a \<Rightarrow> 's \<Rightarrow> ('b \<times> 's) result) \<Rightarrow> 's \<Rightarrow> ('b \<times> 's) result" where
  "seq m f s = bind_result (m s) (\<lambda>(x, s). f x s)"

definition on_cache :: "(bstate \<Rightarrow> ('a \<times> bstate) result) \<Rightarrow> 'a fsm" where
  "on_cache f s =
     bind_result (f (cache (flog s))) (\<lambda>(x, c). Inr (x, s\<lparr>flog := (flog s)\<lparr>cache := c\<rparr>\<rparr>))"

definition on_log :: "(lstate \<Rightarrow> lstate result) \<Rightarrow> unit fsm" where
  "on_log f s = bind_result (f (flog s)) (\<lambda>l. Inr ((), s\<lparr>flog := l\<rparr>))"

definition get_buf :: "u32 \<Rightarrow> u32 \<Rightarrow> nat fsm" where
  "get_buf dev b s = on_cache (bread (fpid s) dev b) s"

definition buf_data :: "nat \<Rightarrow> fs \<Rightarrow> block" where
  "buf_data bp s = bdata (bufs (cache (flog s)) bp)"

definition put_data :: "nat \<Rightarrow> block \<Rightarrow> unit fsm" where
  "put_data bp d = on_cache (\<lambda>c. Inr ((), set_data bp d c))"

definition log_buf :: "nat \<Rightarrow> unit fsm" where
  "log_buf bp = on_log (log_write bp)"

definition rel_buf :: "nat \<Rightarrow> unit fsm" where
  "rel_buf bp s = on_cache (\<lambda>c. bind_result (brelse (fpid s) bp c) (\<lambda>c. Inr ((), c))) s"

definition set_inode :: "nat \<Rightarrow> inode \<Rightarrow> fs \<Rightarrow> fs" where
  "set_inode ip x s = s\<lparr>itab := (itab s)(ip := x)\<rparr>"

section \<open>Blocks\<close>

definition readsb :: "u32 \<Rightarrow> unit fsm" where
  "readsb dev =
     seq (get_buf dev 1) (\<lambda>bp s.
       let d = buf_data bp s;
           s = s\<lparr>sb := \<lparr>magic = get32 d 0, fssize = get32 d 4, nblocks = get32 d 8, ninodes = get32 d 12,
             nlog = get32 d 16, logstart = get32 d 20, inodestart = get32 d 24, bmapstart = get32 d 28\<rparr>\<rparr>
       in rel_buf bp s)"

definition bzero :: "u32 \<Rightarrow> u32 \<Rightarrow> unit fsm" where
  "bzero dev bno =
     seq (get_buf dev bno) (\<lambda>bp.
     seq (put_data bp (replicate BSIZE 0)) (\<lambda>_.
     seq (log_buf bp) (\<lambda>_. rel_buf bp)))"

text \<open>\<open>m = 1 << (bi % 8)\<close>, and the first clear bit among \<open>n\<close> bits from bit \<open>bi\<close> on.\<close>

definition bit_mask :: "nat \<Rightarrow> u8" where
  "bit_mask bi = push_bit (bi mod 8) 1"

fun find_free :: "block \<Rightarrow> nat \<Rightarrow> nat \<Rightarrow> nat option" where
  "find_free d bi 0 = None"
| "find_free d bi (Suc n) = (if d ! (bi div 8) AND bit_mask bi = 0 then Some bi else find_free d (Suc bi) n)"

text \<open>The outer loop of \<open>balloc\<close>: \<open>n\<close> blocks of the free map left, the next one for block \<open>b\<close>.\<close>

fun balloc_loop :: "u32 \<Rightarrow> nat \<Rightarrow> nat \<Rightarrow> u32 fsm" where
  "balloc_loop dev b 0 = ret 0"
| "balloc_loop dev b (Suc n) =
     seq (\<lambda>s. get_buf dev (BBLOCK (of_nat b) (sb s)) s) (\<lambda>bp s.
       case find_free (buf_data bp s) 0 (min (unat BPB) (unat (fssize (sb s)) - b)) of
         Some bi \<Rightarrow>
           (let d = buf_data bp s; d = d[bi div 8 := d ! (bi div 8) OR bit_mask bi]
            in seq (put_data bp d) (\<lambda>_.
               seq (log_buf bp) (\<lambda>_.
               seq (rel_buf bp) (\<lambda>_.
               seq (bzero dev (of_nat (b + bi))) (\<lambda>_. ret (of_nat (b + bi)))))) s)
       | None \<Rightarrow> seq (rel_buf bp) (\<lambda>_. balloc_loop dev (b + unat BPB) n) s)"

definition balloc :: "u32 \<Rightarrow> u32 fsm" where
  "balloc dev s = balloc_loop dev 0 ((unat (fssize (sb s)) + unat BPB - 1) div unat BPB) s"

definition bfree :: "u32 \<Rightarrow> u32 \<Rightarrow> unit fsm" where
  "bfree dev b =
     seq (\<lambda>s. get_buf dev (BBLOCK b (sb s)) s) (\<lambda>bp s.
       let d = buf_data bp s; bi = unat (b mod BPB); m = bit_mask bi
       in if d ! (bi div 8) AND m = 0 then Inl (Panic ''freeing free block'')
          else seq (put_data bp (d[bi div 8 := d ! (bi div 8) AND NOT m])) (\<lambda>_.
               seq (log_buf bp) (\<lambda>_. rel_buf bp)) s)"

section \<open>Inodes\<close>

definition get16 :: "u8 list \<Rightarrow> nat \<Rightarrow> u16" where
  "get16 d off = of_le_bytes (take 2 (drop off d))"

definition put16 :: "u8 list \<Rightarrow> nat \<Rightarrow> u16 \<Rightarrow> u8 list" where
  "put16 d off v = take off d @ le_bytes 2 v @ drop (off + 2) d"

text \<open>Byte offset of a disk inode in its block: \<open>(struct dinode*)bp->data + inum%IPB\<close>.\<close>

definition dip_off :: "u32 \<Rightarrow> nat" where "dip_off i = 64 * unat (i mod IPB)"

definition get_addrs :: "block \<Rightarrow> nat \<Rightarrow> u32 list" where
  "get_addrs d off = map (\<lambda>j. get32 d (off + 12 + 4 * j)) [0..<NDIRECT + 1]"

fun put_addrs :: "u32 list \<Rightarrow> nat \<Rightarrow> block \<Rightarrow> block" where
  "put_addrs [] off d = d"
| "put_addrs (a # as) off d = put_addrs as (off + 4) (put32 d off a)"

definition iinit :: "fs \<Rightarrow> fs" where
  "iinit s = s\<lparr>itab := (\<lambda>i. if i < NINODE then (itab s i)\<lparr>ilk := initsleeplock\<rparr> else itab s i)\<rparr>"

text \<open>The scan of \<open>iget\<close>: an entry of the inode, or the first empty slot.\<close>

fun iget_scan :: "(nat \<Rightarrow> inode) \<Rightarrow> u32 \<Rightarrow> u32 \<Rightarrow> nat option \<Rightarrow> nat \<Rightarrow> nat \<Rightarrow> nat option \<times> nat option" where
  "iget_scan t dev ino e i 0 = (None, e)"
| "iget_scan t dev ino e i (Suc n) =
     (if iref (t i) > 0 \<and> idev (t i) = dev \<and> inum (t i) = ino then (Some i, e)
      else iget_scan t dev ino (if e = None \<and> iref (t i) = 0 then Some i else e) (Suc i) n)"

definition iget :: "u32 \<Rightarrow> u32 \<Rightarrow> nat fsm" where
  "iget dev ino s =
     (case iget_scan (itab s) dev ino None 0 NINODE of
        (Some i, _) \<Rightarrow> Inr (i, set_inode i ((itab s i)\<lparr>iref := iref (itab s i) + 1\<rparr>) s)
      | (None, Some i) \<Rightarrow>
          Inr (i, set_inode i ((itab s i)\<lparr>idev := dev, inum := ino, iref := 1, ivalid := False\<rparr>) s)
      | (None, None) \<Rightarrow> Inl (Panic ''iget: no inodes''))"

definition idup :: "nat \<Rightarrow> nat fsm" where
  "idup ip s = Inr (ip, set_inode ip ((itab s ip)\<lparr>iref := iref (itab s ip) + 1\<rparr>) s)"

text \<open>The loop of \<open>ialloc\<close> over \<open>n\<close> inodes from \<open>i\<close> on; the result \<open>None\<close> is the null pointer.\<close>

fun ialloc_loop :: "u32 \<Rightarrow> u16 \<Rightarrow> u32 \<Rightarrow> nat \<Rightarrow> nat option fsm" where
  "ialloc_loop dev ty i 0 = ret None"
| "ialloc_loop dev ty i (Suc n) =
     seq (\<lambda>s. get_buf dev (IBLOCK i (sb s)) s) (\<lambda>bp s.
       let d = buf_data bp s; off = dip_off i
       in if get16 d off = 0
          then seq (put_data bp (put16 (take off d @ replicate 64 0 @ drop (off + 64) d) off ty)) (\<lambda>_.
               seq (log_buf bp) (\<lambda>_.
               seq (rel_buf bp) (\<lambda>_.
               seq (iget dev i) (\<lambda>ip. ret (Some ip))))) s
          else seq (rel_buf bp) (\<lambda>_. ialloc_loop dev ty (i + 1) n) s)"

definition ialloc :: "u32 \<Rightarrow> u16 \<Rightarrow> nat option fsm" where
  "ialloc dev ty s = ialloc_loop dev ty 1 (unat (ninodes (sb s)) - 1) s"

text \<open>The disk inode that \<open>iupdate\<close> stores, and the in-memory copy that \<open>ilock\<close> makes.\<close>

definition put_dinode :: "inode \<Rightarrow> nat \<Rightarrow> block \<Rightarrow> block" where
  "put_dinode x off d =
     (let d = put16 d off (itype x); d = put16 d (off + 2) (imajor x); d = put16 d (off + 4) (iminor x);
          d = put16 d (off + 6) (inlink x); d = put32 d (off + 8) (isize x)
      in put_addrs (iaddrs x) (off + 12) d)"

definition get_dinode :: "block \<Rightarrow> nat \<Rightarrow> inode \<Rightarrow> inode" where
  "get_dinode d off x = x\<lparr>itype := get16 d off, imajor := get16 d (off + 2), iminor := get16 d (off + 4),
     inlink := get16 d (off + 6), isize := get32 d (off + 8), iaddrs := get_addrs d off\<rparr>"

definition iupdate :: "nat \<Rightarrow> unit fsm" where
  "iupdate ip s =
     (let x = itab s ip
      in seq (get_buf (idev x) (IBLOCK (inum x) (sb s))) (\<lambda>bp s.
           seq (put_data bp (put_dinode x (dip_off (inum x)) (buf_data bp s))) (\<lambda>_.
           seq (log_buf bp) (\<lambda>_. rel_buf bp)) s) s)"

definition ilock :: "nat option \<Rightarrow> unit fsm" where
  "ilock ipo s =
     (case ipo of
        None \<Rightarrow> Inl (Panic ''ilock'')
      | Some ip \<Rightarrow>
          if iref (itab s ip) < 1 then Inl (Panic ''ilock'')
          else bind_result (acquiresleep (fpid s) (ilk (itab s ip))) (\<lambda>lk.
            let s = set_inode ip ((itab s ip)\<lparr>ilk := lk\<rparr>) s; x = itab s ip
            in if \<not> ivalid x
               then seq (get_buf (idev x) (IBLOCK (inum x) (sb s))) (\<lambda>bp s.
                      let s = set_inode ip (get_dinode (buf_data bp s) (dip_off (inum x)) x) s
                      in seq (rel_buf bp) (\<lambda>_ s.
                           let s = set_inode ip ((itab s ip)\<lparr>ivalid := True\<rparr>) s
                           in if itype (itab s ip) = 0 then Inl (Panic ''ilock: no type'') else Inr ((), s)) s) s
               else Inr ((), s)))"

definition iunlock :: "nat option \<Rightarrow> unit fsm" where
  "iunlock ipo s =
     (case ipo of
        None \<Rightarrow> Inl (Panic ''iunlock'')
      | Some ip \<Rightarrow>
          if \<not> holdingsleep (fpid s) (ilk (itab s ip)) \<or> iref (itab s ip) < 1 then Inl (Panic ''iunlock'')
          else Inr ((), set_inode ip ((itab s ip)\<lparr>ilk := releasesleep (ilk (itab s ip))\<rparr>) s))"

section \<open>Contents\<close>

text \<open>Block \<open>bn\<close> of the file, allocated if necessary; 0 when the disk is full.\<close>

definition bmap :: "nat \<Rightarrow> nat \<Rightarrow> u32 fsm" where
  "bmap ip bn s =
     (if bn < NDIRECT
      then if iaddrs (itab s ip) ! bn = 0
           then seq (balloc (idev (itab s ip))) (\<lambda>addr s.
                  if addr = 0 then Inr (0, s)
                  else Inr (addr, set_inode ip ((itab s ip)\<lparr>iaddrs := (iaddrs (itab s ip))[bn := addr]\<rparr>) s)) s
           else Inr (iaddrs (itab s ip) ! bn, s)
      else let bn = bn - NDIRECT
           in if bn < NINDIRECT
              then seq (\<lambda>s.
                     if iaddrs (itab s ip) ! NDIRECT = 0
                     then seq (balloc (idev (itab s ip))) (\<lambda>addr s.
                            if addr = 0 then Inr (0, s)
                            else Inr (addr, set_inode ip ((itab s ip)\<lparr>iaddrs := (iaddrs (itab s ip))[NDIRECT := addr]\<rparr>) s)) s
                     else Inr (iaddrs (itab s ip) ! NDIRECT, s)) (\<lambda>addr s.
                     if addr = 0 then Inr (0, s)
                     else seq (get_buf (idev (itab s ip)) addr) (\<lambda>bp s.
                            if get32 (buf_data bp s) (4 * bn) = 0
                            then seq (balloc (idev (itab s ip))) (\<lambda>addr s.
                                   seq (\<lambda>s. if addr \<noteq> 0
                                        then seq (put_data bp (put32 (buf_data bp s) (4 * bn) addr)) (\<lambda>_. log_buf bp) s
                                        else Inr ((), s)) (\<lambda>_.
                                   seq (rel_buf bp) (\<lambda>_. ret addr)) s) s
                            else seq (rel_buf bp) (\<lambda>_. ret (get32 (buf_data bp s) (4 * bn))) s) s) s
              else Inl (Panic ''bmap: out of range''))"

fun free_direct :: "nat \<Rightarrow> nat \<Rightarrow> nat \<Rightarrow> unit fsm" where
  "free_direct ip i 0 = ret ()"
| "free_direct ip i (Suc n) =
     seq (\<lambda>s. if iaddrs (itab s ip) ! i \<noteq> 0
          then seq (bfree (idev (itab s ip)) (iaddrs (itab s ip) ! i)) (\<lambda>_ s.
                 Inr ((), set_inode ip ((itab s ip)\<lparr>iaddrs := (iaddrs (itab s ip))[i := 0]\<rparr>) s)) s
          else Inr ((), s)) (\<lambda>_. free_direct ip (Suc i) n)"

fun free_indirect :: "u32 \<Rightarrow> nat \<Rightarrow> nat \<Rightarrow> nat \<Rightarrow> unit fsm" where
  "free_indirect dev bp j 0 = ret ()"
| "free_indirect dev bp j (Suc n) =
     seq (\<lambda>s. if get32 (buf_data bp s) (4 * j) \<noteq> 0 then bfree dev (get32 (buf_data bp s) (4 * j)) s else Inr ((), s))
       (\<lambda>_. free_indirect dev bp (Suc j) n)"

definition itrunc :: "nat \<Rightarrow> unit fsm" where
  "itrunc ip =
     seq (free_direct ip 0 NDIRECT) (\<lambda>_.
     seq (\<lambda>s.
       let a = iaddrs (itab s ip) ! NDIRECT; dev = idev (itab s ip)
       in if a \<noteq> 0
          then seq (get_buf dev a) (\<lambda>bp.
               seq (free_indirect dev bp 0 NINDIRECT) (\<lambda>_.
               seq (rel_buf bp) (\<lambda>_.
               seq (bfree dev a) (\<lambda>_ s.
                 Inr ((), set_inode ip ((itab s ip)\<lparr>iaddrs := (iaddrs (itab s ip))[NDIRECT := 0]\<rparr>) s))))) s
          else Inr ((), s)) (\<lambda>_ s.
     iupdate ip (set_inode ip ((itab s ip)\<lparr>isize := 0\<rparr>) s)))"

definition iput :: "nat \<Rightarrow> unit fsm" where
  "iput ip s =
     (let x = itab s ip
      in seq (\<lambda>s. if iref x = 1 \<and> ivalid x \<and> inlink x = 0
           then bind_result (acquiresleep (fpid s) (ilk x)) (\<lambda>lk.
                  seq (itrunc ip) (\<lambda>_ s.
                  seq (iupdate ip) (\<lambda>_ s.
                    let y = itab s ip
                    in Inr ((), set_inode ip (y\<lparr>ivalid := False, ilk := releasesleep (ilk y)\<rparr>) s))
                    (set_inode ip ((itab s ip)\<lparr>itype := 0\<rparr>) s))
                    (set_inode ip (x\<lparr>ilk := lk\<rparr>) s))
           else Inr ((), s)) (\<lambda>_ s.
         Inr ((), set_inode ip ((itab s ip)\<lparr>iref := iref (itab s ip) - 1\<rparr>) s)) s)"

definition iunlockput :: "nat \<Rightarrow> unit fsm" where
  "iunlockput ip = seq (iunlock (Some ip)) (\<lambda>_. iput ip)"

fun ireclaim_loop :: "u32 \<Rightarrow> u32 \<Rightarrow> nat \<Rightarrow> unit fsm" where
  "ireclaim_loop dev i 0 = ret ()"
| "ireclaim_loop dev i (Suc n) =
     seq (\<lambda>s. get_buf dev (IBLOCK i (sb s)) s) (\<lambda>bp s.
       let d = buf_data bp s; off = dip_off i
       in seq (\<lambda>s. if get16 d off \<noteq> 0 \<and> get16 d (off + 6) = 0
               then seq (iget dev i) (\<lambda>ip. ret (Some ip)) s else Inr (None, s)) (\<lambda>ipo.
          seq (rel_buf bp) (\<lambda>_.
          seq (case ipo of
                 None \<Rightarrow> ret ()
               | Some ip \<Rightarrow>
                   seq (on_log begin_op) (\<lambda>_.
                   seq (ilock (Some ip)) (\<lambda>_.
                   seq (iunlock (Some ip)) (\<lambda>_.
                   seq (iput ip) (\<lambda>_ s. on_log (end_op (fpid s)) s))))) (\<lambda>_.
          ireclaim_loop dev (i + 1) n))) s)"

definition ireclaim :: "u32 \<Rightarrow> unit fsm" where
  "ireclaim dev s = ireclaim_loop dev 1 (unat (ninodes (sb s)) - 1) s"

definition fsinit :: "u32 \<Rightarrow> unit fsm" where
  "fsinit dev =
     seq (readsb dev) (\<lambda>_ s.
       if magic (sb s) \<noteq> FSMAGIC then Inl (Panic ''invalid file system'')
       else seq (on_log (initlog (fpid s) dev (logstart (sb s)))) (\<lambda>_. ireclaim dev) s)"

record stat =
  st_dev :: u32
  st_ino :: u32
  st_type :: u16
  st_nlink :: u16
  st_size :: u64

definition stati :: "nat \<Rightarrow> fs \<Rightarrow> stat" where
  "stati ip s = \<lparr>st_dev = idev (itab s ip), st_ino = inum (itab s ip), st_type = itype (itab s ip),
     st_nlink = inlink (itab s ip), st_size = ucast (isize (itab s ip))\<rparr>"

text \<open>Where \<open>readi\<close> copies to and \<open>writei\<close> copies from: user memory, or a kernel object given as bytes.\<close>

datatype dest = User_dst u64 | Kern_dst
datatype source = User_src u64 | Kern_src "u8 list"

fun dest_advance :: "dest \<Rightarrow> nat \<Rightarrow> dest" where
  "dest_advance (User_dst va) m = User_dst (va + of_nat m)"
| "dest_advance Kern_dst m = Kern_dst"

fun source_advance :: "source \<Rightarrow> nat \<Rightarrow> source" where
  "source_advance (User_src va) m = User_src (va + of_nat m)"
| "source_advance (Kern_src bs) m = Kern_src (drop m bs)"

fun either_copyout :: "dest \<Rightarrow> u8 list \<Rightarrow> bool fsm" where
  "either_copyout (User_dst va) bs s =
     (let p = fproc s
      in bind_result (copyout (ukend p) (upt p) (usz p) (upt p) va bs (fmem s)) (\<lambda>(ok, k).
           Inr (ok, s\<lparr>fmem := k\<rparr>)))"
| "either_copyout Kern_dst bs s = Inr (True, s)"

text \<open>A failing \<open>copyin\<close> may have delivered some of the bytes.\<close>

fun either_copyin :: "source \<Rightarrow> nat \<Rightarrow> (u8 list \<times> bool) fsm" where
  "either_copyin (User_src va) n s =
     (let p = fproc s
      in bind_result (copyin (ukend p) (upt p) (usz p) (upt p) va n (fmem s)) (\<lambda>(bs, ok, k).
           Inr ((bs, ok), s\<lparr>fmem := k\<rparr>)))"
| "either_copyin (Kern_src bs) n s = Inr ((take n bs, True), s)"

text \<open>The loop of \<open>readi\<close>: \<open>rem = n - tot\<close> bytes to go; \<open>acc\<close> is what was delivered.\<close>

function readi_loop :: "nat \<Rightarrow> dest \<Rightarrow> nat \<Rightarrow> nat \<Rightarrow> nat \<Rightarrow> u8 list \<Rightarrow> (int \<times> u8 list) fsm" where
  "readi_loop ip dst off rem tot acc s =
     (if rem = 0 then Inr ((int tot, acc), s)
      else seq (bmap ip (off div BSIZE)) (\<lambda>addr s.
             if addr = 0 then Inr ((int tot, acc), s)
             else seq (get_buf (idev (itab s ip)) addr) (\<lambda>bp s.
                    let m = min rem (BSIZE - off mod BSIZE);
                        bs = take m (drop (off mod BSIZE) (buf_data bp s))
                    in seq (either_copyout dst bs) (\<lambda>ok.
                         seq (rel_buf bp) (\<lambda>_ s.
                           if \<not> ok then Inr ((-1, acc), s)
                           else readi_loop ip (dest_advance dst m) (off + m) (rem - m) (tot + m) (acc @ bs) s)) s) s) s)"
  by pat_completeness auto
termination
  by (relation "measure (\<lambda>(ip, dst, off, rem, tot, acc, s). rem)") (auto simp: BSIZE_def)

declare readi_loop.simps [simp del]

definition readi :: "nat \<Rightarrow> dest \<Rightarrow> u32 \<Rightarrow> u32 \<Rightarrow> (int \<times> u8 list) fsm" where
  "readi ip dst off n s =
     (let sz = isize (itab s ip)
      in if off > sz \<or> off + n < off then Inr ((0, []), s)
         else let n = (if off + n > sz then sz - off else n)
              in readi_loop ip dst (unat off) (unat n) 0 [] s)"

text \<open>The result is the final \<open>tot\<close> and \<open>off\<close>.\<close>

function writei_loop :: "nat \<Rightarrow> source \<Rightarrow> nat \<Rightarrow> nat \<Rightarrow> nat \<Rightarrow> (nat \<times> nat) fsm" where
  "writei_loop ip src off rem tot s =
     (if rem = 0 then Inr ((tot, off), s)
      else seq (bmap ip (off div BSIZE)) (\<lambda>addr s.
             if addr = 0 then Inr ((tot, off), s)
             else seq (get_buf (idev (itab s ip)) addr) (\<lambda>bp.
                    let m = min rem (BSIZE - off mod BSIZE); o1 = off mod BSIZE
                    in seq (either_copyin src m) (\<lambda>(bs, ok) s.
                         seq (put_data bp (take o1 (buf_data bp s) @ bs @ drop (o1 + length bs) (buf_data bp s))) (\<lambda>_.
                           if \<not> ok then seq (rel_buf bp) (\<lambda>_. ret (tot, off))
                           else seq (log_buf bp) (\<lambda>_.
                                seq (rel_buf bp) (\<lambda>_ s.
                                  writei_loop ip (source_advance src m) (off + m) (rem - m) (tot + m) s))) s)) s) s)"
  by pat_completeness auto
termination
  by (relation "measure (\<lambda>(ip, src, off, rem, tot, s). rem)") (auto simp: BSIZE_def)

declare writei_loop.simps [simp del]

definition writei :: "nat \<Rightarrow> source \<Rightarrow> u32 \<Rightarrow> u32 \<Rightarrow> int fsm" where
  "writei ip src off n s =
     (let sz = isize (itab s ip)
      in if off > sz \<or> off + n < off then Inr (-1, s)
         else if unat (off + n) > MAXFILE * BSIZE then Inr (-1, s)
         else seq (writei_loop ip src (unat off) (unat n) 0) (\<lambda>(tot, off) s.
                let s = (if off > unat (isize (itab s ip))
                         then set_inode ip ((itab s ip)\<lparr>isize := of_nat off\<rparr>) s else s)
                in seq (iupdate ip) (\<lambda>_. ret (int tot)) s) s)"

section \<open>Directories\<close>

text \<open>A name is the C string in a buffer of \<open>DIRSIZ\<close> bytes; a directory entry is its 16 bytes.\<close>

definition chars :: "u8 list \<Rightarrow> cptr" where
  "chars xs i = (if i < length xs then xs ! i else 0)"

definition namecmp :: "cptr \<Rightarrow> cptr \<Rightarrow> int" where
  "namecmp p q = strncmp p q (of_nat DIRSIZ)"

definition de_inum :: "u8 list \<Rightarrow> u16" where "de_inum de = get16 de 0"
definition de_name :: "u8 list \<Rightarrow> cptr" where "de_name de = chars (drop 2 de)"

fun dirlookup_loop :: "nat \<Rightarrow> u8 list \<Rightarrow> nat \<Rightarrow> nat \<Rightarrow> (nat \<times> nat) option fsm" where
  "dirlookup_loop dp name off 0 = ret None"
| "dirlookup_loop dp name off (Suc n) =
     seq (readi dp Kern_dst (of_nat off) 16) (\<lambda>(r, de).
       if r \<noteq> 16 then fail (Panic ''dirlookup read'')
       else if de_inum de = 0 then dirlookup_loop dp name (off + 16) n
       else if namecmp (chars name) (de_name de) = 0
       then (\<lambda>s. seq (iget (idev (itab s dp)) (ucast (de_inum de))) (\<lambda>ip. ret (Some (ip, off))) s)
       else dirlookup_loop dp name (off + 16) n)"

definition dirlookup :: "nat \<Rightarrow> u8 list \<Rightarrow> (nat \<times> nat) option fsm" where
  "dirlookup dp name s =
     (if itype (itab s dp) \<noteq> T_DIR then Inl (Panic ''dirlookup not DIR'')
      else dirlookup_loop dp name 0 ((unat (isize (itab s dp)) + 15) div 16) s)"

fun free_entry_loop :: "nat \<Rightarrow> nat \<Rightarrow> nat \<Rightarrow> nat fsm" where
  "free_entry_loop dp off 0 = ret off"
| "free_entry_loop dp off (Suc n) =
     seq (readi dp Kern_dst (of_nat off) 16) (\<lambda>(r, de).
       if r \<noteq> 16 then fail (Panic ''dirlink read'')
       else if de_inum de = 0 then ret off
       else free_entry_loop dp (off + 16) n)"

definition dirlink :: "nat \<Rightarrow> u8 list \<Rightarrow> u32 \<Rightarrow> bool fsm" where
  "dirlink dp name ino =
     seq (dirlookup dp name) (\<lambda>r.
       case r of
         Some (ip, _) \<Rightarrow> seq (iput ip) (\<lambda>_. ret False)
       | None \<Rightarrow>
           (\<lambda>s. seq (free_entry_loop dp 0 ((unat (isize (itab s dp)) + 15) div 16)) (\<lambda>off.
                let nm = strncpy (\<lambda>_. 0) (chars name) (of_nat DIRSIZ);
                    de = le_bytes 2 (ucast ino :: u16) @ map nm [0..<DIRSIZ]
                in seq (writei dp (Kern_src de) (of_nat off) 16) (\<lambda>r. ret (r = 16))) s))"

section \<open>Paths\<close>

text \<open>
  A path is the list of its bytes before the terminating 0; 47 is the slash. \<open>None\<close> is the null
  pointer. The name that \<open>skipelem\<close> stores is cut to \<open>DIRSIZ\<close> bytes.
\<close>

definition slash :: u8 where "slash = 47"

fun skip_slashes :: "u8 list \<Rightarrow> u8 list" where
  "skip_slashes [] = []"
| "skip_slashes (c # cs) = (if c = slash then skip_slashes cs else c # cs)"

fun scan_elem :: "u8 list \<Rightarrow> u8 list \<times> u8 list" where
  "scan_elem [] = ([], [])"
| "scan_elem (c # cs) =
     (if c = slash then ([], c # cs) else let (e, rest) = scan_elem cs in (c # e, rest))"

definition skipelem :: "u8 list \<Rightarrow> (u8 list \<times> u8 list) option" where
  "skipelem path =
     (let path = skip_slashes path
      in if path = [] then None
         else let (e, rest) = scan_elem path
              in Some (if length e \<ge> DIRSIZ then take DIRSIZ e else e, skip_slashes rest))"

lemma skip_slashes_length: "length (skip_slashes p) \<le> length p"
  by (induction p) auto

lemma scan_elem_append: "scan_elem p = (e, r) \<Longrightarrow> p = e @ r"
  by (induction p arbitrary: e r) (auto split: if_splits prod.splits)

lemma skip_slashes_hd: "skip_slashes p = c # cs \<Longrightarrow> c \<noteq> slash"
  by (induction p) (auto split: if_splits)

lemma skipelem_shorter: "skipelem path = Some (name, rest) \<Longrightarrow> length rest < length path"
proof -
  assume a: "skipelem path = Some (name, rest)"
  obtain c cs where c: "skip_slashes path = c # cs" "c \<noteq> slash"
    using a skip_slashes_hd by (cases "skip_slashes path") (auto simp: skipelem_def Let_def)
  obtain e r where e: "scan_elem cs = (e, r)" by (cases "scan_elem cs")
  have "rest = skip_slashes r" using a c e by (auto simp: skipelem_def Let_def)
  moreover have "length r \<le> length cs" using scan_elem_append [OF e] by simp
  ultimately show ?thesis
    using skip_slashes_length [of r] skip_slashes_length [of path] c by simp
qed

text \<open>The loop of \<open>namex\<close>; the second result is what \<open>name\<close> holds at the end.\<close>

function namex_loop :: "nat \<Rightarrow> u8 list \<Rightarrow> bool \<Rightarrow> u8 list \<Rightarrow> (nat option \<times> u8 list) fsm" where
  "namex_loop ip path parent name s =
     (case skipelem path of
        None \<Rightarrow> if parent then seq (iput ip) (\<lambda>_. ret (None, name)) s else Inr ((Some ip, name), s)
      | Some (name', rest) \<Rightarrow>
          seq (ilock (Some ip)) (\<lambda>_ s.
            if itype (itab s ip) \<noteq> T_DIR then seq (iunlockput ip) (\<lambda>_. ret (None, name')) s
            else if parent \<and> rest = [] then seq (iunlock (Some ip)) (\<lambda>_. ret (Some ip, name')) s
            else seq (dirlookup ip name') (\<lambda>r s.
                   case r of
                     None \<Rightarrow> seq (iunlockput ip) (\<lambda>_. ret (None, name')) s
                   | Some (next, _) \<Rightarrow> seq (iunlockput ip) (\<lambda>_ s. namex_loop next rest parent name' s) s) s) s)"
  by pat_completeness auto
termination
  by (relation "measure (\<lambda>(ip, path, parent, name, s). length path)") (auto dest: skipelem_shorter)

declare namex_loop.simps [simp del]

definition namex :: "u8 list \<Rightarrow> bool \<Rightarrow> (nat option \<times> u8 list) fsm" where
  "namex path parent =
     seq (\<lambda>s. if path \<noteq> [] \<and> hd path = slash then iget ROOTDEV ROOTINO s else idup (fcwd s) s)
       (\<lambda>ip s. namex_loop ip path parent [] s)"

definition namei :: "u8 list \<Rightarrow> nat option fsm" where
  "namei path = seq (namex path False) (\<lambda>(ip, _). ret ip)"

definition nameiparent :: "u8 list \<Rightarrow> (nat option \<times> u8 list) fsm" where
  "nameiparent path = namex path True"

section \<open>Path elements\<close>

lemma skip_slashes_split: "\<exists>n. p = replicate n slash @ skip_slashes p"
proof (induction p)
  case (Cons c cs)
  then obtain n where "cs = replicate n slash @ skip_slashes cs" by blast
  then show ?case by (cases "c = slash") (auto intro: exI [of _ "Suc n"] exI [of _ 0])
qed simp

lemma scan_elem_spec:
  "scan_elem p = (e, r) \<Longrightarrow> p = e @ r \<and> slash \<notin> set e \<and> (r = [] \<or> hd r = slash)"
  by (induction p arbitrary: e r) (auto split: if_splits prod.splits)

text \<open>\<open>skipelem\<close> returns null exactly for a path of slashes only. Otherwise the path is: slashes,
  a non-empty element without a slash, and then nothing or at least one slash and the rest; the
  name is the element cut to \<open>DIRSIZ\<close> bytes, and the rest has no leading slash and is shorter.\<close>

theorem skipelem_splits:
  "case skipelem path of
     None \<Rightarrow> \<exists>n. path = replicate n slash
   | Some (name, rest) \<Rightarrow> \<exists>n e m. path = replicate n slash @ e @ replicate m slash @ rest \<and>
       e \<noteq> [] \<and> slash \<notin> set e \<and> name = take DIRSIZ e \<and> (rest = [] \<or> (0 < m \<and> hd rest \<noteq> slash)) \<and>
       length rest < length path"
proof (cases "skip_slashes path")
  case Nil
  then show ?thesis using skip_slashes_split [of path] by (auto simp: skipelem_def)
next
  case (Cons c cs)
  then have c: "c \<noteq> slash" by (rule skip_slashes_hd)
  obtain e r where e: "scan_elem (c # cs) = (e, r)" by (cases "scan_elem (c # cs)")
  have s: "skipelem path = Some (take DIRSIZ e, skip_slashes r)"
    using Cons e by (simp add: skipelem_def Let_def)
  obtain n where n: "path = replicate n slash @ c # cs" using skip_slashes_split [of path] Cons by auto
  obtain m where m: "r = replicate m slash @ skip_slashes r" using skip_slashes_split [of r] by blast
  have er: "c # cs = e @ r" "slash \<notin> set e" "r = [] \<or> hd r = slash" using scan_elem_spec [OF e] by auto
  have "e \<noteq> []" using e c by (auto split: prod.splits)
  moreover have "skip_slashes r = [] \<or> (0 < m \<and> hd (skip_slashes r) \<noteq> slash)"
  proof (cases "skip_slashes r")
    case (Cons d ds)
    then have "d \<noteq> slash" by (rule skip_slashes_hd)
    then show ?thesis using Cons er(3) m by (cases m) auto
  qed simp
  moreover have "path = replicate n slash @ e @ replicate m slash @ skip_slashes r" using n er(1) m by simp
  ultimately show ?thesis
    using s er(2) skipelem_shorter [OF s] by auto
qed

section \<open>The inode table\<close>

text \<open>At most one entry in use per inode, and reference counts are not negative.\<close>

definition itab_inv :: "(nat \<Rightarrow> inode) \<Rightarrow> bool" where
  "itab_inv t \<longleftrightarrow> (\<forall>i<NINODE. 0 \<le> iref (t i)) \<and>
     (\<forall>i<NINODE. \<forall>j<NINODE. 0 < iref (t i) \<and> 0 < iref (t j) \<and> idev (t i) = idev (t j) \<and> inum (t i) = inum (t j) \<longrightarrow> i = j)"

definition in_use :: "(nat \<Rightarrow> inode) \<Rightarrow> u32 \<Rightarrow> u32 \<Rightarrow> nat \<Rightarrow> bool" where
  "in_use t dev ino i \<longleftrightarrow> 0 < iref (t i) \<and> idev (t i) = dev \<and> inum (t i) = ino"

lemma iget_scan_spec:
  assumes "iget_scan t dev ino e i n = (f, g)"
    and "\<And>j. e = Some j \<Longrightarrow> j < i \<and> iref (t j) = 0"
  shows "(case f of Some j \<Rightarrow> i \<le> j \<and> j < i + n \<and> in_use t dev ino j
          | None \<Rightarrow> (\<forall>j. i \<le> j \<and> j < i + n \<longrightarrow> \<not> in_use t dev ino j) \<and>
              (case g of Some j \<Rightarrow> j < i + n \<and> iref (t j) = 0
               | None \<Rightarrow> e = None \<and> (\<forall>j. i \<le> j \<and> j < i + n \<longrightarrow> iref (t j) \<noteq> 0)))"
  using assms
proof (induction n arbitrary: i e)
  case 0
  then show ?case by (auto split: option.splits)
next
  case (Suc n)
  show ?case
  proof (cases "in_use t dev ino i")
    case True
    then show ?thesis using Suc.prems by (auto simp: in_use_def)
  next
    case False
    let ?e = "if e = None \<and> iref (t i) = 0 then Some i else e"
    have "iget_scan t dev ino ?e (Suc i) n = (f, g)"
      using Suc.prems(1) by (simp only: iget_scan.simps if_not_P [OF False [unfolded in_use_def]])
    from Suc.IH [OF this] have
      "case f of Some j \<Rightarrow> Suc i \<le> j \<and> j < Suc i + n \<and> in_use t dev ino j
          | None \<Rightarrow> (\<forall>j. Suc i \<le> j \<and> j < Suc i + n \<longrightarrow> \<not> in_use t dev ino j) \<and>
              (case g of Some j \<Rightarrow> j < Suc i + n \<and> iref (t j) = 0
               | None \<Rightarrow> ?e = None \<and> (\<forall>j. Suc i \<le> j \<and> j < Suc i + n \<longrightarrow> iref (t j) \<noteq> 0))"
      using Suc.prems(2) by (fastforce split: if_splits)
    moreover have "i \<le> j \<and> j < i + Suc n \<longleftrightarrow> j = i \<or> Suc i \<le> j \<and> j < Suc i + n" for j by auto
    ultimately show ?thesis using False by (auto split: option.splits if_splits)
  qed
qed

lemma itab_inv_update:
  assumes "itab_inv t" "i < NINODE" "0 \<le> iref x" "\<And>j. j < NINODE \<Longrightarrow> j \<noteq> i \<Longrightarrow> \<not> in_use t (idev x) (inum x) j"
  shows "itab_inv (t(i := x))"
  unfolding itab_inv_def
proof (intro conjI allI impI)
  fix j show "j < NINODE \<Longrightarrow> 0 \<le> iref ((t(i := x)) j)" using assms by (simp add: itab_inv_def)
next
  fix j k
  let ?t = "t(i := x)"
  assume jk: "j < NINODE" "k < NINODE"
    "0 < iref (?t j) \<and> 0 < iref (?t k) \<and> idev (?t j) = idev (?t k) \<and> inum (?t j) = inum (?t k)"
  consider "j = i" "k = i" | "j = i" "k \<noteq> i" | "j \<noteq> i" "k = i" | "j \<noteq> i" "k \<noteq> i" by blast
  then show "j = k"
  proof cases
    case 2
    then show ?thesis using jk assms(4) [of k] by (simp add: in_use_def)
  next
    case 3
    then show ?thesis using jk assms(4) [of j] by (simp add: in_use_def)
  next
    case 4
    then have "0 < iref (t j) \<and> 0 < iref (t k) \<and> idev (t j) = idev (t k) \<and> inum (t j) = inum (t k)" using jk by simp
    then show ?thesis using jk(1,2) assms(1) unfolding itab_inv_def by blast
  qed simp
qed

lemma itab_inv_unique:
  assumes "itab_inv t" "in_use t dev ino i" "in_use t dev ino j" "i < NINODE" "j < NINODE"
  shows "i = j"
proof -
  have "\<forall>i<NINODE. \<forall>j<NINODE. 0 < iref (t i) \<and> 0 < iref (t j) \<and> idev (t i) = idev (t j) \<and> inum (t i) = inum (t j) \<longrightarrow> i = j"
    using assms(1) unfolding itab_inv_def by (rule conjunct2)
  from this [rule_format, OF assms(4,5)] show ?thesis using assms(2,3) by (simp add: in_use_def)
qed

text \<open>C24: \<open>iget\<close> keeps at most one table entry per inode: if the inode is in use it returns that
  entry with one more reference, otherwise it recycles an unused entry with one reference, not
  valid; no other entry changes. It panics exactly when the inode is not in the table and every
  entry is in use.\<close>

theorem iget_correct:
  assumes inv: "itab_inv (itab s)"
  shows "case iget dev ino s of
      Inr (i, s') \<Rightarrow> itab_inv (itab s') \<and> i < NINODE \<and> in_use (itab s') dev ino i \<and>
        (\<forall>j. j \<noteq> i \<longrightarrow> itab s' j = itab s j) \<and> s' = s\<lparr>itab := itab s'\<rparr> \<and>
        (if \<exists>j<NINODE. in_use (itab s) dev ino j
         then itab s' i = (itab s i)\<lparr>iref := iref (itab s i) + 1\<rparr> \<and> in_use (itab s) dev ino i
         else iref (itab s i) = 0 \<and> iref (itab s' i) = 1 \<and> \<not> ivalid (itab s' i))
    | Inl e \<Rightarrow> e = Panic ''iget: no inodes'' \<and> (\<forall>j<NINODE. 0 < iref (itab s j) \<and> \<not> in_use (itab s) dev ino j)"
proof -
  obtain f g where fg: "iget_scan (itab s) dev ino None 0 NINODE = (f, g)"
    by (cases "iget_scan (itab s) dev ino None 0 NINODE")
  note sp = iget_scan_spec [OF fg]
  consider (hit) i where "f = Some i" | (slot) i where "f = None" "g = Some i" | (none) "f = None" "g = None"
    by (cases f; cases g) auto
  then show ?thesis
  proof cases
    case (hit i)
    then have i: "i < NINODE" "in_use (itab s) dev ino i" using sp by auto
    let ?x = "(itab s i)\<lparr>iref := iref (itab s i) + 1\<rparr>"
    have "itab_inv ((itab s)(i := ?x))"
    proof (rule itab_inv_update [OF inv i(1)])
      show "\<not> in_use (itab s) (idev ?x) (inum ?x) j" if "j < NINODE" "j \<noteq> i" for j
        using that itab_inv_unique [OF inv i(2), of j] i by (auto simp: in_use_def)
    qed (use i in \<open>simp add: in_use_def\<close>)
    moreover have "iget dev ino s = Inr (i, set_inode i ?x s)" using fg hit by (simp add: iget_def)
    ultimately show ?thesis using i by (auto simp: set_inode_def in_use_def)
  next
    case (slot i)
    then have i: "i < NINODE" "iref (itab s i) = 0" "\<And>j. j < NINODE \<Longrightarrow> \<not> in_use (itab s) dev ino j"
      using sp by auto
    let ?x = "(itab s i)\<lparr>idev := dev, inum := ino, iref := 1, ivalid := False\<rparr>"
    have "itab_inv ((itab s)(i := ?x))" using i by (intro itab_inv_update [OF inv]) simp_all
    moreover have "iget dev ino s = Inr (i, set_inode i ?x s)" using fg slot by (simp add: iget_def)
    ultimately show ?thesis using i by (auto simp: set_inode_def in_use_def)
  next
    case none
    then have "\<And>j. j < NINODE \<Longrightarrow> iref (itab s j) \<noteq> 0 \<and> \<not> in_use (itab s) dev ino j" using sp by auto
    with fg none inv show ?thesis
      by (simp add: iget_def itab_inv_def order_less_le)
  qed
qed

definition fs_ex :: fs where
  "fs_ex = \<lparr>flog = boot_log (\<lambda>_. replicate BSIZE 0),
     itab = (\<lambda>_. \<lparr>idev = 0, inum = 0, iref = 0, ilk = initsleeplock, ivalid = False, itype = 0, imajor = 0,
       iminor = 0, inlink = 0, isize = 0, iaddrs = replicate 13 0\<rparr>),
     sb = \<lparr>magic = FSMAGIC, fssize = 2000, nblocks = 1900, ninodes = 200, nlog = 31, logstart = 2,
       inodestart = 33, bmapstart = 46\<rparr>,
     fmem = vm_ex, fpid = 1, fproc = proc_ex, fcwd = 0\<rparr>"

theorem iget_correct_witness: "\<exists>i s'. iget 1 5 fs_ex = Inr (i, s') \<and> in_use (itab s') 1 5 i"
proof -
  have "itab_inv (itab fs_ex)" by (simp add: itab_inv_def fs_ex_def)
  moreover have "\<not> (\<forall>j<NINODE. 0 < iref (itab fs_ex j) \<and> \<not> in_use (itab fs_ex) 1 5 j)"
    by (auto simp: fs_ex_def NINODE_def intro!: exI [of _ 0])
  ultimately show ?thesis
    using iget_correct [of fs_ex 1 5] by (cases "iget 1 5 fs_ex") auto
qed

section \<open>Disk inodes\<close>

lemma length_put16 [simp]: "off + 2 \<le> length d \<Longrightarrow> length (put16 d off v) = length d"
  by (simp add: put16_def)

lemma get16_put16_same [simp]: "off + 2 \<le> length d \<Longrightarrow> get16 (put16 d off v) off = v"
  by (simp add: get16_def put16_def of_le_bytes_le_bytes take_bit_word_eq_self)

text \<open>A read of \<open>n\<close> bytes at \<open>a\<close> is not affected by writing \<open>w\<close> at \<open>b\<close> if the two do not overlap.\<close>

lemma read_other:
  assumes "b + length w \<le> length d" "a + n \<le> b \<or> b + length w \<le> a"
  shows "take n (drop a (take b d @ w @ drop (b + length w) d)) = take n (drop a d)"
proof (rule nth_equalityI)
  show "length (take n (drop a (take b d @ w @ drop (b + length w) d))) = length (take n (drop a d))"
  proof -
    have "length (take b d @ w @ drop (b + length w) d) = length d" using assms by simp
    then show ?thesis by (simp only: length_take length_drop)
  qed
  fix i assume "i < length (take n (drop a (take b d @ w @ drop (b + length w) d)))"
  then show "take n (drop a (take b d @ w @ drop (b + length w) d)) ! i = take n (drop a d) ! i"
    using assms by (auto simp: nth_append)
qed

lemma get16_put16_other:
  "b + 2 \<le> length d \<Longrightarrow> a + 2 \<le> b \<or> b + 2 \<le> a \<Longrightarrow> get16 (put16 d b v) a = get16 d a"
  using read_other [of b "le_bytes 2 v" d a 2] by (simp add: get16_def put16_def)

lemma get32_put16_other:
  "b + 2 \<le> length d \<Longrightarrow> a + 4 \<le> b \<or> b + 2 \<le> a \<Longrightarrow> get32 (put16 d b v) a = get32 d a"
  using read_other [of b "le_bytes 2 v" d a 4] by (simp add: get32_def put16_def)

lemma get16_put32_other:
  "b + 4 \<le> length d \<Longrightarrow> a + 2 \<le> b \<or> b + 4 \<le> a \<Longrightarrow> get16 (put32 d b v) a = get16 d a"
  using read_other [of b "le_bytes 4 v" d a 2] by (simp add: get16_def put32_def)

lemma length_put_addrs [simp]: "off + 4 * length as \<le> length d \<Longrightarrow> length (put_addrs as off d) = length d"
  by (induction as arbitrary: off d) auto

lemma put_addrs_other:
  "off + 4 * length as \<le> length d \<Longrightarrow> a + 4 \<le> off \<or> off + 4 * length as \<le> a \<Longrightarrow>
     get32 (put_addrs as off d) a = get32 d a"
  "off + 4 * length as \<le> length d \<Longrightarrow> b + 2 \<le> off \<or> off + 4 * length as \<le> b \<Longrightarrow>
     get16 (put_addrs as off d) b = get16 d b"
  by (induction as arbitrary: off d) (auto simp: get32_put32_other get16_put32_other)

lemma put_addrs_get:
  "off + 4 * length as \<le> length d \<Longrightarrow> j < length as \<Longrightarrow> get32 (put_addrs as off d) (off + 4 * j) = as ! j"
proof (induction as arbitrary: off d j)
  case (Cons a as)
  show ?case
  proof (cases j)
    case 0
    then show ?thesis using Cons.prems by (simp add: put_addrs_other)
  next
    case (Suc i)
    then show ?thesis using Cons.prems Cons.IH [of "off + 4" "put32 d off a" i] by (simp add: algebra_simps)
  qed
qed simp

lemma dip_off_bound: "dip_off k + 64 \<le> 1024"
proof -
  have "unat (k mod IPB) < 16" by (simp add: IPB_def unat_mod_distrib)
  then show ?thesis by (simp add: dip_off_def)
qed

lemmas get_put_other = get16_put16_other get32_put16_other get16_put32_other get32_put32_other put_addrs_other

lemma put_get_dinode:
  assumes "length d = BSIZE" "length (iaddrs x) = NDIRECT + 1"
  shows "length (put_dinode x (dip_off i) d) = BSIZE"
    "get_dinode (put_dinode x (dip_off i) d) (dip_off i) y = y\<lparr>itype := itype x, imajor := imajor x, iminor := iminor x,
       inlink := inlink x, isize := isize x, iaddrs := iaddrs x\<rparr>"
proof -
  let ?d = "put_dinode x (dip_off i) d"
  have len: "length d = 1024" "length (iaddrs x) = 13" using assms by (simp_all add: BSIZE_def NDIRECT_def)
  show "length ?d = BSIZE" using dip_off_bound [of i] len by (simp add: put_dinode_def Let_def BSIZE_def)
  have same: "get16 ?d (dip_off i) = itype x" "get16 ?d (dip_off i + 2) = imajor x"
    "get16 ?d (dip_off i + 4) = iminor x" "get16 ?d (dip_off i + 6) = inlink x" "get32 ?d (dip_off i + 8) = isize x"
    using dip_off_bound [of i] len by (simp_all add: put_dinode_def Let_def get_put_other)
  have "get32 ?d (dip_off i + 12 + 4 * n) = iaddrs x ! n" if "n < 13" for n
    unfolding put_dinode_def Let_def using that dip_off_bound [of i] len by (intro put_addrs_get) simp_all
  then have ad: "get_addrs ?d (dip_off i) = iaddrs x"
    using len by (intro nth_equalityI) (simp_all add: get_addrs_def NDIRECT_def del: upt_Suc)
  show "get_dinode ?d (dip_off i) y = y\<lparr>itype := itype x, imajor := imajor x, iminor := iminor x,
       inlink := inlink x, isize := isize x, iaddrs := iaddrs x\<rparr>"
    using same ad by (simp add: get_dinode_def)
qed

lemma put_dinode_other:
  assumes "length d = BSIZE" "length (iaddrs x) = NDIRECT + 1" "j mod IPB \<noteq> i mod IPB"
  shows "get_dinode (put_dinode x (dip_off i) d) (dip_off j) y = get_dinode d (dip_off j) y"
proof -
  let ?d = "put_dinode x (dip_off i) d"
  have len: "length d = 1024" "length (iaddrs x) = 13" using assms by (simp_all add: BSIZE_def NDIRECT_def)
  note b = dip_off_bound [of i] dip_off_bound [of j]
  have ne: "dip_off i + 64 \<le> dip_off j \<or> dip_off j + 64 \<le> dip_off i"
  proof -
    have "unat (j mod IPB) \<noteq> unat (i mod IPB)" using assms(3) by (simp add: word_unat_eq_iff)
    then show ?thesis unfolding dip_off_def by linarith
  qed
  have o16: "get16 ?d (dip_off j + n) = get16 d (dip_off j + n)" if "n \<le> 62" for n
    using ne by (elim disjE) (use that b len in \<open>simp_all add: put_dinode_def Let_def get_put_other\<close>)
  have o32: "get32 ?d (dip_off j + n) = get32 d (dip_off j + n)" if "n \<le> 60" for n
    using ne by (elim disjE) (use that b len in \<open>simp_all add: put_dinode_def Let_def get_put_other\<close>)
  have "get_addrs ?d (dip_off j) = get_addrs d (dip_off j)"
    using o32 by (simp add: get_addrs_def NDIRECT_def add.assoc del: upt_Suc)
  then show ?thesis
    using o16 [of 0] o16 [of 2] o16 [of 4] o16 [of 6] o32 [of 8] by (simp add: get_dinode_def)
qed

end
