(* ===== verification/Freemap.thy ===== *)
theory Freemap
  imports Fs
begin

text \<open>
  Transactions of \<^verbatim>\<open>kernel/fs.c\<close> on the log and the buffer cache: what \<open>bread\<close>, \<open>log_write\<close> and \<open>brelse\<close>
  do while other buffers are held, and the free map on top of them (\<open>bzero\<close>, \<open>balloc\<close>, \<open>bfree\<close>).
\<close>

section \<open>Held buffers\<close>

text \<open>What the blocks show to readers, and the owner of a buffer.\<close>

definition fview :: "fs \<Rightarrow> u32 \<Rightarrow> block" where
  "fview s = bview (ldev (flog s)) (cache (flog s))"

definition holds :: "fs \<Rightarrow> nat \<Rightarrow> u32 \<Rightarrow> bool" where
  "holds s i b \<longleftrightarrow> owns (fpid s) (ldev (flog s)) (cache (flog s)) i b"

text \<open>
  The log while the buffers of the blocks in \<open>H\<close> are held: as \<open>log_quiet\<close>, but those blocks have one
  more reference. A held block that is not in the log shows what is on the disk.
\<close>

definition log_held :: "u32 set \<Rightarrow> lstate \<Rightarrow> bool" where
  "log_held H l \<longleftrightarrow> ldev l \<noteq> 0 \<and> 0 \<le> lh_n l \<and> lh_n l \<le> int LOGBLOCKS \<and> length (lh_block l) = LOGBLOCKS \<and>
     distinct (logged l) \<and> set (logged l) \<inter> log_region (start l) = {} \<and> finite H \<and>
     (\<exists>n. abs_state (ldev l) (cache l) (bview (ldev l) (cache l))
          (\<lambda>b. (if b \<in> set (logged l) then 1 else 0) + (if b \<in> H then 1 else 0)) (\<lambda>b. b \<in> H)
          (disk (cache l)) (dtrace (cache l)) n \<and> n + card (set (logged l) \<union> H) = NBUF) \<and>
     (\<forall>b\<in>H. b \<notin> set (logged l) \<longrightarrow> bview (ldev l) (cache l) b = disk (cache l) b) \<and>
     head_n (disk (cache l) (start l)) = 0 \<and> length (disk (cache l) (start l)) = BSIZE"

lemma card_logged: "log_held H l \<Longrightarrow> int (card (set (logged l))) = lh_n l"
  by (auto simp: log_held_def distinct_card) (simp add: logged_def)

lemma log_held_empty: "log_held {} l \<longleftrightarrow> log_quiet l"
proof -
  have "card (set (logged l)) = nat (lh_n l)" if "distinct (logged l)" "length (lh_block l) = LOGBLOCKS" "lh_n l \<le> int LOGBLOCKS"
    using that by (simp add: distinct_card) (simp add: logged_def)
  moreover have "(\<exists>v d t n. abs_state dv c v r h d t n \<and> n + m = NBUF) \<longleftrightarrow>
      (\<exists>n. abs_state dv c (bview dv c) r h (disk c) (dtrace c) n \<and> n + m = NBUF)" for dv c r h m
    by (auto simp: abs_state_def)
  ultimately show ?thesis unfolding log_held_def log_quiet_def by auto
qed

text \<open>Only the buffer cache differs, and not in what it shows.\<close>

definition cache_only :: "fs \<Rightarrow> fs \<Rightarrow> bool" where
  "cache_only s s' \<longleftrightarrow> (\<exists>c. s' = s\<lparr>flog := (flog s)\<lparr>cache := c\<rparr>\<rparr> \<and> disk c = disk (cache (flog s))) \<and> fview s' = fview s"

lemma cache_only_refl [simp]: "cache_only s s"
  unfolding cache_only_def by (intro conjI exI [of _ "cache (flog s)"]) simp_all

lemma cache_only_trans [trans]: "cache_only s t \<Longrightarrow> cache_only t u \<Longrightarrow> cache_only s u"
  by (auto simp: cache_only_def)

lemma cache_only_same:
  assumes "cache_only s s'"
  shows "fview s' = fview s" "itab s' = itab s" "sb s' = sb s" "fmem s' = fmem s" "fpid s' = fpid s"
    "fproc s' = fproc s" "fcwd s' = fcwd s" "ldev (flog s') = ldev (flog s)" "start (flog s') = start (flog s)"
    "outstanding (flog s') = outstanding (flog s)" "lh_n (flog s') = lh_n (flog s)" "logged (flog s') = logged (flog s)"
  using assms by (auto simp: cache_only_def logged_def)

lemma seq_Inr: "m s = Inr (x, s') \<Longrightarrow> seq m f s = f x s'"
  by (simp add: seq_def)

lemma get_buf_holds:
  assumes l: "log_held H (flog s)" and "b \<notin> H"
    and room: "b \<in> set (logged (flog s)) \<or> card (set (logged (flog s)) \<union> H) < NBUF"
  obtains i s1 where "get_buf (ldev (flog s)) b s = Inr (i, s1)" "cache_only s s1" "log_held (insert b H) (flog s1)"
    "holds s1 i b" "buf_data i s1 = fview s b" "\<And>j e. holds s j e \<Longrightarrow> holds s1 j e"
proof -
  let ?l = "flog s"
  let ?r = "\<lambda>e. (if e \<in> set (logged ?l) then 1 else 0) + (if e \<in> H then 1 else (0 :: u32))" and ?v = "fview s"
  obtain n where abs: "abs_state (ldev ?l) (cache ?l) ?v ?r (\<lambda>b. b \<in> H) (disk (cache ?l)) (dtrace (cache ?l)) n"
    and n: "n + card (set (logged ?l) \<union> H) = NBUF" using l unfolding log_held_def fview_def by blast
  obtain i c where c: "bread (fpid s) (ldev ?l) b (cache ?l) = Inr (i, c)" "owns (fpid s) (ldev ?l) c i b"
    "abs_state (ldev ?l) c ?v (?r(b := ?r b + 1)) ((\<lambda>b. b \<in> H)(b := True)) (disk (cache ?l)) (dtrace (cache ?l))
      (if ?r b = 0 then n - 1 else n)"
    "\<And>j e. owns (fpid s) (ldev ?l) (cache ?l) j e \<Longrightarrow> owns (fpid s) (ldev ?l) c j e"
    by (rule abs_bread [OF abs, of b "fpid s"]) (use assms(2) room n in \<open>auto split: if_splits\<close>)
  let ?s1 = "s\<lparr>flog := ?l\<lparr>cache := c\<rparr>\<rparr>"
  have r: "?r(b := ?r b + 1) = (\<lambda>e. (if e \<in> set (logged ?l) then 1 else 0) + (if e \<in> insert b H then 1 else 0))"
    "(\<lambda>b. b \<in> H)(b := True) = (\<lambda>e. e \<in> insert b H)" using assms(2) by (auto simp: fun_eq_iff)
  have d: "disk c = disk (cache ?l)" "bview (ldev ?l) c = ?v" "dtrace c = dtrace (cache ?l)" using c(3) by (auto simp: abs_state_def)
  have fin: "finite H" using l by (simp add: log_held_def)
  have "(if ?r b = 0 then n - 1 else n) + card (set (logged ?l) \<union> insert b H) = NBUF"
  proof (cases "b \<in> set (logged ?l)")
    case True
    then show ?thesis using n by (simp add: insert_absorb assms(2))
  next
    case False
    then show ?thesis using n room assms(2) fin by simp
  qed
  moreover have "?v b = disk (cache ?l) b" if "b \<notin> set (logged ?l)"
    using abs_state_clean [OF abs] that assms(2) by simp
  ultimately have "log_held (insert b H) (flog ?s1)"
    using l c(3) unfolding r by (auto simp: log_held_def logged_def d fview_def)
  moreover have "cache_only s ?s1" using d by (auto simp: cache_only_def fview_def)
  moreover have "buf_data i ?s1 = fview s b" using abs_state_owns(1) [OF c(3,2)] by (simp add: buf_data_def)
  ultimately show ?thesis
    using c by (intro that [of i ?s1]) (simp_all add: get_buf_def on_cache_def holds_def)
qed

lemma rel_buf_holds:
  assumes l: "log_held (insert b H) (flog s)" and "b \<notin> H" and o: "holds s i b"
  obtains s1 where "rel_buf i s = Inr ((), s1)" "cache_only s s1" "log_held H (flog s1)"
    "\<And>j e. j \<noteq> i \<Longrightarrow> holds s j e \<Longrightarrow> holds s1 j e"
proof -
  let ?l = "flog s"
  let ?r = "\<lambda>e. (if e \<in> set (logged ?l) then 1 else 0) + (if e \<in> insert b H then 1 else (0 :: u32))" and ?v = "fview s"
  obtain n where abs: "abs_state (ldev ?l) (cache ?l) ?v ?r (\<lambda>e. e \<in> insert b H) (disk (cache ?l)) (dtrace (cache ?l)) n"
    and n: "n + card (set (logged ?l) \<union> insert b H) = NBUF" using l unfolding log_held_def fview_def by blast
  have fin: "finite H" using l by (simp add: log_held_def)
  have clean: "b \<notin> set (logged ?l) \<Longrightarrow> ?v b = disk (cache ?l) b" using l by (simp add: log_held_def fview_def)
  obtain c where c: "brelse (fpid s) i (cache ?l) = Inr c"
    "abs_state (ldev ?l) c ?v (?r(b := ?r b - 1)) ((\<lambda>e. e \<in> insert b H)(b := False)) (disk (cache ?l)) (dtrace (cache ?l))
      (if ?r b = 1 then n + 1 else n)"
    "\<And>j e. j \<noteq> i \<Longrightarrow> owns (fpid s) (ldev ?l) (cache ?l) j e \<Longrightarrow> owns (fpid s) (ldev ?l) c j e"
    by (rule abs_brelse [OF abs o [unfolded holds_def]]) (use clean in \<open>auto split: if_splits\<close>)
  let ?s1 = "s\<lparr>flog := ?l\<lparr>cache := c\<rparr>\<rparr>"
  have r: "?r(b := ?r b - 1) = (\<lambda>e. (if e \<in> set (logged ?l) then 1 else 0) + (if e \<in> H then 1 else 0))"
    "(\<lambda>e. e \<in> insert b H)(b := False) = (\<lambda>e. e \<in> H)" using assms(2) by (auto simp: fun_eq_iff)
  have d: "disk c = disk (cache ?l)" "bview (ldev ?l) c = ?v" "dtrace c = dtrace (cache ?l)" using c(2) by (auto simp: abs_state_def)
  have "(if ?r b = 1 then n + 1 else n) + card (set (logged ?l) \<union> H) = NBUF"
    using n assms(2) fin by (cases "b \<in> set (logged ?l)") (simp_all add: insert_absorb)
  then have "log_held H (flog ?s1)"
    using l c(2) unfolding r by (auto simp: log_held_def logged_def d fview_def)
  moreover have "cache_only s ?s1" using d by (auto simp: cache_only_def fview_def)
  ultimately show ?thesis
    using c by (intro that [of ?s1]) (simp_all add: rel_buf_def on_cache_def holds_def)
qed

text \<open>Within a transaction: changing the data of a held buffer, logging and releasing it.\<close>

lemma log_buf_holds:
  assumes l: "log_held (insert b H) (flog s)" and "b \<notin> H" and o: "holds s i b"
    and "1 \<le> outstanding (flog s)" "b \<notin> log_region (start (flog s))" "lh_n (flog s) < int LOGBLOCKS"
  obtains l' where "seq (put_data i x) (\<lambda>_. seq (log_buf i) (\<lambda>_. rel_buf i)) s = Inr ((), s\<lparr>flog := l'\<rparr>)"
    "log_held H l'" "bview (ldev l') (cache l') = (fview s)(b := x)" "start l' = start (flog s)" "ldev l' = ldev (flog s)"
    "outstanding l' = outstanding (flog s)" "set (logged l') = insert b (set (logged (flog s)))"
    "\<And>j e. j \<noteq> i \<Longrightarrow> holds s j e \<Longrightarrow> holds (s\<lparr>flog := l'\<rparr>) j e"
proof -
  let ?l = "flog s"
  let ?r = "\<lambda>e. (if e \<in> set (logged ?l) then 1 else 0) + (if e \<in> insert b H then 1 else (0 :: u32))" and ?v = "fview s"
  let ?h = "\<lambda>e. e \<in> insert b H" and ?d = "disk (cache ?l)" and ?t = "dtrace (cache ?l)"
  obtain n where abs: "abs_state (ldev ?l) (cache ?l) ?v ?r ?h ?d ?t n"
    and n: "n + card (set (logged ?l) \<union> insert b H) = NBUF" using l unfolding log_held_def fview_def by blast
  obtain m where m: "lh_n ?l = int m" "m < LOGBLOCKS"
    using l assms(6) by (auto simp: log_held_def intro: that [of "nat (lh_n ?l)"])
  have fin: "finite H" using l by (simp add: log_held_def)
  have bl: "length (lh_block ?l) = LOGBLOCKS" "logged ?l = take m (lh_block ?l)" using l m by (auto simp: log_held_def logged_def)
  define c2 where "c2 = set_data i x (cache ?l)"
  have c2: "owns (fpid s) (ldev ?l) c2 i b" "abs_state (ldev ?l) c2 (?v(b := x)) ?r ?h ?d ?t n"
    "\<And>j e. owns (fpid s) (ldev ?l) (cache ?l) j e \<Longrightarrow> owns (fpid s) (ldev ?l) c2 j e"
    using abs_set_data [OF abs o [unfolded holds_def]] o by (simp_all add: c2_def holds_def)
  have bno: "blockno (bufs c2 i) = b" using c2(1) by (auto simp: owns_def matches_def)
  let ?f = "find_entry (lh_block ?l) b 0 m"
  have lw: "log_write i (?l\<lparr>cache := c2\<rparr>) =
      (if ?f = m then Inr (?l\<lparr>cache := bpin i c2, lh_block := (lh_block ?l)[m := b], lh_n := int m + 1\<rparr>)
       else Inr (?l\<lparr>cache := c2, lh_block := (lh_block ?l)[?f := b]\<rparr>))"
    using m assms(4) by (simp add: log_write_def Let_def bno)
  have rH: "?h(b := False) = (\<lambda>e. e \<in> H)" using assms(2) by (auto simp: fun_eq_iff)
  show ?thesis
  proof (cases "b \<in> set (logged ?l)")
    case True
    then have f: "?f < m" "lh_block ?l ! ?f = b"
      using find_entry_spec [of "lh_block ?l" b 0 m] bl m by (auto simp: in_set_conv_nth)
    then have "(lh_block ?l)[?f := b] = lh_block ?l" by (metis list_update_id)
    then have lw1: "log_write i (?l\<lparr>cache := c2\<rparr>) = Inr (?l\<lparr>cache := c2\<rparr>)" using lw f by simp
    have r: "?r(b := ?r b - 1) = (\<lambda>e. (if e \<in> set (logged ?l) then 1 else 0) + (if e \<in> H then 1 else 0))"
      using assms(2) by (auto simp: fun_eq_iff)
    obtain c3 where c3: "brelse (fpid s) i c2 = Inr c3"
      "abs_state (ldev ?l) c3 (?v(b := x)) (?r(b := ?r b - 1)) (?h(b := False)) ?d ?t (if ?r b = 1 then n + 1 else n)"
      "\<And>j e. j \<noteq> i \<Longrightarrow> owns (fpid s) (ldev ?l) c2 j e \<Longrightarrow> owns (fpid s) (ldev ?l) c3 j e"
      by (rule abs_brelse [OF c2(2,1)]) (use True in auto)
    let ?l' = "?l\<lparr>cache := c3\<rparr>"
    have v: "bview (ldev ?l) c3 = ?v(b := x)" "disk c3 = ?d" "dtrace c3 = ?t" using c3(2) by (auto simp: abs_state_def)
    have "n + card (set (logged ?l) \<union> H) = NBUF" using n True by (simp add: insert_absorb)
    then have "log_held H ?l'"
      using l c3(2) True unfolding r rH by (auto simp: log_held_def logged_def v fview_def)
    moreover have "seq (put_data i x) (\<lambda>_. seq (log_buf i) (\<lambda>_. rel_buf i)) s = Inr ((), s\<lparr>flog := ?l'\<rparr>)"
      using lw1 c3(1) by (simp add: seq_def put_data_def on_cache_def log_buf_def on_log_def rel_buf_def flip: c2_def)
    ultimately show ?thesis
      using True v c2(3) c3(3) by (intro that [of ?l']) (auto simp: logged_def holds_def)
  next
    case False
    then have f: "?f = m"
      using find_entry_spec [of "lh_block ?l" b 0 m] bl m by (fastforce simp: in_set_conv_nth)
    have c3: "abs_state (ldev ?l) (bpin i c2) (?v(b := x)) (?r(b := ?r b + 1)) ?h ?d ?t n"
      "owns (fpid s) (ldev ?l) (bpin i c2) i b"
      "\<And>j e. owns (fpid s) (ldev ?l) c2 j e \<Longrightarrow> owns (fpid s) (ldev ?l) (bpin i c2) j e"
      using abs_bpin [OF c2(2,1)] c2(1) False by auto
    let ?lw = "?l\<lparr>lh_block := (lh_block ?l)[m := b], lh_n := int m + 1\<rparr>"
    have "logged ?lw = take (Suc m) ((lh_block ?l)[m := b])" by (simp add: logged_def nat_add_distrib)
    also have "\<dots> = logged ?l @ [b]" unfolding bl(2) using bl(1) m(2) by (simp add: take_Suc_conv_app_nth)
    finally have lg: "logged ?lw = logged ?l @ [b]" .
    let ?r3 = "?r(b := ?r b + 1)"
    have r: "?r3(b := ?r3 b - 1) = (\<lambda>e. (if e \<in> set (logged ?lw) then 1 else 0) + (if e \<in> H then 1 else 0))"
      unfolding lg using assms(2) False by (auto simp: fun_eq_iff)
    obtain c4 where c4: "brelse (fpid s) i (bpin i c2) = Inr c4"
      "abs_state (ldev ?l) c4 (?v(b := x)) (?r3(b := ?r3 b - 1)) (?h(b := False)) ?d ?t (if ?r3 b = 1 then n + 1 else n)"
      "\<And>j e. j \<noteq> i \<Longrightarrow> owns (fpid s) (ldev ?l) (bpin i c2) j e \<Longrightarrow> owns (fpid s) (ldev ?l) c4 j e"
      by (rule abs_brelse [OF c3(1,2)]) (use False in auto)
    let ?l' = "?lw\<lparr>cache := c4\<rparr>"
    have lg': "logged ?l' = logged ?l @ [b]" using lg by (simp add: logged_def)
    have v: "bview (ldev ?l) c4 = ?v(b := x)" "disk c4 = ?d" "dtrace c4 = ?t" using c4(2) by (auto simp: abs_state_def)
    have "abs_state (ldev ?l) c4 (?v(b := x)) (\<lambda>e. (if e \<in> set (logged ?l') then 1 else 0) + (if e \<in> H then 1 else 0)) (\<lambda>e. e \<in> H) ?d ?t n"
      using c4(2) False unfolding r rH lg lg' by simp
    moreover have "n + card (set (logged ?l') \<union> H) = NBUF" using n by (simp add: lg' Un_commute)
    moreover have "\<forall>e\<in>H. e \<notin> set (logged ?l') \<longrightarrow> (?v(b := x)) e = ?d e"
      using l assms(2) by (auto simp: lg' log_held_def fview_def)
    moreover have "distinct (logged ?l')" "set (logged ?l') \<inter> log_region (start ?l') = {}"
      using l False assms(5) by (auto simp: lg' log_held_def)
    ultimately have "log_held H ?l'"
      using l m unfolding log_held_def by (auto simp: v)
    moreover have "seq (put_data i x) (\<lambda>_. seq (log_buf i) (\<lambda>_. rel_buf i)) s = Inr ((), s\<lparr>flog := ?l'\<rparr>)"
      using lw f c4(1) by (simp add: seq_def put_data_def on_cache_def log_buf_def on_log_def rel_buf_def flip: c2_def)
    ultimately show ?thesis
      using v lg' c2(3) c3(3) c4(3) by (intro that [of ?l']) (auto simp: holds_def)
  qed
qed

section \<open>Steps of a transaction\<close>

text \<open>From \<open>s\<close> to \<open>s'\<close> only the log and the cache changed, the blocks \<open>B\<close> were logged, and the buffers of
  the blocks \<open>H\<close> are held before and after.\<close>

definition tstep :: "u32 set \<Rightarrow> u32 set \<Rightarrow> fs \<Rightarrow> fs \<Rightarrow> bool" where
  "tstep H B s s' \<longleftrightarrow> s' = s\<lparr>flog := flog s'\<rparr> \<and> log_held H (flog s') \<and> start (flog s') = start (flog s) \<and>
     ldev (flog s') = ldev (flog s) \<and> outstanding (flog s') = outstanding (flog s) \<and>
     set (logged (flog s')) = set (logged (flog s)) \<union> B \<and> (\<forall>i. \<forall>b\<in>H. holds s i b \<longrightarrow> holds s' i b)"

lemma tstep_same:
  assumes "tstep H B s s'"
  shows "log_held H (flog s')" "itab s' = itab s" "sb s' = sb s" "fmem s' = fmem s" "fpid s' = fpid s" "fproc s' = fproc s"
    "fcwd s' = fcwd s" "start (flog s') = start (flog s)" "ldev (flog s') = ldev (flog s)"
    "outstanding (flog s') = outstanding (flog s)" "set (logged (flog s')) = set (logged (flog s)) \<union> B"
  using assms unfolding tstep_def by (metis fs.select_convs fs.surjective fs.update_convs(1))+

lemma tstep_refl [simp]: "log_held H (flog s) \<Longrightarrow> tstep H {} s s"
  by (simp add: tstep_def)

lemma tstep_trans [trans]: "tstep H B s t \<Longrightarrow> tstep H C t u \<Longrightarrow> tstep H (B \<union> C) s u"
  unfolding tstep_def by (metis (no_types, lifting) Un_assoc fs.select_convs(1) fs.surjective fs.update_convs(1))

lemma tstep_count: "tstep H B s s' \<Longrightarrow> finite B \<Longrightarrow> lh_n (flog s') \<le> lh_n (flog s) + int (card B)" if "log_held H (flog s)"
  using card_logged [OF that] card_logged [OF tstep_same(1)] card_Un_le [of "set (logged (flog s))" B]
  by (metis add_left_mono int_plus of_nat_le_iff tstep_same(11))

lemma holds_inj: "holds s i b \<Longrightarrow> holds s i e \<Longrightarrow> b = e"
  by (auto simp: holds_def owns_def matches_def)

lemma cache_only_eq: "cache_only s s' \<Longrightarrow> s' = s\<lparr>flog := flog s'\<rparr>"
  by (auto simp: cache_only_def)

text \<open>Looking at a block and releasing it, or changing it under the log.\<close>

lemma access_block:
  assumes l: "log_held H (flog s)" and b: "b \<notin> H"
    and room: "lh_n (flog s) + int (card H) < int LOGBLOCKS"
  obtains i s1 where "get_buf (ldev (flog s)) b s = Inr (i, s1)" "cache_only s s1" "buf_data i s1 = fview s b"
    "log_held (insert b H) (flog s1)" "holds s1 i b" "\<And>j e. holds s j e \<Longrightarrow> holds s1 j e"
    "\<exists>s2. rel_buf i s1 = Inr ((), s2) \<and> tstep H {} s s2 \<and> cache_only s s2"
    "\<And>x. 1 \<le> outstanding (flog s) \<Longrightarrow> b \<notin> log_region (start (flog s)) \<Longrightarrow>
       \<exists>s2. seq (put_data i x) (\<lambda>_. seq (log_buf i) (\<lambda>_. rel_buf i)) s1 = Inr ((), s2) \<and> tstep H {b} s s2 \<and>
         fview s2 = (fview s)(b := x)"
proof -
  have "card (set (logged (flog s)) \<union> H) < NBUF"
    using card_Un_le [of "set (logged (flog s))" H] card_logged [OF l] room by (simp add: NBUF_def LOGBLOCKS_def)
  then obtain i s1 where s1: "get_buf (ldev (flog s)) b s = Inr (i, s1)" "cache_only s s1" "log_held (insert b H) (flog s1)"
    "holds s1 i b" "buf_data i s1 = fview s b" "\<And>j e. holds s j e \<Longrightarrow> holds s1 j e"
    using get_buf_holds [OF l b] by blast
  note k = cache_only_same [OF s1(2)]
  have other: "j \<noteq> i" if "holds s j e" "e \<in> H" for j e
    using that s1(4,6) b holds_inj by blast
  show ?thesis
  proof (rule that [OF s1(1,2,5,3,4,6)])
    obtain s2 where s2: "rel_buf i s1 = Inr ((), s2)" "cache_only s1 s2" "log_held H (flog s2)"
      "\<And>j e. j \<noteq> i \<Longrightarrow> holds s1 j e \<Longrightarrow> holds s2 j e" using rel_buf_holds [OF s1(3) b s1(4)] by blast
    have "cache_only s s2" using s1(2) s2(2) by (rule cache_only_trans)
    moreover from this have "tstep H {} s s2"
      using s2 s1(6) other cache_only_same [of s s2] by (auto simp: tstep_def dest: cache_only_eq)
    ultimately show "\<exists>s2. rel_buf i s1 = Inr ((), s2) \<and> tstep H {} s s2 \<and> cache_only s s2" using s2(1) by blast
  next
    fix x assume nl: "1 \<le> outstanding (flog s)" "b \<notin> log_region (start (flog s))"
    have lt: "1 \<le> outstanding (flog s1)" "b \<notin> log_region (start (flog s1))" "lh_n (flog s1) < int LOGBLOCKS"
      using k nl room by auto
    obtain l' where l': "seq (put_data i x) (\<lambda>_. seq (log_buf i) (\<lambda>_. rel_buf i)) s1 = Inr ((), s1\<lparr>flog := l'\<rparr>)"
      "log_held H l'" "bview (ldev l') (cache l') = (fview s1)(b := x)" "start l' = start (flog s1)" "ldev l' = ldev (flog s1)"
      "outstanding l' = outstanding (flog s1)" "set (logged l') = insert b (set (logged (flog s1)))"
      "\<And>j e. j \<noteq> i \<Longrightarrow> holds s1 j e \<Longrightarrow> holds (s1\<lparr>flog := l'\<rparr>) j e"
      using log_buf_holds [OF s1(3) b s1(4) lt, of x thesis] by blast
    have e: "s1\<lparr>flog := l'\<rparr> = s\<lparr>flog := l'\<rparr>" using s1(2) by (auto simp: cache_only_def)
    have "tstep H {b} s (s\<lparr>flog := l'\<rparr>)"
      using l' k s1(6) other unfolding e by (auto simp: tstep_def)
    then show "\<exists>s2. seq (put_data i x) (\<lambda>_. seq (log_buf i) (\<lambda>_. rel_buf i)) s1 = Inr ((), s2) \<and> tstep H {b} s s2 \<and>
         fview s2 = (fview s)(b := x)"
      using l'(1,3) k(1) unfolding e by (intro exI [of _ "s\<lparr>flog := l'\<rparr>"]) (simp add: fview_def)
  qed
qed

lemma seq_assoc3:
  assumes "seq p (\<lambda>_. seq q (\<lambda>_. r)) t = Inr ((), s')"
  shows "seq p (\<lambda>_. seq q (\<lambda>_. seq r f)) t = f () s'"
  using assms by (auto simp: seq_def bind_result_def split: sum.splits prod.splits)

lemma bzero_spec:
  assumes "log_held H (flog s)" "1 \<le> outstanding (flog s)" "b \<notin> H" "lh_n (flog s) + int (card H) < int LOGBLOCKS"
    "b \<notin> log_region (start (flog s))" "dev = ldev (flog s)"
  obtains s' where "bzero dev b s = Inr ((), s')" "tstep H {b} s s'" "fview s' = (fview s)(b := replicate BSIZE 0)"
proof -
  obtain i s1 s2 where "get_buf (ldev (flog s)) b s = Inr (i, s1)"
    "seq (put_data i (replicate BSIZE 0)) (\<lambda>_. seq (log_buf i) (\<lambda>_. rel_buf i)) s1 = Inr ((), s2)" "tstep H {b} s s2"
    "fview s2 = (fview s)(b := replicate BSIZE 0)"
    using access_block [OF assms(1,3,4), of thesis] assms(2,5) by metis
  then show ?thesis using assms(6) by (intro that [of s2]) (simp_all add: bzero_def seq_Inr)
qed

section \<open>The free map\<close>

text \<open>Bit \<open>x\<close> of the free map.\<close>

definition map_bit :: "block \<Rightarrow> nat \<Rightarrow> bool" where
  "map_bit d bi \<longleftrightarrow> d ! (bi div 8) AND bit_mask bi \<noteq> 0"

definition block_used :: "superblock \<Rightarrow> (u32 \<Rightarrow> block) \<Rightarrow> nat \<Rightarrow> bool" where
  "block_used sbk v x \<longleftrightarrow> map_bit (v (BBLOCK (of_nat x) sbk)) (x mod 8192)"

lemma find_free_Some:
  "find_free d bi n = Some j \<Longrightarrow> bi \<le> j \<and> j < bi + n \<and> \<not> map_bit d j \<and> (\<forall>k. bi \<le> k \<and> k < j \<longrightarrow> map_bit d k)"
proof (induction n arbitrary: bi)
  case (Suc n)
  show ?case
  proof (cases "map_bit d bi")
    case True
    then have "find_free d (Suc bi) n = Some j" using Suc.prems by (simp add: map_bit_def)
    from Suc.IH [OF this] True show ?thesis by (metis Suc_leD Suc_le_eq add_Suc add_Suc_right le_neq_implies_less)
  next
    case False
    then show ?thesis using Suc.prems by (auto simp: map_bit_def)
  qed
qed simp

lemma find_free_None: "find_free d bi n = None \<Longrightarrow> bi \<le> k \<Longrightarrow> k < bi + n \<Longrightarrow> map_bit d k"
proof (induction n arbitrary: bi)
  case (Suc n)
  show ?case
  proof (cases "k = bi")
    case False
    then show ?thesis using Suc by (auto split: if_splits)
  qed (use Suc.prems in \<open>auto simp: map_bit_def split: if_splits\<close>)
qed simp

lemma BBLOCK_nat:
  assumes "x < 2 ^ 32"
  shows "BBLOCK (of_nat x) sbk = of_nat (x div 8192) + bmapstart sbk"
proof -
  have "(of_nat x :: u32) div BPB = of_nat (x div 8192)"
    using assms by (simp add: BPB_def word_unat_eq_iff unat_div_distrib unat_of_nat take_bit_nat_eq_self div_less_dividend less_mult_imp_div_less)
  then show ?thesis by (simp add: BBLOCK_def)
qed

lemma bit_mask_bit: "bit (bit_mask bi) n \<longleftrightarrow> n = bi mod 8"
  by (auto simp: bit_mask_def bit_simps)

lemma map_bit_iff: "map_bit d bi \<longleftrightarrow> bit (d ! (bi div 8)) (bi mod 8)"
proof -
  have "d ! (bi div 8) AND bit_mask bi \<noteq> 0 \<longleftrightarrow> (\<exists>n. bit (d ! (bi div 8) AND bit_mask bi) n)"
    by (metis bit_0_eq bot_apply bot_bool_def bit_eqI)
  also have "\<dots> \<longleftrightarrow> bit (d ! (bi div 8)) (bi mod 8)" by (auto simp: bit_simps bit_mask_bit)
  finally show ?thesis by (simp add: map_bit_def)
qed

lemma map_bit_set:
  assumes "bi div 8 < length d"
  shows "map_bit (d[bi div 8 := d ! (bi div 8) OR bit_mask bi]) bj \<longleftrightarrow> map_bit d bj \<or> bj = bi"
    and "map_bit (d[bi div 8 := d ! (bi div 8) AND NOT (bit_mask bi)]) bj \<longleftrightarrow> map_bit d bj \<and> bj \<noteq> bi"
proof -
  have "bj = bi \<longleftrightarrow> bj div 8 = bi div 8 \<and> bj mod 8 = bi mod 8" by (metis div_mult_mod_eq)
  then show "map_bit (d[bi div 8 := d ! (bi div 8) OR bit_mask bi]) bj \<longleftrightarrow> map_bit d bj \<or> bj = bi"
    "map_bit (d[bi div 8 := d ! (bi div 8) AND NOT (bit_mask bi)]) bj \<longleftrightarrow> map_bit d bj \<and> bj \<noteq> bi"
    using assms by (auto simp: map_bit_iff nth_list_update bit_simps bit_mask_bit)
qed

text \<open>The free map of a file system of \<open>n\<close> blocks: its blocks are full and outside the log, and a
  free block is neither in the log nor part of the map.\<close>

definition free_map_ok :: "superblock \<Rightarrow> u32 \<Rightarrow> (u32 \<Rightarrow> block) \<Rightarrow> bool" where
  "free_map_ok sbk st v \<longleftrightarrow> unat (fssize sbk) \<le> 2 ^ 31 \<and>
     (\<forall>x<unat (fssize sbk). length (v (BBLOCK (of_nat x) sbk)) = BSIZE \<and> BBLOCK (of_nat x) sbk \<notin> log_region st \<and>
        (\<not> block_used sbk v x \<longrightarrow> of_nat x \<notin> log_region st \<and> (\<forall>y<unat (fssize sbk). of_nat x \<noteq> BBLOCK (of_nat y) sbk)))"

text \<open>What the loop of \<open>balloc\<close> from block \<open>b\<close> on returns and does: 0 and no change, or the first free
  block, marked in the map and zeroed.\<close>

definition take_block :: "superblock \<Rightarrow> nat \<Rightarrow> (u32 \<Rightarrow> block) \<Rightarrow> u32 \<Rightarrow> block" where
  "take_block sbk x v =
     (let bb = BBLOCK (of_nat x) sbk; bi = x mod 8192
      in v(bb := (v bb)[bi div 8 := v bb ! (bi div 8) OR bit_mask bi], of_nat x := replicate BSIZE 0))"

definition balloc_result :: "u32 set \<Rightarrow> fs \<Rightarrow> nat \<Rightarrow> u32 \<Rightarrow> fs \<Rightarrow> bool" where
  "balloc_result H s b r s' \<longleftrightarrow>
     (\<forall>x. b \<le> x \<and> x < unat (fssize (sb s)) \<longrightarrow> block_used (sb s) (fview s) x) \<and> r = 0 \<and> tstep H {} s s' \<and> fview s' = fview s \<or>
     (\<exists>x. r = of_nat x \<and> b \<le> x \<and> x < unat (fssize (sb s)) \<and> \<not> block_used (sb s) (fview s) x \<and>
        (\<forall>y. b \<le> y \<and> y < x \<longrightarrow> block_used (sb s) (fview s) y) \<and>
        tstep H {BBLOCK r (sb s), r} s s' \<and> fview s' = take_block (sb s) x (fview s))"

lemma balloc_result_skip:
  assumes res: "balloc_result H t (b + n) r s'" and t: "tstep H {} s t" "fview t = fview s"
    and all: "\<And>x. b \<le> x \<Longrightarrow> x < b + n \<Longrightarrow> x < unat (fssize (sb s)) \<Longrightarrow> block_used (sb s) (fview s) x"
  shows "balloc_result H s b r s'"
proof -
  note k = tstep_same [OF t(1)]
  note c = tstep_trans [OF t(1), simplified]
  from res [unfolded balloc_result_def k t(2)] consider
    "\<forall>x. b + n \<le> x \<and> x < unat (fssize (sb s)) \<longrightarrow> block_used (sb s) (fview s) x" "r = 0" "tstep H {} t s'" "fview s' = fview s" |
    x where "r = of_nat x" "b + n \<le> x" "x < unat (fssize (sb s))" "\<not> block_used (sb s) (fview s) x"
      "\<forall>y. b + n \<le> y \<and> y < x \<longrightarrow> block_used (sb s) (fview s) y" "tstep H {BBLOCK r (sb s), r} t s'"
      "fview s' = take_block (sb s) x (fview s)" by blast
  then show ?thesis
  proof cases
    case 1
    then have "\<forall>x. b \<le> x \<and> x < unat (fssize (sb s)) \<longrightarrow> block_used (sb s) (fview s) x"
      using all by (metis not_le_imp_less)
    then show ?thesis using 1 c unfolding balloc_result_def by blast
  next
    case (2 x)
    have "block_used (sb s) (fview s) y" if "b \<le> y" "y < x" for y
      using that 2(3,5) all [of y] by (cases "b + n \<le> y") auto
    then show ?thesis unfolding balloc_result_def using 2 c by (intro disjI2 exI [of _ x]) simp
  qed
qed

text \<open>No block of the map and no free block is held.\<close>

definition map_free :: "superblock \<Rightarrow> (u32 \<Rightarrow> block) \<Rightarrow> u32 set \<Rightarrow> bool" where
  "map_free sbk v H \<longleftrightarrow> (\<forall>x<unat (fssize sbk). BBLOCK (of_nat x) sbk \<notin> H \<and> (\<not> block_used sbk v x \<longrightarrow> of_nat x \<notin> H))"

lemma balloc_loop_spec:
  assumes "log_held H (flog s)" "1 \<le> outstanding (flog s)" "lh_n (flog s) + int (card H) + 2 \<le> int LOGBLOCKS"
    "free_map_ok (sb s) (start (flog s)) (fview s)" "map_free (sb s) (fview s) H" "dev = ldev (flog s)"
    and "b = 8192 * q" "unat (fssize (sb s)) \<le> b + 8192 * n" "n = 0 \<or> b + 8192 * (n - 1) < unat (fssize (sb s))"
  shows "\<exists>r s'. balloc_loop dev b n s = Inr (r, s') \<and> balloc_result H s b r s'"
  using assms
proof (induction n arbitrary: b q s)
  case 0
  then show ?case by (auto simp: ret_def balloc_result_def)
next
  case (Suc n)
  let ?sz = "unat (fssize (sb s))" and ?bb = "BBLOCK (of_nat b) (sb s)"
  have bsz: "b < ?sz" using Suc.prems(9) by simp
  have big: "?sz \<le> 2 ^ 31" using Suc.prems(4) by (simp add: free_map_ok_def)
  have blk: "BBLOCK (of_nat x) (sb s) = ?bb" "x mod 8192 = x - b" if "b \<le> x" "x < b + 8192" "x < ?sz" for x
  proof -
    have d: "x div 8192 = q" "b div 8192 = q" using that Suc.prems(7) by (simp_all add: div_nat_eqI)
    then show "BBLOCK (of_nat x) (sb s) = ?bb" using that bsz big by (simp add: BBLOCK_nat)
    show "x mod 8192 = x - b" using d(1) Suc.prems(7) by (simp add: modulo_nat_def)
  qed
  have bb: "?bb \<notin> H" "?bb \<notin> log_region (start (flog s))"
    using Suc.prems(4,5) bsz by (simp_all add: map_free_def free_map_ok_def)
  obtain i s1 where s1: "get_buf dev ?bb s = Inr (i, s1)" "cache_only s s1" "buf_data i s1 = fview s ?bb"
    "\<exists>s2. rel_buf i s1 = Inr ((), s2) \<and> tstep H {} s s2 \<and> cache_only s s2"
    "\<And>x. \<exists>s2. seq (put_data i x) (\<lambda>_. seq (log_buf i) (\<lambda>_. rel_buf i)) s1 = Inr ((), s2) \<and> tstep H {?bb} s s2 \<and>
         fview s2 = (fview s)(?bb := x)"
    using access_block [OF Suc.prems(1) bb(1), of thesis] Suc.prems(2,3,6) bb(2) by auto
  let ?lim = "min (unat BPB) (?sz - b)"
  have gb: "seq (\<lambda>s. get_buf dev (BBLOCK (of_nat b) (sb s)) s) f s = f i s1" for f :: "nat \<Rightarrow> u32 fsm"
    by (rule seq_Inr) (simp add: s1(1))
  have used: "block_used (sb s) (fview s) x \<longleftrightarrow> map_bit (fview s ?bb) (x - b)"
    if "b \<le> x" "x < b + 8192" "x < ?sz" for x using blk [OF that] by (simp add: block_used_def)
  have lim: "k < ?lim \<longleftrightarrow> k < 8192 \<and> b + k < ?sz" for k using bsz by (auto simp: BPB_def)
  have sb1: "sb s1 = sb s" using cache_only_same [OF s1(2)] by simp
  show ?case
  proof (cases "find_free (fview s ?bb) 0 ?lim")
    case None
    obtain s2 where s2: "rel_buf i s1 = Inr ((), s2)" "tstep H {} s s2" "cache_only s s2" using s1(4) by blast
    note k = cache_only_same [OF s2(3)]
    have all: "block_used (sb s) (fview s) x" if "b \<le> x" "x < b + 8192" "x < ?sz" for x
      using find_free_None [OF None, of "x - b"] that used [OF that] lim [of "x - b"] by auto
    have e: "balloc_loop dev b (Suc n) s = balloc_loop dev (b + 8192) n s2"
      using None by (simp add: gb s1(3) sb1 seq_Inr [where m = "rel_buf i", OF s2(1)]) (simp add: BPB_def)
    have "b + 8192 = 8192 * Suc q"
      "unat (fssize (sb s2)) \<le> (b + 8192) + 8192 * n" "n = 0 \<or> (b + 8192) + 8192 * (n - 1) < unat (fssize (sb s2))"
      using Suc.prems(7-9) by (simp_all add: k) (cases n, simp_all)
    from Suc.IH [OF tstep_same(1) [OF s2(2)] _ _ _ _ _ this] Suc.prems(2-6)
    obtain r s' where r: "balloc_loop dev (b + 8192) n s2 = Inr (r, s')" "balloc_result H s2 (b + 8192) r s'"
      by (auto simp: k)
    show ?thesis using e r(1) balloc_result_skip [OF r(2) s2(2) k(1) all] by auto
  next
    case (Some bi)
    note ff = find_free_Some [OF Some]
    let ?x = "b + bi"
    have x: "?x < ?sz" "bi < 8192" using ff lim [of bi] by auto
    have nu: "\<not> block_used (sb s) (fview s) ?x" using ff used [of ?x] x by simp
    have before: "\<forall>y. b \<le> y \<and> y < ?x \<longrightarrow> block_used (sb s) (fview s) y"
    proof (intro allI impI)
      fix y assume "b \<le> y \<and> y < ?x"
      then show "block_used (sb s) (fview s) y"
        using ff used [of y] x by (auto simp: less_diff_conv2)
    qed
    have blkx: "BBLOCK (of_nat ?x) (sb s) = ?bb" "?x mod 8192 = bi" using blk [of ?x] x by auto
    have ok: "of_nat ?x \<notin> log_region (start (flog s))" "of_nat ?x \<notin> H"
      using Suc.prems(4,5) x nu by (auto simp: free_map_ok_def map_free_def)
    let ?d = "(fview s ?bb)[bi div 8 := fview s ?bb ! (bi div 8) OR bit_mask bi]"
    obtain s2 where s2: "seq (put_data i ?d) (\<lambda>_. seq (log_buf i) (\<lambda>_. rel_buf i)) s1 = Inr ((), s2)" "tstep H {?bb} s s2"
      "fview s2 = (fview s)(?bb := ?d)" using s1(5) by blast
    note k2 = tstep_same [OF s2(2)]
    have "lh_n (flog s2) \<le> lh_n (flog s) + 1" using tstep_count [OF Suc.prems(1) s2(2)] by simp
    then have rm: "lh_n (flog s2) + int (card H) < int LOGBLOCKS" using Suc.prems(3) by linarith
    obtain s3 where s3: "bzero dev (of_nat ?x) s2 = Inr ((), s3)" "tstep H {of_nat ?x} s2 s3"
      "fview s3 = (fview s2)(of_nat ?x := replicate BSIZE 0)"
      using bzero_spec [OF k2(1) _ ok(2) rm, of dev thesis] k2 Suc.prems(2,6) ok(1) by simp
    have "balloc_loop dev b (Suc n) s = Inr (of_nat ?x, s3)"
      using Some by (simp add: gb s1(3) sb1 Let_def seq_assoc3 [OF s2(1)] seq_Inr [where m = "bzero dev (of_nat ?x)", OF s3(1)] ret_def
          del: of_nat_add)
    moreover have "tstep H {BBLOCK (of_nat ?x) (sb s), of_nat ?x} s s3"
      using tstep_trans [OF s2(2) s3(2)] unfolding blkx by (simp add: insert_commute)
    moreover have "fview s3 = take_block (sb s) ?x (fview s)"
      unfolding take_block_def Let_def blkx s3(3) s2(3) ..
    ultimately have "balloc_result H s b (of_nat ?x) s3"
      unfolding balloc_result_def using x(1) nu before by (intro disjI2 exI [of _ ?x]) simp
    then show ?thesis using \<open>balloc_loop dev b (Suc n) s = Inr (of_nat ?x, s3)\<close> by blast
  qed
qed

lemma balloc_spec:
  assumes "log_held H (flog s)" "1 \<le> outstanding (flog s)" "lh_n (flog s) + int (card H) + 2 \<le> int LOGBLOCKS"
    "free_map_ok (sb s) (start (flog s)) (fview s)" "map_free (sb s) (fview s) H" "dev = ldev (flog s)"
  obtains r s' where "balloc dev s = Inr (r, s')" "balloc_result H s 0 r s'"
proof -
  let ?n = "(unat (fssize (sb s)) + unat BPB - 1) div unat BPB"
  have "unat (fssize (sb s)) \<le> 0 + 8192 * ?n" "?n = 0 \<or> 0 + 8192 * (?n - 1) < unat (fssize (sb s))"
    by (simp_all add: BPB_def) linarith+
  from balloc_loop_spec [OF assms _ this, of 0] show ?thesis using that by (auto simp: balloc_def)
qed

lemma balloc_result_tstep:
  assumes "balloc_result H s b r s'"
  obtains B where "tstep H B s s'" "finite B" "card B \<le> 2"
proof -
  have "tstep H {} s s' \<or> tstep H {BBLOCK r (sb s), r} s s'" using assms unfolding balloc_result_def by blast
  moreover have "card {BBLOCK r (sb s), r} \<le> 2" by (simp add: card_insert_if)
  ultimately show ?thesis using that [of "{}"] that [of "{BBLOCK r (sb s), r}"] by auto
qed

lemma bfree_spec:
  assumes l: "log_held {} (flog s)" "1 \<le> outstanding (flog s)" "lh_n (flog s) < int LOGBLOCKS" "dev = ldev (flog s)"
    and "BBLOCK b (sb s) \<notin> log_region (start (flog s))"
  defines "bb \<equiv> BBLOCK b (sb s)" and "bi \<equiv> unat (b mod BPB)"
  shows "if map_bit (fview s bb) bi
    then \<exists>s'. bfree dev b s = Inr ((), s') \<and> tstep {} {bb} s s' \<and>
      fview s' = (fview s)(bb := (fview s bb)[bi div 8 := fview s bb ! (bi div 8) AND NOT (bit_mask bi)])
    else bfree dev b s = Inl (Panic ''freeing free block'')"
proof -
  let ?d = "(fview s bb)[bi div 8 := fview s bb ! (bi div 8) AND NOT (bit_mask bi)]"
  obtain i s1 s2 where s1: "get_buf dev bb s = Inr (i, s1)" "buf_data i s1 = fview s bb"
    and s2: "seq (put_data i ?d) (\<lambda>_. seq (log_buf i) (\<lambda>_. rel_buf i)) s1 = Inr ((), s2)" "tstep {} {bb} s s2"
      "fview s2 = (fview s)(bb := ?d)"
    using access_block [OF l(1), of bb thesis] l(2-4) assms(5) by (simp add: bb_def) metis
  have gb: "seq (\<lambda>s. get_buf dev (BBLOCK b (sb s)) s) f s = f i s1" for f :: "nat \<Rightarrow> unit fsm"
    by (rule seq_Inr) (simp add: s1(1) flip: bb_def)
  show ?thesis
    unfolding bfree_def gb using s2 by (auto simp: s1(2) Let_def map_bit_def simp flip: bi_def)
qed

text \<open>A transaction with room for \<open>r\<close> more blocks, between two calls.\<close>

definition log_ready :: "u32 \<Rightarrow> nat \<Rightarrow> fs \<Rightarrow> bool" where
  "log_ready dev r s \<longleftrightarrow> log_quiet (flog s) \<and> ldev (flog s) = dev \<and> 1 \<le> outstanding (flog s) \<and>
     lh_n (flog s) + int r \<le> int LOGBLOCKS"

lemma log_ready_held: "log_ready dev r s \<Longrightarrow> log_held {} (flog s)"
  by (simp add: log_ready_def log_held_empty)

lemma tstep_ready:
  assumes "log_ready dev (card B + r) s" "tstep {} B s s'" "finite B"
  shows "log_ready dev r s'"
  using assms tstep_count [OF log_ready_held [OF assms(1)] assms(2,3)] tstep_same [OF assms(2)]
  by (simp add: log_ready_def flip: log_held_empty)

text \<open>C23: \<open>balloc\<close> on a sound free map takes the first block whose bit is clear, sets that bit, fills
  the block with zeros, and returns it; or it returns 0 and changes nothing when every bit is set.
  Both block writes go through the log. \<open>bfree\<close> of a block in use clears just that bit, and panics
  on a block that is free.\<close>

theorem balloc_bfree:
  assumes "log_ready dev 2 s" "free_map_ok (sb s) (start (flog s)) (fview s)"
  shows "(\<exists>r s'. balloc dev s = Inr (r, s') \<and> balloc_result {} s 0 r s' \<and> log_ready dev 0 s') \<and>
    (\<forall>x<unat (fssize (sb s)).
      if block_used (sb s) (fview s) x
      then \<exists>s'. bfree dev (of_nat x) s = Inr ((), s') \<and> log_ready dev 1 s' \<and>
        (\<forall>y<unat (fssize (sb s)). block_used (sb s) (fview s') y \<longleftrightarrow> block_used (sb s) (fview s) y \<and> y \<noteq> x)
      else bfree dev (of_nat x) s = Inl (Panic ''freeing free block''))"
proof (intro conjI allI impI)
  have h: "log_held {} (flog s)" using assms(1) by (rule log_ready_held)
  have "map_free (sb s) (fview s) {}" by (simp add: map_free_def)
  then obtain r s' where r: "balloc dev s = Inr (r, s')" "balloc_result {} s 0 r s'"
    using balloc_spec [OF h, of dev thesis] assms by (simp add: log_ready_def)
  from r(2) obtain B where B: "tstep {} B s s'" "finite B" "card B \<le> 2"
    by (rule balloc_result_tstep)
  then have "log_ready dev (card B + 0) s" using assms(1) by (simp add: log_ready_def)
  then have "log_ready dev 0 s'" using B tstep_ready by blast
  then show "\<exists>r s'. balloc dev s = Inr (r, s') \<and> balloc_result {} s 0 r s' \<and> log_ready dev 0 s'" using r by blast
next
  fix x assume x: "x < unat (fssize (sb s))"
  let ?bb = "BBLOCK (of_nat x) (sb s)"
  have sz: "unat (fssize (sb s)) \<le> 2 ^ 31" using assms(2) by (simp add: free_map_ok_def)
  have len: "length (fview s ?bb) = 1024" "?bb \<notin> log_region (start (flog s))"
    using assms(2) x by (simp_all add: free_map_ok_def BSIZE_def)
  have bi: "unat ((of_nat x :: u32) mod BPB) = x mod 8192"
    using x sz by (simp add: BPB_def unat_mod_distrib unat_of_nat take_bit_nat_eq_self)
  have l: "log_held {} (flog s)" "1 \<le> outstanding (flog s)" "lh_n (flog s) < int LOGBLOCKS" "dev = ldev (flog s)"
    using assms(1) log_ready_held [OF assms(1)] by (auto simp: log_ready_def)
  have rd: "log_ready dev 1 s'" if "tstep {} {?bb} s s'" for s'
    using tstep_ready [of dev "{?bb}" 1 s s'] that assms(1) by (simp add: numeral_2_eq_2)
  note bf = bfree_spec [OF l len(2), unfolded bi]
  show "if block_used (sb s) (fview s) x
      then \<exists>s'. bfree dev (of_nat x) s = Inr ((), s') \<and> log_ready dev 1 s' \<and>
        (\<forall>y<unat (fssize (sb s)). block_used (sb s) (fview s') y \<longleftrightarrow> block_used (sb s) (fview s) y \<and> y \<noteq> x)
      else bfree dev (of_nat x) s = Inl (Panic ''freeing free block'')"
  proof (cases "block_used (sb s) (fview s) x")
    case True
    let ?d = "(fview s ?bb)[x mod 8192 div 8 := fview s ?bb ! (x mod 8192 div 8) AND NOT (bit_mask (x mod 8192))]"
    obtain s' where s': "bfree dev (of_nat x) s = Inr ((), s')" "log_ready dev 1 s'" "fview s' = (fview s)(?bb := ?d)"
      using bf True rd by (auto simp: block_used_def)
    have "block_used (sb s) (fview s') y \<longleftrightarrow> block_used (sb s) (fview s) y \<and> y \<noteq> x" if y: "y < unat (fssize (sb s))" for y
    proof (cases "BBLOCK (of_nat y) (sb s) = ?bb")
      case False
      then show ?thesis using s'(3) by (auto simp: block_used_def)
    next
      case True
      then have "(of_nat (y div 8192) :: u32) = of_nat (x div 8192)"
        using x y sz by (simp add: BBLOCK_nat)
      moreover have "y div 8192 < 2 ^ 32" "x div 8192 < 2 ^ 32" using x y sz by simp_all
      ultimately have "y div 8192 = x div 8192"
        by (simp add: word_of_nat_eq_iff take_bit_nat_eq_self)
      then have "y mod 8192 = x mod 8192 \<longleftrightarrow> y = x" by (metis div_mult_mod_eq)
      moreover have "x mod 8192 div 8 < length (fview s ?bb)" using len(1) by simp
      ultimately show ?thesis
        using s'(3) True map_bit_set(2) [of "x mod 8192" "fview s ?bb" "y mod 8192"] by (simp add: block_used_def)
    qed
    then show ?thesis using True s' by auto
  next
    case False
    then show ?thesis using bf by (simp add: block_used_def)
  qed
qed

text \<open>An example: the layout of \<^verbatim>\<open>mkfs\<close> in small, with the first 48 blocks marked in use.\<close>

definition disk_ex :: "u32 \<Rightarrow> block" where
  "disk_ex b = (if b = 46 then replicate 6 255 @ replicate 1018 0 else replicate BSIZE 0)"

lemma log_region_2: "b \<in> log_region 2 \<longleftrightarrow> 2 \<le> unat b \<and> unat b \<le> 32"
proof
  assume "b \<in> log_region 2"
  then consider "b = 2" | i where "i < 30" "b = of_nat (i + 3)"
    by (auto simp: log_region_def log_slot_def xv6_const algebra_simps)
  then show "2 \<le> unat b \<and> unat b \<le> 32"
    by cases (simp_all add: unat_of_nat take_bit_nat_eq_self del: of_nat_add)
next
  assume b: "2 \<le> unat b \<and> unat b \<le> 32"
  show "b \<in> log_region 2"
  proof (cases "unat b = 2")
    case True
    then have "b = 2" by (simp add: word_unat_eq_iff)
    then show ?thesis by simp
  next
    case False
    have "b = of_nat (unat b)" by simp
    also have "\<dots> = of_nat ((unat b - 3) + 3)" using b False by (intro arg_cong [of _ _ of_nat]) simp
    finally have "b = log_slot 2 (unat b - 3)" by (simp add: log_slot_def add.commute)
    then show ?thesis using b False unfolding log_region_def
      by (intro insertI2 image_eqI [of _ _ "unat b - 3"]) (auto simp: xv6_const)
  qed
qed

lemma log_boot:
  assumes "d 2 = replicate BSIZE 0"
  obtains l where "log_quiet l" "lh_n l = 0" "start l = 2" "ldev l = 1" "outstanding l = 1"
    "\<And>b. b \<notin> log_region 2 \<Longrightarrow> bview 1 (cache l) b = d b"
proof -
  have vh: "valid_head 2 (d 2) 0" using assms zero_head by simp
  obtain r where r: "log_quiet r" "lh_n r = 0" "start r = 2" "ldev r = 1" "outstanding r = 0" "\<not> committing r"
    "\<And>b. b \<notin> log_region 2 \<Longrightarrow> disk (cache r) b = d b"
    by (rule recover_boot [where dev = 1 and st = 2 and d = d and m = 0 and pid = 0]) (use vh in auto)
  obtain n where "abs_state (ldev r) (cache r) (bview (ldev r) (cache r))
      (\<lambda>b. if b \<in> set (logged r) then 1 else 0) (\<lambda>_. False) (disk (cache r)) (dtrace (cache r)) n"
    by (rule log_quiet_abs [OF r(1)])
  then have "bview 1 (cache r) b = disk (cache r) b" for b
    using abs_state_clean r(2,4) by (fastforce simp: logged_def)
  then show ?thesis using r by (intro that [of "r\<lparr>outstanding := 1\<rparr>"]) simp_all
qed

lemma fs_boot_example:
  assumes "d 2 = replicate BSIZE 0"
  obtains s where "log_ready 1 30 s" "sb s = sb fs_ex" "start (flog s) = 2" "\<And>b. b \<notin> log_region 2 \<Longrightarrow> fview s b = d b"
proof -
  obtain l where "log_quiet l" "lh_n l = 0" "start l = 2" "ldev l = 1" "outstanding l = 1"
    "\<And>b. b \<notin> log_region 2 \<Longrightarrow> bview 1 (cache l) b = d b" using assms by (rule log_boot) blast
  then show ?thesis
    by (intro that [of "fs_ex\<lparr>flog := l\<rparr>"]) (simp_all add: log_ready_def fview_def xv6_const)
qed

lemma disk_ex_map_bit: "map_bit (disk_ex 46) x \<longleftrightarrow> x < 48" if "x < 8192"
proof -
  have b: "bit (255 :: u8) n" if "n < 8" for n
  proof -
    have "(255 :: u8) = mask 8" by (simp add: mask_eq_exp_minus_1)
    then show ?thesis using that by (simp only: bit_mask_iff) simp
  qed
  show ?thesis
  proof (cases "x < 48")
    case True
    then have "disk_ex 46 ! (x div 8) = 255" by (simp add: disk_ex_def nth_append)
    then show ?thesis using True b by (simp add: map_bit_iff)
  next
    case False
    then have "disk_ex 46 ! (x div 8) = 0" using that by (simp add: disk_ex_def nth_append)
    then show ?thesis using False by (simp add: map_bit_iff)
  qed
qed

lemma free_map_example:
  assumes "sb s = sb fs_ex" "start (flog s) = 2" "\<And>b. b \<notin> log_region 2 \<Longrightarrow> fview s b = disk_ex b"
  shows "free_map_ok (sb s) (start (flog s)) (fview s)"
proof -
  have bb: "BBLOCK (of_nat x) (sb s) = 46" if "x < 2000" for x
    using that by (simp add: BBLOCK_nat assms(1) fs_ex_def)
  have v: "fview s 46 = disk_ex 46" using assms(3) by (simp add: log_region_2)
  have "block_used (sb s) (fview s) x \<longleftrightarrow> x < 48" if "x < 2000" for x
    using that bb [OF that] v disk_ex_map_bit [of x] by (simp add: block_used_def)
  moreover have "unat (of_nat x :: u32) = x" if "x < 2000" for x
    using that by (simp add: unat_of_nat take_bit_nat_eq_self)
  moreover have "(of_nat x :: u32) \<noteq> 46" if "x < 2000" "\<not> x < 48" for x
    using that by (auto simp: word_unat_eq_iff unat_of_nat take_bit_nat_eq_self)
  moreover have "length (disk_ex 46) = BSIZE" by (simp add: disk_ex_def BSIZE_def)
  ultimately show ?thesis
    using bb v assms(2) by (auto simp: free_map_ok_def log_region_2 assms(1) fs_ex_def)
qed

theorem balloc_bfree_witness:
  "\<exists>s r s'. log_ready 1 2 s \<and> balloc 1 s = Inr (r, s') \<and> log_ready 1 0 s'"
proof -
  obtain s where s: "log_ready 1 30 s" "sb s = sb fs_ex" "start (flog s) = 2" "\<And>b. b \<notin> log_region 2 \<Longrightarrow> fview s b = disk_ex b"
    by (rule fs_boot_example [of disk_ex]) (simp_all add: disk_ex_def)
  have "log_ready 1 2 s" using s(1) by (simp add: log_ready_def)
  from balloc_bfree [OF this free_map_example [OF s(2-4)]] this show ?thesis by blast
qed

end
