(* ===== verification/Fscontent.thy ===== *)
theory Fscontent
  imports Freemap
begin

text \<open>
  The contents of files: what \<open>readi\<close> and \<open>dirlookup\<close> of \<^verbatim>\<open>kernel/fs.c\<close> return in terms of the blocks
  that readers see (\<open>fview\<close>). A file is the list of its bytes, a directory the list of its entries;
  the block a byte is in is found through the direct and the indirect addresses of the inode.
\<close>

section \<open>The contents of a file\<close>

definition file_addr :: "(u32 \<Rightarrow> block) \<Rightarrow> inode \<Rightarrow> nat \<Rightarrow> u32" where
  "file_addr v x bn =
     (if bn < NDIRECT then iaddrs x ! bn
      else if iaddrs x ! NDIRECT = 0 then 0
      else get32 (v (iaddrs x ! NDIRECT)) (4 * (bn - NDIRECT)))"

definition file_byte :: "(u32 \<Rightarrow> block) \<Rightarrow> inode \<Rightarrow> nat \<Rightarrow> u8" where
  "file_byte v x i = v (file_addr v x (i div BSIZE)) ! (i mod BSIZE)"

definition file_slice :: "(u32 \<Rightarrow> block) \<Rightarrow> inode \<Rightarrow> nat \<Rightarrow> nat \<Rightarrow> u8 list" where
  "file_slice v x off n = map (file_byte v x) [off..<off + n]"

definition file_bytes :: "(u32 \<Rightarrow> block) \<Rightarrow> inode \<Rightarrow> u8 list" where
  "file_bytes v x = file_slice v x 0 (unat (isize x))"

text \<open>A file within the size limit, every block of which is there.\<close>

definition file_ok :: "(u32 \<Rightarrow> block) \<Rightarrow> inode \<Rightarrow> bool" where
  "file_ok v x \<longleftrightarrow> unat (isize x) \<le> MAXFILE * BSIZE \<and>
     (\<forall>bn. bn * BSIZE < unat (isize x) \<longrightarrow> file_addr v x bn \<noteq> 0 \<and> length (v (file_addr v x bn)) = BSIZE)"

lemma length_file_slice [simp]: "length (file_slice v x off n) = n"
  by (simp add: file_slice_def)

lemma length_file_bytes [simp]: "length (file_bytes v x) = unat (isize x)"
  by (simp add: file_bytes_def)

lemma file_slice_append: "file_slice v x off (m + n) = file_slice v x off m @ file_slice v x (off + m) n"
proof -
  have "[off..<off + (m + n)] = [off..<off + m] @ [off + m..<off + (m + n)]" by (metis add.assoc upt_add_eq_append le_add1)
  then show ?thesis by (simp add: file_slice_def add.assoc)
qed

lemma file_slice_bytes:
  "off + n \<le> unat (isize x) \<Longrightarrow> file_slice v x off n = take n (drop off (file_bytes v x))"
  by (simp add: file_slice_def file_bytes_def take_map drop_map)

lemma file_slice_block:
  assumes "length (v (file_addr v x (off div BSIZE))) = BSIZE" "m \<le> BSIZE - off mod BSIZE"
  shows "take m (drop (off mod BSIZE) (v (file_addr v x (off div BSIZE)))) = file_slice v x off m"
proof (rule nth_equalityI)
  have B: "0 < BSIZE" by (simp add: BSIZE_def)
  show "length (take m (drop (off mod BSIZE) (v (file_addr v x (off div BSIZE))))) = length (file_slice v x off m)"
    using assms by simp
  fix i assume "i < length (take m (drop (off mod BSIZE) (v (file_addr v x (off div BSIZE)))))"
  then have i: "i < m" "off mod BSIZE + i < BSIZE" using assms by simp_all
  have "off + i = off div BSIZE * BSIZE + (off mod BSIZE + i)" by simp
  then have "(off + i) div BSIZE = off div BSIZE" "(off + i) mod BSIZE = off mod BSIZE + i"
    using i(2) B by (metis div_mult_self3 div_less add.right_neutral less_numeral_extra(3), metis mod_mult_self3 mod_less)
  then show "take m (drop (off mod BSIZE) (v (file_addr v x (off div BSIZE)))) ! i = file_slice v x off m ! i"
    using assms i by (simp add: file_slice_def file_byte_def)
qed

section \<open>Operations that only read\<close>

text \<open>A file system between two calls with a buffer to spare, and a state reached by reading only:
  the buffer cache may differ, but not what it shows.\<close>

definition fs_quiet :: "fs \<Rightarrow> bool" where
  "fs_quiet s \<longleftrightarrow> log_quiet (flog s) \<and> lh_n (flog s) < int LOGBLOCKS"

definition reads_only :: "fs \<Rightarrow> fs \<Rightarrow> bool" where
  "reads_only s s' \<longleftrightarrow> cache_only s s' \<and> fs_quiet s'"

lemma reads_only_refl: "fs_quiet s \<Longrightarrow> reads_only s s"
  by (simp add: reads_only_def)

lemma reads_only_trans [trans]: "reads_only s t \<Longrightarrow> reads_only t u \<Longrightarrow> reads_only s u"
  by (auto simp: reads_only_def intro: cache_only_trans)

lemma reads_only_same:
  assumes "reads_only s s'"
  shows "fs_quiet s'" "fview s' = fview s" "itab s' = itab s" "ldev (flog s') = ldev (flog s)"
  using assms cache_only_same [of s s'] by (simp_all add: reads_only_def)

lemma peek_buf:
  assumes "fs_quiet s" "dev = ldev (flog s)"
  obtains i s1 s2 where "get_buf dev b s = Inr (i, s1)" "buf_data i s1 = fview s b" "itab s1 = itab s"
    "rel_buf i s1 = Inr ((), s2)" "reads_only s s2"
proof -
  have l: "log_held {} (flog s)" "lh_n (flog s) + int (card {}) < int LOGBLOCKS"
    using assms(1) by (simp_all add: fs_quiet_def log_held_empty)
  obtain i s1 s2 where s1: "get_buf dev b s = Inr (i, s1)" "cache_only s s1" "buf_data i s1 = fview s b"
    and s2: "rel_buf i s1 = Inr ((), s2)" "tstep {} {} s s2" "cache_only s s2"
    using access_block [OF l(1) _ l(2), of b thesis] assms(2) by blast
  have "fs_quiet s2" using assms(1) cache_only_same [OF s2(3)] tstep_same(1) [OF s2(2)] by (simp add: fs_quiet_def log_held_empty)
  then show ?thesis
    using s1 s2 cache_only_same [OF s1(2)] by (intro that [of i s1 s2]) (simp_all add: reads_only_def)
qed

text \<open>Reading a block that is there does not allocate.\<close>

lemma bmap_existing:
  assumes "fs_quiet s" "idev (itab s ip) = ldev (flog s)" "bn < MAXFILE" "file_addr (fview s) (itab s ip) bn \<noteq> 0"
  obtains s' where "bmap ip bn s = Inr (file_addr (fview s) (itab s ip) bn, s')" "reads_only s s'"
proof (cases "bn < NDIRECT")
  case True
  then show ?thesis using assms reads_only_refl by (intro that [of s]) (simp_all add: bmap_def file_addr_def)
next
  case False
  let ?a = "iaddrs (itab s ip) ! NDIRECT"
  have a: "?a \<noteq> 0" "get32 (fview s ?a) (4 * (bn - NDIRECT)) \<noteq> 0" using False assms(4) by (auto simp: file_addr_def split: if_splits)
  obtain i s1 s2 where "get_buf (idev (itab s ip)) ?a s = Inr (i, s1)" "buf_data i s1 = fview s ?a" "itab s1 = itab s"
    "rel_buf i s1 = Inr ((), s2)" "reads_only s s2" using peek_buf [OF assms(1,2)] by metis
  then show ?thesis using a False assms(3)
    by (intro that [of s2]) (simp_all add: bmap_def file_addr_def MAXFILE_def seq_def ret_def Let_def)
qed

section \<open>readi\<close>

lemma readi_loop_reads:
  assumes "fs_quiet s" "idev (itab s ip) = ldev (flog s)" "file_ok (fview s) (itab s ip)"
    "off + rem \<le> unat (isize (itab s ip))"
  shows "\<exists>s'. readi_loop ip Kern_dst off rem tot acc s =
      Inr ((int (tot + rem), acc @ file_slice (fview s) (itab s ip) off rem), s') \<and> reads_only s s'"
  using assms
proof (induction rem arbitrary: off tot acc s rule: less_induct)
  case (less rem)
  show ?case
  proof (cases "rem = 0")
    case True
    then show ?thesis using less.prems(1) by (simp add: readi_loop.simps file_slice_def reads_only_refl)
  next
    case False
    let ?x = "itab s ip" and ?v = "fview s" and ?bn = "off div BSIZE" and ?m = "min rem (BSIZE - off mod BSIZE)"
    have B: "0 < BSIZE" by (simp add: BSIZE_def)
    have "?bn * BSIZE < unat (isize ?x)" using False less.prems(4) div_times_less_eq_dividend [of off BSIZE] by linarith
    then have blk: "file_addr ?v ?x ?bn \<noteq> 0" "length (?v (file_addr ?v ?x ?bn)) = BSIZE" "?bn * BSIZE < MAXFILE * BSIZE"
      using less.prems(3) unfolding file_ok_def by (blast, blast, linarith)
    then have "?bn < MAXFILE" by simp
    then obtain s1 where s1: "bmap ip ?bn s = Inr (file_addr ?v ?x ?bn, s1)" "reads_only s s1"
      using bmap_existing [OF less.prems(1,2) _ blk(1)] by blast
    note k1 = reads_only_same [OF s1(2)]
    obtain i s2 s3 where s2: "get_buf (idev ?x) (file_addr ?v ?x ?bn) s1 = Inr (i, s2)"
      "buf_data i s2 = ?v (file_addr ?v ?x ?bn)" "itab s2 = itab s" "rel_buf i s2 = Inr ((), s3)" "reads_only s1 s3"
      using peek_buf [OF k1(1), of "idev ?x" "file_addr ?v ?x ?bn" thesis] less.prems(2) k1 by metis
    have r3: "reads_only s s3" by (rule reads_only_trans [OF s1(2) s2(5)])
    note k3 = reads_only_same [OF r3]
    have bs: "take ?m (drop (off mod BSIZE) (buf_data i s2)) = file_slice ?v ?x off ?m"
      using file_slice_block [where v = ?v and x = ?x and off = off and m = ?m] blk(2) s2(2) by simp
    have m: "0 < ?m" "?m \<le> rem" using False B by simp_all
    then have "rem - ?m < rem" "off + ?m + (rem - ?m) \<le> unat (isize (itab s3 ip))" using less.prems(4) k3 by auto
    from less.IH [OF this(1) k3(1) _ _ this(2)] less.prems(2,3) k3 obtain s4 where
      s4: "readi_loop ip Kern_dst (off + ?m) (rem - ?m) (tot + ?m) (acc @ file_slice ?v ?x off ?m) s3 =
        Inr ((int (tot + ?m + (rem - ?m)), (acc @ file_slice ?v ?x off ?m) @ file_slice ?v ?x (off + ?m) (rem - ?m)), s4)"
      "reads_only s3 s4" by metis
    have "readi_loop ip Kern_dst off rem tot acc s = readi_loop ip Kern_dst (off + ?m) (rem - ?m) (tot + ?m) (acc @ file_slice ?v ?x off ?m) s3"
      using False blk(1) k1 s2(4) bs
      by (subst readi_loop.simps) (simp add: seq_def s1(1) s2(1) Let_def)
    moreover have "file_slice ?v ?x off ?m @ file_slice ?v ?x (off + ?m) (rem - ?m) = file_slice ?v ?x off rem"
      using file_slice_append [of ?v ?x off ?m "rem - ?m"] m by simp
    ultimately show ?thesis using s4 reads_only_trans [OF r3 s4(2)] m by (intro exI [of _ s4]) simp
  qed
qed

text \<open>What a read of \<open>n\<close> bytes at \<open>off\<close> returns; the sum \<open>off + n\<close> is a 32-bit sum.\<close>

definition bytes_read :: "u8 list \<Rightarrow> u32 \<Rightarrow> u32 \<Rightarrow> u8 list" where
  "bytes_read bs off n = (if off + n < off then [] else take (unat n) (drop (unat off) bs))"

text \<open>On a file that has all its blocks, \<open>readi\<close> returns exactly the bytes of the file from
  \<open>off\<close> on, at most \<open>n\<close> of them, and how many there are; at or behind the end, and when \<open>off + n\<close>
  overflows, it returns none. It never panics, and it changes neither the inode nor what any
  block shows.\<close>

lemma readi_reads:
  assumes "fs_quiet s" "idev (itab s ip) = ldev (flog s)" "file_ok (fview s) (itab s ip)"
  shows "\<exists>s' bs. readi ip Kern_dst off n s = Inr ((int (length bs), bs), s') \<and>
    bs = bytes_read (file_bytes (fview s) (itab s ip)) off n \<and> reads_only s s'"
proof -
  let ?x = "itab s ip" and ?v = "fview s"
  show ?thesis
  proof (cases "off > isize ?x \<or> off + n < off")
    case True
    then have "bytes_read (file_bytes ?v ?x) off n = []" by (auto simp: bytes_read_def word_less_nat_alt)
    then show ?thesis using True assms(1) by (simp add: readi_def Let_def reads_only_refl)
  next
    case False
    define m where "m = (if off + n > isize ?x then isize ?x - off else n)"
    have o: "unat off \<le> unat (isize ?x)" "unat (off + n) = unat off + unat n"
      using False by (simp_all add: word_le_nat_alt not_less flip: unat_plus_simple)
    have mm: "unat m = min (unat n) (unat (isize ?x) - unat off)"
      using False o by (auto simp: m_def word_less_nat_alt unat_sub word_le_nat_alt not_less min_def)
    then have "unat off + unat m \<le> unat (isize ?x)" using o by simp
    then obtain s' where s': "readi_loop ip Kern_dst (unat off) (unat m) 0 [] s =
        Inr ((int (0 + unat m), [] @ file_slice ?v ?x (unat off) (unat m)), s')" "reads_only s s'"
      using readi_loop_reads [OF assms] by blast
    have "file_slice ?v ?x (unat off) (unat m) = take (unat m) (drop (unat off) (file_bytes ?v ?x))"
      by (rule file_slice_bytes) fact
    also have "\<dots> = bytes_read (file_bytes ?v ?x) off n" using False mm by (auto simp: bytes_read_def min_def)
    finally have "file_slice ?v ?x (unat off) (unat m) = bytes_read (file_bytes ?v ?x) off n" .
    moreover have "readi ip Kern_dst off n s = readi_loop ip Kern_dst (unat off) (unat m) 0 [] s"
      using False by (simp add: readi_def Let_def m_def)
    ultimately show ?thesis using s' by (intro exI [of _ s'] exI [of _ "bytes_read (file_bytes ?v ?x) off n"]) (metis add_0 append_Nil length_file_slice)
  qed
qed

section \<open>Directories\<close>

definition dir_entries :: "u8 list \<Rightarrow> u8 list list" where
  "dir_entries bs = map (\<lambda>k. take 16 (drop (16 * k) bs)) [0..<length bs div 16]"

text \<open>The name of an entry is a string of at most \<open>DIRSIZ\<close> bytes; an entry with inode number 0 is free.\<close>

definition name_of :: "u8 list \<Rightarrow> u8 list" where
  "name_of bs = takeWhile (\<lambda>c. c \<noteq> 0) (take DIRSIZ bs)"

definition entry_named :: "u8 list \<Rightarrow> u8 list \<Rightarrow> bool" where
  "entry_named name de \<longleftrightarrow> de_inum de \<noteq> 0 \<and> name_of (drop 2 de) = name_of name"

definition dir_find :: "u8 list \<Rightarrow> u8 list list \<Rightarrow> nat option" where
  "dir_find name es = find (\<lambda>k. entry_named name (es ! k)) [0..<length es]"

lemma cstr_chars: "cstr (chars xs) i n = takeWhile (\<lambda>c. c \<noteq> 0) (take n (drop i xs))"
proof (induction n arbitrary: i)
  case (Suc n)
  show ?case
  proof (cases "i < length xs")
    case True
    then have "drop i xs = xs ! i # drop (Suc i) xs" by (simp add: Cons_nth_drop_Suc)
    then show ?thesis using True Suc by (simp add: chars_def)
  qed (simp add: chars_def)
qed simp

lemma namecmp_chars: "namecmp (chars p) (chars q) = 0 \<longleftrightarrow> name_of p = name_of q"
  by (simp add: namecmp_def strncmp_def strncmp_loop_eq_0 cstr_chars name_of_def DIRSIZ_def)

lemma find_upt_Suc: "find P [i..<i + Suc n] = (if P i then Some i else find P [Suc i..<Suc i + n])"
  by (simp add: upt_rec)

lemma length_dir_entries [simp]: "length (dir_entries bs) = length bs div 16"
  by (simp add: dir_entries_def)

lemma dir_entries_nth: "k < length bs div 16 \<Longrightarrow> dir_entries bs ! k = take 16 (drop (16 * k) bs)"
  by (simp add: dir_entries_def)

lemma read_entry:
  assumes "fs_quiet s" "idev (itab s dp) = ldev (flog s)" "file_ok (fview s) (itab s dp)"
    and k: "16 * k + 16 \<le> unat (isize (itab s dp))"
  defines "es \<equiv> dir_entries (file_bytes (fview s) (itab s dp))"
  obtains s' where "readi dp Kern_dst (of_nat (16 * k)) 16 s = Inr ((16, es ! k), s')" "reads_only s s'"
proof -
  have sz: "unat (isize (itab s dp)) \<le> 274432" using assms(3) by (simp add: file_ok_def xv6_const BSIZE_def)
  have o: "unat (of_nat (16 * k) :: u32) = 16 * k" using k sz by (subst unat_of_nat) (simp add: take_bit_nat_eq_self)
  have ov: "\<not> of_nat (16 * k) + 16 < (of_nat (16 * k) :: u32)"
    using k sz o by (simp add: word_less_nat_alt unat_word_ariths del: of_nat_mult)
  have de: "bytes_read (file_bytes (fview s) (itab s dp)) (of_nat (16 * k)) 16 = es ! k"
    using ov o k by (simp add: bytes_read_def es_def dir_entries_nth del: of_nat_mult)
  have "length (es ! k) = 16" using k by (simp add: es_def dir_entries_nth)
  then show ?thesis using readi_reads [OF assms(1-3), of "of_nat (16 * k)" 16] that unfolding de by auto
qed

lemma dirlookup_loop_finds:
  assumes "fs_quiet s" "idev (itab s dp) = ldev (flog s)" "file_ok (fview s) (itab s dp)"
    and "16 * (k + n) = unat (isize (itab s dp))"
  defines "es \<equiv> dir_entries (file_bytes (fview s) (itab s dp))"
  shows "\<exists>s'. reads_only s s' \<and> dirlookup_loop dp name (16 * k) n s =
    (case find (\<lambda>j. entry_named name (es ! j)) [k..<k + n] of
       None \<Rightarrow> Inr (None, s')
     | Some j \<Rightarrow> seq (iget (idev (itab s dp)) (ucast (de_inum (es ! j)))) (\<lambda>ip. ret (Some (ip, 16 * j))) s')"
  using assms(1-4) unfolding es_def
proof (induction n arbitrary: k s)
  case 0
  then show ?case by (auto simp: ret_def intro: reads_only_refl)
next
  case (Suc n)
  let ?x = "itab s dp" and ?es = "dir_entries (file_bytes (fview s) (itab s dp))"
  have "16 * k + 16 \<le> unat (isize ?x)" using Suc.prems(4) by simp
  then obtain s1 where s1: "readi dp Kern_dst (of_nat (16 * k)) 16 s = Inr ((16, ?es ! k), s1)" "reads_only s s1"
    using read_entry [OF Suc.prems(1-3)] by blast
  note k1 = reads_only_same [OF s1(2)]
  have nm: "namecmp (chars name) (de_name (?es ! k)) = 0 \<longleftrightarrow> name_of (drop 2 (?es ! k)) = name_of name"
    by (auto simp: de_name_def namecmp_chars)
  have step: "dirlookup_loop dp name (16 * k) (Suc n) s =
      (if entry_named name (?es ! k)
       then seq (iget (idev ?x) (ucast (de_inum (?es ! k)))) (\<lambda>ip. ret (Some (ip, 16 * k))) s1
       else dirlookup_loop dp name (16 * Suc k) n s1)"
    by (simp add: seq_def s1(1) nm entry_named_def k1 del: of_nat_mult) (simp add: add.commute)
  have "16 * (Suc k + n) = unat (isize ?x)" using Suc.prems(4) by simp
  then obtain s2 where s2: "reads_only s1 s2"
    "dirlookup_loop dp name (16 * Suc k) n s1 = (case find (\<lambda>j. entry_named name (?es ! j)) [Suc k..<Suc k + n] of
       None \<Rightarrow> Inr (None, s2)
     | Some j \<Rightarrow> seq (iget (idev ?x) (ucast (de_inum (?es ! j)))) (\<lambda>ip. ret (Some (ip, 16 * j))) s2)"
    using Suc.IH [of s1 "Suc k", unfolded k1(2,3,4), OF k1(1) Suc.prems(2,3)] by blast
  show ?case
    unfolding find_upt_Suc step using s1(2) s2 reads_only_trans [OF s1(2) s2(1)] by (cases "entry_named name (?es ! k)") auto
qed

text \<open>\<open>dirlookup\<close> on a directory searches its entries in order for the first one in use with the
  name (compared as strings of at most \<open>DIRSIZ\<close> bytes). If there is none it returns null;
  otherwise it returns what \<open>iget\<close> gives for the inode number of the entry, and the offset of the
  entry. It never panics with \<open>dirlookup read\<close>, and on anything but a directory it panics.\<close>

lemma dirlookup_finds:
  assumes "fs_quiet s" "idev (itab s dp) = ldev (flog s)" "file_ok (fview s) (itab s dp)" "16 dvd unat (isize (itab s dp))"
  defines "es \<equiv> dir_entries (file_bytes (fview s) (itab s dp))"
  shows "if itype (itab s dp) = T_DIR
    then \<exists>s'. reads_only s s' \<and> dirlookup dp name s =
      (case dir_find name es of
         None \<Rightarrow> Inr (None, s')
       | Some k \<Rightarrow> seq (iget (idev (itab s dp)) (ucast (de_inum (es ! k)))) (\<lambda>ip. ret (Some (ip, 16 * k))) s')
    else dirlookup dp name s = Inl (Panic ''dirlookup not DIR'')"
proof -
  obtain n where n: "unat (isize (itab s dp)) = 16 * n" using assms(4) by (auto elim: dvdE)
  have "(unat (isize (itab s dp)) + 15) div 16 = n" "length es = n" using n by (simp_all add: es_def dir_entries_def)
  then show ?thesis
    using dirlookup_loop_finds [OF assms(1-3), of 0 n name] n
    unfolding es_def dirlookup_def dir_find_def by simp
qed

end
