(* ===== verification/Fswrite.thy ===== *)
theory Fswrite
  imports Fscontent
begin

text \<open>
  Writing to files: \<open>bmap\<close> with allocation, \<open>writei\<close> and \<open>iupdate\<close> of \<^verbatim>\<open>kernel/fs.c\<close> within one transaction.
  The blocks of a file never overlap each other, the metadata or the blocks of another file, and
  the blocks that a write logs fit in the room that \<open>begin_op\<close> has reserved.
\<close>

section \<open>Disks\<close>

text \<open>Blocks 0 and 1, the log, the inodes and the free map, which fits in one block.\<close>

definition meta :: "superblock \<Rightarrow> u32 \<Rightarrow> u32 set" where
  "meta sbk st = {0, 1, bmapstart sbk} \<union> log_region st \<union> (\<lambda>i. IBLOCK i sbk) ` {i. i < ninodes sbk}"

definition disk_ok :: "superblock \<Rightarrow> u32 \<Rightarrow> (u32 \<Rightarrow> block) \<Rightarrow> bool" where
  "disk_ok sbk st v \<longleftrightarrow> unat (fssize sbk) \<le> 8192 \<and> length (v (bmapstart sbk)) = BSIZE \<and> bmapstart sbk \<notin> log_region st \<and>
     (\<forall>x<unat (fssize sbk). of_nat x \<in> meta sbk st \<longrightarrow> block_used sbk v x) \<and>
     (\<forall>i<ninodes sbk. IBLOCK i sbk \<notin> log_region st \<and> IBLOCK i sbk \<noteq> bmapstart sbk \<and> length (v (IBLOCK i sbk)) = BSIZE)"

definition data_block :: "superblock \<Rightarrow> u32 \<Rightarrow> (u32 \<Rightarrow> block) \<Rightarrow> u32 \<Rightarrow> bool" where
  "data_block sbk st v a \<longleftrightarrow> unat a < unat (fssize sbk) \<and> block_used sbk v (unat a) \<and> a \<notin> meta sbk st \<and> length (v a) = BSIZE"

lemma BBLOCK_single:
  assumes "unat (fssize sbk) \<le> 8192" "x < unat (fssize sbk)"
  shows "BBLOCK (of_nat x) sbk = bmapstart sbk" "x mod 8192 = x"
proof -
  have "x < 8192" using assms by linarith
  then show "BBLOCK (of_nat x) sbk = bmapstart sbk" "x mod 8192 = x" by (simp_all add: BBLOCK_nat)
qed

lemma unat_small: "x < unat (n :: u32) \<Longrightarrow> unat (of_nat x :: u32) = x"
proof -
  assume x: "x < unat n"
  have "unat n < 2 ^ LENGTH(32)" by (rule unsigned_less)
  then show ?thesis using x by (simp add: unat_of_nat take_bit_nat_eq_self)
qed

lemma disk_ok_free_map: "disk_ok sbk st v \<Longrightarrow> free_map_ok sbk st v"
  unfolding free_map_ok_def disk_ok_def
  using BBLOCK_single [of sbk] by (auto simp: meta_def)

lemma block_used_single:
  "disk_ok sbk st v \<Longrightarrow> x < unat (fssize sbk) \<Longrightarrow> block_used sbk v x \<longleftrightarrow> map_bit (v (bmapstart sbk)) x"
  using BBLOCK_single [of sbk x] by (simp add: block_used_def disk_ok_def)

text \<open>Taking a free block.\<close>

lemma take_block_facts:
  assumes ok: "disk_ok sbk st v" and x: "x < unat (fssize sbk)" "\<not> block_used sbk v x"
  defines "v' \<equiv> take_block sbk x v" and "a \<equiv> of_nat x"
  shows "disk_ok sbk st v'" "data_block sbk st v' a" "v' a = replicate BSIZE 0" "a \<noteq> 0" "a \<notin> meta sbk st"
    "\<And>b. data_block sbk st v b \<Longrightarrow> v' b = v b \<and> data_block sbk st v' b \<and> b \<noteq> a"
    "\<And>b. b \<noteq> bmapstart sbk \<Longrightarrow> b \<noteq> a \<Longrightarrow> v' b = v b" "\<not> data_block sbk st v a"
proof -
  let ?bm = "bmapstart sbk"
  have sz: "unat (fssize sbk) \<le> 8192" "length (v ?bm) = BSIZE" using ok by (simp_all add: disk_ok_def)
  note s = BBLOCK_single [OF sz(1) x(1)]
  have ua: "unat a = x" using unat_small [OF x(1)] by (simp add: a_def)
  show am: "a \<notin> meta sbk st" using ok x by (auto simp: disk_ok_def a_def)
  then have a: "a \<noteq> 0" "a \<noteq> ?bm" by (auto simp: meta_def)
  show "a \<noteq> 0" by fact
  have v': "v' = v(?bm := (v ?bm)[x div 8 := v ?bm ! (x div 8) OR bit_mask x], a := replicate BSIZE 0)"
    unfolding v'_def take_block_def Let_def s a_def ..
  show "v' a = replicate BSIZE 0" by (simp add: v')
  show fr: "v' b = v b" if "b \<noteq> ?bm" "b \<noteq> a" for b using that by (simp add: v')
  have len: "length (v' ?bm) = BSIZE" using a sz by (simp add: v')
  have "x div 8 < length (v ?bm)" using x(1) sz by (simp add: BSIZE_def)
  then have mb: "map_bit (v' ?bm) y \<longleftrightarrow> map_bit (v ?bm) y \<or> y = x" for y
    using map_bit_set(1) [of x "v ?bm" y] a by (simp add: v')
  have us: "block_used sbk w y \<longleftrightarrow> map_bit (w ?bm) y" if "y < unat (fssize sbk)" for w y
    using BBLOCK_single [OF sz(1) that] by (simp add: block_used_def)
  have ib: "IBLOCK i sbk \<noteq> a" if "i < ninodes sbk" for i using that am by (auto simp: meta_def)
  show "disk_ok sbk st v'"
    using ok len mb us fr ib unfolding disk_ok_def by simp
  show "data_block sbk st v' a" using x(1) ua am mb us by (simp add: data_block_def) (simp add: v')
  show nd: "\<not> data_block sbk st v a" using x(2) ua by (simp add: data_block_def)
  show "v' b = v b \<and> data_block sbk st v' b \<and> b \<noteq> a" if b: "data_block sbk st v b" for b
  proof -
    have "b \<noteq> a" "b \<noteq> ?bm" using b nd by (auto simp: data_block_def meta_def)
    moreover have "block_used sbk v' (unat b)" using b mb us by (auto simp: data_block_def)
    ultimately show ?thesis using b fr by (simp add: data_block_def)
  qed
qed

text \<open>Writing a data block.\<close>

lemma write_data_facts:
  assumes ok: "disk_ok sbk st v" and a: "data_block sbk st v a" "length d = BSIZE"
  shows "disk_ok sbk st (v(a := d))" "data_block sbk st (v(a := d)) b \<longleftrightarrow> data_block sbk st v b"
proof -
  have m: "a \<noteq> bmapstart sbk" "\<And>i. i < ninodes sbk \<Longrightarrow> IBLOCK i sbk \<noteq> a" using a by (auto simp: data_block_def meta_def)
  have sz: "unat (fssize sbk) \<le> 8192" using ok by (simp add: disk_ok_def)
  have us: "block_used sbk (v(a := d)) y \<longleftrightarrow> block_used sbk v y" if "y < unat (fssize sbk)" for y
    using BBLOCK_single [OF sz that] m by (simp add: block_used_def)
  show "disk_ok sbk st (v(a := d))" using ok m us by (simp add: disk_ok_def)
  show "data_block sbk st (v(a := d)) b \<longleftrightarrow> data_block sbk st v b"
    using us a by (auto simp: data_block_def)
qed

section \<open>Files on the disk\<close>

text \<open>The blocks of a file are data blocks, all different.\<close>

definition file_wf :: "superblock \<Rightarrow> u32 \<Rightarrow> (u32 \<Rightarrow> block) \<Rightarrow> inode \<Rightarrow> bool" where
  "file_wf sbk st v x \<longleftrightarrow> length (iaddrs x) = NDIRECT + 1 \<and>
     (iaddrs x ! NDIRECT \<noteq> 0 \<longrightarrow> data_block sbk st v (iaddrs x ! NDIRECT)) \<and>
     (\<forall>m<MAXFILE. file_addr v x m \<noteq> 0 \<longrightarrow>
        data_block sbk st v (file_addr v x m) \<and> file_addr v x m \<noteq> iaddrs x ! NDIRECT \<and>
        (\<forall>k<MAXFILE. file_addr v x k = file_addr v x m \<longrightarrow> k = m))"

definition file_blocks :: "(u32 \<Rightarrow> block) \<Rightarrow> inode \<Rightarrow> u32 set" where
  "file_blocks v x = insert (iaddrs x ! NDIRECT) (file_addr v x ` {..<MAXFILE})"

text \<open>
  What an extension of a file by at most one block keeps: the other block addresses and the contents
  of all its blocks; blocks of other files keep their contents and do not become part of the file.
\<close>

definition extends :: "superblock \<Rightarrow> u32 \<Rightarrow> nat \<Rightarrow> (u32 \<Rightarrow> block) \<Rightarrow> inode \<Rightarrow> (u32 \<Rightarrow> block) \<Rightarrow> inode \<Rightarrow> bool" where
  "extends sbk st bn v x v' x' \<longleftrightarrow> disk_ok sbk st v' \<and> file_wf sbk st v' x' \<and> x' = x\<lparr>iaddrs := iaddrs x'\<rparr> \<and>
     (\<forall>m<MAXFILE. m \<noteq> bn \<or> file_addr v x m \<noteq> 0 \<longrightarrow> file_addr v' x' m = file_addr v x m) \<and>
     (\<forall>m<MAXFILE. file_addr v x m \<noteq> 0 \<longrightarrow> v' (file_addr v x m) = v (file_addr v x m)) \<and>
     (\<forall>b. data_block sbk st v b \<longrightarrow> data_block sbk st v' b) \<and>
     (\<forall>b. data_block sbk st v b \<and> b \<notin> file_blocks v x \<longrightarrow> v' b = v b \<and> b \<notin> file_blocks v' x')"

lemma extends_refl: "disk_ok sbk st v \<Longrightarrow> file_wf sbk st v x \<Longrightarrow> extends sbk st bn v x v x"
  by (simp add: extends_def)

lemma extends_trans:
  assumes "extends sbk st bn v x v1 x1" "extends sbk st bn v1 x1 v2 x2"
    and "\<And>m. m < MAXFILE \<Longrightarrow> file_addr v1 x1 m = file_addr v x m"
  shows "extends sbk st bn v x v2 x2"
proof -
  have "x2 = x\<lparr>iaddrs := iaddrs x2\<rparr>" using assms(1,2) unfolding extends_def by (metis inode.surjective inode.update_convs(11))
  then show ?thesis using assms unfolding extends_def by simp
qed

text \<open>Adding a direct block.\<close>

lemma extend_direct:
  assumes ok: "disk_ok sbk st v" and wf: "file_wf sbk st v x" and x: "y < unat (fssize sbk)" "\<not> block_used sbk v y"
    and bn: "bn < NDIRECT" "iaddrs x ! bn = 0"
  defines "v' \<equiv> take_block sbk y v" and "x' \<equiv> x\<lparr>iaddrs := (iaddrs x)[bn := of_nat y]\<rparr>"
  shows "extends sbk st bn v x v' x'" "file_addr v' x' bn = of_nat y"
proof -
  note t = take_block_facts [OF ok x, folded v'_def]
  let ?i = "iaddrs x ! NDIRECT"
  have len: "length (iaddrs x) = 13" using wf by (simp add: file_wf_def NDIRECT_def)
  have i: "iaddrs x' ! NDIRECT = ?i" using bn(1) by (simp add: x'_def)
  have vi: "v' ?i = v ?i" "?i \<noteq> of_nat y" if "?i \<noteq> 0" using that wf t(6) by (auto simp: file_wf_def)
  show ad: "file_addr v' x' bn = of_nat y" using bn(1) len by (simp add: file_addr_def x'_def NDIRECT_def)
  have o: "file_addr v' x' m = file_addr v x m" if "m \<noteq> bn" for m
    using that bn(1) vi by (simp add: file_addr_def x'_def)
  have z: "file_addr v x bn = 0" using bn by (simp add: file_addr_def)
  have db: "data_block sbk st v (file_addr v x m)" if "m < MAXFILE" "file_addr v x m \<noteq> 0" for m
    using that wf by (simp add: file_wf_def)
  have ne: "file_addr v x m \<noteq> of_nat y" if "m < MAXFILE" for m
    using db [OF that] t(4,8) by metis
  have wf': "file_wf sbk st v' x'"
    unfolding file_wf_def
  proof (intro conjI allI impI)
    show "length (iaddrs x') = NDIRECT + 1" using len by (simp add: x'_def NDIRECT_def)
    show "data_block sbk st v' (iaddrs x' ! NDIRECT)" if "iaddrs x' ! NDIRECT \<noteq> 0"
      using that wf t(6) i by (simp add: file_wf_def)
    fix m assume m: "m < MAXFILE" "file_addr v' x' m \<noteq> 0"
    have a: "(m = bn \<and> file_addr v' x' m = of_nat y) \<or> (m \<noteq> bn \<and> file_addr v' x' m = file_addr v x m \<and> file_addr v x m \<noteq> 0)"
      using ad o m by metis
    then show "data_block sbk st v' (file_addr v' x' m)" using t(2,6) db m by metis
    show "file_addr v' x' m \<noteq> iaddrs x' ! NDIRECT"
      using a m wf vi t(4) by (auto simp: i file_wf_def)
    fix k assume k: "k < MAXFILE" "file_addr v' x' k = file_addr v' x' m"
    then show "k = m" using a ad o ne m wf unfolding file_wf_def by metis
  qed
  have fb: "file_blocks v' x' \<subseteq> insert (of_nat y) (file_blocks v x)"
    unfolding file_blocks_def i using ad o by (auto simp: image_iff) (metis lessThan_iff)
  show "extends sbk st bn v x v' x'"
    unfolding extends_def
  proof (intro conjI allI impI)
    show "disk_ok sbk st v'" "file_wf sbk st v' x'" by fact+
    show "x' = x\<lparr>iaddrs := iaddrs x'\<rparr>" by (simp add: x'_def)
    show "file_addr v' x' m = file_addr v x m" if "m \<noteq> bn \<or> file_addr v x m \<noteq> 0" for m using that o z by metis
    show "v' (file_addr v x m) = v (file_addr v x m)" if "m < MAXFILE" "file_addr v x m \<noteq> 0" for m using db [OF that] t(6) by simp
    show "data_block sbk st v' b" if "data_block sbk st v b" for b using that t(6) by simp
    show "v' b = v b" "b \<notin> file_blocks v' x'" if "data_block sbk st v b \<and> b \<notin> file_blocks v x" for b
      using that t(6,8) fb by auto
  qed
qed

text \<open>Adding an empty indirect block changes no address.\<close>

lemma get32_zeros: "a + 4 \<le> n \<Longrightarrow> get32 (replicate n 0) a = 0"
  by (simp add: get32_def numeral_eq_Suc)

lemma extend_indirect_block:
  assumes ok: "disk_ok sbk st v" and wf: "file_wf sbk st v x" and x: "y < unat (fssize sbk)" "\<not> block_used sbk v y"
    and i: "iaddrs x ! NDIRECT = 0"
  defines "v' \<equiv> take_block sbk y v" and "x' \<equiv> x\<lparr>iaddrs := (iaddrs x)[NDIRECT := of_nat y]\<rparr>"
  shows "extends sbk st bn v x v' x'" "iaddrs x' ! NDIRECT = of_nat y" "\<And>m. m < MAXFILE \<Longrightarrow> file_addr v' x' m = file_addr v x m"
proof -
  note t = take_block_facts [OF ok x, folded v'_def]
  have len: "length (iaddrs x) = 13" using wf by (simp add: file_wf_def NDIRECT_def)
  show i': "iaddrs x' ! NDIRECT = of_nat y" using len by (simp add: x'_def NDIRECT_def)
  show o: "file_addr v' x' m = file_addr v x m" if "m < MAXFILE" for m
    using that i len t(3) i' get32_zeros [of "4 * (m - 12)" 1024]
    by (simp add: file_addr_def x'_def MAXFILE_def NDIRECT_def NINDIRECT_def BSIZE_def)
  have db: "data_block sbk st v (file_addr v x m)" if "m < MAXFILE" "file_addr v x m \<noteq> 0" for m
    using that wf by (simp add: file_wf_def)
  have wf': "file_wf sbk st v' x'"
    unfolding file_wf_def
  proof (intro conjI allI impI)
    show "length (iaddrs x') = NDIRECT + 1" using len by (simp add: x'_def NDIRECT_def)
    show "data_block sbk st v' (iaddrs x' ! NDIRECT)" using t(2) i' by simp
    fix m assume m: "m < MAXFILE" "file_addr v' x' m \<noteq> 0"
    then have d: "data_block sbk st v (file_addr v' x' m)" using o db by simp
    then show "data_block sbk st v' (file_addr v' x' m)" "file_addr v' x' m \<noteq> iaddrs x' ! NDIRECT" using t(6) i' by auto
    fix k assume "k < MAXFILE" "file_addr v' x' k = file_addr v' x' m"
    then show "k = m" using o m wf unfolding file_wf_def by metis
  qed
  have fb: "file_blocks v' x' \<subseteq> insert (of_nat y) (file_blocks v x)"
    unfolding file_blocks_def i' using o by auto
  show "extends sbk st bn v x v' x'"
    unfolding extends_def
  proof (intro conjI allI impI)
    show "disk_ok sbk st v'" "file_wf sbk st v' x'" by fact+
    show "x' = x\<lparr>iaddrs := iaddrs x'\<rparr>" by (simp add: x'_def)
    show "file_addr v' x' m = file_addr v x m" if "m < MAXFILE" for m using that o by blast
    show "v' (file_addr v x m) = v (file_addr v x m)" if "m < MAXFILE" "file_addr v x m \<noteq> 0" for m using db [OF that] t(6) by simp
    show "data_block sbk st v' b" if "data_block sbk st v b" for b using that t(6) by simp
    show "v' b = v b" "b \<notin> file_blocks v' x'" if "data_block sbk st v b \<and> b \<notin> file_blocks v x" for b
      using that t(6,8) fb by auto
  qed
qed

text \<open>Adding a block to the indirect block.\<close>

lemma extend_indirect:
  assumes ok: "disk_ok sbk st v" and wf: "file_wf sbk st v x" and x: "y < unat (fssize sbk)" "\<not> block_used sbk v y"
    and bn: "NDIRECT \<le> bn" "bn < MAXFILE" "iaddrs x ! NDIRECT \<noteq> 0" "file_addr v x bn = 0"
  defines "i \<equiv> iaddrs x ! NDIRECT"
  defines "v' \<equiv> (take_block sbk y v)(i := put32 (v i) (4 * (bn - NDIRECT)) (of_nat y))"
  shows "extends sbk st bn v x v' x" "file_addr v' x bn = of_nat y" "v' (of_nat y) = replicate BSIZE 0"
proof -
  define w where "w = take_block sbk y v"
  note t = take_block_facts [OF ok x, folded w_def]
  have v': "v' = w(i := put32 (v i) (4 * (bn - NDIRECT)) (of_nat y))" by (simp add: v'_def w_def)
  have di: "data_block sbk st v i" using wf bn(3) by (simp add: file_wf_def i_def)
  have li: "length (v i) = BSIZE" using di by (simp add: data_block_def)
  have b4: "4 * (bn - NDIRECT) + 4 \<le> BSIZE" using bn by (simp add: BSIZE_def MAXFILE_def NDIRECT_def NINDIRECT_def)
  have iw: "data_block sbk st w i" "w i = v i" "i \<noteq> of_nat y" using di t(6) by auto
  have lp: "length (put32 (v i) (4 * (bn - NDIRECT)) (of_nat y)) = BSIZE" using li b4 by simp
  note wd = write_data_facts [OF t(1) iw(1) lp, folded v']
  have v'i: "v' i = put32 (v i) (4 * (bn - NDIRECT)) (of_nat y)" by (simp add: v')
  show z: "v' (of_nat y) = replicate BSIZE 0" using iw(3) t(3) by (simp add: v')
  show ad: "file_addr v' x bn = of_nat y"
    using bn(1,3) li b4 v'i by (simp add: file_addr_def flip: i_def)
  have o: "file_addr v' x m = file_addr v x m" if "m \<noteq> bn" "m < MAXFILE" for m
  proof (cases "m < NDIRECT")
    case False
    have "4 * (m - NDIRECT) + 4 \<le> 4 * (bn - NDIRECT) \<or> 4 * (bn - NDIRECT) + 4 \<le> 4 * (m - NDIRECT)"
      using that(1) False bn(1) by linarith
    then have "get32 (v' i) (4 * (m - NDIRECT)) = get32 (v i) (4 * (m - NDIRECT))"
      unfolding v'i using li b4 by (intro get32_put32_other) auto
    then show ?thesis using False by (simp add: file_addr_def flip: i_def)
  qed (simp add: file_addr_def)
  have db: "data_block sbk st v (file_addr v x m)" "file_addr v x m \<noteq> i" if "m < MAXFILE" "file_addr v x m \<noteq> 0" for m
    using that wf by (simp_all add: file_wf_def i_def)
  have ne: "file_addr v x m \<noteq> of_nat y" if "m < MAXFILE" for m
    using db(1) [OF that] t(4,8) by metis
  have wf': "file_wf sbk st v' x"
    unfolding file_wf_def
  proof (intro conjI allI impI)
    show "length (iaddrs x) = NDIRECT + 1" using wf by (simp add: file_wf_def)
    show "data_block sbk st v' (iaddrs x ! NDIRECT)" using iw(1) wd(2) by (simp flip: i_def)
    fix m assume m: "m < MAXFILE" "file_addr v' x m \<noteq> 0"
    have a: "(m = bn \<and> file_addr v' x m = of_nat y) \<or> (m \<noteq> bn \<and> file_addr v' x m = file_addr v x m \<and> file_addr v x m \<noteq> 0)"
      using ad o m by metis
    then show "data_block sbk st v' (file_addr v' x m)" using t(2,6) db m wd(2) by metis
    show "file_addr v' x m \<noteq> iaddrs x ! NDIRECT" using a m db iw(3) unfolding i_def by metis
    fix k assume k: "k < MAXFILE" "file_addr v' x k = file_addr v' x m"
    then show "k = m" using a ad o ne m wf unfolding file_wf_def by metis
  qed
  have fb: "file_blocks v' x \<subseteq> insert (of_nat y) (file_blocks v x)"
    unfolding file_blocks_def using ad o by (auto simp: image_iff) (metis lessThan_iff)
  show "extends sbk st bn v x v' x"
    unfolding extends_def
  proof (intro conjI allI impI)
    show "disk_ok sbk st v'" "file_wf sbk st v' x" by fact+
    show "x = x\<lparr>iaddrs := iaddrs x\<rparr>" by simp
    show "file_addr v' x m = file_addr v x m" if "m < MAXFILE" "m \<noteq> bn \<or> file_addr v x m \<noteq> 0" for m using that o bn(4) by metis
    show "v' (file_addr v x m) = v (file_addr v x m)" if "m < MAXFILE" "file_addr v x m \<noteq> 0" for m
      using db [OF that] t(6) by (simp add: v')
    show "data_block sbk st v' b" if "data_block sbk st v b" for b using that t(6) wd(2) by simp
    show "v' b = v b" "b \<notin> file_blocks v' x" if "data_block sbk st v b \<and> b \<notin> file_blocks v x" for b
      using that t(6,8) fb by (auto simp: v' file_blocks_def i_def)
  qed
qed

section \<open>bmap\<close>

text \<open>A file in a transaction, what may change of the state, and a full disk.\<close>

definition file_trans :: "nat \<Rightarrow> fs \<Rightarrow> bool" where
  "file_trans ip s \<longleftrightarrow> log_held {} (flog s) \<and> 1 \<le> outstanding (flog s) \<and> idev (itab s ip) = ldev (flog s) \<and>
     disk_ok (sb s) (start (flog s)) (fview s) \<and> file_wf (sb s) (start (flog s)) (fview s) (itab s ip)"

definition file_only :: "nat \<Rightarrow> fs \<Rightarrow> fs \<Rightarrow> bool" where
  "file_only ip s s' \<longleftrightarrow> (\<exists>l x. s' = s\<lparr>flog := l, itab := (itab s)(ip := x)\<rparr> \<and> start l = start (flog s) \<and>
     ldev l = ldev (flog s) \<and> outstanding l = outstanding (flog s))"

definition disk_full :: "fs \<Rightarrow> bool" where
  "disk_full s \<longleftrightarrow> (\<forall>x<unat (fssize (sb s)). block_used (sb s) (fview s) x)"

text \<open>
  The blocks in the log, with room for the free map and the indirect block of the file: what the
  log will hold at least when the file gets another block.
\<close>

definition log_cost :: "nat \<Rightarrow> fs \<Rightarrow> int" where
  "log_cost ip s = lh_n (flog s) + of_bool (bmapstart (sb s) \<notin> set (logged (flog s))) +
     of_bool (iaddrs (itab s ip) ! NDIRECT = 0 \<or> iaddrs (itab s ip) ! NDIRECT \<notin> set (logged (flog s)))"

definition bmap_result :: "nat \<Rightarrow> nat \<Rightarrow> fs \<Rightarrow> u32 \<Rightarrow> fs \<Rightarrow> bool" where
  "bmap_result ip bn s r s' \<longleftrightarrow> file_trans ip s' \<and> file_only ip s s' \<and>
     extends (sb s) (start (flog s)) bn (fview s) (itab s ip) (fview s') (itab s' ip) \<and>
     r = file_addr (fview s') (itab s' ip) bn \<and> (r = 0 \<longrightarrow> disk_full s') \<and>
     (r \<noteq> 0 \<and> file_addr (fview s) (itab s ip) bn = 0 \<longrightarrow> fview s' r = replicate BSIZE 0) \<and>
     log_cost ip s' + of_bool (r \<notin> set (logged (flog s'))) \<le> log_cost ip s + 1"

lemma file_only_trans: "file_only ip s t \<Longrightarrow> file_only ip t u \<Longrightarrow> file_only ip s u"
proof -
  assume "file_only ip s t" "file_only ip t u"
  then obtain l x l' x' where "t = s\<lparr>flog := l, itab := (itab s)(ip := x)\<rparr>" "u = t\<lparr>flog := l', itab := (itab t)(ip := x')\<rparr>"
    "start l' = start (flog s) \<and> ldev l' = ldev (flog s) \<and> outstanding l' = outstanding (flog s)"
    unfolding file_only_def by fastforce
  then show ?thesis unfolding file_only_def by (intro exI [of _ l'] exI [of _ x']) simp
qed

lemma file_only_same:
  assumes "file_only ip s s'"
  shows "sb s' = sb s" "fpid s' = fpid s" "start (flog s') = start (flog s)" "ldev (flog s') = ldev (flog s)"
    "outstanding (flog s') = outstanding (flog s)" "j \<noteq> ip \<Longrightarrow> itab s' j = itab s j"
  using assms by (auto simp: file_only_def)

lemma file_only_set_inode: "file_only ip s t \<Longrightarrow> file_only ip s (set_inode ip x t)"
proof -
  assume "file_only ip s t"
  then obtain l y where "t = s\<lparr>flog := l, itab := (itab s)(ip := y)\<rparr>"
    "start l = start (flog s) \<and> ldev l = ldev (flog s) \<and> outstanding l = outstanding (flog s)" unfolding file_only_def by blast
  then show ?thesis unfolding file_only_def by (intro exI [of _ l] exI [of _ x]) (simp add: set_inode_def)
qed

lemma tstep_file_only:
  assumes "tstep H B s s'"
  shows "file_only ip s s'" "file_only ip s (set_inode ip x s')"
proof -
  have e: "s' = s\<lparr>flog := flog s'\<rparr>" using assms by (simp add: tstep_def)
  show "file_only ip s s'"
    unfolding file_only_def using tstep_same [OF assms]
    by (intro exI [of _ "flog s'"] exI [of _ "itab s ip"]) (subst e, simp)
  show "file_only ip s (set_inode ip x s')"
    unfolding file_only_def using tstep_same [OF assms]
    by (intro exI [of _ "flog s'"] exI [of _ x]) (subst e, simp add: set_inode_def)
qed

lemma log_cost_ge: "lh_n (flog s) \<le> log_cost ip s"
  by (simp add: log_cost_def)

lemma log_grows:
  assumes "log_held H l" "log_held H' l'" "set (logged l') = set (logged l) \<union> B" "finite B"
  shows "lh_n l' = lh_n l + int (card (B - set (logged l)))"
proof -
  have "set (logged l') = set (logged l) \<union> (B - set (logged l))" using assms(3) by blast
  then have "card (set (logged l')) = card (set (logged l)) + card (B - set (logged l))"
    using card_Un_disjoint [of "set (logged l)" "B - set (logged l)"] assms(4) by simp
  then show ?thesis using card_logged [OF assms(1)] card_logged [OF assms(2)] by simp
qed

lemma card_diff_two: "int (card ({a, b} - L)) \<le> of_bool (a \<notin> L) + of_bool (b \<notin> L)"
  by (cases "a \<in> L"; cases "b \<in> L") (auto simp: insert_Diff_if card_insert_if)

text \<open>\<open>balloc\<close> on a sound disk.\<close>

lemma balloc_data:
  assumes "log_held H (flog s)" "1 \<le> outstanding (flog s)" "lh_n (flog s) + int (card H) + 2 \<le> int LOGBLOCKS"
    "disk_ok (sb s) (start (flog s)) (fview s)" "H \<subseteq> {b. data_block (sb s) (start (flog s)) (fview s) b}" "dev = ldev (flog s)"
  obtains (full) s' where "balloc dev s = Inr (0, s')" "disk_full s" "tstep H {} s s'" "fview s' = fview s" |
    (got) x s' where "balloc dev s = Inr (of_nat x, s')" "x < unat (fssize (sb s))" "\<not> block_used (sb s) (fview s) x"
      "tstep H {bmapstart (sb s), of_nat x} s s'" "fview s' = take_block (sb s) x (fview s)"
proof -
  let ?sz = "unat (fssize (sb s))"
  have sz: "?sz \<le> 8192" using assms(4) by (simp add: disk_ok_def)
  have "map_free (sb s) (fview s) H"
    unfolding map_free_def
  proof (intro allI impI conjI)
    fix x assume x: "x < ?sz"
    show "BBLOCK (of_nat x) (sb s) \<notin> H"
      using BBLOCK_single(1) [OF sz x] assms(5) by (auto simp: data_block_def meta_def)
    show "of_nat x \<notin> H" if "\<not> block_used (sb s) (fview s) x"
      using that assms(5) unat_small [OF x] by (auto simp: data_block_def)
  qed
  then obtain r s' where r: "balloc dev s = Inr (r, s')" "balloc_result H s 0 r s'"
    using balloc_spec [OF assms(1-3) disk_ok_free_map [OF assms(4)] _ assms(6)] by blast
  from r(2) show ?thesis
    unfolding balloc_result_def
    using that r(1) BBLOCK_single(1) [OF sz] by (auto simp: disk_full_def)
qed

lemma bmap_result_full:
  assumes tr: "file_trans ip s" and z: "file_addr (fview s) (itab s ip) bn = 0" and "disk_full s"
    "tstep {} {} s s'" "fview s' = fview s"
  shows "bmap_result ip bn s 0 s'"
proof -
  note k = tstep_same [OF assms(4)]
  have l: "log_held {} (flog s)" using tr by (simp add: file_trans_def)
  have "log_cost ip s' = log_cost ip s" using log_grows [OF l k(1,11)] k by (simp add: log_cost_def)
  moreover have "file_trans ip s'" using tr k assms(5) by (simp add: file_trans_def)
  ultimately show ?thesis
    using assms k tstep_file_only(1) [OF assms(4)] extends_refl
    by (simp add: bmap_result_def disk_full_def file_trans_def)
qed

lemma bmap_direct_new:
  assumes tr: "file_trans ip s" and bn: "bn < NDIRECT" "iaddrs (itab s ip) ! bn = 0" and c: "log_cost ip s + 3 \<le> int LOGBLOCKS"
  shows "\<exists>r s'. bmap ip bn s = Inr (r, s') \<and> bmap_result ip bn s r s'"
proof -
  let ?x = "itab s ip" and ?v = "fview s" and ?st = "start (flog s)"
  have t: "log_held {} (flog s)" "1 \<le> outstanding (flog s)" "idev ?x = ldev (flog s)" "disk_ok (sb s) ?st ?v" "file_wf (sb s) ?st ?v ?x"
    using tr by (auto simp: file_trans_def)
  have b2: "lh_n (flog s) + int (card ({} :: u32 set)) + 2 \<le> int LOGBLOCKS" using c log_cost_ge [of s ip] by simp
  have z: "file_addr ?v ?x bn = 0" using bn by (simp add: file_addr_def)
  show ?thesis
  proof (rule balloc_data [OF t(1,2) b2 t(4) _ t(3)])
    fix s' assume a: "balloc (idev ?x) s = Inr (0, s')" "disk_full s" "tstep {} {} s s'" "fview s' = ?v"
    have "bmap ip bn s = Inr (0, s')" using bn by (simp add: bmap_def seq_Inr [where m = "balloc (idev ?x)", OF a(1)])
    then show ?thesis using bmap_result_full [OF tr z a(2-4)] by blast
  next
    fix y s1 assume a: "balloc (idev ?x) s = Inr (of_nat y, s1)" "y < unat (fssize (sb s))" "\<not> block_used (sb s) ?v y"
      "tstep {} {bmapstart (sb s), of_nat y} s s1" "fview s1 = take_block (sb s) y ?v"
    note k = tstep_same [OF a(4)] and e = extend_direct [OF t(4,5) a(2,3) bn] and f = take_block_facts [OF t(4) a(2,3)]
    define x' where "x' = ?x\<lparr>iaddrs := (iaddrs ?x)[bn := of_nat y]\<rparr>"
    define s' where "s' = set_inode ip x' s1"
    have k': "flog s' = flog s1" "itab s' ip = x'" "sb s' = sb s" "fview s' = take_block (sb s) y ?v"
      using k a(5) by (simp_all add: s'_def set_inode_def fview_def)
    have "bmap ip bn s = Inr (of_nat y, s')"
      using bn f(4) k by (simp add: bmap_def seq_Inr [where m = "balloc (idev ?x)", OF a(1)] s'_def x'_def)
    moreover have "log_cost ip s' \<le> log_cost ip s + 1"
    proof -
      have "int (card ({bmapstart (sb s), of_nat y} - set (logged (flog s)))) \<le> of_bool (bmapstart (sb s) \<notin> set (logged (flog s))) + 1"
        using card_diff_two [of "bmapstart (sb s)" "of_nat y" "set (logged (flog s))"] by (auto split: if_splits simp: of_bool_def)
      moreover have "iaddrs x' ! NDIRECT = iaddrs ?x ! NDIRECT" using bn by (simp add: x'_def)
      ultimately show ?thesis
        using log_grows [OF t(1) k(1,11)] unfolding log_cost_def k' k(11) by (auto simp: of_bool_def)
    qed
    moreover have ex: "extends (sb s) ?st bn ?v ?x (fview s') (itab s' ip)" "file_addr (fview s') (itab s' ip) bn = of_nat y"
      using e by (simp_all add: k' x'_def)
    moreover have "file_trans ip s'" using tr k ex(1) by (simp add: file_trans_def extends_def k' x'_def)
    ultimately show ?thesis
      using f(3,4) z tstep_file_only(2) [OF a(4), of ip x'] k(11)
      by (intro exI [of _ "of_nat y"] exI [of _ s']) (simp add: bmap_result_def k' flip: s'_def)
  qed simp
qed

lemma holds_data: "log_held H (flog s) \<Longrightarrow> holds s i b \<Longrightarrow> buf_data i s = fview s b"
  using abs_state_owns(1) by (fastforce simp: log_held_def holds_def buf_data_def fview_def)

lemma seq_assoc_log:
  assumes "seq p (\<lambda>_. seq q (\<lambda>_. r)) t = Inr ((), s')"
  shows "seq (\<lambda>s. seq p (\<lambda>_. q) s) (\<lambda>_. seq r f) t = f () s'"
  using assms by (auto simp: seq_def bind_result_def split: sum.splits prod.splits)

lemma bmap_indirect_new:
  assumes tr: "file_trans ip s" and bn: "NDIRECT \<le> bn" "bn < MAXFILE" "iaddrs (itab s ip) ! NDIRECT \<noteq> 0"
    "file_addr (fview s) (itab s ip) bn = 0" and c: "log_cost ip s + 3 \<le> int LOGBLOCKS"
  shows "\<exists>r s'. bmap ip bn s = Inr (r, s') \<and> bmap_result ip bn s r s'"
proof -
  let ?x = "itab s ip" and ?v = "fview s" and ?st = "start (flog s)" and ?i = "iaddrs (itab s ip) ! NDIRECT"
  have t: "log_held {} (flog s)" "1 \<le> outstanding (flog s)" "idev ?x = ldev (flog s)" "disk_ok (sb s) ?st ?v" "file_wf (sb s) ?st ?v ?x"
    using tr by (auto simp: file_trans_def)
  have di: "data_block (sb s) ?st ?v ?i" using t(5) bn(3) by (simp add: file_wf_def)
  then have inl: "?i \<notin> log_region ?st" by (auto simp: data_block_def meta_def)
  have lc: "lh_n (flog s) + 3 \<le> int LOGBLOCKS" using c log_cost_ge [of s ip] by simp
  obtain i s1 where s1: "get_buf (ldev (flog s)) ?i s = Inr (i, s1)" "cache_only s s1" "buf_data i s1 = ?v ?i"
    "log_held {?i} (flog s1)" "holds s1 i ?i"
    using access_block [OF t(1), of ?i thesis] lc by auto
  note k1 = cache_only_same [OF s1(2)]
  have e0: "get32 (?v ?i) (4 * (bn - NDIRECT)) = 0" using bn by (simp add: file_addr_def)
  let ?rest = "\<lambda>addr. seq (\<lambda>s. if addr \<noteq> 0 then seq (put_data i (put32 (buf_data i s) (4 * (bn - NDIRECT)) addr)) (\<lambda>_. log_buf i) s
      else Inr ((), s)) (\<lambda>_. seq (rel_buf i) (\<lambda>_. ret addr))"
  have bm: "bmap ip bn s = seq (balloc (ldev (flog s))) ?rest s1"
  proof -
    have "\<not> bn < NDIRECT" "bn - NDIRECT < NINDIRECT" using bn by (simp_all add: MAXFILE_def)
    then show ?thesis using bn(3) e0 k1 t(3) by (simp add: bmap_def Let_def seq_def s1(1,3))
  qed
  show ?thesis
  proof (rule balloc_data [OF s1(4), of "ldev (flog s)"])
    show "1 \<le> outstanding (flog s1)" "lh_n (flog s1) + int (card {?i}) + 2 \<le> int LOGBLOCKS"
      "disk_ok (sb s1) (start (flog s1)) (fview s1)" "{?i} \<subseteq> {b. data_block (sb s1) (start (flog s1)) (fview s1) b}"
      "ldev (flog s) = ldev (flog s1)" using t lc di k1 by simp_all
  next
    fix s2 assume a: "balloc (ldev (flog s)) s1 = Inr (0, s2)" "disk_full s1" "tstep {?i} {} s1 s2" "fview s2 = fview s1"
    note k2 = tstep_same [OF a(3)]
    have h2: "holds s2 i ?i" using a(3) s1(5) by (simp add: tstep_def)
    obtain s3 where s3: "rel_buf i s2 = Inr ((), s3)" "cache_only s2 s3" "log_held {} (flog s3)"
      using rel_buf_holds [OF k2(1) _ h2] by blast
    note k3 = cache_only_same [OF s3(2)]
    have "bmap ip bn s = Inr (0, s3)" unfolding bm using a(1) s3(1) by (simp add: seq_def ret_def)
    moreover have same: "fview s3 = ?v" "itab s3 = itab s" "sb s3 = sb s" "start (flog s3) = ?st" "ldev (flog s3) = ldev (flog s)"
      "outstanding (flog s3) = outstanding (flog s)" "set (logged (flog s3)) = set (logged (flog s))"
      using k1 k2 k3 a(4) by simp_all
    moreover have "lh_n (flog s3) = lh_n (flog s)" using log_grows [OF t(1) s3(3), of "{}"] same(7) by simp
    then have "log_cost ip s3 = log_cost ip s" using same by (simp add: log_cost_def)
    moreover have "file_trans ip s3" using tr same s3(3) by (simp add: file_trans_def)
    moreover have "file_only ip s s3"
    proof -
      have "s3 = s\<lparr>flog := flog s3\<rparr>" using cache_only_eq [OF s1(2)] a(3) cache_only_eq [OF s3(2)] unfolding tstep_def by (metis fs.update_convs(1) fs.surjective fs.select_convs(1))
      then show ?thesis using same unfolding file_only_def
        by (intro exI [of _ "flog s3"] exI [of _ "itab s ip"]) (metis fs.surjective fs.update_convs(1,2) fun_upd_triv)
    qed
    moreover have "disk_full s3" using a(2) same k1 by (simp add: disk_full_def)
    ultimately show ?thesis
      using bn(4) extends_refl [OF t(4,5)] by (intro exI [of _ 0] exI [of _ s3]) (simp add: bmap_result_def)
  next
    fix y s2 assume a: "balloc (ldev (flog s)) s1 = Inr (of_nat y, s2)" "y < unat (fssize (sb s1))" "\<not> block_used (sb s1) (fview s1) y"
      "tstep {?i} {bmapstart (sb s1), of_nat y} s1 s2" "fview s2 = take_block (sb s1) y (fview s1)"
    note k2 = tstep_same [OF a(4)]
    have y: "y < unat (fssize (sb s))" "\<not> block_used (sb s) ?v y" using a(2,3) k1 by simp_all
    note f = take_block_facts [OF t(4) y] and e = extend_indirect [OF t(4,5) y bn]
    have h2: "holds s2 i ?i" using a(4) s1(5) by (simp add: tstep_def)
    have d2: "buf_data i s2 = ?v ?i" using holds_data [OF k2(1) h2] a(5) f(6) [OF di] k1 by simp
    let ?d = "put32 (?v ?i) (4 * (bn - NDIRECT)) (of_nat y)"
    let ?B = "{bmapstart (sb s), of_nat y, ?i}"
    have "lh_n (flog s2) \<le> lh_n (flog s1) + int (card {bmapstart (sb s1), of_nat y})"
      using tstep_count [OF s1(4) a(4)] by simp
    also have "int (card {bmapstart (sb s1), of_nat y}) \<le> 2" by (simp add: card_insert_if)
    finally have room: "lh_n (flog s2) < int LOGBLOCKS" using lc k1 by linarith
    obtain l' where l': "seq (put_data i ?d) (\<lambda>_. seq (log_buf i) (\<lambda>_. rel_buf i)) s2 = Inr ((), s2\<lparr>flog := l'\<rparr>)"
      "log_held {} l'" "bview (ldev l') (cache l') = (fview s2)(?i := ?d)" "start l' = start (flog s2)" "ldev l' = ldev (flog s2)"
      "outstanding l' = outstanding (flog s2)" "set (logged l') = insert ?i (set (logged (flog s2)))"
      using log_buf_holds [OF k2(1) _ h2 _ _ room, of ?d thesis] t(2) inl k1 k2 by auto
    define s' where "s' = s2\<lparr>flog := l'\<rparr>"
    have "bmap ip bn s = Inr (of_nat y, s')"
    proof -
      have "bmap ip bn s = ?rest (of_nat y) s2" unfolding bm using a(1) by (rule seq_Inr)
      also have "\<dots> = seq (\<lambda>s. seq (put_data i ?d) (\<lambda>_. log_buf i) s) (\<lambda>_. seq (rel_buf i) (\<lambda>_. ret (of_nat y))) s2"
        using f(4) d2 by (simp add: seq_def)
      also have "\<dots> = Inr (of_nat y, s')" unfolding seq_assoc_log [OF l'(1)] by (simp add: ret_def s'_def)
      finally show ?thesis .
    qed
    moreover have same: "fview s' = (take_block (sb s) y ?v)(?i := ?d)" "itab s' = itab s" "sb s' = sb s" "start (flog s') = ?st"
      "ldev (flog s') = ldev (flog s)" "outstanding (flog s') = outstanding (flog s)" "log_held {} (flog s')"
      "set (logged (flog s')) = set (logged (flog s)) \<union> ?B"
      using k1 k2 a(5) l' by (auto simp: s'_def fview_def)
    moreover have "log_cost ip s' \<le> log_cost ip s + 1"
    proof -
      have "int (card (?B - set (logged (flog s)))) \<le> of_bool (bmapstart (sb s) \<notin> set (logged (flog s))) + of_bool (?i \<notin> set (logged (flog s))) + 1"
        by (cases "bmapstart (sb s) \<in> set (logged (flog s))"; cases "?i \<in> set (logged (flog s))")
          (auto simp: insert_Diff_if card_insert_if)
      then show ?thesis
        using log_grows [OF t(1) same(7,8)] same bn(3) by (simp add: log_cost_def)
    qed
    moreover have ex: "extends (sb s) ?st bn ?v ?x (fview s') (itab s' ip)" "file_addr (fview s') (itab s' ip) bn = of_nat y"
      "fview s' (of_nat y) = replicate BSIZE 0"
      using e by (simp_all add: same)
    moreover have "file_trans ip s'" using tr ex(1) same by (simp add: file_trans_def extends_def)
    moreover have "file_only ip s s'"
    proof -
      have "s' = s\<lparr>flog := l'\<rparr>" using cache_only_eq [OF s1(2)] a(4) unfolding tstep_def s'_def
        by (metis fs.update_convs(1) fs.surjective fs.select_convs(1))
      then show ?thesis using same unfolding file_only_def s'_def
        by (intro exI [of _ l'] exI [of _ "itab s ip"]) simp
    qed
    ultimately show ?thesis
      using f(4) bn(4) by (intro exI [of _ "of_nat y"] exI [of _ s']) (simp add: bmap_result_def)
  qed
qed

text \<open>Once the indirect block is there, \<open>bmap\<close> goes on as if it had always been.\<close>

lemma bmap_after_indirect:
  assumes "NDIRECT \<le> bn" "iaddrs (itab s ip) ! NDIRECT = 0" "length (iaddrs (itab s ip)) = NDIRECT + 1"
    "balloc (idev (itab s ip)) s = Inr (a, s1)" "a \<noteq> 0" "itab s1 = itab s"
  shows "bmap ip bn s = bmap ip bn (set_inode ip ((itab s ip)\<lparr>iaddrs := (iaddrs (itab s ip))[NDIRECT := a]\<rparr>) s1)"
  using assms by (simp add: bmap_def Let_def seq_def set_inode_def)

lemma bmap_result_trans:
  assumes "file_only ip s t" "extends (sb s) (start (flog s)) bn (fview s) (itab s ip) (fview t) (itab t ip)"
    "\<And>m. m < MAXFILE \<Longrightarrow> file_addr (fview t) (itab t ip) m = file_addr (fview s) (itab s ip) m"
    "log_cost ip t \<le> log_cost ip s" "bn < MAXFILE" "bmap_result ip bn t r s'"
  shows "bmap_result ip bn s r s'"
proof -
  have "sb t = sb s" "start (flog t) = start (flog s)" using file_only_same [OF assms(1)] by simp_all
  then show ?thesis
    using assms(3-6) file_only_trans [OF assms(1)] extends_trans [OF assms(2) _ assms(3)] unfolding bmap_result_def by auto
qed

lemma bmap_correct:
  assumes tr: "file_trans ip s" and bn: "bn < MAXFILE" and c: "log_cost ip s + 3 \<le> int LOGBLOCKS"
  shows "\<exists>r s'. bmap ip bn s = Inr (r, s') \<and> bmap_result ip bn s r s'"
proof -
  let ?x = "itab s ip" and ?v = "fview s" and ?st = "start (flog s)" and ?i = "iaddrs (itab s ip) ! NDIRECT"
  have t: "log_held {} (flog s)" "1 \<le> outstanding (flog s)" "idev ?x = ldev (flog s)" "disk_ok (sb s) ?st ?v" "file_wf (sb s) ?st ?v ?x"
    using tr by (auto simp: file_trans_def)
  have lc: "lh_n (flog s) + 3 \<le> int LOGBLOCKS" using c log_cost_ge [of s ip] by simp
  consider "file_addr ?v ?x bn \<noteq> 0" | "file_addr ?v ?x bn = 0" "bn < NDIRECT" |
    "file_addr ?v ?x bn = 0" "NDIRECT \<le> bn" "?i \<noteq> 0" | "file_addr ?v ?x bn = 0" "NDIRECT \<le> bn" "?i = 0" by linarith
  then show ?thesis
  proof cases
    case 1
    have "fs_quiet s" using t(1) lc by (simp add: fs_quiet_def log_held_empty)
    then obtain s' where s': "bmap ip bn s = Inr (file_addr ?v ?x bn, s')" "reads_only s s'"
      using bmap_existing [OF _ t(3) bn 1] by blast
    have co: "cache_only s s'" "log_held {} (flog s')" using s'(2) by (simp_all add: reads_only_def fs_quiet_def log_held_empty)
    note k = cache_only_same [OF co(1)]
    have "s' = s\<lparr>flog := flog s', itab := (itab s)(ip := ?x)\<rparr>" using co(1) by (auto simp: cache_only_def)
    then have "file_only ip s s'" using k unfolding file_only_def by (intro exI [of _ "flog s'"] exI [of _ ?x]) simp
    moreover have "file_trans ip s'" using tr k co(2) by (simp add: file_trans_def)
    moreover have "log_cost ip s' = log_cost ip s" using k by (simp add: log_cost_def)
    ultimately have "bmap_result ip bn s (file_addr ?v ?x bn) s'"
      using 1 k extends_refl [OF t(4,5)] by (simp add: bmap_result_def)
    then show ?thesis using s'(1) by blast
  next
    case 2
    then show ?thesis using bmap_direct_new [OF tr _ _ c] by (simp add: file_addr_def)
  next
    case 3
    then show ?thesis using bmap_indirect_new [OF tr _ bn _ _ c] by blast
  next
    case 4
    have b2: "lh_n (flog s) + int (card ({} :: u32 set)) + 2 \<le> int LOGBLOCKS" using lc by simp
    show ?thesis
    proof (rule balloc_data [OF t(1,2) b2 t(4) _ t(3)])
      fix s' assume a: "balloc (idev ?x) s = Inr (0, s')" "disk_full s" "tstep {} {} s s'" "fview s' = ?v"
      have "bmap ip bn s = Inr (0, s')" using 4 bn a(1) by (auto simp: bmap_def Let_def seq_def MAXFILE_def)
      then show ?thesis using bmap_result_full [OF tr 4(1) a(2-4)] by blast
    next
      fix y s1 assume a: "balloc (idev ?x) s = Inr (of_nat y, s1)" "y < unat (fssize (sb s))" "\<not> block_used (sb s) ?v y"
        "tstep {} {bmapstart (sb s), of_nat y} s s1" "fview s1 = take_block (sb s) y ?v"
      note k = tstep_same [OF a(4)] and e = extend_indirect_block [OF t(4,5) a(2,3) 4(3)] and f = take_block_facts [OF t(4) a(2,3)]
      define x' where "x' = ?x\<lparr>iaddrs := (iaddrs ?x)[NDIRECT := of_nat y]\<rparr>"
      define s2 where "s2 = set_inode ip x' s1"
      have k2: "flog s2 = flog s1" "itab s2 ip = x'" "sb s2 = sb s" "fview s2 = take_block (sb s) y ?v"
        using k a(5) by (simp_all add: s2_def set_inode_def fview_def)
      have len: "length (iaddrs ?x) = NDIRECT + 1" using t(5) by (simp add: file_wf_def)
      have bm: "bmap ip bn s = bmap ip bn s2"
        using bmap_after_indirect [OF 4(2,3) len a(1) f(4) k(2)] by (simp add: s2_def x'_def)
      have ex: "extends (sb s) ?st bn ?v ?x (fview s2) (itab s2 ip)"
        "\<And>m. m < MAXFILE \<Longrightarrow> file_addr (fview s2) (itab s2 ip) m = file_addr ?v ?x m" "iaddrs (itab s2 ip) ! NDIRECT = of_nat y"
        using e by (simp_all add: k2 x'_def)
      have tr2: "file_trans ip s2" using tr k ex(1) by (simp add: file_trans_def extends_def k2 x'_def)
      have cost: "log_cost ip s2 \<le> log_cost ip s"
        using log_grows [OF t(1) k(1,11)] card_diff_two [of "bmapstart (sb s)" "of_nat y" "set (logged (flog s))"] 4(3) ex(3) f(4)
        unfolding log_cost_def k2 k(11) by (auto simp: of_bool_def split: if_splits)
      obtain r s' where "bmap ip bn s2 = Inr (r, s')" "bmap_result ip bn s2 r s'"
        using bmap_indirect_new [OF tr2 4(2) bn, unfolded ex(3) ex(2) [OF bn]] f(4) 4(1) cost c by fastforce
      then show ?thesis
        using bmap_result_trans [OF tstep_file_only(2) [OF a(4), of ip x', folded s2_def] ex(1,2) cost bn] bm by auto
    qed simp
  qed
qed

section \<open>writei\<close>

text \<open>
  The bytes \<open>bs\<close> were written at \<open>off\<close>: they are there, every other byte that was there still is, and
  the blocks of other files are as they were.
\<close>

definition written :: "superblock \<Rightarrow> u32 \<Rightarrow> nat \<Rightarrow> u8 list \<Rightarrow> (u32 \<Rightarrow> block) \<Rightarrow> inode \<Rightarrow> (u32 \<Rightarrow> block) \<Rightarrow> inode \<Rightarrow> bool" where
  "written sbk st off bs v x v' x' \<longleftrightarrow> x' = x\<lparr>iaddrs := iaddrs x'\<rparr> \<and>
     (\<forall>i<MAXFILE * BSIZE. file_addr v x (i div BSIZE) \<noteq> 0 \<longrightarrow> file_addr v' x' (i div BSIZE) \<noteq> 0 \<and>
        (i < off \<or> off + length bs \<le> i \<longrightarrow> file_byte v' x' i = file_byte v x i)) \<and>
     (\<forall>j<length bs. file_addr v' x' ((off + j) div BSIZE) \<noteq> 0 \<and> file_byte v' x' (off + j) = bs ! j) \<and>
     (\<forall>b. data_block sbk st v b \<longrightarrow> data_block sbk st v' b) \<and>
     (\<forall>b. data_block sbk st v b \<and> b \<notin> file_blocks v x \<longrightarrow> v' b = v b \<and> b \<notin> file_blocks v' x')"

lemma written_none: "written sbk st off [] v x v x"
  by (simp add: written_def)

lemma written_trans:
  assumes a: "written sbk st off bs v x v1 x1" and b: "written sbk st (off + length bs) cs v1 x1 v2 x2"
    and "off + length bs + length cs \<le> MAXFILE * BSIZE"
  shows "written sbk st off (bs @ cs) v x v2 x2"
proof -
  have "x2 = x\<lparr>iaddrs := iaddrs x2\<rparr>" using a b unfolding written_def by (metis inode.surjective inode.update_convs(11))
  moreover have "file_addr v2 x2 ((off + j) div BSIZE) \<noteq> 0 \<and> file_byte v2 x2 (off + j) = (bs @ cs) ! j"
    if j: "j < length bs + length cs" for j
  proof (cases "j < length bs")
    case True
    moreover have "off + j < MAXFILE * BSIZE" using j assms(3) by linarith
    ultimately show ?thesis using a b by (simp add: written_def nth_append)
  next
    case False
    then have "off + length bs + (j - length bs) = off + j" "j - length bs < length cs" using j by auto
    then show ?thesis using b False unfolding written_def nth_append by metis
  qed
  ultimately show ?thesis using a b unfolding written_def by (auto simp: add.assoc)
qed

text \<open>An extension without a write.\<close>

lemma extends_written: "extends sbk st bn v x v' x' \<Longrightarrow> written sbk st off [] v x v' x'"
proof -
  assume e: "extends sbk st bn v x v' x'"
  have "file_addr v' x' (i div BSIZE) = file_addr v x (i div BSIZE) \<and> v' (file_addr v x (i div BSIZE)) = v (file_addr v x (i div BSIZE))"
    if "i < MAXFILE * BSIZE" "file_addr v x (i div BSIZE) \<noteq> 0" for i
    using e that less_mult_imp_div_less [OF that(1)] unfolding extends_def by blast
  then show ?thesis using e unfolding extends_def written_def file_byte_def by simp
qed

text \<open>Writing within one block that is there.\<close>

definition overwrite :: "block \<Rightarrow> nat \<Rightarrow> u8 list \<Rightarrow> block" where
  "overwrite d o1 bs = take o1 d @ bs @ drop (o1 + length bs) d"

lemma overwrite_nth:
  assumes "o1 + length bs \<le> length d" "i < length d"
  shows "length (overwrite d o1 bs) = length d"
    "overwrite d o1 bs ! i = (if o1 \<le> i \<and> i < o1 + length bs then bs ! (i - o1) else d ! i)"
  using assms by (auto simp: overwrite_def nth_append)

lemma block_offset:
  assumes "off mod BSIZE + j < BSIZE"
  shows "(off + j) div BSIZE = off div BSIZE" "(off + j) mod BSIZE = off mod BSIZE + j"
proof -
  have "off + j = off div BSIZE * BSIZE + (off mod BSIZE + j)" by simp
  then show "(off + j) div BSIZE = off div BSIZE" "(off + j) mod BSIZE = off mod BSIZE + j"
    using assms by (metis div_mult_self3 div_less add.right_neutral not_less_zero, metis mod_mult_self3 mod_less)
qed

lemma write_block:
  assumes ok: "disk_ok sbk st v" and wf: "file_wf sbk st v x" and a: "file_addr v x (off div BSIZE) \<noteq> 0"
    and bs: "off mod BSIZE + length bs \<le> BSIZE" "off + length bs \<le> MAXFILE * BSIZE" "bs \<noteq> []"
  defines "b \<equiv> file_addr v x (off div BSIZE)"
  defines "v' \<equiv> v(b := overwrite (v b) (off mod BSIZE) bs)"
  shows "disk_ok sbk st v'" "file_wf sbk st v' x" "written sbk st off bs v x v' x"
proof -
  have B: "i mod BSIZE < BSIZE" for i by (simp add: BSIZE_def)
  have m: "off div BSIZE < MAXFILE" using bs(2,3) by (intro less_mult_imp_div_less) (cases bs, auto)
  have b: "data_block sbk st v b" "b \<noteq> iaddrs x ! NDIRECT" "\<And>k. k < MAXFILE \<Longrightarrow> file_addr v x k = b \<Longrightarrow> k = off div BSIZE"
    using wf a m by (auto simp: file_wf_def b_def)
  have len: "length (v b) = BSIZE" using b(1) by (simp add: data_block_def)
  have sp: "length (overwrite (v b) (off mod BSIZE) bs) = BSIZE"
    using bs(1) len by (simp add: overwrite_def)
  note wd = write_data_facts [OF ok b(1) sp, folded v'_def]
  show "disk_ok sbk st v'" by (fact wd(1))
  have fa: "file_addr v' x k = file_addr v x k" for k using b(2) by (simp add: file_addr_def v'_def)
  then show "file_wf sbk st v' x" using wf by (simp add: file_wf_def wd(2))
  have vo: "v' c = v c" if "c \<noteq> b" for c using that by (simp add: v'_def)
  have vb: "v' b = overwrite (v b) (off mod BSIZE) bs" by (simp add: v'_def)
  have other: "file_byte v' x i = file_byte v x i" if "i < MAXFILE * BSIZE" "i < off \<or> off + length bs \<le> i" for i
  proof (cases "file_addr v x (i div BSIZE) = b")
    case True
    then have q: "i div BSIZE = off div BSIZE" using that(1) b(3) by (simp add: less_mult_imp_div_less)
    have "\<not> (off mod BSIZE \<le> i mod BSIZE \<and> i mod BSIZE < off mod BSIZE + length bs)"
    proof -
      have "i = off div BSIZE * BSIZE + i mod BSIZE" "off = off div BSIZE * BSIZE + off mod BSIZE"
        using q div_mult_mod_eq [of i BSIZE] by simp_all
      then show ?thesis using that(2) by linarith
    qed
    then have "v' b ! (i mod BSIZE) = v b ! (i mod BSIZE)"
      using bs(1) len B overwrite_nth(2) [of "off mod BSIZE" bs "v b" "i mod BSIZE"] by (auto simp: v'_def)
    then show ?thesis using True by (simp add: file_byte_def fa)
  qed (simp add: file_byte_def fa vo)
  have new: "file_addr v' x ((off + j) div BSIZE) \<noteq> 0 \<and> file_byte v' x (off + j) = bs ! j" if "j < length bs" for j
  proof -
    have o: "(off + j) div BSIZE = off div BSIZE" "(off + j) mod BSIZE = off mod BSIZE + j" using block_offset [of off j] that bs(1) by auto
    then show ?thesis
      using a that bs(1) len overwrite_nth(2) [of "off mod BSIZE" bs "v b" "off mod BSIZE + j"]
      by (simp add: file_byte_def fa o vb flip: b_def)
  qed
  show "written sbk st off bs v x v' x"
    unfolding written_def
  proof (intro conjI allI impI)
    show "x = x\<lparr>iaddrs := iaddrs x\<rparr>" by simp
    show "file_addr v' x (i div BSIZE) \<noteq> 0" if "file_addr v x (i div BSIZE) \<noteq> 0" for i using that fa by simp
    show "file_byte v' x i = file_byte v x i" if "i < MAXFILE * BSIZE" "i < off \<or> off + length bs \<le> i" for i using other that by blast
    show "file_addr v' x ((off + j) div BSIZE) \<noteq> 0" "file_byte v' x (off + j) = bs ! j" if "j < length bs" for j using new that by blast+
    show "data_block sbk st v' c" if "data_block sbk st v c" for c using that wd(2) by simp
    show "v' c = v c" "c \<notin> file_blocks v' x" if "data_block sbk st v c \<and> c \<notin> file_blocks v x" for c
    proof -
      have "b \<in> file_blocks v x" using m by (auto simp: file_blocks_def b_def)
      then show "v' c = v c" "c \<notin> file_blocks v' x" using that vo by (auto simp: file_blocks_def fa)
    qed
  qed
qed

text \<open>The number of blocks that \<open>n\<close> bytes at \<open>off\<close> touch.\<close>

definition touched :: "nat \<Rightarrow> nat \<Rightarrow> nat" where
  "touched off n = (if n = 0 then 0 else (off + n - 1) div BSIZE - off div BSIZE + 1)"

lemma touched_step:
  fixes off n :: nat
  assumes "0 < n"
  defines "m \<equiv> min n (BSIZE - off mod BSIZE)"
  shows "touched off n = Suc (touched (off + m) (n - m))"
proof (cases "n \<le> BSIZE - off mod BSIZE")
  case True
  have "off mod BSIZE + (n - 1) < BSIZE" using True assms(1) by (simp add: BSIZE_def)
  then have "(off + (n - 1)) div BSIZE = off div BSIZE" by (rule block_offset)
  then show ?thesis using True assms by (simp add: touched_def)
next
  case False
  then have m: "m = BSIZE - off mod BSIZE" by (simp add: m_def)
  then have "off + m = (off div BSIZE + 1) * BSIZE"
  proof -
    have "off mod BSIZE < BSIZE" "off div BSIZE * BSIZE + off mod BSIZE = off" by (simp_all add: BSIZE_def)
    then have "off + m = off div BSIZE * BSIZE + BSIZE" using m by linarith
    then show ?thesis by simp
  qed
  then have d: "(off + m) div BSIZE = off div BSIZE + 1" by (simp add: BSIZE_def)
  have "off div BSIZE + 1 \<le> (off + n - 1) div BSIZE"
    using d False m div_le_mono [of "off + m" "off + n - 1" BSIZE] by simp
  then show ?thesis using False m d assms(1) by (simp add: touched_def)
qed

text \<open>What a loop of \<open>writei\<close> from \<open>off\<close> on does with the bytes \<open>bs\<close>: it writes \<open>k\<close> of them.\<close>

definition writei_result :: "nat \<Rightarrow> nat \<Rightarrow> u8 list \<Rightarrow> nat \<Rightarrow> fs \<Rightarrow> fs \<Rightarrow> bool" where
  "writei_result ip off bs k s s' \<longleftrightarrow> k \<le> length bs \<and> (k < length bs \<longrightarrow> disk_full s') \<and> file_trans ip s' \<and> file_only ip s s' \<and>
     written (sb s) (start (flog s)) off (take k bs) (fview s) (itab s ip) (fview s') (itab s' ip) \<and>
     log_cost ip s' \<le> log_cost ip s + int (touched off (length bs))"

lemma writei_loop_step:
  assumes "rem \<noteq> 0" "bmap ip (off div BSIZE) s = Inr (r, s1)" "r \<noteq> 0" "get_buf (idev (itab s1 ip)) r s1 = Inr (i, s2)"
    and m: "m = min rem (BSIZE - off mod BSIZE)"
    and log: "seq (put_data i (overwrite (buf_data i s2) (off mod BSIZE) (take m bs))) (\<lambda>_. seq (log_buf i) (\<lambda>_. rel_buf i)) s2 = Inr ((), s3)"
  shows "writei_loop ip (Kern_src bs) off rem tot s = writei_loop ip (Kern_src (drop m bs)) (off + m) (rem - m) (tot + m) s3"
proof -
  have "either_copyin (Kern_src bs) m s2 = Inr ((take m bs, True), s2)" by simp
  note cp = seq_Inr [where m = "either_copyin (Kern_src bs) m", OF this]
  note steps = seq_Inr [where m = "bmap ip (off div BSIZE)", OF assms(2)] seq_Inr [where m = "get_buf (idev (itab s1 ip)) r", OF assms(4)]
  show ?thesis
    unfolding writei_loop.simps [of ip "Kern_src bs" off rem] steps
    using assms(1,3) seq_assoc3 [OF log] by (simp only: if_False Let_def cp prod.case overwrite_def simp_thms source_advance.simps flip: m)
qed

lemma writei_loop_writes:
  assumes "file_trans ip s" "off + length bs \<le> MAXFILE * BSIZE" "log_cost ip s + int (touched off (length bs)) + 2 \<le> int LOGBLOCKS"
  shows "\<exists>k s'. writei_loop ip (Kern_src bs) off (length bs) tot s = Inr ((tot + k, off + k), s') \<and> writei_result ip off bs k s s'"
  using assms
proof (induction "length bs" arbitrary: bs off tot s rule: less_induct)
  case less
  show ?case
  proof (cases "bs = []")
    case True
    then show ?thesis using less.prems
      by (intro exI [of _ 0] exI [of _ s]) (auto simp: writei_loop.simps writei_result_def written_none file_only_def touched_def
        intro!: exI [of _ "flog s"] exI [of _ "itab s ip"])
  next
    case False
    let ?n = "length bs" and ?bn = "off div BSIZE" and ?o = "off mod BSIZE"
    define m where "m = min ?n (BSIZE - ?o)"
    let ?st = "start (flog s)" and ?ch = "take m bs"
    have B: "0 < BSIZE" "?o < BSIZE" by (simp_all add: BSIZE_def)
    have n: "0 < ?n" "0 < m" "m \<le> ?n" "?o + m \<le> BSIZE" using False B by (auto simp: m_def)
    have tc: "touched off ?n = Suc (touched (off + m) (?n - m))" unfolding m_def by (rule touched_step [OF n(1)])
    have bn: "?bn < MAXFILE" using less.prems(2) n by (intro less_mult_imp_div_less) linarith
    have "log_cost ip s + 3 \<le> int LOGBLOCKS" using less.prems(3) tc by simp
    then obtain r s1 where s1: "bmap ip ?bn s = Inr (r, s1)" "bmap_result ip ?bn s r s1"
      using bmap_correct [OF less.prems(1) bn] by blast
    have r1: "file_trans ip s1" "file_only ip s s1" "extends (sb s) ?st ?bn (fview s) (itab s ip) (fview s1) (itab s1 ip)"
      "r = file_addr (fview s1) (itab s1 ip) ?bn" "r = 0 \<Longrightarrow> disk_full s1"
      "log_cost ip s1 + of_bool (r \<notin> set (logged (flog s1))) \<le> log_cost ip s + 1"
      using s1(2) by (auto simp: bmap_result_def)
    have c1: "log_cost ip s1 \<le> log_cost ip s + 1" using r1(6) by (auto simp: of_bool_def split: if_splits)
    note f1 = file_only_same [OF r1(2)]
    note w1 = extends_written [OF r1(3)]
    show ?thesis
    proof (cases "r = 0")
      case True
      have "writei_loop ip (Kern_src bs) off ?n tot s = Inr ((tot, off), s1)"
        using n(1) s1(1) True by (subst writei_loop.simps) (simp add: seq_def)
      moreover have "writei_result ip off bs 0 s s1"
        using r1 w1 [of off] True tc c1 by (simp add: writei_result_def)
      ultimately show ?thesis by (intro exI [of _ 0] exI [of _ s1]) simp
    next
      case nz: False
      have t1: "log_held {} (flog s1)" "1 \<le> outstanding (flog s1)" "idev (itab s1 ip) = ldev (flog s1)"
        "disk_ok (sb s1) (start (flog s1)) (fview s1)" "file_wf (sb s1) (start (flog s1)) (fview s1) (itab s1 ip)"
        using r1(1) by (auto simp: file_trans_def)
      have dr: "data_block (sb s1) (start (flog s1)) (fview s1) r" using t1(5) bn nz r1(4) by (simp add: file_wf_def)
      then have rl: "r \<notin> log_region (start (flog s1))" by (auto simp: data_block_def meta_def)
      have lc: "lh_n (flog s1) + int (card ({} :: u32 set)) < int LOGBLOCKS"
        using c1 less.prems(3) tc log_cost_ge [of s1 ip] by simp
      let ?d = "overwrite (fview s1 r) ?o ?ch"
      obtain i s2 s3 where s2: "get_buf (ldev (flog s1)) r s1 = Inr (i, s2)" "cache_only s1 s2" "buf_data i s2 = fview s1 r"
        and s3: "seq (put_data i ?d) (\<lambda>_. seq (log_buf i) (\<lambda>_. rel_buf i)) s2 = Inr ((), s3)" "tstep {} {r} s1 s3"
          "fview s3 = (fview s1)(r := ?d)"
        using access_block [OF t1(1) _ lc, of r thesis] t1(2) rl by simp metis
      note k3 = tstep_same [OF s3(2)]
      have wb: "disk_ok (sb s1) (start (flog s1)) (fview s3)" "file_wf (sb s1) (start (flog s1)) (fview s3) (itab s1 ip)"
        "written (sb s1) (start (flog s1)) off ?ch (fview s1) (itab s1 ip) (fview s3) (itab s1 ip)"
        using write_block [OF t1(4,5), of off ?ch] nz n less.prems(2) False B unfolding s3(3) by (auto simp: r1(4))
      have tr3: "file_trans ip s3" using t1 wb k3 by (simp add: file_trans_def)
      have fo3: "file_only ip s s3" using file_only_trans [OF r1(2) tstep_file_only(1) [OF s3(2)]] .
      have cost3: "log_cost ip s3 \<le> log_cost ip s + 1"
        using r1(6) log_grows [OF t1(1) k3(1,11)] unfolding log_cost_def k3 by (auto simp: of_bool_def insert_Diff_if split: if_splits)
      have w3: "written (sb s) ?st off ?ch (fview s) (itab s ip) (fview s3) (itab s3 ip)"
        using written_trans [OF w1, where cs = ?ch and off = off] wb(3) f1 k3 n less.prems(2) by simp
      have step: "writei_loop ip (Kern_src bs) off ?n tot s =
          writei_loop ip (Kern_src (drop m bs)) (off + m) (?n - m) (tot + m) s3"
        using writei_loop_step [of ?n ip off s r s1 i s2 m bs s3 tot] n(1) s1(1) nz s2(1,3) s3(1) t1(3) m_def by simp
      have "length (drop m bs) < ?n" "off + m + length (drop m bs) \<le> MAXFILE * BSIZE"
        "log_cost ip s3 + int (touched (off + m) (length (drop m bs))) + 2 \<le> int LOGBLOCKS"
        using n less.prems(2,3) tc cost3 by auto
      from less.hyps [OF this(1) tr3 this(2,3), of "tot + m"] obtain k s' where
        s': "writei_loop ip (Kern_src (drop m bs)) (off + m) (?n - m) (tot + m) s3 = Inr ((tot + m + k, off + m + k), s')"
        "writei_result ip (off + m) (drop m bs) k s3 s'" by auto
      have "written (sb s) ?st off (?ch @ take k (drop m bs)) (fview s) (itab s ip) (fview s') (itab s' ip)"
      proof (rule written_trans [OF w3])
        show "written (sb s) ?st (off + length ?ch) (take k (drop m bs)) (fview s3) (itab s3 ip) (fview s') (itab s' ip)"
          using s'(2) n(3) f1 k3 by (simp add: writei_result_def min_absorb2)
      qed (use less.prems(2) n(3) in simp)
      moreover have "?ch @ take k (drop m bs) = take (m + k) bs" by (metis take_add)
      moreover have "m + k \<le> ?n" "m + k < ?n \<longrightarrow> disk_full s'" "file_trans ip s'" "file_only ip s3 s'"
        "log_cost ip s' \<le> log_cost ip s3 + int (touched (off + m) (?n - m))"
        using s'(2) n(3) by (auto simp: writei_result_def)
      ultimately have "writei_result ip off bs (m + k) s s'"
        using cost3 tc file_only_trans [OF fo3] by (simp add: writei_result_def)
      then show ?thesis using step s'(1) by (intro exI [of _ "m + k"] exI [of _ s']) (simp add: add.assoc)
    qed
  qed
qed

section \<open>iupdate\<close>

lemma file_addr_cong: "iaddrs x = iaddrs y \<Longrightarrow> v (iaddrs x ! NDIRECT) = w (iaddrs x ! NDIRECT) \<Longrightarrow> file_addr v x m = file_addr w y m"
  by (simp add: file_addr_def)

text \<open>Writing the disk inode touches no file.\<close>

lemma write_inode_block:
  assumes ok: "disk_ok sbk st v" and i: "i < ninodes sbk" and "length d = BSIZE"
  defines "v' \<equiv> v(IBLOCK i sbk := d)"
  shows "disk_ok sbk st v'" "data_block sbk st v' b \<longleftrightarrow> data_block sbk st v b"
    "file_wf sbk st v x \<Longrightarrow> file_wf sbk st v' x" "file_wf sbk st v x \<Longrightarrow> m < MAXFILE \<Longrightarrow> file_addr v' x m = file_addr v x m"
    "data_block sbk st v b \<Longrightarrow> v' b = v b" "y < unat (fssize sbk) \<Longrightarrow> block_used sbk v' y \<longleftrightarrow> block_used sbk v y"
proof -
  have m: "IBLOCK i sbk \<noteq> bmapstart sbk" "IBLOCK i sbk \<in> meta sbk st" using ok i by (auto simp: disk_ok_def meta_def)
  have sz: "unat (fssize sbk) \<le> 8192" using ok by (simp add: disk_ok_def)
  show us: "block_used sbk v' y \<longleftrightarrow> block_used sbk v y" if "y < unat (fssize sbk)" for y
    using BBLOCK_single [OF sz that] m by (simp add: block_used_def v'_def)
  have vb: "v' b = v b" if "b \<notin> meta sbk st" for b using that m(2) by (auto simp: v'_def)
  have bm: "v' (bmapstart sbk) = v (bmapstart sbk)" using m(1) by (simp add: v'_def)
  show "disk_ok sbk st v'"
    using ok us assms(3) bm unfolding disk_ok_def by (auto simp: v'_def)
  show db: "data_block sbk st v' b \<longleftrightarrow> data_block sbk st v b" for b
    using us vb by (auto simp: data_block_def)
  show db': "v' b = v b" if "data_block sbk st v b" for b using that vb by (simp add: data_block_def)
  have fa: "file_addr v' x m = file_addr v x m" if "file_wf sbk st v x" for m
    using that db' by (auto simp: file_addr_def file_wf_def)
  show "file_wf sbk st v' x" if "file_wf sbk st v x" using that db by (simp add: file_wf_def fa)
  show "file_addr v' x m = file_addr v x m" if "file_wf sbk st v x" using fa [OF that] .
qed

lemma iupdate_correct:
  assumes tr: "file_trans ip s" and i: "inum (itab s ip) < ninodes (sb s)" and room: "lh_n (flog s) < int LOGBLOCKS"
  defines "ib \<equiv> IBLOCK (inum (itab s ip)) (sb s)" and "o1 \<equiv> dip_off (inum (itab s ip))"
  obtains s' where "iupdate ip s = Inr ((), s')" "tstep {} {ib} s s'"
    "fview s' = (fview s)(ib := put_dinode (itab s ip) o1 (fview s ib))" "file_trans ip s'"
    "get_dinode (fview s' ib) o1 y = y\<lparr>itype := itype (itab s ip), imajor := imajor (itab s ip), iminor := iminor (itab s ip),
       inlink := inlink (itab s ip), isize := isize (itab s ip), iaddrs := iaddrs (itab s ip)\<rparr>"
proof -
  let ?x = "itab s ip" and ?d = "put_dinode (itab s ip) o1 (fview s ib)"
  have t: "log_held {} (flog s)" "1 \<le> outstanding (flog s)" "idev ?x = ldev (flog s)" "disk_ok (sb s) (start (flog s)) (fview s)"
    "file_wf (sb s) (start (flog s)) (fview s) ?x"
    using tr by (auto simp: file_trans_def)
  have ib: "ib \<notin> log_region (start (flog s))" "length (fview s ib) = BSIZE" using t(4) i by (auto simp: disk_ok_def ib_def)
  obtain j s1 s2 where s1: "get_buf (ldev (flog s)) ib s = Inr (j, s1)" "buf_data j s1 = fview s ib"
    and s2: "seq (put_data j ?d) (\<lambda>_. seq (log_buf j) (\<lambda>_. rel_buf j)) s1 = Inr ((), s2)" "tstep {} {ib} s s2" "fview s2 = (fview s)(ib := ?d)"
    using access_block [OF t(1), of ib thesis] room ib(1) t(2) by simp metis
  have "length (iaddrs ?x) = NDIRECT + 1" using t(5) by (simp add: file_wf_def)
  note rt = put_get_dinode [OF ib(2) this, where i = "inum ?x", folded o1_def]
  note k = tstep_same [OF s2(2)]
  note w = write_inode_block [OF t(4) i, of ?d, folded ib_def, folded s2(3)]
  have "iupdate ip s = Inr ((), s2)"
    using s1 s2(1) t(3) by (simp add: iupdate_def Let_def seq_Inr [where m = "get_buf (ldev (flog s)) ib"] flip: ib_def o1_def)
  moreover have "file_trans ip s2" using t k w(1) w(3) [OF _ t(5)] rt(1) by (simp add: file_trans_def)
  ultimately show ?thesis using s2 rt(2) by (intro that [of s2]) simp_all
qed

section \<open>Writing and reading back\<close>

lemma touched_bound: "n \<le> 3 * BSIZE \<Longrightarrow> touched off n \<le> 4"
proof -
  assume "n \<le> 3 * BSIZE"
  then have "(off + n - 1) div BSIZE \<le> (off + 3 * BSIZE) div BSIZE" by (intro div_le_mono) simp
  also have "\<dots> = off div BSIZE + 3" by (simp add: BSIZE_def)
  finally show ?thesis by (simp add: touched_def le_diff_conv add.commute)
qed

text \<open>The bytes of a file after a write that starts within it.\<close>

lemma written_bytes:
  assumes w: "written sbk st off bs v x v' x'" and ok: "file_ok v x" and off: "off \<le> unat (isize x)"
    "off + length bs \<le> MAXFILE * BSIZE" and y: "unat (isize y) = max (unat (isize x)) (off + length bs)" "iaddrs y = iaddrs x'"
  shows "file_bytes v' y = overwrite (file_bytes v x) off bs"
    "\<And>bn. bn * BSIZE < unat (isize y) \<Longrightarrow> file_addr v' y bn \<noteq> 0"
proof -
  have ya: "file_addr v' y = file_addr v' x'" using y(2) by (simp add: file_addr_def fun_eq_iff)
  have old: "file_addr v x (i div BSIZE) \<noteq> 0" "i < MAXFILE * BSIZE" if "i < unat (isize x)" for i
    using that ok div_times_less_eq_dividend [of i BSIZE] unfolding file_ok_def by (metis le_less_trans, linarith)
  have byte: "file_addr v' x' (i div BSIZE) \<noteq> 0 \<and>
      file_byte v' x' i = (if off \<le> i \<and> i < off + length bs then bs ! (i - off) else file_byte v x i)"
    if "i < unat (isize y)" for i
  proof (cases "off \<le> i \<and> i < off + length bs")
    case True
    then have "i - off < length bs" "off + (i - off) = i" by auto
    then show ?thesis using w True unfolding written_def by metis
  next
    case False
    then have "i < unat (isize x)" using that off y by auto
    then show ?thesis using False w old [of i] unfolding written_def by auto
  qed
  show "file_bytes v' y = overwrite (file_bytes v x) off bs"
  proof (rule nth_equalityI)
    show l: "length (file_bytes v' y) = length (overwrite (file_bytes v x) off bs)"
      using off y by (simp add: overwrite_def)
    fix i assume "i < length (file_bytes v' y)"
    then have i: "i < unat (isize y)" by simp
    then have "file_bytes v' y ! i = file_byte v' x' i"
      by (simp add: file_bytes_def file_slice_def file_byte_def ya)
    also have "\<dots> = overwrite (file_bytes v x) off bs ! i"
      using byte [OF i] i off y(1)
      by (auto simp: overwrite_def nth_append file_bytes_def file_slice_def)
    finally show "file_bytes v' y ! i = overwrite (file_bytes v x) off bs ! i" .
  qed
  show "file_addr v' y bn \<noteq> 0" if "bn * BSIZE < unat (isize y)" for bn
    using byte [OF that] by (simp add: ya BSIZE_def)
qed

lemma file_ok_wf: "file_wf sbk st v x \<Longrightarrow> unat (isize x) \<le> MAXFILE * BSIZE \<Longrightarrow>
    (\<And>bn. bn * BSIZE < unat (isize x) \<Longrightarrow> file_addr v x bn \<noteq> 0) \<Longrightarrow> file_ok v x"
proof -
  assume a: "file_wf sbk st v x" "unat (isize x) \<le> MAXFILE * BSIZE" "\<And>bn. bn * BSIZE < unat (isize x) \<Longrightarrow> file_addr v x bn \<noteq> 0"
  have "length (v (file_addr v x bn)) = BSIZE" if "bn * BSIZE < unat (isize x)" for bn
  proof -
    have "bn * BSIZE < MAXFILE * BSIZE" using that a(2) by linarith
    then have "bn < MAXFILE" by simp
    then show ?thesis using a(1) a(3) [OF that] by (simp add: file_wf_def data_block_def)
  qed
  then show ?thesis using a by (simp add: file_ok_def)
qed

text \<open>\<open>writei\<close> of at most three blocks of bytes (what \<open>filewrite\<close> does per transaction), without errors.\<close>

definition write_ok :: "nat \<Rightarrow> u32 \<Rightarrow> u8 list \<Rightarrow> fs \<Rightarrow> bool" where
  "write_ok ip off bs s \<longleftrightarrow> off \<le> isize (itab s ip) \<and> unat off + length bs \<le> MAXFILE * BSIZE"

definition inode_on_disk :: "nat \<Rightarrow> fs \<Rightarrow> bool" where
  "inode_on_disk ip s \<longleftrightarrow>
     (let x = itab s ip in get_dinode (fview s (IBLOCK (inum x) (sb s))) (dip_off (inum x)) x = x)"

lemma update_inode:
  assumes tr: "file_trans ip s" and x: "iaddrs x = iaddrs (itab s ip)" "inum x = inum (itab s ip)" "idev x = idev (itab s ip)"
    and ok: "file_ok (fview s) x" and i: "inum x < ninodes (sb s)" and room: "lh_n (flog s) < int LOGBLOCKS"
  obtains s' where "iupdate ip (set_inode ip x s) = Inr ((), s')" "file_trans ip s'" "file_only ip s s'" "itab s' ip = x"
    "inode_on_disk ip s'" "file_bytes (fview s') x = file_bytes (fview s) x" "file_ok (fview s') x" "lh_n (flog s') \<le> lh_n (flog s) + 1"
    "\<And>b. data_block (sb s) (start (flog s)) (fview s) b \<Longrightarrow> fview s' b = fview s b" "disk_full s' \<longleftrightarrow> disk_full s"
proof -
  define t where "t = set_inode ip x s"
  have t: "flog t = flog s" "itab t ip = x" "sb t = sb s" "fview t = fview s" by (simp_all add: t_def set_inode_def fview_def)
  have fa: "file_addr v x = file_addr v (itab s ip)" for v using x(1) by (simp add: file_addr_def fun_eq_iff)
  have trt: "file_trans ip t" using tr x t fa unfolding file_trans_def file_wf_def by simp
  let ?ib = "IBLOCK (inum x) (sb s)"
  obtain s' where s': "iupdate ip t = Inr ((), s')" "tstep {} {?ib} t s'"
    "fview s' = (fview s)(?ib := put_dinode x (dip_off (inum x)) (fview s ?ib))" "file_trans ip s'"
    "get_dinode (fview s' ?ib) (dip_off (inum x)) x = x"
    using iupdate_correct [OF trt, of x thesis] i room by (auto simp: t)
  note k = tstep_same [OF s'(2), unfolded t]
  have d: "disk_ok (sb s) (start (flog s)) (fview s)" "file_wf (sb s) (start (flog s)) (fview s) x"
    using trt t by (simp_all add: file_trans_def)
  have len: "length (put_dinode x (dip_off (inum x)) (fview s ?ib)) = BSIZE"
    using put_get_dinode(1) d i by (simp add: disk_ok_def file_wf_def)
  note wi = write_inode_block [OF d(1) i len, folded s'(3)]
  have fa': "file_addr (fview s') x m = file_addr (fview s) x m" "fview s' (file_addr (fview s) x m) = fview s (file_addr (fview s) x m)"
    if m: "m * BSIZE < unat (isize x)" for m
  proof -
    have "m * BSIZE < MAXFILE * BSIZE" using m ok unfolding file_ok_def by linarith
    then have "m < MAXFILE" by simp
    then show "file_addr (fview s') x m = file_addr (fview s) x m" "fview s' (file_addr (fview s) x m) = fview s (file_addr (fview s) x m)"
      using wi(4) [OF d(2)] wi(5) ok m d(2) by (auto simp: file_wf_def file_ok_def)
  qed
  have "j div BSIZE * BSIZE < unat (isize x)" if "j < unat (isize x)" for j
    using that div_times_less_eq_dividend [of j BSIZE] by linarith
  then have "file_bytes (fview s') x = file_bytes (fview s) x"
    using fa' by (simp add: file_bytes_def file_slice_def file_byte_def)
  moreover have "file_ok (fview s') x" using ok fa' by (simp add: file_ok_def)
  moreover have "file_only ip s s'"
    using file_only_trans [OF _ tstep_file_only(1) [OF s'(2)]] tstep_file_only(2) [OF tstep_refl, of "{}" s ip x] tr
    by (simp add: t_def file_trans_def)
  moreover have "lh_n (flog s') \<le> lh_n (flog s) + 1"
    using tstep_count [OF _ s'(2)] trt by (simp add: file_trans_def t)
  moreover have "itab s' ip = x" using k(2) t(2) by simp
  moreover from this have "inode_on_disk ip s'" using s'(5) k(3) by (simp add: inode_on_disk_def)
  moreover have "disk_full s' \<longleftrightarrow> disk_full s" using wi(6) k(3) by (auto simp: disk_full_def)
  ultimately show ?thesis using s'(1,4) wi(5) by (intro that [of s']) (simp_all add: t_def)
qed

lemma writei_writes:
  assumes tr: "file_trans ip s" and ok: "file_ok (fview s) (itab s ip)" and i: "inum (itab s ip) < ninodes (sb s)"
    and room: "lh_n (flog s) + int MAXOPBLOCKS \<le> int LOGBLOCKS" and bs: "length bs = unat n" "unat n \<le> 3 * BSIZE"
    and w: "write_ok ip off bs s"
  shows "\<exists>k s'. writei ip (Kern_src bs) off n s = Inr (int k, s') \<and> k \<le> length bs \<and> (k < length bs \<longrightarrow> disk_full s') \<and>
    file_bytes (fview s') (itab s' ip) = overwrite (file_bytes (fview s) (itab s ip)) (unat off) (take k bs) \<and>
    inode_on_disk ip s' \<and> file_trans ip s' \<and> file_ok (fview s') (itab s' ip) \<and> file_only ip s s' \<and>
    itab s' ip = (itab s ip)\<lparr>isize := isize (itab s' ip), iaddrs := iaddrs (itab s' ip)\<rparr> \<and>
    lh_n (flog s') < lh_n (flog s) + int MAXOPBLOCKS \<and>
    (\<forall>b. data_block (sb s) (start (flog s)) (fview s) b \<and> b \<notin> file_blocks (fview s) (itab s ip) \<longrightarrow> fview s' b = fview s b)"
proof -
  let ?x = "itab s ip" and ?st = "start (flog s)" and ?v = "fview s"
  have mx: "MAXFILE * BSIZE < 2 ^ 31" by (simp add: MAXFILE_def NDIRECT_def NINDIRECT_def BSIZE_def)
  have off: "unat off \<le> unat (isize ?x)" "unat off + unat n \<le> MAXFILE * BSIZE" using w bs(1) by (simp_all add: write_ok_def word_le_nat_alt)
  have sum: "unat (off + n) = unat off + unat n" using off(2) mx by (simp add: unat_word_ariths)
  have c: "log_cost ip s \<le> lh_n (flog s) + 2" by (simp add: log_cost_def of_bool_def)
  have tb: "touched (unat off) (length bs) \<le> 4" using touched_bound bs by simp
  have "log_cost ip s + int (touched (unat off) (length bs)) + 2 \<le> int LOGBLOCKS" using c tb room by (simp add: MAXOPBLOCKS_def)
  then obtain k s1 where s1: "writei_loop ip (Kern_src bs) (unat off) (unat n) 0 s = Inr ((k, unat off + k), s1)"
    and r1: "writei_result ip (unat off) bs k s s1"
    using writei_loop_writes [OF tr, of "unat off" bs 0] off(2) bs(1) by auto
  have r: "k \<le> length bs" "k < length bs \<longrightarrow> disk_full s1" "file_trans ip s1" "file_only ip s s1"
    "written (sb s) ?st (unat off) (take k bs) ?v ?x (fview s1) (itab s1 ip)" "log_cost ip s1 \<le> log_cost ip s + 4"
    using r1 tb by (auto simp: writei_result_def)
  note f1 = file_only_same [OF r(4)]
  have x1: "itab s1 ip = ?x\<lparr>iaddrs := iaddrs (itab s1 ip)\<rparr>" using r(5) by (simp add: written_def)
  then have sz1: "isize (itab s1 ip) = isize ?x" "inum (itab s1 ip) = inum ?x" "idev (itab s1 ip) = idev ?x" by (metis inode.select_convs inode.surjective inode.update_convs(11))+
  have k: "unat off + k \<le> MAXFILE * BSIZE" using off bs(1) r(1) by simp
  then have uk: "unat (of_nat (unat off + k) :: u32) = unat off + k" using mx by (subst unat_of_nat) (simp add: take_bit_nat_eq_self)
  define x2 where "x2 = (if unat off + k > unat (isize ?x) then (itab s1 ip)\<lparr>isize := of_nat (unat off + k)\<rparr> else itab s1 ip)"
  have x2: "iaddrs x2 = iaddrs (itab s1 ip)" "inum x2 = inum (itab s1 ip)" "idev x2 = idev (itab s1 ip)"
    "unat (isize x2) = max (unat (isize ?x)) (unat off + k)"
    using sz1 uk by (auto simp: x2_def max_def)
  note wb = written_bytes [OF r(5) ok off(1) _ _ x2(1)]
  have b1: "file_bytes (fview s1) x2 = overwrite (file_bytes ?v ?x) (unat off) (take k bs)"
    "\<And>bn. bn * BSIZE < unat (isize x2) \<Longrightarrow> file_addr (fview s1) x2 bn \<noteq> 0"
    using wb x2(4) k r(1) by (simp_all add: min_absorb2)
  have sx2: "unat (isize x2) \<le> MAXFILE * BSIZE" using x2(4) k ok by (simp add: file_ok_def)
  have fa2: "file_addr v x2 = file_addr v (itab s1 ip)" for v using x2(1) by (simp add: file_addr_def fun_eq_iff)
  have "file_wf (sb s) ?st (fview s1) x2" using r(3) x2(1) f1 fa2 unfolding file_trans_def file_wf_def by simp
  then have ok1: "file_ok (fview s1) x2" using sx2 b1(2) by (rule file_ok_wf)
  have lh: "lh_n (flog s1) \<le> lh_n (flog s) + 6" using c r(6) log_cost_ge [of s1 ip] by linarith
  then have lt: "lh_n (flog s1) < int LOGBLOCKS" using room by (simp add: MAXOPBLOCKS_def)
  obtain s' where s': "iupdate ip (set_inode ip x2 s1) = Inr ((), s')" "file_trans ip s'" "file_only ip s1 s'" "itab s' ip = x2"
    "inode_on_disk ip s'" "file_bytes (fview s') x2 = file_bytes (fview s1) x2" "file_ok (fview s') x2" "lh_n (flog s') \<le> lh_n (flog s1) + 1"
    "\<And>b. data_block (sb s1) (start (flog s1)) (fview s1) b \<Longrightarrow> fview s' b = fview s1 b" "disk_full s' \<longleftrightarrow> disk_full s1"
    using update_inode [OF r(3) x2(1-3) ok1 _ lt] i x2(2) sz1(2) f1(1) by metis
  have "writei ip (Kern_src bs) off n s = Inr (int k, s')"
  proof -
    have e: "\<not> (off > isize ?x \<or> off + n < off)" "\<not> unat (off + n) > MAXFILE * BSIZE"
      using off sum by (simp_all add: word_less_nat_alt not_less)
    have "(if unat off + k > unat (isize (itab s1 ip)) then set_inode ip ((itab s1 ip)\<lparr>isize := of_nat (unat off + k)\<rparr>) s1 else s1) =
        set_inode ip x2 s1"
      using sz1(1) by (auto simp: x2_def set_inode_def)
    then show ?thesis
      using e by (simp add: writei_def Let_def seq_Inr [where m = "writei_loop ip (Kern_src bs) (unat off) (unat n) 0", OF s1]
        seq_Inr [where m = "iupdate ip", OF s'(1)] ret_def del: of_nat_add)
  qed
  moreover have "\<forall>b. data_block (sb s) ?st ?v b \<and> b \<notin> file_blocks ?v ?x \<longrightarrow> fview s' b = ?v b"
    using r(5) s'(9) f1 by (simp add: written_def)
  moreover have "lh_n (flog s') < lh_n (flog s) + int MAXOPBLOCKS" using s'(8) lh by (simp add: MAXOPBLOCKS_def)
  moreover have "itab s' ip = ?x\<lparr>isize := isize (itab s' ip), iaddrs := iaddrs (itab s' ip)\<rparr>"
  proof -
    obtain a where "itab s1 ip = ?x\<lparr>iaddrs := a\<rparr>" using x1 by blast
    then show ?thesis unfolding s'(4) x2_def by simp
  qed
  ultimately show ?thesis
    using s' r(1,2) b1(1) file_only_trans [OF r(4) s'(3)] by (intro exI [of _ k] exI [of _ s']) simp
qed

lemma overwrite_read:
  "o1 \<le> length d \<Longrightarrow> take (length bs) (drop o1 (overwrite d o1 bs)) = bs"
  by (simp add: overwrite_def)

text \<open>C4: A write of at most three blocks of bytes, given in kernel memory, that starts within the file and ends within the
  size limit, in a transaction that \<open>begin_op\<close> has admitted: \<open>writei\<close> writes a prefix of the bytes and
  returns its length, all of them unless no block of the disk is free. The file then holds its old
  bytes with that prefix written over them at \<open>off\<close>, growing if necessary; a later \<open>readi\<close> of any range
  returns just these bytes, the disk inode is up to date, no block of another file has changed, and
  the log took fewer than \<open>MAXOPBLOCKS\<close> blocks. Any other write returns -1 and changes nothing.\<close>

theorem writei_then_readi:
  assumes "file_trans ip s" "file_ok (fview s) (itab s ip)" "inum (itab s ip) < ninodes (sb s)"
    "lh_n (flog s) + int MAXOPBLOCKS \<le> int LOGBLOCKS" "length bs = unat n" "unat n \<le> 3 * BSIZE"
  shows "if write_ok ip off bs s
    then \<exists>k s' new. writei ip (Kern_src bs) off n s = Inr (int k, s') \<and> k \<le> length bs \<and> (k < length bs \<longrightarrow> disk_full s') \<and>
      new = overwrite (file_bytes (fview s) (itab s ip)) (unat off) (take k bs) \<and>
      (\<forall>o2 m. \<exists>s2. readi ip Kern_dst o2 m s' = Inr ((int (length (bytes_read new o2 m)), bytes_read new o2 m), s2) \<and> reads_only s' s2) \<and>
      inode_on_disk ip s' \<and> file_trans ip s' \<and> file_ok (fview s') (itab s' ip) \<and> file_only ip s s' \<and>
      itab s' ip = (itab s ip)\<lparr>isize := isize (itab s' ip), iaddrs := iaddrs (itab s' ip)\<rparr> \<and>
      lh_n (flog s') < lh_n (flog s) + int MAXOPBLOCKS \<and>
      (\<forall>b. data_block (sb s) (start (flog s)) (fview s) b \<and> b \<notin> file_blocks (fview s) (itab s ip) \<longrightarrow> fview s' b = fview s b)
    else writei ip (Kern_src bs) off n s = Inr (-1, s)"
proof (cases "write_ok ip off bs s")
  case True
  obtain k s' where w: "writei ip (Kern_src bs) off n s = Inr (int k, s')" "k \<le> length bs" "k < length bs \<longrightarrow> disk_full s'"
    "file_bytes (fview s') (itab s' ip) = overwrite (file_bytes (fview s) (itab s ip)) (unat off) (take k bs)"
    "inode_on_disk ip s'" "file_trans ip s'" "file_ok (fview s') (itab s' ip)" "file_only ip s s'"
    "lh_n (flog s') < lh_n (flog s) + int MAXOPBLOCKS"
    "\<forall>b. data_block (sb s) (start (flog s)) (fview s) b \<and> b \<notin> file_blocks (fview s) (itab s ip) \<longrightarrow> fview s' b = fview s b"
    "itab s' ip = (itab s ip)\<lparr>isize := isize (itab s' ip), iaddrs := iaddrs (itab s' ip)\<rparr>"
    using writei_writes [OF assms True] by blast
  have q: "fs_quiet s'" "idev (itab s' ip) = ldev (flog s')"
    using w(6,9) assms(4) by (simp_all add: file_trans_def fs_quiet_def log_held_empty)
  have "\<exists>s2. readi ip Kern_dst o2 m s' = Inr ((int (length (bytes_read new o2 m)), bytes_read new o2 m), s2) \<and> reads_only s' s2"
    if "new = file_bytes (fview s') (itab s' ip)" for new o2 m
    using readi_reads [OF q w(7), of o2 m] that by blast
  then show ?thesis using True w by (subst if_P) blast+
next
  case False
  then have "off > isize (itab s ip) \<or> off + n < off \<or> unat (off + n) > MAXFILE * BSIZE"
  proof (cases "off + n < off")
    case nov: False
    then have "unat (off + n) = unat off + unat n" by (simp add: not_less flip: unat_plus_simple)
    then show ?thesis using False assms(5) by (auto simp: write_ok_def not_le)
  qed simp
  then show ?thesis using False by (auto simp: writei_def Let_def)
qed

lemma fs_example_ok: "disk_ok (sb fs_ex) 2 v" if "\<And>b. b \<notin> log_region 2 \<Longrightarrow> v b = disk_ex b"
proof -
  have v46: "v 46 = disk_ex 46" using that by (simp add: log_region_2)
  have bb: "BBLOCK (of_nat x) (sb fs_ex) = 46" if "x < 2000" for x
    using that by (simp add: BBLOCK_nat fs_ex_def)
  have used: "block_used (sb fs_ex) v x \<longleftrightarrow> x < 48" if "x < 2000" for x
    using that bb [OF that] v46 disk_ex_map_bit [of x] by (simp add: block_used_def)
  have ib: "33 \<le> unat (IBLOCK i (sb fs_ex)) \<and> unat (IBLOCK i (sb fs_ex)) \<le> 45" if "i < 200" for i
  proof -
    have "unat i < 200" using that by (simp add: word_less_nat_alt)
    then have "unat i div 16 \<le> 12" by simp
    then show ?thesis by (simp add: IBLOCK_def fs_ex_def IPB_def unat_word_ariths unat_div_distrib)
  qed
  have "x < 48" if "x < 2000" "of_nat x \<in> meta (sb fs_ex) 2" for x
  proof -
    have u: "unat (of_nat x :: u32) = x" using that(1) by (simp add: unat_of_nat take_bit_nat_eq_self)
    note m = that(2)
    have "unat (of_nat x :: u32) \<le> 46"
    proof -
      have "ninodes (sb fs_ex) = 200" "bmapstart (sb fs_ex) = 46" by (simp_all add: fs_ex_def)
      then consider "of_nat x = (0 :: u32)" | "of_nat x = (1 :: u32)" | "of_nat x = (46 :: u32)" | "of_nat x \<in> log_region 2" | i where "i < 200" "of_nat x = IBLOCK i (sb fs_ex)"
        using m unfolding meta_def by auto
      then show ?thesis
      proof cases
        case (5 i)
        then show ?thesis using ib [of i] by simp
      qed (auto simp: log_region_2)
    qed
    then show ?thesis using u by simp
  qed
  moreover have "IBLOCK i (sb fs_ex) \<notin> log_region 2 \<and> IBLOCK i (sb fs_ex) \<noteq> 46 \<and> length (v (IBLOCK i (sb fs_ex))) = BSIZE"
    if "i < 200" for i
    using ib [OF that] \<open>\<And>b. b \<notin> log_region 2 \<Longrightarrow> v b = disk_ex b\<close> by (auto simp: log_region_2 disk_ex_def)
  moreover have "length (disk_ex 46) = BSIZE" by (simp add: disk_ex_def BSIZE_def)
  ultimately show ?thesis using used v46 unfolding disk_ok_def by (simp add: fs_ex_def log_region_2)
qed

text \<open>A booted file system with an empty file of a given type in slot 0.\<close>

definition empty_ex :: "u16 \<Rightarrow> inode" where
  "empty_ex ty = (itab fs_ex 0)\<lparr>idev := 1, inum := 5, itype := ty\<rparr>"

lemma empty_file_example:
  obtains s where "file_trans 0 s" "itab s 0 = empty_ex ty" "lh_n (flog s) + int MAXOPBLOCKS \<le> int LOGBLOCKS"
    "file_ok (fview s) (itab s 0)" "inum (itab s 0) < ninodes (sb s)" "isize (empty_ex ty) = 0" "file_bytes (fview s) (empty_ex ty) = []"
proof -
  obtain t where t: "log_ready 1 30 t" "sb t = sb fs_ex" "start (flog t) = 2" "\<And>b. b \<notin> log_region 2 \<Longrightarrow> fview t b = disk_ex b"
    by (rule fs_boot_example [of disk_ex]) (simp_all add: disk_ex_def)
  let ?x = "empty_ex ty"
  define s where "s = set_inode 0 ?x t"
  have s: "flog s = flog t" "itab s 0 = ?x" "sb s = sb fs_ex" "fview s = fview t"
    using t(2) by (simp_all add: s_def set_inode_def fview_def)
  have z: "iaddrs ?x ! m = 0" if "m < 13" for m using that by (simp add: empty_ex_def fs_ex_def)
  have fa: "file_addr v ?x m = 0" for v m using z by (simp add: file_addr_def NDIRECT_def)
  have "file_wf (sb s) 2 (fview s) ?x" using z fa by (simp add: file_wf_def NDIRECT_def empty_ex_def fs_ex_def)
  then have tr: "file_trans 0 s"
    using t fs_example_ok [of "fview t"] by (simp add: file_trans_def s log_ready_def log_held_empty empty_ex_def)
  have e: "isize ?x = 0" "inum ?x < ninodes (sb fs_ex)" by (simp_all add: empty_ex_def fs_ex_def)
  show ?thesis
    by (rule that [OF tr s(2)]) (use t(1) e in \<open>simp_all add: s log_ready_def xv6_const file_ok_def file_bytes_def file_slice_def\<close>)
qed

text \<open>Writing to an empty file and reading it back.\<close>

theorem writei_then_readi_witness:
  "\<exists>s k s' s2. writei 0 (Kern_src [104, 105]) 0 2 s = Inr (int k, s') \<and> k \<le> 2 \<and>
    readi 0 Kern_dst 0 2 s' = Inr ((int k, take k [104, 105]), s2)"
proof -
  obtain s where s: "file_trans 0 s" "itab s 0 = empty_ex T_FILE" "lh_n (flog s) + int MAXOPBLOCKS \<le> int LOGBLOCKS"
    "file_ok (fview s) (itab s 0)" "inum (itab s 0) < ninodes (sb s)" "isize (empty_ex T_FILE) = 0" "file_bytes (fview s) (empty_ex T_FILE) = []"
    by (rule empty_file_example)
  have w: "write_ok 0 0 [104, 105] s" using s by (simp add: write_ok_def MAXFILE_def NDIRECT_def NINDIRECT_def BSIZE_def)
  have l2: "length [104, 105 :: u8] = unat (2 :: u32)" "unat (2 :: u32) \<le> 3 * BSIZE" by (simp_all add: BSIZE_def)
  obtain k s' new where k: "writei 0 (Kern_src [104, 105]) 0 2 s = Inr (int k, s')" "k \<le> length [104, 105 :: u8]"
    "new = overwrite (file_bytes (fview s) (itab s 0)) (unat (0 :: u32)) (take k [104, 105])"
    and rd: "\<forall>o2 m. \<exists>s2. readi 0 Kern_dst o2 m s' = Inr ((int (length (bytes_read new o2 m)), bytes_read new o2 m), s2) \<and> reads_only s' s2"
    using writei_then_readi [OF s(1,4,5,3) l2, of 0] unfolding if_P [OF w] by blast
  have "new = take k [104, 105]" using k(3) s by (simp add: overwrite_def)
  then have "bytes_read new 0 2 = take k [104, 105 :: u8]" "length (bytes_read new 0 2) = k" using k(2) by (simp_all add: bytes_read_def)
  moreover obtain s2 where "readi 0 Kern_dst 0 2 s' = Inr ((int (length (bytes_read new 0 2)), bytes_read new 0 2), s2)" using rd by blast
  ultimately show ?thesis using k(1,2) by (intro exI [of _ s] exI [of _ k] exI [of _ s'] exI [of _ s2]) simp
qed

end
