(* ===== verification/Fsdir.thy ===== *)
theory Fsdir
  imports Fswrite
begin

text \<open>
  Directories that change: \<open>dirlink\<close> of \<^verbatim>\<open>kernel/fs.c\<close> puts a new entry into the first free slot or at the
  end, and \<open>dirlookup\<close> finds it there.
\<close>

section \<open>Lists of entries\<close>

definition free_slot :: "u8 list list \<Rightarrow> nat" where
  "free_slot es = length (takeWhile (\<lambda>e. de_inum e \<noteq> 0) es)"

definition put_entry :: "u8 list list \<Rightarrow> nat \<Rightarrow> u8 list \<Rightarrow> u8 list list" where
  "put_entry es k de = take k es @ de # drop (Suc k) es"

lemma free_slot_le: "free_slot es \<le> length es"
  by (simp add: free_slot_def length_takeWhile_le)

lemma free_slot_free: "free_slot es < length es \<Longrightarrow> de_inum (es ! free_slot es) = 0"
  using nth_length_takeWhile [of "\<lambda>e. de_inum e \<noteq> 0" es] by (simp add: free_slot_def)

lemma put_entry_nth:
  "k \<le> length es \<Longrightarrow> i < length (put_entry es k de) \<Longrightarrow> put_entry es k de ! i = (if i = k then de else es ! i)"
  by (auto simp: put_entry_def nth_append nth_Cons' less_diff_conv2 not_less)

lemma length_put_entry: "k \<le> length es \<Longrightarrow> length (put_entry es k de) = max (length es) (Suc k)"
  by (auto simp: put_entry_def)

lemma dir_entries_overwrite:
  assumes "16 dvd length bs" "16 * k \<le> length bs" "length de = 16"
  shows "dir_entries (overwrite bs (16 * k) de) = put_entry (dir_entries bs) k de"
proof (rule nth_equalityI)
  obtain n where n: "length bs = 16 * n" using assms(1) by (auto elim: dvdE)
  have kn: "k \<le> n" using assms(2) n by simp
  have l: "length (overwrite bs (16 * k) de) = 16 * max n (Suc k)" using n assms(2,3) by (auto simp: overwrite_def max_def)
  show "length (dir_entries (overwrite bs (16 * k) de)) = length (put_entry (dir_entries bs) k de)"
    using l n kn by (simp add: length_put_entry)
  fix i assume "i < length (dir_entries (overwrite bs (16 * k) de))"
  then have i: "i < max n (Suc k)" using l by simp
  have "take 16 (drop (16 * i) (overwrite bs (16 * k) de)) = (if i = k then de else take 16 (drop (16 * i) bs))"
  proof (cases "i = k")
    case True
    then show ?thesis using assms(2,3) by (simp add: overwrite_def)
  next
    case False
    then have "i < n" "16 * i + 16 \<le> 16 * k \<or> 16 * k + 16 \<le> 16 * i" using i kn by auto
    then show ?thesis using False assms(3) n
    proof (cases "k < n")
      case True
      then show ?thesis using False assms(3) n \<open>16 * i + 16 \<le> 16 * k \<or> 16 * k + 16 \<le> 16 * i\<close>
          read_other [of "16 * k" de bs "16 * i" 16] by (auto simp: overwrite_def)
    next
      case False
      then have "16 * k = length bs" using kn n by simp
      then show ?thesis using \<open>i < n\<close> n \<open>i \<noteq> k\<close> by (simp add: overwrite_def)
    qed
  qed
  then show "dir_entries (overwrite bs (16 * k) de) ! i = put_entry (dir_entries bs) k de ! i"
    using i l kn n by (simp add: dir_entries_nth put_entry_nth length_put_entry)
qed

text \<open>An entry in a free slot is found under its name and hides no other entry.\<close>

lemma dir_find_iff: "dir_find name es = Some k \<longleftrightarrow> k < length es \<and> entry_named name (es ! k) \<and> (\<forall>j<k. \<not> entry_named name (es ! j))"
  by (auto simp: dir_find_def find_Some_iff)

lemma dir_find_none: "dir_find name es = None \<longleftrightarrow> (\<forall>k<length es. \<not> entry_named name (es ! k))"
  by (auto simp: dir_find_def find_None_iff)

lemma dir_find_eqI:
  assumes "\<And>k. (k < length es \<and> entry_named name (es ! k)) \<longleftrightarrow> (k < length es' \<and> entry_named name (es' ! k))"
  shows "dir_find name es = dir_find name es'"
proof (cases "dir_find name es")
  case None
  then show ?thesis using assms by (metis dir_find_none)
next
  case (Some k)
  then have "k < length es' \<and> entry_named name (es' ! k)" using assms [of k] by (simp add: dir_find_iff)
  moreover have "\<not> entry_named name (es' ! j)" if "j < k" for j
    using Some that assms [of j] calculation by (auto simp: dir_find_iff)
  ultimately have "dir_find name es' = Some k" by (simp add: dir_find_iff)
  then show ?thesis using Some by simp
qed

lemma dir_find_put_entry:
  assumes de: "de_inum de \<noteq> 0" "name_of (drop 2 de) = name_of name" and none: "dir_find name es = None"
  defines "es' \<equiv> put_entry es (free_slot es) de"
  shows "dir_find name es' = Some (free_slot es)" "name_of other \<noteq> name_of name \<Longrightarrow> dir_find other es' = dir_find other es"
proof -
  let ?k = "free_slot es"
  note le = free_slot_le [of es]
  have len: "length es' = max (length es) (Suc ?k)" unfolding es'_def by (rule length_put_entry [OF le])
  have nth: "es' ! i = (if i = ?k then de else es ! i)" if "i < length es'" for i
    using put_entry_nth [OF le] that unfolding es'_def by blast
  show "dir_find name es' = Some ?k"
    using nth len none le de unfolding dir_find_iff dir_find_none by (auto simp: entry_named_def)
  show "dir_find other es' = dir_find other es" if "name_of other \<noteq> name_of name"
  proof (rule dir_find_eqI)
    fix k
    show "(k < length es' \<and> entry_named other (es' ! k)) \<longleftrightarrow> (k < length es \<and> entry_named other (es ! k))"
    proof (cases "k = ?k")
      case True
      then show ?thesis using nth [of k] that de free_slot_free [of es] len by (auto simp: entry_named_def)
    next
      case False
      then show ?thesis using nth [of k] len le by (auto simp: max_def split: if_splits)
    qed
  qed
qed

section \<open>dirlink\<close>

lemma free_entry_loop_finds:
  assumes "fs_quiet s" "idev (itab s dp) = ldev (flog s)" "file_ok (fview s) (itab s dp)"
    "16 * (k + n) = unat (isize (itab s dp))"
  defines "es \<equiv> dir_entries (file_bytes (fview s) (itab s dp))"
  shows "\<exists>s'. reads_only s s' \<and> free_entry_loop dp (16 * k) n s = Inr (16 * (k + free_slot (drop k es)), s')"
  using assms(1-4) unfolding es_def
proof (induction n arbitrary: k s)
  case 0
  then show ?case by (auto simp: ret_def free_slot_def intro: reads_only_refl)
next
  case (Suc n)
  let ?es = "dir_entries (file_bytes (fview s) (itab s dp))"
  have "16 * k + 16 \<le> unat (isize (itab s dp))" using Suc.prems(4) by simp
  then obtain s1 where s1: "readi dp Kern_dst (of_nat (16 * k)) 16 s = Inr ((16, ?es ! k), s1)" "reads_only s s1"
    using read_entry [OF Suc.prems(1-3)] by blast
  note k1 = reads_only_same [OF s1(2)]
  have d: "drop k ?es = ?es ! k # drop (Suc k) ?es" using Suc.prems(4) [symmetric] by (simp add: Cons_nth_drop_Suc)
  have step: "free_entry_loop dp (16 * k) (Suc n) s =
      (if de_inum (?es ! k) = 0 then Inr (16 * k, s1) else free_entry_loop dp (16 * Suc k) n s1)"
    by (simp add: seq_def s1(1) ret_def del: of_nat_mult) (simp add: add.commute)
  have "16 * (Suc k + n) = unat (isize (itab s dp))" using Suc.prems(4) by simp
  then obtain s2 where s2: "reads_only s1 s2"
    "free_entry_loop dp (16 * Suc k) n s1 = Inr (16 * (Suc k + free_slot (drop (Suc k) ?es)), s2)"
    using Suc.IH [of s1 "Suc k", unfolded k1(2-4), OF k1(1) Suc.prems(2,3)] by blast
  show ?case
    unfolding step d using s1(2) s2 reads_only_trans [OF s1(2) s2(1)]
    by (cases "de_inum (?es ! k) = 0") (auto simp: free_slot_def)
qed

text \<open>The bytes of a new entry.\<close>

definition new_entry :: "u8 list \<Rightarrow> u32 \<Rightarrow> u8 list" where
  "new_entry name ino = le_bytes 2 (ucast ino :: u16) @ map (strncpy (\<lambda>_. 0) (chars name) (of_nat DIRSIZ)) [0..<DIRSIZ]"

lemma cstr_strncpy: "cstr (strncpy_loop s t i n) i n = cstr t i n"
proof -
  have "m \<le> n \<Longrightarrow> i \<le> j \<Longrightarrow> j + m \<le> i + n \<Longrightarrow> \<forall>k. i \<le> k \<and> k < j \<longrightarrow> t k \<noteq> 0 \<Longrightarrow>
      cstr (strncpy_loop s t i n) j m = cstr t j m" for j m
  proof (induction m arbitrary: j)
    case (Suc m)
    have "strncpy_loop s t i n j = t j" using Suc.prems by (auto simp: strncpy_loop_apply)
    moreover have "cstr (strncpy_loop s t i n) (Suc j) m = cstr t (Suc j) m" if "t j \<noteq> 0"
      using Suc.prems that by (intro Suc.IH) (auto simp: less_Suc_eq)
    ultimately show ?case by simp
  qed simp
  from this [of n i] show ?thesis by fastforce
qed

lemma cstr_map: "cstr p i n = takeWhile (\<lambda>c. c \<noteq> 0) (map p [i..<i + n])"
  by (induction n arbitrary: i) (simp_all add: upt_rec)

lemma new_entry_props:
  "length (new_entry name ino) = 16" "de_inum (new_entry name ino) = ucast ino" "name_of (drop 2 (new_entry name ino)) = name_of name"
proof -
  have d: "sint (of_nat DIRSIZ :: cint) = 14" by (simp add: DIRSIZ_def)
  show "length (new_entry name ino) = 16" by (simp add: new_entry_def DIRSIZ_def)
  show "de_inum (new_entry name ino) = ucast ino"
    by (simp add: de_inum_def new_entry_def get16_def of_le_bytes_le_bytes take_bit_word_eq_self)
  have "name_of (drop 2 (new_entry name ino)) = cstr (strncpy_loop (\<lambda>_. 0) (chars name) 0 14) 0 14"
    by (simp add: name_of_def new_entry_def strncpy_def d cstr_map) (simp add: DIRSIZ_def)
  also have "\<dots> = name_of name" by (simp only: cstr_strncpy cstr_chars name_of_def DIRSIZ_def drop_0)
  finally show "name_of (drop 2 (new_entry name ino)) = name_of name" .
qed

lemma reads_only_trans_file:
  assumes "reads_only s t" "file_trans ip s"
  shows "file_trans ip t" "lh_n (flog t) = lh_n (flog s)" "sb t = sb s" "file_only ip s t"
proof -
  have c: "cache_only s t" "log_held {} (flog t)" using assms(1) by (simp_all add: reads_only_def fs_quiet_def log_held_empty)
  note k = cache_only_same [OF c(1)]
  show "file_trans ip t" using assms(2) k c(2) by (simp add: file_trans_def)
  show "lh_n (flog t) = lh_n (flog s)" "sb t = sb s" using k by simp_all
  have "t = s\<lparr>flog := flog t, itab := (itab s)(ip := itab s ip)\<rparr>" using c(1) by (auto simp: cache_only_def)
  then show "file_only ip s t" using k unfolding file_only_def by (intro exI [of _ "flog t"] exI [of _ "itab s ip"]) simp
qed

text \<open>C5: \<open>dirlink\<close> of a name that the directory does not hold, in a transaction that \<open>begin_op\<close> has admitted.
  If it succeeds, the entries of the directory are the old ones with the new entry in the first
  free slot (or at the end); \<open>dirlookup\<close> finds the name there and calls \<open>iget\<close> for its inode, and every
  other name is found just as before. It fails only if no block is free or the directory has
  the maximal size. In all cases the blocks of other files keep their contents.\<close>

theorem dirlink_then_dirlookup:
  assumes tr: "file_trans dp s" and ok: "file_ok (fview s) (itab s dp)" and i: "inum (itab s dp) < ninodes (sb s)"
    and room: "lh_n (flog s) + int MAXOPBLOCKS \<le> int LOGBLOCKS" and dir: "itype (itab s dp) = T_DIR" "16 dvd unat (isize (itab s dp))"
    and none: "dir_find name (dir_entries (file_bytes (fview s) (itab s dp))) = None" and ino: "(ucast ino :: u16) \<noteq> 0"
  defines "es \<equiv> dir_entries (file_bytes (fview s) (itab s dp))"
  shows "\<exists>r s' es'. dirlink dp name ino s = Inr (r, s') \<and> es' = dir_entries (file_bytes (fview s') (itab s' dp)) \<and>
    (if r then es' = put_entry es (free_slot es) (new_entry name ino) \<and> dir_find name es' = Some (free_slot es) \<and>
         (\<exists>s2. reads_only s' s2 \<and> dirlookup dp name s' =
            seq (iget (idev (itab s dp)) (ucast (ucast ino :: u16))) (\<lambda>ip. ret (Some (ip, 16 * free_slot es))) s2) \<and>
         (\<forall>other. name_of other \<noteq> name_of name \<longrightarrow> dir_find other es' = dir_find other es)
     else disk_full s' \<or> unat (isize (itab s dp)) + 16 > MAXFILE * BSIZE) \<and>
    file_trans dp s' \<and> file_only dp s s' \<and>
    (\<forall>b. data_block (sb s) (start (flog s)) (fview s) b \<and> b \<notin> file_blocks (fview s) (itab s dp) \<longrightarrow> fview s' b = fview s b)"
proof -
  let ?x = "itab s dp" and ?de = "new_entry name ino" and ?k = "free_slot es"
  have q: "fs_quiet s" "idev ?x = ldev (flog s)"
    using tr room by (simp_all add: file_trans_def fs_quiet_def log_held_empty MAXOPBLOCKS_def)
  obtain n where n: "unat (isize ?x) = 16 * n" using dir(2) by (auto elim: dvdE)
  have len: "length es = n" using n by (simp add: es_def)
  have kn: "?k \<le> n" using free_slot_le [of es] len by simp
  obtain s1 where s1: "reads_only s s1" "dirlookup dp name s = Inr (None, s1)"
    using dirlookup_finds [OF q ok dir(2), of name] dir(1) none by auto
  note k1 = reads_only_same [OF s1(1)] and t1 = reads_only_trans_file [OF s1(1) tr]
  obtain s2 where s2: "reads_only s1 s2" "free_entry_loop dp 0 n s1 = Inr (16 * ?k, s2)"
    using free_entry_loop_finds [of s1 dp 0 n] k1 q(2) ok n by (auto simp: es_def)
  note k2 = reads_only_same [OF s2(1)] and t2 = reads_only_trans_file [OF s2(1) t1(1)]
  have sz: "unat (isize ?x) \<le> 274432" using ok by (simp add: file_ok_def xv6_const BSIZE_def)
  have o: "unat (of_nat (16 * ?k) :: u32) = 16 * ?k" using kn n sz by (subst unat_of_nat) (simp add: take_bit_nat_eq_self)
  have link: "dirlink dp name ino s = seq (writei dp (Kern_src ?de) (of_nat (16 * ?k)) 16) (\<lambda>r. ret (r = 16)) s2"
  proof -
    have "(unat (isize (itab s1 dp)) + 15) div 16 = n" using k1 n by simp
    then show ?thesis using s1(2) s2(2)
      by (simp add: dirlink_def seq_def new_entry_def Let_def del: of_nat_mult)
  qed
  have f2: "file_only dp s s2" by (rule file_only_trans [OF t1(4) t2(4)])
  note g2 = file_only_same [OF f2]
  have same: "fview s2 = fview s" "itab s2 = itab s" "sb s2 = sb s" "lh_n (flog s2) = lh_n (flog s)" using k1 k2 t1 t2 by simp_all
  note wr = writei_writes [OF t2(1), unfolded same, OF ok i room, of ?de 16 "of_nat (16 * ?k)"]
  show ?thesis
  proof (cases "write_ok dp (of_nat (16 * ?k)) ?de s2")
    case False
    then have big: "unat (isize ?x) + 16 > MAXFILE * BSIZE"
      using o n kn by (auto simp: write_ok_def same word_le_nat_alt new_entry_props simp del: of_nat_mult)
    have "writei dp (Kern_src ?de) (of_nat (16 * ?k)) 16 s2 = Inr (-1, s2)"
    proof -
      have "unat (of_nat (16 * ?k) + 16 :: u32) = 16 * ?k + 16" using o kn n sz by (simp add: unat_word_ariths del: of_nat_mult)
      then show ?thesis using False o by (auto simp: writei_def Let_def write_ok_def word_le_nat_alt word_less_nat_alt new_entry_props simp del: of_nat_mult)
    qed
    then have "dirlink dp name ino s = Inr (False, s2)" unfolding link by (simp add: seq_def ret_def)
    then show ?thesis using big t2(1) f2 same by (intro exI [of _ False] exI [of _ s2]) simp
  next
    case True
    then obtain k s' where w: "writei dp (Kern_src ?de) (of_nat (16 * ?k)) 16 s2 = Inr (int k, s')" "k \<le> 16" "k < 16 \<longrightarrow> disk_full s'"
      "file_bytes (fview s') (itab s' dp) = overwrite (file_bytes (fview s) ?x) (16 * ?k) (take k ?de)"
      "file_trans dp s'" "file_ok (fview s') (itab s' dp)" "file_only dp s2 s'" "lh_n (flog s') < lh_n (flog s) + int MAXOPBLOCKS"
      "\<forall>b. data_block (sb s) (start (flog s2)) (fview s) b \<and> b \<notin> file_blocks (fview s) ?x \<longrightarrow> fview s' b = fview s b"
      "itab s' dp = ?x\<lparr>isize := isize (itab s' dp), iaddrs := iaddrs (itab s' dp)\<rparr>"
      using wr o by (auto simp: new_entry_props BSIZE_def simp del: of_nat_mult)
    have fo: "file_only dp s s'" using file_only_trans [OF f2 w(7)] .
    have fin: "file_trans dp s' \<and> file_only dp s s' \<and>
        (\<forall>b. data_block (sb s) (start (flog s)) (fview s) b \<and> b \<notin> file_blocks (fview s) ?x \<longrightarrow> fview s' b = fview s b)"
      using w fo g2 by simp
    have d: "dirlink dp name ino s = Inr (k = 16, s')" unfolding link using w(1) by (simp add: seq_def ret_def)
    show ?thesis
    proof (cases "k = 16")
      case False
      then show ?thesis using d w(2,3) fin by (intro exI [of _ False] exI [of _ s']) simp
    next
      case k16: True
      let ?es' = "dir_entries (file_bytes (fview s') (itab s' dp))"
      have e': "?es' = put_entry es ?k ?de"
        unfolding w(4) k16 es_def using dir_entries_overwrite [of "file_bytes (fview s) ?x" ?k ?de] n kn
        by (simp add: new_entry_props es_def)
      have find: "dir_find name ?es' = Some ?k" "\<And>other. name_of other \<noteq> name_of name \<Longrightarrow> dir_find other ?es' = dir_find other es"
        unfolding e' using dir_find_put_entry [of ?de name es] none ino by (simp_all add: new_entry_props es_def)
      have "?es' ! ?k = ?de" unfolding e' using kn len by (simp add: put_entry_nth length_put_entry)
      moreover have "unat (isize (itab s' dp)) = length (overwrite (file_bytes (fview s) ?x) (16 * ?k) (take k ?de))"
        using w(4) by (metis length_file_bytes)
      then have "unat (isize (itab s' dp)) = 16 * max n (Suc ?k)"
        using n kn k16 by (simp add: overwrite_def new_entry_props max_def)
      then have "16 dvd unat (isize (itab s' dp))" by simp
      moreover have "fs_quiet s'" "idev (itab s' dp) = ldev (flog s')" "ldev (flog s') = ldev (flog s)"
        using w(5,8) room file_only_same [OF fo] by (simp_all add: file_trans_def fs_quiet_def log_held_empty)
      moreover have "itype (itab s' dp) = T_DIR" using dir(1) by (subst w(10)) simp
      ultimately have "\<exists>s3. reads_only s' s3 \<and> dirlookup dp name s' =
            seq (iget (idev ?x) (ucast (ucast ino :: u16))) (\<lambda>ip. ret (Some (ip, 16 * ?k))) s3"
        using dirlookup_finds [of s' dp name] w(6) find(1) q(2) by (simp add: new_entry_props)
      then show ?thesis using d k16 e' find fin by (intro exI [of _ True] exI [of _ s'] exI [of _ ?es']) simp
    qed
  qed
qed

text \<open>Linking inode 7 as \<open>a\<close> into an empty directory.\<close>

theorem dirlink_then_dirlookup_witness:
  "\<exists>s r s'. dirlink 0 [97] 7 s = Inr (r, s') \<and> file_trans 0 s' \<and>
    (r \<longrightarrow> dir_find [97] (dir_entries (file_bytes (fview s') (itab s' 0))) = Some 0)"
proof -
  obtain s where s: "file_trans 0 s" "itab s 0 = empty_ex T_DIR" "lh_n (flog s) + int MAXOPBLOCKS \<le> int LOGBLOCKS"
    "file_ok (fview s) (itab s 0)" "inum (itab s 0) < ninodes (sb s)" "isize (empty_ex T_DIR) = 0" "file_bytes (fview s) (empty_ex T_DIR) = []"
    by (rule empty_file_example)
  have e: "dir_entries (file_bytes (fview s) (itab s 0)) = []" using s by (simp add: dir_entries_def)
  have d: "itype (itab s 0) = T_DIR" "16 dvd unat (isize (itab s 0))" using s by (simp_all add: empty_ex_def)
  have n: "dir_find [97] (dir_entries (file_bytes (fview s) (itab s 0))) = None" "(ucast (7 :: u32) :: u16) \<noteq> 0"
    by (simp_all add: e dir_find_def)
  have "free_slot [] = 0" by (simp add: free_slot_def)
  then obtain r s' where "dirlink 0 [97] 7 s = Inr (r, s')" "file_trans 0 s'"
    "r \<longrightarrow> dir_find [97] (dir_entries (file_bytes (fview s') (itab s' 0))) = Some 0"
    using dirlink_then_dirlookup [OF s(1,4,5,3) d n] unfolding e by (metis (no_types, lifting))
  then show ?thesis by blast
qed

end
