(* ===== verification/Fsinode.thy ===== *)
theory Fsinode
  imports Fswrite
begin

text \<open>
  Inodes on the disk: \<open>iupdate\<close> and \<open>ilock\<close> of \<^verbatim>\<open>kernel/fs.c\<close>. \<open>iupdate\<close> copies an inode of the table to its
  slot of the inode block, through the buffer cache and the log; \<open>ilock\<close> of an entry that is not valid reads it back.
\<close>

section \<open>Reading an inode\<close>

definition read_inode :: "fs \<Rightarrow> inode \<Rightarrow> inode" where
  "read_inode s y = get_dinode (fview s (IBLOCK (inum y) (sb s))) (dip_off (inum y)) y"

definition locked_by :: "cint \<Rightarrow> inode \<Rightarrow> inode" where
  "locked_by pid y = y\<lparr>ilk := (ilk y)\<lparr>slocked := True, spid := pid\<rparr>\<rparr>"

lemma get_dinode_keeps [simp]:
  "idev (get_dinode d off y) = idev y" "inum (get_dinode d off y) = inum y" "iref (get_dinode d off y) = iref y"
  "ilk (get_dinode d off y) = ilk y" "ivalid (get_dinode d off y) = ivalid y"
  by (simp_all add: get_dinode_def)

text \<open>An entry that can be locked and has to be read.\<close>

definition to_read :: "fs \<Rightarrow> inode \<Rightarrow> bool" where
  "to_read s y \<longleftrightarrow> idev y = ldev (flog s) \<and> 1 \<le> iref y \<and> \<not> slocked (ilk y) \<and> \<not> ivalid y"

lemma rel_buf_set_inode: "rel_buf i s = Inr ((), t) \<Longrightarrow> rel_buf i (set_inode jp z s) = Inr ((), set_inode jp z t)"
  by (auto simp: rel_buf_def on_cache_def bind_result_Inr_iff set_inode_def)

lemma set_inode_simps [simp]:
  "flog (set_inode jp z s) = flog s" "itab (set_inode jp z s) = (itab s)(jp := z)" "sb (set_inode jp z s) = sb s"
  "fview (set_inode jp z s) = fview s" "fpid (set_inode jp z s) = fpid s" "set_inode jp z (set_inode jp y s) = set_inode jp z s"
  "fs_quiet (set_inode jp z s) = fs_quiet s"
  by (simp_all add: set_inode_def fview_def fs_quiet_def)

lemma ilock_reads:
  assumes q: "fs_quiet s" and y: "to_read s (itab s jp)"
  defines "z \<equiv> read_inode s (locked_by (fpid s) (itab s jp))"
  shows "if itype z = 0 then ilock (Some jp) s = Inl (Panic ''ilock: no type'')
    else \<exists>s'. ilock (Some jp) s = Inr ((), s') \<and> itab s' = (itab s)(jp := z\<lparr>ivalid := True\<rparr>) \<and> fview s' = fview s \<and> fs_quiet s'"
proof -
  let ?y = "itab s jp" and ?lk = "(ilk (itab s jp))\<lparr>slocked := True, spid := fpid s\<rparr>"
  define x where "x = locked_by (fpid s) ?y"
  let ?t = "set_inode jp x s" and ?b = "IBLOCK (inum x) (sb s)"
  have x: "x = ?y\<lparr>ilk := ?lk\<rparr>" "\<not> ivalid x" "idev ?y = idev x" "inum ?y = inum x" using y by (simp_all add: x_def locked_by_def to_read_def)
  have qt: "fs_quiet ?t" "idev x = ldev (flog ?t)" using q y x(3) by (simp_all add: to_read_def)
  obtain i s1 s2 where g: "get_buf (idev x) ?b ?t = Inr (i, s1)" "buf_data i s1 = fview ?t ?b"
    "itab s1 = itab ?t" "rel_buf i s1 = Inr ((), s2)" "reads_only ?t s2" using peek_buf [OF qt] by metis
  note k = reads_only_same [OF g(5)]
  have z: "get_dinode (buf_data i s1) (dip_off (inum x)) x = z" using g(2) by (simp add: z_def read_inode_def x_def [symmetric])
  have "acquiresleep (fpid s) (ilk ?y) = Inr ?lk" "\<not> iref ?y < 1" "\<not> ivalid ?y" using y by (simp_all add: acquiresleep_Inr to_read_def)
  then have "ilock (Some jp) s =
      (if itype z = 0 then Inl (Panic ''ilock: no type'') else Inr ((), set_inode jp (z\<lparr>ivalid := True\<rparr>) s2))"
    using g(1) z rel_buf_set_inode [OF g(4), of jp z] x(2-4) by (simp add: ilock_def Let_def seq_def x(1) [symmetric])
  then show ?thesis using k by (auto simp: fun_upd_upd)
qed

section \<open>Writing and reading back\<close>

lemma other_slot: "IBLOCK j b = IBLOCK i b \<Longrightarrow> j \<noteq> i \<Longrightarrow> j mod IPB \<noteq> i mod IPB"
proof
  assume "IBLOCK j b = IBLOCK i b" "j \<noteq> i" "j mod IPB = i mod IPB"
  moreover from this have "j div IPB = i div IPB" by (simp add: IBLOCK_def)
  ultimately show False by (metis word_mod_div_equality)
qed

text \<open>The fields of an inode that are on the disk.\<close>

definition disk_fields :: "inode \<Rightarrow> inode \<Rightarrow> inode" where
  "disk_fields x y = y\<lparr>itype := itype x, imajor := imajor x, iminor := iminor x, inlink := inlink x, isize := isize x, iaddrs := iaddrs x\<rparr>"

lemma disk_fields_type [simp]: "itype (disk_fields x y) = itype x"
  by (simp add: disk_fields_def)

text \<open>C25: \<open>iupdate\<close> in a transaction writes the inode to its slot of its block and to no other block, and logs that block, so that the change
  is part of the transaction. A later \<open>ilock\<close> of any entry of the inode table for that inode that is not valid (as after its last
  reference was dropped and \<open>iget\<close> used the entry again) then succeeds and reads type, device numbers, link count, size and all
  block addresses as they were written, or panics if the type is 0; for an entry of any other inode it reads exactly what it would have read before.\<close>

theorem iupdate_then_ilock:
  assumes tr: "file_trans ip s" and i: "inum (itab s ip) < ninodes (sb s)" and room: "lh_n (flog s) + 1 < int LOGBLOCKS"
  defines "x \<equiv> itab s ip"
  shows "\<exists>s'. iupdate ip s = Inr ((), s') \<and> itab s' = itab s \<and>
    IBLOCK (inum x) (sb s) \<in> set (logged (flog s')) \<and> (\<forall>b. b \<noteq> IBLOCK (inum x) (sb s) \<longrightarrow> fview s' b = fview s b) \<and>
    (\<forall>jp y t. to_read s' y \<and> inum y < ninodes (sb s) \<and> t = set_inode jp y s' \<longrightarrow>
      (let z = (if inum y = inum x then disk_fields x (locked_by (fpid s) y) else read_inode s (locked_by (fpid s) y))
       in if itype z = 0 then ilock (Some jp) t = Inl (Panic ''ilock: no type'')
          else \<exists>t'. ilock (Some jp) t = Inr ((), t') \<and> itab t' jp = z\<lparr>ivalid := True\<rparr> \<and> fview t' = fview s'))"
proof -
  let ?ib = "IBLOCK (inum x) (sb s)" and ?o = "dip_off (inum x)"
  have r1: "lh_n (flog s) < int LOGBLOCKS" using room by simp
  obtain s' where s': "iupdate ip s = Inr ((), s')" "tstep {} {?ib} s s'" "fview s' = (fview s)(?ib := put_dinode x ?o (fview s ?ib))"
    using iupdate_correct [OF tr i r1] unfolding x_def by metis
  note k = tstep_same [OF s'(2)]
  have held: "log_held {} (flog s)" using tr by (simp add: file_trans_def)
  have "card ({?ib} - set (logged (flog s))) \<le> 1" using card_mono [of "{?ib}" "{?ib} - set (logged (flog s))"] by simp
  then have "lh_n (flog s') < int LOGBLOCKS" using log_grows [OF held k(1) k(11)] room by simp
  then have q: "fs_quiet s'" using k(1) by (simp add: fs_quiet_def log_held_empty)
  have lb: "length (fview s ?ib) = BSIZE" using tr i by (simp add: file_trans_def disk_ok_def x_def)
  have la: "length (iaddrs x) = NDIRECT + 1" using tr by (simp add: file_trans_def file_wf_def x_def)
  have rd: "read_inode s' y = (if inum y = inum x then disk_fields x y else read_inode s y)" if "inum y < ninodes (sb s)" for y
  proof (cases "IBLOCK (inum y) (sb s) = ?ib")
    case True
    then show ?thesis
      using put_get_dinode(2) [OF lb la, of "inum x" y] put_dinode_other [OF lb la other_slot [OF True], of y]
      by (auto simp: read_inode_def k(3) s'(3) disk_fields_def)
  qed (auto simp: read_inode_def k(3) s'(3))
  have "let z = (if inum y = inum x then disk_fields x (locked_by (fpid s) y) else read_inode s (locked_by (fpid s) y))
       in if itype z = 0 then ilock (Some jp) t = Inl (Panic ''ilock: no type'')
          else \<exists>t'. ilock (Some jp) t = Inr ((), t') \<and> itab t' jp = z\<lparr>ivalid := True\<rparr> \<and> fview t' = fview s'"
    if y: "to_read s' y" "inum y < ninodes (sb s)" "t = set_inode jp y s'" for jp y t
  proof -
    have t: "fs_quiet t" "to_read t (itab t jp)" using q y by (simp_all add: to_read_def)
    have "read_inode t (locked_by (fpid t) (itab t jp)) = read_inode s' (locked_by (fpid s) y)"
      using y(3) k(5) by (simp add: read_inode_def)
    moreover have "inum (locked_by (fpid s) y) = inum y" by (simp add: locked_by_def)
    ultimately show ?thesis using ilock_reads [OF t] rd [of "locked_by (fpid s) y"] y(2,3) by (auto simp: Let_def)
  qed
  then show ?thesis using s' k(2,11) by (intro exI [of _ s']) auto
qed

text \<open>An entry with stale contents gets type, size and addresses of the inode that was written.\<close>

theorem iupdate_then_ilock_witness:
  "\<exists>s s' t'. itab s 0 = empty_ex T_FILE \<and> iupdate 0 s = Inr ((), s') \<and>
     ilock (Some 1) (set_inode 1 ((empty_ex 0)\<lparr>iref := 1, ivalid := False, isize := 99\<rparr>) s') = Inr ((), t') \<and>
     itype (itab t' 1) = T_FILE \<and> isize (itab t' 1) = 0 \<and> ivalid (itab t' 1)"
proof -
  let ?y = "(empty_ex 0)\<lparr>iref := 1, ivalid := False, isize := 99\<rparr>"
  obtain s where s: "file_trans 0 s" "itab s 0 = empty_ex T_FILE" "lh_n (flog s) + int MAXOPBLOCKS \<le> int LOGBLOCKS"
    "inum (itab s 0) < ninodes (sb s)" "isize (empty_ex T_FILE) = 0" by (rule empty_file_example)
  have room: "lh_n (flog s) + 1 < int LOGBLOCKS" using s(3) by (simp add: xv6_const)
  obtain s' where s': "iupdate 0 s = Inr ((), s')" "itab s' = itab s"
    and rd: "\<forall>jp y t. to_read s' y \<and> inum y < ninodes (sb s) \<and> t = set_inode jp y s' \<longrightarrow>
      (let z = (if inum y = inum (itab s 0) then disk_fields (itab s 0) (locked_by (fpid s) y) else read_inode s (locked_by (fpid s) y))
       in if itype z = 0 then ilock (Some jp) t = Inl (Panic ''ilock: no type'')
          else \<exists>t'. ilock (Some jp) t = Inr ((), t') \<and> itab t' jp = z\<lparr>ivalid := True\<rparr> \<and> fview t' = fview s')"
    using iupdate_then_ilock [OF s(1,4) room] by blast
  have "file_trans 0 s'" by (rule iupdate_correct [OF s(1,4)]) (use room s'(1) in auto)
  then have "ldev (flog s') = 1" using s'(2) s(2) by (simp add: file_trans_def empty_ex_def)
  then have "to_read s' ?y" by (simp add: to_read_def empty_ex_def fs_ex_def initsleeplock_def)
  moreover have "inum ?y = inum (itab s 0)" "itype (itab s 0) \<noteq> 0" using s(2) by (simp_all add: empty_ex_def T_FILE_def)
  ultimately obtain t' where "ilock (Some 1) (set_inode 1 ?y s') = Inr ((), t')" "itab t' 1 = (disk_fields (itab s 0) (locked_by (fpid s) ?y))\<lparr>ivalid := True\<rparr>"
    using rd [rule_format, of ?y "set_inode 1 ?y s'" 1] s(4) by (auto simp: Let_def)
  then show ?thesis using s s'(1) by (intro exI [of _ s] exI [of _ s'] exI [of _ t']) (auto simp: disk_fields_def empty_ex_def T_FILE_def)
qed

end
