(* ===== verification/Mkfs.thy ===== *)
theory Mkfs
  imports Fswrite
begin

text \<open>
  \<^verbatim>\<open>mkfs/mkfs.c\<close>, the host program that builds the initial file system. The image is the list of its
  sectors. The host is little-endian, as the program assumes when it stores \<open>sb.magic\<close> as it is. The
  files of the host are an argument: what the calls of \<open>read\<close> on a file return until the first result
  that is not positive, or nothing if the file cannot be opened. Messages are dropped.
\<close>

section \<open>State\<close>

datatype mkfs_error = Usage | Die string | Assert string

type_synonym 'a mk = "mkfs_error + 'a"

record dinode =
  d_type :: u16
  d_major :: u16
  d_minor :: u16
  d_nlink :: u16
  d_size :: u32
  d_addrs :: "u32 list"

record mkfs =
  img :: "block list"
  msb :: superblock
  freeinode :: u32
  freeblock :: u32

definition NINODES :: u32 where "NINODES = 200"
definition nbitmap :: u32 where "nbitmap = of_nat FSSIZE div BPB + 1"
definition ninodeblocks :: u32 where "ninodeblocks = NINODES div IPB + 1"
definition mk_nlog :: u32 where "mk_nlog = of_nat LOGBLOCKS + 1"
definition nmeta :: u32 where "nmeta = 2 + mk_nlog + ninodeblocks + nbitmap"
definition mk_nblocks :: u32 where "mk_nblocks = of_nat FSSIZE - nmeta"

fun mk_bind :: "'a mk \<Rightarrow> ('a \<Rightarrow> 'b mk) \<Rightarrow> 'b mk" where
  "mk_bind (Inl e) f = Inl e"
| "mk_bind (Inr x) f = f x"

section \<open>Bytes and sectors\<close>

definition xshort :: "u16 \<Rightarrow> u16" where
  "xshort x = of_le_bytes [ucast x, ucast (drop_bit 8 x)]"

definition xint :: "u32 \<Rightarrow> u32" where
  "xint x = of_le_bytes [ucast x, ucast (drop_bit 8 x), ucast (drop_bit 16 x), ucast (drop_bit 24 x)]"

text \<open>
  The position \<open>sec * BSIZE\<close> is a 32-bit product. A write behind the end of the image leaves a gap of zeros;
  a read there comes back short.
\<close>

definition seek_to :: "u32 \<Rightarrow> nat" where
  "seek_to sec = unat (sec * of_nat BSIZE) div BSIZE"

definition wsect :: "u32 \<Rightarrow> block \<Rightarrow> mkfs \<Rightarrow> mkfs" where
  "wsect sec b s =
     s\<lparr>img := (img s @ replicate (seek_to sec + 1 - length (img s)) (replicate BSIZE 0))[seek_to sec := b]\<rparr>"

definition rsect :: "u32 \<Rightarrow> mkfs \<Rightarrow> block mk" where
  "rsect sec s = (if seek_to sec < length (img s) then Inr (img s ! seek_to sec) else Inl (Die ''read''))"

section \<open>Inodes\<close>

text \<open>The struct copies \<open>*dip = *ip\<close> and \<open>*ip = *dip\<close>, through the field offsets of the kernel.\<close>

definition as_inode :: "dinode \<Rightarrow> inode" where
  "as_inode d = \<lparr>idev = 0, inum = 0, iref = 0, ilk = initsleeplock, ivalid = False, itype = d_type d, imajor = d_major d,
     iminor = d_minor d, inlink = d_nlink d, isize = d_size d, iaddrs = d_addrs d\<rparr>"

definition dinode_at :: "block \<Rightarrow> nat \<Rightarrow> dinode" where
  "dinode_at b off = \<lparr>d_type = get16 b off, d_major = get16 b (off + 2), d_minor = get16 b (off + 4), d_nlink = get16 b (off + 6),
     d_size = get32 b (off + 8), d_addrs = get_addrs b off\<rparr>"

definition winode :: "u32 \<Rightarrow> dinode \<Rightarrow> mkfs \<Rightarrow> mkfs mk" where
  "winode i d s =
     (let bn = IBLOCK i (msb s)
      in mk_bind (rsect bn s) (\<lambda>buf. Inr (wsect bn (put_dinode (as_inode d) (dip_off i) buf) s)))"

definition rinode :: "u32 \<Rightarrow> mkfs \<Rightarrow> dinode mk" where
  "rinode i s = mk_bind (rsect (IBLOCK i (msb s)) s) (\<lambda>buf. Inr (dinode_at buf (dip_off i)))"

definition mk_ialloc :: "u16 \<Rightarrow> mkfs \<Rightarrow> (u32 \<times> mkfs) mk" where
  "mk_ialloc ty s =
     (let i = freeinode s; s = s\<lparr>freeinode := freeinode s + 1\<rparr>;
          din = \<lparr>d_type = xshort ty, d_major = 0, d_minor = 0, d_nlink = xshort 1, d_size = xint 0, d_addrs = replicate (NDIRECT + 1) 0\<rparr>
      in mk_bind (winode i din s) (\<lambda>s. Inr (i, s)))"

section \<open>Blocks\<close>

fun set_bits :: "nat \<Rightarrow> nat \<Rightarrow> block \<Rightarrow> block" where
  "set_bits i 0 buf = buf"
| "set_bits i (Suc n) buf = set_bits (Suc i) n (buf[i div 8 := buf ! (i div 8) OR push_bit (i mod 8) 1])"

definition mk_balloc :: "u32 \<Rightarrow> mkfs \<Rightarrow> mkfs mk" where
  "mk_balloc used s =
     (if \<not> sint used < sint BPB then Inl (Assert ''used < BPB'')
      else Inr (wsect (bmapstart (msb s)) (set_bits 0 (nat (sint used)) (replicate BSIZE 0)) s))"

text \<open>Finding or allocating the block of byte \<open>off\<close>: the part of the loop of \<open>iappend\<close> that sets \<open>x\<close>.\<close>

definition new_block :: "mkfs \<Rightarrow> u32 \<times> mkfs" where
  "new_block s = (xint (freeblock s), s\<lparr>freeblock := freeblock s + 1\<rparr>)"

definition block_for :: "nat \<Rightarrow> dinode \<Rightarrow> mkfs \<Rightarrow> (u32 \<times> dinode \<times> mkfs) mk" where
  "block_for fbn din s =
     (if fbn < NDIRECT
      then if xint (d_addrs din ! fbn) = 0
           then let (a, s) = new_block s; din = din\<lparr>d_addrs := (d_addrs din)[fbn := a]\<rparr> in Inr (xint (d_addrs din ! fbn), din, s)
           else Inr (xint (d_addrs din ! fbn), din, s)
      else let (din, s) =
             (if xint (d_addrs din ! NDIRECT) = 0
              then let (a, s) = new_block s in (din\<lparr>d_addrs := (d_addrs din)[NDIRECT := a]\<rparr>, s) else (din, s))
           in mk_bind (rsect (xint (d_addrs din ! NDIRECT)) s) (\<lambda>ind.
             if get32 ind (4 * (fbn - NDIRECT)) = 0
             then let (a, s) = new_block s; ind = put32 ind (4 * (fbn - NDIRECT)) a
                  in Inr (xint (get32 ind (4 * (fbn - NDIRECT))), din, wsect (xint (d_addrs din ! NDIRECT)) ind s)
             else Inr (xint (get32 ind (4 * (fbn - NDIRECT))), din, s)))"

function iappend_loop :: "nat \<Rightarrow> u8 list \<Rightarrow> dinode \<Rightarrow> mkfs \<Rightarrow> (nat \<times> dinode \<times> mkfs) mk" where
  "iappend_loop off p din s =
     (if p = [] then Inr (off, din, s)
      else let fbn = off div BSIZE
           in if \<not> fbn < MAXFILE then Inl (Assert ''fbn < MAXFILE'')
              else mk_bind (block_for fbn din s) (\<lambda>(x, din, s).
                     let n1 = min (length p) ((fbn + 1) * BSIZE - off)
                     in mk_bind (rsect x s) (\<lambda>buf.
                          let o1 = off - fbn * BSIZE
                          in iappend_loop (off + n1) (drop n1 p) din
                               (wsect x (take o1 buf @ take n1 p @ drop (o1 + n1) buf) s))))"
  by pat_completeness auto
termination
proof (relation "measure (\<lambda>(off, p, din, s). length p)", simp)
  fix off :: nat and p :: "u8 list" and fbn n1 :: nat
  assume "p \<noteq> []" "fbn = off div BSIZE" "n1 = min (length p) ((fbn + 1) * BSIZE - off)"
  moreover have "off < (off div BSIZE + 1) * BSIZE" using dividend_less_times_div [of BSIZE off] by (simp add: BSIZE_def)
  ultimately show "\<And>din s x din' s' y z w. ((off + n1, drop n1 p, din', s'), (off, p, din, s)) \<in> measure (\<lambda>(off, p, din, s). length p)"
    by auto
qed

declare iappend_loop.simps [simp del]

definition iappend :: "u32 \<Rightarrow> u8 list \<Rightarrow> mkfs \<Rightarrow> mkfs mk" where
  "iappend i p s =
     mk_bind (rinode i s) (\<lambda>din.
     mk_bind (iappend_loop (unat (xint (d_size din))) p din s) (\<lambda>(off, din, s).
       winode i (din\<lparr>d_size := xint (of_nat off)\<rparr>) s))"

section \<open>The main program\<close>

fun zero_sectors :: "nat \<Rightarrow> nat \<Rightarrow> mkfs \<Rightarrow> mkfs" where
  "zero_sectors i 0 s = s"
| "zero_sectors i (Suc n) s = zero_sectors (Suc i) n (wsect (of_nat i) (replicate BSIZE 0) s)"

definition mk_superblock :: superblock where
  "mk_superblock = \<lparr>magic = FSMAGIC, fssize = xint (of_nat FSSIZE), nblocks = xint mk_nblocks, ninodes = xint NINODES,
     nlog = xint mk_nlog, logstart = xint 2, inodestart = xint (2 + mk_nlog), bmapstart = xint (2 + mk_nlog + ninodeblocks)\<rparr>"

definition sb_bytes :: "superblock \<Rightarrow> u8 list" where
  "sb_bytes b = le_bytes 4 (magic b) @ le_bytes 4 (fssize b) @ le_bytes 4 (nblocks b) @ le_bytes 4 (ninodes b) @
     le_bytes 4 (nlog b) @ le_bytes 4 (logstart b) @ le_bytes 4 (inodestart b) @ le_bytes 4 (bmapstart b)"

text \<open>A directory entry: \<open>bzero\<close>, the inode number, and the name by \<open>strcpy\<close> or \<open>strncpy\<close>.\<close>

definition dirent_bytes :: "u32 \<Rightarrow> u8 list \<Rightarrow> u8 list" where
  "dirent_bytes i name = le_bytes 2 (xshort (ucast i)) @ take DIRSIZ (name @ replicate DIRSIZ 0)"

definition short_name :: "u8 list \<Rightarrow> u8 list" where
  "short_name path = (if take 5 path = [117, 115, 101, 114, 47] then drop 5 path else path)"

definition skip_underscore :: "u8 list \<Rightarrow> u8 list" where
  "skip_underscore name = (if name \<noteq> [] \<and> hd name = 95 then tl name else name)"

fun append_reads :: "u32 \<Rightarrow> u8 list list \<Rightarrow> mkfs \<Rightarrow> mkfs mk" where
  "append_reads i [] s = Inr s"
| "append_reads i (buf # rest) s = mk_bind (iappend i buf s) (append_reads i rest)"

text \<open>The body of the loop over the files, with the \<open>close\<close> dropped.\<close>

definition add_file :: "(u8 list \<Rightarrow> u8 list list option) \<Rightarrow> u32 \<Rightarrow> u8 list \<Rightarrow> mkfs \<Rightarrow> mkfs mk" where
  "add_file host rootino path s =
     (let short = short_name path
      in if slash \<in> set short then Inl (Assert ''index'')
         else case host path of
           None \<Rightarrow> Inl (Die ''open'')
         | Some reads \<Rightarrow>
             let short = skip_underscore short
             in if \<not> length short \<le> DIRSIZ then Inl (Assert ''strlen'')
                else mk_bind (mk_ialloc T_FILE s) (\<lambda>(i, s).
                     mk_bind (iappend rootino (dirent_bytes i short) s) (append_reads i reads)))"

fun add_files :: "(u8 list \<Rightarrow> u8 list list option) \<Rightarrow> u32 \<Rightarrow> u8 list list \<Rightarrow> mkfs \<Rightarrow> mkfs mk" where
  "add_files host rootino [] s = Inr s"
| "add_files host rootino (path # rest) s = mk_bind (add_file host rootino path s) (add_files host rootino rest)"

definition fix_root_size :: "u32 \<Rightarrow> mkfs \<Rightarrow> mkfs mk" where
  "fix_root_size rootino s =
     mk_bind (rinode rootino s) (\<lambda>din.
       let off = xint (d_size din); off = (off div of_nat BSIZE + 1) * of_nat BSIZE
       in winode rootino (din\<lparr>d_size := xint off\<rparr>) s)"

text \<open>The arguments are \<open>argv\<close> without the program name; \<open>can\<close> says whether the image can be opened.\<close>

definition mkfs_main :: "(u8 list \<Rightarrow> bool) \<Rightarrow> (u8 list \<Rightarrow> u8 list list option) \<Rightarrow> u8 list list \<Rightarrow> mkfs mk" where
  "mkfs_main can host args =
     (case args of
        [] \<Rightarrow> Inl Usage
      | fsimg # files \<Rightarrow>
          if \<not> can fsimg then Inl (Die ''open'')
          else
            let s = \<lparr>img = [], msb = mk_superblock, freeinode = 1, freeblock = nmeta\<rparr>;
                s = zero_sectors 0 FSSIZE s;
                s = wsect 1 (sb_bytes (msb s) @ replicate (BSIZE - 32) 0) s
            in mk_bind (mk_ialloc T_DIR s) (\<lambda>(rootino, s).
               if rootino \<noteq> ROOTINO then Inl (Assert ''rootino == ROOTINO'')
               else mk_bind (iappend rootino (dirent_bytes rootino [46]) s) (\<lambda>s.
                    mk_bind (iappend rootino (dirent_bytes rootino [46, 46]) s) (\<lambda>s.
                    mk_bind (add_files host rootino files s) (\<lambda>s.
                    mk_bind (fix_root_size rootino s) (\<lambda>s. mk_balloc (freeblock s) s))))))"

section \<open>Bytes\<close>

lemma xint_id [simp]: "xint x = x"
proof -
  have "xint x = of_le_bytes (le_bytes 4 x)"
    by (simp add: xint_def numeral_eq_Suc drop_bit_drop_bit)
  then show ?thesis by (simp add: of_le_bytes_le_bytes take_bit_word_eq_self)
qed

lemma xshort_id [simp]: "xshort x = x"
proof -
  have "xshort x = of_le_bytes (le_bytes 2 x)" by (simp add: xshort_def numeral_eq_Suc)
  then show ?thesis by (simp add: of_le_bytes_le_bytes take_bit_word_eq_self)
qed

lemma seek_to_small: "unat sec < 2000 \<Longrightarrow> seek_to sec = unat sec"
  by (simp add: seek_to_def BSIZE_def unat_word_ariths)

lemma mkfs_consts: "mk_nlog = 31" "ninodeblocks = 13" "nbitmap = 1" "nmeta = 47" "NINODES = 200" "mk_nblocks = 1953"
  by (simp_all add: mk_nlog_def ninodeblocks_def nbitmap_def nmeta_def NINODES_def mk_nblocks_def xv6_const)

lemma mk_superblock_eq: "mk_superblock = \<lparr>magic = FSMAGIC, fssize = 2000, nblocks = 1953, ninodes = 200, nlog = 31, logstart = 2,
    inodestart = 33, bmapstart = 46\<rparr>"
  by (simp add: mk_superblock_def mkfs_consts FSSIZE_def)

section \<open>The image as the kernel sees it\<close>

text \<open>
  What the image will show once the free map is written: the sectors, with the blocks below \<open>freeblock\<close>
  marked in the map. Building files on it is an instance of the extensions and writes of \<open>Fswrite\<close>.
\<close>

definition mview :: "mkfs \<Rightarrow> u32 \<Rightarrow> block" where
  "mview s = (\<lambda>b. img s ! unat b)(46 := set_bits 0 (unat (freeblock s)) (replicate BSIZE 0))"

definition mk_ok :: "mkfs \<Rightarrow> bool" where
  "mk_ok s \<longleftrightarrow> length (img s) = 2000 \<and> (\<forall>b<2000. length (img s ! b) = BSIZE) \<and> msb s = mk_superblock \<and>
     47 \<le> unat (freeblock s) \<and> unat (freeblock s) \<le> 2000 \<and>
     (\<forall>b. unat (freeblock s) \<le> b \<and> b < 2000 \<longrightarrow> img s ! b = replicate BSIZE 0)"

lemma length_set_bits [simp]: "length (set_bits i n buf) = length buf"
  by (induction n arbitrary: i buf) auto

lemma set_bits_snoc: "set_bits i (Suc n) buf =
    (set_bits i n buf)[(i + n) div 8 := set_bits i n buf ! ((i + n) div 8) OR bit_mask (i + n)]"
proof (induction n arbitrary: i buf)
  case (Suc n)
  show ?case
    using Suc.IH [of "Suc i" "buf[i div 8 := buf ! (i div 8) OR push_bit (i mod 8) 1]"]
    by (simp only: set_bits.simps add_Suc_shift)
qed (simp add: bit_mask_def)

lemma map_bit_set_bits:
  "i + n \<le> 8 * length buf \<Longrightarrow> map_bit (set_bits i n buf) x \<longleftrightarrow> map_bit buf x \<or> i \<le> x \<and> x < i + n"
proof (induction n)
  case (Suc n)
  then have "(i + n) div 8 < length (set_bits i n buf)" by simp
  from map_bit_set(1) [OF this] show ?case
    using Suc by (auto simp: set_bits_snoc simp del: set_bits.simps)
qed auto

lemma map_bit_zeros: "x div 8 < n \<Longrightarrow> \<not> map_bit (replicate n 0) x"
  by (simp add: map_bit_def)

lemma mview_used: "x < 2000 \<Longrightarrow> unat (freeblock s) \<le> 2000 \<Longrightarrow> block_used mk_superblock (mview s) x \<longleftrightarrow> x < unat (freeblock s)"
proof -
  assume x: "x < 2000" "unat (freeblock s) \<le> 2000"
  have "BBLOCK (of_nat x) mk_superblock = 46" using x by (simp add: BBLOCK_nat mk_superblock_eq)
  then show ?thesis
    using x map_bit_set_bits [of 0 "unat (freeblock s)" "replicate BSIZE 0" x] map_bit_zeros [of x BSIZE]
    by (simp add: block_used_def mview_def BSIZE_def)
qed

lemma iblock_mk: "unat i < 208 \<Longrightarrow> unat (IBLOCK i mk_superblock) = 33 + unat i div 16"
proof -
  assume a: "unat i < 208"
  then have "unat i div 16 \<le> 12" by simp
  then show ?thesis by (simp add: IBLOCK_def mk_superblock_eq IPB_def unat_word_ariths unat_div_distrib)
qed

lemma meta_mk: "b \<in> meta mk_superblock 2 \<Longrightarrow> unat b < 47"
proof -
  assume b: "b \<in> meta mk_superblock 2"
  have "ninodes mk_superblock = 200" "bmapstart mk_superblock = 46" by (simp_all add: mk_superblock_eq)
  with b consider "b = 0" | "b = 1" | "b = 46" | "b \<in> log_region 2" | i where "i < 200" "b = IBLOCK i mk_superblock"
    unfolding meta_def by auto
  then show ?thesis
  proof cases
    case (5 i)
    then have "unat i < 200" by (simp add: word_less_nat_alt)
    then show ?thesis using iblock_mk [of i] 5 by simp
  qed (auto simp: log_region_2)
qed

lemma mk_disk_ok: "mk_ok s \<Longrightarrow> disk_ok mk_superblock 2 (mview s)"
proof -
  assume ok: "mk_ok s"
  have c: "fssize mk_superblock = 2000" "bmapstart mk_superblock = 46" "ninodes mk_superblock = 200" by (simp_all add: mk_superblock_eq)
  have ib: "33 \<le> unat (IBLOCK i mk_superblock) \<and> unat (IBLOCK i mk_superblock) \<le> 45" if "i < 200" for i
  proof -
    have "unat i < 200" using that by (simp add: word_less_nat_alt)
    then have "unat i div 16 \<le> 12" by simp
    then show ?thesis using iblock_mk [of i] \<open>unat i < 200\<close> by simp
  qed
  have "block_used mk_superblock (mview s) x" if "x < 2000" "of_nat x \<in> meta mk_superblock 2" for x
  proof -
    have "unat (of_nat x :: u32) = x" using that(1) by (simp add: unat_of_nat take_bit_nat_eq_self)
    then show ?thesis using meta_mk [OF that(2)] mview_used [OF that(1), of s] ok by (simp add: mk_ok_def)
  qed
  moreover have "IBLOCK i mk_superblock \<notin> log_region 2 \<and> IBLOCK i mk_superblock \<noteq> 46 \<and> length (mview s (IBLOCK i mk_superblock)) = BSIZE"
    if "i < 200" for i
    using ib [OF that] ok by (auto simp: log_region_2 mview_def mk_ok_def)
  moreover have "length (mview s 46) = BSIZE" "46 \<notin> log_region 2" by (simp_all add: mview_def log_region_2)
  ultimately show ?thesis unfolding disk_ok_def c by simp
qed

text \<open>Handing out the next block takes the first free block of the map.\<close>

lemma mview_new_block:
  assumes ok: "mk_ok s" and fb: "unat (freeblock s) < 2000"
  defines "s' \<equiv> s\<lparr>freeblock := freeblock s + 1\<rparr>"
  shows "new_block s = (freeblock s, s')" "mk_ok s'" "unat (freeblock s') = Suc (unat (freeblock s))"
    "mview s' = take_block mk_superblock (unat (freeblock s)) (mview s)" "\<not> block_used mk_superblock (mview s) (unat (freeblock s))"
    "unat (freeblock s) < unat (fssize mk_superblock)"
proof -
  let ?f = "unat (freeblock s)"
  show "new_block s = (freeblock s, s')" by (simp add: new_block_def s'_def)
  show u: "unat (freeblock s') = Suc ?f" using fb by (simp add: s'_def unat_word_ariths)
  show "mk_ok s'" using ok u fb by (auto simp: mk_ok_def s'_def)
  show "\<not> block_used mk_superblock (mview s) ?f" using mview_used [of ?f s] fb by simp
  show "?f < unat (fssize mk_superblock)" using fb by (simp add: mk_superblock_eq)
  have bb: "BBLOCK (of_nat ?f) mk_superblock = 46" "?f mod 8192 = ?f"
    using BBLOCK_nat [of ?f mk_superblock] fb by (simp_all add: mk_superblock_eq)
  have "freeblock s \<noteq> 46" using ok by (auto simp: mk_ok_def)
  moreover have "img s ! ?f = replicate BSIZE 0" using ok fb by (auto simp: mk_ok_def)
  ultimately show "mview s' = take_block mk_superblock ?f (mview s)"
    unfolding take_block_def Let_def bb mview_def u
    by (auto simp: fun_eq_iff s'_def set_bits_snoc simp del: set_bits.simps)
qed

lemma mview_wsect:
  assumes ok: "mk_ok s" and b: "unat b < unat (freeblock s)" "b \<noteq> 46" and d: "length d = BSIZE"
  shows "mk_ok (wsect b d s)" "mview (wsect b d s) = (mview s)(b := d)"
    "freeblock (wsect b d s) = freeblock s" "freeinode (wsect b d s) = freeinode s" "msb (wsect b d s) = msb s"
proof -
  have l: "length (img s) = 2000" "unat b < 2000" using ok b(1) by (auto simp: mk_ok_def)
  then have w: "wsect b d s = s\<lparr>img := (img s)[unat b := d]\<rparr>" by (simp add: wsect_def seek_to_small)
  show "mk_ok (wsect b d s)" using ok b(1) d by (auto simp: w mk_ok_def nth_list_update)
  show "mview (wsect b d s) = (mview s)(b := d)"
  proof
    fix c
    have "unat c \<noteq> unat b" if "c \<noteq> b" using that by (simp add: word_unat_eq_iff)
    then show "mview (wsect b d s) c = ((mview s)(b := d)) c"
      using l b(2) by (cases "c = b") (simp_all add: w mview_def)
  qed
qed (simp_all add: wsect_def)

lemma mview_rsect: "mk_ok s \<Longrightarrow> unat b < unat (freeblock s) \<Longrightarrow> b \<noteq> 46 \<Longrightarrow> rsect b s = Inr (mview s b)"
  by (simp add: rsect_def mview_def mk_ok_def seek_to_small)

section \<open>Appending to a file\<close>

text \<open>A file that has exactly its first \<open>n\<close> blocks, the blocks it takes with the indirect block, and a
  file with zeros behind byte \<open>off\<close>.\<close>

definition dense :: "(u32 \<Rightarrow> block) \<Rightarrow> inode \<Rightarrow> nat \<Rightarrow> bool" where
  "dense v x n \<longleftrightarrow> (\<forall>m<MAXFILE. file_addr v x m \<noteq> 0 \<longleftrightarrow> m < n) \<and> (iaddrs x ! NDIRECT \<noteq> 0 \<longleftrightarrow> NDIRECT < n)"

definition total_blocks :: "nat \<Rightarrow> nat" where
  "total_blocks n = n + (if NDIRECT < n then 1 else 0)"

definition zeroed :: "(u32 \<Rightarrow> block) \<Rightarrow> inode \<Rightarrow> nat \<Rightarrow> bool" where
  "zeroed v x off \<longleftrightarrow> (\<forall>i. off \<le> i \<and> i < MAXFILE * BSIZE \<and> file_addr v x (i div BSIZE) \<noteq> 0 \<longrightarrow> file_byte v x i = 0)"

lemma file_wf_addr: "file_wf sbk st v x \<Longrightarrow> m < MAXFILE \<Longrightarrow> file_addr v x m \<noteq> 0 \<Longrightarrow>
    data_block sbk st v (file_addr v x m) \<and> file_addr v x m \<noteq> iaddrs x ! NDIRECT"
  by (simp add: file_wf_def)

lemma dense_zero: "dense v x n \<Longrightarrow> n \<le> m \<Longrightarrow> m < MAXFILE \<Longrightarrow> file_addr v x m = 0"
  unfolding dense_def by (metis not_less)

lemma mk_data_block: "mk_ok s \<Longrightarrow> data_block mk_superblock 2 (mview s) a \<Longrightarrow> unat a < unat (freeblock s) \<and> a \<noteq> 46"
  using mview_used [of "unat a" s] by (auto simp: data_block_def mk_ok_def mk_superblock_eq meta_def)

lemma as_inode_addrs [simp]: "iaddrs (as_inode d) = d_addrs d" "as_inode (d\<lparr>d_addrs := a\<rparr>) = (as_inode d)\<lparr>iaddrs := a\<rparr>"
  by (simp_all add: as_inode_def)

definition meta_kept :: "(u32 \<Rightarrow> block) \<Rightarrow> (u32 \<Rightarrow> block) \<Rightarrow> bool" where
  "meta_kept v v' \<longleftrightarrow> (\<forall>b\<in>meta mk_superblock 2. b \<noteq> 46 \<longrightarrow> v' b = v b)"

lemma meta_kept_trans: "meta_kept u v \<Longrightarrow> meta_kept v w \<Longrightarrow> meta_kept u w"
  by (simp add: meta_kept_def)

lemma meta_kept_new_block:
  assumes "mk_ok s" "unat (freeblock s) < 2000"
  shows "meta_kept (mview s) (mview (s\<lparr>freeblock := freeblock s + 1\<rparr>))"
  unfolding meta_kept_def
proof (intro ballI impI)
  fix b assume b: "b \<in> meta mk_superblock 2" "b \<noteq> 46"
  note nb = mview_new_block [OF assms]
  note t = take_block_facts [OF mk_disk_ok [OF assms(1)] nb(6,5), folded nb(4)]
  have "b \<noteq> of_nat (unat (freeblock s))" using t(5) b(1) by blast
  then show "mview (s\<lparr>freeblock := freeblock s + 1\<rparr>) b = mview s b" using t(7) b(2) by (simp add: mk_superblock_eq)
qed

lemma meta_kept_write: "data_block mk_superblock 2 w a \<Longrightarrow> meta_kept v (v(a := d))"
  by (auto simp: meta_kept_def data_block_def)

definition block_for_result :: "nat \<Rightarrow> nat \<Rightarrow> dinode \<Rightarrow> mkfs \<Rightarrow> u32 \<Rightarrow> dinode \<Rightarrow> mkfs \<Rightarrow> bool" where
  "block_for_result fbn n din s x din' s' \<longleftrightarrow> mk_ok s' \<and> freeinode s' = freeinode s \<and> meta_kept (mview s) (mview s') \<and>
     extends mk_superblock 2 fbn (mview s) (as_inode din) (mview s') (as_inode din') \<and> x = file_addr (mview s') (as_inode din') fbn \<and>
     (file_addr (mview s) (as_inode din) fbn = 0 \<longrightarrow> mview s' x = replicate BSIZE 0) \<and>
     dense (mview s') (as_inode din') (max n (Suc fbn)) \<and>
     unat (freeblock s') + total_blocks n = unat (freeblock s) + total_blocks (max n (Suc fbn))"

lemma dense_extend:
  assumes "extends sbk st n v x v' x'" "\<forall>m<MAXFILE. file_addr v x m \<noteq> 0 \<longleftrightarrow> m < n" "file_addr v' x' n \<noteq> 0" "n < MAXFILE"
    "iaddrs x' ! NDIRECT \<noteq> 0 \<longleftrightarrow> NDIRECT < Suc n"
  shows "dense v' x' (Suc n)"
  using assms unfolding dense_def extends_def by (metis less_Suc_eq)

lemma block_for_direct:
  assumes ok: "mk_ok s" and wf: "file_wf mk_superblock 2 (mview s) (as_inode din)" and de: "dense (mview s) (as_inode din) n"
    and n: "n < NDIRECT" and room: "unat (freeblock s) < 2000"
  shows "\<exists>x din' s'. block_for n din s = Inr (x, din', s') \<and> block_for_result n n din s x din' s'"
proof -
  let ?v = "mview s" and ?x = "as_inode din" and ?f = "freeblock s"
  note nb = mview_new_block [OF ok room]
  have "n < MAXFILE" using n by (simp add: MAXFILE_def)
  then have z: "file_addr ?v ?x n = 0" using dense_zero [OF de] by simp
  then have zi: "iaddrs ?x ! n = 0" using n by (simp add: file_addr_def)
  note e = extend_direct [OF mk_disk_ok [OF ok] wf nb(6,5) n zi, folded nb(4)]
  define din' where "din' = din\<lparr>d_addrs := (d_addrs din)[n := ?f]\<rparr>"
  define s' where "s' = s\<lparr>freeblock := freeblock s + 1\<rparr>"
  have len: "length (d_addrs din) = 13" using wf by (simp add: file_wf_def NDIRECT_def)
  have "block_for n din s = Inr (?f, din', s')"
    using n zi nb(1) len by (simp add: block_for_def Let_def din'_def s'_def NDIRECT_def)
  moreover have ex: "extends mk_superblock 2 n ?v ?x (mview s') (as_inode din')" "file_addr (mview s') (as_inode din') n = ?f"
    using e by (simp_all add: din'_def s'_def)
  moreover have "mview s' ?f = replicate BSIZE 0" using take_block_facts(3) [OF mk_disk_ok [OF ok] nb(6,5), folded nb(4)] by (simp add: s'_def)
  moreover have "dense (mview s') (as_inode din') (Suc n)"
  proof (rule dense_extend [OF ex(1) _ _ \<open>n < MAXFILE\<close>])
    show "\<forall>m<MAXFILE. file_addr ?v ?x m \<noteq> 0 \<longleftrightarrow> m < n" using de by (simp add: dense_def)
    show "file_addr (mview s') (as_inode din') n \<noteq> 0" using ex(2) ok by (auto simp: mk_ok_def)
    show "iaddrs (as_inode din') ! NDIRECT \<noteq> 0 \<longleftrightarrow> NDIRECT < Suc n" using de n by (simp add: din'_def dense_def)
  qed
  ultimately have "block_for_result n n din s ?f din' s'"
    using nb(2,3) n meta_kept_new_block [OF ok room] by (simp add: block_for_result_def s'_def max_def total_blocks_def)
  then show ?thesis using \<open>block_for n din s = Inr (?f, din', s')\<close> by blast
qed

lemma block_for_indirect:
  assumes ok: "mk_ok s" and wf: "file_wf mk_superblock 2 (mview s) (as_inode din)"
    and n: "NDIRECT \<le> n" "n < MAXFILE" "d_addrs din ! NDIRECT \<noteq> 0" "file_addr (mview s) (as_inode din) n = 0"
    and room: "unat (freeblock s) < 2000"
  obtains x s' where "block_for n din s = Inr (x, din, s')" "mk_ok s'" "freeinode s' = freeinode s"
    "extends mk_superblock 2 n (mview s) (as_inode din) (mview s') (as_inode din)" "x = file_addr (mview s') (as_inode din) n" "x \<noteq> 0"
    "mview s' x = replicate BSIZE 0" "unat (freeblock s') = Suc (unat (freeblock s))" "meta_kept (mview s) (mview s')"
proof -
  let ?v = "mview s" and ?x = "as_inode din" and ?f = "freeblock s" and ?i = "d_addrs din ! NDIRECT" and ?k = "4 * (n - NDIRECT)"
  note nb = mview_new_block [OF ok room]
  have ni: "iaddrs ?x ! NDIRECT \<noteq> 0" using n(3) by simp
  note e = extend_indirect [OF mk_disk_ok [OF ok] wf nb(6,5) n(1,2) ni n(4)]
  let ?s1 = "s\<lparr>freeblock := freeblock s + 1\<rparr>" and ?d = "put32 (?v ?i) ?k ?f"
  have di: "data_block mk_superblock 2 ?v ?i" using wf n(3) by (simp add: file_wf_def)
  note ib = mk_data_block [OF ok di]
  have li: "length (?v ?i) = BSIZE" using di by (simp add: data_block_def)
  have k4: "?k + 4 \<le> BSIZE" using n by (simp add: BSIZE_def MAXFILE_def NDIRECT_def NINDIRECT_def)
  have z: "get32 (?v ?i) ?k = 0" using n by (simp add: file_addr_def)
  have v1i: "mview ?s1 ?i = ?v ?i" using take_block_facts(6) [OF mk_disk_ok [OF ok] nb(6,5) di] nb(4) by simp
  have f1: "unat ?i < unat (freeblock ?s1)" using ib nb(3) by simp
  have ld: "length ?d = BSIZE" using li k4 by simp
  note w = mview_wsect [OF nb(2) f1 conjunct2 [OF ib] ld]
  have bf: "block_for n din s = Inr (?f, din, wsect ?i ?d ?s1)"
    using n(1,3) z mview_rsect [OF ok] ib nb(1) li k4 by (simp add: block_for_def Let_def not_less)
  have v': "mview (wsect ?i ?d ?s1) = (take_block mk_superblock (unat ?f) ?v)(?i := put32 (?v ?i) ?k (of_nat (unat ?f)))"
    using w(2) nb(4) by simp
  have "?f \<noteq> 0" using ok by (auto simp: mk_ok_def)
  moreover have "extends mk_superblock 2 n ?v ?x (mview (wsect ?i ?d ?s1)) ?x" "file_addr (mview (wsect ?i ?d ?s1)) ?x n = ?f"
    "mview (wsect ?i ?d ?s1) ?f = replicate BSIZE 0"
    unfolding v' using e by simp_all
  moreover have "meta_kept ?v (mview (wsect ?i ?d ?s1))"
    unfolding w(2) by (rule meta_kept_trans [OF meta_kept_new_block [OF ok room] meta_kept_write [OF di]])
  ultimately show ?thesis
    using w(1,3,4) nb(3) by (intro that [OF bf]) simp_all
qed

lemma block_for_correct:
  assumes ok: "mk_ok s" and wf: "file_wf mk_superblock 2 (mview s) (as_inode din)" and de: "dense (mview s) (as_inode din) n"
    and fbn: "fbn \<le> n" "fbn < MAXFILE" and room: "unat (freeblock s) + total_blocks (max n (Suc fbn)) \<le> 2000 + total_blocks n"
  shows "\<exists>x din' s'. block_for fbn din s = Inr (x, din', s') \<and> block_for_result fbn n din s x din' s'"
proof -
  let ?v = "mview s" and ?x = "as_inode din" and ?i = "d_addrs din ! NDIRECT"
  consider "fbn < n" | "fbn = n" "n < NDIRECT" | "fbn = n" "NDIRECT < n" | "fbn = n" "n = NDIRECT" using fbn(1) by linarith
  then show ?thesis
  proof cases
    case 1
    then have nz: "file_addr ?v ?x fbn \<noteq> 0" using de fbn by (simp add: dense_def)
    have "block_for fbn din s = Inr (file_addr ?v ?x fbn, din, s)"
    proof (cases "fbn < NDIRECT")
      case False
      then have i: "?i \<noteq> 0" "data_block mk_superblock 2 ?v ?i" using nz wf by (auto simp: file_addr_def file_wf_def split: if_splits)
      then show ?thesis using False nz mview_rsect [OF ok] mk_data_block [OF ok i(2)] by (simp add: block_for_def file_addr_def Let_def)
    qed (use nz in \<open>simp add: block_for_def file_addr_def\<close>)
    moreover have "max n (Suc fbn) = n" using 1 by simp
    then have "block_for_result fbn n din s (file_addr ?v ?x fbn) din s"
      using ok nz de extends_refl [OF mk_disk_ok [OF ok] wf] by (simp add: block_for_result_def meta_kept_def)
    ultimately show ?thesis by blast
  next
    case 2
    then show ?thesis using block_for_direct [OF ok wf de] room by (simp add: total_blocks_def max_def)
  next
    case 3
    have z: "file_addr ?v ?x n = 0" "?i \<noteq> 0" using de 3 fbn by (auto simp: dense_def)
    obtain x s' where r: "block_for n din s = Inr (x, din, s')" "mk_ok s'" "freeinode s' = freeinode s"
      "extends mk_superblock 2 n ?v ?x (mview s') ?x" "x = file_addr (mview s') ?x n" "x \<noteq> 0"
      "mview s' x = replicate BSIZE 0" "unat (freeblock s') = Suc (unat (freeblock s))" "meta_kept ?v (mview s')"
      by (rule block_for_indirect [OF ok wf, of n]) (use z 3 fbn room in \<open>auto simp: total_blocks_def max_def\<close>)
    have "dense (mview s') ?x (Suc n)"
      using dense_extend [OF r(4)] de r(5,6) 3 fbn by (simp add: dense_def)
    then have "block_for_result fbn n din s x din s'" using r 3 by (simp add: block_for_result_def max_def total_blocks_def)
    then show ?thesis using r(1) 3 by blast
  next
    case 4
    let ?f = "freeblock s" and ?s1 = "s\<lparr>freeblock := freeblock s + 1\<rparr>" and ?din1 = "din\<lparr>d_addrs := (d_addrs din)[NDIRECT := freeblock s]\<rparr>"
    have rm: "unat ?f + 2 \<le> 2000" using room 4 by (simp add: total_blocks_def max_def)
    have i0: "?i = 0" "iaddrs ?x ! NDIRECT = 0" using de 4 by (auto simp: dense_def)
    have f0: "unat ?f < 2000" using rm by simp
    note nb = mview_new_block [OF ok f0]
    note e = extend_indirect_block [OF mk_disk_ok [OF ok] wf nb(6,5) i0(2), folded nb(4)]
    have len: "length (d_addrs din) = 13" using wf by (simp add: file_wf_def NDIRECT_def)
    have fz: "?f \<noteq> 0" using ok by (auto simp: mk_ok_def)
    have bf: "block_for n din s = block_for n ?din1 ?s1"
      using 4 i0 fz nb(1) len by (simp add: block_for_def Let_def NDIRECT_def)
    have ex1: "extends mk_superblock 2 n ?v ?x (mview ?s1) (as_inode ?din1)"
      "\<And>m. m < MAXFILE \<Longrightarrow> file_addr (mview ?s1) (as_inode ?din1) m = file_addr ?v ?x m"
      using e by simp_all
    have z: "file_addr ?v ?x n = 0" using dense_zero [OF de] fbn 4 by simp
    obtain x s' where r: "block_for n ?din1 ?s1 = Inr (x, ?din1, s')" "mk_ok s'" "freeinode s' = freeinode ?s1"
      "extends mk_superblock 2 n (mview ?s1) (as_inode ?din1) (mview s') (as_inode ?din1)" "x = file_addr (mview s') (as_inode ?din1) n" "x \<noteq> 0"
      "mview s' x = replicate BSIZE 0" "unat (freeblock s') = Suc (unat (freeblock ?s1))" "meta_kept (mview ?s1) (mview s')"
      by (rule block_for_indirect [OF nb(2), of ?din1 n])
        (use ex1 z 4 fbn nb(3) rm fz len in \<open>auto simp: extends_def NDIRECT_def\<close>)
    have ex: "extends mk_superblock 2 n ?v ?x (mview s') (as_inode ?din1)" by (rule extends_trans [OF ex1(1) r(4) ex1(2)])
    have "dense (mview s') (as_inode ?din1) (Suc n)"
      using dense_extend [OF ex] de r(5,6) 4 fbn fz len by (simp add: dense_def NDIRECT_def)
    then have "block_for_result fbn n din s x ?din1 s'"
      using r ex 4 nb(3) meta_kept_trans [OF meta_kept_new_block [OF ok f0] r(9)]
      by (simp add: block_for_result_def max_def total_blocks_def)
    then show ?thesis using r(1) bf 4 by auto
  qed
qed

text \<open>The number of blocks that \<open>n\<close> bytes need.\<close>

definition blocks_for :: "nat \<Rightarrow> nat" where
  "blocks_for n = (n + BSIZE - 1) div BSIZE"

lemma blocks_for_step:
  assumes "0 < k" "off mod BSIZE + k \<le> BSIZE"
  shows "blocks_for (off + k) = max (blocks_for off) (Suc (off div BSIZE))" "off div BSIZE \<le> blocks_for off"
proof -
  define q r where "q = off div BSIZE" and "r = off mod BSIZE"
  have off: "off = q * BSIZE + r" "r < BSIZE" by (simp_all add: q_def r_def BSIZE_def)
  have rk: "r + k \<le> BSIZE" using assms(2) by (simp add: r_def)
  have b: "(q * BSIZE + t + BSIZE - 1) div BSIZE = (if t = 0 then q else Suc q)" if "t \<le> BSIZE" for t
    by (rule div_nat_eqI) (use that in \<open>auto simp: BSIZE_def\<close>)
  have "blocks_for off = (if r = 0 then q else Suc q)" using b [of r] off by (simp add: blocks_for_def)
  moreover have "blocks_for (off + k) = Suc q" using b [OF rk] off(1) assms(1) by (simp add: blocks_for_def add.assoc)
  ultimately show "blocks_for (off + k) = max (blocks_for off) (Suc (off div BSIZE))" "off div BSIZE \<le> blocks_for off"
    by (auto simp flip: q_def)
qed

lemma blocks_for_mono: "m \<le> n \<Longrightarrow> blocks_for m \<le> blocks_for n"
  by (simp add: blocks_for_def div_le_mono)

lemma total_blocks_mono: "m \<le> n \<Longrightarrow> total_blocks m \<le> total_blocks n"
  by (simp add: total_blocks_def)

text \<open>A file under construction that holds \<open>off\<close> bytes.\<close>

definition building :: "mkfs \<Rightarrow> dinode \<Rightarrow> nat \<Rightarrow> bool" where
  "building s din off \<longleftrightarrow> mk_ok s \<and> file_wf mk_superblock 2 (mview s) (as_inode din) \<and>
     dense (mview s) (as_inode din) (blocks_for off) \<and> zeroed (mview s) (as_inode din) off"

lemma zeroed_extends:
  assumes z: "zeroed v x off" and e: "extends sbk st bn v x v' x'"
    and new: "file_addr v x bn = 0 \<longrightarrow> v' (file_addr v' x' bn) = replicate BSIZE 0"
  shows "zeroed v' x' off"
  unfolding zeroed_def
proof (intro allI impI)
  fix i assume i: "off \<le> i \<and> i < MAXFILE * BSIZE \<and> file_addr v' x' (i div BSIZE) \<noteq> 0"
  then have m: "i div BSIZE < MAXFILE" by (simp add: less_mult_imp_div_less)
  show "file_byte v' x' i = 0"
  proof (cases "file_addr v x (i div BSIZE) = 0")
    case True
    then have "i div BSIZE = bn" using e i m unfolding extends_def by metis
    then show ?thesis using new True by (simp add: file_byte_def BSIZE_def)
  next
    case False
    then show ?thesis using e z i m unfolding extends_def zeroed_def file_byte_def by metis
  qed
qed

lemma zeroed_written: "zeroed v x off \<Longrightarrow> written sbk st off bs v x v' x \<Longrightarrow>
    (\<And>m. file_addr v' x m = file_addr v x m) \<Longrightarrow> zeroed v' x (off + length bs)"
  unfolding zeroed_def written_def by auto

lemma iappend_loop_appends:
  assumes "building s din off" "off + length p \<le> MAXFILE * BSIZE"
    "unat (freeblock s) + total_blocks (blocks_for (off + length p)) \<le> 2000 + total_blocks (blocks_for off)"
  shows "\<exists>din' s'. iappend_loop off p din s = Inr (off + length p, din', s') \<and> building s' din' (off + length p) \<and>
    freeinode s' = freeinode s \<and> meta_kept (mview s) (mview s') \<and> written mk_superblock 2 off p (mview s) (as_inode din) (mview s') (as_inode din') \<and>
    unat (freeblock s') + total_blocks (blocks_for off) = unat (freeblock s) + total_blocks (blocks_for (off + length p))"
  using assms
proof (induction "length p" arbitrary: p off din s rule: less_induct)
  case less
  show ?case
  proof (cases "p = []")
    case True
    then show ?thesis using less.prems by (simp add: iappend_loop.simps written_none meta_kept_def)
  next
    case False
    define fbn where "fbn = off div BSIZE"
    define n1 where "n1 = min (length p) ((fbn + 1) * BSIZE - off)"
    have om: "off = fbn * BSIZE + off mod BSIZE" "off mod BSIZE < BSIZE" by (simp_all add: fbn_def BSIZE_def)
    then have n1: "0 < n1" "n1 \<le> length p" "off mod BSIZE + n1 \<le> BSIZE" "off - fbn * BSIZE = off mod BSIZE"
      using False by (auto simp: n1_def)
    have n1': "min (length p) (BSIZE + fbn * BSIZE - off) = n1" by (simp add: n1_def)
    have fm: "fbn < MAXFILE" using less.prems(2) False unfolding fbn_def by (intro less_mult_imp_div_less) (cases p, auto)
    note bs = blocks_for_step [OF n1(1,3), folded fbn_def]
    have b: "mk_ok s" "file_wf mk_superblock 2 (mview s) (as_inode din)" "dense (mview s) (as_inode din) (blocks_for off)"
      "zeroed (mview s) (as_inode din) off" using less.prems(1) by (simp_all add: building_def)
    have mono: "total_blocks (blocks_for (off + n1)) \<le> total_blocks (blocks_for (off + length p))"
      using n1(2) by (intro total_blocks_mono blocks_for_mono) simp
    have "unat (freeblock s) + total_blocks (max (blocks_for off) (Suc fbn)) \<le> 2000 + total_blocks (blocks_for off)"
      using less.prems(3) mono bs(1) by simp
    then obtain x din1 s1 where s1: "block_for fbn din s = Inr (x, din1, s1)" and r: "block_for_result fbn (blocks_for off) din s x din1 s1"
      using block_for_correct [OF b(1-3) bs(2) fm] by blast
    let ?x1 = "as_inode din1" and ?v1 = "mview s1"
    have r1: "mk_ok s1" "freeinode s1 = freeinode s" "extends mk_superblock 2 fbn (mview s) (as_inode din) ?v1 ?x1"
      "x = file_addr ?v1 ?x1 fbn" "dense ?v1 ?x1 (blocks_for (off + n1))"
      "unat (freeblock s1) + total_blocks (blocks_for off) = unat (freeblock s) + total_blocks (blocks_for (off + n1))"
      "file_addr (mview s) (as_inode din) fbn = 0 \<longrightarrow> ?v1 (file_addr ?v1 ?x1 fbn) = replicate BSIZE 0"
      "meta_kept (mview s) ?v1"
      using r by (auto simp: block_for_result_def bs(1))
    have xz: "x \<noteq> 0" using r1(4,5) fm bs(1) by (simp add: dense_def)
    have wf1: "disk_ok mk_superblock 2 ?v1" "file_wf mk_superblock 2 ?v1 ?x1" using r1(3) unfolding extends_def by blast+
    have dx: "data_block mk_superblock 2 ?v1 x" using wf1(2) fm xz r1(4) by (simp add: file_wf_def)
    note xb = mk_data_block [OF r1(1) dx]
    let ?d = "overwrite (?v1 x) (off mod BSIZE) (take n1 p)"
    have lx: "length (?v1 x) = BSIZE" using dx by (simp add: data_block_def)
    have ld: "length ?d = BSIZE" using lx n1 by (simp add: overwrite_def)
    define s2 where "s2 = wsect x ?d s1"
    note w = mview_wsect [OF r1(1) conjunct1 [OF xb] conjunct2 [OF xb] ld, folded s2_def]
    have cl: "length (take n1 p) = n1" "take n1 p \<noteq> []" using n1 False by auto
    have lim: "off + n1 \<le> MAXFILE * BSIZE" using less.prems(2) n1(2) by linarith
    have wb: "disk_ok mk_superblock 2 (mview s2)" "file_wf mk_superblock 2 (mview s2) ?x1" "written mk_superblock 2 off (take n1 p) ?v1 ?x1 (mview s2) ?x1"
      using write_block [OF wf1, of off "take n1 p"] xz n1(3) lim cl r1(4) unfolding w(2) fbn_def by auto
    have fa: "file_addr (mview s2) ?x1 m = file_addr ?v1 ?x1 m" for m
    proof -
      have "x \<noteq> iaddrs ?x1 ! NDIRECT" using file_wf_addr [OF wf1(2) fm] xz r1(4) by simp
      then show ?thesis by (simp add: w(2) file_addr_def)
    qed
    have z1: "zeroed ?v1 ?x1 off" by (rule zeroed_extends [OF b(4) r1(3,7)])
    have "zeroed (mview s2) ?x1 (off + n1)" using zeroed_written [OF z1 wb(3) fa] cl by simp
    then have b2: "building s2 din1 (off + n1)" using w(1) wb(2) r1(5) fa by (simp add: building_def dense_def)
    have w2: "written mk_superblock 2 off (take n1 p) (mview s) (as_inode din) (mview s2) ?x1"
      using written_trans [OF extends_written [OF r1(3), of off], where cs = "take n1 p"] wb(3) lim cl by simp
    have step: "iappend_loop off p din s = iappend_loop (off + n1) (drop n1 p) din1 s2"
    proof -
      have "rsect x s1 = Inr (?v1 x)" using mview_rsect [OF r1(1)] xb by blast
      then show ?thesis
        using False fm s1 n1(4) cl n1'
        by (subst iappend_loop.simps) (simp add: Let_def s2_def overwrite_def flip: fbn_def)
    qed
    have l: "length (drop n1 p) < length p" "off + n1 + length (drop n1 p) = off + length p" using n1 False by auto
    have "off + n1 + length (drop n1 p) \<le> MAXFILE * BSIZE"
      "unat (freeblock s2) + total_blocks (blocks_for (off + n1 + length (drop n1 p))) \<le> 2000 + total_blocks (blocks_for (off + n1))"
      using less.prems(2,3) l(2) r1(6) w(3) by simp_all
    from less.hyps [OF l(1) b2 this] obtain din' s' where
      s': "iappend_loop (off + n1) (drop n1 p) din1 s2 = Inr (off + length p, din', s')" "building s' din' (off + length p)"
      "freeinode s' = freeinode s2" "meta_kept (mview s2) (mview s')" "written mk_superblock 2 (off + n1) (drop n1 p) (mview s2) ?x1 (mview s') (as_inode din')"
      "unat (freeblock s') + total_blocks (blocks_for (off + n1)) = unat (freeblock s2) + total_blocks (blocks_for (off + length p))"
      unfolding l(2) by blast
    have "written mk_superblock 2 off p (mview s) (as_inode din) (mview s') (as_inode din')"
      using written_trans [OF w2, where cs = "drop n1 p"] s'(5) cl less.prems(2) n1(2) by simp
    moreover have "meta_kept (mview s) (mview s')"
      using meta_kept_trans [OF r1(8)] meta_kept_trans [OF _ s'(4)] meta_kept_write [OF dx] unfolding w(2) by blast
    ultimately show ?thesis using step s' w(3,4) r1(2,6) by auto
  qed
qed

section \<open>Inodes on the image\<close>

definition mnode :: "(u32 \<Rightarrow> block) \<Rightarrow> u32 \<Rightarrow> inode" where
  "mnode v i = as_inode (dinode_at (v (IBLOCK i mk_superblock)) (dip_off i))"

lemma as_inode_dinode_at: "as_inode (dinode_at b off) = get_dinode b off (as_inode d)"
  by (simp add: as_inode_def dinode_at_def get_dinode_def)

lemma iblock_facts:
  assumes "unat i < 200"
  shows "IBLOCK i mk_superblock \<noteq> 46" "unat (IBLOCK i mk_superblock) < 47" "IBLOCK i mk_superblock \<in> meta mk_superblock 2"
    "i < ninodes mk_superblock"
proof -
  show n: "i < ninodes mk_superblock" using assms by (simp add: mk_superblock_eq word_less_nat_alt)
  then show "IBLOCK i mk_superblock \<in> meta mk_superblock 2" by (auto simp: meta_def)
  have "unat i div 16 \<le> 12" using assms by simp
  then have u: "unat (IBLOCK i mk_superblock) \<le> 45" using iblock_mk [of i] assms by simp
  then show "unat (IBLOCK i mk_superblock) < 47" by simp
  show "IBLOCK i mk_superblock \<noteq> 46" using u by auto
qed

lemma winode_correct:
  assumes ok: "mk_ok s" and i: "unat i < 200" and len: "length (d_addrs d) = NDIRECT + 1"
  defines "ib \<equiv> IBLOCK i mk_superblock"
  obtains s' where "winode i d s = Inr s'" "mk_ok s'" "freeblock s' = freeblock s" "freeinode s' = freeinode s"
    "mview s' = (mview s)(ib := put_dinode (as_inode d) (dip_off i) (mview s ib))" "mnode (mview s') i = as_inode d"
    "\<And>j. j \<noteq> i \<Longrightarrow> mnode (mview s') j = mnode (mview s) j"
proof -
  note ib = iblock_facts [OF i, folded ib_def]
  have fb: "unat ib < unat (freeblock s)" using ib(2) ok by (simp add: mk_ok_def)
  have lb: "length (mview s ib) = BSIZE" using mk_disk_ok [OF ok] ib(4) by (simp add: disk_ok_def ib_def)
  have la: "length (iaddrs (as_inode d)) = NDIRECT + 1" using len by simp
  let ?d = "put_dinode (as_inode d) (dip_off i) (mview s ib)"
  note pg = put_get_dinode [OF lb la, where i = i]
  note w = mview_wsect [OF ok fb ib(1) pg(1)]
  have ms: "msb s = mk_superblock" using ok by (simp add: mk_ok_def)
  have "winode i d s = Inr (wsect ib ?d s)"
    using mview_rsect [OF ok fb ib(1)] ms by (simp add: winode_def Let_def flip: ib_def)
  moreover have "mnode (mview (wsect ib ?d s)) i = as_inode d"
    using pg(2) [of "as_inode d"] unfolding mnode_def as_inode_dinode_at [where d = d] w(2) by (simp flip: ib_def)
  moreover have "mnode (mview (wsect ib ?d s)) j = mnode (mview s) j" if "j \<noteq> i" for j
  proof (cases "IBLOCK j mk_superblock = ib")
    case True
    have "j mod IPB \<noteq> i mod IPB"
    proof
      assume m: "j mod IPB = i mod IPB"
      have "j div IPB = i div IPB" using True by (simp add: IBLOCK_def ib_def)
      then show False using m that by (metis word_mod_div_equality)
    qed
    from put_dinode_other [OF lb la this] show ?thesis
      using True unfolding mnode_def as_inode_dinode_at [where d = d] w(2) by simp
  qed (simp add: mnode_def w(2))
  ultimately show ?thesis using w by (intro that [of "wsect ib ?d s"]) simp_all
qed

text \<open>A finished file of type \<open>ty\<close> with the contents \<open>bs\<close>.\<close>

definition node_ok :: "(u32 \<Rightarrow> block) \<Rightarrow> inode \<Rightarrow> u16 \<Rightarrow> u8 list \<Rightarrow> bool" where
  "node_ok v x ty bs \<longleftrightarrow> itype x = ty \<and> imajor x = 0 \<and> iminor x = 0 \<and> inlink x = 1 \<and> unat (isize x) = length bs \<and>
     file_bytes v x = bs \<and> file_wf mk_superblock 2 v x \<and> dense v x (blocks_for (length bs)) \<and> zeroed v x (length bs) \<and>
     length bs \<le> MAXFILE * BSIZE"

lemma blocks_for_less: "m * BSIZE < n \<Longrightarrow> m < blocks_for n"
proof -
  assume "m * BSIZE < n"
  then have "Suc m * BSIZE \<le> n + BSIZE - 1" by (simp add: BSIZE_def)
  then have "Suc m * BSIZE div BSIZE \<le> (n + BSIZE - 1) div BSIZE" by (rule div_le_mono)
  then show ?thesis by (simp add: blocks_for_def BSIZE_def)
qed

lemma node_file_ok: "node_ok v x ty bs \<Longrightarrow> file_ok v x"
proof -
  assume n: "node_ok v x ty bs"
  have "file_addr v x m \<noteq> 0" if "m * BSIZE < unat (isize x)" for m
  proof -
    have "m * BSIZE < MAXFILE * BSIZE" using that n unfolding node_ok_def by linarith
    then have "m < MAXFILE" by simp
    then show ?thesis using n blocks_for_less [of m "length bs"] that by (simp add: node_ok_def dense_def)
  qed
  then show ?thesis using n by (intro file_ok_wf [of mk_superblock 2]) (simp_all add: node_ok_def)
qed

text \<open>A file is not affected by writes to blocks that are not its own.\<close>

lemma node_frame:
  assumes n: "node_ok v x ty bs"
    and same: "\<And>b. b \<in> file_blocks v x \<Longrightarrow> b \<noteq> 0 \<Longrightarrow> v' b = v b \<and> data_block mk_superblock 2 v' b"
  shows "node_ok v' x ty bs" "file_blocks v' x = file_blocks v x"
proof -
  have i: "v' (iaddrs x ! NDIRECT) = v (iaddrs x ! NDIRECT)" if "iaddrs x ! NDIRECT \<noteq> 0"
    using same [of "iaddrs x ! NDIRECT"] that by (simp add: file_blocks_def)
  have fa: "file_addr v' x m = file_addr v x m" for m using i by (simp add: file_addr_def)
  show "file_blocks v' x = file_blocks v x" by (simp add: file_blocks_def fa)
  have own: "v' (file_addr v x m) = v (file_addr v x m)" "data_block mk_superblock 2 v' (file_addr v x m)"
    if "m < MAXFILE" "file_addr v x m \<noteq> 0" for m using same [of "file_addr v x m"] that by (auto simp: file_blocks_def)
  have fb: "file_byte v' x j = file_byte v x j" if "j < MAXFILE * BSIZE" "file_addr v x (j div BSIZE) \<noteq> 0" for j
    using own(1) that by (simp add: file_byte_def fa less_mult_imp_div_less)
  have "file_addr v x (j div BSIZE) \<noteq> 0 \<and> j < MAXFILE * BSIZE" if "j < unat (isize x)" for j
    using that node_file_ok [OF n] div_times_less_eq_dividend [of j BSIZE] unfolding file_ok_def by (metis le_less_trans less_le_trans)
  then have "file_bytes v' x = file_bytes v x" using fb by (simp add: file_bytes_def file_slice_def)
  moreover have "file_wf mk_superblock 2 v' x"
    using n own(2) same [of "iaddrs x ! NDIRECT"] unfolding node_ok_def file_wf_def by (auto simp: fa file_blocks_def)
  moreover have "zeroed v' x (length bs)" using n fb by (simp add: node_ok_def zeroed_def fa)
  ultimately show "node_ok v' x ty bs" using n by (simp add: node_ok_def dense_def fa)
qed

section \<open>Building files\<close>

text \<open>The contents \<open>fs\<close> of the image: file \<open>j\<close> is inode \<open>j + 1\<close>.\<close>

definition node :: "(u32 \<Rightarrow> block) \<Rightarrow> nat \<Rightarrow> inode" where
  "node v j = mnode v (of_nat (Suc j))"

definition files_ok :: "(u32 \<Rightarrow> block) \<Rightarrow> (u16 \<times> u8 list) list \<Rightarrow> bool" where
  "files_ok v fs \<longleftrightarrow> (\<forall>j<length fs. node_ok v (node v j) (fst (fs ! j)) (snd (fs ! j))) \<and>
     (\<forall>j<length fs. \<forall>k<length fs. j \<noteq> k \<longrightarrow> file_blocks v (node v j) \<inter> file_blocks v (node v k) \<subseteq> {0}) \<and>
     (\<forall>j<199. length fs \<le> j \<longrightarrow> itype (node v j) = 0)"

definition file_cost :: "u16 \<times> u8 list \<Rightarrow> nat" where
  "file_cost f = total_blocks (blocks_for (length (snd f)))"

definition mk_inv :: "(u16 \<times> u8 list) list \<Rightarrow> mkfs \<Rightarrow> bool" where
  "mk_inv fs s \<longleftrightarrow> mk_ok s \<and> length fs < 200 \<and> unat (freeinode s) = Suc (length fs) \<and> files_ok (mview s) fs \<and>
     unat (freeblock s) = 47 + sum_list (map file_cost fs)"

definition boot_kept :: "mkfs \<Rightarrow> mkfs \<Rightarrow> bool" where
  "boot_kept s s' \<longleftrightarrow> (\<forall>b. unat b < 33 \<longrightarrow> mview s' b = mview s b)"

lemma boot_kept_refl [simp]: "boot_kept s s"
  by (simp add: boot_kept_def)

lemma boot_kept_trans [trans]: "boot_kept s t \<Longrightarrow> boot_kept t u \<Longrightarrow> boot_kept s u"
  by (simp add: boot_kept_def)

lemma meta_kept_boot: "meta_kept v v' \<Longrightarrow> unat b < 33 \<Longrightarrow> v' b = v b"
proof -
  assume m: "meta_kept v v'" and b: "unat b < 33"
  have "b = 0 \<or> b = 1 \<or> 2 \<le> unat b \<and> unat b \<le> 32"
    using b by (metis One_nat_def Suc_1 less_2_cases_iff less_Suc_eq_le not_less numeral_eq_Suc pred_numeral_simps(3) unat_1 unat_0 word_unat_eq_iff)
  then have "b \<in> meta mk_superblock 2" by (auto simp: meta_def log_region_2)
  moreover have "b \<noteq> 46" using b by auto
  ultimately show ?thesis using m by (simp add: meta_kept_def)
qed

lemma node_small: "j < 199 \<Longrightarrow> unat (of_nat (Suc j) :: u32) = Suc j"
  by (simp add: unat_of_nat take_bit_nat_eq_self del: of_nat_Suc)

lemma node_inj: "j < 199 \<Longrightarrow> k < 199 \<Longrightarrow> j \<noteq> k \<Longrightarrow> (of_nat (Suc j) :: u32) \<noteq> of_nat (Suc k)"
  by (metis node_small nat.inject)

lemma meta_kept_node: "meta_kept v v' \<Longrightarrow> j < 199 \<Longrightarrow> node v' j = node v j"
  using iblock_facts [of "of_nat (Suc j)"] node_small [of j] by (simp add: meta_kept_def node_def mnode_def del: of_nat_Suc)

lemma sum_list_update_nat: "j < length xs \<Longrightarrow> sum_list (xs[j := y]) + xs ! j = sum_list xs + (y :: nat)"
  by (induction xs arbitrary: j) (auto split: nat.splits)

lemma node_block: "node_ok v x ty bs \<Longrightarrow> b \<in> file_blocks v x \<Longrightarrow> b \<noteq> 0 \<Longrightarrow> data_block mk_superblock 2 v b"
  by (auto simp: node_ok_def file_wf_def file_blocks_def)

text \<open>Growing file \<open>j\<close> and writing its inode leaves the other files as they are.\<close>

lemma files_grow:
  assumes ok: "files_ok v fs" and j: "j < length fs" "length fs < 200"
    and w: "written mk_superblock 2 off p v (node v j) v1 x1"
    and db: "\<And>b. data_block mk_superblock 2 v1 b \<Longrightarrow> v' b = v1 b \<and> data_block mk_superblock 2 v' b"
    and other: "\<And>k. k < 199 \<Longrightarrow> k \<noteq> j \<Longrightarrow> node v' k = node v k"
    and new: "node_ok v' (node v' j) ty bs" "file_blocks v' (node v' j) = file_blocks v1 x1"
  shows "files_ok v' (fs[j := (ty, bs)])"
proof -
  have fr: "node_ok v' (node v' k) (fst (fs ! k)) (snd (fs ! k))" "file_blocks v' (node v' k) = file_blocks v (node v k)"
    "file_blocks v' (node v' k) \<inter> file_blocks v' (node v' j) \<subseteq> {0}"
    if k: "k < length fs" "k \<noteq> j" for k
  proof -
    have n: "node_ok v (node v k) (fst (fs ! k)) (snd (fs ! k))" and d: "file_blocks v (node v k) \<inter> file_blocks v (node v j) \<subseteq> {0}"
      using ok j k by (simp_all add: files_ok_def)
    have keep: "data_block mk_superblock 2 v1 b" "v1 b = v b" "b \<notin> file_blocks v1 x1" if "b \<in> file_blocks v (node v k)" "b \<noteq> 0" for b
      using node_block [OF n that] that d w unfolding written_def by blast+
    have s: "v' b = v b \<and> data_block mk_superblock 2 v' b" if "b \<in> file_blocks v (node v k)" "b \<noteq> 0" for b
      using db [OF keep(1) [OF that]] keep(2) [OF that] by simp
    have o: "node v' k = node v k" using other [of k] k j(2) by simp
    show "node_ok v' (node v' k) (fst (fs ! k)) (snd (fs ! k))" unfolding o by (rule node_frame(1) [OF n s])
    show e: "file_blocks v' (node v' k) = file_blocks v (node v k)" unfolding o by (rule node_frame(2) [OF n s])
    show "file_blocks v' (node v' k) \<inter> file_blocks v' (node v' j) \<subseteq> {0}" unfolding e new(2) using keep(3) by blast
  qed
  have "file_blocks v' (node v' k) \<inter> file_blocks v' (node v' l) \<subseteq> {0}" if "k < length fs" "l < length fs" "k \<noteq> l" for k l
  proof (cases "k = j \<or> l = j")
    case True
    then show ?thesis using fr(3) that by blast
  next
    case False
    then show ?thesis using fr(2) that ok by (simp add: files_ok_def)
  qed
  moreover have "itype (node v' k) = 0" if "k < 199" "length fs \<le> k" for k using other [of k] that ok j by (simp add: files_ok_def)
  moreover have "node_ok v' (node v' k) (fst (fs[j := (ty, bs)] ! k)) (snd (fs[j := (ty, bs)] ! k))" if "k < length fs" for k
    using fr(1) [OF that] new(1) that by (cases "k = j") simp_all
  ultimately show ?thesis by (simp add: files_ok_def)
qed

lemma file_wf_isize [simp]: "file_wf sbk st v (x\<lparr>isize := n\<rparr>) = file_wf sbk st v x"
  by (simp add: file_wf_def file_addr_def)

lemma isize_cong [simp]: "file_addr v (x\<lparr>isize := n\<rparr>) = file_addr v x" "file_byte v (x\<lparr>isize := n\<rparr>) = file_byte v x"
    "dense v (x\<lparr>isize := n\<rparr>) m = dense v x m" "zeroed v (x\<lparr>isize := n\<rparr>) m = zeroed v x m"
    "file_blocks v (x\<lparr>isize := n\<rparr>) = file_blocks v x"
proof -
  show a: "file_addr v (x\<lparr>isize := n\<rparr>) = file_addr v x" by (simp add: file_addr_def fun_eq_iff)
  show b: "file_byte v (x\<lparr>isize := n\<rparr>) = file_byte v x" by (simp add: file_byte_def fun_eq_iff a)
  show "dense v (x\<lparr>isize := n\<rparr>) m = dense v x m" "zeroed v (x\<lparr>isize := n\<rparr>) m = zeroed v x m"
    "file_blocks v (x\<lparr>isize := n\<rparr>) = file_blocks v x" by (simp_all add: dense_def zeroed_def file_blocks_def a b)
qed

lemma appended_node:
  assumes n: "node_ok v x ty bs" and w: "written mk_superblock 2 (length bs) p v x v1 x1"
    and wf: "file_wf mk_superblock 2 v1 x1" "dense v1 x1 (blocks_for (length bs + length p))" "zeroed v1 x1 (length bs + length p)"
    and l: "length bs + length p \<le> MAXFILE * BSIZE"
  shows "node_ok v1 (x1\<lparr>isize := of_nat (length bs + length p)\<rparr>) ty (bs @ p)"
proof -
  let ?y = "x1\<lparr>isize := of_nat (length bs + length p)\<rparr>"
  have u: "unat (isize ?y) = length bs + length p"
    using l by (simp add: unat_of_nat take_bit_nat_eq_self MAXFILE_def NDIRECT_def NINDIRECT_def BSIZE_def del: of_nat_add)
  have x: "unat (isize x) = length bs" "file_bytes v x = bs" using n by (simp_all add: node_ok_def)
  have "file_bytes v1 ?y = overwrite bs (length bs) p"
    using written_bytes(1) [OF w node_file_ok [OF n], of ?y] u x l by simp
  then have "file_bytes v1 ?y = bs @ p" by (simp add: overwrite_def)
  moreover have "x1 = x\<lparr>iaddrs := iaddrs x1\<rparr>" using w by (simp add: written_def)
  then have "itype x1 = itype x" "imajor x1 = imajor x" "iminor x1 = iminor x" "inlink x1 = inlink x"
    by (metis inode.select_convs inode.surjective inode.update_convs(11))+
  ultimately show ?thesis using n wf l u by (simp add: node_ok_def)
qed

text \<open>Writing an inode touches neither the blocks of files nor the blocks before the inodes.\<close>

lemma inode_write_frame:
  assumes ok: "mk_ok s" and i: "unat i < 200" and l: "length (d_addrs d) = NDIRECT + 1"
    and v': "v' = (mview s)(IBLOCK i mk_superblock := put_dinode (as_inode d) (dip_off i) (mview s (IBLOCK i mk_superblock)))"
  shows "data_block mk_superblock 2 (mview s) b \<Longrightarrow> v' b = mview s b \<and> data_block mk_superblock 2 v' b"
    "node_ok (mview s) x ty bs \<Longrightarrow> node_ok v' x ty bs \<and> file_blocks v' x = file_blocks (mview s) x"
    "unat c < 33 \<Longrightarrow> v' c = mview s c"
proof -
  have lb: "length (mview s (IBLOCK i mk_superblock)) = BSIZE" using mk_disk_ok [OF ok] iblock_facts(4) [OF i] by (simp add: disk_ok_def)
  have la: "length (iaddrs (as_inode d)) = NDIRECT + 1" using l by simp
  note w = write_inode_block [OF mk_disk_ok [OF ok] iblock_facts(4) [OF i] put_get_dinode(1) [OF lb la, of i], folded v']
  show db: "v' b = mview s b \<and> data_block mk_superblock 2 v' b" if "data_block mk_superblock 2 (mview s) b" for b
    using w(2,5) that by blast
  show "node_ok v' x ty bs \<and> file_blocks v' x = file_blocks (mview s) x" if n: "node_ok (mview s) x ty bs"
    using node_frame [OF n] db node_block [OF n] by blast
  have "33 \<le> unat (IBLOCK i mk_superblock)" using iblock_mk [of i] i by simp
  then show "v' c = mview s c" if "unat c < 33" using that by (auto simp: v')
qed

lemma iappend_correct:
  assumes inv: "mk_inv fs s" and j: "j < length fs" "fs ! j = (ty, bs)" and l: "length bs + length p \<le> MAXFILE * BSIZE"
    and room: "unat (freeblock s) + file_cost (ty, bs @ p) \<le> 2000 + file_cost (ty, bs)"
  shows "\<exists>s'. iappend (of_nat (Suc j)) p s = Inr s' \<and> mk_inv (fs[j := (ty, bs @ p)]) s' \<and> boot_kept s s'"
proof -
  let ?i = "of_nat (Suc j) :: u32" and ?v = "mview s" and ?x = "node (mview s) j" and ?n = "length bs + length p"
  define din where "din = dinode_at (?v (IBLOCK ?i mk_superblock)) (dip_off ?i)"
  have x: "?x = as_inode din" by (simp add: node_def mnode_def din_def)
  have ok: "mk_ok s" "length fs < 200" "files_ok ?v fs" "msb s = mk_superblock" using inv by (simp_all add: mk_inv_def mk_ok_def)
  have j': "j < 199" using j ok(2) by simp
  have iu: "unat ?i < 200" using node_small [OF j'] j' by simp
  note ib = iblock_facts [OF iu]
  have n: "node_ok ?v ?x ty bs" using ok(3) j by (simp add: files_ok_def) (metis fst_conv snd_conv)
  have "47 \<le> unat (freeblock s)" using ok(1) by (simp add: mk_ok_def)
  then have ri: "rinode ?i s = Inr din"
    using mview_rsect [OF ok(1) _ ib(1)] ib(2) by (simp add: rinode_def ok(4) din_def del: of_nat_Suc)
  have sz: "unat (d_size din) = length bs" using n x by (simp add: node_ok_def as_inode_def)
  have "building s din (length bs)" using n x ok(1) by (simp add: building_def node_ok_def)
  then obtain din1 s1 where s1: "iappend_loop (length bs) p din s = Inr (?n, din1, s1)" "building s1 din1 ?n" "freeinode s1 = freeinode s"
    "meta_kept ?v (mview s1)" "written mk_superblock 2 (length bs) p ?v ?x (mview s1) (as_inode din1)"
    "unat (freeblock s1) + total_blocks (blocks_for (length bs)) = unat (freeblock s) + total_blocks (blocks_for ?n)"
    using iappend_loop_appends [of s din "length bs" p] l room x by (auto simp: file_cost_def)
  let ?v1 = "mview s1" and ?x1 = "as_inode din1" and ?d = "din1\<lparr>d_size := of_nat ?n\<rparr>"
  have b1: "mk_ok s1" "file_wf mk_superblock 2 ?v1 ?x1" "dense ?v1 ?x1 (blocks_for ?n)" "zeroed ?v1 ?x1 ?n"
    using s1(2) by (simp_all add: building_def)
  have y: "as_inode ?d = ?x1\<lparr>isize := of_nat ?n\<rparr>" by (simp add: as_inode_def)
  have n1: "node_ok ?v1 (as_inode ?d) ty (bs @ p)" unfolding y by (rule appended_node [OF n s1(5) b1(2-4) l])
  have la: "length (d_addrs ?d) = NDIRECT + 1" using b1(2) by (simp add: file_wf_def)
  from winode_correct [OF b1(1) iu la] obtain s2 where s2: "winode ?i ?d s1 = Inr s2" "mk_ok s2" "freeblock s2 = freeblock s1"
    "freeinode s2 = freeinode s1" "mview s2 = ?v1(IBLOCK ?i mk_superblock := put_dinode (as_inode ?d) (dip_off ?i) (?v1 (IBLOCK ?i mk_superblock)))"
    "mnode (mview s2) ?i = as_inode ?d" "\<And>k. k \<noteq> ?i \<Longrightarrow> mnode (mview s2) k = mnode ?v1 k" by blast
  note fr = inode_write_frame [OF b1(1) iu la s2(5)]
  have other: "node (mview s2) k = node ?v k" if "k < 199" "k \<noteq> j" for k
  proof -
    have "node (mview s2) k = node ?v1 k" using s2(7) node_inj [OF that(1) j' that(2)] by (simp add: node_def del: of_nat_Suc)
    then show ?thesis using meta_kept_node [OF s1(4) that(1)] by simp
  qed
  have own: "node (mview s2) j = as_inode ?d" using s2(6) by (simp add: node_def)
  have "files_ok (mview s2) (fs[j := (ty, bs @ p)])"
    by (rule files_grow [OF ok(3) j(1) ok(2) s1(5) fr(1) other]) (use fr(2) [OF n1] own y in simp_all)
  moreover have "sum_list (map file_cost (fs[j := (ty, bs @ p)])) + file_cost (ty, bs) = sum_list (map file_cost fs) + file_cost (ty, bs @ p)"
    using sum_list_update_nat [of j "map file_cost fs" "file_cost (ty, bs @ p)"] j by (simp add: map_update)
  then have "unat (freeblock s2) = 47 + sum_list (map file_cost (fs[j := (ty, bs @ p)]))"
    using s2(3) s1(6) inv by (simp add: mk_inv_def file_cost_def)
  ultimately have "mk_inv (fs[j := (ty, bs @ p)]) s2" using inv s2 s1(3) by (simp add: mk_inv_def)
  moreover have "boot_kept s s2" using meta_kept_boot [OF s1(4)] fr(3) by (simp add: boot_kept_def)
  moreover have "iappend ?i p s = Inr s2" using ri s1(1) sz s2(1) by (simp add: iappend_def del: of_nat_Suc)
  ultimately show ?thesis by blast
qed

lemma mk_inv_room: "mk_inv fs s \<Longrightarrow> unat (freeblock s) = 47 + sum_list (map file_cost fs)"
  by (simp add: mk_inv_def)

text \<open>A new inode is an empty file.\<close>

lemma mk_ialloc_correct:
  assumes inv: "mk_inv fs s" and n: "length fs < 199"
  shows "\<exists>s'. mk_ialloc ty s = Inr (of_nat (Suc (length fs)), s') \<and> mk_inv (fs @ [(ty, [])]) s' \<and> boot_kept s s'"
proof -
  let ?i = "of_nat (Suc (length fs)) :: u32" and ?n = "length fs"
  let ?d = "\<lparr>d_type = ty, d_major = 0, d_minor = 0, d_nlink = 1, d_size = 0, d_addrs = replicate (NDIRECT + 1) 0\<rparr>"
  let ?s = "s\<lparr>freeinode := freeinode s + 1\<rparr>" and ?ib = "IBLOCK (of_nat (Suc (length fs))) mk_superblock"
  have ok: "mk_ok s" "files_ok (mview s) fs" using inv by (simp_all add: mk_inv_def)
  have fi: "freeinode s = ?i" using inv node_small [OF n] by (simp add: mk_inv_def word_unat_eq_iff)
  have iu: "unat ?i < 200" using node_small [OF n] n by simp
  have ok1: "mk_ok ?s" "mview ?s = mview s" using ok(1) by (simp_all add: mk_ok_def mview_def)
  have la: "length (d_addrs ?d) = NDIRECT + 1" by simp
  from winode_correct [OF ok1(1) iu la] obtain s2 where w: "winode ?i ?d ?s = Inr s2" "mk_ok s2" "freeblock s2 = freeblock ?s"
    "freeinode s2 = freeinode ?s" "mview s2 = (mview ?s)(?ib := put_dinode (as_inode ?d) (dip_off ?i) (mview ?s ?ib))"
    "mnode (mview s2) ?i = as_inode ?d" "\<And>k. k \<noteq> ?i \<Longrightarrow> mnode (mview s2) k = mnode (mview ?s) k" by blast
  have f1: "freeblock ?s = freeblock s" "freeinode ?s = freeinode s + 1" by simp_all
  note s2 = w [unfolded ok1(2) f1]
  note frame = inode_write_frame [OF ok(1) iu la s2(5)]
  have other: "node (mview s2) k = node (mview s) k" if "k < 199" "k \<noteq> ?n" for k
    using s2(7) node_inj [OF that(1) n that(2)] by (simp add: node_def del: of_nat_Suc)
  have own: "node (mview s2) ?n = as_inode ?d" using s2(6) by (simp add: node_def)
  have fa: "file_addr (mview s2) (as_inode ?d) m = 0" if "m < MAXFILE" for m by (simp add: file_addr_def NDIRECT_def nth_Cons')
  have "(0 # replicate NDIRECT 0) ! NDIRECT = (0 :: u32)" by (simp add: NDIRECT_def)
  then have new: "node_ok (mview s2) (as_inode ?d) ty []" "file_blocks (mview s2) (as_inode ?d) \<subseteq> {0}"
    using fa by (auto simp: node_ok_def file_wf_def file_blocks_def file_bytes_def file_slice_def dense_def zeroed_def blocks_for_def
        BSIZE_def as_inode_def less_mult_imp_div_less)
  have fr: "node_ok (mview s2) (node (mview s2) k) (fst (fs ! k)) (snd (fs ! k))"
    "file_blocks (mview s2) (node (mview s2) k) = file_blocks (mview s) (node (mview s) k)" if k: "k < ?n" for k
  proof -
    have nk: "node_ok (mview s) (node (mview s) k) (fst (fs ! k)) (snd (fs ! k))" using ok(2) k by (simp add: files_ok_def)
    have o: "node (mview s2) k = node (mview s) k" using other [of k] k n by simp
    show "node_ok (mview s2) (node (mview s2) k) (fst (fs ! k)) (snd (fs ! k))"
      "file_blocks (mview s2) (node (mview s2) k) = file_blocks (mview s) (node (mview s) k)"
      unfolding o using frame(2) [OF nk] by blast+
  qed
  have "files_ok (mview s2) (fs @ [(ty, [])])"
    unfolding files_ok_def
  proof (intro conjI allI impI)
    fix k assume "k < length (fs @ [(ty, [])])"
    then show "node_ok (mview s2) (node (mview s2) k) (fst ((fs @ [(ty, [])]) ! k)) (snd ((fs @ [(ty, [])]) ! k))"
      using fr(1) new(1) own by (auto simp: nth_append less_Suc_eq)
  next
    fix k l assume "k < length (fs @ [(ty, [])])" "l < length (fs @ [(ty, [])])" "k \<noteq> l"
    then consider "k = ?n" | "l = ?n" | "k < ?n" "l < ?n" by fastforce
    then show "file_blocks (mview s2) (node (mview s2) k) \<inter> file_blocks (mview s2) (node (mview s2) l) \<subseteq> {0}"
    proof cases
      case 3
      then show ?thesis using fr(2) ok(2) \<open>k \<noteq> l\<close> by (simp add: files_ok_def)
    qed (use new(2) own in auto)
  next
    fix k assume "k < (199 :: nat)" "length (fs @ [(ty, [])]) \<le> k"
    then show "itype (node (mview s2) k) = 0" using other [of k] ok(2) by (simp add: files_ok_def)
  qed
  moreover have "unat (freeinode s2) = Suc (Suc ?n)"
    using inv n s2(4) by (simp add: mk_inv_def unat_word_ariths)
  moreover have "file_cost (ty, []) = 0" by (simp add: file_cost_def total_blocks_def blocks_for_def BSIZE_def)
  ultimately have "mk_inv (fs @ [(ty, [])]) s2" using inv s2(2,3) n by (simp add: mk_inv_def)
  moreover have "boot_kept s s2" using frame(3) by (simp add: boot_kept_def)
  moreover have "mk_ialloc ty s = Inr (?i, s2)" using s2(1) fi by (simp add: mk_ialloc_def Let_def)
  ultimately show ?thesis by blast
qed

lemma file_cost_mono: "file_cost (ty, bs) \<le> file_cost (ty', bs @ p)"
  by (simp add: file_cost_def total_blocks_mono blocks_for_mono)

lemma append_reads_correct:
  "\<lbrakk>mk_inv fs s; j < length fs; fs ! j = (ty, bs); length bs + length (concat reads) \<le> MAXFILE * BSIZE;
    unat (freeblock s) + file_cost (ty, bs @ concat reads) \<le> 2000 + file_cost (ty, bs)\<rbrakk> \<Longrightarrow>
   \<exists>s'. append_reads (of_nat (Suc j)) reads s = Inr s' \<and> mk_inv (fs[j := (ty, bs @ concat reads)]) s' \<and> boot_kept s s'"
proof (induction reads arbitrary: fs s bs)
  case Nil
  then show ?case by (metis append_Nil2 append_reads.simps(1) boot_kept_refl concat.simps(1) list_update_id)
next
  case (Cons buf rest)
  have m: "file_cost (ty, bs @ buf) \<le> file_cost (ty, bs @ concat (buf # rest))" using file_cost_mono [of ty "bs @ buf" ty "concat rest"] by simp
  obtain s1 where s1: "iappend (of_nat (Suc j)) buf s = Inr s1" "mk_inv (fs[j := (ty, bs @ buf)]) s1" "boot_kept s s1"
    using iappend_correct [OF Cons.prems(1-3), of buf] Cons.prems(4,5) m by auto
  have "unat (freeblock s1) + file_cost (ty, bs) = unat (freeblock s) + file_cost (ty, bs @ buf)"
    using mk_inv_room [OF Cons.prems(1)] mk_inv_room [OF s1(2)] Cons.prems(2,3)
      sum_list_update_nat [of j "map file_cost fs" "file_cost (ty, bs @ buf)"] by (simp add: map_update)
  then obtain s2 where "append_reads (of_nat (Suc j)) rest s1 = Inr s2" "mk_inv ((fs[j := (ty, bs @ buf)])[j := (ty, (bs @ buf) @ concat rest)]) s2"
      "boot_kept s1 s2"
    using Cons.IH [OF s1(2), of "bs @ buf"] Cons.prems(2,4,5) by auto
  then show ?case using s1 boot_kept_trans by (fastforce simp del: of_nat_Suc)
qed


section \<open>The files of the host\<close>

definition mk_name :: "u8 list \<Rightarrow> u8 list" where
  "mk_name path = skip_underscore (short_name path)"

text \<open>A file that can be opened, has a name for the root directory and is not too large; its contents.\<close>

definition file_given :: "(u8 list \<Rightarrow> u8 list list option) \<Rightarrow> u8 list \<Rightarrow> bool" where
  "file_given host path \<longleftrightarrow> slash \<notin> set (short_name path) \<and> length (mk_name path) \<le> DIRSIZ \<and> host path \<noteq> None \<and>
     length (concat (the (host path))) \<le> MAXFILE * BSIZE"

definition file_of :: "(u8 list \<Rightarrow> u8 list list option) \<Rightarrow> u8 list \<Rightarrow> u16 \<times> u8 list" where
  "file_of host path = (T_FILE, concat (the (host path)))"

text \<open>The entries of the root directory for the files from inode \<open>i\<close> on.\<close>

fun entries_from :: "nat \<Rightarrow> u8 list list \<Rightarrow> u8 list" where
  "entries_from i [] = []"
| "entries_from i (name # names) = dirent_bytes (of_nat i) name @ entries_from (Suc i) names"

lemma length_dirent [simp]: "length (dirent_bytes i name) = 16"
  by (simp add: dirent_bytes_def DIRSIZ_def)

lemma length_entries [simp]: "length (entries_from i names) = 16 * length names"
  by (induction names arbitrary: i) auto

lemma add_file_correct:
  assumes inv: "mk_inv ((T_DIR, rt) # fs) s" and g: "file_given host path" and n: "length fs < 198" "length rt + 16 \<le> MAXFILE * BSIZE"
  defines "de \<equiv> dirent_bytes (of_nat (length fs + 2)) (mk_name path)"
  assumes room: "47 + file_cost (T_DIR, rt @ de) + sum_list (map file_cost fs) + file_cost (file_of host path) \<le> 2000"
  shows "\<exists>s'. add_file host 1 path s = Inr s' \<and> mk_inv ((T_DIR, rt @ de) # fs @ [file_of host path]) s' \<and> boot_kept s s'"
proof -
  obtain reads where r: "host path = Some reads" using g by (auto simp: file_given_def)
  then have f: "file_of host path = (T_FILE, concat reads)" "length (concat reads) \<le> MAXFILE * BSIZE"
    using g by (simp_all add: file_of_def file_given_def)
  have c0: "file_cost (T_FILE, []) = 0" by (simp add: file_cost_def total_blocks_def blocks_for_def BSIZE_def)
  let ?fs1 = "((T_DIR, rt) # fs) @ [(T_FILE, [])]" and ?fs2 = "(T_DIR, rt @ de) # fs @ [(T_FILE, [])]"
  obtain s1 where s1: "mk_ialloc T_FILE s = Inr (of_nat (length fs + 2), s1)" "mk_inv ?fs1 s1" "boot_kept s s1"
    using mk_ialloc_correct [OF inv, of T_FILE] n(1) by auto
  have fb1: "unat (freeblock s1) = 47 + file_cost (T_DIR, rt) + sum_list (map file_cost fs)"
    using mk_inv_room [OF s1(2)] c0 by simp
  have "\<exists>s2. iappend (of_nat (Suc 0)) de s1 = Inr s2 \<and> mk_inv (?fs1[0 := (T_DIR, rt @ de)]) s2 \<and> boot_kept s1 s2"
    by (rule iappend_correct [OF s1(2)]) (use n(2) room fb1 in \<open>simp_all add: de_def\<close>)
  then obtain s2 where s2: "iappend 1 de s1 = Inr s2" "mk_inv ?fs2 s2" "boot_kept s1 s2" by auto
  have fb2: "unat (freeblock s2) = 47 + file_cost (T_DIR, rt @ de) + sum_list (map file_cost fs)"
    using mk_inv_room [OF s2(2)] c0 by simp
  have "\<exists>s3. append_reads (of_nat (Suc (Suc (length fs)))) reads s2 = Inr s3 \<and>
      mk_inv (?fs2[Suc (length fs) := (T_FILE, [] @ concat reads)]) s3 \<and> boot_kept s2 s3"
    by (rule append_reads_correct [OF s2(2)]) (use f fb2 room c0 in simp_all)
  then obtain s3 where s3: "append_reads (of_nat (length fs + 2)) reads s2 = Inr s3"
      "mk_inv ((T_DIR, rt @ de) # fs @ [(T_FILE, concat reads)]) s3" "boot_kept s2 s3"
    by (auto simp: list_update_append)
  have "add_file host 1 path s = Inr s3"
    using g r s1(1) s2(1) s3(1) by (simp add: add_file_def Let_def file_given_def de_def mk_name_def del: of_nat_add)
  moreover have "boot_kept s s3" using s1(3) s2(3) s3(3) boot_kept_trans by blast
  ultimately show ?thesis using s3(2) f(1) by simp
qed

lemma add_files_correct:
  "\<lbrakk>mk_inv ((T_DIR, rt) # fs) s; \<forall>p\<in>set paths. file_given host p; length fs + length paths \<le> 198; length rt + 16 * length paths \<le> MAXFILE * BSIZE;
    47 + file_cost (T_DIR, rt @ entries_from (length fs + 2) (map mk_name paths)) + sum_list (map file_cost (fs @ map (file_of host) paths)) \<le> 2000\<rbrakk> \<Longrightarrow>
   \<exists>s'. add_files host 1 paths s = Inr s' \<and>
     mk_inv ((T_DIR, rt @ entries_from (length fs + 2) (map mk_name paths)) # fs @ map (file_of host) paths) s' \<and> boot_kept s s'"
proof (induction paths arbitrary: rt fs s)
  case (Cons path rest)
  let ?de = "dirent_bytes (of_nat (length fs + 2)) (mk_name path)"
  have m: "file_cost (T_DIR, rt @ ?de) \<le> file_cost (T_DIR, rt @ ?de @ entries_from (length fs + 3) (map mk_name rest))"
    using file_cost_mono [of T_DIR "rt @ ?de" T_DIR "entries_from (length fs + 3) (map mk_name rest)"] by simp
  have "\<exists>s'. add_file host 1 path s = Inr s' \<and> mk_inv ((T_DIR, rt @ ?de) # fs @ [file_of host path]) s' \<and> boot_kept s s'"
    by (rule add_file_correct [OF Cons.prems(1)]) (use Cons.prems(2-5) m in \<open>simp_all add: numeral_3_eq_3\<close>)
  then obtain s1 where s1: "add_file host 1 path s = Inr s1" "mk_inv ((T_DIR, rt @ ?de) # fs @ [file_of host path]) s1" "boot_kept s s1" by blast
  have "\<exists>s2. add_files host 1 rest s1 = Inr s2 \<and>
     mk_inv ((T_DIR, (rt @ ?de) @ entries_from (length (fs @ [file_of host path]) + 2) (map mk_name rest)) # (fs @ [file_of host path]) @ map (file_of host) rest) s2 \<and>
     boot_kept s1 s2"
    by (rule Cons.IH [OF s1(2)]) (use Cons.prems(2-5) in simp_all)
  then show ?case using s1 boot_kept_trans by fastforce
qed simp


section \<open>The directory as a table\<close>

text \<open>The first entry in use with a name, as the lookup of the name in the list of the entries in use.\<close>

definition dir_table :: "u8 list list \<Rightarrow> (u8 list \<times> u16) list" where
  "dir_table es = map (\<lambda>de. (name_of (drop 2 de), de_inum de)) (filter (\<lambda>de. de_inum de \<noteq> 0) es)"

lemma dir_find_Cons: "dir_find name (e # es) = (if entry_named name e then Some 0 else map_option Suc (dir_find name es))"
proof -
  have "[0..<length (e # es)] = 0 # map Suc [0..<length es]" by (simp add: upt_conv_Cons map_Suc_upt del: upt_Suc)
  moreover have "find P (map Suc xs) = map_option Suc (find (P \<circ> Suc) xs)" for P xs by (induction xs) auto
  ultimately show ?thesis by (simp add: dir_find_def comp_def)
qed

lemma dir_find_table: "map_option (\<lambda>k. de_inum (es ! k)) (dir_find name es) = map_of (dir_table es) (name_of name)"
proof (induction es)
  case (Cons e es)
  have "map_option (\<lambda>k. de_inum ((e # es) ! k)) (map_option Suc (dir_find name es)) = map_option (\<lambda>k. de_inum (es ! k)) (dir_find name es)"
    by (simp add: option.map_comp comp_def)
  then show ?case using Cons by (simp add: dir_find_Cons dir_table_def entry_named_def)
qed (simp add: dir_find_def dir_table_def)

lemma dir_entries_Cons: "length d = 16 \<Longrightarrow> dir_entries (d @ bs) = d # dir_entries bs"
  by (rule nth_equalityI) (auto simp: dir_entries_nth nth_Cons split: nat.splits)

lemma dir_table_Cons: "length d = 16 \<Longrightarrow> de_inum d \<noteq> 0 \<Longrightarrow>
    dir_table (dir_entries (d @ bs)) = (name_of (drop 2 d), de_inum d) # dir_table (dir_entries bs)"
  by (simp add: dir_entries_Cons dir_table_def)

lemma of_le_zeros [simp]: "of_le_bytes (replicate n 0) = 0"
  by (induction n) simp_all

lemma dir_table_zeros: "dir_table (dir_entries (replicate n 0)) = []"
  by (auto simp: dir_table_def dir_entries_def filter_empty_conv de_inum_def get16_def)

lemma dirent_props:
  assumes "length name \<le> DIRSIZ" "0 \<notin> set name"
  shows "name_of (drop 2 (dirent_bytes i name)) = name" "de_inum (dirent_bytes i name) = ucast i"
proof -
  have "takeWhile (\<lambda>c. c \<noteq> 0) (name @ replicate n 0) = name" for n
    using assms(2) by (cases n) (auto simp: takeWhile_append takeWhile_eq_all_conv)
  then show "name_of (drop 2 (dirent_bytes i name)) = name" using assms(1) by (simp add: name_of_def dirent_bytes_def min_def)
  show "de_inum (dirent_bytes i name) = ucast i"
    by (simp add: de_inum_def dirent_bytes_def get16_def of_le_bytes_le_bytes take_bit_word_eq_self)
qed

lemma dir_table_entries:
  "\<lbrakk>\<forall>name\<in>set names. length name \<le> DIRSIZ \<and> 0 \<notin> set name; 0 < i; i + length names < 65536\<rbrakk> \<Longrightarrow>
   dir_table (dir_entries (entries_from i names @ bs)) = zip names (map of_nat [i..<i + length names]) @ dir_table (dir_entries bs)"
proof (induction names arbitrary: i)
  case (Cons name names)
  have u: "ucast (of_nat i :: u32) = (of_nat i :: u16)"
    using Cons.prems(3) by (simp add: unsigned_of_nat take_bit_nat_eq_self)
  then have "de_inum (dirent_bytes (of_nat i) name) = of_nat i" using dirent_props(2) Cons.prems(1) by simp
  moreover have "(of_nat i :: u16) \<noteq> 0" using Cons.prems(2,3) by (simp add: word_unat_eq_iff unat_of_nat take_bit_nat_eq_self)
  moreover have "[i..<i + length (name # names)] = i # [Suc i..<Suc i + length names]" by (simp add: upt_conv_Cons del: upt_Suc)
  ultimately show ?case using Cons dirent_props(1) by (simp add: dir_table_Cons)
qed simp


section \<open>The empty image\<close>

text \<open>The superblock as \<open>readsb\<close> of the kernel decodes it.\<close>

definition sb_at :: "block \<Rightarrow> superblock" where
  "sb_at d = \<lparr>magic = get32 d 0, fssize = get32 d 4, nblocks = get32 d 8, ninodes = get32 d 12,
     nlog = get32 d 16, logstart = get32 d 20, inodestart = get32 d 24, bmapstart = get32 d 28\<rparr>"

lemma sb_at_bytes: "sb_at (sb_bytes b @ d) = b"
proof -
  have w: "get32 (a @ le_bytes 4 x @ c) (length a) = x" for a c x by (simp add: get32_def of_le_bytes_le_bytes take_bit_word_eq_self)
  let ?l = "\<lambda>f. le_bytes 4 (f b)"
  show ?thesis
    using w [of "[]" "magic b"] w [of "?l magic" "fssize b"] w [of "?l magic @ ?l fssize" "nblocks b"]
      w [of "?l magic @ ?l fssize @ ?l nblocks" "ninodes b"] w [of "?l magic @ ?l fssize @ ?l nblocks @ ?l ninodes" "nlog b"]
      w [of "?l magic @ ?l fssize @ ?l nblocks @ ?l ninodes @ ?l nlog" "logstart b"]
      w [of "?l magic @ ?l fssize @ ?l nblocks @ ?l ninodes @ ?l nlog @ ?l logstart" "inodestart b"]
      w [of "?l magic @ ?l fssize @ ?l nblocks @ ?l ninodes @ ?l nlog @ ?l logstart @ ?l inodestart" "bmapstart b"]
    by (simp add: sb_at_def sb_bytes_def)
qed

lemma zero_sectors_img:
  "length (img s) = i \<Longrightarrow> i + n \<le> 2000 \<Longrightarrow> zero_sectors i n s = s\<lparr>img := img s @ replicate n (replicate BSIZE 0)\<rparr>"
proof (induction n arbitrary: i s)
  case (Suc n)
  have u: "unat (of_nat i :: u32) = i" using Suc.prems(2) by (simp add: unat_of_nat take_bit_nat_eq_self)
  then have "seek_to (of_nat i) = i" using seek_to_small [of "of_nat i"] Suc.prems(2) by simp
  then have "wsect (of_nat i) (replicate BSIZE 0) s = s\<lparr>img := img s @ [replicate BSIZE 0]\<rparr>"
    using Suc.prems(1) by (simp add: wsect_def list_update_append)
  then show ?case using Suc.IH [of "s\<lparr>img := img s @ [replicate BSIZE 0]\<rparr>" "Suc i"] Suc.prems by simp
qed simp

lemma msb_zero_sectors: "msb (zero_sectors i n s) = msb s"
  by (induction n arbitrary: i s) (simp_all add: wsect_def)

definition empty_image :: mkfs where
  "empty_image = wsect 1 (sb_bytes mk_superblock @ replicate (BSIZE - 32) 0)
     (zero_sectors 0 FSSIZE \<lparr>img = [], msb = mk_superblock, freeinode = 1, freeblock = nmeta\<rparr>)"

lemma empty_image_eq: "empty_image = \<lparr>img = (replicate 2000 (replicate BSIZE 0))[1 := sb_bytes mk_superblock @ replicate (BSIZE - 32) 0],
    msb = mk_superblock, freeinode = 1, freeblock = 47\<rparr>"
proof -
  have "zero_sectors 0 FSSIZE \<lparr>img = [], msb = mk_superblock, freeinode = 1, freeblock = nmeta\<rparr> =
      \<lparr>img = replicate 2000 (replicate BSIZE 0), msb = mk_superblock, freeinode = 1, freeblock = 47\<rparr>"
    by (subst zero_sectors_img) (simp_all add: FSSIZE_def mkfs_consts)
  moreover have "seek_to 1 = 1" by (simp add: seek_to_small)
  ultimately show ?thesis by (simp add: empty_image_def wsect_def)
qed

lemma empty_image_inv: "mk_inv [] empty_image"
proof -
  have l: "length (sb_bytes mk_superblock) = 32" by (simp add: sb_bytes_def)
  then have ok: "mk_ok empty_image" by (auto simp: mk_ok_def empty_image_eq nth_list_update BSIZE_def)
  have "itype (node (mview empty_image) j) = 0" if j: "j < 199" for j
  proof -
    let ?b = "IBLOCK (of_nat (Suc j)) mk_superblock"
    have i: "unat (of_nat (Suc j) :: u32) < 200" using node_small [OF j] j by simp
    have "unat ?b \<ge> 33" "unat ?b < 47" "?b \<noteq> 46" using iblock_facts [OF i] iblock_mk [of "of_nat (Suc j)"] i by simp_all
    then have "mview empty_image ?b = replicate BSIZE 0" by (simp add: mview_def empty_image_eq nth_list_update del: of_nat_Suc)
    then show ?thesis by (simp add: node_def mnode_def as_inode_def dinode_at_def get16_def del: of_nat_Suc)
  qed
  then have "files_ok (mview empty_image) []" by (simp add: files_ok_def)
  then show ?thesis using ok by (simp add: mk_inv_def empty_image_eq)
qed

section \<open>The finished image\<close>

definition mk_image :: "mkfs \<Rightarrow> u32 \<Rightarrow> block" where
  "mk_image s b = img s ! unat b"

lemma mk_balloc_image:
  assumes "mk_ok s"
  shows "\<exists>s'. mk_balloc (freeblock s) s = Inr s' \<and> mk_image s' = mview s \<and> length (img s') = 2000"
proof -
  let ?f = "freeblock s"
  have ok: "unat ?f \<le> 2000" "length (img s) = 2000" "msb s = mk_superblock" using assms by (simp_all add: mk_ok_def)
  have fu: "int (unat ?f) \<le> 2000" using ok(1) by linarith
  then have s: "sint ?f = int (unat ?f)"
    unfolding sint_uint uint_nat by (intro signed_take_bit_int_eq_self) (simp_all add: order_trans [OF _ uint_ge_0])
  have "bmapstart (msb s) = 46" "seek_to 46 = 46" using ok(3) by (simp_all add: mk_superblock_eq seek_to_small)
  then have "mk_balloc ?f s = Inr (s\<lparr>img := (img s)[46 := set_bits 0 (unat ?f) (replicate BSIZE 0)]\<rparr>)"
    using ok s fu by (simp add: mk_balloc_def wsect_def BPB_def)
  moreover have "mk_image (s\<lparr>img := (img s)[46 := set_bits 0 (unat ?f) (replicate BSIZE 0)]\<rparr>) = mview s"
  proof
    fix b :: u32
    have "unat b \<noteq> 46" if "b \<noteq> 46" using that by (auto simp: word_unat_eq_iff)
    then show "mk_image (s\<lparr>img := (img s)[46 := set_bits 0 (unat ?f) (replicate BSIZE 0)]\<rparr>) b = mview s b"
      using ok(2) by (cases "b = 46") (simp_all add: mk_image_def mview_def)
  qed
  ultimately show ?thesis using ok(2) by auto
qed


text \<open>Rounding up the size of a directory whose last block is not full appends zeros.\<close>

lemma blocks_for_split: "r < BSIZE \<Longrightarrow> blocks_for (q * BSIZE + r) = (if r = 0 then q else Suc q)"
  unfolding blocks_for_def by (intro div_nat_eqI) (auto simp: BSIZE_def)

lemma root_padded:
  assumes n: "node_ok v x ty bs" and sz: "length bs + BSIZE \<le> MAXFILE * BSIZE"
  defines "m \<equiv> (length bs div BSIZE + 1) * BSIZE"
  defines "y \<equiv> x\<lparr>isize := of_nat m\<rparr>"
  shows "unat (isize y) = m" "file_ok v y \<longleftrightarrow> length bs mod BSIZE \<noteq> 0"
    "length bs mod BSIZE \<noteq> 0 \<Longrightarrow> file_bytes v y = bs @ replicate (BSIZE - length bs mod BSIZE) 0"
proof -
  let ?q = "length bs div BSIZE"
  have B: "length bs = ?q * BSIZE + length bs mod BSIZE" "length bs mod BSIZE < BSIZE" by (simp_all add: BSIZE_def)
  have "m = ?q * BSIZE + BSIZE" by (simp add: m_def)
  then have m: "m = length bs + (BSIZE - length bs mod BSIZE)" using B by linarith
  then have ml: "m \<le> MAXFILE * BSIZE" using sz by linarith
  then show sy: "unat (isize y) = m"
    by (simp add: y_def unat_of_nat take_bit_nat_eq_self xv6_const BSIZE_def)
  have qm: "?q < MAXFILE" using sz B by (simp add: less_mult_imp_div_less BSIZE_def)
  have qb: "blocks_for (length bs) = (if length bs mod BSIZE = 0 then ?q else Suc ?q)"
    using blocks_for_split [OF B(2), of ?q] B(1) by metis
  have fa: "file_addr v y k = file_addr v x k" for k by (simp add: y_def)
  have de: "file_addr v x k \<noteq> 0 \<longleftrightarrow> k < blocks_for (length bs)" if "k < MAXFILE" for k
    using n that by (simp add: node_ok_def dense_def)
  have "file_ok v y" if "length bs mod BSIZE \<noteq> 0"
  proof (rule file_ok_wf [of mk_superblock 2])
    show "file_wf mk_superblock 2 v y" using n by (simp add: y_def node_ok_def)
    show "unat (isize y) \<le> MAXFILE * BSIZE" using sy ml by simp
    fix k assume "k * BSIZE < unat (isize y)"
    then have "k < Suc ?q" by (simp add: sy m_def BSIZE_def)
    then show "file_addr v y k \<noteq> 0" using de [of k] qb qm that by (simp add: fa)
  qed
  moreover have "\<not> file_ok v y" if "length bs mod BSIZE = 0"
    using de [OF qm] qb that sy by (auto simp: file_ok_def fa m_def BSIZE_def intro!: exI [of _ ?q])
  ultimately show "file_ok v y \<longleftrightarrow> length bs mod BSIZE \<noteq> 0" by blast
  assume nz: "length bs mod BSIZE \<noteq> 0"
  show "file_bytes v y = bs @ replicate (BSIZE - length bs mod BSIZE) 0"
  proof (rule nth_equalityI)
    show "length (file_bytes v y) = length (bs @ replicate (BSIZE - length bs mod BSIZE) 0)" using sy m by simp
    fix i assume "i < length (file_bytes v y)"
    then have i: "i < m" using sy by simp
    then have yi: "file_bytes v y ! i = file_byte v x i" using sy by (simp add: file_bytes_def file_slice_def) (simp add: y_def)
    show "file_bytes v y ! i = (bs @ replicate (BSIZE - length bs mod BSIZE) 0) ! i"
    proof (cases "i < length bs")
      case True
      have "file_bytes v x ! i = bs ! i" "unat (isize x) = length bs" using n by (simp_all add: node_ok_def)
      then show ?thesis using True yi by (simp add: nth_append file_bytes_def file_slice_def)
    next
      case False
      have "i div BSIZE < Suc ?q" using i unfolding m_def by (simp add: less_mult_imp_div_less)
      then have "file_addr v x (i div BSIZE) \<noteq> 0" using de [of "i div BSIZE"] qb qm nz by simp
      then have "file_byte v x i = 0" using n False i ml by (simp add: node_ok_def zeroed_def)
      then show ?thesis using yi False i m by (simp add: nth_append)
    qed
  qed
qed


lemma unat_of: "unat w = k \<Longrightarrow> w = of_nat k" for w :: u32
  by auto

lemma fix_root_correct:
  assumes inv: "mk_inv ((T_DIR, rt) # fs) s" and l: "length rt + BSIZE \<le> MAXFILE * BSIZE"
  shows "\<exists>s' v x. fix_root_size 1 s = Inr s' \<and> mk_ok s' \<and> freeblock s' = freeblock s \<and> boot_kept s s' \<and> v = mview s' \<and>
    node v 0 = x\<lparr>isize := of_nat ((length rt div BSIZE + 1) * BSIZE)\<rparr> \<and> node_ok v x T_DIR rt \<and>
    (\<forall>k<length fs. node_ok v (node v (Suc k)) (fst (fs ! k)) (snd (fs ! k))) \<and>
    (\<forall>i\<le>length fs. \<forall>j\<le>length fs. i \<noteq> j \<longrightarrow> file_blocks v (node v i) \<inter> file_blocks v (node v j) \<subseteq> {0}) \<and>
    (\<forall>j<199. length fs < j \<longrightarrow> itype (node v j) = 0)"
proof -
  define din where "din = dinode_at (mview s (IBLOCK 1 mk_superblock)) (dip_off 1)"
  have ok: "mk_ok s" "msb s = mk_superblock" using inv by (simp_all add: mk_inv_def mk_ok_def)
  define x where "x = node (mview s) 0"
  have xd: "x = as_inode din" by (simp add: x_def node_def mnode_def din_def)
  have fo: "node_ok (mview s) (node (mview s) j) (fst (((T_DIR, rt) # fs) ! j)) (snd (((T_DIR, rt) # fs) ! j))" if "j \<le> length fs" for j
    using inv that by (simp add: mk_inv_def files_ok_def less_Suc_eq_le)
  have nx: "node_ok (mview s) x T_DIR rt" using fo [of 0] by (simp add: x_def)
  have i1: "unat (1 :: u32) < 200" by simp
  note ib = iblock_facts [OF i1]
  have "47 \<le> unat (freeblock s)" using ok(1) by (simp add: mk_ok_def)
  then have ri: "rinode 1 s = Inr din" using mview_rsect [OF ok(1) _ ib(1)] ib(2) by (simp add: rinode_def ok(2) din_def)
  let ?m = "(length rt div BSIZE + 1) * BSIZE" and ?d = "din\<lparr>d_size := of_nat ((length rt div BSIZE + 1) * BSIZE)\<rparr>"
  have sz: "unat (d_size din) = length rt" using nx by (simp add: xd node_ok_def as_inode_def)
  have "length rt < 2 ^ 20" using l by (simp add: xv6_const BSIZE_def)
  then have "unat ((d_size din div of_nat BSIZE + 1) * of_nat BSIZE) = ?m"
    using sz by (simp add: BSIZE_def unat_word_ariths unat_div_distrib)
  then have off: "(d_size din div of_nat BSIZE + 1) * of_nat BSIZE = of_nat ?m" by (rule unat_of)
  have la: "length (d_addrs ?d) = NDIRECT + 1" using nx by (simp add: xd node_ok_def file_wf_def)
  from winode_correct [OF ok(1) i1 la] obtain s2 where s2: "winode 1 ?d s = Inr s2" "mk_ok s2" "freeblock s2 = freeblock s"
    "mview s2 = (mview s)(IBLOCK 1 mk_superblock := put_dinode (as_inode ?d) (dip_off 1) (mview s (IBLOCK 1 mk_superblock)))"
    "mnode (mview s2) 1 = as_inode ?d" "\<And>k. k \<noteq> 1 \<Longrightarrow> mnode (mview s2) k = mnode (mview s) k" by blast
  note fr = inode_write_frame [OF ok(1) i1 la s2(4)]
  have "fix_root_size 1 s = Inr s2" using ri s2(1) off by (simp add: fix_root_size_def Let_def)
  moreover have r0: "node (mview s2) 0 = x\<lparr>isize := of_nat ?m\<rparr>" using s2(5) by (simp add: node_def xd as_inode_def)
  moreover have nd: "node (mview s2) j = node (mview s) j" if "0 < j" "j < 199" for j
    using s2(6) node_inj [of j 0] that by (simp add: node_def)
  have ln: "length fs < 199" using inv by (simp add: mk_inv_def)
  have "node_ok (mview s2) (node (mview s2) (Suc k)) (fst (fs ! k)) (snd (fs ! k))" if "k < length fs" for k
    using fr(2) [OF fo [of "Suc k"]] nd [of "Suc k"] that ln by simp
  moreover have fb: "file_blocks (mview s2) (node (mview s2) i) = file_blocks (mview s) (node (mview s) i)" if "i \<le> length fs" for i
    using fr(2) [OF fo [OF that]] r0 nd [of i] that ln by (cases "i = 0") (simp_all add: x_def)
  have "file_blocks (mview s2) (node (mview s2) i) \<inter> file_blocks (mview s2) (node (mview s2) j) \<subseteq> {0}"
    if "i \<le> length fs" "j \<le> length fs" "i \<noteq> j" for i j
    using inv that fb [OF that(1)] fb [OF that(2)] by (simp add: mk_inv_def files_ok_def less_Suc_eq_le)
  moreover have "itype (node (mview s2) j) = 0" if "j < 199" "length fs < j" for j
    using inv nd [of j] that by (simp add: mk_inv_def files_ok_def)
  moreover have "boot_kept s s2" using fr(3) by (simp add: boot_kept_def)
  ultimately show ?thesis using s2(2,3) fr(2) [OF nx] by blast
qed

lemma sum_cost: "file_cost (ty, bs) = total_blocks (blocks_for (length bs))"
  by (simp add: file_cost_def)

text \<open>The image before the size of the root directory and the free map are written.\<close>

lemma files_added:
  assumes g: "\<forall>p\<in>set paths. file_given host p" and n: "length paths \<le> 198"
  defines "rt \<equiv> dirent_bytes 1 [46] @ dirent_bytes 1 [46, 46] @ entries_from 2 (map mk_name paths)"
  assumes room: "47 + file_cost (T_DIR, rt) + sum_list (map (file_cost \<circ> file_of host) paths) \<le> 2000"
  obtains s1 s2 s3 s where "mk_ialloc T_DIR empty_image = Inr (1, s1)" "iappend 1 (dirent_bytes 1 [46]) s1 = Inr s2"
    "iappend 1 (dirent_bytes 1 [46, 46]) s2 = Inr s3" "add_files host 1 paths s3 = Inr s"
    "mk_inv ((T_DIR, rt) # map (file_of host) paths) s" "boot_kept empty_image s"
proof -
  let ?a = "dirent_bytes 1 [46]" and ?b = "dirent_bytes 1 [46, 46]"
  obtain s1 where s1: "mk_ialloc T_DIR empty_image = Inr (1, s1)" "mk_inv [(T_DIR, [])] s1" "boot_kept empty_image s1"
    using mk_ialloc_correct [OF empty_image_inv, of T_DIR] by auto
  have "\<exists>s'. iappend (of_nat (Suc 0)) ?a s1 = Inr s' \<and> mk_inv ([(T_DIR, [])][0 := (T_DIR, [] @ ?a)]) s' \<and> boot_kept s1 s'"
    by (rule iappend_correct [OF s1(2)]) (use mk_inv_room [OF s1(2)] in \<open>simp_all add: sum_cost total_blocks_def blocks_for_def xv6_const BSIZE_def\<close>)
  then obtain s2 where s2: "iappend 1 ?a s1 = Inr s2" "mk_inv [(T_DIR, ?a)] s2" "boot_kept s1 s2" by auto
  have "\<exists>s'. iappend (of_nat (Suc 0)) ?b s2 = Inr s' \<and> mk_inv ([(T_DIR, ?a)][0 := (T_DIR, ?a @ ?b)]) s' \<and> boot_kept s2 s'"
    by (rule iappend_correct [OF s2(2)]) (use mk_inv_room [OF s2(2)] in \<open>simp_all add: sum_cost total_blocks_def blocks_for_def xv6_const BSIZE_def\<close>)
  then obtain s3 where s3: "iappend 1 ?b s2 = Inr s3" "mk_inv [(T_DIR, ?a @ ?b)] s3" "boot_kept s2 s3" by auto
  have "\<exists>s. add_files host 1 paths s3 = Inr s \<and>
      mk_inv ((T_DIR, (?a @ ?b) @ entries_from (length ([] :: (u16 \<times> u8 list) list) + 2) (map mk_name paths)) # [] @ map (file_of host) paths) s \<and> boot_kept s3 s"
    by (rule add_files_correct [OF s3(2) g]) (use n room in \<open>simp_all add: rt_def xv6_const BSIZE_def flip: numeral_2_eq_2\<close>)
  then obtain s where s: "add_files host 1 paths s3 = Inr s" "boot_kept s3 s"
    "mk_inv ((T_DIR, (?a @ ?b) @ entries_from (length ([] :: (u16 \<times> u8 list) list) + 2) (map mk_name paths)) # [] @ map (file_of host) paths) s" by blast
  have "(?a @ ?b) @ entries_from (length ([] :: (u16 \<times> u8 list) list) + 2) (map mk_name paths) = rt" by (simp add: rt_def flip: numeral_2_eq_2)
  then have "mk_inv ((T_DIR, rt) # map (file_of host) paths) s" using s(3) by simp
  moreover have "boot_kept empty_image s" using s1(3) s2(3) s3(3) s(2) boot_kept_trans by blast
  ultimately show ?thesis by (intro that [OF s1(1) s2(1) s3(1) s(1)])
qed

text \<open>The root directory as a table.\<close>

lemma root_table:
  assumes "\<forall>name\<in>set names. length name \<le> DIRSIZ \<and> 0 \<notin> set name" "length names \<le> 198"
    and bs: "bs = (dirent_bytes 1 [46] @ dirent_bytes 1 [46, 46] @ entries_from 2 names) @ replicate m 0"
  shows "map_option (\<lambda>k. de_inum (dir_entries bs ! k)) (dir_find name (dir_entries bs)) =
    map_of (zip ([46] # [46, 46] # names) (1 # 1 # map of_nat [2..<length names + 2])) (name_of name)"
proof -
  have "dir_table (dir_entries (entries_from 2 names @ replicate m 0)) = zip names (map of_nat [2..<length names + 2])"
    using dir_table_entries [OF assms(1), of 2 "replicate m 0"] assms(2) dir_table_zeros by (simp add: add.commute)
  then have "dir_table (dir_entries bs) = zip ([46] # [46, 46] # names) (1 # 1 # map of_nat [2..<length names + 2])"
    unfolding bs append_assoc using dirent_props [of "[46]" 1] dirent_props [of "[46, 46]" 1] by (simp add: dir_table_Cons DIRSIZ_def)
  then show ?thesis by (simp add: dir_find_table)
qed

lemma mk_name_set: "set (mk_name p) \<subseteq> set p"
proof -
  have "set (skip_underscore xs) \<subseteq> set xs" for xs by (cases xs) (auto simp: skip_underscore_def)
  moreover have "set (short_name p) \<subseteq> set p" by (simp add: short_name_def set_drop_subset)
  ultimately show ?thesis unfolding mk_name_def by blast
qed

text \<open>C6: \<open>mkfs\<close> on files that exist, have names for the root directory (at most \<open>DIRSIZ\<close> characters, no slash), are
  not larger than the kernel allows, are at most 198 in number and fit on the disk. The program ends and the
  image is a file system for the kernel: \<open>readsb\<close> reads the superblock, the log is empty, the metadata
  blocks are marked used and a block is marked used exactly if it was handed out; the inode of each file (as the
  kernel decodes it) has the right type and one link, and its contents are those of the file on the host;
  no two files share a block, and the other inodes are free. The root directory is sound exactly if the number
  of its entries is not a multiple of 64 (otherwise its size covers a block that is not there), and a lookup of
  a name in it gives the inode of the first file with the name.\<close>

theorem mkfs_image:
  assumes can: "can fsimg" and n: "length paths \<le> 198" and g: "\<forall>p\<in>set paths. file_given host p \<and> 0 \<notin> set p"
  defines "used \<equiv> 47 + total_blocks (blocks_for (16 * (length paths + 2))) +
    (\<Sum>p\<leftarrow>paths. total_blocks (blocks_for (length (concat (the (host p))))))"
  assumes room: "used \<le> 2000"
  shows "\<exists>s v root. mkfs_main can host (fsimg # paths) = Inr s \<and> length (img s) = 2000 \<and> v = mk_image s \<and> root = mnode v ROOTINO \<and>
    sb_at (v 1) = mk_superblock \<and> head_n (v 2) = 0 \<and> disk_ok mk_superblock 2 v \<and>
    (\<forall>x<2000. block_used mk_superblock v x \<longleftrightarrow> x < used) \<and>
    (\<forall>k<length paths. let x = mnode v (of_nat (k + 2)) in itype x = T_FILE \<and> inlink x = 1 \<and>
       file_ok v x \<and> file_bytes v x = concat (the (host (paths ! k)))) \<and>
    (\<forall>i<200. length paths + 2 \<le> i \<longrightarrow> itype (mnode v (of_nat i)) = 0) \<and>
    (\<forall>i\<le>length paths. \<forall>j\<le>length paths. i \<noteq> j \<longrightarrow>
       file_blocks v (mnode v (of_nat (i + 1))) \<inter> file_blocks v (mnode v (of_nat (j + 1))) \<subseteq> {0}) \<and>
    itype root = T_DIR \<and> inlink root = 1 \<and> (file_ok v root \<longleftrightarrow> \<not> 64 dvd length paths + 2) \<and>
    (\<not> 64 dvd length paths + 2 \<longrightarrow> (let es = dir_entries (file_bytes v root) in
       \<forall>name. map_option (\<lambda>k. de_inum (es ! k)) (dir_find name es) =
         map_of (zip ([46] # [46, 46] # map mk_name paths) (1 # 1 # map of_nat [2..<length paths + 2])) (name_of name)))"
proof -
  let ?rt = "dirent_bytes 1 [46] @ dirent_bytes 1 [46, 46] @ entries_from 2 (map mk_name paths)" and ?fs = "map (file_of host) paths"
  have lr: "length ?rt = 16 * (length paths + 2)" by simp
  have us: "used = 47 + file_cost (T_DIR, ?rt) + sum_list (map (file_cost \<circ> file_of host) paths)"
    by (simp add: used_def sum_cost file_of_def comp_def)
  obtain s1 s2 s3 s4 where m: "mk_ialloc T_DIR empty_image = Inr (1, s1)" "iappend 1 (dirent_bytes 1 [46]) s1 = Inr s2"
    "iappend 1 (dirent_bytes 1 [46, 46]) s2 = Inr s3" "add_files host 1 paths s3 = Inr s4"
    and inv: "mk_inv ((T_DIR, ?rt) # ?fs) s4" "boot_kept empty_image s4"
    using files_added [of paths host] g n room us by metis
  have l: "length ?rt + BSIZE \<le> MAXFILE * BSIZE" using n lr by (simp add: xv6_const BSIZE_def)
  obtain s5 v x where s5: "fix_root_size 1 s4 = Inr s5" "mk_ok s5" "freeblock s5 = freeblock s4" "boot_kept s4 s5" "v = mview s5"
    "node v 0 = x\<lparr>isize := of_nat ((length ?rt div BSIZE + 1) * BSIZE)\<rparr>" "node_ok v x T_DIR ?rt"
    "\<forall>k<length ?fs. node_ok v (node v (Suc k)) (fst (?fs ! k)) (snd (?fs ! k))"
    "\<forall>i\<le>length ?fs. \<forall>j\<le>length ?fs. i \<noteq> j \<longrightarrow> file_blocks v (node v i) \<inter> file_blocks v (node v j) \<subseteq> {0}"
    "\<forall>j<199. length ?fs < j \<longrightarrow> itype (node v j) = 0"
    using fix_root_correct [OF inv(1) l] by blast
  obtain s where s: "mk_balloc (freeblock s5) s5 = Inr s" "v = mk_image s" "length (img s) = 2000"
    using mk_balloc_image [OF s5(2)] s5(5) by auto
  have "mkfs_main can host (fsimg # paths) = Inr s"
    using can m s5(1) s(1) by (simp add: mkfs_main_def ROOTINO_def Let_def msb_zero_sectors flip: empty_image_def)
  moreover have bk: "v b = mview empty_image b" if "unat b < 33" for b
    using inv(2) s5(4,5) that by (simp add: boot_kept_def)
  have "sb_at (v 1) = mk_superblock" "head_n (v 2) = 0"
    using bk [of 1] bk [of 2] sb_at_bytes by (simp_all add: mview_def empty_image_eq head_n_def get32_zeros BSIZE_def)
  moreover have "unat (freeblock s5) = used" using mk_inv_room [OF inv(1)] s5(3) us by simp
  then have "block_used mk_superblock v y \<longleftrightarrow> y < used" if "y < 2000" for y
    using mview_used [OF that, of s5] s5(5) room by simp
  moreover have "disk_ok mk_superblock 2 v" using mk_disk_ok [OF s5(2)] s5(5) by simp
  moreover have "let x = node v (Suc k) in itype x = T_FILE \<and> inlink x = 1 \<and> file_ok v x \<and> file_bytes v x = concat (the (host (paths ! k)))"
    if "k < length paths" for k
  proof -
    have "node_ok v (node v (Suc k)) T_FILE (concat (the (host (paths ! k))))" using s5(8) that by (simp add: file_of_def)
    then show ?thesis using node_file_ok by (simp add: Let_def node_ok_def)
  qed
  moreover note rp = root_padded [OF s5(7) l, folded s5(6)]
  have pd: "length ?rt mod BSIZE = 0 \<longleftrightarrow> 64 dvd length paths + 2" using lr mod_mult_mult1 [of 16 "length paths + 2" 64] by (simp add: BSIZE_def dvd_eq_mod_eq_0)
  have ro: "itype (node v 0) = T_DIR" "inlink (node v 0) = 1" using s5(6,7) by (simp_all add: node_ok_def)
  have nm: "\<forall>name\<in>set (map mk_name paths). length name \<le> DIRSIZ \<and> 0 \<notin> set name"
  proof
    fix name assume "name \<in> set (map mk_name paths)"
    then obtain p where p: "p \<in> set paths" "name = mk_name p" by auto
    then have "file_given host p" "0 \<notin> set p" using g by blast+
    then show "length name \<le> DIRSIZ \<and> 0 \<notin> set name" using p(2) mk_name_set [of p] by (auto simp: file_given_def)
  qed
  have "map_option (\<lambda>k. de_inum (dir_entries (file_bytes v (node v 0)) ! k)) (dir_find name (dir_entries (file_bytes v (node v 0)))) =
      map_of (zip ([46] # [46, 46] # map mk_name paths) (1 # 1 # map of_nat [2..<length paths + 2])) (name_of name)"
    if "\<not> 64 dvd length paths + 2" for name
    using root_table [OF nm _ rp(3), of name] pd that n by simp
  moreover have "itype (mnode v (of_nat i)) = 0" if "i < 200" "length paths + 2 \<le> i" for i
    using s5(10) that by (cases i) (simp_all add: node_def)
  moreover have "mnode v ROOTINO = node v 0" "\<And>k. mnode v (of_nat (k + 2)) = node v (Suc k)" "\<And>k. mnode v (of_nat (k + 1)) = node v k"
    by (simp_all add: node_def ROOTINO_def)
  ultimately show ?thesis
    using s(2,3) rp(2) pd ro s5(9) by (intro exI [of _ s] exI [of _ v] exI [of _ "node v 0"], simp only: length_map Let_def simp_thms, blast)
qed

text \<open>An image with one file, \<open>user/_a\<close>, which holds two bytes.\<close>

theorem mkfs_image_witness:
  "\<exists>s v es. mkfs_main (\<lambda>_. True) (\<lambda>_. Some [[104, 105]]) [[102], [117, 115, 101, 114, 47, 95, 97]] = Inr s \<and> v = mk_image s \<and>
    es = dir_entries (file_bytes v (mnode v 1)) \<and> map_option (\<lambda>k. de_inum (es ! k)) (dir_find [97] es) = Some 2 \<and>
    file_bytes v (mnode v 2) = [104, 105]"
proof -
  let ?host = "\<lambda>_. Some [[104, 105 :: u8]]" and ?p = "[[117, 115, 101, 114, 47, 95, 97 :: u8]]"
  have "\<forall>p\<in>set ?p. file_given ?host p \<and> 0 \<notin> set p"
    by (simp add: file_given_def mk_name_def short_name_def skip_underscore_def slash_def xv6_const BSIZE_def)
  moreover have "47 + total_blocks (blocks_for (16 * (length ?p + 2))) + (\<Sum>p\<leftarrow>?p. total_blocks (blocks_for (length (concat (the (?host p)))))) \<le> 2000"
    by (simp add: total_blocks_def blocks_for_def BSIZE_def xv6_const)
  ultimately obtain s v root where s: "mkfs_main (\<lambda>_. True) ?host ([102] # ?p) = Inr s" "v = mk_image s" "root = mnode v ROOTINO"
    "\<forall>k<length ?p. let x = mnode v (of_nat (k + 2)) in itype x = T_FILE \<and> inlink x = 1 \<and>
       file_ok v x \<and> file_bytes v x = concat (the (?host (?p ! k)))"
    "\<not> 64 dvd length ?p + 2 \<longrightarrow> (let es = dir_entries (file_bytes v root) in
       \<forall>name. map_option (\<lambda>k. de_inum (es ! k)) (dir_find name es) =
         map_of (zip ([46] # [46, 46] # map mk_name ?p) (1 # 1 # map of_nat [2..<length ?p + 2])) (name_of name))"
    using mkfs_image [of "\<lambda>_. True" "[102]" ?p ?host] by auto
  have "mk_name (hd ?p) = [97]" by (simp add: mk_name_def short_name_def skip_underscore_def)
  moreover have "name_of [97] = [97]" by (simp add: name_of_def DIRSIZ_def)
  ultimately have t: "map_of (zip ([46] # [46, 46] # map mk_name ?p) (1 # 1 # map of_nat [2..<length ?p + 2])) (name_of [97]) = Some (2 :: u16)"
    by (simp add: upt_rec)
  have "\<not> 64 dvd length ?p + 2" by (simp add: dvd_eq_mod_eq_0)
  then have "map_option (\<lambda>k. de_inum (dir_entries (file_bytes v root) ! k)) (dir_find [97] (dir_entries (file_bytes v root))) = Some 2"
    using s(5) t unfolding Let_def by metis
  moreover have "file_bytes v (mnode v 2) = [104, 105]" using s(4) by (simp add: Let_def)
  ultimately show ?thesis using s(1-3) by (auto simp: ROOTINO_def)
qed

end
