(* ===== verification/Kstate.thy ===== *)
theory Kstate
  imports Fs
begin

text \<open>
  The state the process and file layers share: \<^verbatim>\<open>struct proc\<close> of \<^verbatim>\<open>kernel/proc.h\<close>, \<^verbatim>\<open>struct file\<close> of
  \<^verbatim>\<open>kernel/file.h\<close>, and the record \<open>sys\<close> that holds the process table, the file table, the pipes and
  the file system. Processes, files and inodes are named by their index in their table; a pointer
  that may be null is an option, or an address that may be 0 for a page. \<open>curp\<close> is the process
  \<open>myproc()\<close> returns. Addresses of kernel symbols that the linker assigns are the record \<open>ksyms\<close>.
\<close>

section \<open>Data\<close>

datatype procstate = UNUSED | USED | SLEEPING | RUNNABLE | RUNNING | ZOMBIE

text \<open>Sleep channels are addresses of kernel objects; each object gets a constructor.\<close>

datatype chan = Chan_proc nat | Chan_pipe u64 pchan | Chan_ticks | Chan_cons

record proc =
  p_state :: procstate
  p_chan :: "chan option"
  p_killed :: bool
  p_xstate :: cint
  p_pid :: cint
  p_parent :: "nat option"
  p_kstack :: u64
  p_sz :: u64
  p_pagetable :: u64
  p_trapframe :: u64
  p_context :: "u64 list"
  p_ofile :: "nat option list"
  p_cwd :: "nat option"
  p_name :: "u8 list"

datatype filetype = FD_NONE | FD_PIPE | FD_INODE | FD_DEVICE

record kfile =
  f_type :: filetype
  f_ref :: int
  f_readable :: bool
  f_writable :: bool
  f_pipe :: u64
  f_ip :: nat
  f_off :: u32
  f_major :: u16

record ksyms =
  k_end :: u64
  k_trampoline :: u64
  k_forkret :: u64

record sys =
  sfs :: fs
  procs :: "nat \<Rightarrow> proc"
  initproc :: "nat option"
  nextpid :: cint
  ftab :: "nat \<Rightarrow> kfile"
  pipes :: "u64 \<Rightarrow> pipe"
  ticks :: u32
  syms :: ksyms
  forkret_first :: bool
  curp :: nat

type_synonym 'a sysm = "sys \<Rightarrow> ('a \<times> sys) result"

section \<open>Access\<close>

text \<open>The first of \<open>n\<close> table entries from \<open>i\<close> on with property \<open>P\<close>: the search loops over \<open>proc[]\<close>
  and \<open>ftable.file[]\<close>.\<close>

fun first_slot :: "('a \<Rightarrow> bool) \<Rightarrow> (nat \<Rightarrow> 'a) \<Rightarrow> nat \<Rightarrow> nat \<Rightarrow> nat option" where
  "first_slot P t i 0 = None"
| "first_slot P t i (Suc n) = (if P (t i) then Some i else first_slot P t (Suc i) n)"

lemma first_slot_find: "first_slot P t i n = find (\<lambda>l. P (t l)) [i..<i + n]"
proof (induction n arbitrary: i)
  case (Suc n)
  have "[i..<i + Suc n] = i # [Suc i..<Suc i + n]" by (simp add: upt_conv_Cons)
  with Suc show ?case by simp
qed simp

lemma first_slot_Some:
  "first_slot P t 0 n = Some j \<longleftrightarrow> j < n \<and> P (t j) \<and> (\<forall>l<j. \<not> P (t l))"
  by (auto simp: first_slot_find find_Some_iff)

lemma first_slot_None: "first_slot P t 0 n = None \<longleftrightarrow> (\<forall>l<n. \<not> P (t l))"
  by (auto simp: first_slot_find find_None_iff)

lemma first_slot_cong: "(\<And>l. P (t' l) = P (t l)) \<Longrightarrow> first_slot P t' i n = first_slot P t i n"
  by (induction n arbitrary: i) auto

abbreviation myproc :: "sys \<Rightarrow> proc" where "myproc s \<equiv> procs s (curp s)"

definition upd_proc :: "nat \<Rightarrow> (proc \<Rightarrow> proc) \<Rightarrow> sys \<Rightarrow> sys" where
  "upd_proc i f s = s\<lparr>procs := (procs s)(i := f (procs s i))\<rparr>"

definition upd_file :: "nat \<Rightarrow> (kfile \<Rightarrow> kfile) \<Rightarrow> sys \<Rightarrow> sys" where
  "upd_file i f s = s\<lparr>ftab := (ftab s)(i := f (ftab s i))\<rparr>"

abbreviation smem :: "sys \<Rightarrow> kmem" where "smem s \<equiv> fmem (sfs s)"

definition set_mem :: "kmem \<Rightarrow> sys \<Rightarrow> sys" where
  "set_mem k s = s\<lparr>sfs := (sfs s)\<lparr>fmem := k\<rparr>\<rparr>"

text \<open>
  A file-system operation on behalf of the running process: the file-system state carries the
  process's pid, page table and current directory, and they are brought up to date before the call.
  A process without a current directory never resolves a relative path.
\<close>

definition user_of :: "sys \<Rightarrow> uproc" where
  "user_of s = \<lparr>ukend = k_end (syms s), upt = p_pagetable (myproc s), usz = p_sz (myproc s),
     ukilled = p_killed (myproc s)\<rparr>"

definition run_fs :: "'a fsm \<Rightarrow> 'a sysm" where
  "run_fs m s =
     bind_result (m ((sfs s)\<lparr>fpid := p_pid (myproc s), fproc := user_of s,
                        fcwd := (case p_cwd (myproc s) of Some d \<Rightarrow> d | None \<Rightarrow> 0)\<rparr>))
       (\<lambda>(x, f). Inr (x, s\<lparr>sfs := f\<rparr>))"

text \<open>The file-system transaction brackets.\<close>

definition sys_begin_op :: "unit sysm" where "sys_begin_op = run_fs (on_log begin_op)"
definition sys_end_op :: "unit sysm" where "sys_end_op = run_fs (\<lambda>f. on_log (end_op (fpid f)) f)"

definition on_mem :: "(kmem \<Rightarrow> ('a \<times> kmem) result) \<Rightarrow> 'a sysm" where
  "on_mem f s = bind_result (f (smem s)) (\<lambda>(x, k). Inr (x, set_mem k s))"

definition on_mem_unit :: "(kmem \<Rightarrow> kmem result) \<Rightarrow> unit sysm" where
  "on_mem_unit f s = bind_result (f (smem s)) (\<lambda>k. Inr ((), set_mem k s))"

text \<open>The copies to and from the memory of the running process.\<close>

definition user_copyout :: "u64 \<Rightarrow> u8 list \<Rightarrow> bool sysm" where
  "user_copyout va bs s =
     (let p = user_of s in on_mem (copyout (ukend p) (upt p) (usz p) (upt p) va bs) s)"

definition user_copyin :: "u64 \<Rightarrow> nat \<Rightarrow> (u8 list \<times> bool) sysm" where
  "user_copyin va n s =
     (let p = user_of s
      in bind_result (copyin (ukend p) (upt p) (usz p) (upt p) va n (smem s)) (\<lambda>(bs, ok, k).
           Inr ((bs, ok), set_mem k s)))"

lemma procs_upd_proc: "procs (upd_proc i f s) j = (if j = i then f (procs s i) else procs s j)"
  by (simp add: upd_proc_def)

lemma upd_proc_frame [simp]:
  "sfs (upd_proc i f s) = sfs s" "initproc (upd_proc i f s) = initproc s" "nextpid (upd_proc i f s) = nextpid s"
  "ftab (upd_proc i f s) = ftab s" "pipes (upd_proc i f s) = pipes s" "ticks (upd_proc i f s) = ticks s"
  "syms (upd_proc i f s) = syms s" "forkret_first (upd_proc i f s) = forkret_first s" "curp (upd_proc i f s) = curp s"
  by (simp_all add: upd_proc_def)

lemma upd_file_frame [simp]:
  "sfs (upd_file i f s) = sfs s" "procs (upd_file i f s) = procs s" "initproc (upd_file i f s) = initproc s"
  "nextpid (upd_file i f s) = nextpid s" "pipes (upd_file i f s) = pipes s" "ticks (upd_file i f s) = ticks s"
  "syms (upd_file i f s) = syms s" "forkret_first (upd_file i f s) = forkret_first s" "curp (upd_file i f s) = curp s"
  by (simp_all add: upd_file_def)

lemma ftab_upd_file: "ftab (upd_file i f s) j = (if j = i then f (ftab s i) else ftab s j)"
  by (simp add: upd_file_def)

lemma set_mem_frame [simp]:
  "procs (set_mem k s) = procs s" "initproc (set_mem k s) = initproc s" "nextpid (set_mem k s) = nextpid s"
  "ftab (set_mem k s) = ftab s" "pipes (set_mem k s) = pipes s" "ticks (set_mem k s) = ticks s"
  "syms (set_mem k s) = syms s" "forkret_first (set_mem k s) = forkret_first s" "curp (set_mem k s) = curp s" "smem (set_mem k s) = k"
  by (simp_all add: set_mem_def)

text \<open>Calls into memory and into the file system leave the tables above them alone.\<close>

definition same_tables :: "sys \<Rightarrow> sys \<Rightarrow> bool" where
  "same_tables s s' \<longleftrightarrow> procs s' = procs s \<and> initproc s' = initproc s \<and> nextpid s' = nextpid s \<and>
     ftab s' = ftab s \<and> pipes s' = pipes s \<and> ticks s' = ticks s \<and> syms s' = syms s \<and> forkret_first s' = forkret_first s \<and> curp s' = curp s"

lemma same_tables_refl [simp]: "same_tables s s"
  by (simp add: same_tables_def)

lemma same_tables_set_mem [simp]: "same_tables s (set_mem k s)"
  by (simp add: same_tables_def)

lemma same_tables_trans: "same_tables s t \<Longrightarrow> same_tables t u \<Longrightarrow> same_tables s u"
  by (simp add: same_tables_def)

lemma seq_Inr_iff: "seq m f s = Inr y \<longleftrightarrow> (\<exists>x t. m s = Inr (x, t) \<and> f x t = Inr y)"
  by (auto simp: seq_def bind_result_Inr_iff)

lemma run_fs_tables: "run_fs m s = Inr (x, s') \<Longrightarrow> same_tables s s'"
  by (auto simp: run_fs_def bind_result_Inr_iff same_tables_def)

lemma on_mem_tables: "on_mem f s = Inr (x, s') \<Longrightarrow> same_tables s s'"
  by (auto simp: on_mem_def bind_result_Inr_iff)

lemma on_mem_unit_tables: "on_mem_unit f s = Inr (x, s') \<Longrightarrow> same_tables s s'"
  by (auto simp: on_mem_unit_def bind_result_Inr_iff)

lemma user_copyout_tables: "user_copyout va bs s = Inr (ok, s') \<Longrightarrow> same_tables s s'"
  by (auto simp: user_copyout_def Let_def dest: on_mem_tables)

lemma user_copyin_tables: "user_copyin va n s = Inr (r, s') \<Longrightarrow> same_tables s s'"
  by (auto simp: user_copyin_def Let_def bind_result_Inr_iff)

end
