(* ===== verification/Proc.thy ===== *)
theory Proc
  imports Kstate
begin

text \<open>
  \<^verbatim>\<open>kernel/proc.c\<close>: the process table. Critical sections of \<open>p->lock\<close> and \<open>wait_lock\<close> run as one step
  here; \<open>sched\<close>, \<open>scheduler\<close>, \<open>yield\<close> and \<open>sleep\<close> with the locks and interrupts are in theory Sched,
  \<open>kfork\<close>, \<open>kexit\<close> and \<open>userinit\<close>, which need open files, in theory Fork. A call that sleeps stops
  with the process marked \<open>SLEEPING\<close> and the outcome \<open>Sleeps\<close>; \<open>sleep_return\<close> is what \<open>sleep\<close> does
  after it is scheduled again, and the call then goes on from its loop.
\<close>

section \<open>Table, identifiers, page tables\<close>

definition procinit :: "sys \<Rightarrow> sys" where
  "procinit s = s\<lparr>procs := (\<lambda>i. if i < NPROC
     then (procs s i)\<lparr>p_state := UNUSED, p_kstack := KSTACK (of_nat i)\<rparr> else procs s i)\<rparr>"

definition allocpid :: "sys \<Rightarrow> cint \<times> sys" where
  "allocpid s = (nextpid s, s\<lparr>nextpid := nextpid s + 1\<rparr>)"

text \<open>\<open>uvmfree\<close> walks a page table of three levels.\<close>

definition proc_pagetable :: "u64 \<Rightarrow> u64 sysm" where
  "proc_pagetable trapframe s =
     seq (on_mem (\<lambda>k. Inr (uvmcreate k))) (\<lambda>pt.
       if pt = 0 then ret 0
       else seq (on_mem (mappages pt TRAMPOLINE PGSIZE (k_trampoline (syms s)) (PTE_R OR PTE_X))) (\<lambda>ok.
         if \<not> ok then seq (on_mem_unit (uvmfree (k_end (syms s)) 3 pt 0)) (\<lambda>_. ret 0)
         else seq (on_mem (mappages pt TRAPFRAME PGSIZE trapframe (PTE_R OR PTE_W))) (\<lambda>ok.
           if \<not> ok
           then seq (on_mem_unit (uvmunmap (k_end (syms s)) pt TRAMPOLINE 1 False)) (\<lambda>_.
                seq (on_mem_unit (uvmfree (k_end (syms s)) 3 pt 0)) (\<lambda>_. ret 0))
           else ret pt))) s"

definition proc_freepagetable :: "u64 \<Rightarrow> u64 \<Rightarrow> unit sysm" where
  "proc_freepagetable pt sz s =
     seq (on_mem_unit (uvmunmap (k_end (syms s)) pt TRAMPOLINE 1 False)) (\<lambda>_.
     seq (on_mem_unit (uvmunmap (k_end (syms s)) pt TRAPFRAME 1 False)) (\<lambda>_.
     on_mem_unit (uvmfree (k_end (syms s)) 3 pt sz))) s"

definition freeproc :: "nat \<Rightarrow> unit sysm" where
  "freeproc i s =
     seq (if p_trapframe (procs s i) \<noteq> 0 then on_mem_unit (kfree (k_end (syms s)) (p_trapframe (procs s i))) else ret ()) (\<lambda>_ s.
     let s = upd_proc i (\<lambda>p. p\<lparr>p_trapframe := 0\<rparr>) s
     in seq (if p_pagetable (procs s i) \<noteq> 0 then proc_freepagetable (p_pagetable (procs s i)) (p_sz (procs s i)) else ret ()) (\<lambda>_ s.
        Inr ((), upd_proc i (\<lambda>p. p\<lparr>p_pagetable := 0, p_sz := 0, p_pid := 0, p_parent := None,
          p_name := (p_name p)[0 := 0], p_chan := None, p_killed := False, p_xstate := 0, p_state := UNUSED\<rparr>) s)) s) s"

definition allocproc :: "nat option sysm" where
  "allocproc s =
     (case first_slot (\<lambda>p. p_state p = UNUSED) (procs s) 0 NPROC of
        None \<Rightarrow> Inr (None, s)
      | Some i \<Rightarrow>
          (let (pid, s) = allocpid s;
               s = upd_proc i (\<lambda>p. p\<lparr>p_pid := pid, p_state := USED\<rparr>) s
           in seq (on_mem (\<lambda>k. Inr (kalloc k))) (\<lambda>tf s.
                let s = upd_proc i (\<lambda>p. p\<lparr>p_trapframe := tf\<rparr>) s
                in if tf = 0 then seq (freeproc i) (\<lambda>_. ret None) s
                   else seq (proc_pagetable tf) (\<lambda>pt s.
                     let s = upd_proc i (\<lambda>p. p\<lparr>p_pagetable := pt\<rparr>) s
                     in if pt = 0 then seq (freeproc i) (\<lambda>_. ret None) s
                        else Inr (Some i, upd_proc i (\<lambda>p. p\<lparr>p_context :=
                               (replicate 14 0)[0 := k_forkret (syms s), 1 := p_kstack p + PGSIZE]\<rparr>) s)) s) s))"

text \<open>\<open>n\<close> is an \<open>int\<close>, so \<open>sz + n\<close> adds it sign-extended.\<close>

definition growproc :: "cint \<Rightarrow> int sysm" where
  "growproc n s =
     (let p = myproc s; sz = p_sz p
      in if sint n > 0
         then seq (on_mem (uvmalloc (k_end (syms s)) (p_pagetable p) sz (sz + scast n) PTE_W)) (\<lambda>sz s.
                if sz = 0 then Inr (-1, s) else Inr (0, upd_proc (curp s) (\<lambda>p. p\<lparr>p_sz := sz\<rparr>) s)) s
         else if sint n < 0
         then seq (on_mem (uvmdealloc (k_end (syms s)) (p_pagetable p) sz (sz + scast n))) (\<lambda>sz s.
                Inr (0, upd_proc (curp s) (\<lambda>p. p\<lparr>p_sz := sz\<rparr>) s)) s
         else Inr (0, s))"

section \<open>Sleeping and waking\<close>

definition wakeup_entry :: "chan option \<Rightarrow> nat \<Rightarrow> sys \<Rightarrow> sys" where
  "wakeup_entry ch i s =
     (if i \<noteq> curp s \<and> p_state (procs s i) = SLEEPING \<and> p_chan (procs s i) = ch
      then upd_proc i (\<lambda>p. p\<lparr>p_state := RUNNABLE\<rparr>) s else s)"

fun wakeup_loop :: "chan option \<Rightarrow> nat \<Rightarrow> nat \<Rightarrow> sys \<Rightarrow> sys" where
  "wakeup_loop ch i 0 s = s"
| "wakeup_loop ch i (Suc n) s = wakeup_loop ch (Suc i) n (wakeup_entry ch i s)"

definition wakeup :: "chan option \<Rightarrow> sys \<Rightarrow> sys" where
  "wakeup ch = wakeup_loop ch 0 NPROC"

text \<open>\<open>sleep\<close> up to the switch to the scheduler, and from the return of \<open>sched\<close> on.\<close>

definition sleep_on :: "chan \<Rightarrow> sys \<Rightarrow> sys" where
  "sleep_on ch s = upd_proc (curp s) (\<lambda>p. p\<lparr>p_chan := Some ch, p_state := SLEEPING\<rparr>) s"

definition sleep_return :: "sys \<Rightarrow> sys" where
  "sleep_return s = upd_proc (curp s) (\<lambda>p. p\<lparr>p_chan := None\<rparr>) s"

section \<open>Parents and children\<close>

fun reparent_loop :: "nat \<Rightarrow> nat \<Rightarrow> nat \<Rightarrow> sys \<Rightarrow> sys" where
  "reparent_loop p i 0 s = s"
| "reparent_loop p i (Suc n) s =
     reparent_loop p (Suc i) n
       (if p_parent (procs s i) = Some p
        then wakeup (map_option Chan_proc (initproc s)) (upd_proc i (\<lambda>q. q\<lparr>p_parent := initproc s\<rparr>) s) else s)"

definition reparent :: "nat \<Rightarrow> sys \<Rightarrow> sys" where
  "reparent p = reparent_loop p 0 NPROC"

text \<open>The tail of \<open>kexit\<close>, under \<open>wait_lock\<close>, up to \<open>sched\<close>.\<close>

definition become_zombie :: "cint \<Rightarrow> sys \<Rightarrow> sys" where
  "become_zombie status s =
     (let s = reparent (curp s) s;
          s = wakeup (map_option Chan_proc (p_parent (myproc s))) s
      in upd_proc (curp s) (\<lambda>p. p\<lparr>p_xstate := status, p_state := ZOMBIE\<rparr>) s)"

definition killed :: "nat \<Rightarrow> sys \<Rightarrow> bool" where "killed i s = p_killed (procs s i)"

definition setkilled :: "nat \<Rightarrow> sys \<Rightarrow> sys" where
  "setkilled i = upd_proc i (\<lambda>p. p\<lparr>p_killed := True\<rparr>)"

text \<open>One scan of the table by \<open>kwait\<close>: the value returned, if any, and \<open>havekids\<close>.\<close>

fun kwait_scan :: "u64 \<Rightarrow> nat \<Rightarrow> nat \<Rightarrow> bool \<Rightarrow> (int option \<times> bool) sysm" where
  "kwait_scan addr i 0 havekids s = Inr ((None, havekids), s)"
| "kwait_scan addr i (Suc n) havekids s =
     (let pp = procs s i
      in if p_parent pp \<noteq> Some (curp s) then kwait_scan addr (Suc i) n havekids s
         else if p_state pp \<noteq> ZOMBIE then kwait_scan addr (Suc i) n True s
         else seq (if addr \<noteq> 0 then user_copyout addr (le_bytes 4 (p_xstate pp)) else ret True) (\<lambda>ok.
                if \<not> ok then ret (Some (-1), True)
                else seq (freeproc i) (\<lambda>_. ret (Some (sint (p_pid pp)), True))) s)"

definition kwait :: "u64 \<Rightarrow> outcome sysm" where
  "kwait addr =
     seq (kwait_scan addr 0 NPROC False) (\<lambda>(r, havekids) s.
       case r of
         Some v \<Rightarrow> Inr (Returns v, s)
       | None \<Rightarrow> if \<not> havekids \<or> killed (curp s) s then Inr (Returns (-1), s)
                 else Inr (Sleeps 0, sleep_on (Chan_proc (curp s)) s))"

definition kkill :: "cint \<Rightarrow> sys \<Rightarrow> int \<times> sys" where
  "kkill pid s =
     (case first_slot (\<lambda>p. p_pid p = pid) (procs s) 0 NPROC of
        None \<Rightarrow> (-1, s)
      | Some i \<Rightarrow>
          (0, upd_proc i (\<lambda>p. let p = p\<lparr>p_killed := True\<rparr>
                            in if p_state p = SLEEPING then p\<lparr>p_state := RUNNABLE\<rparr> else p) s))"

section \<open>Lemmas\<close>

subsection \<open>Waking\<close>

text \<open>What \<open>wakeup\<close> means for one process.\<close>

definition woken :: "chan option \<Rightarrow> proc \<Rightarrow> proc" where
  "woken ch p = (if p_state p = SLEEPING \<and> p_chan p = ch then p\<lparr>p_state := RUNNABLE\<rparr> else p)"

lemma wakeup_loop_spec:
  "wakeup_loop ch i n s =
     s\<lparr>procs := (\<lambda>j. if i \<le> j \<and> j < i + n \<and> j \<noteq> curp s then woken ch (procs s j) else procs s j)\<rparr>"
proof (induction n arbitrary: i s)
  case (Suc n)
  show ?case
    by (simp add: Suc wakeup_entry_def) (auto simp: upd_proc_def woken_def fun_eq_iff not_less_eq_eq intro!: sys.equality dest: le_antisym)
qed (auto simp: fun_eq_iff intro!: sys.equality)

lemma wakeup_spec:
  "wakeup ch s = s\<lparr>procs := (\<lambda>j. if j < NPROC \<and> j \<noteq> curp s then woken ch (procs s j) else procs s j)\<rparr>"
  by (simp add: wakeup_def wakeup_loop_spec)

lemma woken_simps [simp]:
  "p_chan (woken ch p) = p_chan p" "p_parent (woken ch p) = p_parent p" "p_pid (woken ch p) = p_pid p"
  "p_xstate (woken ch p) = p_xstate p" "p_killed (woken ch p) = p_killed p" "p_sz (woken ch p) = p_sz p"
  by (simp_all add: woken_def)

subsection \<open>New processes\<close>

lemma user_top_paths:
  "aligned 4096 TRAMPOLINE" "aligned 4096 TRAPFRAME" "TRAMPOLINE < MAXVA" "TRAPFRAME < MAXVA"
  "TRAPFRAME \<noteq> TRAMPOLINE" "[PX 2 TRAPFRAME, PX 1 TRAPFRAME] = [PX 2 TRAMPOLINE, PX 1 TRAMPOLINE]"
  by (simp_all add: TRAMPOLINE_def TRAPFRAME_def MAXVA_def PGSIZE_def aligned_def PX_def PGSHIFT_def)

text \<open>The page table of a new process: the two pages at the top and nothing else.\<close>

definition fresh_table :: "u64 \<Rightarrow> u64 \<Rightarrow> kmem \<Rightarrow> tree \<Rightarrow> bool" where
  "fresh_table tramp tf k tab \<longleftrightarrow>
     pte_of (pmem k) tab TRAMPOLINE = leaf tramp (PTE_R OR PTE_X) \<and>
     pte_of (pmem k) tab TRAPFRAME = leaf tf (PTE_R OR PTE_W) \<and>
     (\<forall>va. va < MAXVA \<longrightarrow> aligned 4096 va \<longrightarrow> va \<noteq> TRAMPOLINE \<longrightarrow> va \<noteq> TRAPFRAME \<longrightarrow> pte_of (pmem k) tab va = 0)"

lemma proc_pagetable_spec:
  assumes inv: "kmem_inv (k_end (syms s)) (q # ps) (smem s)" and room: "2 \<le> length ps"
  obtains k tab ps' where "proc_pagetable tf s = Inr (q, set_mem k s)" "q \<noteq> 0"
    "pt_state (k_end (syms s)) q tab ps' k" "length ps \<le> length ps' + 2" "set ps' \<subseteq> set ps"
    "fresh_table (k_trampoline (syms s)) tf k tab"
proof -
  let ?e = "k_end (syms s)"
  obtain k1 where k1: "uvmcreate (smem s) = (q, k1)" "pt_state ?e q [[] \<mapsto> q] ps k1" "q \<noteq> 0"
    "\<And>va. pte_of (pmem k1) [[] \<mapsto> q] va = 0"
    by (rule uvmcreate_spec [OF inv]) (rule that)
  have unused: "pte_of (pmem k1) [[] \<mapsto> q] TRAMPOLINE AND PTE_V = 0" by (simp add: k1(4))
  have two: "2 \<le> length ps \<or> [[] \<mapsto> q] [PX 2 TRAMPOLINE, PX 1 TRAMPOLINE] \<noteq> None" using room by simp
  obtain k2 t2 p2 where k2: "mappages q TRAMPOLINE PGSIZE (k_trampoline (syms s)) (PTE_R OR PTE_X) k1 = Inr (True, k2)"
    "pt_state ?e q t2 p2 k2" "[[] \<mapsto> q] \<subseteq>\<^sub>m t2" "set p2 \<subseteq> set ps" "t2 [PX 2 TRAMPOLINE, PX 1 TRAMPOLINE] \<noteq> None"
    "length ps \<le> length p2 + 2" "[[] \<mapsto> q] [PX 2 TRAMPOLINE, PX 1 TRAMPOLINE] \<noteq> None \<Longrightarrow> p2 = ps"
    "pte_of (pmem k2) t2 TRAMPOLINE = leaf (k_trampoline (syms s)) (PTE_R OR PTE_X)"
    "\<And>vb. vb < MAXVA \<Longrightarrow> aligned 4096 vb \<Longrightarrow> vb \<noteq> TRAMPOLINE \<Longrightarrow>
       pte_of (pmem k2) t2 vb = pte_of (pmem k1) [[] \<mapsto> q] vb"
    by (rule mappages_one [OF k1(2) user_top_paths(1,3) unused two]) (rule that)
  have there: "2 \<le> length p2 \<or> t2 [PX 2 TRAPFRAME, PX 1 TRAPFRAME] \<noteq> None" using k2(5) user_top_paths(6) by simp
  have unused': "pte_of (pmem k2) t2 TRAPFRAME AND PTE_V = 0" using k2(9) k1(4) user_top_paths by simp
  obtain k3 t3 p3 where k3: "mappages q TRAPFRAME PGSIZE tf (PTE_R OR PTE_W) k2 = Inr (True, k3)"
    "pt_state ?e q t3 p3 k3" "t2 \<subseteq>\<^sub>m t3" "set p3 \<subseteq> set p2" "t3 [PX 2 TRAPFRAME, PX 1 TRAPFRAME] \<noteq> None"
    "length p2 \<le> length p3 + 2" "t2 [PX 2 TRAPFRAME, PX 1 TRAPFRAME] \<noteq> None \<Longrightarrow> p3 = p2"
    "pte_of (pmem k3) t3 TRAPFRAME = leaf tf (PTE_R OR PTE_W)"
    "\<And>vb. vb < MAXVA \<Longrightarrow> aligned 4096 vb \<Longrightarrow> vb \<noteq> TRAPFRAME \<Longrightarrow> pte_of (pmem k3) t3 vb = pte_of (pmem k2) t2 vb"
    by (rule mappages_one [OF k2(2) user_top_paths(2,4) unused' there]) (rule that)
  have p3: "p3 = p2" using k3(7) k2(5) user_top_paths(6) by simp
  have "proc_pagetable tf s = Inr (q, set_mem k3 s)"
    using k1(1,3) k2(1) k3(1)
    by (simp add: proc_pagetable_def seq_def on_mem_def ret_def set_mem_def)
  moreover have "fresh_table (k_trampoline (syms s)) tf k3 t3"
    using k3(8,9) k2(8,9) k1(4) user_top_paths unfolding fresh_table_def by auto
  ultimately show ?thesis using k1(3) k2(4,6) k3(2) p3 by (intro that [of k3 t3 p3]) auto
qed

text \<open>A process structure as \<open>allocproc\<close> leaves it.\<close>

definition embryo :: "sys \<Rightarrow> nat \<Rightarrow> u64 \<Rightarrow> u64 \<Rightarrow> proc" where
  "embryo s i tf root = (procs s i)\<lparr>p_pid := nextpid s, p_state := USED, p_trapframe := tf, p_pagetable := root,
     p_context := (replicate 14 0)[0 := k_forkret (syms s), 1 := p_kstack (procs s i) + PGSIZE]\<rparr>"

lemma allocproc_spec:
  assumes slot: "first_slot (\<lambda>p. p_state p = UNUSED) (procs s) 0 NPROC = Some i"
    and inv: "kmem_inv (k_end (syms s)) (tf # root # ps) (smem s)" and room: "2 \<le> length ps"
  obtains s' tab ps' where "allocproc s = Inr (Some i, s')" "procs s' = (procs s)(i := embryo s i tf root)"
    "nextpid s' = nextpid s + 1" "ftab s' = ftab s" "curp s' = curp s"
    "pt_state (k_end (syms s)) root tab ps' (smem s')" "length ps \<le> length ps' + 2" "set ps' \<subseteq> set ps"
    "fresh_table (k_trampoline (syms s)) tf (smem s') tab"
proof -
  obtain k1 where k1: "kalloc (smem s) = (tf, k1)" "kmem_inv (k_end (syms s)) (root # ps) k1"
    using kalloc_inv [OF inv] by blast
  have tf: "tf \<noteq> 0" using inv by (auto simp: kmem_inv_def good_page_def)
  define s1 where "s1 = set_mem k1 (upd_proc i (\<lambda>p. p\<lparr>p_pid := nextpid s, p_state := USED\<rparr>) (s\<lparr>nextpid := nextpid s + 1\<rparr>))"
  define s2 where "s2 = upd_proc i (\<lambda>p. p\<lparr>p_trapframe := tf\<rparr>) s1"
  have s2: "syms s2 = syms s" "smem s2 = k1" "nextpid s2 = nextpid s + 1" "ftab s2 = ftab s" "curp s2 = curp s"
    "procs s2 = (procs s)(i := (procs s i)\<lparr>p_pid := nextpid s, p_state := USED, p_trapframe := tf\<rparr>)"
    by (simp_all add: s2_def s1_def set_mem_def upd_proc_def)
  have "kmem_inv (k_end (syms s2)) (root # ps) (smem s2)" using k1(2) s2 by simp
  from proc_pagetable_spec [OF this room, where tf = tf, unfolded s2] obtain k tab ps' where pt:
    "proc_pagetable tf s2 = Inr (root, set_mem k s2)" "root \<noteq> 0" "pt_state (k_end (syms s)) root tab ps' k"
    "length ps \<le> length ps' + 2" "set ps' \<subseteq> set ps" "fresh_table (k_trampoline (syms s)) tf k tab"
    by blast
  define s3 where "s3 = upd_proc i (\<lambda>p. p\<lparr>p_context := (replicate 14 0)[0 := k_forkret (syms s),
    1 := p_kstack p + PGSIZE]\<rparr>) (upd_proc i (\<lambda>p. p\<lparr>p_pagetable := root\<rparr>) (set_mem k s2))"
  have "allocproc s = Inr (Some i, s3)"
    using slot k1(1) tf pt(1,2) s2(1)
    by (simp add: allocproc_def allocpid_def seq_def on_mem_def s1_def s2_def s3_def Let_def)
  moreover have "procs s3 = (procs s)(i := embryo s i tf root)"
    by (simp add: s3_def upd_proc_def s2 embryo_def)
  ultimately show ?thesis
    using pt(3-) by (intro that [of s3 tab ps']) (simp_all add: s3_def s2)
qed

subsection \<open>Exit and wait\<close>

text \<open>What \<open>reparent\<close> means for one process.\<close>

definition adopted :: "nat \<Rightarrow> nat option \<Rightarrow> proc \<Rightarrow> proc" where
  "adopted p init r = (if p_parent r = Some p then r\<lparr>p_parent := init\<rparr> else r)"

lemma woken_adopted: "woken ch (adopted p q r) = adopted p q (woken ch r)"
  by (simp add: woken_def adopted_def)

lemma woken_twice [simp]: "woken ch (woken ch r) = woken ch r"
  by (simp add: woken_def)

lemma adopted_parent [simp]: "init \<noteq> Some p \<Longrightarrow> p_parent (adopted p init r) \<noteq> Some p"
  by (simp add: adopted_def)

lemma adopted_simps [simp]:
  "p_state (adopted p q r) = p_state r" "p_chan (adopted p q r) = p_chan r" "p_pid (adopted p q r) = p_pid r"
  "p_xstate (adopted p q r) = p_xstate r"
  by (simp_all add: adopted_def)

definition has_child :: "nat \<Rightarrow> nat \<Rightarrow> nat \<Rightarrow> sys \<Rightarrow> bool" where
  "has_child p i n s \<longleftrightarrow> (\<exists>c\<in>{i..<i + n}. p_parent (procs s c) = Some p)"

lemma has_child_Suc: "has_child p i (Suc n) s \<longleftrightarrow> p_parent (procs s i) = Some p \<or> has_child p (Suc i) n s"
proof -
  have "{i..<i + Suc n} = insert i {Suc i..<Suc i + n}" by auto
  then show ?thesis unfolding has_child_def by (simp only: bex_simps)
qed

lemma reparent_loop_frame:
  "initproc (reparent_loop p i n s) = initproc s \<and> curp (reparent_loop p i n s) = curp s"
  by (induction n arbitrary: i s) (simp_all add: wakeup_spec)

lemma reparent_loop_spec:
  "procs (reparent_loop p i n s) j =
    (let r = (if i \<le> j \<and> j < i + n then adopted p (initproc s) (procs s j) else procs s j)
     in if has_child p i n s \<and> j < NPROC \<and> j \<noteq> curp s then woken (map_option Chan_proc (initproc s)) r else r)"
proof (induction n arbitrary: i s)
  case (Suc n)
  let ?ch = "map_option Chan_proc (initproc s)"
  show ?case
  proof (cases "p_parent (procs s i) = Some p")
    case True
    define t where "t = wakeup ?ch (upd_proc i (\<lambda>q. q\<lparr>p_parent := initproc s\<rparr>) s)"
    have t: "initproc t = initproc s" "curp t = curp s"
      "procs t j = (let r = (if j = i then adopted p (initproc s) (procs s j) else procs s j)
         in if j < NPROC \<and> j \<noteq> curp s then woken ?ch r else r)" for j
      using True by (auto simp: t_def wakeup_spec procs_upd_proc adopted_def Let_def)
    have "has_child p i (Suc n) s" using True has_child_Suc by blast
    moreover have "reparent_loop p i (Suc n) s = reparent_loop p (Suc i) n t" using True by (simp add: t_def)
    ultimately show ?thesis
      using Suc.IH [of "Suc i" t] by (auto simp: t Let_def woken_adopted not_less_eq_eq dest: le_antisym)
  next
    case False
    then have "has_child p i (Suc n) s = has_child p (Suc i) n s" by (simp add: has_child_Suc)
    moreover have "adopted p (initproc s) (procs s i) = procs s i" using False by (simp add: adopted_def)
    ultimately show ?thesis
      using Suc.IH [of "Suc i" s] False by (auto simp: Let_def not_less_eq_eq dest: le_antisym)
  qed
qed (auto simp: has_child_def)

lemma reparent_spec:
  "procs (reparent p s) j =
    (let r = (if j < NPROC then adopted p (initproc s) (procs s j) else procs s j)
     in if has_child p 0 NPROC s \<and> j < NPROC \<and> j \<noteq> curp s then woken (map_option Chan_proc (initproc s)) r else r)"
  "initproc (reparent p s) = initproc s" "curp (reparent p s) = curp s"
  by (simp_all add: reparent_def reparent_loop_spec reparent_loop_frame)

text \<open>The first child that has exited, and the scan of \<open>kwait\<close>.\<close>

definition dead_child :: "nat \<Rightarrow> proc \<Rightarrow> bool" where
  "dead_child p r \<longleftrightarrow> p_parent r = Some p \<and> p_state r = ZOMBIE"

definition reap :: "u64 \<Rightarrow> nat \<Rightarrow> int sysm" where
  "reap addr c s =
     seq (if addr \<noteq> 0 then user_copyout addr (le_bytes 4 (p_xstate (procs s c))) else ret True) (\<lambda>ok.
       if ok then seq (freeproc c) (\<lambda>_. ret (sint (p_pid (procs s c)))) else ret (-1)) s"

lemma kwait_scan_spec:
  "kwait_scan addr i n hk s =
     (case first_slot (dead_child (curp s)) (procs s) i n of
        Some c \<Rightarrow> seq (reap addr c) (\<lambda>v. ret (Some v, True)) s
      | None \<Rightarrow> Inr ((None, hk \<or> has_child (curp s) i n s), s))"
proof (induction n arbitrary: i hk)
  case (Suc n)
  have r: "seq (if addr \<noteq> 0 then user_copyout addr (le_bytes 4 (p_xstate (procs s i))) else ret True) (\<lambda>ok.
        if \<not> ok then ret (Some (- 1), True)
        else seq (freeproc i) (\<lambda>_. ret (Some (sint (p_pid (procs s i))), True))) s =
      seq (reap addr i) (\<lambda>v. ret (Some v, True)) s"
    by (auto simp: reap_def seq_def ret_def bind_result_def split: sum.splits)
  show ?case
    using Suc.IH [of "Suc i"] r by (auto simp: dead_child_def Let_def has_child_Suc split: option.splits)
qed (simp add: has_child_def)

lemma kwait_spec:
  "kwait addr s =
     (case first_slot (dead_child (curp s)) (procs s) 0 NPROC of
        Some c \<Rightarrow> seq (reap addr c) (\<lambda>v. ret (Returns v)) s
      | None \<Rightarrow> if \<not> has_child (curp s) 0 NPROC s \<or> killed (curp s) s then Inr (Returns (-1), s)
                else Inr (Sleeps 0, sleep_on (Chan_proc (curp s)) s))"
  by (auto simp: kwait_def kwait_scan_spec seq_def ret_def bind_result_def split: option.splits sum.splits)

lemma proc_freepagetable_tables: "proc_freepagetable pt sz s = Inr (u, s') \<Longrightarrow> same_tables s s'"
  by (auto simp: proc_freepagetable_def seq_Inr_iff dest!: on_mem_unit_tables intro: same_tables_trans)

lemma freeproc_result:
  assumes "freeproc i s = Inr (u, s')"
  shows "procs s' = (procs s)(i := (procs s i)\<lparr>p_trapframe := 0, p_pagetable := 0, p_sz := 0, p_pid := 0,
      p_parent := None, p_name := (p_name (procs s i))[0 := 0], p_chan := None, p_killed := False,
      p_xstate := 0, p_state := UNUSED\<rparr>)"
    "curp s' = curp s" "ftab s' = ftab s" "nextpid s' = nextpid s" "initproc s' = initproc s"
proof -
  have "\<exists>s1 s2. same_tables s s1 \<and> same_tables (upd_proc i (\<lambda>p. p\<lparr>p_trapframe := 0\<rparr>) s1) s2 \<and>
    s' = upd_proc i (\<lambda>p. p\<lparr>p_pagetable := 0, p_sz := 0, p_pid := 0, p_parent := None,
          p_name := (p_name p)[0 := 0], p_chan := None, p_killed := False, p_xstate := 0, p_state := UNUSED\<rparr>) s2"
    using assms
    by (auto simp: freeproc_def seq_Inr_iff ret_def Let_def split: if_splits
        dest!: on_mem_unit_tables proc_freepagetable_tables intro: same_tables_refl)
  then show "procs s' = (procs s)(i := (procs s i)\<lparr>p_trapframe := 0, p_pagetable := 0, p_sz := 0, p_pid := 0,
      p_parent := None, p_name := (p_name (procs s i))[0 := 0], p_chan := None, p_killed := False,
      p_xstate := 0, p_state := UNUSED\<rparr>)" "curp s' = curp s" "ftab s' = ftab s" "nextpid s' = nextpid s"
      "initproc s' = initproc s"
    by (auto simp: same_tables_def upd_proc_def fun_eq_iff)
qed

definition freed_slot :: "nat \<Rightarrow> sys \<Rightarrow> sys \<Rightarrow> bool" where
  "freed_slot c s s' \<longleftrightarrow> p_state (procs s' c) = UNUSED \<and> p_pid (procs s' c) = 0 \<and> p_parent (procs s' c) = None \<and>
     (\<forall>j. j \<noteq> c \<longrightarrow> procs s' j = procs s j)"

lemma freeproc_freed: "freeproc c t = Inr (u, s') \<Longrightarrow> same_tables s t \<Longrightarrow> freed_slot c s s'"
  by (drule freeproc_result(1)) (auto simp: freed_slot_def same_tables_def)

lemma reap_result:
  "reap addr c s = Inr (v, s') \<Longrightarrow>
     v = -1 \<and> procs s' = procs s \<or> freed_slot c s s' \<and> v = sint (p_pid (procs s c))"
  by (auto simp: reap_def seq_Inr_iff ret_def split: if_splits
      dest!: user_copyout_tables intro: freeproc_freed freeproc_freed [OF _ same_tables_refl])
    (auto simp: same_tables_def)

section \<open>Properties\<close>

text \<open>The state at boot, before \<open>procinit\<close>: zeroed tables. It is the starting point of the examples.\<close>

definition zero_proc :: proc where
  "zero_proc = \<lparr>p_state = UNUSED, p_chan = None, p_killed = False, p_xstate = 0, p_pid = 0, p_parent = None,
     p_kstack = 0, p_sz = 0, p_pagetable = 0, p_trapframe = 0, p_context = replicate 14 0,
     p_ofile = replicate NOFILE None, p_cwd = None, p_name = replicate 16 0\<rparr>"

definition zero_file :: kfile where
  "zero_file = \<lparr>f_type = FD_NONE, f_ref = 0, f_readable = False, f_writable = False, f_pipe = 0, f_ip = 0,
     f_off = 0, f_major = 0\<rparr>"

definition boot_sys :: "fs \<Rightarrow> sys" where
  "boot_sys f = \<lparr>sfs = f, procs = (\<lambda>_. zero_proc), initproc = None, nextpid = 1, ftab = (\<lambda>_. zero_file),
     pipes = (\<lambda>_. new_pipe (replicate 512 0)), ticks = 0,
     syms = \<lparr>k_end = 0x80000800, k_trampoline = 0x80000000, k_forkret = 0x80000400\<rparr>, forkret_first = True, curp = 0\<rparr>"

text \<open>\<open>wakeup\<close> makes runnable exactly the processes of the table, other than the caller, that sleep on
  the given channel, and changes nothing else.\<close>

theorem wakeup_exact:
  "wakeup ch s = s\<lparr>procs := (\<lambda>j. if j < NPROC \<and> j \<noteq> curp s \<and> p_state (procs s j) = SLEEPING \<and> p_chan (procs s j) = ch
     then (procs s j)\<lparr>p_state := RUNNABLE\<rparr> else procs s j)\<rparr>"
  by (rule sys.equality) (auto simp: wakeup_spec woken_def fun_eq_iff)

text \<open>C19: With a free slot and four free pages \<open>allocproc\<close> succeeds: it returns the first unused slot, marked
  \<open>USED\<close> with the next process id, a trapframe page, and a page table that maps the trampoline and
  that trapframe at the top of the address space and nothing else; no other process changes, and
  what remains of the free list is disjoint from the pages of the new table.\<close>

theorem allocproc_correct:
  assumes "i < NPROC" "p_state (procs s i) = UNUSED" "\<forall>j<i. p_state (procs s j) \<noteq> UNUSED"
    and "kmem_inv (k_end (syms s)) (tf # root # ps) (smem s)" "2 \<le> length ps"
  shows "\<exists>s' tab ps'. allocproc s = Inr (Some i, s') \<and> procs s' = (procs s)(i := embryo s i tf root) \<and>
    nextpid s' = nextpid s + 1 \<and> pt_state (k_end (syms s)) root tab ps' (smem s') \<and>
    length ps \<le> length ps' + 2 \<and> tf \<notin> set ps' \<and> fresh_table (k_trampoline (syms s)) tf (smem s') tab"
proof -
  have slot: "first_slot (\<lambda>p. p_state p = UNUSED) (procs s) 0 NPROC = Some i" using assms(1-3) by (simp add: first_slot_Some)
  have "tf \<notin> set ps" using assms(4) by (auto simp: kmem_inv_def)
  then show ?thesis by - (rule allocproc_spec [OF slot assms(4,5)], blast)
qed

definition kmem_ex4 :: kmem where
  "kmem_ex4 = (case kfree 0x80000800 0x80005000 kmem_ex of
      Inr k \<Rightarrow> (case kfree 0x80000800 0x80004000 k of Inr k' \<Rightarrow> k' | Inl e \<Rightarrow> k) | Inl e \<Rightarrow> kmem_ex)"

lemma kmem_ex4_inv: "kmem_inv 0x80000800 [0x80004000, 0x80005000, 0x80003000, 0x80001000] kmem_ex4"
proof -
  have g: "good_page 0x80000800 0x80004000" "good_page 0x80000800 0x80005000"
    by (simp_all add: good_page_def PHYSTOP_def KERNBASE_def PGSIZE_def)
  obtain k where k: "kfree 0x80000800 0x80005000 kmem_ex = Inr k"
    "kmem_inv 0x80000800 [0x80005000, 0x80003000, 0x80001000] k"
    using kfree_inv [OF kmem_ex_inv g(2)] by auto
  obtain k' where "kfree 0x80000800 0x80004000 k = Inr k'"
    "kmem_inv 0x80000800 [0x80004000, 0x80005000, 0x80003000, 0x80001000] k'"
    using kfree_inv [OF k(2) g(1)] by auto
  with k(1) show ?thesis by (simp add: kmem_ex4_def)
qed

definition alloc_ex :: sys where
  "alloc_ex = set_mem kmem_ex4 (boot_sys fs_ex)"

lemma alloc_ex_simps:
  "procs alloc_ex j = zero_proc" "k_end (syms alloc_ex) = 0x80000800" "smem alloc_ex = kmem_ex4"
  "nextpid alloc_ex = 1" "curp alloc_ex = 0"
  by (simp_all add: alloc_ex_def boot_sys_def)

theorem allocproc_correct_witness:
  "\<exists>s' tab ps'. allocproc alloc_ex = Inr (Some 0, s') \<and> p_pid (procs s' 0) = 1 \<and>
     pt_state 0x80000800 0x80005000 tab ps' (smem s') \<and> fresh_table (k_trampoline (syms alloc_ex)) 0x80004000 (smem s') tab"
proof -
  have "p_pid (embryo alloc_ex 0 tf root) = 1" for tf root by (simp add: embryo_def alloc_ex_simps)
  then show ?thesis
    using allocproc_correct [of 0 alloc_ex "0x80004000" "0x80005000" "[0x80003000, 0x80001000]"] kmem_ex4_inv
    by (simp add: alloc_ex_simps zero_proc_def NPROC_def) (metis fun_upd_same)
qed

text \<open>\<open>kkill\<close> does not exclude process id 0, which every unused slot carries: \<open>kill(0)\<close> reports success
  and marks the first unused slot as killed. \<open>allocproc\<close> does not clear the mark, so the next process
  created, in that very slot, is killed from the start.\<close>

theorem kkill_zero_kills_next_process:
  assumes "i < NPROC" "p_state (procs s i) = UNUSED"
    and "\<forall>j\<le>i. p_pid (procs s j) = 0 \<longleftrightarrow> p_state (procs s j) = UNUSED" "\<forall>j<i. p_state (procs s j) \<noteq> UNUSED"
    and "kmem_inv (k_end (syms s)) (tf # root # ps) (smem s)" "2 \<le> length ps"
  shows "\<exists>s1 s2. kkill 0 s = (0, s1) \<and> allocproc s1 = Inr (Some i, s2) \<and>
    p_state (procs s2 i) = USED \<and> p_killed (procs s2 i)"
proof -
  have "first_slot (\<lambda>p. p_pid p = 0) (procs s) 0 NPROC = Some i" using assms(1-4) by (auto simp: first_slot_Some)
  then have k: "kkill 0 s = (0, upd_proc i (\<lambda>p. p\<lparr>p_killed := True\<rparr>) s)"
    using assms(2) by (simp add: kkill_def upd_proc_def Let_def)
  let ?t = "upd_proc i (\<lambda>p. p\<lparr>p_killed := True\<rparr>) s"
  have "first_slot (\<lambda>p. p_state p = UNUSED) (procs ?t) 0 NPROC = Some i"
    using assms(1,2,4) by (auto simp: first_slot_Some procs_upd_proc)
  moreover have "kmem_inv (k_end (syms ?t)) (tf # root # ps) (smem ?t)" using assms(5) by simp
  ultimately obtain s2 where "allocproc ?t = Inr (Some i, s2)" "procs s2 = (procs ?t)(i := embryo ?t i tf root)"
    using allocproc_spec [OF _ _ assms(6)] by metis
  then show ?thesis using k by (simp add: embryo_def procs_upd_proc)
qed

theorem kkill_zero_kills_next_process_witness:
  "\<exists>s1 s2. kkill 0 alloc_ex = (0, s1) \<and> allocproc s1 = Inr (Some 0, s2) \<and>
    p_state (procs s2 0) = USED \<and> p_killed (procs s2 0)"
  using kkill_zero_kills_next_process [of 0 alloc_ex "0x80004000" "0x80005000" "[0x80003000, 0x80001000]"] kmem_ex4_inv
  by (auto simp: alloc_ex_simps zero_proc_def NPROC_def)

text \<open>C18: When \<open>kwait\<close> comes back it has either reaped a child that had exited, returned that child's
  process id and given its slot back, with every other process unchanged; or returned -1 with the
  process table unchanged; or the caller sleeps on its own channel, and then it has a child, no
  child has exited and the caller is not killed.\<close>

theorem kwait_correct:
  assumes "kwait addr s = Inr (r, s')"
  shows "(\<exists>c<NPROC. dead_child (curp s) (procs s c) \<and> r = Returns (sint (p_pid (procs s c))) \<and>
            freed_slot c s s') \<or>
    (r = Returns (-1) \<and> procs s' = procs s) \<or>
    (r = Sleeps 0 \<and> has_child (curp s) 0 NPROC s \<and> (\<forall>c<NPROC. \<not> dead_child (curp s) (procs s c)) \<and>
      \<not> killed (curp s) s \<and> s' = sleep_on (Chan_proc (curp s)) s)"
proof (cases "first_slot (dead_child (curp s)) (procs s) 0 NPROC")
  case None
  then have "\<forall>c<NPROC. \<not> dead_child (curp s) (procs s c)" by (simp add: first_slot_None)
  then show ?thesis using assms None by (auto simp: kwait_spec split: if_splits)
next
  case (Some c)
  then have c: "c < NPROC" "dead_child (curp s) (procs s c)" by (simp_all add: first_slot_Some)
  from Some assms obtain v where v: "reap addr c s = Inr (v, s')" "r = Returns v"
    by (auto simp: kwait_spec seq_Inr_iff ret_def)
  consider "v = -1" "procs s' = procs s" | "freed_slot c s s'" "v = sint (p_pid (procs s c))"
    using reap_result [OF v(1)] by blast
  then show ?thesis using c v(2) by cases (auto simp: freed_slot_def)
qed

text \<open>A parent in slot 0 whose child in slot 1 has exited.\<close>

definition wait_ex :: sys where
  "wait_ex = upd_proc 1 (\<lambda>p. p\<lparr>p_parent := Some 0, p_state := ZOMBIE, p_pid := 7\<rparr>) (boot_sys fs_ex)"

lemma wait_ex_runs: "\<exists>s'. kwait 0 wait_ex = Inr (Returns 7, s')"
proof -
  have "first_slot (dead_child (curp wait_ex)) (procs wait_ex) 0 NPROC = Some 1"
    by (auto simp: first_slot_Some NPROC_def wait_ex_def procs_upd_proc dead_child_def boot_sys_def zero_proc_def)
  moreover have "p_trapframe (procs wait_ex 1) = 0" "p_pagetable (procs wait_ex 1) = 0" "p_pid (procs wait_ex 1) = 7"
    by (simp_all add: wait_ex_def procs_upd_proc boot_sys_def zero_proc_def)
  ultimately show ?thesis
    by (simp add: kwait_spec reap_def freeproc_def seq_def ret_def Let_def procs_upd_proc)
qed

theorem kwait_correct_witness:
  "\<exists>s' c. kwait 0 wait_ex = Inr (Returns 7, s') \<and> dead_child 0 (procs wait_ex c) \<and> p_state (procs s' c) = UNUSED"
proof -
  obtain s' where "kwait 0 wait_ex = Inr (Returns 7, s')" using wait_ex_runs by blast
  moreover have "curp wait_ex = 0" by (simp add: wait_ex_def boot_sys_def)
  ultimately show ?thesis using kwait_correct [of 0 wait_ex "Returns 7" s'] by (auto simp: freed_slot_def)
qed

text \<open>C17: A process that exits leaves no child behind: its children go to the init process, which is woken
  if it waits. The process becomes a zombie with its exit status, its parent is woken if it waits,
  and when that parent runs again \<open>kwait\<close> goes on to reap a child that has exited instead of
  sleeping again.\<close>

theorem exit_meets_wait:
  assumes "curp s = c" "c < NPROC" "q < NPROC" "q \<noteq> c" "p_parent (procs s c) = Some q"
    and "initproc s = Some r" "r \<noteq> c"
    and "p_state (procs s q) = SLEEPING" "p_chan (procs s q) = Some (Chan_proc q)"
    and s'_def: "s' = become_zombie status s"
  shows "p_state (procs s' c) = ZOMBIE \<and> p_xstate (procs s' c) = status \<and>
    p_state (procs s' q) = RUNNABLE \<and>
    (\<forall>j<NPROC. p_parent (procs s' j) =
       (if p_parent (procs s j) = Some c then Some r else p_parent (procs s j))) \<and>
    (has_child c 0 NPROC s \<and> r < NPROC \<and> p_state (procs s r) = SLEEPING \<and> p_chan (procs s r) = Some (Chan_proc r)
       \<longrightarrow> p_state (procs s' r) = RUNNABLE) \<and>
    (\<exists>d<NPROC. dead_child q (procs s' d) \<and>
       kwait addr (sleep_return (s'\<lparr>curp := q\<rparr>)) =
         seq (reap addr d) (\<lambda>v. ret (Returns v)) (sleep_return (s'\<lparr>curp := q\<rparr>)))"
proof -
  define s1 where "s1 = reparent c s"
  define s2 where "s2 = wakeup (Some (Chan_proc q)) s1"
  have s1: "initproc s1 = Some r" "curp s1 = c"
    "procs s1 j = (let x = (if j < NPROC then adopted c (Some r) (procs s j) else procs s j)
       in if has_child c 0 NPROC s \<and> j < NPROC \<and> j \<noteq> c then woken (Some (Chan_proc r)) x else x)" for j
    using assms(1,6) by (auto simp: s1_def reparent_spec Let_def)
  have par: "p_parent (procs s1 c) = Some q" using assms(2,4,5) by (simp add: s1(3) adopted_def)
  have s2: "curp s2 = c" "procs s2 j = (if j < NPROC \<and> j \<noteq> c then woken (Some (Chan_proc q)) (procs s1 j) else procs s1 j)" for j
    by (simp_all add: s2_def wakeup_spec s1)
  have s': "s' = upd_proc c (\<lambda>p. p\<lparr>p_xstate := status, p_state := ZOMBIE\<rparr>) s2"
    using assms(1) s1(2) par s2(1) by (simp add: s'_def become_zombie_def Let_def flip: s1_def s2_def)
  have z: "p_state (procs s' c) = ZOMBIE" "p_xstate (procs s' c) = status" by (simp_all add: s' procs_upd_proc)
  have woke: "p_state (procs s' q) = RUNNABLE"
    using assms(3,4,8,9) by (simp add: s' procs_upd_proc s2(2) s1(3) Let_def woken_def)
  have parents: "p_parent (procs s' j) = (if p_parent (procs s j) = Some c then Some r else p_parent (procs s j))"
    if "j < NPROC" for j
    using that by (simp add: s' procs_upd_proc s2(2) s1(3) Let_def adopted_def)
  have init: "p_state (procs s' r) = RUNNABLE" if "has_child c 0 NPROC s" "r < NPROC"
    "p_state (procs s r) = SLEEPING" "p_chan (procs s r) = Some (Chan_proc r)"
    using that assms(7) by (simp add: s' procs_upd_proc s2(2) s1(3) Let_def woken_def)
  let ?t = "sleep_return (s'\<lparr>curp := q\<rparr>)"
  have t: "curp ?t = q" "dead_child q (procs ?t j) = dead_child q (procs s' j)" for j
    by (simp_all add: sleep_return_def procs_upd_proc dead_child_def)
  have "dead_child q (procs ?t c)"
    unfolding t(2) using assms(2,4,5) z(1) parents [of c] by (simp add: dead_child_def)
  then obtain d where "first_slot (dead_child q) (procs ?t) 0 NPROC = Some d"
    using assms(2) first_slot_None [of "dead_child q" "procs ?t" NPROC] by fastforce
  moreover from this have "d < NPROC" "dead_child q (procs s' d)" by (simp_all add: first_slot_Some flip: t(2))
  ultimately have "\<exists>d<NPROC. dead_child q (procs s' d) \<and> kwait addr ?t = seq (reap addr d) (\<lambda>v. ret (Returns v)) ?t"
    by (auto simp: kwait_spec t(1))
  with z woke parents init show ?thesis by blast
qed

definition exit_ex :: sys where
  "exit_ex = upd_proc 1 (\<lambda>p. p\<lparr>p_parent := Some 0, p_state := RUNNING\<rparr>)
     (upd_proc 0 (\<lambda>p. p\<lparr>p_state := SLEEPING, p_chan := Some (Chan_proc 0)\<rparr>)
       ((boot_sys fs_ex)\<lparr>initproc := Some 0, curp := 1\<rparr>))"

theorem exit_meets_wait_witness:
  "p_state (procs (become_zombie 3 exit_ex) 1) = ZOMBIE \<and> p_state (procs (become_zombie 3 exit_ex) 0) = RUNNABLE"
  using exit_meets_wait [of exit_ex 1 0 0 "become_zombie 3 exit_ex" 3 0]
  by (simp add: exit_ex_def procs_upd_proc NPROC_def boot_sys_def)

end
