(* ===== verification/File.thy ===== *)
theory File
  imports Proc
begin

text \<open>
  \<^verbatim>\<open>kernel/file.c\<close> and \<open>pipealloc\<close> of \<^verbatim>\<open>kernel/pipe.c\<close>: the table of open files. A pipe is named by the
  address of its page. The device switch \<open>devsw\<close> is a table of functions that drivers fill in at run
  time, so it is an argument of \<open>fileread\<close> and \<open>filewrite\<close>. A read or write that has to wait leaves
  the process sleeping on the channel of the pipe or of the device and has the outcome \<open>Sleeps\<close>.
\<close>

section \<open>Allocation and reference counts\<close>

definition filealloc :: "sys \<Rightarrow> nat option \<times> sys" where
  "filealloc s =
     (case first_slot (\<lambda>f. f_ref f = 0) (ftab s) 0 NFILE of
        Some i \<Rightarrow> (Some i, upd_file i (\<lambda>f. f\<lparr>f_ref := 1\<rparr>) s)
      | None \<Rightarrow> (None, s))"

definition filedup :: "nat \<Rightarrow> nat sysm" where
  "filedup i s =
     (if f_ref (ftab s i) < 1 then Inl (Panic ''filedup'')
      else Inr (i, upd_file i (\<lambda>f. f\<lparr>f_ref := f_ref f + 1\<rparr>) s))"

text \<open>\<open>pipeclose\<close> on a pipe of the system: the wakeups go to the process table and the page, when both
  ends are closed, to the page allocator.\<close>

definition wake_pipe :: "u64 \<Rightarrow> pchan list \<Rightarrow> sys \<Rightarrow> sys" where
  "wake_pipe pi chs s = foldl (\<lambda>s ch. wakeup (Some (Chan_pipe pi ch)) s) s chs"

definition close_pipe :: "u64 \<Rightarrow> bool \<Rightarrow> unit sysm" where
  "close_pipe pi writable s =
     (let (chs, x, freed) = pipeclose writable (pipes s pi);
          s = wake_pipe pi chs (s\<lparr>pipes := (pipes s)(pi := x)\<rparr>)
      in if freed then on_mem_unit (kfree (k_end (syms s)) pi) s else Inr ((), s))"

definition fileclose :: "nat \<Rightarrow> unit sysm" where
  "fileclose i s =
     (if f_ref (ftab s i) < 1 then Inl (Panic ''fileclose'')
      else let s = upd_file i (\<lambda>f. f\<lparr>f_ref := f_ref f - 1\<rparr>) s
           in if f_ref (ftab s i) > 0 then Inr ((), s)
              else let ff = ftab s i; s = upd_file i (\<lambda>f. f\<lparr>f_ref := 0, f_type := FD_NONE\<rparr>) s
                   in if f_type ff = FD_PIPE then close_pipe (f_pipe ff) (f_writable ff) s
                      else if f_type ff = FD_INODE \<or> f_type ff = FD_DEVICE
                      then seq sys_begin_op (\<lambda>_. seq (run_fs (iput (f_ip ff))) (\<lambda>_. sys_end_op)) s
                      else Inr ((), s))"

definition pipealloc :: "(nat \<times> nat) option sysm" where
  "pipealloc s =
     (case filealloc s of
        (None, s) \<Rightarrow> Inr (None, s)
      | (Some f0, s) \<Rightarrow>
          (case filealloc s of
             (None, s) \<Rightarrow> seq (fileclose f0) (\<lambda>_. ret None) s
           | (Some f1, s) \<Rightarrow>
               seq (on_mem (\<lambda>k. Inr (kalloc k))) (\<lambda>pi s.
                 if pi = 0 then seq (fileclose f0) (\<lambda>_. seq (fileclose f1) (\<lambda>_. ret None)) s
                 else let s = s\<lparr>pipes := (pipes s)(pi := (pipes s pi)\<lparr>readopen := True, writeopen := True, nwrite := 0, nread := 0\<rparr>)\<rparr>;
                          s = upd_file f0 (\<lambda>f. f\<lparr>f_type := FD_PIPE, f_readable := True, f_writable := False, f_pipe := pi\<rparr>) s;
                          s = upd_file f1 (\<lambda>f. f\<lparr>f_type := FD_PIPE, f_readable := False, f_writable := True, f_pipe := pi\<rparr>) s
                      in Inr (Some (f0, f1), s)) s))"

section \<open>Reading and writing\<close>

text \<open>\<open>struct stat\<close> as it lies in memory; its four bytes of padding are not initialised by \<open>stati\<close>.\<close>

definition stat_bytes :: "u8 list \<Rightarrow> stat \<Rightarrow> u8 list" where
  "stat_bytes pad st = le_bytes 4 (st_dev st) @ le_bytes 4 (st_ino st) @ le_bytes 2 (st_type st) @
     le_bytes 2 (st_nlink st) @ pad @ le_bytes 8 (st_size st)"

definition filestat :: "u8 list \<Rightarrow> nat \<Rightarrow> u64 \<Rightarrow> int sysm" where
  "filestat pad i addr s =
     (if f_type (ftab s i) = FD_INODE \<or> f_type (ftab s i) = FD_DEVICE
      then let ip = f_ip (ftab s i)
           in seq (run_fs (ilock (Some ip))) (\<lambda>_ s.
              let st = stati ip (sfs s)
              in seq (run_fs (iunlock (Some ip))) (\<lambda>_.
                 seq (user_copyout addr (stat_bytes pad st)) (\<lambda>ok. ret (if ok then 0 else -1))) s) s
      else Inr (-1, s))"

text \<open>A pipe transfer of the running process, which sleeps on the pipe when the transfer says so: on
  \<open>nwrite\<close> in \<open>pipewrite\<close>, on \<open>nread\<close> in \<open>piperead\<close>.\<close>

definition pipe_io :: "(uproc \<Rightarrow> pipe \<Rightarrow> kmem \<Rightarrow> (outcome \<times> pchan list \<times> pipe \<times> kmem) result) \<Rightarrow>
    pchan \<Rightarrow> u64 \<Rightarrow> outcome sysm" where
  "pipe_io io ch pi s =
     bind_result (io (user_of s) (pipes s pi) (smem s)) (\<lambda>(r, chs, x, k).
       let s = wake_pipe pi chs (set_mem k (s\<lparr>pipes := (pipes s)(pi := x)\<rparr>))
       in case r of
            Returns v \<Rightarrow> Inr (Returns v, s)
          | Sleeps i \<Rightarrow> Inr (Sleeps i, sleep_on (Chan_pipe pi ch) s))"

type_synonym devfun = "u64 \<Rightarrow> cint \<Rightarrow> outcome sysm"

definition dev_call :: "(nat \<Rightarrow> devfun option) \<Rightarrow> u16 \<Rightarrow> u64 \<Rightarrow> cint \<Rightarrow> outcome sysm" where
  "dev_call devsw major addr n s =
     (if sint major < 0 \<or> sint major \<ge> int NDEV then Inr (Returns (-1), s)
      else case devsw (unat major) of None \<Rightarrow> Inr (Returns (-1), s) | Some f \<Rightarrow> f addr n s)"

definition fileread :: "(nat \<Rightarrow> devfun option) \<Rightarrow> nat \<Rightarrow> u64 \<Rightarrow> cint \<Rightarrow> outcome sysm" where
  "fileread devread i addr n s =
     (let f = ftab s i
      in if \<not> f_readable f then Inr (Returns (-1), s)
         else (case f_type f of
           FD_PIPE \<Rightarrow> pipe_io (\<lambda>p. piperead p addr (sint n)) Chan_nread (f_pipe f) s
         | FD_DEVICE \<Rightarrow> dev_call devread (f_major f) addr n s
         | FD_INODE \<Rightarrow>
             seq (run_fs (ilock (Some (f_ip f)))) (\<lambda>_.
             seq (run_fs (readi (f_ip f) (User_dst addr) (f_off f) n)) (\<lambda>(r, _) s.
               let s = (if r > 0 then upd_file i (\<lambda>f. f\<lparr>f_off := f_off f + of_int r\<rparr>) s else s)
               in seq (run_fs (iunlock (Some (f_ip f)))) (\<lambda>_. ret (Returns r)) s)) s
         | FD_NONE \<Rightarrow> Inl (Panic ''fileread'')))"

definition max_write :: int where "max_write = ((int MAXOPBLOCKS - 1 - 1 - 2) div 2) * int BSIZE"

text \<open>One turn of the loop of \<open>filewrite\<close>, one transaction: the result of \<open>writei\<close>.\<close>

definition write_chunk :: "nat \<Rightarrow> u64 \<Rightarrow> int \<Rightarrow> int sysm" where
  "write_chunk i addr n1 s =
     (let ip = f_ip (ftab s i)
      in seq sys_begin_op (\<lambda>_.
         seq (run_fs (ilock (Some ip))) (\<lambda>_ s.
         seq (run_fs (writei ip (User_src addr) (f_off (ftab s i)) (of_int n1))) (\<lambda>r s.
           let s = (if r > 0 then upd_file i (\<lambda>f. f\<lparr>f_off := f_off f + of_int r\<rparr>) s else s)
           in seq (run_fs (iunlock (Some ip))) (\<lambda>_. seq sys_end_op (\<lambda>_. ret r)) s) s)) s)"

function filewrite_loop :: "nat \<Rightarrow> u64 \<Rightarrow> int \<Rightarrow> int \<Rightarrow> int sysm" where
  "filewrite_loop f addr i n s =
     (if i < n
      then let n1 = min (n - i) max_write
           in (case write_chunk f (addr + of_int i) n1 s of
                 Inl e \<Rightarrow> Inl e
               | Inr (r, s) \<Rightarrow> if r \<noteq> n1 then Inr (i, s) else filewrite_loop f addr (i + r) n s)
      else Inr (i, s))"
  by pat_completeness auto
termination
  by (relation "measure (\<lambda>(f, addr, i, n, s). nat (n - i))")
    (auto simp: max_write_def MAXOPBLOCKS_def BSIZE_def)

declare filewrite_loop.simps [simp del]

definition filewrite :: "(nat \<Rightarrow> devfun option) \<Rightarrow> nat \<Rightarrow> u64 \<Rightarrow> cint \<Rightarrow> outcome sysm" where
  "filewrite devwrite i addr n s =
     (let f = ftab s i
      in if \<not> f_writable f then Inr (Returns (-1), s)
         else (case f_type f of
           FD_PIPE \<Rightarrow> pipe_io (\<lambda>p. pipewrite p addr (sint n)) Chan_nwrite (f_pipe f) s
         | FD_DEVICE \<Rightarrow> dev_call devwrite (f_major f) addr n s
         | FD_INODE \<Rightarrow> seq (filewrite_loop i addr 0 (sint n)) (\<lambda>j.
             ret (Returns (if j = sint n then sint n else -1))) s
         | FD_NONE \<Rightarrow> Inl (Panic ''filewrite'')))"

end
