(* ===== verification/Fork.thy ===== *)
theory Fork
  imports File
begin

text \<open>
  The parts of \<^verbatim>\<open>kernel/proc.c\<close> that work on open files: \<open>userinit\<close>, \<open>kfork\<close> and \<open>kexit\<close>. The trapframe
  of a process is the page at \<open>p_trapframe\<close>; its registers are read and written there at the offsets
  of \<^verbatim>\<open>struct trapframe\<close>. \<open>kexit\<close> does not return: the model ends where it calls \<open>sched\<close>.
\<close>

definition TF_SIZE :: nat where "TF_SIZE = 288"
definition TF_EPC :: u64 where "TF_EPC = 24"
definition TF_SP :: u64 where "TF_SP = 48"
definition TF_A0 :: u64 where "TF_A0 = 112"
definition TF_A1 :: u64 where "TF_A1 = 120"
definition TF_A7 :: u64 where "TF_A7 = 168"

definition tf_get :: "u64 \<Rightarrow> sys \<Rightarrow> u64" where
  "tf_get off s = load64 (pmem (smem s)) (p_trapframe (myproc s) + off)"

definition tf_set :: "nat \<Rightarrow> u64 \<Rightarrow> u64 \<Rightarrow> sys \<Rightarrow> sys" where
  "tf_set i off v s = set_mem (set_mem64 (p_trapframe (procs s i) + off) v (smem s)) s"

definition set_ofile :: "nat \<Rightarrow> nat \<Rightarrow> nat option \<Rightarrow> sys \<Rightarrow> sys" where
  "set_ofile i fd fo = upd_proc i (\<lambda>p. p\<lparr>p_ofile := (p_ofile p)[fd := fo]\<rparr>)"

section \<open>Operations\<close>

definition userinit :: "unit sysm" where
  "userinit =
     seq allocproc (\<lambda>r s.
       case r of
         None \<Rightarrow> Inl (UB ''userinit: null process'')
       | Some i \<Rightarrow>
           seq (run_fs (namei [47])) (\<lambda>ip s.
             Inr ((), upd_proc i (\<lambda>p. p\<lparr>p_cwd := ip, p_state := RUNNABLE\<rparr>) s)) (s\<lparr>initproc := Some i\<rparr>))"

text \<open>The loop of \<open>kfork\<close> over the file descriptors from \<open>fd\<close> on.\<close>

fun dup_files :: "nat \<Rightarrow> nat \<Rightarrow> nat \<Rightarrow> unit sysm" where
  "dup_files np fd 0 s = Inr ((), s)"
| "dup_files np fd (Suc n) s =
     (case p_ofile (myproc s) ! fd of
        None \<Rightarrow> dup_files np (Suc fd) n s
      | Some f \<Rightarrow> seq (filedup f) (\<lambda>f s. dup_files np (Suc fd) n (set_ofile np fd (Some f) s)) s)"

definition kfork :: "int sysm" where
  "kfork =
     seq allocproc (\<lambda>r s.
       case r of
         None \<Rightarrow> Inr (-1, s)
       | Some np \<Rightarrow>
           let p = myproc s
           in seq (on_mem (uvmcopy (k_end (syms s)) (p_pagetable p) (p_pagetable (procs s np)) (p_sz p))) (\<lambda>ok s.
                if \<not> ok then seq (freeproc np) (\<lambda>_. ret (-1)) s
                else let s = upd_proc np (\<lambda>q. q\<lparr>p_sz := p_sz p\<rparr>) s;
                         m = pmem (smem s);
                         s = set_mem ((smem s)\<lparr>pmem := store_bytes m (p_trapframe (procs s np)) (load_bytes m (p_trapframe p) TF_SIZE)\<rparr>) s;
                         s = tf_set np TF_A0 0 s
                     in seq (dup_files np 0 NOFILE) (\<lambda>_ s.
                          (case p_cwd (myproc s) of
                             None \<Rightarrow> Inl (UB ''idup: null inode'')
                           | Some d \<Rightarrow>
                               seq (run_fs (idup d)) (\<lambda>d s.
                                 let s = upd_proc np (\<lambda>q. q\<lparr>p_cwd := Some d,
                                           p_name := map (safestrcpy (chars (p_name q)) (chars (p_name (myproc s))) 16) [0..<16]\<rparr>) s;
                                     pid = p_pid (procs s np);
                                     s = upd_proc np (\<lambda>q. q\<lparr>p_parent := Some (curp s)\<rparr>) s;
                                     s = upd_proc np (\<lambda>q. q\<lparr>p_state := RUNNABLE\<rparr>) s
                                 in Inr (sint pid, s)) s)) s) s)"

text \<open>The loop of \<open>kexit\<close> that closes the files, from \<open>fd\<close> on.\<close>

fun close_files :: "nat \<Rightarrow> nat \<Rightarrow> unit sysm" where
  "close_files fd 0 s = Inr ((), s)"
| "close_files fd (Suc n) s =
     (case p_ofile (myproc s) ! fd of
        None \<Rightarrow> close_files (Suc fd) n s
      | Some f \<Rightarrow> seq (fileclose f) (\<lambda>_ s. close_files (Suc fd) n (set_ofile (curp s) fd None s)) s)"

definition kexit :: "cint \<Rightarrow> unit sysm" where
  "kexit status s =
     (if initproc s = Some (curp s) then Inl (Panic ''init exiting'')
      else seq (close_files 0 NOFILE) (\<lambda>_.
           seq sys_begin_op (\<lambda>_ s.
             (case p_cwd (myproc s) of
                None \<Rightarrow> Inl (UB ''iput: null inode'')
              | Some d \<Rightarrow>
                  seq (run_fs (iput d)) (\<lambda>_.
                  seq sys_end_op (\<lambda>_ s.
                    Inr ((), become_zombie status (upd_proc (curp s) (\<lambda>p. p\<lparr>p_cwd := None\<rparr>) s)))) s))) s)"

end
