(* ===== verification/Exec.thy ===== *)
theory Exec
  imports Fork
begin

text \<open>
  \<^verbatim>\<open>kernel/exec.c\<close>: loading a program. The ELF header and the program headers are decoded from the bytes
  \<open>readi\<close> delivers. The argument strings are byte lists without their terminating 0.
\<close>

section \<open>Headers\<close>

definition get64 :: "u8 list \<Rightarrow> nat \<Rightarrow> u64" where
  "get64 d off = of_le_bytes (take 8 (drop off d))"

definition ELF_MAGIC :: u32 where "ELF_MAGIC = 0x464C457F"
definition ELF_PROG_LOAD :: u32 where "ELF_PROG_LOAD = 1"

record elfhdr =
  elf_magic :: u32
  elf_entry :: u64
  elf_phoff :: u64
  elf_phnum :: u16

record proghdr =
  ph_type :: u32
  ph_flags :: u32
  ph_off :: u64
  ph_vaddr :: u64
  ph_filesz :: u64
  ph_memsz :: u64

definition elf_of :: "u8 list \<Rightarrow> elfhdr" where
  "elf_of d = \<lparr>elf_magic = get32 d 0, elf_entry = get64 d 24, elf_phoff = get64 d 32, elf_phnum = get16 d 56\<rparr>"

definition ph_of :: "u8 list \<Rightarrow> proghdr" where
  "ph_of d = \<lparr>ph_type = get32 d 0, ph_flags = get32 d 4, ph_off = get64 d 8, ph_vaddr = get64 d 16,
     ph_filesz = get64 d 32, ph_memsz = get64 d 40\<rparr>"

section \<open>Operations\<close>

definition flags2perm :: "u32 \<Rightarrow> u64" where
  "flags2perm flags =
     (let perm = (if flags AND 1 \<noteq> 0 then PTE_X else 0)
      in if flags AND 2 \<noteq> 0 then perm OR PTE_W else perm)"

text \<open>
  The loop of \<open>loadseg\<close>. Its counter is an \<open>unsigned int\<close>; one that would wrap around starts over
  with the same pages, so the loop would not end.
\<close>

function loadseg_loop :: "u64 \<Rightarrow> u64 \<Rightarrow> nat \<Rightarrow> u32 \<Rightarrow> nat \<Rightarrow> nat \<Rightarrow> int sysm" where
  "loadseg_loop pt va ip off sz i s =
     (if i < sz
      then let pa = walkaddr pt (va + of_nat i) (smem s)
           in if pa = 0 then Inl (Panic ''loadseg: address should exist'')
              else let n = (if sz - i < 4096 then sz - i else 4096)
                   in (case run_fs (readi ip Kern_dst (off + of_nat i) (of_nat n)) s of
                         Inl e \<Rightarrow> Inl e
                       | Inr ((r, bs), s) \<Rightarrow>
                           let s = set_mem ((smem s)\<lparr>pmem := store_bytes (pmem (smem s)) pa bs\<rparr>) s
                           in if r \<noteq> int n then Inr (-1, s)
                              else if i + 4096 \<ge> 2 ^ 32 then Inl Diverges
                              else loadseg_loop pt va ip off sz (i + 4096) s)
      else Inr (0, s))"
  by pat_completeness auto
termination
  by (relation "measure (\<lambda>(pt, va, ip, off, sz, i, s). sz - i)") auto

declare loadseg_loop.simps [simp del]

definition loadseg :: "u64 \<Rightarrow> u64 \<Rightarrow> nat \<Rightarrow> u32 \<Rightarrow> u32 \<Rightarrow> int sysm" where
  "loadseg pt va ip offset sz = loadseg_loop pt va ip offset (unat sz) 0"

text \<open>The loop over the program headers: whether all were loaded, and the size reached.\<close>

fun load_segments :: "u64 \<Rightarrow> nat \<Rightarrow> nat \<Rightarrow> u32 \<Rightarrow> u64 \<Rightarrow> (bool \<times> u64) sysm" where
  "load_segments pt ip 0 off sz s = Inr ((True, sz), s)"
| "load_segments pt ip (Suc n) off sz s =
     seq (run_fs (readi ip Kern_dst off 56)) (\<lambda>(r, d) s.
       let ph = ph_of d
       in if r \<noteq> 56 then Inr ((False, sz), s)
          else if ph_type ph \<noteq> ELF_PROG_LOAD then load_segments pt ip n (off + 56) sz s
          else if ph_memsz ph < ph_filesz ph then Inr ((False, sz), s)
          else if ph_vaddr ph + ph_memsz ph < ph_vaddr ph then Inr ((False, sz), s)
          else if ph_vaddr ph mod PGSIZE \<noteq> 0 then Inr ((False, sz), s)
          else seq (on_mem (uvmalloc (k_end (syms s)) pt sz (ph_vaddr ph + ph_memsz ph) (flags2perm (ph_flags ph)))) (\<lambda>sz1 s.
            if sz1 = 0 then Inr ((False, sz), s)
            else seq (loadseg pt (ph_vaddr ph) ip (ucast (ph_off ph)) (ucast (ph_filesz ph))) (\<lambda>r s.
                   if r < 0 then Inr ((False, sz1), s)
                   else load_segments pt ip n (off + 56) sz1 s) s) s) s"

text \<open>\<open>copyout\<close> into the table under construction; a page fault is served for the running process.\<close>

definition image_copyout :: "u64 \<Rightarrow> u64 \<Rightarrow> u8 list \<Rightarrow> bool sysm" where
  "image_copyout pt va bs s =
     (let p = user_of s in on_mem (copyout (ukend p) (upt p) (usz p) pt va bs) s)"

definition align16 :: "u64 \<Rightarrow> u64" where "align16 sp = sp - sp mod 16"

text \<open>Pushing the argument strings: the new stack pointer and the addresses pushed so far, or failure.\<close>

fun push_args :: "u64 \<Rightarrow> u64 \<Rightarrow> u8 list list \<Rightarrow> u64 \<Rightarrow> u64 list \<Rightarrow> (u64 \<times> u64 list) option sysm" where
  "push_args pt stackbase [] sp ustack s = Inr (Some (sp, ustack), s)"
| "push_args pt stackbase (a # argv) sp ustack s =
     (if length ustack \<ge> MAXARG then Inr (None, s)
      else let sp = align16 (sp - (of_nat (length a) + 1))
           in if sp < stackbase then Inr (None, s)
              else seq (image_copyout pt sp (a @ [0])) (\<lambda>ok s.
                     if \<not> ok then Inr (None, s) else push_args pt stackbase argv sp (ustack @ [sp]) s) s)"

text \<open>The stack of a new program: the strings, then the array of their addresses, ended by 0.\<close>

definition push_stack :: "u64 \<Rightarrow> u64 \<Rightarrow> u8 list list \<Rightarrow> u64 \<Rightarrow> u64 option sysm" where
  "push_stack pt stackbase argv sp =
     seq (push_args pt stackbase argv sp []) (\<lambda>r s.
       case r of
         None \<Rightarrow> Inr (None, s)
       | Some (sp, ustack) \<Rightarrow>
           if length ustack \<ge> MAXARG then Inl (UB ''kexec: ustack overflow'')
           else let sp = align16 (sp - (of_nat (length ustack) + 1) * 8)
                in if sp < stackbase then Inr (None, s)
                   else seq (image_copyout pt sp (concat (map (le_bytes 8) (ustack @ [0])))) (\<lambda>ok.
                          ret (if ok then Some sp else None)) s)"

definition base_name :: "u8 list \<Rightarrow> u8 list" where
  "base_name path = rev (takeWhile (\<lambda>c. c \<noteq> 47) (rev path))"

text \<open>The exits of \<open>kexec\<close> at its label \<open>bad\<close>: with the file still open, or with the table only.\<close>

definition exec_bad_file :: "nat \<Rightarrow> int sysm" where
  "exec_bad_file ip =
     seq (run_fs (iunlockput ip)) (\<lambda>_. seq sys_end_op (\<lambda>_. ret (-1)))"

definition exec_bad_table :: "u64 \<Rightarrow> u64 \<Rightarrow> int sysm" where
  "exec_bad_table pt sz = seq (proc_freepagetable pt sz) (\<lambda>_. ret (-1))"

text \<open>The second half of \<open>kexec\<close>, after the file is closed.\<close>

definition exec_image :: "u8 list \<Rightarrow> u8 list list \<Rightarrow> u64 \<Rightarrow> u64 \<Rightarrow> u64 \<Rightarrow> int sysm" where
  "exec_image path argv entry_pc pt sz s =
     (let oldsz = p_sz (myproc s); stk = of_nat (USERSTACK + 1) * PGSIZE; sz = PGROUNDUP sz
      in seq (on_mem (uvmalloc (k_end (syms s)) pt sz (sz + stk) PTE_W)) (\<lambda>sz1 s.
           if sz1 = 0 then exec_bad_table pt sz s
           else seq (on_mem_unit (uvmclear pt (sz1 - stk))) (\<lambda>_.
                seq (push_stack pt (sz1 - of_nat USERSTACK * PGSIZE) argv sz1) (\<lambda>r s.
                  case r of
                    None \<Rightarrow> exec_bad_table pt sz1 s
                  | Some sp \<Rightarrow>
                      let s = tf_set (curp s) TF_A1 sp s;
                          oldpt = p_pagetable (myproc s);
                          s = upd_proc (curp s) (\<lambda>p. p\<lparr>
                                p_name := map (safestrcpy (chars (p_name p)) (chars (base_name path)) 16) [0..<16],
                                p_pagetable := pt, p_sz := sz1\<rparr>) s;
                          s = tf_set (curp s) TF_EPC entry_pc s;
                          s = tf_set (curp s) TF_SP sp s
                      in seq (proc_freepagetable oldpt oldsz) (\<lambda>_. ret (int (length argv))) s)) s) s)"

definition kexec :: "u8 list \<Rightarrow> u8 list list \<Rightarrow> int sysm" where
  "kexec path argv =
     seq sys_begin_op (\<lambda>_.
     seq (run_fs (namei path)) (\<lambda>ipo s.
       case ipo of
         None \<Rightarrow> seq sys_end_op (\<lambda>_. ret (-1)) s
       | Some ip \<Rightarrow>
           seq (run_fs (ilock (Some ip))) (\<lambda>_.
           seq (run_fs (readi ip Kern_dst 0 64)) (\<lambda>(r, d) s.
             let elf = elf_of d
             in if r \<noteq> 64 then exec_bad_file ip s
                else if elf_magic elf \<noteq> ELF_MAGIC then exec_bad_file ip s
                else seq (proc_pagetable (p_trapframe (myproc s))) (\<lambda>pt s.
                  if pt = 0 then exec_bad_file ip s
                  else seq (load_segments pt ip (unat (elf_phnum elf)) (ucast (elf_phoff elf)) 0) (\<lambda>(ok, sz).
                    if \<not> ok then seq (proc_freepagetable pt sz) (\<lambda>_. exec_bad_file ip)
                    else seq (run_fs (iunlockput ip)) (\<lambda>_.
                         seq sys_end_op (\<lambda>_. exec_image path argv (elf_entry elf) pt sz))) s) s)) s))"

end
