(* ===== verification/Sysfile.thy ===== *)
theory Sysfile
  imports Exec
begin

text \<open>
  The argument functions of \<^verbatim>\<open>kernel/syscall.c\<close> and the file system calls of \<^verbatim>\<open>kernel/sysfile.c\<close>. Arguments
  come from the registers saved in the trapframe; a path is the byte list of the string without its
  terminating 0. An \<open>int\<close> result is the integer it denotes.
\<close>

section \<open>Arguments\<close>

definition fetchaddr :: "u64 \<Rightarrow> u64 option sysm" where
  "fetchaddr addr s =
     (let sz = p_sz (myproc s)
      in if addr \<ge> sz \<or> addr + 8 > sz then Inr (None, s)
         else seq (user_copyin addr 8) (\<lambda>(bs, ok). ret (if ok then Some (of_le_bytes bs) else None)) s)"

definition fetchstr :: "u64 \<Rightarrow> nat \<Rightarrow> sys \<Rightarrow> u8 list option" where
  "fetchstr addr maxn s =
     (case copyinstr (p_pagetable (myproc s)) addr maxn (smem s) of
        (bs, ok) \<Rightarrow> if ok then Some (butlast bs) else None)"

definition argraw :: "nat \<Rightarrow> sys \<Rightarrow> u64 result" where
  "argraw n s = (if n \<le> 5 then Inr (tf_get (TF_A0 + 8 * of_nat n) s) else Inl (Panic ''argraw''))"

definition arg :: "nat \<Rightarrow> u64 sysm" where
  "arg n s = bind_result (argraw n s) (\<lambda>v. Inr (v, s))"

definition argint :: "nat \<Rightarrow> cint sysm" where "argint n = seq (arg n) (\<lambda>v. ret (ucast v))"
definition argaddr :: "nat \<Rightarrow> u64 sysm" where "argaddr n = arg n"

definition argstr :: "nat \<Rightarrow> nat \<Rightarrow> u8 list option sysm" where
  "argstr n maxn = seq (argaddr n) (\<lambda>a s. Inr (fetchstr a maxn s, s))"

definition argfd :: "nat \<Rightarrow> (nat \<times> nat) option sysm" where
  "argfd n =
     seq (argint n) (\<lambda>fd s.
       if sint fd < 0 \<or> sint fd \<ge> int NOFILE then Inr (None, s)
       else case p_ofile (myproc s) ! nat (sint fd) of
              None \<Rightarrow> Inr (None, s)
            | Some f \<Rightarrow> Inr (Some (nat (sint fd), f), s))"

definition fdalloc :: "nat \<Rightarrow> sys \<Rightarrow> nat option \<times> sys" where
  "fdalloc f s =
     (case first_slot (\<lambda>x. x = None) (\<lambda>i. p_ofile (myproc s) ! i) 0 NOFILE of
        None \<Rightarrow> (None, s)
      | Some fd \<Rightarrow> (Some fd, set_ofile (curp s) fd (Some f) s))"

section \<open>Descriptors\<close>

definition sys_dup :: "int sysm" where
  "sys_dup =
     seq (argfd 0) (\<lambda>r s.
       case r of
         None \<Rightarrow> Inr (-1, s)
       | Some (_, f) \<Rightarrow>
           (case fdalloc f s of
              (None, s) \<Rightarrow> Inr (-1, s)
            | (Some fd, s) \<Rightarrow> seq (filedup f) (\<lambda>_. ret (int fd)) s))"

definition sys_read :: "(nat \<Rightarrow> devfun option) \<Rightarrow> outcome sysm" where
  "sys_read devread =
     seq (argaddr 1) (\<lambda>p. seq (argint 2) (\<lambda>n. seq (argfd 0) (\<lambda>r.
       case r of None \<Rightarrow> ret (Returns (-1)) | Some (_, f) \<Rightarrow> fileread devread f p n)))"

definition sys_write :: "(nat \<Rightarrow> devfun option) \<Rightarrow> outcome sysm" where
  "sys_write devwrite =
     seq (argaddr 1) (\<lambda>p. seq (argint 2) (\<lambda>n. seq (argfd 0) (\<lambda>r.
       case r of None \<Rightarrow> ret (Returns (-1)) | Some (_, f) \<Rightarrow> filewrite devwrite f p n)))"

definition sys_close :: "int sysm" where
  "sys_close =
     seq (argfd 0) (\<lambda>r s.
       case r of
         None \<Rightarrow> Inr (-1, s)
       | Some (fd, f) \<Rightarrow> seq (fileclose f) (\<lambda>_. ret 0) (set_ofile (curp s) fd None s))"

definition sys_fstat :: "u8 list \<Rightarrow> int sysm" where
  "sys_fstat pad =
     seq (argaddr 1) (\<lambda>st. seq (argfd 0) (\<lambda>r.
       case r of None \<Rightarrow> ret (-1) | Some (_, f) \<Rightarrow> filestat pad f st))"

section \<open>Links\<close>

text \<open>Changes to an inode in memory.\<close>

definition upd_inode :: "nat \<Rightarrow> (inode \<Rightarrow> inode) \<Rightarrow> unit fsm" where
  "upd_inode ip f s = Inr ((), set_inode ip (f (itab s ip)) s)"

text \<open>The body of a system call between \<open>begin_op\<close> and \<open>end_op\<close>; every exit of the call ends the transaction.\<close>

definition in_transaction :: "'a fsm \<Rightarrow> 'a sysm" where
  "in_transaction m = seq sys_begin_op (\<lambda>_. seq (run_fs m) (\<lambda>x. seq sys_end_op (\<lambda>_. ret x)))"

definition link_bad :: "nat \<Rightarrow> int fsm" where
  "link_bad ip =
     seq (ilock (Some ip)) (\<lambda>_.
     seq (upd_inode ip (\<lambda>x. x\<lparr>inlink := inlink x - 1\<rparr>)) (\<lambda>_.
     seq (iupdate ip) (\<lambda>_. seq (iunlockput ip) (\<lambda>_. ret (-1)))))"

definition link_body :: "u8 list \<Rightarrow> u8 list \<Rightarrow> int fsm" where
  "link_body old new =
     seq (namei old) (\<lambda>ipo.
       case ipo of
         None \<Rightarrow> ret (-1)
       | Some ip \<Rightarrow>
           seq (ilock (Some ip)) (\<lambda>_ s.
             if itype (itab s ip) = T_DIR then seq (iunlockput ip) (\<lambda>_. ret (-1)) s
             else seq (upd_inode ip (\<lambda>x. x\<lparr>inlink := inlink x + 1\<rparr>)) (\<lambda>_.
                  seq (iupdate ip) (\<lambda>_.
                  seq (iunlock (Some ip)) (\<lambda>_.
                  seq (nameiparent new) (\<lambda>(dpo, name).
                    case dpo of
                      None \<Rightarrow> link_bad ip
                    | Some dp \<Rightarrow>
                        seq (ilock (Some dp)) (\<lambda>_ s.
                        seq (if idev (itab s dp) \<noteq> idev (itab s ip) then ret False
                             else dirlink dp name (inum (itab s ip))) (\<lambda>ok.
                          if \<not> ok then seq (iunlockput dp) (\<lambda>_. link_bad ip)
                          else seq (iunlockput dp) (\<lambda>_. seq (iput ip) (\<lambda>_. ret 0))) s))))) s))"

definition sys_link :: "int sysm" where
  "sys_link =
     seq (argstr 0 MAXPATH) (\<lambda>old.
       case old of
         None \<Rightarrow> ret (-1)
       | Some old \<Rightarrow>
           seq (argstr 1 MAXPATH) (\<lambda>new.
             case new of None \<Rightarrow> ret (-1) | Some new \<Rightarrow> in_transaction (link_body old new)))"

text \<open>\<open>n\<close> more entries from \<open>off\<close> on.\<close>

fun isdirempty_loop :: "nat \<Rightarrow> nat \<Rightarrow> nat \<Rightarrow> bool fsm" where
  "isdirempty_loop dp off 0 = ret True"
| "isdirempty_loop dp off (Suc n) =
     seq (readi dp Kern_dst (of_nat off) 16) (\<lambda>(r, de).
       if r \<noteq> 16 then fail (Panic ''isdirempty: readi'')
       else if de_inum de \<noteq> 0 then ret False
       else isdirempty_loop dp (off + 16) n)"

definition isdirempty :: "nat \<Rightarrow> bool fsm" where
  "isdirempty dp s = isdirempty_loop dp 32 ((unat (isize (itab s dp)) + 15) div 16 - 2) s"

definition unlink_bad :: "nat \<Rightarrow> int fsm" where
  "unlink_bad dp = seq (iunlockput dp) (\<lambda>_. ret (-1))"

definition unlink_body :: "u8 list \<Rightarrow> int fsm" where
  "unlink_body path =
     seq (nameiparent path) (\<lambda>(dpo, name).
       case dpo of
         None \<Rightarrow> ret (-1)
       | Some dp \<Rightarrow>
           seq (ilock (Some dp)) (\<lambda>_.
             if namecmp (chars name) (chars [46]) = 0 \<or> namecmp (chars name) (chars [46, 46]) = 0 then unlink_bad dp
             else seq (dirlookup dp name) (\<lambda>r.
               case r of
                 None \<Rightarrow> unlink_bad dp
               | Some (ip, off) \<Rightarrow>
                   seq (ilock (Some ip)) (\<lambda>_ s.
                     if sint (inlink (itab s ip)) < 1 then Inl (Panic ''unlink: nlink < 1'')
                     else seq (if itype (itab s ip) = T_DIR then isdirempty ip else ret True) (\<lambda>empty.
                       if \<not> empty then seq (iunlockput ip) (\<lambda>_. unlink_bad dp)
                       else seq (writei dp (Kern_src (replicate 16 0)) (of_nat off) 16) (\<lambda>r s.
                         if r \<noteq> 16 then Inl (Panic ''unlink: writei'')
                         else seq (if itype (itab s ip) = T_DIR
                                   then seq (upd_inode dp (\<lambda>x. x\<lparr>inlink := inlink x - 1\<rparr>)) (\<lambda>_. iupdate dp)
                                   else ret ()) (\<lambda>_.
                              seq (iunlockput dp) (\<lambda>_.
                              seq (upd_inode ip (\<lambda>x. x\<lparr>inlink := inlink x - 1\<rparr>)) (\<lambda>_.
                              seq (iupdate ip) (\<lambda>_.
                              seq (iunlockput ip) (\<lambda>_. ret 0))))) s)) s))))"

definition sys_unlink :: "int sysm" where
  "sys_unlink =
     seq (argstr 0 MAXPATH) (\<lambda>path.
       case path of None \<Rightarrow> ret (-1) | Some path \<Rightarrow> in_transaction (unlink_body path))"

section \<open>Creating and opening\<close>

definition create_fail :: "nat \<Rightarrow> nat \<Rightarrow> nat option fsm" where
  "create_fail ip dp =
     seq (upd_inode ip (\<lambda>x. x\<lparr>inlink := 0\<rparr>)) (\<lambda>_.
     seq (iupdate ip) (\<lambda>_.
     seq (iunlockput ip) (\<lambda>_. seq (iunlockput dp) (\<lambda>_. ret None))))"

definition create_new :: "nat \<Rightarrow> u8 list \<Rightarrow> u16 \<Rightarrow> u16 \<Rightarrow> u16 \<Rightarrow> nat \<Rightarrow> nat option fsm" where
  "create_new dp name ty major minor ip =
     seq (ilock (Some ip)) (\<lambda>_.
     seq (upd_inode ip (\<lambda>x. x\<lparr>imajor := major, iminor := minor, inlink := 1\<rparr>)) (\<lambda>_.
     seq (iupdate ip) (\<lambda>_ s.
     seq (if ty = T_DIR
          then seq (dirlink ip [46] (inum (itab s ip))) (\<lambda>ok s.
                 if \<not> ok then Inr (False, s) else dirlink ip [46, 46] (inum (itab s dp)) s)
          else ret True) (\<lambda>ok s.
       if \<not> ok then create_fail ip dp s
       else seq (dirlink dp name (inum (itab s ip))) (\<lambda>ok.
         if \<not> ok then create_fail ip dp
         else seq (if ty = T_DIR then seq (upd_inode dp (\<lambda>x. x\<lparr>inlink := inlink x + 1\<rparr>)) (\<lambda>_. iupdate dp) else ret ()) (\<lambda>_.
              seq (iunlockput dp) (\<lambda>_. ret (Some ip)))) s) s)))"

text \<open>The result is locked.\<close>

definition create :: "u8 list \<Rightarrow> u16 \<Rightarrow> u16 \<Rightarrow> u16 \<Rightarrow> nat option fsm" where
  "create path ty major minor =
     seq (nameiparent path) (\<lambda>(dpo, name).
       case dpo of
         None \<Rightarrow> ret None
       | Some dp \<Rightarrow>
           seq (ilock (Some dp)) (\<lambda>_.
           seq (dirlookup dp name) (\<lambda>r.
             case r of
               Some (ip, _) \<Rightarrow>
                 seq (iunlockput dp) (\<lambda>_.
                 seq (ilock (Some ip)) (\<lambda>_ s.
                   if ty = T_FILE \<and> (itype (itab s ip) = T_FILE \<or> itype (itab s ip) = T_DEVICE) then Inr (Some ip, s)
                   else seq (iunlockput ip) (\<lambda>_. ret None) s))
             | None \<Rightarrow>
                 (\<lambda>s. seq (ialloc (idev (itab s dp)) ty) (\<lambda>ipo.
                   case ipo of
                     None \<Rightarrow> seq (iunlockput dp) (\<lambda>_. ret None)
                   | Some ip \<Rightarrow> create_new dp name ty major minor ip) s))))"

definition O_WRONLY :: u32 where "O_WRONLY = 1"
definition O_RDWR :: u32 where "O_RDWR = 2"
definition O_CREATE :: u32 where "O_CREATE = 0x200"
definition O_TRUNC :: u32 where "O_TRUNC = 0x400"

text \<open>The inode \<open>sys_open\<close> opens, locked, or none.\<close>

definition open_inode :: "u8 list \<Rightarrow> u32 \<Rightarrow> nat option fsm" where
  "open_inode path omode =
     seq (if omode AND O_CREATE \<noteq> 0 then create path T_FILE 0 0
          else seq (namei path) (\<lambda>ipo.
            case ipo of
              None \<Rightarrow> ret None
            | Some ip \<Rightarrow>
                seq (ilock (Some ip)) (\<lambda>_ s.
                  if itype (itab s ip) = T_DIR \<and> omode \<noteq> 0
                  then seq (iunlockput ip) (\<lambda>_. ret None) s else Inr (Some ip, s)))) (\<lambda>ipo s.
       case ipo of
         None \<Rightarrow> Inr (None, s)
       | Some ip \<Rightarrow>
           if itype (itab s ip) = T_DEVICE \<and> (sint (imajor (itab s ip)) < 0 \<or> sint (imajor (itab s ip)) \<ge> int NDEV)
           then seq (iunlockput ip) (\<lambda>_. ret None) s
           else Inr (Some ip, s))"

definition open_file :: "u32 \<Rightarrow> nat \<Rightarrow> nat \<Rightarrow> inode \<Rightarrow> sys \<Rightarrow> sys" where
  "open_file omode f ip x =
     upd_file f (\<lambda>y. (if itype x = T_DEVICE then y\<lparr>f_type := FD_DEVICE, f_major := imajor x\<rparr>
                      else y\<lparr>f_type := FD_INODE, f_off := 0\<rparr>)
       \<lparr>f_ip := ip, f_readable := (omode AND O_WRONLY = 0), f_writable := (omode AND O_WRONLY \<noteq> 0 \<or> omode AND O_RDWR \<noteq> 0)\<rparr>)"

definition open_bad :: "nat \<Rightarrow> int sysm" where
  "open_bad ip = seq (run_fs (iunlockput ip)) (\<lambda>_. seq sys_end_op (\<lambda>_. ret (-1)))"

definition sys_open :: "int sysm" where
  "sys_open =
     seq (argint 1) (\<lambda>omode.
     seq (argstr 0 MAXPATH) (\<lambda>path.
       case path of
         None \<Rightarrow> ret (-1)
       | Some path \<Rightarrow>
           seq sys_begin_op (\<lambda>_.
           seq (run_fs (open_inode path omode)) (\<lambda>ipo s.
             case ipo of
               None \<Rightarrow> seq sys_end_op (\<lambda>_. ret (-1)) s
             | Some ip \<Rightarrow>
                 (case filealloc s of
                    (None, s) \<Rightarrow> open_bad ip s
                  | (Some f, s) \<Rightarrow>
                      (case fdalloc f s of
                         (None, s) \<Rightarrow> seq (fileclose f) (\<lambda>_. open_bad ip) s
                       | (Some fd, s) \<Rightarrow>
                           let x = itab (sfs s) ip
                           in seq (run_fs (if omode AND O_TRUNC \<noteq> 0 \<and> itype x = T_FILE then itrunc ip else ret ())) (\<lambda>_.
                              seq (run_fs (iunlock (Some ip))) (\<lambda>_.
                              seq sys_end_op (\<lambda>_. ret (int fd)))) (open_file omode f ip x s)))))))"

definition make_node :: "u8 list \<Rightarrow> u16 \<Rightarrow> u16 \<Rightarrow> u16 \<Rightarrow> int fsm" where
  "make_node path ty major minor =
     seq (create path ty major minor) (\<lambda>ipo.
       case ipo of None \<Rightarrow> ret (-1) | Some ip \<Rightarrow> seq (iunlockput ip) (\<lambda>_. ret 0))"

definition sys_mkdir :: "int sysm" where
  "sys_mkdir =
     seq sys_begin_op (\<lambda>_.
     seq (argstr 0 MAXPATH) (\<lambda>path.
     seq (case path of None \<Rightarrow> ret (-1) | Some path \<Rightarrow> run_fs (make_node path T_DIR 0 0)) (\<lambda>r.
     seq sys_end_op (\<lambda>_. ret r))))"

definition sys_mknod :: "int sysm" where
  "sys_mknod =
     seq sys_begin_op (\<lambda>_.
     seq (argint 1) (\<lambda>major.
     seq (argint 2) (\<lambda>minor.
     seq (argstr 0 MAXPATH) (\<lambda>path.
     seq (case path of None \<Rightarrow> ret (-1)
          | Some path \<Rightarrow> run_fs (make_node path T_DEVICE (ucast major) (ucast minor))) (\<lambda>r.
     seq sys_end_op (\<lambda>_. ret r))))))"

text \<open>The new current directory, unlocked, after the old one is given up.\<close>

definition chdir_body :: "u8 list \<Rightarrow> nat \<Rightarrow> nat option fsm" where
  "chdir_body path cwd =
     seq (namei path) (\<lambda>ipo.
       case ipo of
         None \<Rightarrow> ret None
       | Some ip \<Rightarrow>
           seq (ilock (Some ip)) (\<lambda>_ s.
             if itype (itab s ip) \<noteq> T_DIR then seq (iunlockput ip) (\<lambda>_. ret None) s
             else seq (iunlock (Some ip)) (\<lambda>_. seq (iput cwd) (\<lambda>_. ret (Some ip))) s))"

definition sys_chdir :: "int sysm" where
  "sys_chdir =
     seq sys_begin_op (\<lambda>_.
     seq (argstr 0 MAXPATH) (\<lambda>path s.
     seq (case path of
            None \<Rightarrow> ret None
          | Some path \<Rightarrow>
              (case p_cwd (myproc s) of
                 None \<Rightarrow> fail (UB ''iput: null inode'')
               | Some d \<Rightarrow> run_fs (chdir_body path d))) (\<lambda>r.
     seq sys_end_op (\<lambda>_ s.
       case r of
         None \<Rightarrow> Inr (-1, s)
       | Some ip \<Rightarrow> Inr (0, upd_proc (curp s) (\<lambda>p. p\<lparr>p_cwd := Some ip\<rparr>) s))) s))"

section \<open>Programs and pipes\<close>

fun free_pages_of :: "u64 list \<Rightarrow> unit sysm" where
  "free_pages_of [] s = Inr ((), s)"
| "free_pages_of (a # as) s = seq (on_mem_unit (kfree (k_end (syms s)) a)) (\<lambda>_. free_pages_of as) s"

text \<open>
  The loop of \<open>sys_exec\<close> that copies the arguments into pages of their own, with \<open>n\<close> entries of \<open>argv\<close>
  left: the pages, and the strings unless it went wrong.
\<close>

fun fetch_args :: "u64 \<Rightarrow> nat \<Rightarrow> u64 list \<Rightarrow> u8 list list \<Rightarrow> (u64 list \<times> u8 list list option) sysm" where
  "fetch_args uargv 0 pages strs s = Inr ((pages, None), s)"
| "fetch_args uargv (Suc n) pages strs s =
     seq (fetchaddr uargv) (\<lambda>r s.
       case r of
         None \<Rightarrow> Inr ((pages, None), s)
       | Some uarg \<Rightarrow>
           if uarg = 0 then Inr ((pages, Some strs), s)
           else seq (on_mem (\<lambda>k. Inr (kalloc k))) (\<lambda>pg s.
             if pg = 0 then Inr ((pages, None), s)
             else let (bs, ok) = copyinstr (p_pagetable (myproc s)) uarg 4096 (smem s);
                      s = set_mem ((smem s)\<lparr>pmem := store_bytes (pmem (smem s)) pg bs\<rparr>) s
                  in if \<not> ok then Inr ((pages @ [pg], None), s)
                     else fetch_args (uargv + 8) n (pages @ [pg]) (strs @ [butlast bs]) s) s) s"

definition sys_exec :: "int sysm" where
  "sys_exec =
     seq (argaddr 1) (\<lambda>uargv.
     seq (argstr 0 MAXPATH) (\<lambda>path.
       case path of
         None \<Rightarrow> ret (-1)
       | Some path \<Rightarrow>
           seq (fetch_args uargv MAXARG [] []) (\<lambda>(pages, r).
           seq (case r of None \<Rightarrow> ret (-1) | Some argv \<Rightarrow> kexec path argv) (\<lambda>v.
           seq (free_pages_of pages) (\<lambda>_. ret v)))))"

definition pipe_undo :: "nat \<Rightarrow> nat \<Rightarrow> int sysm" where
  "pipe_undo rfile wfile = seq (fileclose rfile) (\<lambda>_. seq (fileclose wfile) (\<lambda>_. ret (-1)))"

definition sys_pipe :: "int sysm" where
  "sys_pipe =
     seq (argaddr 0) (\<lambda>fdarray.
     seq pipealloc (\<lambda>r s.
       case r of
         None \<Rightarrow> Inr (-1, s)
       | Some (rfile, wfile) \<Rightarrow>
           (case fdalloc rfile s of
              (None, s) \<Rightarrow> pipe_undo rfile wfile s
            | (Some fd0, s) \<Rightarrow>
                (case fdalloc wfile s of
                   (None, s) \<Rightarrow> pipe_undo rfile wfile (set_ofile (curp s) fd0 None s)
                 | (Some fd1, s) \<Rightarrow>
                     seq (user_copyout fdarray (le_bytes 4 (of_nat fd0 :: cint))) (\<lambda>ok s.
                     seq (if ok then user_copyout (fdarray + 4) (le_bytes 4 (of_nat fd1 :: cint)) else ret False) (\<lambda>ok s.
                       if ok then Inr (0, s)
                       else pipe_undo rfile wfile (set_ofile (curp s) fd1 None (set_ofile (curp s) fd0 None s))) s) s))))"

end
