(* ===== verification/Syscall.thy ===== *)
theory Syscall
  imports Sysfile
begin

text \<open>
  \<^verbatim>\<open>kernel/sysproc.c\<close>, the dispatcher of \<^verbatim>\<open>kernel/syscall.c\<close>, \<open>forkret\<close> of \<^verbatim>\<open>kernel/proc.c\<close> and the traps of
  \<^verbatim>\<open>kernel/trap.c\<close>. Device interrupts are an argument: the function that \<open>devintr\<close> runs for the interrupt
  it claims. Control registers other than those the code computes with are dropped.
\<close>

section \<open>Process system calls\<close>

definition SBRK_EAGER :: cint where "SBRK_EAGER = 1"

definition sys_exit :: "unit sysm" where "sys_exit = seq (argint 0) kexit"

definition sys_getpid :: "int sysm" where "sys_getpid s = Inr (sint (p_pid (myproc s)), s)"

definition sys_fork :: "int sysm" where "sys_fork = kfork"

definition sys_wait :: "outcome sysm" where "sys_wait = seq (argaddr 0) kwait"

text \<open>The result is an address.\<close>

definition sys_sbrk :: "u64 sysm" where
  "sys_sbrk =
     seq (argint 0) (\<lambda>n.
     seq (argint 1) (\<lambda>t s.
       let addr = p_sz (myproc s)
       in if t = SBRK_EAGER \<or> sint n < 0
          then seq (growproc n) (\<lambda>r. ret (if r < 0 then -1 else addr)) s
          else if addr + scast n < addr then Inr (-1, s)
          else Inr (addr, upd_proc (curp s) (\<lambda>p. p\<lparr>p_sz := p_sz p + scast n\<rparr>) s)))"

text \<open>The loop of \<open>sys_pause\<close> is entered again after each wakeup, with \<open>ticks0\<close> from the first time. The
  difference of the \<open>uint\<close> counters is compared with \<open>n\<close> as \<open>uint\<close>.\<close>

definition pause_loop :: "u32 \<Rightarrow> cint \<Rightarrow> outcome sysm" where
  "pause_loop ticks0 n s =
     (if ticks s - ticks0 < n
      then if killed (curp s) s then Inr (Returns (-1), s)
           else Inr (Sleeps 0, sleep_on Chan_ticks s)
      else Inr (Returns 0, s))"

definition sys_pause :: "outcome sysm" where
  "sys_pause =
     seq (argint 0) (\<lambda>n s.
       let n = (if sint n < 0 then 0 else n)
       in pause_loop (ticks s) n s)"

definition sys_kill :: "int sysm" where
  "sys_kill = seq (argint 0) (\<lambda>pid s. Inr (kkill pid s))"

definition sys_uptime :: "u32 sysm" where "sys_uptime s = Inr (ticks s, s)"

section \<open>Dispatch\<close>

text \<open>What becomes of the calling process: it goes on with a value for \<open>a0\<close>, it sleeps, or it has exited.\<close>

datatype fate = Goes_on u64 | Waits | Gone

definition of_outcome :: "outcome \<Rightarrow> fate" where
  "of_outcome r = (case r of Returns v \<Rightarrow> Goes_on (of_int v) | Sleeps _ \<Rightarrow> Waits)"

definition int_call :: "int sysm \<Rightarrow> fate sysm" where "int_call m = seq m (\<lambda>v. ret (Goes_on (of_int v)))"
definition out_call :: "outcome sysm \<Rightarrow> fate sysm" where "out_call m = seq m (\<lambda>r. ret (of_outcome r))"

text \<open>The devices and the bytes of padding that \<open>sys_fstat\<close> copies out are arguments.\<close>

record devices =
  dev_read :: "nat \<Rightarrow> devfun option"
  dev_write :: "nat \<Rightarrow> devfun option"
  stat_pad :: "u8 list"

definition syscalls :: "devices \<Rightarrow> int \<Rightarrow> fate sysm option" where
  "syscalls d num =
     (if num = 1 then Some (int_call sys_fork)
      else if num = 2 then Some (seq sys_exit (\<lambda>_. ret Gone))
      else if num = 3 then Some (out_call sys_wait)
      else if num = 4 then Some (int_call sys_pipe)
      else if num = 5 then Some (out_call (sys_read (dev_read d)))
      else if num = 6 then Some (int_call sys_kill)
      else if num = 7 then Some (int_call sys_exec)
      else if num = 8 then Some (int_call (sys_fstat (stat_pad d)))
      else if num = 9 then Some (int_call sys_chdir)
      else if num = 10 then Some (int_call sys_dup)
      else if num = 11 then Some (int_call sys_getpid)
      else if num = 12 then Some (seq sys_sbrk (\<lambda>a. ret (Goes_on a)))
      else if num = 13 then Some (out_call sys_pause)
      else if num = 14 then Some (seq sys_uptime (\<lambda>t. ret (Goes_on (ucast t))))
      else if num = 15 then Some (int_call sys_open)
      else if num = 16 then Some (out_call (sys_write (dev_write d)))
      else if num = 17 then Some (int_call sys_mknod)
      else if num = 18 then Some (int_call sys_unlink)
      else if num = 19 then Some (int_call sys_link)
      else if num = 20 then Some (int_call sys_mkdir)
      else if num = 21 then Some (int_call sys_close)
      else None)"

definition set_a0 :: "fate \<Rightarrow> fate sysm" where
  "set_a0 r s = (case r of Goes_on v \<Rightarrow> Inr (r, tf_set (curp s) TF_A0 v s) | _ \<Rightarrow> Inr (r, s))"

definition syscall :: "devices \<Rightarrow> fate sysm" where
  "syscall d s =
     (let num = sint (ucast (tf_get TF_A7 s) :: cint)
      in case syscalls d num of
           Some call \<Rightarrow> seq call set_a0 s
         | None \<Rightarrow> set_a0 (Goes_on (-1)) s)"

section \<open>Traps\<close>

text \<open>The registers a trap handler reads, and the constants \<open>prepare_return\<close> stores for the next trap.\<close>

record trap_regs =
  scause :: u64
  sepc :: u64
  stval :: u64
  from_supervisor :: bool

record hart =
  h_id :: u64
  h_satp :: u64
  h_usertrap :: u64

definition clockintr :: "hart \<Rightarrow> sys \<Rightarrow> sys" where
  "clockintr h s = (if h_id h = 0 then wakeup (Some Chan_ticks) (s\<lparr>ticks := ticks s + 1\<rparr>) else s)"

text \<open>\<open>irq\<close> is what \<open>plic_claim\<close> and the handler of the device claimed do; 2 is a timer interrupt, 1 another
  device, 0 none.\<close>

definition devintr :: "hart \<Rightarrow> (sys \<Rightarrow> sys) \<Rightarrow> trap_regs \<Rightarrow> sys \<Rightarrow> nat \<times> sys" where
  "devintr h irq r s =
     (if scause r = 0x8000000000000009 then (1, irq s)
      else if scause r = 0x8000000000000005 then (2, clockintr h s)
      else (0, s))"

definition prepare_return :: "hart \<Rightarrow> sys \<Rightarrow> sys" where
  "prepare_return h s =
     tf_set (curp s) 32 (h_id h)
       (tf_set (curp s) 16 (h_usertrap h)
         (tf_set (curp s) 8 (p_kstack (myproc s) + PGSIZE)
           (tf_set (curp s) 0 (h_satp h) s)))"

definition yield_cpu :: "sys \<Rightarrow> sys" where
  "yield_cpu s = upd_proc (curp s) (\<lambda>p. p\<lparr>p_state := RUNNABLE\<rparr>) s"

datatype trap_end = To_user | Asleep | Exited

definition exit_killed :: "trap_end sysm" where
  "exit_killed = seq (kexit (-1)) (\<lambda>_. ret Exited)"

text \<open>The end of \<open>usertrap\<close>, after the cause was dealt with. \<open>resume\<close> is what happens between the call of \<open>sched\<close> in
  \<open>yield\<close> and its return: other processes run, and this one goes on, perhaps on another hart.\<close>

definition usertrap_end :: "hart \<Rightarrow> (sys \<Rightarrow> hart \<times> sys) \<Rightarrow> nat \<Rightarrow> trap_end sysm" where
  "usertrap_end h resume which_dev s =
     (if killed (curp s) s then exit_killed s
      else let (h, s) = (if which_dev = 2 then resume (yield_cpu s) else (h, s))
           in Inr (To_user, prepare_return h s))"

definition usertrap :: "devices \<Rightarrow> hart \<Rightarrow> (sys \<Rightarrow> hart \<times> sys) \<Rightarrow> (sys \<Rightarrow> sys) \<Rightarrow> trap_regs \<Rightarrow> trap_end sysm" where
  "usertrap d h resume irq r s =
     (if from_supervisor r then Inl (Panic ''usertrap: not from user mode'')
      else let s = tf_set (curp s) TF_EPC (sepc r) s
           in if scause r = 8
              then if killed (curp s) s then exit_killed s
                   else seq (syscall d) (\<lambda>f s.
                          case f of
                            Goes_on _ \<Rightarrow> usertrap_end h resume 0 s
                          | Waits \<Rightarrow> Inr (Asleep, s)
                          | Gone \<Rightarrow> Inr (Exited, s)) (tf_set (curp s) TF_EPC (sepc r + 4) s)
              else let (which_dev, s) = devintr h irq r s
                   in if which_dev \<noteq> 0 then usertrap_end h resume which_dev s
                      else seq (if scause r = 15 \<or> scause r = 13
                                then on_mem (vmfault (k_end (syms s)) (p_pagetable (myproc s)) (p_sz (myproc s))
                                               (p_pagetable (myproc s)) (stval r))
                                else ret 0) (\<lambda>pa s.
                             usertrap_end h resume 0 (if pa \<noteq> 0 then s else setkilled (curp s) s)) s)"

text \<open>\<open>has_proc\<close>: whether a process runs on this CPU. The result says whether it gives up the CPU.\<close>

definition kerneltrap :: "hart \<Rightarrow> (sys \<Rightarrow> sys) \<Rightarrow> bool \<Rightarrow> bool \<Rightarrow> trap_regs \<Rightarrow> bool sysm" where
  "kerneltrap h irq has_proc intr_on r s =
     (if \<not> from_supervisor r then Inl (Panic ''kerneltrap: not from supervisor mode'')
      else if intr_on then Inl (Panic ''kerneltrap: interrupts enabled'')
      else let (which_dev, s) = devintr h irq r s
           in if which_dev = 0 then Inl (Panic ''kerneltrap'')
              else if which_dev = 2 \<and> has_proc then Inr (True, yield_cpu s)
              else Inr (False, s))"

definition forkret :: "hart \<Rightarrow> unit sysm" where
  "forkret h s =
     seq (if forkret_first s
          then seq (run_fs (fsinit ROOTDEV)) (\<lambda>_ s.
               seq (kexec [47, 105, 110, 105, 116] [[47, 105, 110, 105, 116]]) (\<lambda>v s.
                 let s = tf_set (curp s) TF_A0 (of_int v) s
                 in if v = -1 then Inl (Panic ''exec'') else Inr ((), s)) (s\<lparr>forkret_first := False\<rparr>))
          else ret ()) (\<lambda>_ s. Inr ((), prepare_return h s)) s"

section \<open>Properties\<close>

lemma tf_set_tables [simp]: "same_tables s (tf_set i off v s)"
  by (simp add: tf_set_def)

lemma prepare_return_tables: "same_tables s (prepare_return h s)"
  by (simp add: prepare_return_def) (metis same_tables_trans tf_set_tables)

lemma exit_killed_Exited: "exit_killed s = Inr (out, s') \<Longrightarrow> out = Exited"
  by (auto simp: exit_killed_def seq_Inr_iff ret_def)

lemma usertrap_end_killed: "killed (curp s) s \<Longrightarrow> usertrap_end h resume w s = Inr (out, s') \<Longrightarrow> out = Exited"
  using exit_killed_Exited by (simp add: usertrap_end_def)

lemma usertrap_end_To_user:
  assumes "usertrap_end h resume w s = Inr (To_user, s')"
  shows "\<not> killed (curp s) s" "w \<noteq> 2 \<Longrightarrow> \<not> killed (curp s') s'"
    "w = 2 \<Longrightarrow> \<exists>h' t. resume (yield_cpu s) = (h', t) \<and> s' = prepare_return h' t"
proof -
  show n: "\<not> killed (curp s) s" using assms usertrap_end_killed by blast
  show "\<not> killed (curp s') s'" if "w \<noteq> 2"
    using assms n that prepare_return_tables [of s h] by (auto simp: usertrap_end_def killed_def same_tables_def)
  show "\<exists>h' t. resume (yield_cpu s) = (h', t) \<and> s' = prepare_return h' t" if "w = 2"
    using assms n that by (auto simp: usertrap_end_def split: prod.splits)
qed

text \<open>What the handlers of interrupts leave alone.\<close>

definition keeps_killed :: "(sys \<Rightarrow> sys) \<Rightarrow> bool" where
  "keeps_killed f \<longleftrightarrow> (\<forall>t. curp (f t) = curp t \<and> (\<forall>i. killed i t \<longrightarrow> killed i (f t)))"

lemma keeps_killed_tf_set: "killed i (tf_set j off v s) = killed i s" "curp (tf_set j off v s) = curp s"
  using tf_set_tables [of s j off v] by (simp_all add: killed_def same_tables_def)

lemma wakeup_loop_killed: "curp (wakeup_loop ch i n s) = curp s \<and> killed j (wakeup_loop ch i n s) = killed j s"
proof (induction n arbitrary: i s)
  case (Suc n)
  have "curp (wakeup_entry ch i s) = curp s" "killed j (wakeup_entry ch i s) = killed j s"
    by (simp_all add: wakeup_entry_def killed_def procs_upd_proc)
  then show ?case using Suc by simp
qed simp

lemma devintr_killed:
  assumes "keeps_killed irq" "devintr h irq r s = (w, t)"
  shows "curp t = curp s" "killed i s \<Longrightarrow> killed i t"
    "w = (if scause r = 0x8000000000000009 then 1 else if scause r = 0x8000000000000005 then 2 else 0)"
proof -
  have "curp (clockintr h s) = curp s" "killed i (clockintr h s) = killed i s"
    using wakeup_loop_killed [of "Some Chan_ticks" 0 NPROC "s\<lparr>ticks := ticks s + 1\<rparr>" i]
    by (simp_all add: clockintr_def wakeup_def killed_def)
  then show "curp t = curp s" "killed i s \<Longrightarrow> killed i t"
    "w = (if scause r = 0x8000000000000009 then 1 else if scause r = 0x8000000000000005 then 2 else 0)"
    using assms by (auto simp: devintr_def keeps_killed_def split: if_splits)
qed

lemma on_mem_killed: "on_mem f s = Inr (x, t) \<Longrightarrow> curp t = curp s \<and> killed i t = killed i s"
  using on_mem_tables [of f s x t] by (simp add: same_tables_def killed_def)

definition ext_cause :: u64 where "ext_cause = 0x8000000000000009"
definition timer_cause :: u64 where "timer_cause = 0x8000000000000005"

text \<open>The three ways through \<open>usertrap\<close>.\<close>

lemma usertrap_syscall:
  assumes "usertrap d h resume irq r s = Inr (out, s')" "scause r = 8"
  shows "killed (curp s) s \<Longrightarrow> out = Exited" "out = To_user \<Longrightarrow> \<not> killed (curp s') s'"
proof -
  have u: "\<not> from_supervisor r" using assms by (auto simp: usertrap_def split: if_splits)
  show "out = Exited" if "killed (curp s) s"
    using assms that u exit_killed_Exited by (auto simp: usertrap_def Let_def keeps_killed_tf_set)
  show "\<not> killed (curp s') s'" if "out = To_user"
  proof (cases "killed (curp s) s")
    case True
    then show ?thesis using \<open>killed (curp s) s \<Longrightarrow> out = Exited\<close> that by simp
  next
    case False
    then obtain f t where "(case f of Goes_on _ \<Rightarrow> usertrap_end h resume 0 t | Waits \<Rightarrow> Inr (Asleep, t) | Gone \<Rightarrow> Inr (Exited, t)) = Inr (out, s')"
      using assms u by (auto simp: usertrap_def Let_def keeps_killed_tf_set seq_Inr_iff)
    then show ?thesis using that usertrap_end_To_user(2) [of h resume 0 t s'] by (auto split: fate.splits)
  qed
qed

lemma usertrap_interrupt:
  assumes "usertrap d h resume irq r s = Inr (out, s')" "scause r = ext_cause \<or> scause r = timer_cause" "keeps_killed irq"
  obtains t where "usertrap_end h resume (if scause r = timer_cause then 2 else 1) t = Inr (out, s')" "killed (curp s) s \<Longrightarrow> killed (curp t) t"
proof -
  let ?s = "tf_set (curp s) TF_EPC (sepc r) s"
  obtain w t where wt: "devintr h irq r ?s = (w, t)" by (cases "devintr h irq r ?s")
  note k = devintr_killed [OF assms(3) wt]
  have w: "w = (if scause r = timer_cause then 2 else 1)" using assms(2) by (auto simp: k(3) ext_cause_def timer_cause_def)
  have "usertrap_end h resume w t = Inr (out, s')"
    using assms(1,2) wt w by (auto simp: usertrap_def ext_cause_def timer_cause_def Let_def split: if_splits)
  moreover have "killed (curp t) t" if "killed (curp s) s" using k(1,2) that by (simp add: keeps_killed_tf_set)
  ultimately show thesis using that w by blast
qed

lemma usertrap_exception:
  assumes "usertrap d h resume irq r s = Inr (out, s')" "scause r \<notin> {8, ext_cause, timer_cause}"
  obtains t where "usertrap_end h resume 0 t = Inr (out, s')" "killed (curp s) s \<Longrightarrow> killed (curp t) t"
    "scause r \<notin> {13, 15} \<Longrightarrow> killed (curp t) t"
proof -
  let ?s = "tf_set (curp s) TF_EPC (sepc r) s"
  have dv: "devintr h irq r ?s = (0, ?s)" using assms(2) by (simp add: devintr_def ext_cause_def timer_cause_def)
  have u: "\<not> from_supervisor r" using assms by (auto simp: usertrap_def split: if_splits)
  show thesis
  proof (cases "scause r = 15 \<or> scause r = 13")
    case True
    then obtain pa u where v: "on_mem (vmfault (k_end (syms ?s)) (p_pagetable (myproc ?s)) (p_sz (myproc ?s)) (p_pagetable (myproc ?s)) (stval r)) ?s = Inr (pa, u)"
      and e: "usertrap_end h resume 0 (if pa \<noteq> 0 then u else setkilled (curp u) u) = Inr (out, s')"
      using assms dv u by (auto simp: usertrap_def Let_def seq_Inr_iff)
    have "killed (curp s) s \<Longrightarrow> killed (curp (if pa \<noteq> 0 then u else setkilled (curp u) u)) (if pa \<noteq> 0 then u else setkilled (curp u) u)"
      using on_mem_killed [OF v, of "curp s"] by (auto simp: keeps_killed_tf_set setkilled_def killed_def [of _ "upd_proc _ _ _"] procs_upd_proc)
    then show ?thesis using that [OF e] True by blast
  next
    case False
    then have e: "usertrap_end h resume 0 (setkilled (curp ?s) ?s) = Inr (out, s')"
      using assms dv u by (simp add: usertrap_def Let_def seq_def ret_def)
    have "killed (curp (setkilled (curp ?s) ?s)) (setkilled (curp ?s) ?s)" by (simp add: setkilled_def killed_def procs_upd_proc)
    then show ?thesis using that [OF e] by blast
  qed
qed

text \<open>C22: A process that is killed when it traps into the kernel, for whatever reason, does not get back to user code: \<open>usertrap\<close> ends
  with its exit, or the kernel panics. A cause that is neither a system call nor an interrupt nor a page fault kills and exits too. For a process that is not killed at first,
  \<open>usertrap\<close> returns to user space only if \<open>killed\<close> is still clear after the cause was dealt with. There is no check after that: when a timer interrupt
  makes the process give up the CPU, it returns to user space even if it is killed while it waits for the CPU, and exits at its next trap only (lemma
  \<open>killed_while_runnable\<close>). Apart from \<open>yield\<close>, \<open>usertrap\<close> is run here without interruption, so a kill by another hart after the check is as
  late as one during \<open>yield\<close>. A system call that has to sleep ends the run as \<open>Asleep\<close>. Interrupt handlers are assumed not to clear \<open>killed\<close>.\<close>

theorem killed_process_exits:
  assumes irq: "keeps_killed irq" and t: "usertrap d h resume irq r s = Inr (out, s')"
  shows "(killed (curp s) s \<longrightarrow> out = Exited) \<and> (scause r \<notin> {8, 13, 15, ext_cause, timer_cause} \<longrightarrow> out = Exited) \<and>
    (out = To_user \<and> scause r \<noteq> timer_cause \<longrightarrow> \<not> killed (curp s') s') \<and>
    (out = To_user \<and> scause r = timer_cause \<longrightarrow>
      (\<exists>u u' h'. \<not> killed (curp u) u \<and> resume (yield_cpu u) = (h', u') \<and> s' = prepare_return h' u'))"
proof -
  have c: "ext_cause \<noteq> 8" "timer_cause \<noteq> 8" by (simp_all add: ext_cause_def timer_cause_def)
  consider "scause r = 8" | "scause r = ext_cause \<or> scause r = timer_cause" | "scause r \<notin> {8, ext_cause, timer_cause}" by blast
  then show ?thesis
  proof cases
    case 1
    then show ?thesis using usertrap_syscall [OF t 1] c by simp
  next
    case 2
    obtain u where u: "usertrap_end h resume (if scause r = timer_cause then 2 else 1) u = Inr (out, s')"
      "killed (curp s) s \<Longrightarrow> killed (curp u) u" by (rule usertrap_interrupt [OF t 2 irq]) blast
    have "\<not> killed (curp s) s" if "out \<noteq> Exited" using usertrap_end_killed [OF u(2) u(1)] that by blast
    moreover have "\<not> killed (curp s') s'" if "out = To_user" "scause r \<noteq> timer_cause"
      using usertrap_end_To_user(2) [of h resume 1 u s'] u(1) that by simp
    moreover have "\<exists>u u' h'. \<not> killed (curp u) u \<and> resume (yield_cpu u) = (h', u') \<and> s' = prepare_return h' u'"
      if "out = To_user" "scause r = timer_cause" using usertrap_end_To_user(1,3) [of h resume 2 u s'] u(1) that by auto
    ultimately show ?thesis using 2 by blast
  next
    case 3
    obtain u where u: "usertrap_end h resume 0 u = Inr (out, s')" "killed (curp s) s \<Longrightarrow> killed (curp u) u"
      "scause r \<notin> {13, 15} \<Longrightarrow> killed (curp u) u" by (rule usertrap_exception [OF t 3]) blast
    then show ?thesis
      using 3 usertrap_end_killed [OF u(2) u(1)] usertrap_end_killed [OF u(3) u(1)] usertrap_end_To_user(2) [of h resume 0 u s'] by auto
  qed
qed

definition hart0 :: hart where "hart0 = \<lparr>h_id = 0, h_satp = 0, h_usertrap = 0x80000500\<rparr>"
definition hart1 :: hart where "hart1 = \<lparr>h_id = 1, h_satp = 0, h_usertrap = 0x80000500\<rparr>"
definition user_trap :: "u64 \<Rightarrow> trap_regs" where
  "user_trap c = \<lparr>scause = c, sepc = 0x1000, stval = 0, from_supervisor = False\<rparr>"
definition no_devices :: devices where
  "no_devices = \<lparr>dev_read = (\<lambda>_. None), dev_write = (\<lambda>_. None), stat_pad = [0, 0, 0, 0]\<rparr>"

lemma not_killed_ex: "\<not> killed 0 (tf_set 0 off v alloc_ex)" "curp alloc_ex = 0" "curp (tf_set 0 off v alloc_ex) = 0"
  by (simp_all add: keeps_killed_tf_set alloc_ex_simps) (simp add: killed_def alloc_ex_simps zero_proc_def)

text \<open>A device interrupt on hart 0.\<close>

theorem killed_process_exits_witness:
  "\<exists>s'. usertrap no_devices hart0 (\<lambda>s. (hart1, s)) id (user_trap ext_cause) alloc_ex = Inr (To_user, s') \<and> \<not> killed (curp s') s'"
proof -
  let ?s' = "prepare_return hart0 (tf_set 0 TF_EPC 0x1000 alloc_ex)"
  have u: "usertrap no_devices hart0 (\<lambda>s. (hart1, s)) id (user_trap ext_cause) alloc_ex = Inr (To_user, ?s')"
    by (simp add: usertrap_def user_trap_def ext_cause_def devintr_def usertrap_end_def not_killed_ex)
  have "keeps_killed id" by (simp add: keeps_killed_def)
  from killed_process_exits [OF this u] have "\<not> killed (curp ?s') ?s'" by (simp add: user_trap_def ext_cause_def timer_cause_def)
  then show ?thesis using u by blast
qed

text \<open>A process that another one kills while it waits for the CPU after a timer interrupt.\<close>

lemma killed_while_runnable:
  "\<exists>s'. usertrap no_devices hart1 (\<lambda>s. (hart0, setkilled (curp s) s)) id (user_trap timer_cause) alloc_ex = Inr (To_user, s') \<and> killed (curp s') s'"
proof -
  let ?s = "yield_cpu (tf_set 0 TF_EPC 0x1000 alloc_ex)"
  have "usertrap no_devices hart1 (\<lambda>s. (hart0, setkilled (curp s) s)) id (user_trap timer_cause) alloc_ex =
      Inr (To_user, prepare_return hart0 (setkilled (curp ?s) ?s))"
    by (simp add: usertrap_def user_trap_def timer_cause_def devintr_def clockintr_def hart1_def usertrap_end_def not_killed_ex Let_def)
  moreover have "killed (curp (prepare_return hart0 t)) (prepare_return hart0 t) = killed (curp t) t" for t
    using prepare_return_tables [of t hart0] by (simp add: same_tables_def killed_def)
  ultimately show ?thesis by (simp add: setkilled_def killed_def procs_upd_proc)
qed

text \<open>Unmapping a range that ends beyond \<open>MAXVA\<close> always ends in a panic.\<close>

lemma uvmunmap_loop_beyond:
  assumes "aligned 4096 a" "a \<le> MAXVA" "MAXVA < end_a"
  shows "\<exists>e. uvmunmap_loop kend pt a end_a do_free k = Inl e"
  using assms
proof (induction kend pt a end_a do_free k rule: uvmunmap_loop.induct)
  case (1 kend pt a end_a do_free k)
  have lt: "a < end_a" using "1.prems" by simp
  show ?case
  proof (cases "walk pt a False k")
    case (Inl e)
    then show ?thesis using lt by (subst uvmunmap_loop.simps) simp
  next
    case (Inr x)
    obtain pte k' where x: "x = (pte, k')" by (cases x)
    have a: "a < MAXVA" using walk_lt_MAXVA [OF Inr] .
    have u: "unat (a + PGSIZE) = unat a + 4096" by (rule page_step_lt_MAXVA [OF a])
    have "4096 dvd unat MAXVA - unat a"
      using "1.prems"(1) by (intro dvd_diff_nat) (simp_all add: aligned_def mod_eq_0_iff_dvd unat_MAXVA)
    then have "4096 \<le> unat MAXVA - unat a" using a by (intro dvd_imp_le) (auto simp: word_less_nat_alt)
    then have le: "a + PGSIZE \<le> MAXVA" by (simp add: word_le_nat_alt u)
    have al: "aligned 4096 (a + PGSIZE)" using "1.prems"(1) by (simp add: aligned_def u)
    note ih = "1.IH" [OF lt Inr [unfolded x] refl]
    show ?thesis
      by (subst uvmunmap_loop.simps)
        (use ih(1,2) ih(3) al le "1.prems"(3) lt Inr x in \<open>auto split: sum.splits\<close>)
  qed
qed

lemma uvmfree_beyond:
  assumes "MAXVA < sz" "unat sz + 4095 < 2 ^ 64"
  shows "\<exists>e. uvmfree kend depth pt sz k = Inl e"
proof -
  have up: "unat (PGROUNDUP sz) = (unat sz + 4095) div 4096 * 4096" using assms(2) by (simp add: PGROUNDUP_unat)
  then have "PGROUNDUP sz mod PGSIZE = 0" by (simp add: mod_PGSIZE_aligned aligned_def)
  then have "PGROUNDUP sz div PGSIZE * PGSIZE = PGROUNDUP sz"
    using div_mult_mod_eq [of "PGROUNDUP sz" PGSIZE] by simp
  moreover have "unat sz \<le> (unat sz + 4095) div 4096 * 4096"
    using div_mult_mod_eq [of "unat sz + 4095" 4096] mod_less_divisor [of 4096 "unat sz + 4095"] by linarith
  ultimately have "MAXVA < PGROUNDUP sz div PGSIZE * PGSIZE"
    using assms(1) up by (simp add: word_less_nat_alt)
  then have "\<exists>e. uvmunmap kend pt 0 (PGROUNDUP sz div PGSIZE) True k = Inl e"
    using uvmunmap_loop_beyond [of 0 "PGROUNDUP sz div PGSIZE * PGSIZE"] by (simp add: uvmunmap_def aligned_def)
  moreover have "0 < sz" using assms(1) by (auto simp: word_less_nat_alt unat_MAXVA)
  ultimately show ?thesis by (auto simp: uvmfree_def)
qed

lemma unat_scast_nonneg: "0 \<le> sint (n :: cint) \<Longrightarrow> unat (scast n :: u64) = nat (sint n)"
proof -
  assume a: "0 \<le> sint n"
  have "sint n < 2 ^ 31" using sint_lt [of n] by simp
  moreover have "uint (scast n :: u64) = take_bit 64 (sint n)"
    by (simp only: scast_eq uint_word_of_int_eq len_num1 len_bit0) simp
  ultimately show ?thesis using a by (simp add: unat_eq_nat_uint take_bit_int_eq_self)
qed

lemma seq_Inl: "m s = Inl e \<Longrightarrow> seq m f s = Inl e"
  by (simp add: seq_def)

lemma freeproc_beyond:
  assumes "MAXVA < p_sz (procs t i)" "unat (p_sz (procs t i)) + 4095 < 2 ^ 64" "p_pagetable (procs t i) \<noteq> 0"
  shows "\<exists>e. freeproc i t = Inl e"
proof (cases "freeproc i t")
  case (Inr r)
  then obtain t1 t2 u where "same_tables t t1" "t2 = upd_proc i (\<lambda>p. p\<lparr>p_trapframe := 0\<rparr>) t1"
    "proc_freepagetable (p_pagetable (procs t2 i)) (p_sz (procs t2 i)) t2 = Inr u"
    using assms(3) by (cases r) (auto simp: freeproc_def seq_Inr_iff ret_def Let_def procs_upd_proc same_tables_def
        split: if_splits dest!: on_mem_unit_tables)
  moreover from this have "p_sz (procs t2 i) = p_sz (procs t i)" by (simp add: procs_upd_proc same_tables_def)
  ultimately obtain kend pt k u' where "uvmfree kend 3 pt (p_sz (procs t i)) k = Inr u'"
    by (cases u) (auto simp: proc_freepagetable_def seq_Inr_iff on_mem_unit_def bind_result_Inr_iff)
  then show ?thesis using uvmfree_beyond [OF assms(1,2), of kend 3 pt k] by auto
qed simp

text \<open>C21: The lazy path of \<open>sys_sbrk\<close> checks the new size only against 64-bit overflow, so a process can
  make its size exceed \<open>MAXVA\<close>. Memory of such a process can not be freed: whatever its page table and
  memory look like, \<open>freeproc\<close> ends in an error, which is a kernel panic when its parent waits for it.\<close>

theorem lazy_sbrk_makes_process_unfreeable:
  fixes n :: cint
  assumes args: "tf_get TF_A0 s = ucast n" "ucast (tf_get TF_A1 s) \<noteq> SBRK_EAGER"
    and n: "0 \<le> sint n" "unat (p_sz (myproc s)) + nat (sint n) + 4095 < 2 ^ 64"
    and big: "unat MAXVA < unat (p_sz (myproc s)) + nat (sint n)"
  shows "\<exists>s'. sys_sbrk s = Inr (p_sz (myproc s), s') \<and>
    unat (p_sz (procs s' (curp s))) = unat (p_sz (myproc s)) + nat (sint n) \<and>
    (\<forall>t. p_pagetable (procs t (curp s)) \<noteq> 0 \<longrightarrow> p_sz (procs t (curp s)) = p_sz (procs s' (curp s)) \<longrightarrow>
       (\<exists>e. freeproc (curp s) t = Inl e))"
proof -
  let ?sz = "p_sz (myproc s)" and ?t = "upd_proc (curp s) (\<lambda>p. p\<lparr>p_sz := p_sz p + scast n\<rparr>) s"
  have sum: "unat (?sz + scast n) = unat ?sz + nat (sint n)"
    using n by (subst unat_add_no_wrap) (simp_all add: unat_scast_nonneg)
  then have ge: "\<not> ?sz + scast n < ?sz" by (simp add: word_less_nat_alt)
  have "(ucast (ucast n :: u64) :: cint) = n" by (rule bit_word_eqI) (simp add: bit_simps)
  moreover have "TF_A0 + 8 = TF_A1" by (simp add: TF_A0_def TF_A1_def)
  ultimately have "sys_sbrk s = Inr (?sz, ?t)"
    using args n(1) ge by (simp add: sys_sbrk_def argint_def arg_def argraw_def seq_def ret_def Let_def)
  moreover have "p_sz (procs ?t (curp s)) = ?sz + scast n" by (simp add: procs_upd_proc)
  moreover have "MAXVA < ?sz + scast n" "unat (?sz + scast n) + 4095 < 2 ^ 64"
    using big n(2) sum by (simp_all add: word_less_nat_alt)
  ultimately show ?thesis using sum freeproc_beyond by (intro exI [of _ ?t]) simp
qed

definition sbrk_ex :: sys where
  "sbrk_ex = set_mem (set_mem64 TF_A1 2 (set_mem64 TF_A0 0x7FFFFFFF kmem_ex))
     (upd_proc 0 (\<lambda>p. p\<lparr>p_sz := MAXVA - 1\<rparr>) (boot_sys fs_ex))"

lemma sbrk_ex_simps:
  "curp sbrk_ex = 0" "p_sz (procs sbrk_ex 0) = MAXVA - 1" "tf_get TF_A0 sbrk_ex = 0x7FFFFFFF" "tf_get TF_A1 sbrk_ex = 2"
proof -
  have "load64 (store64 (store64 m TF_A0 x) TF_A1 2) TF_A0 = load64 (store64 m TF_A0 x) TF_A0" for m x
    by (rule load64_store64_other) (simp_all add: aligned_def TF_A0_def TF_A1_def)
  then show "tf_get TF_A0 sbrk_ex = 0x7FFFFFFF" "tf_get TF_A1 sbrk_ex = 2"
    by (simp_all add: tf_get_def sbrk_ex_def boot_sys_def procs_upd_proc zero_proc_def set_mem64_def)
qed (simp_all add: sbrk_ex_def boot_sys_def procs_upd_proc)

theorem lazy_sbrk_makes_process_unfreeable_witness:
  "\<exists>s'. sys_sbrk sbrk_ex = Inr (MAXVA - 1, s') \<and> unat MAXVA < unat (p_sz (procs s' 0))"
proof -
  have "unat (MAXVA - 1) = 2 ^ 38 - 1" by (simp add: MAXVA_def)
  then show ?thesis
    using lazy_sbrk_makes_process_unfreeable [of sbrk_ex "0x7FFFFFFF"]
    by (auto simp: sbrk_ex_simps SBRK_EAGER_def unat_MAXVA)
qed

end
