(* ===== verification/Fileref.thy ===== *)
theory Fileref
  imports Syscall
begin

text \<open>
  Reference counts of open files. The count in \<^verbatim>\<open>struct file\<close> is the number of descriptors, over all
  processes, that refer to the file. Inside a system call the two may differ for a while: \<open>d f\<close> is the
  number of references to \<open>f\<close> that the kernel code itself holds at that point.
\<close>

section \<open>The invariant\<close>

definition fd_refs :: "nat \<Rightarrow> sys \<Rightarrow> nat" where
  "fd_refs f s = (\<Sum>p<NPROC. count_list (p_ofile (procs s p)) (Some f))"

definition no_files :: "proc \<Rightarrow> bool" where
  "no_files p \<longleftrightarrow> p_ofile p = replicate NOFILE None"

definition dead :: "proc \<Rightarrow> bool" where
  "dead p \<longleftrightarrow> p_state p = UNUSED \<or> p_state p = ZOMBIE"

definition files_ok :: "(nat \<Rightarrow> int) \<Rightarrow> sys \<Rightarrow> bool" where
  "files_ok d s \<longleftrightarrow>
     (\<forall>f<NFILE. f_ref (ftab s f) = int (fd_refs f s) + d f) \<and>
     (\<forall>p<NPROC. length (p_ofile (procs s p)) = NOFILE) \<and>
     (\<forall>p<NPROC. \<forall>f. Some f \<in> set (p_ofile (procs s p)) \<longrightarrow> f < NFILE) \<and>
     (\<forall>p<NPROC. dead (procs s p) \<longrightarrow> no_files (procs s p))"

definition plus_ref :: "(nat \<Rightarrow> int) \<Rightarrow> nat \<Rightarrow> int \<Rightarrow> nat \<Rightarrow> int" where
  "plus_ref d f n = d(f := d f + n)"

lemma plus_ref_cancel [simp]: "plus_ref (plus_ref d f n) f (- n) = d" "plus_ref (plus_ref d f (- n)) f n = d"
  by (auto simp: plus_ref_def)

lemma count_list_update:
  "i < length xs \<Longrightarrow> int (count_list (xs[i := y]) z) =
     int (count_list xs z) - (if xs ! i = z then 1 else 0) + (if y = z then 1 else 0)"
proof (induction xs arbitrary: i)
  case (Cons x xs)
  show ?case
  proof (cases i)
    case (Suc j)
    then show ?thesis using Cons.IH [of j] Cons.prems by (auto split: if_splits)
  qed simp
qed simp

text \<open>States with the same descriptors and counts.\<close>

definition same_files :: "sys \<Rightarrow> sys \<Rightarrow> bool" where
  "same_files s s' \<longleftrightarrow> (\<forall>f. f_ref (ftab s' f) = f_ref (ftab s f)) \<and>
     (\<forall>p. p_ofile (procs s' p) = p_ofile (procs s p)) \<and> curp s' = curp s \<and>
     (\<forall>p. dead (procs s' p) \<longrightarrow> dead (procs s p))"

lemma same_files_refl [simp]: "same_files s s"
  by (simp add: same_files_def)

lemma same_files_trans [trans]: "same_files s t \<Longrightarrow> same_files t u \<Longrightarrow> same_files s u"
  by (simp add: same_files_def)

lemma same_tables_files: "same_tables s s' \<Longrightarrow> same_files s s'"
  by (simp add: same_tables_def same_files_def)

lemma files_ok_same: "same_files s s' \<Longrightarrow> files_ok d s \<Longrightarrow> files_ok d s'"
  by (simp add: files_ok_def fd_refs_def no_files_def same_files_def)

lemma wakeup_files [simp]: "same_files s (wakeup ch s)"
  by (auto simp: same_files_def wakeup_spec woken_def dead_def)

lemma wake_pipe_files [simp]: "same_files s (wake_pipe pi chs s)"
  unfolding wake_pipe_def
  by (induction chs rule: rev_induct) (auto intro: same_files_trans)

lemma sleep_on_files [simp]: "same_files s (sleep_on ch s)"
  by (simp add: same_files_def sleep_on_def procs_upd_proc dead_def)

lemma pipes_upd_files [simp]: "same_files s (s\<lparr>pipes := x\<rparr>)"
  by (simp add: same_files_def)

text \<open>The running process stays and stays alive.\<close>

definition live :: "sys \<Rightarrow> bool" where
  "live s \<longleftrightarrow> curp s < NPROC \<and> \<not> dead (myproc s)"

definition keeps :: "sys \<Rightarrow> sys \<Rightarrow> bool" where
  "keeps s s' \<longleftrightarrow> curp s' = curp s \<and> (\<forall>p. dead (procs s' p) \<longrightarrow> dead (procs s p))"

lemma keeps_refl [simp]: "keeps s s"
  by (simp add: keeps_def)

lemma keeps_trans: "keeps s t \<Longrightarrow> keeps t u \<Longrightarrow> keeps s u"
  by (auto simp: keeps_def)

lemma keeps_live: "keeps s s' \<Longrightarrow> live s \<Longrightarrow> live s'"
  by (auto simp: keeps_def live_def)

lemma same_files_keeps: "same_files s s' \<Longrightarrow> keeps s s'"
  by (simp add: same_files_def keeps_def)

lemma upd_file_keeps [simp]: "keeps s (upd_file f g s)"
  by (simp add: keeps_def)

lemma set_ofile_keeps [simp]: "keeps s (set_ofile p fd x s)"
  by (auto simp: keeps_def set_ofile_def procs_upd_proc dead_def)

lemmas io_files = run_fs_tables [THEN same_tables_files] on_mem_tables [THEN same_tables_files]
  on_mem_unit_tables [THEN same_tables_files] user_copyout_tables [THEN same_tables_files]
  user_copyin_tables [THEN same_tables_files]

lemma close_pipe_files: "close_pipe pi w s = Inr (u, s') \<Longrightarrow> same_files s s'"
proof -
  assume a: "close_pipe pi w s = Inr (u, s')"
  obtain chs x fr where p: "pipeclose w (pipes s pi) = (chs, x, fr)" by (cases "pipeclose w (pipes s pi)")
  let ?t = "wake_pipe pi chs (s\<lparr>pipes := (pipes s)(pi := x)\<rparr>)"
  have "same_files s ?t" using same_files_trans [OF pipes_upd_files wake_pipe_files] .
  moreover have "same_files ?t s'"
    using a p by (auto simp: close_pipe_def Let_def split: if_splits dest: io_files)
  ultimately show ?thesis by (rule same_files_trans)
qed

text \<open>\<open>sys_begin_op\<close> and \<open>sys_end_op\<close> are calls into the file system.\<close>

lemma transaction_tables:
  "sys_begin_op s = Inr (u, s') \<Longrightarrow> same_tables s s'" "sys_end_op s = Inr (u, s') \<Longrightarrow> same_tables s s'"
  by (auto simp: sys_begin_op_def sys_end_op_def dest: run_fs_tables)

lemmas op_files = transaction_tables [THEN same_tables_files] io_files

section \<open>Files\<close>

lemma files_ok_ref:
  "files_ok d s \<Longrightarrow> (\<And>x. f_ref (g x) = f_ref x + n) \<Longrightarrow> files_ok (plus_ref d f n) (upd_file f g s)"
  by (auto simp: files_ok_def fd_refs_def plus_ref_def ftab_upd_file)

lemma files_ok_keep:
  "files_ok d s \<Longrightarrow> (\<And>x. f_ref (g x) = f_ref x) \<Longrightarrow> files_ok d (upd_file f g s)"
  by (auto simp: files_ok_def fd_refs_def ftab_upd_file)

lemma files_ok_zero: "files_ok (plus_ref d f n) s \<Longrightarrow> NFILE \<le> f \<Longrightarrow> files_ok d s"
  by (auto simp: files_ok_def plus_ref_def split: if_splits)

lemma filealloc_ok:
  "files_ok d s \<Longrightarrow> filealloc s = (Some f, s') \<Longrightarrow> f < NFILE \<and> files_ok (plus_ref d f 1) s' \<and> f_ref (ftab s f) = 0"
  "filealloc s = (None, s') \<Longrightarrow> s' = s"
proof -
  assume a: "files_ok d s" "filealloc s = (Some f, s')"
  then have f: "f < NFILE" "f_ref (ftab s f) = 0" "s' = upd_file f (\<lambda>x. x\<lparr>f_ref := 1\<rparr>) s"
    by (auto simp: filealloc_def first_slot_Some split: option.splits)
  then have "files_ok (plus_ref d f 1) s'"
    using a(1) by (auto simp: files_ok_def fd_refs_def plus_ref_def ftab_upd_file)
  with f show "f < NFILE \<and> files_ok (plus_ref d f 1) s' \<and> f_ref (ftab s f) = 0" by simp
qed (auto simp: filealloc_def split: option.splits)

lemma filedup_ok: "files_ok d s \<Longrightarrow> filedup f s = Inr (g, s') \<Longrightarrow> g = f \<and> files_ok (plus_ref d f 1) s'"
  using files_ok_ref [of d s "\<lambda>x. x\<lparr>f_ref := f_ref x + 1\<rparr>" 1 f] by (auto simp: filedup_def split: if_splits)

lemma fileclose_ok: 
  assumes ok: "files_ok d s" and c: "fileclose f s = Inr (u, s')"
  shows "files_ok (plus_ref d f (-1)) s' \<and> keeps s s'"
proof -
  let ?s1 = "upd_file f (\<lambda>x. x\<lparr>f_ref := f_ref x - 1\<rparr>) s"
  let ?s2 = "upd_file f (\<lambda>x. x\<lparr>f_ref := 0, f_type := FD_NONE\<rparr>) ?s1"
  have 1: "files_ok (plus_ref d f (-1)) ?s1" using ok by (intro files_ok_ref) simp_all
  have pos: "1 \<le> f_ref (ftab s f)" using c by (simp add: fileclose_def split: if_splits)
  show ?thesis
  proof (cases "f_ref (ftab s f) = 1")
    case False
    then show ?thesis using c pos 1 by (auto simp: fileclose_def ftab_upd_file Let_def split: if_splits)
  next
    case True
    have "same_files ?s1 ?s2" using True by (simp add: same_files_def ftab_upd_file)
    then have 2: "files_ok (plus_ref d f (-1)) ?s2" using 1 files_ok_same by blast
    have "same_files ?s2 s'"
      using c True
      by (auto simp: fileclose_def ftab_upd_file Let_def seq_Inr_iff split: if_splits
          dest!: close_pipe_files op_files intro: same_files_trans)
    moreover from this have "keeps s s'" by (auto simp: same_files_def keeps_def)
    ultimately show ?thesis using files_ok_same [OF _ 2] by blast
  qed
qed

lemma fileclose_ofile: "fileclose f s = Inr (u, s') \<Longrightarrow> p_ofile (procs s' p) = p_ofile (procs s p)"
proof -
  assume c: "fileclose f s = Inr (u, s')"
  have "\<exists>t. procs t = procs s \<and> same_files t s'"
    using c by (auto simp: fileclose_def Let_def seq_Inr_iff split: if_splits dest!: close_pipe_files op_files
        intro: same_files_trans same_files_refl) (metis (no_types) same_files_refl same_files_trans upd_file_frame(2))+
  then show ?thesis by (auto simp: same_files_def)
qed

section \<open>Descriptors\<close>

lemma fd_refs_set_ofile:
  assumes "p < NPROC" "fd < length (p_ofile (procs s p))"
  shows "int (fd_refs f (set_ofile p fd x s)) =
    int (fd_refs f s) - (if p_ofile (procs s p) ! fd = Some f then 1 else 0) + (if x = Some f then 1 else 0)"
proof -
  let ?n = "\<lambda>s q. int (count_list (p_ofile (procs s q)) (Some f))"
  have "int (fd_refs f t) = (\<Sum>q\<in>{..<NPROC} - {p}. ?n t q) + ?n t p" for t
    using assms(1) by (simp add: fd_refs_def sum.remove [of "{..<NPROC}" p])
  moreover have "(\<Sum>q\<in>{..<NPROC} - {p}. ?n (set_ofile p fd x s) q) = (\<Sum>q\<in>{..<NPROC} - {p}. ?n s q)"
    by (intro sum.cong) (simp_all add: set_ofile_def procs_upd_proc)
  moreover have "?n (set_ofile p fd x s) p = ?n s p - (if p_ofile (procs s p) ! fd = Some f then 1 else 0) + (if x = Some f then 1 else 0)"
    using assms(2) by (simp add: set_ofile_def procs_upd_proc count_list_update)
  ultimately show ?thesis by simp
qed

text \<open>What changing one descriptor means for the references the kernel holds.\<close>

definition ref_diff :: "(nat \<Rightarrow> int) \<Rightarrow> nat option \<Rightarrow> int \<Rightarrow> nat \<Rightarrow> int" where
  "ref_diff d x n = (case x of None \<Rightarrow> d | Some f \<Rightarrow> plus_ref d f n)"

lemma set_ofile_ok:
  assumes ok: "files_ok d s" and p: "p < NPROC" "fd < NOFILE" "\<not> dead (procs s p)"
    and x: "\<And>f. x = Some f \<Longrightarrow> f < NFILE"
  shows "files_ok (ref_diff (ref_diff d (p_ofile (procs s p) ! fd) 1) x (-1)) (set_ofile p fd x s)"
proof -
  let ?t = "set_ofile p fd x s" and ?d = "ref_diff (ref_diff d (p_ofile (procs s p) ! fd) 1) x (-1)"
  have len: "length (p_ofile (procs s p)) = NOFILE" using ok p(1) by (simp add: files_ok_def)
  have t: "ftab ?t = ftab s" "p_ofile (procs ?t q) = (if q = p then (p_ofile (procs s p))[fd := x] else p_ofile (procs s q))"
    "dead (procs ?t q) = dead (procs s q)" for q
    by (simp_all add: set_ofile_def procs_upd_proc dead_def)
  have "f_ref (ftab ?t f) = int (fd_refs f ?t) + ?d f" if "f < NFILE" for f
  proof -
    have "f_ref (ftab s f) = int (fd_refs f s) + d f" using ok that by (simp add: files_ok_def)
    then show ?thesis
      using fd_refs_set_ofile [OF p(1), of fd s f x] p(2) len
      by (auto simp: t(1) ref_diff_def plus_ref_def split: option.splits)
  qed
  moreover have "f < NFILE" if "q < NPROC" "Some f \<in> set (p_ofile (procs ?t q))" for q f
    using that x ok set_update_subset_insert [of "p_ofile (procs s p)" fd x]
    by (auto simp: t(2) files_ok_def split: if_splits)
  ultimately show ?thesis
    using ok p(3) unfolding files_ok_def no_files_def by (auto simp: t)
qed

lemma ofile_range:
  assumes "files_ok d s" "p < NPROC" "fd < NOFILE" "p_ofile (procs s p) ! fd = Some f"
  shows "f < NFILE"
proof -
  have "Some f \<in> set (p_ofile (procs s p))" using assms unfolding files_ok_def by (metis nth_mem)
  with assms show ?thesis by (simp add: files_ok_def)
qed

lemma set_ofile_None_ok:
  assumes "files_ok d s" "p < NPROC" "fd < NOFILE" "\<not> dead (procs s p)" "p_ofile (procs s p) ! fd = Some f"
  shows "files_ok (plus_ref d f 1) (set_ofile p fd None s)"
  using set_ofile_ok [OF assms(1-4), of None] assms(5) by (simp add: ref_diff_def)

lemma set_ofile_Some_ok:
  assumes "files_ok d s" "p < NPROC" "fd < NOFILE" "\<not> dead (procs s p)" "p_ofile (procs s p) ! fd = None" "f < NFILE"
  shows "files_ok (plus_ref d f (-1)) (set_ofile p fd (Some f) s)"
  using set_ofile_ok [OF assms(1-4), of "Some f"] assms(5,6) by (simp add: ref_diff_def)

lemma fdalloc_ok:
  assumes "files_ok d s" "curp s < NPROC" "\<not> dead (myproc s)" "f < NFILE" "fdalloc f s = (r, s')"
  shows "(case r of None \<Rightarrow> s' = s | Some fd \<Rightarrow> fd < NOFILE \<and> s' = set_ofile (curp s) fd (Some f) s \<and>
            files_ok (plus_ref d f (-1)) s')"
proof (cases "first_slot (\<lambda>x. x = None) (\<lambda>i. p_ofile (myproc s) ! i) 0 NOFILE")
  case (Some fd)
  then have "fd < NOFILE" "p_ofile (myproc s) ! fd = None" by (auto simp: first_slot_Some)
  moreover have "r = Some fd" "s' = set_ofile (curp s) fd (Some f) s"
    using assms(5) Some by (simp_all add: fdalloc_def)
  ultimately show ?thesis using set_ofile_Some_ok [OF assms(1,2) _ assms(3) _ assms(4)] by simp
qed (use assms(5) in \<open>auto simp: fdalloc_def\<close>)

lemma arg_same: "arg n s = Inr (v, s') \<Longrightarrow> s' = s"
  by (auto simp: arg_def bind_result_Inr_iff)

lemma argint_same: "argint n s = Inr (v, s') \<Longrightarrow> s' = s"
  by (auto simp: argint_def seq_Inr_iff ret_def dest: arg_same)

lemma argaddr_same: "argaddr n s = Inr (v, s') \<Longrightarrow> s' = s"
  by (auto simp: argaddr_def dest: arg_same)

lemma argstr_same: "argstr n m s = Inr (v, s') \<Longrightarrow> s' = s"
  by (auto simp: argstr_def seq_Inr_iff dest: argaddr_same)

lemma argfd_result:
  "argfd n s = Inr (r, s') \<Longrightarrow> s' = s \<and>
     (case r of None \<Rightarrow> True | Some (fd, f) \<Rightarrow> fd < NOFILE \<and> p_ofile (myproc s) ! fd = Some f)"
  by (auto simp: argfd_def seq_Inr_iff dest!: argint_same split: if_splits option.splits)

lemma argfd_seqE:
  assumes "seq (argfd n) k s = Inr y"
  obtains a where "argfd n s = Inr (a, s)" "k a s = Inr y"
proof -
  obtain a t where "argfd n s = Inr (a, t)" "k a t = Inr y" using assms by (auto simp: seq_Inr_iff)
  with argfd_result that show ?thesis by blast
qed

section \<open>Operations that leave files alone\<close>

definition quiet :: "'a sysm \<Rightarrow> bool" where
  "quiet m \<longleftrightarrow> (\<forall>s r s'. m s = Inr (r, s') \<longrightarrow> same_files s s')"

lemma quietD: "quiet m \<Longrightarrow> m s = Inr (r, s') \<Longrightarrow> same_files s s'"
  unfolding quiet_def by blast

lemma quiet_point: "(\<And>s r s'. m s = Inr (r, s') \<Longrightarrow> same_files s s') \<Longrightarrow> quiet m"
  unfolding quiet_def by blast

lemma quiet_ret [simp]: "quiet (ret x)" "quiet (fail e)"
  by (auto simp: quiet_def ret_def fail_def)

lemma quiet_calls [simp]:
  "quiet (run_fs m)" "quiet (on_mem g)" "quiet (on_mem_unit h)" "quiet (user_copyout a b)" "quiet (user_copyin a n)"
  "quiet sys_begin_op" "quiet sys_end_op"
  using op_files by (auto intro!: quiet_point)

lemma quiet_args [simp]: "quiet (argint n)" "quiet (argaddr n)" "quiet (argstr n m)" "quiet (argfd n)"
  by (auto intro!: quiet_point dest: argint_same argaddr_same argstr_same argfd_result)

lemma upd_proc_same_files:
  "(\<And>p. p_ofile (g p) = p_ofile p) \<Longrightarrow> (\<And>p. dead (g p) \<Longrightarrow> dead p) \<Longrightarrow> same_files s (upd_proc i g s)"
  by (auto simp: same_files_def procs_upd_proc)

lemma upd_file_same_files: "(\<And>x. f_ref (g x) = f_ref x) \<Longrightarrow> same_files s (upd_file i g s)"
  by (auto simp: same_files_def ftab_upd_file)

lemma tf_set_files [simp]: "same_files s (tf_set i off v s)"
  by (simp add: same_tables_files)

text \<open>Rules that follow the structure of an operation: its result has the files of \<open>s\<close>.\<close>

definition same_res :: "sys \<Rightarrow> ('a \<times> sys) result \<Rightarrow> bool" where
  "same_res s res \<longleftrightarrow> (\<forall>r s'. res = Inr (r, s') \<longrightarrow> same_files s s')"

lemma quietI: "(\<And>s. same_res s (m s)) \<Longrightarrow> quiet m"
  by (simp add: quiet_def same_res_def)

lemma sr_seq: "same_res s (m t) \<Longrightarrow> (\<And>x u. same_files s u \<Longrightarrow> same_res s (f x u)) \<Longrightarrow> same_res s (seq m f t)"
  unfolding same_res_def seq_Inr_iff by blast

lemma sr_quiet: "quiet m \<Longrightarrow> same_files s t \<Longrightarrow> same_res s (m t)"
  unfolding same_res_def by (blast intro: same_files_trans dest: quietD)

lemma sr_Inr: "same_files s u \<Longrightarrow> same_res s (Inr (x, u))"
  by (simp add: same_res_def)

lemma sr_Inl: "same_res s (Inl e)"
  by (simp add: same_res_def)

lemma sr_if: "(c \<Longrightarrow> same_res s a) \<Longrightarrow> (\<not> c \<Longrightarrow> same_res s b) \<Longrightarrow> same_res s (if c then a else b)"
  by simp

lemma sr_if_fun: "(c \<Longrightarrow> same_res s (a t)) \<Longrightarrow> (\<not> c \<Longrightarrow> same_res s (b t)) \<Longrightarrow> same_res s ((if c then a else b) t)"
  by simp

lemma sr_option: "(x = None \<Longrightarrow> same_res s a) \<Longrightarrow> (\<And>y. x = Some y \<Longrightarrow> same_res s (b y)) \<Longrightarrow>
    same_res s (case x of None \<Rightarrow> a | Some y \<Rightarrow> b y)"
  by (cases x) simp_all

lemma sr_option_fun: "(x = None \<Longrightarrow> same_res s (a t)) \<Longrightarrow> (\<And>y. x = Some y \<Longrightarrow> same_res s (b y t)) \<Longrightarrow>
    same_res s ((case x of None \<Rightarrow> a | Some y \<Rightarrow> b y) t)"
  by (cases x) simp_all

lemma sr_prod: "(\<And>y z. x = (y, z) \<Longrightarrow> same_res s (b y z)) \<Longrightarrow> same_res s (case x of (y, z) \<Rightarrow> b y z)"
  by (cases x) simp

lemma sr_prod_fun: "(\<And>y z. x = (y, z) \<Longrightarrow> same_res s (b y z t)) \<Longrightarrow> same_res s ((case x of (y, z) \<Rightarrow> b y z) t)"
  by (cases x) simp

lemma sr_result:
  "same_res s r \<Longrightarrow> (\<And>x u. same_files s u \<Longrightarrow> same_res s (f x u)) \<Longrightarrow>
     same_res s (case r of Inl e \<Rightarrow> Inl e | Inr y \<Rightarrow> (case y of (x, u) \<Rightarrow> f x u))"
  by (cases r) (auto simp: same_res_def)

lemma sr_Let: "same_res s (f a) \<Longrightarrow> same_res s (Let a f)"
  by (simp add: Let_def)

lemmas sr_rules = sr_seq sr_if sr_if_fun sr_option sr_option_fun sr_prod sr_prod_fun sr_Let sr_Inr sr_Inl sr_result

text \<open>Updates that do not touch descriptors or counts.\<close>

lemma sf_tf: "same_files s t \<Longrightarrow> same_files s (tf_set i off v t)"
  by (rule same_files_trans [OF _ tf_set_files])

lemma sf_mem: "same_files s t \<Longrightarrow> same_files s (set_mem k t)"
  by (rule same_files_trans [OF _ same_tables_files [OF same_tables_set_mem]])

lemma sf_proc: "same_files s t \<Longrightarrow> (\<And>p. p_ofile (g p) = p_ofile p) \<Longrightarrow> (\<And>p. dead (g p) \<Longrightarrow> dead p) \<Longrightarrow>
    same_files s (upd_proc i g t)"
  by (rule same_files_trans [OF _ upd_proc_same_files])

lemma sf_file: "same_files s t \<Longrightarrow> (\<And>x. f_ref (g x) = f_ref x) \<Longrightarrow> same_files s (upd_file i g t)"
  by (rule same_files_trans [OF _ upd_file_same_files])

lemma sf_sleep: "same_files s t \<Longrightarrow> same_files s (sleep_on ch t)"
  by (rule same_files_trans [OF _ sleep_on_files])

lemma sf_pipes: "same_files s t \<Longrightarrow> same_files s (t\<lparr>pipes := x\<rparr>)"
  by (rule same_files_trans [OF _ pipes_upd_files])

lemma sf_wake: "same_files s t \<Longrightarrow> same_files s (wake_pipe pi chs t)"
  by (rule same_files_trans [OF _ wake_pipe_files])

lemmas sf_rules = sf_tf sf_mem sf_proc sf_file sf_sleep sf_pipes sf_wake

lemmas sr_calls = quiet_calls [THEN sr_quiet] quiet_args [THEN sr_quiet] quiet_ret [THEN sr_quiet]

lemma quiet_proc_pagetable: "quiet (proc_pagetable tf)" "quiet (proc_freepagetable pt sz)"
  unfolding proc_pagetable_def proc_freepagetable_def
  by (rule quietI, (rule sr_rules sr_calls same_files_refl | assumption)+)+

lemma proc_pagetable_tables: "proc_pagetable tf s = Inr (pt, s') \<Longrightarrow> same_tables s s'"
  by (auto simp: proc_pagetable_def seq_Inr_iff ret_def split: if_splits
      dest!: on_mem_tables on_mem_unit_tables) (simp_all add: same_tables_def)

lemma quiet_growproc: "quiet (growproc n)"
  unfolding growproc_def
  by (rule quietI, (rule sr_rules sr_calls sf_rules same_files_refl | assumption | simp add: dead_def)+)

lemmas sr_calls2 = sr_calls quiet_proc_pagetable [THEN sr_quiet] quiet_growproc [THEN sr_quiet]

lemma loadseg_loop_res: "same_files s t \<Longrightarrow> same_res s (loadseg_loop pt va ip off sz i t)"
proof (induction "sz - i" arbitrary: i t rule: less_induct)
  case less
  show ?case
    by (subst loadseg_loop.simps)
      (rule sr_rules sr_calls sf_rules less.hyps less.prems | assumption | (simp; fail))+
qed

lemma quiet_loadseg: "quiet (loadseg pt va ip off sz)"
  unfolding loadseg_def by (rule quietI, rule loadseg_loop_res) simp

lemmas sr_calls3 = sr_calls2 quiet_loadseg [THEN sr_quiet]

lemma quiet_load_segments: "quiet (load_segments pt ip n off sz)"
proof (rule quietI)
  show "same_res s (load_segments pt ip n off sz s)" for s
  proof -
    have "same_files s t \<Longrightarrow> same_res s (load_segments pt ip n off sz t)" for t
    proof (induction n arbitrary: off sz t)
      case (Suc n)
      show ?case
        unfolding load_segments.simps
        by (rule sr_rules sr_calls3 Suc.IH Suc.prems | assumption)+
    qed (simp add: sr_Inr)
    then show ?thesis by simp
  qed
qed

lemma quiet_image_copyout: "quiet (image_copyout pt va bs)"
  unfolding image_copyout_def by (rule quietI, (rule sr_rules sr_calls same_files_refl)+)

lemma quiet_push_args: "quiet (push_args pt base argv sp us)"
proof (rule quietI)
  have "same_files s t \<Longrightarrow> same_res s (push_args pt base argv sp us t)" for s t
  proof (induction argv arbitrary: sp us t)
    case (Cons a argv)
    show ?case
      unfolding push_args.simps
      by (rule sr_rules quiet_image_copyout [THEN sr_quiet] Cons.IH Cons.prems | assumption)+
  qed (simp add: sr_Inr)
  then show "same_res s (push_args pt base argv sp us s)" for s by simp
qed

lemma quiet_push_stack: "quiet (push_stack pt base argv sp)"
  unfolding push_stack_def
  by (rule quietI, (rule sr_rules sr_calls quiet_image_copyout [THEN sr_quiet] quiet_push_args [THEN sr_quiet]
        same_files_refl | assumption)+)

lemma quiet_exec_bad: "quiet (exec_bad_file ip)" "quiet (exec_bad_table pt sz)"
  unfolding exec_bad_file_def exec_bad_table_def
  by (rule quietI, (rule sr_rules sr_calls2 same_files_refl | assumption)+)+

lemmas sr_calls4 = sr_calls3 quiet_load_segments [THEN sr_quiet] quiet_push_stack [THEN sr_quiet]
  quiet_exec_bad [THEN sr_quiet]

lemma quiet_exec_image: "quiet (exec_image path argv e pt sz)"
  unfolding exec_image_def
  by (rule quietI, (rule sr_rules sr_calls4 sf_rules same_files_refl | assumption | (simp add: dead_def; fail))+)

lemma quiet_kexec: "quiet (kexec path argv)"
  unfolding kexec_def
  by (rule quietI, (rule sr_rules sr_calls4 quiet_exec_image [THEN sr_quiet] same_files_refl | assumption)+)

section \<open>Quiet system calls\<close>

lemma quiet_in_transaction: "quiet (in_transaction m)"
  unfolding in_transaction_def by (rule quietI, (rule sr_rules sr_calls same_files_refl | assumption)+)

lemma quiet_links: "quiet sys_link" "quiet sys_unlink" "quiet sys_mkdir" "quiet sys_mknod"
  unfolding sys_link_def sys_unlink_def sys_mkdir_def sys_mknod_def
  by (rule quietI, (rule sr_rules sr_calls quiet_in_transaction [THEN sr_quiet] same_files_refl | assumption)+)+

lemma quiet_chdir: "quiet sys_chdir"
  unfolding sys_chdir_def
  by (rule quietI, (rule sr_rules sr_calls sf_rules same_files_refl | assumption | (simp add: dead_def; fail))+)

lemma quiet_free_pages: "quiet (free_pages_of as)"
proof (rule quietI)
  have "same_files s t \<Longrightarrow> same_res s (free_pages_of as t)" for s t
  proof (induction as arbitrary: t)
    case (Cons a as)
    show ?case unfolding free_pages_of.simps by (rule sr_rules sr_calls Cons.IH Cons.prems | assumption)+
  qed (simp add: sr_Inr)
  then show "same_res s (free_pages_of as s)" for s by simp
qed

lemma quiet_fetchaddr: "quiet (fetchaddr a)"
  unfolding fetchaddr_def by (rule quietI, (rule sr_rules sr_calls same_files_refl | assumption)+)

lemma quiet_fetch_args: "quiet (fetch_args u n pages strs)"
proof (rule quietI)
  have "same_files s t \<Longrightarrow> same_res s (fetch_args u n pages strs t)" for s t
  proof (induction n arbitrary: u pages strs t)
    case (Suc n)
    show ?case
      unfolding fetch_args.simps
      by (rule sr_rules sr_calls sf_rules quiet_fetchaddr [THEN sr_quiet] Suc.IH Suc.prems | assumption)+
  qed (simp add: sr_Inr)
  then show "same_res s (fetch_args u n pages strs s)" for s by simp
qed

lemma quiet_exec: "quiet sys_exec"
  unfolding sys_exec_def
  by (rule quietI, (rule sr_rules sr_calls quiet_fetch_args [THEN sr_quiet] quiet_kexec [THEN sr_quiet]
        quiet_free_pages [THEN sr_quiet] same_files_refl | assumption)+)

lemma quiet_sysproc: "quiet sys_getpid" "quiet sys_uptime" "quiet sys_sbrk" "quiet sys_pause" "quiet sys_kill"
proof -
  show "quiet sys_getpid" "quiet sys_uptime"
    by (simp_all add: quiet_def sys_getpid_def sys_uptime_def)
  show "quiet sys_sbrk"
    unfolding sys_sbrk_def
    by (rule quietI, (rule sr_rules sr_calls2 sf_rules same_files_refl | assumption | (simp add: dead_def; fail))+)
  show "quiet sys_pause"
    unfolding sys_pause_def pause_loop_def
    by (rule quietI, (rule sr_rules sr_calls sf_rules same_files_refl | assumption)+)
  have "same_files s (snd (kkill pid s))" for pid s
    by (auto simp: kkill_def dead_def Let_def split: option.splits intro!: upd_proc_same_files split: if_splits)
  then show "quiet sys_kill"
    by (auto simp: quiet_def sys_kill_def seq_Inr_iff dest!: argint_same) (metis snd_conv)
qed

lemma sr_filetype:
  "same_res s a \<Longrightarrow> same_res s b \<Longrightarrow> same_res s c \<Longrightarrow> same_res s e \<Longrightarrow>
     same_res s (case x of FD_NONE \<Rightarrow> a | FD_PIPE \<Rightarrow> b | FD_INODE \<Rightarrow> c | FD_DEVICE \<Rightarrow> e)"
  by (cases x) simp_all

lemma sf_if: "same_files s a \<Longrightarrow> same_files s b \<Longrightarrow> same_files s (if c then a else b)"
  by simp

lemma quiet_pipe_io: "quiet (pipe_io io ch pi)"
proof (rule quietI)
  fix s
  show "same_res s (pipe_io io ch pi s)"
  proof (cases "io (user_of s) (pipes s pi) (smem s)")
    case (Inr a)
    obtain r chs x k where a: "a = (r, chs, x, k)" by (cases a)
    have "same_files s (wake_pipe pi chs (set_mem k (s\<lparr>pipes := (pipes s)(pi := x)\<rparr>)))"
      by (intro sf_rules same_files_refl)
    with Inr a show ?thesis
      by (cases r) (auto simp: pipe_io_def Let_def intro!: sr_Inr intro: sf_sleep)
  qed (simp add: pipe_io_def sr_Inl)
qed

definition quiet_devs :: "(nat \<Rightarrow> devfun option) \<Rightarrow> bool" where
  "quiet_devs devs \<longleftrightarrow> (\<forall>i f a n. devs i = Some f \<longrightarrow> quiet (f a n))"

lemma quiet_dev_call: "quiet_devs devs \<Longrightarrow> quiet (dev_call devs m a n)"
  unfolding dev_call_def quiet_devs_def
  by (rule quietI, rule sr_if) (auto intro!: sr_Inr sr_option intro: sr_quiet)

lemma quiet_filestat: "quiet (filestat pad i a)"
  unfolding filestat_def by (rule quietI, (rule sr_rules sr_calls same_files_refl | assumption)+)

lemma quiet_fileread: "quiet_devs devs \<Longrightarrow> quiet (fileread devs i a n)"
  unfolding fileread_def
  by (rule quietI, (rule sr_rules sr_filetype sf_if sf_rules sr_calls quiet_pipe_io [THEN sr_quiet]
        quiet_dev_call [THEN sr_quiet] same_files_refl | assumption | (simp; fail))+)

lemma quiet_write_chunk: "quiet (write_chunk i a n)"
  unfolding write_chunk_def
  by (rule quietI, (rule sr_rules sf_if sf_rules sr_calls same_files_refl | assumption | (simp; fail))+)

lemma max_write_pos: "0 < max_write"
  by (simp add: max_write_def MAXOPBLOCKS_def BSIZE_def)

lemma filewrite_loop_res: "same_files s t \<Longrightarrow> same_res s (filewrite_loop f a i n t)"
proof (induction "nat (n - i)" arbitrary: i t rule: less_induct)
  case less
  show ?case
    by (subst filewrite_loop.simps)
      (rule sr_rules quiet_write_chunk [THEN sr_quiet] less.hyps less.prems | assumption
        | (use max_write_pos in \<open>simp; fail\<close>))+
qed

lemma quiet_filewrite: "quiet_devs devs \<Longrightarrow> quiet (filewrite devs i a n)"
  unfolding filewrite_def
  by (rule quietI, (rule sr_rules sr_filetype sr_calls quiet_pipe_io [THEN sr_quiet] filewrite_loop_res
        quiet_dev_call [THEN sr_quiet] same_files_refl | assumption | (simp; fail))+)

lemma quiet_read_write:
  "quiet_devs devs \<Longrightarrow> quiet (sys_read devs)" "quiet_devs devs \<Longrightarrow> quiet (sys_write devs)" "quiet (sys_fstat pad)"
  unfolding sys_read_def sys_write_def sys_fstat_def
  by (rule quietI, (rule sr_rules sr_calls quiet_fileread [THEN sr_quiet] quiet_filewrite [THEN sr_quiet]
        quiet_filestat [THEN sr_quiet] same_files_refl | assumption)+)+

text \<open>Creating and reaping processes changes neither descriptors nor counts.\<close>

lemma freeproc_files: "freeproc i s = Inr (u, s') \<Longrightarrow> dead (procs s i) \<Longrightarrow> same_files s s'"
  using freeproc_result [of i s u s'] by (auto simp: same_files_def)

lemma reap_files: "reap a c s = Inr (v, s') \<Longrightarrow> p_state (procs s c) = ZOMBIE \<Longrightarrow> same_files s s'"
proof -
  assume r: "reap a c s = Inr (v, s')" and z: "p_state (procs s c) = ZOMBIE"
  then obtain ok t where t: "(if a \<noteq> 0 then user_copyout a (le_bytes 4 (p_xstate (procs s c))) else ret True) s = Inr (ok, t)"
    "(if ok then seq (freeproc c) (\<lambda>_. ret (sint (p_pid (procs s c)))) else ret (- 1)) t = Inr (v, s')"
    unfolding reap_def seq_Inr_iff [of _ _ s] by blast
  from t(1) have "same_tables s t" by (auto simp: ret_def split: if_splits dest: user_copyout_tables)
  moreover from this have "dead (procs t c)" using z by (simp add: same_tables_def dead_def)
  ultimately show ?thesis
    using t(2)
    by (auto simp: seq_Inr_iff ret_def split: if_splits dest: freeproc_files same_tables_files intro: same_files_trans)
qed

lemma quiet_kwait: "quiet (kwait a)"
proof (rule quiet_point)
  fix s r s' assume k: "kwait a s = Inr (r, s')"
  show "same_files s s'"
  proof (cases "first_slot (dead_child (curp s)) (procs s) 0 NPROC")
    case None
    then show ?thesis using k by (auto simp: kwait_spec split: if_splits)
  next
    case (Some c)
    then have "p_state (procs s c) = ZOMBIE" by (simp add: first_slot_Some dead_child_def)
    then show ?thesis using k Some by (auto simp: kwait_spec seq_Inr_iff ret_def dest: reap_files)
  qed
qed

lemma sr_freeproc: "same_files s t \<Longrightarrow> dead (procs s i) \<Longrightarrow> same_res s (freeproc i t)"
proof -
  assume a: "same_files s t" "dead (procs s i)"
  have "same_files s s'" if "freeproc i t = Inr (u, s')" for u s'
    using a freeproc_result [OF that] by (auto simp: same_files_def)
  then show ?thesis by (simp add: same_res_def)
qed

lemma quiet_allocproc: "quiet allocproc"
proof (rule quietI)
  fix s
  show "same_res s (allocproc s)"
  proof (cases "first_slot (\<lambda>p. p_state p = UNUSED) (procs s) 0 NPROC")
    case (Some i)
    then have d: "dead (procs s i)" by (simp add: first_slot_Some dead_def)
    have "same_files s (s\<lparr>nextpid := n\<rparr>)" for n by (simp add: same_files_def)
    then show ?thesis
      unfolding allocproc_def allocpid_def Some option.case
      by (intro sr_rules sr_calls2 sf_rules sr_freeproc d) (simp_all add: dead_def)
  qed (simp add: allocproc_def sr_Inr)
qed

lemma allocproc_embryo:
  assumes "allocproc s = Inr (Some i, s')"
  shows "i < NPROC" "dead (procs s i)" "\<not> dead (procs s' i)"
proof -
  obtain j where j: "first_slot (\<lambda>p. p_state p = UNUSED) (procs s) 0 NPROC = Some j"
    using assms by (auto simp: allocproc_def split: option.splits)
  have "i = j \<and> p_state (procs s' i) = USED"
    using assms j
    by (auto simp: allocproc_def allocpid_def Let_def seq_Inr_iff ret_def procs_upd_proc same_tables_def split: if_splits
        dest!: on_mem_tables proc_pagetable_tables)
  then show "i < NPROC" "dead (procs s i)" "\<not> dead (procs s' i)" using j by (auto simp: first_slot_Some dead_def)
qed

section \<open>System calls that work on files\<close>

text \<open>The counts stay right, and the running process stays as it is unless it exits.\<close>

lemma keeps_seq: "keeps s t \<Longrightarrow> same_files t u \<Longrightarrow> keeps s u"
  by (blast intro: keeps_trans same_files_keeps)

lemma sys_dup_ok: "files_ok d s \<Longrightarrow> live s \<Longrightarrow> sys_dup s = Inr (r, s') \<Longrightarrow> files_ok d s'"
proof -
  assume ok: "files_ok d s" and l: "live s" and c: "sys_dup s = Inr (r, s')"
  then obtain a where a: "argfd 0 s = Inr (a, s)" unfolding sys_dup_def by (blast elim: argfd_seqE)
  show ?thesis
  proof (cases a)
    case None
    then show ?thesis using c a ok by (simp add: sys_dup_def seq_def)
  next
    case (Some x)
    obtain fd f where x: "x = (fd, f)" by (cases x)
    have "fd < NOFILE" "p_ofile (myproc s) ! fd = Some f" using argfd_result [OF a] Some x by auto
    then have f: "f < NFILE" using ofile_range [OF ok] l by (auto simp: live_def)
    obtain q t where q: "fdalloc f s = (q, t)" by (cases "fdalloc f s")
    note fa = fdalloc_ok [OF ok _ _ f q]
    show ?thesis
    proof (cases q)
      case None
      then show ?thesis using c a Some x q fa l ok by (auto simp: sys_dup_def seq_def live_def)
    next
      case (Some fd')
      then have "files_ok (plus_ref d f (-1)) t" using fa l by (auto simp: live_def)
      moreover obtain g where "filedup f t = Inr (g, s')"
        using c a \<open>a = Some x\<close> x q Some by (auto simp: sys_dup_def seq_def ret_def bind_result_Inr_iff)
      ultimately show ?thesis using filedup_ok [of "plus_ref d f (-1)" t f g s'] by simp
    qed
  qed
qed

lemma sys_close_ok: "files_ok d s \<Longrightarrow> live s \<Longrightarrow> sys_close s = Inr (r, s') \<Longrightarrow> files_ok d s'"
proof -
  assume ok: "files_ok d s" and l: "live s" and c: "sys_close s = Inr (r, s')"
  then obtain a where a: "argfd 0 s = Inr (a, s)" unfolding sys_close_def by (blast elim: argfd_seqE)
  show ?thesis
  proof (cases a)
    case None
    then show ?thesis using c a ok by (simp add: sys_close_def seq_def)
  next
    case (Some x)
    obtain fd f where x: "x = (fd, f)" by (cases x)
    have "fd < NOFILE" "p_ofile (myproc s) ! fd = Some f" using argfd_result [OF a] Some x by auto
    then have "files_ok (plus_ref d f 1) (set_ofile (curp s) fd None s)"
      using set_ofile_None_ok [OF ok] l by (simp add: live_def)
    moreover obtain u where "fileclose f (set_ofile (curp s) fd None s) = Inr (u, s')"
      using c a Some x by (auto simp: sys_close_def seq_def ret_def bind_result_Inr_iff)
    ultimately show ?thesis using fileclose_ok [of "plus_ref d f 1" _ f u s'] by simp
  qed
qed

lemma pipealloc_ok:
  assumes ok: "files_ok d s" and c: "pipealloc s = Inr (r, s')"
  shows "keeps s s' \<and> (case r of None \<Rightarrow> files_ok d s'
    | Some (f0, f1) \<Rightarrow> f0 < NFILE \<and> f1 < NFILE \<and> files_ok (plus_ref (plus_ref d f0 1) f1 1) s')"
proof -
  have keeps_alloc: "keeps s t" if "filealloc s = (x, t)" for s x t
    using that by (auto simp: filealloc_def split: option.splits)
  obtain x0 s0 where x0: "filealloc s = (x0, s0)" by (cases "filealloc s")
  show ?thesis
  proof (cases x0)
    case None
    then have "s0 = s" using x0 filealloc_ok(2) by blast
    then show ?thesis using c x0 ok None by (auto simp: pipealloc_def)
  next
    case (Some f0)
    have a0: "f0 < NFILE" "files_ok (plus_ref d f0 1) s0" using filealloc_ok(1) [OF ok] x0 Some by blast+
    obtain x1 s1 where x1: "filealloc s0 = (x1, s1)" by (cases "filealloc s0")
    note k0 = keeps_alloc [OF x0] and k1 = keeps_alloc [OF x1]
    show ?thesis
    proof (cases x1)
      case None
      then have "s1 = s0" using x1 filealloc_ok(2) by blast
      moreover obtain u where "fileclose f0 s1 = Inr (u, s')" "r = None"
        using c x0 Some x1 None by (auto simp: pipealloc_def seq_Inr_iff ret_def)
      ultimately show ?thesis using fileclose_ok [OF a0(2)] k0 keeps_trans by fastforce
    next
      case (Some f1)
      let ?d = "plus_ref (plus_ref d f0 1) f1 1"
      have a1: "f1 < NFILE" "files_ok ?d s1" using filealloc_ok(1) [OF a0(2)] x1 Some by blast+
      obtain pi t where t: "on_mem (\<lambda>k. Inr (kalloc k)) s1 = Inr (pi, t)"
        using c x0 \<open>x0 = Some f0\<close> x1 Some by (auto simp: pipealloc_def seq_Inr_iff)
      have st: "same_files s1 t" using t by (rule op_files)
      then have ok_t: "files_ok ?d t" "keeps s t"
        using a1(2) files_ok_same keeps_trans [OF k0 k1] keeps_seq by blast+
      show ?thesis
      proof (cases "pi = 0")
        case True
        then obtain u t1 v where cl: "fileclose f0 t = Inr (u, t1)" "fileclose f1 t1 = Inr (v, s')" "r = None"
          using c x0 \<open>x0 = Some f0\<close> x1 Some t by (auto simp: pipealloc_def seq_def ret_def bind_result_Inr_iff)
        have e: "plus_ref (plus_ref ?d f0 (-1)) f1 (-1) = d" by (auto simp: plus_ref_def)
        have "files_ok (plus_ref ?d f0 (-1)) t1" "keeps t t1" using fileclose_ok [OF ok_t(1) cl(1)] by simp_all
        moreover from fileclose_ok [OF this(1) cl(2)] have "files_ok d s'" "keeps t1 s'" unfolding e by simp_all
        ultimately show ?thesis using cl(3) keeps_trans [OF ok_t(2)] keeps_trans by fastforce
      next
        case False
        then show ?thesis
          using c x0 \<open>x0 = Some f0\<close> x1 Some t a0(1) a1(1) ok_t
          by (auto simp: pipealloc_def seq_def Let_def intro!: files_ok_keep files_ok_same [OF pipes_upd_files])
            (simp add: keeps_def)
      qed
    qed
  qed
qed

lemma pipe_undo_ok:
  assumes "files_ok (plus_ref (plus_ref d f 1) g 1) s" "pipe_undo f g s = Inr (r, s')"
  shows "files_ok d s'"
proof -
  obtain u t v where cl: "fileclose f s = Inr (u, t)" "fileclose g t = Inr (v, s')"
    using assms(2) by (auto simp: pipe_undo_def seq_Inr_iff ret_def)
  have "plus_ref (plus_ref (plus_ref (plus_ref d f 1) g 1) f (-1)) g (-1) = d" by (auto simp: plus_ref_def)
  then show ?thesis using fileclose_ok [OF assms(1) cl(1)] fileclose_ok [OF _ cl(2)] by metis
qed

lemma fdalloc_live:
  assumes "files_ok d s" "live s" "f < NFILE" "fdalloc f s = (Some fd, s')"
  shows "files_ok (plus_ref d f (-1)) s'" "live s'" "curp s' = curp s" "fd < NOFILE"
    "p_ofile (procs s (curp s)) ! fd = None" "p_ofile (procs s' (curp s)) = (p_ofile (procs s (curp s)))[fd := Some f]"
proof -
  have l: "curp s < NPROC" "\<not> dead (myproc s)" using assms(2) by (simp_all add: live_def)
  have s': "fd < NOFILE \<and> s' = set_ofile (curp s) fd (Some f) s \<and> files_ok (plus_ref d f (-1)) s'"
    by (rule fdalloc_ok [OF assms(1) l assms(3,4), unfolded option.case])
  then show "files_ok (plus_ref d f (-1)) s'" "fd < NOFILE" by blast+
  show "live s'" "curp s' = curp s" using s' keeps_live [OF set_ofile_keeps assms(2)] by (auto simp: set_ofile_def)
  show "p_ofile (procs s (curp s)) ! fd = None"
    using assms(4) by (auto simp: fdalloc_def first_slot_Some split: option.splits)
  show "p_ofile (procs s' (curp s)) = (p_ofile (procs s (curp s)))[fd := Some f]"
    using s' by (simp add: set_ofile_def procs_upd_proc)
qed

lemma set_ofile_None_live:
  assumes "files_ok d s" "live s" "fd < NOFILE" "p_ofile (procs s (curp s)) ! fd = Some f"
  shows "files_ok (plus_ref d f 1) (set_ofile (curp s) fd None s)" "live (set_ofile (curp s) fd None s)"
  using set_ofile_None_ok [OF assms(1) _ assms(3) _ assms(4)] assms(2) keeps_live [OF set_ofile_keeps]
  by (auto simp: live_def)

lemma quiet_seqE:
  assumes "quiet m" "seq m k t = Inr y"
  obtains x u where "same_files t u" "k x u = Inr y"
  using assms by (auto simp: seq_Inr_iff dest: quietD)

lemma sys_pipe_ok: "files_ok d s \<Longrightarrow> live s \<Longrightarrow> sys_pipe s = Inr (r, s') \<Longrightarrow> files_ok d s'"
proof -
  assume ok: "files_ok d s" and l: "live s" and c: "sys_pipe s = Inr (r, s')"
  define body where "body a x t = (case x of None \<Rightarrow> Inr (-1, t) | Some (rfile, wfile) \<Rightarrow>
     (case fdalloc rfile t of
        (None, s) \<Rightarrow> pipe_undo rfile wfile s
      | (Some fd0, s) \<Rightarrow>
          (case fdalloc wfile s of
             (None, s) \<Rightarrow> pipe_undo rfile wfile (set_ofile (curp s) fd0 None s)
           | (Some fd1, s) \<Rightarrow>
               seq (user_copyout a (le_bytes 4 (of_nat fd0 :: cint))) (\<lambda>ok s.
               seq (if ok then user_copyout (a + 4) (le_bytes 4 (of_nat fd1 :: cint)) else ret False) (\<lambda>ok s.
                 if ok then Inr (0, s)
                 else pipe_undo rfile wfile (set_ofile (curp s) fd1 None (set_ofile (curp s) fd0 None s))) s) s)))" for a x t
  obtain a x t where x: "pipealloc s = Inr (x, t)" "body a x t = Inr (r, s')"
    using c by (auto simp: sys_pipe_def seq_Inr_iff body_def dest!: argaddr_same)
  note pa = pipealloc_ok [OF ok x(1)]
  show ?thesis
  proof (cases x)
    case None
    then show ?thesis using x(2) pa by (simp add: body_def)
  next
    case (Some y)
    obtain f g where y: "y = (f, g)" by (cases y)
    let ?d = "plus_ref (plus_ref d f 1) g 1"
    have t: "f < NFILE" "g < NFILE" "files_ok ?d t" "live t" using pa Some y keeps_live l by auto
    obtain q0 t0 where q0: "fdalloc f t = (q0, t0)" by (cases "fdalloc f t")
    show ?thesis
    proof (cases q0)
      case None
      then have "t0 = t" using fdalloc_ok [OF t(3) _ _ t(1) q0] t(4) by (simp add: live_def)
      then show ?thesis using x(2) Some y q0 None pipe_undo_ok t(3) by (simp add: body_def)
    next
      case (Some fd0)
      note a0 = fdalloc_live [OF t(3,4,1) q0 [unfolded Some]]
      have len: "length (p_ofile (procs t (curp t))) = NOFILE" using t(3,4) by (simp add: files_ok_def live_def)
      then have f0: "p_ofile (procs t0 (curp t0)) ! fd0 = Some f" using a0(3,4,6) by simp
      obtain q1 t1 where q1: "fdalloc g t0 = (q1, t1)" by (cases "fdalloc g t0")
      show ?thesis
      proof (cases q1)
        case None
        then have "t1 = t0" using fdalloc_ok [OF a0(1) _ _ t(2) q1] a0(2) by (simp add: live_def)
        moreover have "files_ok ?d (set_ofile (curp t0) fd0 None t0)"
          using set_ofile_None_live(1) [OF a0(1,2,4)] f0 by simp
        ultimately show ?thesis
          using x(2) \<open>x = Some y\<close> y q0 Some q1 None pipe_undo_ok by (simp add: body_def)
      next
        case (Some fd1)
        note a1 = fdalloc_live [OF a0(1,2) t(2) q1 [unfolded Some]]
        have "fd0 \<noteq> fd1" using a1(5) f0 by auto
        then have f1: "p_ofile (procs t1 (curp t1)) ! fd0 = Some f" "p_ofile (procs t1 (curp t1)) ! fd1 = Some g"
          using f0 a1(3,4,6) len a0(3,6) by simp_all
        define fin where "fin okc u = (if okc then Inr (0, u)
            else pipe_undo f g (set_ofile (curp u) fd1 None (set_ofile (curp u) fd0 None u)))" for okc u
        have "seq (user_copyout a (le_bytes 4 (of_nat fd0 :: cint))) (\<lambda>ok.
            seq (if ok then user_copyout (a + 4) (le_bytes 4 (of_nat fd1 :: cint)) else ret False) fin) t1 = Inr (r, s')"
          using x(2) \<open>x = Some y\<close> y q0 \<open>q0 = Some fd0\<close> q1 Some by (simp add: body_def fin_def [abs_def])
        then obtain ok1 u1 where "same_files t1 u1"
          "seq (if ok1 then user_copyout (a + 4) (le_bytes 4 (of_nat fd1 :: cint)) else ret False) fin u1 = Inr (r, s')"
          by (rule quiet_seqE [OF quiet_calls(4)])
        moreover have "quiet (if ok1 then user_copyout (a + 4) (le_bytes 4 (of_nat fd1 :: cint)) else ret False)" by simp
        ultimately obtain okc u where "same_files u1 u" and fin: "fin okc u = Inr (r, s')" by (blast elim: quiet_seqE)
        then have u: "same_files t1 u" using \<open>same_files t1 u1\<close> same_files_trans by blast
        let ?e = "plus_ref (plus_ref ?d f (-1)) g (-1)"
        have e: "?e = d" "plus_ref (plus_ref ?e f 1) g 1 = ?d" by (auto simp: plus_ref_def)
        have ok_u: "files_ok ?e u" "live u" using files_ok_same [OF u a1(1)] keeps_live [OF same_files_keeps [OF u] a1(2)] .
        have ou: "p_ofile (procs u (curp u)) = p_ofile (procs t1 (curp t1))" using u by (simp add: same_files_def)
        let ?u0 = "set_ofile (curp u) fd0 None u"
        have u0: "files_ok (plus_ref ?e f 1) ?u0" "live ?u0"
          using set_ofile_None_live [OF ok_u a0(4)] ou f1(1) by simp_all
        have c0: "curp ?u0 = curp u" "p_ofile (procs ?u0 (curp u)) ! fd1 = Some g"
          using ou f1(2) \<open>fd0 \<noteq> fd1\<close> by (simp_all add: set_ofile_def procs_upd_proc)
        have "files_ok ?d (set_ofile (curp u) fd1 None ?u0)"
          using set_ofile_None_live(1) [OF u0 a1(4)] c0 e(2) by simp
        then show ?thesis using fin ok_u(1) e(1) pipe_undo_ok unfolding fin_def by (cases okc) auto
      qed
    qed
  qed
qed

lemma quiet_open_bad: "quiet (open_bad ip)"
  unfolding open_bad_def by (rule quietI, (rule sr_rules sr_calls same_files_refl | assumption)+)

lemma open_file_keep: "files_ok d s \<Longrightarrow> files_ok d (open_file omode f ip x s)"
  unfolding open_file_def by (rule files_ok_keep) simp_all

text \<open>Rules that follow the structure of a call whose files change in some branch.\<close>

definition ok_res :: "(nat \<Rightarrow> int) \<Rightarrow> ('a \<times> sys) result \<Rightarrow> bool" where
  "ok_res d res \<longleftrightarrow> (\<forall>r s'. res = Inr (r, s') \<longrightarrow> files_ok d s')"

definition ready :: "(nat \<Rightarrow> int) \<Rightarrow> sys \<Rightarrow> bool" where
  "ready d s \<longleftrightarrow> files_ok d s \<and> live s"

lemma ready_same: "same_files s t \<Longrightarrow> ready d s \<Longrightarrow> ready d t"
  unfolding ready_def by (blast intro: files_ok_same keeps_live same_files_keeps)

lemma or_seq: "quiet m \<Longrightarrow> ready d t \<Longrightarrow> (\<And>x u. ready d u \<Longrightarrow> ok_res d (f x u)) \<Longrightarrow> ok_res d (seq m f t)"
  unfolding ok_res_def seq_Inr_iff by (blast intro: ready_same dest: quietD)

lemma or_quiet: "quiet m \<Longrightarrow> ready d t \<Longrightarrow> ok_res d (m t)"
  unfolding ok_res_def ready_def by (blast intro: files_ok_same dest: quietD)

lemma or_Inr: "files_ok d u \<Longrightarrow> ok_res d (Inr (x, u))"
  by (simp add: ok_res_def)

lemma or_option: "(x = None \<Longrightarrow> ok_res d a) \<Longrightarrow> (\<And>y. x = Some y \<Longrightarrow> ok_res d (b y)) \<Longrightarrow>
    ok_res d (case x of None \<Rightarrow> a | Some y \<Rightarrow> b y)"
  by (cases x) simp_all

lemma or_option_fun: "(x = None \<Longrightarrow> ok_res d (a t)) \<Longrightarrow> (\<And>y. x = Some y \<Longrightarrow> ok_res d (b y t)) \<Longrightarrow>
    ok_res d ((case x of None \<Rightarrow> a | Some y \<Rightarrow> b y) t)"
  by (cases x) simp_all

lemma or_Let: "ok_res d (f a) \<Longrightarrow> ok_res d (Let a f)"
  by (simp add: Let_def)

lemma or_if: "(c \<Longrightarrow> ok_res d a) \<Longrightarrow> (\<not> c \<Longrightarrow> ok_res d b) \<Longrightarrow> ok_res d (if c then a else b)"
  by simp

lemma or_Inl: "ok_res d (Inl e)"
  by (simp add: ok_res_def)

lemmas or_rules = or_option or_option_fun or_Let or_if or_Inl

lemma open_slot_ok:
  assumes ok_t: "ready d t"
  shows "ok_res d (case filealloc t of
        (None, s) \<Rightarrow> open_bad ip s
      | (Some f, s) \<Rightarrow>
          (case fdalloc f s of
             (None, s) \<Rightarrow> seq (fileclose f) (\<lambda>_. open_bad ip) s
           | (Some fd, s) \<Rightarrow>
               let x = itab (sfs s) ip
               in seq (run_fs (if omode AND O_TRUNC \<noteq> 0 \<and> itype x = T_FILE then itrunc ip else ret ())) (\<lambda>_.
                  seq (run_fs (iunlock (Some ip))) (\<lambda>_.
                  seq sys_end_op (\<lambda>_. ret (int fd)))) (open_file omode f ip x s)))"
proof -
  obtain x t1 where x: "filealloc t = (x, t1)" by (cases "filealloc t")
  show ?thesis
  proof (cases x)
    case None
    then have "t1 = t" using x filealloc_ok(2) by blast
    then show ?thesis using x None or_quiet [OF quiet_open_bad ok_t] by simp
  next
    case (Some f)
    have f: "f < NFILE" "files_ok (plus_ref d f 1) t1"
      using filealloc_ok(1) x Some ok_t unfolding ready_def by blast+
    have "keeps t t1" using x by (auto simp: filealloc_def split: option.splits)
    then have l1: "live t1" using keeps_live ok_t ready_def by blast
    obtain q t2 where q: "fdalloc f t1 = (q, t2)" by (cases "fdalloc f t1")
    show ?thesis
    proof (cases q)
      case None
      then have "t2 = t1" using fdalloc_ok [OF f(2) _ _ f(1) q] l1 by (simp add: live_def)
      moreover have "files_ok d s'" if "fileclose f t1 = Inr (u, t3)" "open_bad ip t3 = Inr (r, s')" for u t3 r s'
        using fileclose_ok [OF f(2) that(1)] files_ok_same [OF quietD [OF quiet_open_bad that(2)]] by simp
      ultimately show ?thesis using x Some q None by (auto simp: ok_res_def seq_Inr_iff)
    next
      case (Some fd)
      have "ready d t2" using fdalloc_live(1,2) [OF f(2) l1 f(1) q [unfolded Some]] by (simp add: ready_def)
      moreover have "keeps t2 (open_file omode f ip (itab (sfs t2) ip) t2)" by (simp add: open_file_def)
      ultimately have "ready d (open_file omode f ip (itab (sfs t2) ip) t2)"
        unfolding ready_def by (blast intro: open_file_keep keeps_live)
      then show ?thesis
        using x \<open>x = Some f\<close> q Some
        by (simp only: prod.case option.case Let_def)
          (rule or_seq quiet_calls or_quiet [OF quiet_ret(1)] | assumption)+
    qed
  qed
qed

lemma sys_open_ok: "ready d s \<Longrightarrow> ok_res d (sys_open s)"
  unfolding sys_open_def
  by (rule or_seq or_rules quiet_args quiet_calls open_slot_ok or_quiet [OF quiet_ret(1)] | assumption)+

subsection \<open>Fork\<close>

text \<open>The child's descriptors from \<open>fd\<close> on are still free.\<close>

definition child_ready :: "(nat \<Rightarrow> int) \<Rightarrow> nat \<Rightarrow> nat \<Rightarrow> sys \<Rightarrow> bool" where
  "child_ready d np fd s \<longleftrightarrow> ready d s \<and> np < NPROC \<and> np \<noteq> curp s \<and> \<not> dead (procs s np) \<and>
     (\<forall>i. fd \<le> i \<and> i < NOFILE \<longrightarrow> p_ofile (procs s np) ! i = None)"

lemma child_ready_same: "same_files s t \<Longrightarrow> child_ready d np fd s \<Longrightarrow> child_ready d np fd t"
  using ready_same unfolding child_ready_def same_files_def by metis

lemma dup_files_ok:
  "child_ready d np fd s \<Longrightarrow> fd + n = NOFILE \<Longrightarrow> dup_files np fd n s = Inr (u, s') \<Longrightarrow> ready d s'"
proof (induction n arbitrary: fd s)
  case 0
  then show ?case by (simp add: child_ready_def)
next
  case (Suc n)
  show ?case
  proof (cases "p_ofile (myproc s) ! fd")
    case None
    then have "dup_files np (Suc fd) n s = Inr (u, s')" using Suc.prems(3) by simp
    moreover have "child_ready d np (Suc fd) s" using Suc.prems(1) by (simp add: child_ready_def)
    ultimately show ?thesis using Suc.IH Suc.prems(2) by simp
  next
    case (Some f)
    then obtain g t where t: "filedup f s = Inr (g, t)" "dup_files np (Suc fd) n (set_ofile np fd (Some g) t) = Inr (u, s')"
      using Suc.prems(3) by (auto simp: seq_Inr_iff)
    have fd: "fd < NOFILE" using Suc.prems(2) by simp
    have ok: "files_ok d s" "live s" "np < NPROC" "np \<noteq> curp s" "\<not> dead (procs s np)"
      using Suc.prems(1) by (simp_all add: child_ready_def ready_def)
    have f: "f < NFILE" using ofile_range [OF ok(1) _ fd Some] ok(2) by (simp add: live_def)
    have g: "g = f" "files_ok (plus_ref d f 1) t" using filedup_ok [OF ok(1) t(1)] by simp_all
    have pt: "procs t = procs s" "curp t = curp s" using t(1) by (auto simp: filedup_def split: if_splits)
    let ?v = "set_ofile np fd (Some f) t"
    have "files_ok d ?v"
      using set_ofile_Some_ok [OF g(2) ok(3) fd _ _ f] Suc.prems(1) pt ok(5) fd by (simp add: child_ready_def)
    moreover have "procs ?v q = (if q = np then (procs s np)\<lparr>p_ofile := (p_ofile (procs s np))[fd := Some f]\<rparr> else procs s q)"
      "curp ?v = curp s" for q by (simp_all add: set_ofile_def procs_upd_proc pt)
    ultimately have "child_ready d np (Suc fd) ?v"
      using ok Suc.prems(1) by (auto simp: child_ready_def ready_def live_def dead_def)
    then show ?thesis using Suc.IH t(2) g(1) Suc.prems(2) by simp
  qed
qed

text \<open>The rest of \<open>kfork\<close> after the descriptors.\<close>

lemma fork_tail_ok:
  assumes "ready d s"
  shows "ok_res d (case p_cwd (myproc s) of
      None \<Rightarrow> Inl (UB ''idup: null inode'')
    | Some c \<Rightarrow> seq (run_fs (idup c)) (\<lambda>c s.
        let s = upd_proc np (\<lambda>q. q\<lparr>p_cwd := Some c,
                  p_name := map (safestrcpy (chars (p_name q)) (chars (p_name (myproc s))) 16) [0..<16]\<rparr>) s;
            pid = p_pid (procs s np);
            s = upd_proc np (\<lambda>q. q\<lparr>p_parent := Some (curp s)\<rparr>) s;
            s = upd_proc np (\<lambda>q. q\<lparr>p_state := RUNNABLE\<rparr>) s
        in Inr (sint pid, s)) s)"
proof -
  have "same_files t (upd_proc np (\<lambda>q. q\<lparr>p_state := RUNNABLE\<rparr>) (upd_proc np (\<lambda>q. q\<lparr>p_parent := Some c\<rparr>)
      (upd_proc np (\<lambda>q. q\<lparr>p_cwd := x, p_name := h q\<rparr>) t)))" for t c x h
    by (intro sf_proc same_files_refl) (simp_all add: dead_def)
  then show ?thesis
    using assms by (auto simp: Let_def intro!: or_rules or_seq quiet_calls or_Inr)
      (meson files_ok_same ready_def)
qed

lemma kfork_ok:
  assumes r: "ready d s" and k: "kfork s = Inr (v, s')"
  shows "files_ok d s'"
proof -
  obtain a t where a: "allocproc s = Inr (a, t)" using k by (auto simp: kfork_def seq_Inr_iff)
  have st: "same_files s t" by (rule quietD [OF quiet_allocproc a])
  have rt: "ready d t" using ready_same [OF st r] .
  show ?thesis
  proof (cases a)
    case None
    then show ?thesis using k a rt by (simp add: kfork_def seq_def ready_def)
  next
    case (Some np)
    note e = allocproc_embryo [OF a [unfolded Some]]
    have "no_files (procs s np)" using r e(1,2) by (simp add: ready_def files_ok_def)
    then have "no_files (procs t np)" using st by (simp add: no_files_def same_files_def)
    moreover have "np \<noteq> curp t" using r e(2) st by (auto simp: ready_def live_def same_files_def)
    ultimately have c: "child_ready d np 0 t" using rt e by (simp add: child_ready_def no_files_def)
    have freed: "files_ok d u'" if "same_files t u" "freeproc np u = Inr (x, u')" for u u' x
    proof -
      have "same_files s u" using st that(1) by (rule same_files_trans)
      then have "same_res s (freeproc np u)" using e(2) by (rule sr_freeproc)
      then have "same_files s u'" using that(2) by (simp add: same_res_def)
      then show ?thesis using r files_ok_same by (simp add: ready_def)
    qed
    define tail where "tail x = (case p_cwd (myproc x) of
        None \<Rightarrow> Inl (UB ''idup: null inode'')
      | Some c \<Rightarrow> seq (run_fs (idup c)) (\<lambda>c s.
          let s = upd_proc np (\<lambda>q. q\<lparr>p_cwd := Some c,
                    p_name := map (safestrcpy (chars (p_name q)) (chars (p_name (myproc s))) 16) [0..<16]\<rparr>) s;
              pid = p_pid (procs s np);
              s = upd_proc np (\<lambda>q. q\<lparr>p_parent := Some (curp s)\<rparr>) s;
              s = upd_proc np (\<lambda>q. q\<lparr>p_state := RUNNABLE\<rparr>) s
          in Inr (sint pid, s)) x)" for x
    obtain ok u where u: "on_mem (uvmcopy (k_end (syms t)) (p_pagetable (myproc t)) (p_pagetable (procs t np)) (p_sz (myproc t))) t = Inr (ok, u)"
      using k a Some by (auto simp: kfork_def seq_Inr_iff Let_def)
    have tu: "same_files t u" using u by (rule op_files)
    show ?thesis
    proof (cases ok)
      case False
      then obtain x where "freeproc np u = Inr (x, s')"
        using k a Some u by (auto simp: kfork_def seq_def ret_def bind_result_Inr_iff Let_def)
      then show ?thesis by (rule freed [OF tu])
    next
      case True
      define u1 where "u1 = upd_proc np (\<lambda>q. q\<lparr>p_sz := p_sz (myproc t)\<rparr>) u"
      define w where "w = tf_set np TF_A0 0 (set_mem ((smem u1)\<lparr>pmem := store_bytes (pmem (smem u1))
        (p_trapframe (procs u1 np)) (load_bytes (pmem (smem u1)) (p_trapframe (myproc t)) TF_SIZE)\<rparr>) u1)"
      have uw: "same_files u w"
        unfolding w_def u1_def by (intro sf_rules same_files_refl) (simp_all add: dead_def)
      have "seq (dup_files np 0 NOFILE) (\<lambda>_. tail) w = Inr (v, s')"
        using k a Some u True by (simp add: kfork_def seq_def Let_def w_def u1_def tail_def)
      then obtain x y where w: "dup_files np 0 NOFILE w = Inr (x, y)" "tail y = Inr (v, s')"
        by (auto simp: seq_Inr_iff)
      have "child_ready d np 0 w" using child_ready_same [OF same_files_trans [OF tu uw] c] .
      from dup_files_ok [OF this _ w(1)] have "ready d y" by simp
      then show ?thesis using fork_tail_ok w(2) unfolding tail_def ok_res_def by blast
    qed
  qed
qed

subsection \<open>Exit\<close>

lemma close_files_ok:
  "ready d s \<Longrightarrow> fd + n = NOFILE \<Longrightarrow> \<forall>i<fd. p_ofile (myproc s) ! i = None \<Longrightarrow> close_files fd n s = Inr (u, s') \<Longrightarrow>
     ready d s' \<and> no_files (myproc s')"
proof (induction n arbitrary: fd s)
  case 0
  then have "length (p_ofile (myproc s)) = NOFILE" by (simp add: ready_def files_ok_def live_def)
  then have "no_files (myproc s)" using 0 by (auto simp: no_files_def intro: nth_equalityI)
  then show ?case using 0 by simp
next
  case (Suc n)
  show ?case
  proof (cases "p_ofile (myproc s) ! fd")
    case None
    then show ?thesis using Suc.IH [of s "Suc fd"] Suc.prems by (simp add: less_Suc_eq)
  next
    case (Some f)
    then obtain x t where t: "fileclose f s = Inr (x, t)" "close_files (Suc fd) n (set_ofile (curp t) fd None t) = Inr (u, s')"
      using Suc.prems(4) by (auto simp: seq_Inr_iff)
    have ok: "files_ok d s" "live s" using Suc.prems(1) by (simp_all add: ready_def)
    note fc = fileclose_ok [OF ok(1) t(1)]
    have lt: "live t" "curp t = curp s" using fc keeps_live ok(2) by (auto simp: keeps_def)
    have of: "p_ofile (myproc t) = p_ofile (myproc s)" using fileclose_ofile [OF t(1)] lt(2) by simp
    let ?v = "set_ofile (curp t) fd None t"
    have "files_ok (plus_ref (plus_ref d f (-1)) f 1) ?v" "live ?v"
      using set_ofile_None_live [OF conjunct1 [OF fc] lt(1), of fd f] Suc.prems(2) Some of by simp_all
    then have "ready d ?v" by (simp add: ready_def)
    moreover have "length (p_ofile (myproc t)) = NOFILE" using fc lt(1) by (simp add: files_ok_def live_def)
    then have "\<forall>i<Suc fd. p_ofile (myproc ?v) ! i = None"
      using Suc.prems(2,3) of by (auto simp: set_ofile_def procs_upd_proc nth_list_update less_Suc_eq)
    ultimately show ?thesis using Suc.IH [of ?v "Suc fd"] Suc.prems(2) t(2) by simp
  qed
qed

lemma reparent_files: "same_files s (reparent p s)"
proof -
  have "same_files s t \<Longrightarrow> same_files s (reparent_loop p i n t)" for i n t
  proof (induction n arbitrary: i t)
    case (Suc n)
    have "same_files s (wakeup ch (upd_proc i (\<lambda>q. q\<lparr>p_parent := x\<rparr>) t))" for ch x
      by (rule same_files_trans [OF sf_proc [OF Suc.prems] wakeup_files]) (simp_all add: dead_def)
    then show ?case using Suc by simp
  qed simp
  then show ?thesis by (simp add: reparent_def)
qed

lemma upd_empty_ok:
  assumes "files_ok d s" "no_files (procs s i)" and g: "\<And>p. p_ofile (g p) = p_ofile p"
  shows "files_ok d (upd_proc i g s)"
proof -
  have o: "p_ofile (procs (upd_proc i g s) q) = p_ofile (procs s q)" for q by (simp add: procs_upd_proc g)
  have n: "no_files (procs (upd_proc i g s) q) = no_files (procs s q)" for q by (simp add: no_files_def o)
  have "dead (procs (upd_proc i g s) q) \<Longrightarrow> dead (procs s q) \<or> q = i" for q by (auto simp: procs_upd_proc)
  then have "no_files (procs s q)" if "q < NPROC" "dead (procs (upd_proc i g s) q)" for q
    using assms(1,2) that unfolding files_ok_def by blast
  then show ?thesis using assms(1) unfolding files_ok_def fd_refs_def o n by auto
qed

lemma become_zombie_ok:
  assumes "files_ok d s" "no_files (myproc s)"
  shows "files_ok d (become_zombie st s)"
proof -
  let ?r = "reparent (curp s) s"
  let ?w = "wakeup (map_option Chan_proc (p_parent (myproc ?r))) ?r"
  have w: "same_files s ?w" by (rule same_files_trans [OF reparent_files wakeup_files])
  have "files_ok d ?w" using files_ok_same [OF w assms(1)] .
  moreover have "no_files (myproc ?w)" using assms(2) w by (simp add: no_files_def same_files_def)
  ultimately have "files_ok d (upd_proc (curp ?w) (\<lambda>p. p\<lparr>p_xstate := st, p_state := ZOMBIE\<rparr>) ?w)"
    by (rule upd_empty_ok) simp
  then show ?thesis by (simp add: become_zombie_def Let_def)
qed

lemma kexit_ok: "ready d s \<Longrightarrow> ok_res d (kexit st s)"
proof -
  assume r: "ready d s"
  have "files_ok d s'" if k: "kexit st s = Inr (u, s')" for u s'
  proof -
    obtain x t where t: "close_files 0 NOFILE s = Inr (x, t)"
      using k by (auto simp: kexit_def seq_Inr_iff split: if_splits)
    have rt: "ready d t" "no_files (myproc t)" using close_files_ok [OF r _ _ t] by simp_all
    have "\<exists>v. same_files t v \<and> s' = become_zombie st (upd_proc (curp v) (\<lambda>p. p\<lparr>p_cwd := None\<rparr>) v)"
      using k t by (auto simp: kexit_def seq_Inr_iff split: if_splits option.splits dest!: op_files)
        (blast intro: same_files_trans)
    then obtain v where v: "same_files t v" "s' = become_zombie st (upd_proc (curp v) (\<lambda>p. p\<lparr>p_cwd := None\<rparr>) v)" by blast
    let ?v = "upd_proc (curp v) (\<lambda>p. p\<lparr>p_cwd := None\<rparr>) v"
    have tv: "same_files t ?v" by (rule sf_proc [OF v(1)]) (simp_all add: dead_def)
    have "files_ok d ?v" using files_ok_same [OF tv] rt(1) by (simp add: ready_def)
    moreover have "p_ofile (myproc ?v) = p_ofile (myproc t)" using tv unfolding same_files_def by metis
    then have "no_files (myproc ?v)" using rt(2) by (simp add: no_files_def)
    ultimately show ?thesis using v(2) become_zombie_ok by simp
  qed
  then show ?thesis by (simp add: ok_res_def)
qed

section \<open>Every system call\<close>

lemma or_ret: "ok_res d (m s) \<Longrightarrow> ok_res d (seq m (\<lambda>v. ret (g v)) s)"
  by (auto simp: ok_res_def seq_Inr_iff ret_def)

lemma or_seq_fate: "ok_res d (m s) \<Longrightarrow> ok_res d (seq m set_a0 s)"
proof -
  assume m: "ok_res d (m s)"
  have "quiet (set_a0 r)" for r
    by (auto simp: quiet_def set_a0_def split: fate.splits)
  then show ?thesis using m unfolding ok_res_def seq_Inr_iff by (blast intro: files_ok_same dest: quietD)
qed

lemma syscalls_ok:
  assumes r: "ready d s" and dv: "quiet_devs (dev_read dv)" "quiet_devs (dev_write dv)"
    and c: "syscalls dv num = Some call"
  shows "ok_res d (call s)"
proof -
  have files: "ok_res d (sys_dup s)" "ok_res d (sys_close s)" "ok_res d (sys_pipe s)" "ok_res d (sys_open s)"
    "ok_res d (sys_fork s)" "ok_res d (sys_exit s)"
  proof -
    show "ok_res d (sys_dup s)" "ok_res d (sys_close s)" "ok_res d (sys_pipe s)"
      using r sys_dup_ok sys_close_ok sys_pipe_ok unfolding ok_res_def ready_def by blast+
    show "ok_res d (sys_open s)" by (rule sys_open_ok [OF r])
    show "ok_res d (sys_fork s)" using r kfork_ok unfolding ok_res_def sys_fork_def by blast
    show "ok_res d (sys_exit s)" unfolding sys_exit_def by (intro or_seq quiet_args r kexit_ok)
  qed
  have "quiet sys_wait"
    unfolding sys_wait_def by (rule quietI, (rule sr_rules sr_calls quiet_kwait [THEN sr_quiet] same_files_refl | assumption)+)
  then have others: "ok_res d (sys_wait s)" "ok_res d (sys_read (dev_read dv) s)" "ok_res d (sys_kill s)" "ok_res d (sys_exec s)"
    "ok_res d (sys_fstat (stat_pad dv) s)" "ok_res d (sys_chdir s)" "ok_res d (sys_getpid s)" "ok_res d (sys_sbrk s)"
    "ok_res d (sys_pause s)" "ok_res d (sys_uptime s)" "ok_res d (sys_write (dev_write dv) s)" "ok_res d (sys_mknod s)"
    "ok_res d (sys_unlink s)" "ok_res d (sys_link s)" "ok_res d (sys_mkdir s)"
    using r dv quiet_sysproc quiet_links quiet_exec quiet_chdir quiet_read_write by (simp_all add: or_quiet)
  show ?thesis
    using c files others
    by (auto simp: syscalls_def int_call_def out_call_def split: if_splits intro!: or_ret)
qed

lemma syscall_ok:
  assumes r: "ready d s" and dv: "quiet_devs (dev_read dv)" "quiet_devs (dev_write dv)"
  shows "ok_res d (syscall dv s)"
proof (cases "syscalls dv (sint (ucast (tf_get TF_A7 s) :: cint))")
  case None
  then show ?thesis
    using or_seq_fate [of d "\<lambda>s. Inr (Goes_on (-1), s)" s] r by (simp add: syscall_def seq_def ok_res_def ready_def)
next
  case (Some call)
  then show ?thesis using or_seq_fate [of d call s] syscalls_ok [OF r dv Some] by (simp add: syscall_def)
qed

text \<open>The kernel serves system calls of processes in any order.\<close>

inductive call_step :: "devices \<Rightarrow> sys \<Rightarrow> sys \<Rightarrow> bool" for dv where
  switch: "p < NPROC \<Longrightarrow> \<not> dead (procs s p) \<Longrightarrow> call_step dv s (s\<lparr>curp := p\<rparr>)"
| call: "live s \<Longrightarrow> syscall dv s = Inr (r, s') \<Longrightarrow> call_step dv s s'"

lemma call_step_ok:
  "call_step dv s s' \<Longrightarrow> quiet_devs (dev_read dv) \<Longrightarrow> quiet_devs (dev_write dv) \<Longrightarrow> files_ok d s \<Longrightarrow> files_ok d s'"
proof (induction rule: call_step.induct)
  case (switch p s)
  then show ?case by (simp add: files_ok_def fd_refs_def)
next
  case (call s r s')
  then show ?case using syscall_ok [of d s dv] by (auto simp: ready_def ok_res_def)
qed

text \<open>C20: At every moment between system calls, whatever calls the processes make and in whatever order,
  the reference count of each open file is the number of descriptors of all processes that refer to
  it. In particular a file is closed for good exactly when its last descriptor goes away, and
  \<open>filedup\<close> and \<open>fileclose\<close> never find a count below 1.\<close>

theorem open_files_counted:
  assumes "(call_step dv)\<^sup>*\<^sup>* s0 s" "files_ok (\<lambda>_. 0) s0"
    and "quiet_devs (dev_read dv)" "quiet_devs (dev_write dv)"
  shows "(\<forall>f<NFILE. f_ref (ftab s f) = int (fd_refs f s)) \<and>
    (\<forall>p<NPROC. \<forall>fd<NOFILE. \<forall>f. p_ofile (procs s p) ! fd = Some f \<longrightarrow> f < NFILE \<and> 1 \<le> f_ref (ftab s f))"
proof -
  have ok: "files_ok (\<lambda>_. 0) s" using assms(1,2)
  proof (induction rule: rtranclp_induct)
    case (step t u)
    then show ?case using call_step_ok assms(3,4) by blast
  qed
  have "1 \<le> f_ref (ftab s f)" if f: "p < NPROC" "fd < NOFILE" "p_ofile (procs s p) ! fd = Some f" for p fd f
  proof -
    have "Some f \<in> set (p_ofile (procs s p))" using ok f unfolding files_ok_def by (metis nth_mem)
    then have "0 < count_list (p_ofile (procs s p)) (Some f)" by (metis count_list_0_iff gr0I)
    moreover have "count_list (p_ofile (procs s p)) (Some f) \<le> fd_refs f s"
      unfolding fd_refs_def using f(1) by (intro member_le_sum) auto
    ultimately show ?thesis using ok ofile_range [OF ok f] by (simp add: files_ok_def)
  qed
  then show ?thesis using ok ofile_range [OF ok] by (auto simp: files_ok_def)
qed

text \<open>A process that duplicates its descriptor 0.\<close>

definition dup_ex :: sys where
  "dup_ex = set_mem (set_mem64 TF_A7 10 (set_mem64 TF_A0 0 kmem_ex))
     (upd_file 3 (\<lambda>f. f\<lparr>f_ref := 1\<rparr>)
       (upd_proc 0 (\<lambda>p. p\<lparr>p_state := RUNNING, p_ofile := Some 3 # replicate 15 None\<rparr>) (boot_sys fs_ex)))"

lemma dup_ex_simps:
  "curp dup_ex = 0" "tf_get TF_A0 dup_ex = 0" "tf_get TF_A7 dup_ex = 10"
  "procs dup_ex p = (if p = 0 then zero_proc\<lparr>p_state := RUNNING, p_ofile := Some 3 # replicate 15 None\<rparr> else zero_proc)"
  "ftab dup_ex f = (if f = 3 then zero_file\<lparr>f_ref := 1\<rparr> else zero_file)"
proof -
  have "load64 (store64 (store64 m TF_A0 x) TF_A7 10) TF_A0 = load64 (store64 m TF_A0 x) TF_A0" for m x
    by (rule load64_store64_other) (simp_all add: aligned_def TF_A0_def TF_A7_def)
  then show "tf_get TF_A0 dup_ex = 0" "tf_get TF_A7 dup_ex = 10"
    by (simp_all add: tf_get_def dup_ex_def boot_sys_def procs_upd_proc zero_proc_def set_mem64_def)
qed (simp_all add: dup_ex_def boot_sys_def procs_upd_proc ftab_upd_file)

lemma dup_ex_ok: "files_ok (\<lambda>_. 0) dup_ex"
proof -
  have e: "count_list (replicate n None) (Some f) = 0" for n and f :: nat by (induction n) simp_all
  have "fd_refs f dup_ex = (\<Sum>p<NPROC. if p = 0 then if f = 3 then 1 else 0 else 0)" for f
    unfolding fd_refs_def by (intro sum.cong) (auto simp: dup_ex_simps zero_proc_def e)
  then have "fd_refs f dup_ex = (if f = 3 then 1 else 0)" for f by (simp add: NPROC_def)
  then show ?thesis
    by (auto simp: files_ok_def dup_ex_simps zero_proc_def zero_file_def no_files_def dead_def NOFILE_def NFILE_def)
qed

lemma dup_ex_call: "\<exists>s'. syscall no_devices dup_ex = Inr (Goes_on 1, s')"
proof -
  have "argfd 0 dup_ex = Inr (Some (0, 3), dup_ex)"
    by (simp add: argfd_def argint_def arg_def argraw_def seq_def ret_def dup_ex_simps NOFILE_def)
  moreover have "first_slot (\<lambda>x. x = None) (\<lambda>i. p_ofile (myproc dup_ex) ! i) 0 NOFILE = Some 1"
    by (auto simp: first_slot_Some NOFILE_def dup_ex_simps nth_Cons')
  ultimately have "\<exists>t. sys_dup dup_ex = Inr (1, t)"
    by (simp add: sys_dup_def seq_def ret_def fdalloc_def filedup_def set_ofile_def dup_ex_simps)
  moreover have "syscalls no_devices 10 = Some (int_call sys_dup)" by (simp add: syscalls_def)
  ultimately show ?thesis
    by (auto simp: syscall_def dup_ex_simps int_call_def seq_def ret_def set_a0_def)
qed

theorem open_files_counted_witness:
  "\<exists>s. (call_step no_devices)\<^sup>*\<^sup>* dup_ex s \<and> f_ref (ftab s 3) = int (fd_refs 3 s)"
proof -
  obtain s where "syscall no_devices dup_ex = Inr (Goes_on 1, s)" using dup_ex_call by blast
  then have "call_step no_devices dup_ex s"
    by (intro call_step.call) (simp_all add: live_def dup_ex_simps dead_def NPROC_def)
  then have r: "(call_step no_devices)\<^sup>*\<^sup>* dup_ex s" by simp
  from open_files_counted [OF this dup_ex_ok] show ?thesis
    using r by (auto simp: no_devices_def quiet_devs_def NFILE_def)
qed

end
