(* ===== verification/Spinlock.thy ===== *)
theory Spinlock
  imports Xv6_Prelude
begin

text \<open>
  \<^verbatim>\<open>kernel/spinlock.c\<close>. \<open>acquire\<close>, \<open>release\<close>, \<open>push_off\<close> and \<open>pop_off\<close> as functions of the calling
  CPU, and the same code cut into its atomic accesses to shared memory as a step relation in which
  any number of CPUs interleave. CPUs and locks are numbered; \<open>lcpu = None\<close> is the null pointer.
  The other theories model critical sections as if they ran alone: mutual exclusion, and that a
  matching \<open>release\<close> restores what \<open>acquire\<close> changed, is what justifies it.
\<close>

section \<open>State\<close>

record spinlock =
  locked :: u32
  lcpu :: "nat option"

record cpu =
  noff :: int
  intena :: bool
  sie :: bool

record smp =
  locks :: "nat \<Rightarrow> spinlock"
  cpus :: "nat \<Rightarrow> cpu"

section \<open>Operations\<close>

definition initlock :: spinlock where
  "initlock = \<lparr>locked = 0, lcpu = None\<rparr>"

definition set_lock :: "nat \<Rightarrow> spinlock \<Rightarrow> smp \<Rightarrow> smp" where
  "set_lock l x s = s\<lparr>locks := (locks s)(l := x)\<rparr>"

definition set_cpu :: "nat \<Rightarrow> cpu \<Rightarrow> smp \<Rightarrow> smp" where
  "set_cpu c x s = s\<lparr>cpus := (cpus s)(c := x)\<rparr>"

definition holding :: "nat \<Rightarrow> nat \<Rightarrow> smp \<Rightarrow> bool" where
  "holding c l s \<longleftrightarrow> locked (locks s l) \<noteq> 0 \<and> lcpu (locks s l) = Some c"

definition push_off :: "cpu \<Rightarrow> cpu" where
  "push_off x =
     (let old = sie x; x = x\<lparr>sie := False\<rparr>;
          x = (if noff x = 0 then x\<lparr>intena := old\<rparr> else x)
      in x\<lparr>noff := noff x + 1\<rparr>)"

definition pop_off :: "cpu \<Rightarrow> cpu result" where
  "pop_off x =
     (if sie x then Inl (Panic ''pop_off - interruptible'')
      else if noff x < 1 then Inl (Panic ''pop_off'')
      else let x = x\<lparr>noff := noff x - 1\<rparr>
           in Inr (if noff x = 0 \<and> intena x then x\<lparr>sie := True\<rparr> else x))"

text \<open>A CPU that spins on a lock another CPU holds does not return by itself.\<close>

definition acquire :: "nat \<Rightarrow> nat \<Rightarrow> smp \<Rightarrow> smp result" where
  "acquire c l s =
     (let s = set_cpu c (push_off (cpus s c)) s
      in if holding c l s then Inl (Panic ''acquire'')
         else if locked (locks s l) \<noteq> 0 then Inl (Blocked ''spin'')
         else let s = set_lock l ((locks s l)\<lparr>locked := 1\<rparr>) s
              in Inr (set_lock l ((locks s l)\<lparr>lcpu := Some c\<rparr>) s))"

definition release :: "nat \<Rightarrow> nat \<Rightarrow> smp \<Rightarrow> smp result" where
  "release c l s =
     (if \<not> holding c l s then Inl (Panic ''release'')
      else let s = set_lock l ((locks s l)\<lparr>lcpu := None\<rparr>) s;
               s = set_lock l ((locks s l)\<lparr>locked := 0\<rparr>) s
           in bind_result (pop_off (cpus s c)) (\<lambda>x. Inr (set_cpu c x s)))"

section \<open>Interleaving\<close>

text \<open>
  Where a CPU is inside \<open>acquire\<close> or \<open>release\<close>; \<open>Run\<close>: outside both. Each rule is one access to
  shared memory. \<open>held\<close> records which locks a CPU has been given: set when \<open>acquire\<close> returns,
  cleared when \<open>release\<close> is called.
\<close>

datatype lpc = Run | Spin nat | Won nat | Owner_cleared nat | Freed

record world =
  smp_of :: smp
  pc :: "nat \<Rightarrow> lpc"
  held :: "nat \<Rightarrow> nat set"

inductive lock_step :: "world \<Rightarrow> world \<Rightarrow> bool" where
  acq_enter: "pc w c = Run \<Longrightarrow> \<not> holding c l (smp_of w) \<Longrightarrow>
    lock_step w (w\<lparr>smp_of := set_cpu c (push_off (cpus (smp_of w) c)) (smp_of w), pc := (pc w)(c := Spin l)\<rparr>)"
| acq_spin: "pc w c = Spin l \<Longrightarrow> locked (locks (smp_of w) l) \<noteq> 0 \<Longrightarrow>
    lock_step w (w\<lparr>smp_of := set_lock l ((locks (smp_of w) l)\<lparr>locked := 1\<rparr>) (smp_of w)\<rparr>)"
| acq_win: "pc w c = Spin l \<Longrightarrow> locked (locks (smp_of w) l) = 0 \<Longrightarrow>
    lock_step w (w\<lparr>smp_of := set_lock l ((locks (smp_of w) l)\<lparr>locked := 1\<rparr>) (smp_of w),
      pc := (pc w)(c := Won l)\<rparr>)"
| acq_return: "pc w c = Won l \<Longrightarrow>
    lock_step w (w\<lparr>smp_of := set_lock l ((locks (smp_of w) l)\<lparr>lcpu := Some c\<rparr>) (smp_of w),
      pc := (pc w)(c := Run), held := (held w)(c := insert l (held w c))\<rparr>)"
| rel_enter: "pc w c = Run \<Longrightarrow> holding c l (smp_of w) \<Longrightarrow>
    lock_step w (w\<lparr>smp_of := set_lock l ((locks (smp_of w) l)\<lparr>lcpu := None\<rparr>) (smp_of w),
      pc := (pc w)(c := Owner_cleared l), held := (held w)(c := held w c - {l})\<rparr>)"
| rel_free: "pc w c = Owner_cleared l \<Longrightarrow>
    lock_step w (w\<lparr>smp_of := set_lock l ((locks (smp_of w) l)\<lparr>locked := 0\<rparr>) (smp_of w),
      pc := (pc w)(c := Freed)\<rparr>)"
| rel_return: "pc w c = Freed \<Longrightarrow> pop_off (cpus (smp_of w) c) = Inr x \<Longrightarrow>
    lock_step w (w\<lparr>smp_of := set_cpu c x (smp_of w), pc := (pc w)(c := Run)\<rparr>)"

definition initial_world :: "world \<Rightarrow> bool" where
  "initial_world w \<longleftrightarrow> (\<forall>l. locks (smp_of w) l = initlock) \<and> (\<forall>c. noff (cpus (smp_of w) c) = 0) \<and>
     pc w = (\<lambda>_. Run) \<and> held w = (\<lambda>_. {})"

section \<open>Invariant\<close>

text \<open>The one CPU that the lock word belongs to: between the winning swap and the freeing store.\<close>

definition has :: "world \<Rightarrow> nat \<Rightarrow> nat \<Rightarrow> bool" where
  "has w c l \<longleftrightarrow> l \<in> held w c \<or> pc w c = Won l \<or> pc w c = Owner_cleared l"

definition busy :: "lpc \<Rightarrow> nat" where
  "busy p = (if p = Run then 0 else 1)"

definition lock_inv :: "world \<Rightarrow> bool" where
  "lock_inv w \<longleftrightarrow>
     (\<forall>l c c'. has w c l \<and> has w c' l \<longrightarrow> c = c') \<and>
     (\<forall>l. locked (locks (smp_of w) l) = 0 \<longleftrightarrow> (\<forall>c. \<not> has w c l)) \<and>
     (\<forall>l c. lcpu (locks (smp_of w) l) = Some c \<longleftrightarrow> l \<in> held w c) \<and>
     (\<forall>c. finite (held w c)) \<and>
     (\<forall>c l. pc w c = Won l \<or> pc w c = Owner_cleared l \<longrightarrow> l \<notin> held w c) \<and>
     (\<forall>c. noff (cpus (smp_of w) c) = int (card (held w c) + busy (pc w c))) \<and>
     (\<forall>c. noff (cpus (smp_of w) c) > 0 \<longrightarrow> \<not> sie (cpus (smp_of w) c))"

lemma holding_iff: "lock_inv w \<Longrightarrow> holding c l (smp_of w) \<longleftrightarrow> l \<in> held w c"
  by (auto simp: lock_inv_def holding_def has_def)

lemma lock_simps [simp]:
  "locks (set_cpu c x s) = locks s" "cpus (set_cpu c x s) = (cpus s)(c := x)"
  "locks (set_lock l y s) = (locks s)(l := y)" "cpus (set_lock l y s) = cpus s"
  by (simp_all add: set_cpu_def set_lock_def)

lemma push_off_simps [simp]: "noff (push_off x) = noff x + 1" "\<not> sie (push_off x)"
  by (simp_all add: push_off_def Let_def)

lemma lock_inv_initial: "initial_world w \<Longrightarrow> lock_inv w"
  by (simp add: lock_inv_def initial_world_def has_def initlock_def busy_def)

lemma card_minus_one: "finite A \<Longrightarrow> l \<in> A \<Longrightarrow> int (card A) = int (card A - Suc 0) + 1"
  using card_gt_0_iff [of A] by auto

lemma lock_step_inv: "lock_step w w' \<Longrightarrow> lock_inv w \<Longrightarrow> lock_inv w'"
proof (induction rule: lock_step.induct)
  case (acq_enter w c l)
  then show ?case by (simp add: lock_inv_def has_def busy_def) (auto split: if_splits)
next
  case (acq_spin w c l)
  then have "has w c' l \<longrightarrow> locked (locks (smp_of w) l) \<noteq> 0" for c' by (auto simp: lock_inv_def)
  with acq_spin show ?case by (simp add: lock_inv_def has_def)
next
  case (acq_win w c l)
  then show ?case by (simp add: lock_inv_def has_def busy_def) (auto split: if_splits)
next
  case (acq_return w c l)
  then show ?case by (simp add: lock_inv_def has_def busy_def) (auto split: if_splits)
next
  case (rel_enter w c l)
  then show ?case
    by (simp add: lock_inv_def has_def busy_def holding_def) (auto split: if_splits intro: card_minus_one)
next
  case (rel_free w c l)
  then show ?case by (simp add: lock_inv_def has_def busy_def) (auto split: if_splits)
next
  case (rel_return w c x)
  let ?w = "w\<lparr>smp_of := set_cpu c x (smp_of w), pc := (pc w)(c := Run)\<rparr>"
  have has: "has ?w = has w" using rel_return by (auto simp: has_def fun_eq_iff)
  have x: "noff x = noff (cpus (smp_of w) c) - 1" "noff x > 0 \<longrightarrow> \<not> sie x"
    using rel_return by (auto simp: pop_off_def Let_def split: if_splits)
  with rel_return.prems rel_return.hyps(1) show ?case
    by (simp add: lock_inv_def has busy_def)
qed

lemma lock_steps_inv: "lock_step\<^sup>*\<^sup>* w w' \<Longrightarrow> lock_inv w \<Longrightarrow> lock_inv w'"
  by (induction rule: rtranclp_induct) (auto intro: lock_step_inv)

lemma lock_reachable_inv: "initial_world w \<Longrightarrow> lock_step\<^sup>*\<^sup>* w w' \<Longrightarrow> lock_inv w'"
  using lock_steps_inv lock_inv_initial by blast

section \<open>Properties\<close>

text \<open>C9: Mutual exclusion under every interleaving of the memory accesses of any number of CPUs:
  no two CPUs have returned from \<open>acquire\<close> of a lock and not yet called its \<open>release\<close>;
  \<open>holding\<close> tells a CPU exactly whether it is the one; and while a CPU holds a lock its interrupts
  are off and its \<open>noff\<close> counts its locks, so its \<open>pop_off\<close> does not panic.\<close>

theorem spinlock_mutual_exclusion:
  assumes "initial_world w0" "lock_step\<^sup>*\<^sup>* w0 w"
  shows "(l \<in> held w c \<and> l \<in> held w c' \<longrightarrow> c = c') \<and>
    (holding c l (smp_of w) \<longleftrightarrow> l \<in> held w c) \<and>
    (held w c \<noteq> {} \<longrightarrow> \<not> sie (cpus (smp_of w) c) \<and> (\<exists>x. pop_off (cpus (smp_of w) c) = Inr x)) \<and>
    (pc w c = Run \<longrightarrow> noff (cpus (smp_of w) c) = int (card (held w c)))"
proof -
  have inv: "lock_inv w" using lock_reachable_inv [OF assms] .
  have "l \<in> held w c \<and> l \<in> held w c' \<longrightarrow> c = c'"
    using inv unfolding lock_inv_def has_def by blast
  moreover note holding_iff [OF inv]
  moreover have "noff (cpus (smp_of w) c) = int (card (held w c) + busy (pc w c))" "finite (held w c)"
    "noff (cpus (smp_of w) c) > 0 \<longrightarrow> \<not> sie (cpus (smp_of w) c)"
    using inv by (simp_all add: lock_inv_def)
  moreover from this have "held w c \<noteq> {} \<longrightarrow> noff (cpus (smp_of w) c) > 0"
    using card_gt_0_iff [of "held w c"] by auto
  ultimately show ?thesis
    by (auto simp: pop_off_def Let_def busy_def)
qed

definition world0 :: world where
  "world0 = \<lparr>smp_of = \<lparr>locks = (\<lambda>_. initlock), cpus = (\<lambda>_. \<lparr>noff = 0, intena = False, sie = True\<rparr>)\<rparr>,
     pc = (\<lambda>_. Run), held = (\<lambda>_. {})\<rparr>"

lemma world0_acquires: "\<exists>w. lock_step\<^sup>*\<^sup>* world0 w \<and> held w 1 = {5} \<and> held w 2 = {}"
proof -
  let ?w0 = world0
  let ?w1 = "?w0\<lparr>smp_of := set_cpu 1 (push_off (cpus (smp_of ?w0) 1)) (smp_of ?w0), pc := (pc ?w0)(1 := Spin 5)\<rparr>"
  let ?w2 = "?w1\<lparr>smp_of := set_lock 5 ((locks (smp_of ?w1) 5)\<lparr>locked := 1\<rparr>) (smp_of ?w1),
      pc := (pc ?w1)(1 := Won 5)\<rparr>"
  let ?w3 = "?w2\<lparr>smp_of := set_lock 5 ((locks (smp_of ?w2) 5)\<lparr>lcpu := Some 1\<rparr>) (smp_of ?w2),
      pc := (pc ?w2)(1 := Run), held := (held ?w2)(1 := insert 5 (held ?w2 1))\<rparr>"
  have "lock_step ?w0 ?w1" by (rule acq_enter) (simp_all add: world0_def holding_def initlock_def)
  moreover have "lock_step ?w1 ?w2" by (rule acq_win) (simp_all add: world0_def initlock_def)
  moreover have "lock_step ?w2 ?w3" by (rule acq_return) simp
  ultimately have "lock_step\<^sup>*\<^sup>* ?w0 ?w3" by (meson rtranclp.rtrancl_into_rtrancl rtranclp.rtrancl_refl)
  moreover have "held ?w3 1 = {5} \<and> held ?w3 2 = {}" by (simp add: world0_def)
  ultimately show ?thesis by blast
qed

theorem spinlock_mutual_exclusion_witness:
  "\<exists>w. lock_step\<^sup>*\<^sup>* world0 w \<and> holding 1 5 (smp_of w) \<and> \<not> holding 2 5 (smp_of w)"
proof -
  obtain w where w: "lock_step\<^sup>*\<^sup>* world0 w" "held w 1 = {5}" "held w 2 = {}"
    using world0_acquires by blast
  have "initial_world world0" by (simp add: initial_world_def world0_def)
  from spinlock_mutual_exclusion [OF this w(1), of 5 1 2] spinlock_mutual_exclusion [OF this w(1), of 5 2 1] w
  show ?thesis by auto
qed

text \<open>\<open>release\<close> undoes \<open>acquire\<close>: taking a free lock and releasing it leaves that lock as \<open>initlock\<close>
  makes it and every other lock as it was, and gives back the nesting depth and the interrupt flag of the CPU, in between interrupts are off, and only the
  saved flag \<open>intena\<close> of an outermost \<open>push_off\<close> stays behind. A CPU that acquires a lock it holds
  panics, and so does one that releases a lock it does not hold.\<close>

theorem acquire_release:
  assumes "noff (cpus s c) \<ge> 0" "noff (cpus s c) > 0 \<longrightarrow> \<not> sie (cpus s c)"
  shows "(if locked (locks s l) = 0
     then \<exists>s1 s2. acquire c l s = Inr s1 \<and> holding c l s1 \<and> \<not> sie (cpus s1 c) \<and>
            acquire c l s1 = Inl (Panic ''acquire'') \<and> release c l s1 = Inr s2 \<and>
            locks s2 l = initlock \<and> (\<forall>k. k \<noteq> l \<longrightarrow> locks s2 k = locks s k) \<and>
            (\<forall>d. d \<noteq> c \<longrightarrow> cpus s2 d = cpus s d) \<and>
            noff (cpus s2 c) = noff (cpus s c) \<and> sie (cpus s2 c) = sie (cpus s c)
     else acquire c l s = Inl (if holding c l s then Panic ''acquire'' else Blocked ''spin'')) \<and>
    (\<not> holding c l s \<longrightarrow> release c l s = Inl (Panic ''release''))"
  using assms
  by (auto simp: acquire_def release_def holding_def push_off_def pop_off_def Let_def set_cpu_def set_lock_def initlock_def)

theorem acquire_release_witness:
  "\<exists>s1 s2. acquire 0 3 (smp_of world0) = Inr s1 \<and> release 0 3 s1 = Inr s2 \<and> sie (cpus s2 0)"
  using acquire_release [of "smp_of world0" 0 3] by (auto simp: world0_def initlock_def)

end
