(* ===== verification/Sched.thy ===== *)
theory Sched
  imports Kstate Spinlock
begin

text \<open>
  Scheduling in \<^verbatim>\<open>kernel/proc.c\<close>: \<open>scheduler\<close>, \<open>sched\<close>, \<open>yield\<close>, \<open>sleep\<close> and \<open>wakeup\<close>, with the locks and
  interrupts of \<^verbatim>\<open>kernel/spinlock.c\<close>, any number of CPUs interleaving. A step is a stretch of code
  between two lock operations. Lock \<open>p < NPROC\<close> is \<open>proc[p].lock\<close>; lock \<open>cond_lock\<close> stands for the lock
  that callers of \<open>sleep\<close> and \<open>wakeup\<close> use (\<open>wait_lock\<close>, \<open>tickslock\<close>, a pipe's lock), and \<open>cond ch\<close> for the
  condition it protects that sleepers on channel \<open>ch\<close> wait for. A \<open>swtch\<close> moves a CPU between the
  scheduler and the kernel thread of a process, whose continuation \<open>saved\<close> keeps.
\<close>

section \<open>State\<close>

definition cond_lock :: nat where "cond_lock = NPROC"

text \<open>Where a kernel thread goes on when \<open>sched\<close> returns.\<close>

datatype kont = K_yield | K_sleep | K_exit | K_forkret

text \<open>Where a CPU is inside the code of a process.\<close>

datatype ppc =
    Free                                  \<comment> \<open>holds no lock\<close>
  | Relock                                \<comment> \<open>end of \<open>sleep\<close>: about to take the condition lock again\<close>
  | Holds                                 \<comment> \<open>holds the condition lock\<close>
  | Yielding                              \<comment> \<open>\<open>yield\<close> has taken \<open>p->lock\<close>\<close>
  | Sleep_both chan                       \<comment> \<open>\<open>sleep\<close> holds both locks\<close>
  | Sleep_own chan                        \<comment> \<open>\<open>sleep\<close> has released the condition lock\<close>
  | Exit_both | Exit_zombie               \<comment> \<open>\<open>kexit\<close> before and after it sets \<open>ZOMBIE\<close>\<close>
  | In_sched kont                         \<comment> \<open>about to call \<open>sched\<close>\<close>
  | Resumed kont                          \<comment> \<open>back from \<open>swtch\<close>, \<open>p->lock\<close> held\<close>
  | Waking chan nat                       \<comment> \<open>\<open>wakeup\<close>, before process \<open>q\<close>\<close>
  | Wake_locked chan nat                  \<comment> \<open>\<open>wakeup\<close> holds the lock of \<open>q\<close>\<close>
  | Other nat                             \<comment> \<open>holds the lock of \<open>q\<close>: \<open>allocproc\<close>, \<open>kfork\<close>, \<open>kkill\<close>\<close>
  | Reap nat                              \<comment> \<open>\<open>kwait\<close> holds the condition lock and the lock of \<open>q\<close>\<close>

datatype cpc =
    Scan nat                              \<comment> \<open>\<open>scheduler\<close>, before process \<open>n\<close>\<close>
  | Picked nat                            \<comment> \<open>\<open>scheduler\<close> holds the lock of \<open>n\<close>\<close>
  | Back nat                              \<comment> \<open>\<open>scheduler\<close> after \<open>swtch\<close>\<close>
  | Proc nat ppc

record machine =
  m_smp :: smp
  cproc :: "nat \<Rightarrow> nat option"
  mstate :: "nat \<Rightarrow> procstate"
  mchan :: "nat \<Rightarrow> chan option"
  mpc :: "nat \<Rightarrow> cpc"
  saved :: "nat \<Rightarrow> kont \<times> bool"
  cond :: "chan \<Rightarrow> bool"

section \<open>Steps\<close>

text \<open>The checks of \<open>sched\<close>.\<close>

definition sched :: "nat \<Rightarrow> nat \<Rightarrow> machine \<Rightarrow> unit result" where
  "sched c p m =
     (if \<not> holding c p (m_smp m) then Inl (Panic ''sched p->lock'')
      else if noff (cpus (m_smp m) c) \<noteq> 1 then Inl (Panic ''sched locks'')
      else if mstate m p = RUNNING then Inl (Panic ''sched RUNNING'')
      else if sie (cpus (m_smp m) c) then Inl (Panic ''sched interruptible'')
      else Inr ())"

definition goto :: "nat \<Rightarrow> cpc \<Rightarrow> machine \<Rightarrow> machine" where
  "goto c x m = m\<lparr>mpc := (mpc m)(c := x)\<rparr>"

definition set_state :: "nat \<Rightarrow> procstate \<Rightarrow> machine \<Rightarrow> machine" where
  "set_state p st m = m\<lparr>mstate := (mstate m)(p := st)\<rparr>"

definition set_intena :: "nat \<Rightarrow> bool \<Rightarrow> machine \<Rightarrow> machine" where
  "set_intena c b m = m\<lparr>m_smp := set_cpu c ((cpus (m_smp m) c)\<lparr>intena := b\<rparr>) (m_smp m)\<rparr>"

text \<open>What \<open>wakeup\<close> does to process \<open>q\<close>, whose lock it holds.\<close>

definition wake_one :: "chan \<Rightarrow> nat \<Rightarrow> machine \<Rightarrow> machine" where
  "wake_one ch q m =
     (if mstate m q = SLEEPING \<and> mchan m q = Some ch then set_state q RUNNABLE m else m)"

inductive run_step :: "machine \<Rightarrow> machine \<Rightarrow> bool" where
  \<comment> \<open>the scheduler\<close>
  scan_again: "mpc m c = Scan n \<Longrightarrow> NPROC \<le> n \<Longrightarrow>
    run_step m (goto c (Scan 0) (m\<lparr>m_smp := set_cpu c ((cpus (m_smp m) c)\<lparr>sie := False\<rparr>) (m_smp m)\<rparr>))"
| scan_lock: "mpc m c = Scan n \<Longrightarrow> n < NPROC \<Longrightarrow> acquire c n (m_smp m) = Inr s \<Longrightarrow>
    run_step m (goto c (Picked n) (m\<lparr>m_smp := s\<rparr>))"
| scan_switch: "mpc m c = Picked n \<Longrightarrow> mstate m n = RUNNABLE \<Longrightarrow> saved m n = (k, b) \<Longrightarrow>
    run_step m (goto c (Proc n (Resumed k)) (set_state n RUNNING
      ((if k = K_forkret then m else set_intena c b m)\<lparr>cproc := (cproc m)(c := Some n)\<rparr>)))"
| scan_skip: "mpc m c = Picked n \<Longrightarrow> mstate m n \<noteq> RUNNABLE \<Longrightarrow> release c n (m_smp m) = Inr s \<Longrightarrow>
    run_step m (goto c (Scan (Suc n)) (m\<lparr>m_smp := s\<rparr>))"
| scan_back: "mpc m c = Back n \<Longrightarrow> release c n (m_smp m) = Inr s \<Longrightarrow>
    run_step m (goto c (Scan (Suc n)) (m\<lparr>cproc := (cproc m)(c := None), m_smp := s\<rparr>))"
  \<comment> \<open>\<open>sched\<close>: switch to the scheduler\<close>
| swtch: "mpc m c = Proc p (In_sched k) \<Longrightarrow> sched c p m = Inr () \<Longrightarrow>
    run_step m (goto c (Back p) (m\<lparr>saved := (saved m)(p := (k, intena (cpus (m_smp m) c)))\<rparr>))"
| resume: "mpc m c = Proc p (Resumed k) \<Longrightarrow> k = K_yield \<or> k = K_forkret \<Longrightarrow> release c p (m_smp m) = Inr s \<Longrightarrow>
    run_step m (goto c (Proc p Free) (m\<lparr>m_smp := s\<rparr>))"
| resume_sleep: "mpc m c = Proc p (Resumed K_sleep) \<Longrightarrow> release c p (m_smp m) = Inr s \<Longrightarrow>
    run_step m (goto c (Proc p Relock) (m\<lparr>m_smp := s, mchan := (mchan m)(p := None)\<rparr>))"
  \<comment> \<open>\<open>yield\<close>\<close>
| yield_lock: "mpc m c = Proc p Free \<Longrightarrow> acquire c p (m_smp m) = Inr s \<Longrightarrow>
    run_step m (goto c (Proc p Yielding) (m\<lparr>m_smp := s\<rparr>))"
| yield_set: "mpc m c = Proc p Yielding \<Longrightarrow>
    run_step m (goto c (Proc p (In_sched K_yield)) (set_state p RUNNABLE m))"
  \<comment> \<open>code under the condition lock\<close>
| lock_cond: "mpc m c = Proc p Free \<or> mpc m c = Proc p Relock \<Longrightarrow> acquire c cond_lock (m_smp m) = Inr s \<Longrightarrow>
    run_step m (goto c (Proc p Holds) (m\<lparr>m_smp := s\<rparr>))"
| unlock_cond: "mpc m c = Proc p Holds \<Longrightarrow> release c cond_lock (m_smp m) = Inr s \<Longrightarrow>
    run_step m (goto c (Proc p Free) (m\<lparr>m_smp := s\<rparr>))"
| cond_off: "mpc m c = Proc p Holds \<Longrightarrow> run_step m (m\<lparr>cond := (cond m)(ch := False)\<rparr>)"
  \<comment> \<open>\<open>sleep\<close>, called with the condition false\<close>
| sleep_lock: "mpc m c = Proc p Holds \<Longrightarrow> \<not> cond m ch \<Longrightarrow> acquire c p (m_smp m) = Inr s \<Longrightarrow>
    run_step m (goto c (Proc p (Sleep_both ch)) (m\<lparr>m_smp := s\<rparr>))"
| sleep_unlock: "mpc m c = Proc p (Sleep_both ch) \<Longrightarrow> release c cond_lock (m_smp m) = Inr s \<Longrightarrow>
    run_step m (goto c (Proc p (Sleep_own ch)) (m\<lparr>m_smp := s\<rparr>))"
| sleep_set: "mpc m c = Proc p (Sleep_own ch) \<Longrightarrow>
    run_step m (goto c (Proc p (In_sched K_sleep)) (set_state p SLEEPING (m\<lparr>mchan := (mchan m)(p := Some ch)\<rparr>)))"
  \<comment> \<open>\<open>wakeup\<close>, after the condition was made true\<close>
| wake_start: "mpc m c = Proc p Holds \<Longrightarrow>
    run_step m (goto c (Proc p (Waking ch 0)) (m\<lparr>cond := (cond m)(ch := True)\<rparr>))"
| wake_self: "mpc m c = Proc p (Waking ch p) \<Longrightarrow> run_step m (goto c (Proc p (Waking ch (Suc p))) m)"
| wake_lock: "mpc m c = Proc p (Waking ch q) \<Longrightarrow> q < NPROC \<Longrightarrow> q \<noteq> p \<Longrightarrow> acquire c q (m_smp m) = Inr s \<Longrightarrow>
    run_step m (goto c (Proc p (Wake_locked ch q)) (m\<lparr>m_smp := s\<rparr>))"
| wake_unlock: "mpc m c = Proc p (Wake_locked ch q) \<Longrightarrow> release c q (m_smp m) = Inr s \<Longrightarrow>
    run_step m (goto c (Proc p (Waking ch (Suc q))) ((wake_one ch q m)\<lparr>m_smp := s\<rparr>))"
| wake_end: "mpc m c = Proc p (Waking ch q) \<Longrightarrow> NPROC \<le> q \<Longrightarrow> run_step m (goto c (Proc p Holds) m)"
  \<comment> \<open>the end of \<open>kexit\<close>\<close>
| exit_lock: "mpc m c = Proc p Holds \<Longrightarrow> acquire c p (m_smp m) = Inr s \<Longrightarrow>
    run_step m (goto c (Proc p Exit_both) (m\<lparr>m_smp := s\<rparr>))"
| exit_set: "mpc m c = Proc p Exit_both \<Longrightarrow> run_step m (goto c (Proc p Exit_zombie) (set_state p ZOMBIE m))"
| exit_unlock: "mpc m c = Proc p Exit_zombie \<Longrightarrow> release c cond_lock (m_smp m) = Inr s \<Longrightarrow>
    run_step m (goto c (Proc p (In_sched K_exit)) (m\<lparr>m_smp := s\<rparr>))"
  \<comment> \<open>\<open>allocproc\<close>, \<open>kfork\<close>, \<open>kkill\<close>: one critical section of another process's lock\<close>
| other_lock: "mpc m c = Proc p Free \<Longrightarrow> q < NPROC \<Longrightarrow> acquire c q (m_smp m) = Inr s \<Longrightarrow>
    run_step m (goto c (Proc p (Other q)) (m\<lparr>m_smp := s\<rparr>))"
| other_alloc: "mpc m c = Proc p (Other q) \<Longrightarrow> mstate m q = UNUSED \<Longrightarrow>
    run_step m (set_state q USED (m\<lparr>saved := (saved m)(q := (K_forkret, b))\<rparr>))"
| other_start: "mpc m c = Proc p (Other q) \<Longrightarrow> mstate m q = USED \<Longrightarrow> run_step m (set_state q RUNNABLE m)"
| other_fail: "mpc m c = Proc p (Other q) \<Longrightarrow> mstate m q = USED \<Longrightarrow> run_step m (set_state q UNUSED m)"
| other_kill: "mpc m c = Proc p (Other q) \<Longrightarrow> mstate m q = SLEEPING \<Longrightarrow> run_step m (set_state q RUNNABLE m)"
| other_unlock: "mpc m c = Proc p (Other q) \<Longrightarrow> release c q (m_smp m) = Inr s \<Longrightarrow>
    run_step m (goto c (Proc p Free) (m\<lparr>m_smp := s\<rparr>))"
  \<comment> \<open>\<open>kwait\<close>\<close>
| reap_lock: "mpc m c = Proc p Holds \<Longrightarrow> q < NPROC \<Longrightarrow> acquire c q (m_smp m) = Inr s \<Longrightarrow>
    run_step m (goto c (Proc p (Reap q)) (m\<lparr>m_smp := s\<rparr>))"
| reap_free: "mpc m c = Proc p (Reap q) \<Longrightarrow> mstate m q = ZOMBIE \<Longrightarrow> run_step m (set_state q UNUSED m)"
| reap_unlock: "mpc m c = Proc p (Reap q) \<Longrightarrow> release c q (m_smp m) = Inr s \<Longrightarrow>
    run_step m (goto c (Proc p Holds) (m\<lparr>m_smp := s\<rparr>))"

section \<open>Locks\<close>

text \<open>The locks a CPU holds, by where it is.\<close>

fun held_ppc :: "nat \<Rightarrow> ppc \<Rightarrow> nat set" where
  "held_ppc p Free = {}"
| "held_ppc p Relock = {}"
| "held_ppc p Holds = {cond_lock}"
| "held_ppc p Yielding = {p}"
| "held_ppc p (Sleep_both ch) = {cond_lock, p}"
| "held_ppc p (Sleep_own ch) = {p}"
| "held_ppc p Exit_both = {cond_lock, p}"
| "held_ppc p Exit_zombie = {cond_lock, p}"
| "held_ppc p (In_sched k) = {p}"
| "held_ppc p (Resumed k) = {p}"
| "held_ppc p (Waking ch q) = {cond_lock}"
| "held_ppc p (Wake_locked ch q) = {cond_lock, q}"
| "held_ppc p (Other q) = {q}"
| "held_ppc p (Reap q) = {cond_lock, q}"

fun held_cpc :: "cpc \<Rightarrow> nat set" where
  "held_cpc (Scan n) = {}"
| "held_cpc (Picked n) = {n}"
| "held_cpc (Back n) = {n}"
| "held_cpc (Proc p x) = held_ppc p x"

lemma finite_held [simp]: "finite (held_cpc x)"
proof (cases x)
  case (Proc p y)
  then show ?thesis by (cases y) simp_all
qed simp_all

text \<open>The spin locks agree with it: the CPU that holds a lock owns it, nobody owns a free lock, the
  nesting depth counts the locks, and interrupts are off while there are any.\<close>

definition lock_view :: "(nat \<Rightarrow> nat set) \<Rightarrow> smp \<Rightarrow> bool" where
  "lock_view hs s \<longleftrightarrow>
     (\<forall>c l. l \<in> hs c \<longrightarrow> locked (locks s l) \<noteq> 0 \<and> lcpu (locks s l) = Some c) \<and>
     (\<forall>l. locked (locks s l) \<noteq> 0 \<longrightarrow> (\<exists>c. l \<in> hs c)) \<and>
     (\<forall>c. finite (hs c) \<and> noff (cpus s c) = int (card (hs c)) \<and> (hs c \<noteq> {} \<longrightarrow> \<not> sie (cpus s c)))"

lemma lock_view_excl: "lock_view hs s \<Longrightarrow> l \<in> hs c \<Longrightarrow> l \<in> hs d \<Longrightarrow> c = d"
  unfolding lock_view_def by (metis option.inject)

lemma acquire_Inr:
  "acquire c l s = Inr s' \<Longrightarrow> locked (locks s l) = 0 \<and> locks s' = (locks s)(l := \<lparr>locked = 1, lcpu = Some c\<rparr>) \<and>
     cpus s' = (cpus s)(c := push_off (cpus s c))"
  by (auto simp: acquire_def Let_def set_lock_def set_cpu_def split: if_splits)

lemma release_Inr:
  "release c l s = Inr s' \<Longrightarrow> \<exists>x. holding c l s \<and> locks s' = (locks s)(l := \<lparr>locked = 0, lcpu = None\<rparr>) \<and>
     pop_off (cpus s c) = Inr x \<and> cpus s' = (cpus s)(c := x)"
  by (auto simp: release_def Let_def set_lock_def set_cpu_def bind_result_Inr_iff split: if_splits)

lemma lock_view_acquire:
  assumes v: "lock_view hs s" and a: "acquire c l s = Inr s'"
  shows "lock_view (hs(c := insert l (hs c))) s'"
proof -
  note s' = acquire_Inr [OF a]
  have "l \<notin> hs d" for d using v s' unfolding lock_view_def by blast
  with v s' show ?thesis unfolding lock_view_def by (auto simp: push_off_def Let_def) metis
qed

lemma lock_view_release:
  assumes v: "lock_view hs s" and r: "release c l s = Inr s'"
  shows "lock_view (hs(c := hs c - {l})) s'" "l \<in> hs c"
proof -
  obtain x where x: "holding c l s" "locks s' = (locks s)(l := \<lparr>locked = 0, lcpu = None\<rparr>)"
    "pop_off (cpus s c) = Inr x" "cpus s' = (cpus s)(c := x)" using release_Inr [OF r] by blast
  then obtain d where "l \<in> hs d" using v unfolding lock_view_def holding_def by blast
  moreover from this have "d = c" using v x(1) unfolding lock_view_def holding_def by auto
  ultimately show l: "l \<in> hs c" by simp
  have fin: "finite (hs c)" "noff (cpus s c) = int (card (hs c))" "\<not> sie (cpus s c)"
    using v l unfolding lock_view_def by auto
  have card: "card (hs c - {l}) = card (hs c) - 1" "0 < card (hs c)"
    using fin(1) l by (auto simp: card_gt_0_iff)
  have xs: "noff x = int (card (hs c - {l}))" "hs c - {l} \<noteq> {} \<Longrightarrow> \<not> sie x"
  proof -
    show n: "noff x = int (card (hs c - {l}))"
      using x(3) fin(2) card by (auto simp: pop_off_def Let_def of_nat_diff split: if_splits)
    show "\<not> sie x" if "hs c - {l} \<noteq> {}"
    proof -
      have "0 < card (hs c - {l})" using that fin(1) by (simp add: card_gt_0_iff)
      then show ?thesis using x(3) fin(2,3) card by (auto simp: pop_off_def Let_def split: if_splits)
    qed
  qed
  have other: "l \<notin> hs d" if "d \<noteq> c" for d using lock_view_excl [OF v l] that by blast
  show "lock_view (hs(c := hs c - {l})) s'"
    using v x(2,4) xs other fin(1) l unfolding lock_view_def by auto metis
qed

text \<open>Changes of the saved interrupt flag, and of the interrupt flag where no lock is held.\<close>

lemma lock_view_intena: "lock_view hs s \<Longrightarrow> lock_view hs (set_cpu c ((cpus s c)\<lparr>intena := b\<rparr>) s)"
  by (simp add: lock_view_def set_cpu_def)

lemma lock_view_sie: "lock_view hs s \<Longrightarrow> hs c = {} \<Longrightarrow> lock_view hs (set_cpu c ((cpus s c)\<lparr>sie := b\<rparr>) s)"
  by (simp add: lock_view_def set_cpu_def)


section \<open>Processes\<close>

text \<open>The indices a CPU works with are in range, and where in the code its process is no longer \<open>RUNNING\<close>.\<close>

fun ppc_ok :: "ppc \<Rightarrow> bool" where
  "ppc_ok (Wake_locked ch q) \<longleftrightarrow> q < NPROC"
| "ppc_ok (Other q) \<longleftrightarrow> q < NPROC"
| "ppc_ok (Reap q) \<longleftrightarrow> q < NPROC"
| "ppc_ok _ \<longleftrightarrow> True"

fun leaving :: "ppc \<Rightarrow> bool" where
  "leaving Exit_zombie \<longleftrightarrow> True"
| "leaving (In_sched k) \<longleftrightarrow> True"
| "leaving _ \<longleftrightarrow> False"

definition cpu_ok :: "machine \<Rightarrow> nat \<Rightarrow> bool" where
  "cpu_ok m c \<longleftrightarrow> (case mpc m c of
     Scan n \<Rightarrow> cproc m c = None
   | Picked n \<Rightarrow> n < NPROC \<and> cproc m c = None
   | Back n \<Rightarrow> n < NPROC \<and> mstate m n \<noteq> RUNNING
   | Proc p x \<Rightarrow> p < NPROC \<and> cproc m c = Some p \<and> ppc_ok x \<and> (mstate m p = RUNNING \<longleftrightarrow> \<not> leaving x))"

definition run_inv :: "machine \<Rightarrow> bool" where
  "run_inv m \<longleftrightarrow> (\<forall>c. cpu_ok m c) \<and>
     (\<forall>c d p x y. mpc m c = Proc p x \<and> mpc m d = Proc p y \<longrightarrow> c = d) \<and>
     (\<forall>p. mstate m p = RUNNING \<longrightarrow> (\<exists>c x. mpc m c = Proc p x))"

definition locks_inv :: "machine \<Rightarrow> bool" where
  "locks_inv m \<longleftrightarrow> lock_view (\<lambda>c. held_cpc (mpc m c)) (m_smp m)"

lemma leaving_held: "leaving x \<Longrightarrow> p \<in> held_ppc p x"
  by (cases x) auto

lemmas step_defs = goto_def set_state_def set_intena_def wake_one_def

lemma held_upd: "(\<lambda>d. held_cpc (((mpc m)(c := x)) d)) = (\<lambda>d. held_cpc (mpc m d))(c := held_cpc x)"
  by (simp add: fun_eq_iff)

lemma held_same: "held_cpc x = held_cpc (mpc m c) \<Longrightarrow> (\<lambda>d. held_cpc (((mpc m)(c := x)) d)) = (\<lambda>d. held_cpc (mpc m d))"
  by (simp add: fun_eq_iff)

lemma locks_inv_acquire:
  assumes "acquire c l (m_smp m) = Inr s" "locks_inv m" "mpc m' = mpc m" "m_smp m' = s"
    "held_cpc x = insert l (held_cpc (mpc m c))"
  shows "locks_inv (goto c x m')"
  using lock_view_acquire [of "\<lambda>d. held_cpc (mpc m d)" "m_smp m" c l s] assms
  by (simp add: locks_inv_def goto_def held_upd del: fun_upd_apply)

lemma locks_inv_release:
  assumes "release c l (m_smp m) = Inr s" "locks_inv m" "mpc m' = mpc m" "m_smp m' = s"
    "held_cpc x = held_cpc (mpc m c) - {l}"
  shows "locks_inv (goto c x m')"
  using lock_view_release(1) [of "\<lambda>d. held_cpc (mpc m d)" "m_smp m" c l s] assms
  by (simp add: locks_inv_def goto_def held_upd del: fun_upd_apply)

lemma locks_inv_keep:
  assumes "mpc m c = y" "locks_inv m" "mpc m' = mpc m" "m_smp m' = m_smp m" "held_cpc x = held_cpc y"
  shows "locks_inv (goto c x m')"
  using assms by (simp add: locks_inv_def goto_def held_same del: fun_upd_apply)

lemma run_inv_cpu: "run_inv m \<Longrightarrow> cpu_ok m c"
  by (simp add: run_inv_def)

lemma run_inv_proc:
  "run_inv m \<Longrightarrow> mpc m c = Proc p x \<Longrightarrow>
     p < NPROC \<and> cproc m c = Some p \<and> ppc_ok x \<and> (mstate m p = RUNNING \<longleftrightarrow> \<not> leaving x)"
  using run_inv_cpu [of m c] by (simp add: cpu_ok_def)

lemma run_inv_on: "run_inv m \<Longrightarrow> mstate m q = RUNNING \<Longrightarrow> \<exists>d z. mpc m d = Proc q z"
  by (simp add: run_inv_def)

lemma locks_inv_step:
  assumes "run_step m m'" "run_inv m" "locks_inv m"
  shows "locks_inv m'"
  using assms
proof (induction rule: run_step.induct)
  case (scan_again m c n)
  then have "lock_view (\<lambda>d. held_cpc (mpc m d)) (set_cpu c ((cpus (m_smp m) c)\<lparr>sie := False\<rparr>) (m_smp m))"
    by (intro lock_view_sie) (simp_all add: locks_inv_def)
  with scan_again show ?case
    by (simp add: locks_inv_def step_defs held_same del: fun_upd_apply)
next
  case (scan_switch m c n k b)
  then have v: "locks_inv (if k = K_forkret then m else set_intena c b m)"
    by (auto simp: locks_inv_def set_intena_def intro: lock_view_intena)
  have pc: "mpc (if k = K_forkret then m else set_intena c b m) c = Picked n"
    using scan_switch by (simp add: step_defs)
  show ?case by (rule locks_inv_keep [OF pc v]) (simp_all add: step_defs)
qed ((erule (1) locks_inv_acquire locks_inv_release locks_inv_keep; auto simp: step_defs cond_lock_def dest: run_inv_proc)
    | simp add: locks_inv_def step_defs)+


text \<open>A CPU other than \<open>c\<close> does not notice what \<open>c\<close> does, if only the process of \<open>c\<close> stops running.\<close>

lemma cpu_ok_other:
  assumes "cpu_ok m d" "mpc m' d = mpc m d" "cproc m' d = cproc m d"
    "\<And>q. mstate m' q = RUNNING \<Longrightarrow> mstate m q = RUNNING"
    "\<And>q z. mpc m d = Proc q z \<Longrightarrow> mstate m q = RUNNING \<Longrightarrow> mstate m' q = RUNNING"
  shows "cpu_ok m' d"
  using assms unfolding cpu_ok_def by (auto split: cpc.splits)

lemma run_inv_move:
  assumes pc0: "mpc m c = Proc p y" and inv: "run_inv m" and pc': "mpc m' = mpc m" "cproc m' = cproc m"
    and st: "\<And>q. q \<noteq> p \<Longrightarrow> mstate m' q = RUNNING \<longleftrightarrow> mstate m q = RUNNING"
    and x: "ppc_ok x" "mstate m' p = RUNNING \<longleftrightarrow> \<not> leaving x" "mstate m' p = RUNNING \<Longrightarrow> mstate m p = RUNNING"
  shows "run_inv (goto c (Proc p x) m')"
proof -
  let ?m = "goto c (Proc p x) m'"
  note pc = pc0 pc'
  have uniq: "mpc m d = Proc q z \<Longrightarrow> d \<noteq> c \<Longrightarrow> q \<noteq> p" for d q z using inv pc(1) unfolding run_inv_def by blast
  have "cpu_ok ?m d" for d
  proof (cases "d = c")
    case True
    then show ?thesis using run_inv_proc [OF inv pc(1)] pc x by (simp add: cpu_ok_def goto_def)
  next
    case False
    have "mstate m' q = RUNNING \<Longrightarrow> mstate m q = RUNNING" for q using st x(3) by (cases "q = p") auto
    with False show ?thesis using pc st uniq
      by (intro cpu_ok_other [OF run_inv_cpu [OF inv]]) (auto simp: goto_def)
  qed
  moreover have "\<exists>d z. mpc ?m d = Proc q z" if run: "mstate ?m q = RUNNING" for q
  proof (cases "q = p")
    case True
    then show ?thesis by (auto simp: goto_def)
  next
    case False
    then obtain d z where "mpc m d = Proc q z" using run st run_inv_on [OF inv, of q] by (auto simp: goto_def)
    then show ?thesis using False pc by (intro exI [of _ d]) (auto simp: goto_def)
  qed
  moreover have "mpc ?m a = Proc q v \<Longrightarrow> mpc ?m b = Proc q w \<Longrightarrow> a = b" for a b q v w
    using inv pc uniq unfolding run_inv_def goto_def by (auto split: if_splits)
  ultimately show ?thesis unfolding run_inv_def by blast
qed

text \<open>The scheduler moves on.\<close>

lemma run_inv_scan:
  assumes inv: "run_inv m" and pc: "mpc m' = mpc m" "mstate m' = mstate m"
    and c: "\<And>p y. mpc m c \<noteq> Proc p y" "\<And>p y. x \<noteq> Proc p y" "\<And>d. d \<noteq> c \<Longrightarrow> cproc m' d = cproc m d"
      "cpu_ok (goto c x m') c"
  shows "run_inv (goto c x m')"
proof -
  have "cpu_ok (goto c x m') d" for d
    using c(3,4) pc run_inv_cpu [OF inv, of d] by (cases "d = c") (auto simp: cpu_ok_def goto_def split: cpc.splits)
  then show ?thesis using inv pc c(1,2) unfolding run_inv_def goto_def by (auto split: if_splits) metis
qed

text \<open>A process that does not run changes its state to another one in which it does not.\<close>

lemma run_inv_state:
  assumes "run_inv m" "mpc m' = mpc m" "cproc m' = cproc m"
    "\<And>q. mstate m' q = RUNNING \<longleftrightarrow> mstate m q = RUNNING"
  shows "run_inv m'"
  using assms unfolding run_inv_def cpu_ok_def by (simp cong: cpc.case_cong)

text \<open>The two switches between the scheduler and a process.\<close>

lemma run_inv_to_proc:
  assumes inv: "run_inv m" and l: "locks_inv m" and c: "mpc m c = Picked n" "mstate m n = RUNNABLE"
    and m': "mpc m' = mpc m" "cproc m' = (cproc m)(c := Some n)" "mstate m' = (mstate m)(n := RUNNING)"
  shows "run_inv (goto c (Proc n (Resumed k)) m')"
proof -
  let ?m = "goto c (Proc n (Resumed k)) m'"
  have n: "n < NPROC" using run_inv_cpu [OF inv, of c] c by (simp add: cpu_ok_def)
  have excl: "n \<notin> held_cpc (mpc m d)" if "d \<noteq> c" for d
    using that l c(1) lock_view_excl [of "\<lambda>d. held_cpc (mpc m d)" _ n c d] by (auto simp: locks_inv_def)
  have other: "q \<noteq> n" if "mpc m d = Proc q z" for d q z
  proof
    assume "q = n"
    then have "leaving z" using run_inv_proc [OF inv that] c(2) by auto
    then show False using leaving_held [of z n] excl [of d] that c(1) \<open>q = n\<close> by (cases "d = c") auto
  qed
  have "cpu_ok ?m d" for d
  proof (cases "d = c")
    case True
    then show ?thesis using n m' by (simp add: cpu_ok_def goto_def)
  next
    case False
    then show ?thesis using run_inv_cpu [OF inv, of d] excl [of d] other [of d] m'
      by (auto simp: cpu_ok_def goto_def split: cpc.splits)
  qed
  moreover have "\<exists>d z. mpc ?m d = Proc q z" if run: "mstate ?m q = RUNNING" for q
  proof (cases "q = n")
    case True
    then show ?thesis by (auto simp: goto_def)
  next
    case False
    then obtain d z where "mpc m d = Proc q z" using run m' run_inv_on [OF inv, of q] by (auto simp: goto_def)
    then show ?thesis using False m' c by (intro exI [of _ d]) (auto simp: goto_def)
  qed
  moreover have "mpc ?m a = Proc q v \<Longrightarrow> mpc ?m b = Proc q w \<Longrightarrow> a = b" for a b q v w
    using inv m' other unfolding run_inv_def goto_def by (auto split: if_splits)
  ultimately show ?thesis unfolding run_inv_def by blast
qed

lemma run_inv_to_sched:
  assumes inv: "run_inv m" and c: "mpc m c = Proc p (In_sched k)"
    and m': "mpc m' = mpc m" "cproc m' = cproc m" "mstate m' = mstate m"
  shows "run_inv (goto c (Back p) m')"
proof -
  have p: "p < NPROC" "mstate m p \<noteq> RUNNING" using run_inv_proc [OF inv c] by auto
  have "cpu_ok (goto c (Back p) m') d" for d
    using run_inv_cpu [OF inv, of d] p m' by (cases "d = c") (auto simp: cpu_ok_def goto_def split: cpc.splits)
  then show ?thesis using inv p m' c unfolding run_inv_def goto_def by (auto split: if_splits) (metis cpc.inject(4))
qed

lemma run_inv_step:
  assumes "run_step m m'" "run_inv m" "locks_inv m"
  shows "run_inv m'"
  using assms
proof (induction rule: run_step.induct)
  case (scan_switch m c n k b)
  then show ?case by (intro run_inv_to_proc [where m = m]) (simp_all add: step_defs)
next
  case (swtch m c p k)
  then show ?case by (intro run_inv_to_sched [where m = m and k = k]) (simp_all add: step_defs)
next
  case (scan_again m c n)
  then show ?case by (intro run_inv_scan [where m = m]) (auto simp: cpu_ok_def goto_def dest: run_inv_cpu [of _ c])
next
  case (scan_lock m c n s)
  then show ?case using run_inv_cpu [of m c] by (intro run_inv_scan [where m = m]) (auto simp: cpu_ok_def goto_def)
next
  case (scan_skip m c n s)
  then show ?case using run_inv_cpu [of m c] by (intro run_inv_scan [where m = m]) (auto simp: cpu_ok_def goto_def)
next
  case (scan_back m c n s)
  then show ?case using run_inv_cpu [of m c] by (intro run_inv_scan [where m = m]) (auto simp: cpu_ok_def goto_def)
next
  case (lock_cond m c p s)
  then show ?case by (elim disjE) (auto intro!: run_inv_move [where m = m] dest: run_inv_proc)
qed ((frule (1) run_inv_proc [rotated], erule (1) run_inv_move; auto simp: step_defs)
    | (erule run_inv_state; auto simp: step_defs))+

section \<open>Sleep and wakeup\<close>

text \<open>A process waits for \<open>ch\<close> from the moment \<open>sleep\<close> gives up the condition lock; a \<open>wakeup\<close> that is not
  past it yet covers it.\<close>

definition pending :: "machine \<Rightarrow> nat \<Rightarrow> chan \<Rightarrow> bool" where
  "pending m p ch \<longleftrightarrow> p < NPROC \<and>
     (mstate m p = SLEEPING \<and> mchan m p = Some ch \<or> (\<exists>c. mpc m c = Proc p (Sleep_own ch)))"

definition covered :: "machine \<Rightarrow> nat \<Rightarrow> chan \<Rightarrow> bool" where
  "covered m p ch \<longleftrightarrow>
     (\<exists>c w r. r \<le> p \<and> (mpc m c = Proc w (Waking ch r) \<or> mpc m c = Proc w (Wake_locked ch r)))"

definition sleep_inv :: "machine \<Rightarrow> bool" where
  "sleep_inv m \<longleftrightarrow> (\<forall>c p ch. mpc m c = Proc p (Sleep_both ch) \<longrightarrow> \<not> cond m ch) \<and>
     (\<forall>p ch. pending m p ch \<and> cond m ch \<longrightarrow> covered m p ch)"

text \<open>Steps of a CPU that is neither in \<open>sleep\<close> nor in \<open>wakeup\<close>.\<close>

fun plain :: "cpc \<Rightarrow> bool" where
  "plain (Proc p (Sleep_both ch)) \<longleftrightarrow> False"
| "plain (Proc p (Sleep_own ch)) \<longleftrightarrow> False"
| "plain (Proc p (Waking ch r)) \<longleftrightarrow> False"
| "plain (Proc p (Wake_locked ch r)) \<longleftrightarrow> False"
| "plain _ \<longleftrightarrow> True"

lemma sleep_inv_same:
  assumes inv: "sleep_inv m" and m': "mpc m' = mpc m" "\<And>ch. cond m' ch \<Longrightarrow> cond m ch"
    "\<And>p ch. mstate m' p = SLEEPING \<Longrightarrow> mchan m' p = Some ch \<Longrightarrow> mstate m p = SLEEPING \<and> mchan m p = Some ch"
  shows "sleep_inv m'"
  using inv m' unfolding sleep_inv_def pending_def covered_def by metis

lemma sleep_inv_plain:
  assumes c: "mpc m c = y" and inv: "sleep_inv m" and y: "plain y" "plain x"
    and m': "mpc m' = mpc m" "\<And>ch. cond m' ch \<Longrightarrow> cond m ch"
    "\<And>p ch. mstate m' p = SLEEPING \<Longrightarrow> mchan m' p = Some ch \<Longrightarrow> mstate m p = SLEEPING \<and> mchan m p = Some ch"
  shows "sleep_inv (goto c x m')"
proof -
  let ?m = "goto c x m'"
  have "covered ?m p ch" if cov: "covered m p ch" for p ch
  proof -
    obtain d w r where d: "r \<le> p" "mpc m d = Proc w (Waking ch r) \<or> mpc m d = Proc w (Wake_locked ch r)"
      using cov unfolding covered_def by blast
    then have "d \<noteq> c" using c y(1) by auto
    then have "mpc ?m d = mpc m d" using m'(1) by (simp add: goto_def)
    with d show ?thesis unfolding covered_def by metis
  qed
  moreover have "pending m p ch" if "pending ?m p ch" for p ch
    using that y(2) m' unfolding pending_def goto_def by (auto split: if_splits)
  moreover have "\<not> cond ?m ch" if "mpc ?m d = Proc p (Sleep_both ch)" for d p ch
    using that y(2) m'(1) m'(2) [of ch] inv unfolding sleep_inv_def goto_def by (auto split: if_splits)
  moreover have "cond ?m ch \<Longrightarrow> cond m ch" for ch using m'(2) by (simp add: goto_def)
  ultimately show ?thesis using inv unfolding sleep_inv_def by blast
qed

lemma holds_cond_alone:
  assumes "locks_inv m" "cond_lock \<in> held_cpc (mpc m c)" "cond_lock \<in> held_cpc (mpc m d)"
  shows "c = d"
  using assms lock_view_excl [of "\<lambda>d. held_cpc (mpc m d)" "m_smp m" cond_lock c d] by (simp add: locks_inv_def)

text \<open>While one CPU holds the condition lock, any \<open>wakeup\<close> in progress is its own.\<close>

lemma covered_by:
  assumes "locks_inv m" "cond_lock \<in> held_cpc (mpc m c)" "covered m p ch"
  shows "\<exists>w r. r \<le> p \<and> (mpc m c = Proc w (Waking ch r) \<or> mpc m c = Proc w (Wake_locked ch r))"
proof -
  obtain d w r where d: "r \<le> p" "mpc m d = Proc w (Waking ch r) \<or> mpc m d = Proc w (Wake_locked ch r)"
    using assms(3) unfolding covered_def by blast
  then have "c = d" by (intro holds_cond_alone [OF assms(1,2)]) auto
  with d show ?thesis by blast
qed

text \<open>A \<open>wakeup\<close> moves on from \<open>r\<close> to \<open>r'\<close>: what it passes over is not waiting any more.\<close>

lemma sleep_inv_wake:
  assumes l: "locks_inv m" and inv: "sleep_inv m"
    and c: "mpc m c = Proc p y" "y = Waking ch r \<or> y = Wake_locked ch r"
    and x: "x = Waking ch r' \<or> x = Wake_locked ch r' \<or> NPROC \<le> r' \<and> plain (Proc p x)"
    and m': "mpc m' = mpc m" "cond m' = cond m"
      "\<And>q ch'. mstate m' q = SLEEPING \<Longrightarrow> mchan m' q = Some ch' \<Longrightarrow> mstate m q = SLEEPING \<and> mchan m q = Some ch'"
    and pass: "\<And>q. r \<le> q \<Longrightarrow> q < r' \<Longrightarrow> pending (goto c (Proc p x) m') q ch \<Longrightarrow> False"
  shows "sleep_inv (goto c (Proc p x) m')"
proof -
  let ?m = "goto c (Proc p x) m'"
  have held: "cond_lock \<in> held_cpc (mpc m c)" using c by auto
  have pend: "pending m q ch'" if "pending ?m q ch'" for q ch'
    using that x m' unfolding pending_def goto_def by (auto split: if_splits)
  have "covered ?m q ch'" if q: "pending ?m q ch'" "cond ?m ch'" for q ch'
  proof -
    have "covered m q ch'" using inv pend [OF q(1)] q(2) m'(2) unfolding sleep_inv_def goto_def by simp
    then have *: "ch' = ch" "r \<le> q" using covered_by [OF l held] c by auto
    then have "r' \<le> q" using pass [of q] q(1) by force
    moreover have "q < NPROC" using q(1) by (simp add: pending_def)
    ultimately show ?thesis using x * unfolding covered_def goto_def by auto
  qed
  moreover have "\<not> cond ?m ch'" if "mpc ?m d = Proc q (Sleep_both ch')" for d q ch'
    using that x m' inv unfolding sleep_inv_def goto_def by (auto split: if_splits)
  ultimately show ?thesis unfolding sleep_inv_def by blast
qed

lemma sleep_inv_step:
  assumes "run_step m m'" "run_inv m" "locks_inv m" "sleep_inv m"
  shows "sleep_inv m'"
  using assms
proof (induction rule: run_step.induct)
  case (sleep_lock m c p ch s)
  let ?m = "goto c (Proc p (Sleep_both ch)) (m\<lparr>m_smp := s\<rparr>)"
  have "pending m q ch'" if "pending ?m q ch'" for q ch'
    using that unfolding pending_def goto_def by (auto split: if_splits)
  moreover have "\<not> covered m q ch'" for q ch'
    using covered_by [of m c q ch'] sleep_lock by auto
  moreover have "\<not> cond ?m ch'" if "mpc ?m d = Proc q (Sleep_both ch')" for d q ch'
    using that sleep_lock unfolding sleep_inv_def goto_def by (auto split: if_splits)
  moreover have "cond ?m = cond m" by (simp add: goto_def)
  ultimately show ?case using sleep_lock.prems(3) unfolding sleep_inv_def by metis
next
  case (sleep_unlock m c p ch s)
  let ?m = "goto c (Proc p (Sleep_own ch)) (m\<lparr>m_smp := s\<rparr>)"
  have "pending m q ch' \<or> ch' = ch" if "pending ?m q ch'" for q ch'
    using that unfolding pending_def goto_def by (auto split: if_splits)
  moreover have "\<not> cond m ch" using sleep_unlock unfolding sleep_inv_def by blast
  moreover have "\<not> covered m q ch'" for q ch'
    using covered_by [of m c q ch'] sleep_unlock by auto
  moreover have "\<not> cond ?m ch'" if "mpc ?m d = Proc q (Sleep_both ch')" for d q ch'
    using that sleep_unlock unfolding sleep_inv_def goto_def by (auto split: if_splits)
  moreover have "cond ?m = cond m" by (simp add: goto_def)
  ultimately show ?case using sleep_unlock.prems(3) unfolding sleep_inv_def by metis
next
  case (sleep_set m c p ch)
  let ?m = "goto c (Proc p (In_sched K_sleep)) (set_state p SLEEPING (m\<lparr>mchan := (mchan m)(p := Some ch)\<rparr>))"
  have "pending m q ch'" if "pending ?m q ch'" for q ch'
    using that sleep_set run_inv_proc [of m c p] unfolding pending_def step_defs by (auto split: if_splits)
  moreover have "covered ?m q ch'" if cov: "covered m q ch'" for q ch'
  proof -
    obtain d w r where d: "r \<le> q" "mpc m d = Proc w (Waking ch' r) \<or> mpc m d = Proc w (Wake_locked ch' r)"
      using cov unfolding covered_def by blast
    then have "mpc ?m d = mpc m d" using sleep_set by (auto simp: step_defs)
    with d show ?thesis unfolding covered_def by metis
  qed
  moreover have "\<not> cond ?m ch'" if "mpc ?m d = Proc q (Sleep_both ch')" for d q ch'
    using that sleep_set unfolding sleep_inv_def step_defs by (auto split: if_splits)
  moreover have "cond ?m = cond m" by (simp add: step_defs)
  ultimately show ?case using sleep_set.prems(3) unfolding sleep_inv_def by metis
next
  case (wake_start m c p ch)
  let ?m = "goto c (Proc p (Waking ch 0)) (m\<lparr>cond := (cond m)(ch := True)\<rparr>)"
  have held: "cond_lock \<in> held_cpc (mpc m c)" using wake_start by simp
  have "pending m q ch'" if "pending ?m q ch'" for q ch'
    using that unfolding pending_def goto_def by (auto split: if_splits)
  moreover have "\<not> covered m q ch'" for q ch'
    using covered_by [OF wake_start.prems(2) held] wake_start by auto
  moreover have "covered ?m q ch" for q unfolding covered_def goto_def by auto
  moreover have "\<not> cond ?m ch'" if "mpc ?m d = Proc q (Sleep_both ch')" for d q ch'
    using holds_cond_alone [OF wake_start.prems(2) held, of d] that
    by (cases "d = c") (auto simp: goto_def)
  moreover have "cond ?m = (cond m)(ch := True)" by (simp add: goto_def)
  ultimately show ?case using wake_start.prems(3) unfolding sleep_inv_def by (metis fun_upd_other)
next
  case (wake_self m c p ch)
  have "\<not> pending (goto c (Proc p (Waking ch (Suc p))) m) p ch"
    using run_inv_proc [OF wake_self.prems(1) wake_self.hyps] wake_self unfolding run_inv_def pending_def goto_def
    by (auto split: if_splits)
  then show ?case
    by (intro sleep_inv_wake [OF wake_self.prems(2,3) wake_self.hyps(1), where r = p and r' = "Suc p" and ch = ch])
      (auto simp: less_Suc_eq dest: le_less_trans)
next
  case (wake_lock m c p ch q s)
  then show ?case
    by (intro sleep_inv_wake [where m = m and r = q and r' = q and ch = ch]) auto
next
  case (wake_unlock m c p ch q s)
  have "mpc m d \<noteq> Proc q (Sleep_own ch)" if "d \<noteq> c" for d
    using wake_unlock lock_view_excl [of "\<lambda>d. held_cpc (mpc m d)" "m_smp m" q c d] that
    by (auto simp: locks_inv_def)
  then have "\<not> pending (goto c (Proc p (Waking ch (Suc q))) ((wake_one ch q m)\<lparr>m_smp := s\<rparr>)) q ch"
    unfolding pending_def step_defs by (auto split: if_splits)
  moreover have "q' = q" if "q \<le> q'" "q' < Suc q" for q' using that by linarith
  ultimately have pass: "\<not> pending (goto c (Proc p (Waking ch (Suc q))) ((wake_one ch q m)\<lparr>m_smp := s\<rparr>)) q' ch"
    if "q \<le> q'" "q' < Suc q" for q' using that by metis
  show ?case
    by (intro sleep_inv_wake [OF wake_unlock.prems(2,3) wake_unlock.hyps(1), where r = q and r' = "Suc q" and ch = ch])
      (use pass in \<open>auto simp: wake_one_def set_state_def split: if_splits\<close>)
next
  case (wake_end m c p ch q)
  then show ?case
    by (intro sleep_inv_wake [where m = m and r = q and r' = q and ch = ch]) auto
next
  case (lock_cond m c p s)
  then show ?case by (elim disjE) (auto elim!: sleep_inv_plain)
qed ((erule (1) sleep_inv_plain; auto simp: step_defs split: if_splits)
    | (rule sleep_inv_same, assumption; auto simp: step_defs split: if_splits))+

section \<open>Exit\<close>

text \<open>The thread of a process that has called \<open>kexit\<close> is never resumed.\<close>

definition exit_inv :: "machine \<Rightarrow> bool" where
  "exit_inv m \<longleftrightarrow> (\<forall>p. fst (saved m p) = K_exit \<longrightarrow> mstate m p = ZOMBIE \<or> mstate m p = UNUSED) \<and>
     (\<forall>c p. mpc m c = Proc p Exit_zombie \<or> mpc m c = Proc p (In_sched K_exit) \<longrightarrow> mstate m p = ZOMBIE) \<and>
     (\<forall>c p. mpc m c \<noteq> Proc p (Resumed K_exit))"

lemma exit_inv_step:
  assumes "run_step m m'" "run_inv m" "locks_inv m" "exit_inv m"
  shows "exit_inv m'"
  using assms
proof (induction rule: run_step.induct)
  case (reap_free m c p q)
  have "mpc m d \<noteq> Proc q Exit_zombie \<and> mpc m d \<noteq> Proc q (In_sched K_exit)" for d
    using reap_free lock_view_excl [of "\<lambda>d. held_cpc (mpc m d)" "m_smp m" q c d] by (auto simp: locks_inv_def)
  with reap_free show ?case unfolding exit_inv_def step_defs by auto
next
  case (exit_set m c p)
  then show ?case using run_inv_proc [OF exit_set.prems(1) exit_set.hyps] unfolding exit_inv_def step_defs
    by auto
next
  case (yield_set m c p)
  then show ?case using run_inv_proc [OF yield_set.prems(1) yield_set.hyps] unfolding exit_inv_def step_defs run_inv_def
    by auto
next
  case (sleep_set m c p ch)
  then show ?case using run_inv_proc [OF sleep_set.prems(1) sleep_set.hyps] unfolding exit_inv_def step_defs run_inv_def
    by auto
next
  case (scan_switch m c n k b)
  then have "k \<noteq> K_exit" unfolding exit_inv_def by (metis fst_conv procstate.distinct)
  with scan_switch show ?case by (auto simp: exit_inv_def step_defs)
qed (auto simp: exit_inv_def step_defs split: if_splits)

section \<open>Reachable machines\<close>

text \<open>After \<open>procinit\<close> and \<open>userinit\<close>: every CPU is about to enter \<open>scheduler\<close> and \<open>proc[0]\<close> is runnable.\<close>

definition initial_machine :: "machine \<Rightarrow> bool" where
  "initial_machine m \<longleftrightarrow>
     (\<forall>l. locks (m_smp m) l = initlock) \<and> (\<forall>c. noff (cpus (m_smp m) c) = 0) \<and>
     mpc m = (\<lambda>_. Scan 0) \<and> cproc m = (\<lambda>_. None) \<and>
     mstate m = (\<lambda>_. UNUSED)(0 := RUNNABLE) \<and> fst (saved m 0) = K_forkret"

definition machine_inv :: "machine \<Rightarrow> bool" where
  "machine_inv m \<longleftrightarrow> run_inv m \<and> locks_inv m \<and> sleep_inv m \<and> exit_inv m"

lemma machine_inv_initial: "initial_machine m \<Longrightarrow> machine_inv m"
  by (auto simp: machine_inv_def initial_machine_def run_inv_def cpu_ok_def locks_inv_def lock_view_def
      sleep_inv_def pending_def exit_inv_def initlock_def)

lemma machine_inv_steps: "run_step\<^sup>*\<^sup>* m m' \<Longrightarrow> machine_inv m \<Longrightarrow> machine_inv m'"
  by (induction rule: rtranclp_induct)
    (auto simp: machine_inv_def intro: run_inv_step locks_inv_step sleep_inv_step exit_inv_step)

lemma machine_inv_reachable: "initial_machine m0 \<Longrightarrow> run_step\<^sup>*\<^sup>* m0 m \<Longrightarrow> machine_inv m"
  using machine_inv_steps machine_inv_initial by blast

lemma sched_ok:
  assumes "machine_inv m" "mpc m c = Proc p (In_sched k)"
  shows "sched c p m = Inr ()"
proof -
  have "p \<in> held_cpc (mpc m c)" "held_cpc (mpc m c) = {p}" using assms(2) by auto
  then have "holding c p (m_smp m)" "noff (cpus (m_smp m) c) = 1" "\<not> sie (cpus (m_smp m) c)"
    using assms(1) unfolding machine_inv_def locks_inv_def lock_view_def holding_def by auto
  moreover have "mstate m p \<noteq> RUNNING" using run_inv_proc [OF _ assms(2)] assms(1) by (auto simp: machine_inv_def)
  ultimately show ?thesis by (simp add: sched_def)
qed

lemma release_ok:
  assumes "machine_inv m" "l \<in> held_cpc (mpc m c)"
  shows "\<exists>s. release c l (m_smp m) = Inr s"
proof -
  have v: "lock_view (\<lambda>d. held_cpc (mpc m d)) (m_smp m)" using assms(1) by (simp add: machine_inv_def locks_inv_def)
  then have "holding c l (m_smp m)" "\<not> sie (cpus (m_smp m) c)"
    "noff (cpus (m_smp m) c) = int (card (held_cpc (mpc m c)))"
    using assms(2) unfolding lock_view_def holding_def by auto
  moreover have "1 \<le> card (held_cpc (mpc m c))" using assms(2) by (simp add: Suc_le_eq card_gt_0_iff) auto
  ultimately show ?thesis using assms(2) by (auto simp: release_def pop_off_def Let_def)
qed

lemma acquire_cases:
  assumes "machine_inv m" "l \<notin> held_cpc (mpc m c)"
  shows "(\<exists>s. acquire c l (m_smp m) = Inr s) \<or>
    acquire c l (m_smp m) = Inl (Blocked ''spin'') \<and> (\<exists>d. d \<noteq> c \<and> l \<in> held_cpc (mpc m d))"
proof -
  have v: "lock_view (\<lambda>d. held_cpc (mpc m d)) (m_smp m)" using assms(1) by (simp add: machine_inv_def locks_inv_def)
  have "\<not> holding c l (m_smp m)" 
  proof
    assume h: "holding c l (m_smp m)"
    then obtain d where "l \<in> held_cpc (mpc m d)" using v unfolding lock_view_def holding_def by blast
    with h v assms(2) show False unfolding lock_view_def holding_def by (metis option.inject)
  qed
  moreover have "\<exists>d. d \<noteq> c \<and> l \<in> held_cpc (mpc m d)" if "locked (locks (m_smp m) l) \<noteq> 0"
    using v that assms(2) unfolding lock_view_def by metis
  ultimately show ?thesis by (auto simp: acquire_def holding_def Let_def)
qed

text \<open>A CPU that holds the lock of a process goes on without taking another one.\<close>

definition moves :: "machine \<Rightarrow> nat \<Rightarrow> bool" where
  "moves m c \<longleftrightarrow> (\<exists>m'. run_step m m' \<and> mpc m' c \<noteq> mpc m c)"

lemma movesI: "run_step m (goto c x m') \<Longrightarrow> x \<noteq> mpc m c \<Longrightarrow> moves m c"
  unfolding moves_def by (intro exI [of _ "goto c x m'"]) (simp add: goto_def)

lemma release_moves:
  assumes "machine_inv m" "l \<in> held_cpc (mpc m c)"
    "\<And>s. release c l (m_smp m) = Inr s \<Longrightarrow> run_step m (goto c x (m' s))" "x \<noteq> mpc m c"
  shows "moves m c"
  using release_ok [OF assms(1,2)] assms(3,4) movesI by blast

lemma proc_lock_moves:
  assumes inv: "machine_inv m" and q: "q \<in> held_cpc (mpc m c)" "q \<noteq> cond_lock"
  shows "moves m c"
proof (cases "mpc m c")
  case (Scan n)
  then show ?thesis using q by simp
next
  case (Picked n)
  show ?thesis
  proof (cases "mstate m n = RUNNABLE")
    case True
    obtain k b where "saved m n = (k, b)" by fastforce
    from scan_switch [OF Picked True this] Picked show ?thesis by (auto intro: movesI)
  next
    case False
    from scan_skip [OF Picked False] Picked show ?thesis by (intro release_moves [OF inv, of n]) auto
  qed
next
  case (Back n)
  from scan_back [OF this] Back show ?thesis by (intro release_moves [OF inv, of n]) auto
next
  case (Proc p x)
  show ?thesis
  proof (cases x)
    case (In_sched k)
    with Proc have pc: "mpc m c = Proc p (In_sched k)" by simp
    from swtch [OF pc sched_ok [OF inv pc]] pc show ?thesis by (auto intro: movesI)
  next
    case (Resumed k)
    with Proc have pc: "mpc m c = Proc p (Resumed k)" by simp
    then have "k \<noteq> K_exit" using inv unfolding machine_inv_def exit_inv_def by auto
    then consider "k = K_sleep" | "k = K_yield \<or> k = K_forkret" by (cases k) auto
    then show ?thesis
    proof cases
      case 1
      with pc resume_sleep [of m c p] show ?thesis by (intro release_moves [OF inv, of p]) auto
    next
      case 2
      with pc resume [OF pc] show ?thesis by (intro release_moves [OF inv, of p]) auto
    qed
  next
    case (Other r)
    with Proc other_unlock [of m c p r] show ?thesis by (intro release_moves [OF inv, of r]) auto
  next
    case (Reap r)
    with Proc reap_unlock [of m c p r] show ?thesis by (intro release_moves [OF inv, of r]) auto
  next
    case (Wake_locked ch r)
    with Proc wake_unlock [of m c p ch r] show ?thesis by (intro release_moves [OF inv, of r]) auto
  next
    case (Sleep_both ch)
    with Proc sleep_unlock [of m c p ch] show ?thesis by (intro release_moves [OF inv, of cond_lock]) auto
  next
    case Exit_zombie
    with Proc exit_unlock [of m c p] show ?thesis by (intro release_moves [OF inv, of cond_lock]) auto
  qed (use q Proc in \<open>auto intro: movesI yield_set sleep_set exit_set\<close>)
qed

lemma cond_lock_moves:
  assumes inv: "machine_inv m" and c: "cond_lock \<in> held_cpc (mpc m c)"
  shows "\<exists>d. held_cpc (mpc m d) \<noteq> {} \<and> moves m d"
proof -
  have "\<exists>p x. mpc m c = Proc p x"
    using inv c run_inv_cpu [of m c] by (auto simp: machine_inv_def cpu_ok_def cond_lock_def split: cpc.splits)
  then obtain p x where px: "mpc m c = Proc p x" by blast
  then have "p \<noteq> cond_lock" "ppc_ok x" using run_inv_proc [OF _ px] inv by (auto simp: machine_inv_def cond_lock_def)
  then have "x = Holds \<or> (\<exists>ch q. x = Waking ch q) \<or> held_cpc (mpc m c) - {cond_lock} \<noteq> {}"
    using px c by (cases x) (simp_all add: insert_Diff_if cond_lock_def)
  then consider "x = Holds" | ch q where "x = Waking ch q" | q where "q \<noteq> cond_lock" "q \<in> held_cpc (mpc m c)" by blast
  then show ?thesis
  proof cases
    case 1
    with px unlock_cond [of m c p] have "moves m c" by (intro release_moves [OF inv, of cond_lock]) auto
    with c show ?thesis by blast
  next
    case 2
    then have pc: "mpc m c = Proc p (Waking ch q)" using px by simp
    consider "q = p" | "NPROC \<le> q" | "q \<noteq> p" "q < NPROC" by linarith
    then show ?thesis
    proof cases
      case 1
      with pc have "moves m c" using movesI [OF wake_self [of m c p ch]] by auto
      with c show ?thesis by blast
    next
      case 2
      with pc have "moves m c" using movesI [OF wake_end [OF pc]] by auto
      with c show ?thesis by blast
    next
      case 3
      then have "q \<notin> held_cpc (mpc m c)" using pc by (auto simp: cond_lock_def)
      from acquire_cases [OF inv this] have "moves m c \<or> (\<exists>d. q \<in> held_cpc (mpc m d) \<and> moves m d)"
        using movesI [OF wake_lock [OF pc 3(2,1)]] pc proc_lock_moves [OF inv, of q] 3(2)
        by (auto simp: cond_lock_def)
      with c show ?thesis by blast
    qed
  next
    case 3
    then show ?thesis using proc_lock_moves [OF inv] by blast
  qed
qed

section \<open>An execution\<close>

text \<open>One CPU runs process 0 until it sleeps for the next clock tick, with every other condition true.\<close>

definition machine0 :: machine where
  "machine0 = \<lparr>m_smp = \<lparr>locks = (\<lambda>_. initlock), cpus = (\<lambda>_. \<lparr>noff = 0, intena = False, sie = False\<rparr>)\<rparr>,
     cproc = (\<lambda>_. None), mstate = (\<lambda>_. UNUSED)(0 := RUNNABLE), mchan = (\<lambda>_. None), mpc = (\<lambda>_. Scan 0),
     saved = (\<lambda>_. (K_forkret, False)), cond = (\<lambda>ch. ch \<noteq> Chan_ticks)\<rparr>"

lemma machine0_initial: "initial_machine machine0"
  by (simp add: initial_machine_def machine0_def)

lemmas exec_simps = goto_def set_state_def acquire_def release_def holding_def push_off_def pop_off_def
  set_cpu_def set_lock_def Let_def initlock_def cond_lock_def NPROC_def fun_eq_iff machine0_def

lemma run_step_eq: "run_step m a \<Longrightarrow> a = b \<Longrightarrow> run_step m b"
  by simp

lemma machine0_sleeps:
  "\<exists>m. run_step\<^sup>*\<^sup>* machine0 m \<and> mpc m 0 = Proc 0 (In_sched K_sleep) \<and> mpc m 1 = Scan 0 \<and>
     mstate m 0 = SLEEPING \<and> mchan m 0 = Some Chan_ticks \<and> cond m = (\<lambda>ch. ch \<noteq> Chan_ticks) \<and>
     locked (locks (m_smp m) cond_lock) = 0 \<and> locked (locks (m_smp m) 0) = 1"
proof -
  let ?c0 = "\<lparr>noff = 0, intena = False, sie = False\<rparr>" and ?c1 = "\<lparr>noff = 1, intena = False, sie = False\<rparr>"
  let ?c2 = "\<lparr>noff = 2, intena = False, sie = False\<rparr>" and ?l = "\<lparr>locked = 1, lcpu = Some 0\<rparr>"
  let ?m = "\<lambda>n ls x. machine0\<lparr>m_smp := \<lparr>locks = (\<lambda>l. if l \<in> ls then ?l else initlock), cpus = (\<lambda>_. ?c0)(0 := n)\<rparr>,
     mpc := (\<lambda>_. Scan 0)(0 := x)\<rparr>"
  let ?r = "\<lambda>n ls x. (?m n ls x)\<lparr>cproc := (\<lambda>_. None)(0 := Some 0), mstate := (\<lambda>_. UNUSED)(0 := RUNNING)\<rparr>"
  let ?z = "(?m ?c1 {0} (Proc 0 (In_sched K_sleep)))\<lparr>cproc := (\<lambda>_. None)(0 := Some 0),
     mstate := (\<lambda>_. UNUSED)(0 := SLEEPING), mchan := (\<lambda>_. None)(0 := Some Chan_ticks)\<rparr>"
  have "run_step machine0 (?m ?c1 {0} (Picked 0))"
    by (rule run_step_eq [OF scan_lock [where c = 0 and n = 0 and s = "m_smp (?m ?c1 {0} (Picked 0))"]]) (simp_all add: exec_simps)
  moreover have "run_step (?m ?c1 {0} (Picked 0)) (?r ?c1 {0} (Proc 0 (Resumed K_forkret)))"
    by (rule run_step_eq [OF scan_switch [where c = 0 and n = 0 and k = K_forkret and b = False]]) (simp_all add: exec_simps)
  moreover have "run_step (?r ?c1 {0} (Proc 0 (Resumed K_forkret))) (?r ?c0 {} (Proc 0 Free))"
    by (rule run_step_eq [OF resume [where c = 0 and p = 0 and k = K_forkret and s = "m_smp (?r ?c0 {} (Proc 0 Free))"]]) (simp_all add: exec_simps)
  moreover have "run_step (?r ?c0 {} (Proc 0 Free)) (?r ?c1 {cond_lock} (Proc 0 Holds))"
    by (rule run_step_eq [OF lock_cond [where c = 0 and p = 0 and s = "m_smp (?r ?c1 {cond_lock} (Proc 0 Holds))"]]) (simp_all add: exec_simps)
  moreover have "run_step (?r ?c1 {cond_lock} (Proc 0 Holds)) (?r ?c2 {0, cond_lock} (Proc 0 (Sleep_both Chan_ticks)))"
    by (rule run_step_eq [OF sleep_lock [where c = 0 and p = 0 and ch = Chan_ticks and s = "m_smp (?r ?c2 {0, cond_lock} (Scan 0))"]]) (simp_all add: exec_simps)
  moreover have "run_step (?r ?c2 {0, cond_lock} (Proc 0 (Sleep_both Chan_ticks))) (?r ?c1 {0} (Proc 0 (Sleep_own Chan_ticks)))"
    by (rule run_step_eq [OF sleep_unlock [where c = 0 and p = 0 and ch = Chan_ticks and s = "m_smp (?r ?c1 {0} (Scan 0))"]]) (simp_all add: exec_simps)
  moreover have "run_step (?r ?c1 {0} (Proc 0 (Sleep_own Chan_ticks))) ?z"
    by (rule run_step_eq [OF sleep_set [where c = 0 and p = 0 and ch = Chan_ticks]]) (simp_all add: exec_simps)
  ultimately have "run_step\<^sup>*\<^sup>* machine0 ?z"
    by (meson rtranclp.rtrancl_into_rtrancl rtranclp.rtrancl_refl)
  then show ?thesis by (intro exI [of _ ?z]) (simp add: machine0_def exec_simps)
qed

section \<open>Properties\<close>

text \<open>C10: Scheduling is sound on any number of CPUs, whatever the interleaving. In every machine reached from the state
  that \<open>userinit\<close> leaves, a CPU about to call \<open>sched\<close> passes all four checks of it (it holds \<open>p->lock\<close>
  and no other lock, the process is not \<open>RUNNING\<close>, interrupts are off), a process is in the kernel or user code of at
  most one CPU, it is \<open>RUNNING\<close> exactly while some CPU runs it outside the last stretch before \<open>swtch\<close>,
  \<open>c->proc\<close> names the process a CPU runs, and a thread that has exited is never resumed.\<close>

theorem sched_never_panics:
  assumes "initial_machine m0" "run_step\<^sup>*\<^sup>* m0 m"
  shows "(mpc m c = Proc p (In_sched k) \<longrightarrow> sched c p m = Inr ()) \<and>
    (mpc m c = Proc p x \<longrightarrow> cproc m c = Some p \<and> (mpc m d = Proc p y \<longrightarrow> d = c)) \<and>
    (mstate m p = RUNNING \<longleftrightarrow> (\<exists>c x. mpc m c = Proc p x \<and> \<not> leaving x)) \<and>
    mpc m c \<noteq> Proc p (Resumed K_exit)"
proof -
  have inv: "machine_inv m" using machine_inv_reachable [OF assms] .
  then have run: "run_inv m" by (simp add: machine_inv_def)
  have "mstate m p = RUNNING \<longleftrightarrow> (\<exists>c x. mpc m c = Proc p x \<and> \<not> leaving x)"
    using run_inv_on [OF run, of p] run_inv_proc [OF run] by blast
  moreover have "mpc m c \<noteq> Proc p (Resumed K_exit)" using inv unfolding machine_inv_def exit_inv_def by blast
  moreover have "mpc m c = Proc p x \<longrightarrow> mpc m d = Proc p y \<longrightarrow> d = c" using run unfolding run_inv_def by blast
  ultimately show ?thesis using sched_ok [OF inv] run_inv_proc [OF run] by blast
qed

theorem sched_never_panics_witness:
  "\<exists>m. run_step\<^sup>*\<^sup>* machine0 m \<and> mpc m 0 = Proc 0 (In_sched K_sleep) \<and> sched 0 0 m = Inr ()"
  using machine0_sleeps sched_never_panics [OF machine0_initial] by metis

text \<open>C11: No wakeup is lost. While no CPU holds the condition lock, no process sleeps, or is past the point of no
  return in \<open>sleep\<close>, on a channel whose condition holds: whoever made it true has woken every sleeper, also the ones that had
  released the condition lock but not yet set their state to \<open>SLEEPING\<close>.\<close>

theorem no_lost_wakeup:
  assumes "initial_machine m0" "run_step\<^sup>*\<^sup>* m0 m" "locked (locks (m_smp m) cond_lock) = 0"
    "p < NPROC" "cond m ch"
  shows "\<not> (mstate m p = SLEEPING \<and> mchan m p = Some ch) \<and> mpc m c \<noteq> Proc p (Sleep_own ch)"
proof -
  have inv: "machine_inv m" using machine_inv_reachable [OF assms(1,2)] .
  have "cond_lock \<notin> held_cpc (mpc m c)" for c
    using inv assms(3) unfolding machine_inv_def locks_inv_def lock_view_def by blast
  then have "\<not> covered m p ch" unfolding covered_def by (metis held_cpc.simps(4) held_ppc.simps(11,12) insertI1)
  then show ?thesis using inv assms(4,5) unfolding machine_inv_def sleep_inv_def pending_def by blast
qed

theorem no_lost_wakeup_witness:
  "\<exists>m. run_step\<^sup>*\<^sup>* machine0 m \<and> mstate m 0 = SLEEPING \<and> cond m Chan_cons \<and> mchan m 0 \<noteq> Some Chan_cons"
proof -
  obtain m where m: "run_step\<^sup>*\<^sup>* machine0 m" "mstate m 0 = SLEEPING" "cond m = (\<lambda>ch. ch \<noteq> Chan_ticks)"
    "locked (locks (m_smp m) cond_lock) = 0" using machine0_sleeps by blast
  with no_lost_wakeup [OF machine0_initial m(1,4), of 0 Chan_cons] show ?thesis by (auto simp: NPROC_def)
qed

text \<open>C12: The locks of the process table cannot deadlock. When a CPU asks for a lock it does not hold, \<open>acquire\<close> succeeds or it spins
  (it never panics), and as long as any lock is held some CPU that holds one can take its next step; in
  particular the lock order condition lock before \<open>p->lock\<close> is never violated.\<close>

theorem process_locks_no_deadlock:
  assumes "initial_machine m0" "run_step\<^sup>*\<^sup>* m0 m"
  shows "(l \<notin> held_cpc (mpc m c) \<longrightarrow> (\<exists>s. acquire c l (m_smp m) = Inr s) \<or>
      acquire c l (m_smp m) = Inl (Blocked ''spin'') \<and> (\<exists>d. held_cpc (mpc m d) \<noteq> {} \<and> moves m d)) \<and>
    (l \<in> held_cpc (mpc m c) \<longrightarrow> (\<exists>s. release c l (m_smp m) = Inr s))"
proof -
  have inv: "machine_inv m" using machine_inv_reachable [OF assms] .
  have "\<exists>d. held_cpc (mpc m d) \<noteq> {} \<and> moves m d" if "l \<in> held_cpc (mpc m e)" for e
    using that cond_lock_moves [OF inv] proc_lock_moves [OF inv] by (cases "l = cond_lock") blast+
  then show ?thesis using acquire_cases [OF inv, of l c] release_ok [OF inv, of l c] by blast
qed

theorem process_locks_no_deadlock_witness:
  "\<exists>m. run_step\<^sup>*\<^sup>* machine0 m \<and> acquire 1 0 (m_smp m) = Inl (Blocked ''spin'') \<and> (\<exists>d. moves m d)"
proof -
  obtain m where m: "run_step\<^sup>*\<^sup>* machine0 m" "mpc m 1 = Scan 0" "locked (locks (m_smp m) 0) = 1"
    using machine0_sleeps by blast
  then have "acquire 1 0 (m_smp m) \<noteq> Inr s" for s using acquire_Inr [of 1 0 "m_smp m" s] by auto
  with process_locks_no_deadlock [OF machine0_initial m(1), of 0 1] m show ?thesis by auto
qed

end
