(* ===== verification/Ulib.thy ===== *)
theory Ulib
  imports Xv6_Prelude "HOL-Library.Sublist"
begin

text \<open>
  User space: the conventions of the theories on the programs under \<^verbatim>\<open>user/\<close>, and the routines of
  \<^verbatim>\<open>user/ulib.c\<close> that are not string routines of theory Kstring. A C string that a program is given is the list
  of its bytes without the terminating 0; a buffer is the list of its bytes. A program reaches the kernel
  only through system calls, so what it reads is an argument: \<open>rd e n\<close> is \<open>read\<close> of at most \<open>n\<close> bytes in
  environment \<open>e\<close>, with \<open>None\<close> for the result -1, and \<open>input_of\<close> says what a well-behaved one delivers.
\<close>

section \<open>Strings and buffers\<close>

definition char_at :: "u8 list \<Rightarrow> nat \<Rightarrow> u8" where
  "char_at s i = (if i < length s then s ! i else 0)"

lemma char_at_simps [simp]:
  "char_at [] i = 0" "char_at (c # s) 0 = c" "char_at (c # s) (Suc i) = char_at s i"
  by (simp_all add: char_at_def)

text \<open>The string that starts at offset \<open>p\<close> of a buffer, and \<open>strchr\<close> on it: the offset of the match.\<close>

definition string_at :: "u8 list \<Rightarrow> nat \<Rightarrow> u8 list" where
  "string_at b p = takeWhile (\<lambda>c. c \<noteq> 0) (drop p b)"

fun find_char :: "u8 \<Rightarrow> u8 list \<Rightarrow> nat option" where
  "find_char c [] = None"
| "find_char c (x # xs) =
     (if x = 0 then None else if x = c then Some 0 else map_option Suc (find_char c xs))"

definition strchr_at :: "u8 list \<Rightarrow> nat \<Rightarrow> u8 \<Rightarrow> nat option" where
  "strchr_at b p c = map_option (\<lambda>i. p + i) (find_char c (drop p b))"

lemma find_char_append:
  "0 \<notin> set xs \<Longrightarrow> c \<notin> set xs \<Longrightarrow> find_char c (xs @ ys) = map_option (\<lambda>i. length xs + i) (find_char c ys)"
  by (induction xs) (auto simp: map_option_case split: option.splits)

section \<open>Reading\<close>

type_synonym 'e reader = "'e \<Rightarrow> nat \<Rightarrow> u8 list option \<times> 'e"

text \<open>What \<open>read\<close> promises for a file, a pipe or the console without errors: it delivers the rest of the input in order,
  in pieces of any size up to the one asked for, and none only at the end or when asked for none.\<close>

definition input_of :: "'e reader \<Rightarrow> ('e \<Rightarrow> u8 list) \<Rightarrow> bool" where
  "input_of rd rest \<longleftrightarrow> (\<forall>e n. \<exists>cs e'. rd e n = (Some cs, e') \<and> length cs \<le> n \<and> rest e = cs @ rest e' \<and>
     (cs = [] \<longrightarrow> n = 0 \<or> rest e = []))"

definition take_reader :: "u8 list reader" where
  "take_reader e n = (Some (take n e), drop n e)"

lemma take_reader_input: "input_of take_reader (\<lambda>e. e)"
  by (auto simp: input_of_def take_reader_def)

section \<open>Numbers\<close>

text \<open>Arithmetic on \<open>int\<close>: a result that does not fit is undefined behaviour.\<close>

definition int_ok :: "int \<Rightarrow> bool" where
  "int_ok i \<longleftrightarrow> - (2 ^ 31) \<le> i \<and> i < 2 ^ 31"

definition is_digit :: "u8 \<Rightarrow> bool" where
  "is_digit c \<longleftrightarrow> 48 \<le> c \<and> c \<le> 57"

fun atoi_loop :: "int \<Rightarrow> u8 list \<Rightarrow> int result" where
  "atoi_loop n [] = Inr n"
| "atoi_loop n (c # s) =
     (if is_digit c
      then if int_ok (n * 10) \<and> int_ok (n * 10 + uint c) then atoi_loop (n * 10 + uint c - 48) s
           else Inl (UB ''signed overflow'')
      else Inr n)"

definition atoi :: "u8 list \<Rightarrow> int result" where
  "atoi s = atoi_loop 0 s"

text \<open>\<open>None\<close>: the program has printed an error and exited with status 1.\<close>

definition atoi_CheckIsNumber :: "u8 list \<Rightarrow> int result option" where
  "atoi_CheckIsNumber s = (if \<forall>c\<in>set s. is_digit c then Some (atoi_loop 0 s) else None)"

text \<open>\<open>gets\<close>: the bytes stored before the terminating 0.\<close>

fun gets_loop :: "'e reader \<Rightarrow> nat \<Rightarrow> u8 list \<Rightarrow> 'e \<Rightarrow> u8 list \<times> 'e" where
  "gets_loop rd 0 acc e = (acc, e)"
| "gets_loop rd (Suc k) acc e =
     (case rd e 1 of
        (Some [c], e') \<Rightarrow>
          if c = 10 \<or> c = 13 then (acc @ [c], e') else gets_loop rd k (acc @ [c]) e'
      | (_, e') \<Rightarrow> (acc, e'))"

definition gets :: "'e reader \<Rightarrow> int \<Rightarrow> 'e \<Rightarrow> u8 list \<times> 'e" where
  "gets rd mx e = gets_loop rd (nat (mx - 1)) [] e"

end
