(* ===== verification/Grep.thy ===== *)
theory Grep
  imports Ulib
begin

text \<open>
  \<^verbatim>\<open>user/grep.c\<close>: the regular expression matcher and the loop over the input, which works on a buffer of
  1024 bytes. Patterns and lines are C strings. The specification of the matcher is the language that the
  pattern denotes.
\<close>

section \<open>The matcher\<close>

definition LF :: u8 where "LF = 10"
definition DOLLAR :: u8 where "DOLLAR = 36"
definition STAR :: u8 where "STAR = 42"
definition DOT :: u8 where "DOT = 46"
definition CARET :: u8 where "CARET = 94"

lemmas grep_chars = LF_def DOLLAR_def STAR_def DOT_def CARET_def

function matchhere :: "u8 list \<Rightarrow> u8 list \<Rightarrow> bool"
  and matchstar :: "u8 \<Rightarrow> u8 list \<Rightarrow> u8 list \<Rightarrow> bool" where
  "matchhere re str =
     (if char_at re 0 = 0 then True
      else if char_at re 1 = STAR then matchstar (char_at re 0) (drop 2 re) str
      else if char_at re 0 = DOLLAR \<and> char_at re 1 = 0 then char_at str 0 = 0
      else if char_at str 0 \<noteq> 0 \<and> (char_at re 0 = DOT \<or> char_at re 0 = char_at str 0)
      then matchhere (drop 1 re) (drop 1 str)
      else False)"
| "matchstar c re str =
     (if matchhere re str then True
      else if char_at str 0 \<noteq> 0 \<and> (char_at str 0 = c \<or> c = DOT) then matchstar c re (drop 1 str)
      else False)"
  by pat_completeness auto
termination
  by (relation "measures [\<lambda>x. case x of Inl (re, t) \<Rightarrow> length re | Inr (c, re, t) \<Rightarrow> length re,
      \<lambda>x. case x of Inl (re, t) \<Rightarrow> length t | Inr (c, re, t) \<Rightarrow> length t,
      \<lambda>x. case x of Inl _ \<Rightarrow> 0 | Inr _ \<Rightarrow> 1]")
    (auto simp: char_at_def split: if_splits)

declare matchhere.simps [simp del] matchstar.simps [simp del]

fun match_from :: "u8 list \<Rightarrow> u8 list \<Rightarrow> bool" where
  "match_from re [] \<longleftrightarrow> matchhere re []"
| "match_from re (c # str) \<longleftrightarrow> matchhere re (c # str) \<or> (c \<noteq> 0 \<and> match_from re str)"

definition match :: "u8 list \<Rightarrow> u8 list \<Rightarrow> bool" where
  "match re str \<longleftrightarrow> (if char_at re 0 = CARET then matchhere (drop 1 re) str else match_from re str)"

section \<open>The input loop\<close>

lemma find_char_bound: "find_char c xs = Some i \<Longrightarrow> i < length xs"
  by (induction xs arbitrary: i) (auto split: if_splits)

lemma strchr_at_bound: "strchr_at b p c = Some q \<Longrightarrow> p \<le> q \<and> q < length b"
  by (auto simp: strchr_at_def dest: find_char_bound)

text \<open>The lines of \<open>buf\<close> from offset \<open>p\<close>: what is written, the offset after the last complete line and the buffer, in which a
  newline that ends a line without a match stays overwritten.\<close>

function grep_lines :: "u8 list \<Rightarrow> u8 list \<Rightarrow> nat \<Rightarrow> u8 list \<times> nat \<times> u8 list" where
  "grep_lines pattern buf p =
     (case strchr_at buf p LF of
        None \<Rightarrow> ([], p, buf)
      | Some q \<Rightarrow>
          let buf = buf[q := 0]; found = match pattern (string_at buf p);
              buf = (if found then buf[q := LF] else buf);
              (out, p', buf') = grep_lines pattern buf (q + 1)
          in ((if found then take (q + 1 - p) (drop p buf) else []) @ out, p', buf'))"
  by pat_completeness auto
termination
  by (relation "measure (\<lambda>(pattern, buf, p). length buf - p)") (auto dest: strchr_at_bound)

declare grep_lines.simps [simp del]

definition BUFSZ :: nat where "BUFSZ = 1024"

text \<open>One round of the outer loop for \<open>cs\<close> just read behind the \<open>m\<close> bytes kept.\<close>

definition grep_round :: "u8 list \<Rightarrow> u8 list \<Rightarrow> nat \<Rightarrow> u8 list \<Rightarrow> u8 list \<times> nat \<times> u8 list" where
  "grep_round pattern buf m cs =
     (let buf = take m buf @ cs @ drop (m + length cs) buf;
          m = m + length cs;
          buf = buf[m := 0];
          (out, p, buf) = grep_lines pattern buf 0;
          m = m - p
      in (out, m, take m (drop p buf) @ drop m buf))"

partial_function (option) grep_loop ::
  "'e reader \<Rightarrow> u8 list \<Rightarrow> u8 list \<Rightarrow> nat \<Rightarrow> u8 list \<Rightarrow> 'e \<Rightarrow> u8 list option" where
  "grep_loop rd pattern buf m out e =
     (case rd e (BUFSZ - m - 1) of
        (None, e') \<Rightarrow> Some out
      | (Some cs, e') \<Rightarrow>
          if cs = [] then Some out
          else case grep_round pattern buf m cs of
                 (w, m', buf') \<Rightarrow> grep_loop rd pattern buf' m' (out @ w) e')"

text \<open>What \<open>grep(pattern, fd)\<close> writes; \<open>buf\<close> is the global array.\<close>

definition grep :: "'e reader \<Rightarrow> u8 list \<Rightarrow> u8 list \<Rightarrow> 'e \<Rightarrow> u8 list option" where
  "grep rd pattern buf e = grep_loop rd pattern buf 0 [] e"

section \<open>Specification of the matcher\<close>

text \<open>A pattern is a sequence of elements, each a character (a dot is any) or the star of one, with an anchor at its end.\<close>

datatype elem = One u8 | Many u8

fun elems :: "u8 list \<Rightarrow> elem list \<times> bool" where
  "elems [] = ([], False)"
| "elems [c] = (if c = DOLLAR then ([], True) else ([One c], False))"
| "elems (c # d # re) =
     (if d = STAR then map_prod ((#) (Many c)) id (elems re) else map_prod ((#) (One c)) id (elems (d # re)))"

definition fits :: "u8 \<Rightarrow> u8 \<Rightarrow> bool" where
  "fits c x \<longleftrightarrow> c = DOT \<or> c = x"

fun lang :: "elem list \<Rightarrow> u8 list set" where
  "lang [] = {[]}"
| "lang (One c # es) = {x # w | x w. fits c x \<and> w \<in> lang es}"
| "lang (Many c # es) = {u @ w | u w. (\<forall>x\<in>set u. fits c x) \<and> w \<in> lang es}"

text \<open>The texts that begin with a word of the language, and end there if the pattern has the anchor.\<close>

definition begins :: "elem list \<times> bool \<Rightarrow> u8 list \<Rightarrow> bool" where
  "begins r str \<longleftrightarrow> (\<exists>w rest. str = w @ rest \<and> w \<in> lang (fst r) \<and> (snd r \<longrightarrow> rest = []))"

lemma begins_Nil: "begins ([], eol) str \<longleftrightarrow> (eol \<longrightarrow> str = [])"
  by (auto simp: begins_def)

lemma beginsI: "w \<in> lang es \<Longrightarrow> (eol \<longrightarrow> rest = []) \<Longrightarrow> begins (es, eol) (w @ rest)"
  by (auto simp: begins_def)

lemma beginsE:
  assumes "begins (es, eol) str"
  obtains w rest where "str = w @ rest" "w \<in> lang es" "eol \<longrightarrow> rest = []"
  using assms unfolding begins_def by auto

lemma lang_ManyI: "\<forall>x\<in>set u. fits c x \<Longrightarrow> w \<in> lang es \<Longrightarrow> u @ w \<in> lang (Many c # es)"
  by auto

lemma begins_One: "begins (One c # es, eol) str \<longleftrightarrow> (\<exists>x t. str = x # t \<and> fits c x \<and> begins (es, eol) t)"
proof
  assume "begins (One c # es, eol) str"
  then show "\<exists>x t. str = x # t \<and> fits c x \<and> begins (es, eol) t"
    by (rule beginsE) (use beginsI [of _ es eol] in fastforce)
next
  assume "\<exists>x t. str = x # t \<and> fits c x \<and> begins (es, eol) t"
  then obtain x t where x: "str = x # t" "fits c x" "begins (es, eol) t" by blast
  from x(3) obtain w rest where w: "t = w @ rest" "w \<in> lang es" "eol \<longrightarrow> rest = []" by (rule beginsE)
  have "begins (One c # es, eol) ((x # w) @ rest)" using w x by (intro beginsI) auto
  with x w show "begins (One c # es, eol) str" by simp
qed

lemma begins_Many:
  "begins (Many c # es, eol) str \<longleftrightarrow>
     begins (es, eol) str \<or> (\<exists>x t. str = x # t \<and> fits c x \<and> begins (Many c # es, eol) t)"
proof
  assume "begins (Many c # es, eol) str"
  then obtain v rest where v: "str = v @ rest" "v \<in> lang (Many c # es)" "eol \<longrightarrow> rest = []" by (rule beginsE)
  then obtain u w where u: "v = u @ w" "\<forall>x\<in>set u. fits c x" "w \<in> lang es" by auto
  show "begins (es, eol) str \<or> (\<exists>x t. str = x # t \<and> fits c x \<and> begins (Many c # es, eol) t)"
  proof (cases u)
    case Nil
    then show ?thesis using u v beginsI [OF u(3) v(3)] by simp
  next
    case (Cons x u')
    then have "begins (Many c # es, eol) ((u' @ w) @ rest)"
      using u v by (intro beginsI lang_ManyI) auto
    then show ?thesis using Cons u v by auto
  qed
next
  assume "begins (es, eol) str \<or> (\<exists>x t. str = x # t \<and> fits c x \<and> begins (Many c # es, eol) t)"
  then show "begins (Many c # es, eol) str"
  proof (elim disjE exE conjE)
    assume "begins (es, eol) str"
    then show ?thesis by (rule beginsE) (use lang_ManyI [of "[]" c _ es] in \<open>auto intro!: beginsI simp del: lang.simps\<close>)
  next
    fix x t assume x: "str = x # t" "fits c x" and "begins (Many c # es, eol) t"
    then obtain v rest where v: "t = v @ rest" "v \<in> lang (Many c # es)" "eol \<longrightarrow> rest = []" by (metis beginsE)
    then obtain u w where u: "v = u @ w" "\<forall>x\<in>set u. fits c x" "w \<in> lang es" by auto
    have "begins (Many c # es, eol) (((x # u) @ w) @ rest)"
      using u v x by (intro beginsI lang_ManyI) auto
    then show ?thesis using u v x by simp
  qed
qed

lemma matchhere_Nil [simp]: "matchhere [] str"
  by (simp add: matchhere.simps [of "[]"])

lemma matchhere_single:
  "c \<noteq> 0 \<Longrightarrow> matchhere [c] str \<longleftrightarrow>
     (if c = DOLLAR then char_at str 0 = 0 else char_at str 0 \<noteq> 0 \<and> fits c (char_at str 0))"
  by (simp add: matchhere.simps [of "[c]"] fits_def STAR_def)

lemma matchhere_Cons:
  "c \<noteq> 0 \<Longrightarrow> d \<noteq> 0 \<Longrightarrow> matchhere (c # d # re) str \<longleftrightarrow>
     (if d = STAR then matchstar c re str
      else char_at str 0 \<noteq> 0 \<and> fits c (char_at str 0) \<and> matchhere (d # re) (drop 1 str))"
  by (simp add: matchhere.simps [of "c # d # re"] fits_def)

lemma matchstar_Nil: "matchstar c re [] \<longleftrightarrow> matchhere re []"
  by (subst matchstar.simps) simp

lemma matchstar_Cons:
  "x \<noteq> 0 \<Longrightarrow> matchstar c re (x # s) \<longleftrightarrow> matchhere re (x # s) \<or> fits c x \<and> matchstar c re s"
  by (subst matchstar.simps) (auto simp: fits_def)

text \<open>First the star, for a rest of the pattern that is matched correctly.\<close>

lemma matchstar_correct:
  assumes "\<And>s. 0 \<notin> set s \<Longrightarrow> matchhere re s \<longleftrightarrow> begins r s" "0 \<notin> set str"
  shows "matchstar c re str \<longleftrightarrow> begins (Many c # fst r, snd r) str"
  using assms(2)
proof (induction str)
  case Nil
  then show ?case using assms(1) [of "[]"] begins_Many [of c "fst r" _ "[]"] by (simp add: matchstar_Nil)
next
  case (Cons x s)
  then show ?case
    using assms(1) [of "x # s"] begins_Many [of c "fst r" _ "x # s"] by (simp add: matchstar_Cons)
qed

lemma matchhere_correct:
  "0 \<notin> set re \<Longrightarrow> 0 \<notin> set str \<Longrightarrow> matchhere re str \<longleftrightarrow> begins (elems re) str"
proof (induction re arbitrary: str rule: elems.induct)
  case 1
  then show ?case by (simp add: begins_Nil)
next
  case (2 c)
  then show ?case by (cases str) (auto simp: matchhere_single begins_Nil begins_One)
next
  case (3 c d re)
  show ?case
  proof (cases "d = STAR")
    case True
    then have "matchstar c re str \<longleftrightarrow> begins (Many c # fst (elems re), snd (elems re)) str"
      using 3 by (intro matchstar_correct) auto
    then show ?thesis using True 3 by (simp add: matchhere_Cons map_prod_def split: prod.splits)
  next
    case False
    then show ?thesis using 3
      by (cases str) (auto simp: matchhere_Cons map_prod_def begins_One split: prod.splits)
  qed
qed

text \<open>The specification of a whole pattern.\<close>

definition matches :: "u8 list \<Rightarrow> u8 list \<Rightarrow> bool" where
  "matches re str \<longleftrightarrow>
     (case re of
        c # re' \<Rightarrow> if c = CARET then begins (elems re') str else (\<exists>skip rest. str = skip @ rest \<and> begins (elems re) rest)
      | [] \<Rightarrow> True)"

lemma match_from_correct:
  "0 \<notin> set re \<Longrightarrow> 0 \<notin> set str \<Longrightarrow> match_from re str \<longleftrightarrow> (\<exists>skip rest. str = skip @ rest \<and> begins (elems re) rest)"
proof (induction str)
  case Nil
  then show ?case by (simp add: matchhere_correct)
next
  case (Cons x s)
  then have "match_from re (x # s) \<longleftrightarrow> begins (elems re) (x # s) \<or> (\<exists>skip rest. s = skip @ rest \<and> begins (elems re) rest)"
    by (simp add: matchhere_correct)
  also have "\<dots> \<longleftrightarrow> (\<exists>skip rest. x # s = skip @ rest \<and> begins (elems re) rest)"
    by (auto simp: Cons_eq_append_conv) 
  finally show ?case .
qed

section \<open>The loop\<close>

text \<open>A text of lines, each with its newline.\<close>

definition lines :: "u8 list list \<Rightarrow> u8 list" where
  "lines ls = concat (map (\<lambda>l. l @ [LF]) ls)"

definition plain_line :: "u8 list \<Rightarrow> bool" where
  "plain_line l \<longleftrightarrow> 0 \<notin> set l \<and> LF \<notin> set l"

lemma lines_simps [simp]: "lines [] = []" "lines (l # ls) = l @ LF # lines ls" "lines (as @ bs) = lines as @ lines bs"
  by (simp_all add: lines_def)

lemma LF_nonzero [simp]: "LF \<noteq> 0"
  by (simp add: LF_def)

lemma line_cancel: "LF \<notin> set l \<Longrightarrow> LF \<notin> set l' \<Longrightarrow> l @ LF # x = l' @ LF # y \<Longrightarrow> l = l' \<and> x = y"
  by (induction l arbitrary: l') (auto simp: Cons_eq_append_conv)

lemma lines_prefix:
  assumes "lines as @ k @ r = lines bs @ t" "\<forall>l\<in>set as. LF \<notin> set l" "\<forall>l\<in>set bs. LF \<notin> set l" "LF \<notin> set t"
  shows "\<exists>cs. bs = as @ cs \<and> k @ r = lines cs @ t"
  using assms
proof (induction as arbitrary: bs)
  case (Cons l as)
  show ?case
  proof (cases bs)
    case Nil
    then have "LF \<in> set t" using Cons.prems(1) by (metis append_Nil in_set_conv_decomp lines_simps(1,2) append.assoc append_Cons)
    with Cons.prems(4) show ?thesis by simp
  next
    case (Cons l' bs')
    then have "l @ LF # (lines as @ k @ r) = l' @ LF # (lines bs' @ t)" using Cons.prems(1) by simp
    from line_cancel [OF _ _ this] Cons Cons.prems have "l = l'" "lines as @ k @ r = lines bs' @ t" by auto
    with Cons.IH [of bs'] Cons.prems Cons show ?thesis by auto
  qed
qed simp

lemma split_into_lines: "\<exists>ls k. xs = lines ls @ k \<and> LF \<notin> set k \<and> (\<forall>l\<in>set ls. LF \<notin> set l)"
proof (induction xs)
  case Nil
  then show ?case by (intro exI [of _ "[]"]) simp
next
  case (Cons x xs)
  then obtain ls k where IH: "xs = lines ls @ k" "LF \<notin> set k" "\<forall>l\<in>set ls. LF \<notin> set l" by blast
  show ?case
  proof (cases "x = LF")
    case True
    with IH show ?thesis by (intro exI [of _ "[] # ls"] exI [of _ k]) simp
  next
    case x: False
    show ?thesis
    proof (cases ls)
      case Nil
      with IH x show ?thesis by (intro exI [of _ "[]"] exI [of _ "x # k"]) simp
    next
      case (Cons l ls')
      with IH x show ?thesis by (intro exI [of _ "(x # l) # ls'"] exI [of _ k]) simp
    qed
  qed
qed

lemma set_lines: "set (lines ls) = (if ls = [] then {} else insert LF (\<Union> (set ` set ls)))"
  by (induction ls) auto

lemma find_char_None: "0 \<notin> set k \<Longrightarrow> LF \<notin> set k \<Longrightarrow> find_char LF (k @ 0 # z) = None"
  by (simp add: find_char_append)

lemma find_char_line: "plain_line l \<Longrightarrow> find_char LF (l @ LF # z) = Some (length l)"
  by (simp add: find_char_append plain_line_def)

lemma takeWhile_line: "0 \<notin> set l \<Longrightarrow> takeWhile (\<lambda>c. c \<noteq> 0) (l @ 0 # z) = l"
  by (induction l) auto

lemma grep_lines_correct:
  assumes "drop p buf = lines ls @ k @ 0 # z" "\<forall>l\<in>set ls. plain_line l" "plain_line k"
  shows "\<exists>buf'. grep_lines pattern buf p = (lines (filter (match pattern) ls), p + length (lines ls), buf') \<and>
    length buf' = length buf \<and> drop (p + length (lines ls)) buf' = k @ 0 # z"
  using assms
proof (induction ls arbitrary: p buf)
  case Nil
  then have "strchr_at buf p LF = None" by (simp add: strchr_at_def find_char_None plain_line_def)
  with Nil show ?case by (simp add: grep_lines.simps [of pattern buf])
next
  case (Cons l ls)
  let ?q = "p + length l" and ?rest = "lines ls @ k @ 0 # z"
  let ?found = "match pattern l"
  let ?b = "if ?found then buf[?q := 0, ?q := LF] else buf[?q := 0]"
  have d: "drop p buf = l @ LF # ?rest" using Cons.prems by simp
  have q: "strchr_at buf p LF = Some ?q" using d Cons.prems by (simp add: strchr_at_def find_char_line)
  have d0: "drop p (buf[?q := x]) = l @ x # ?rest" for x
    using d by (simp add: drop_update_swap)
  then have s: "string_at (buf[?q := 0]) p = l"
    using Cons.prems by (simp add: string_at_def takeWhile_line plain_line_def)
  have db: "drop (?q + 1) ?b = ?rest"
  proof -
    have "drop (?q + 1) buf = drop (Suc (length l)) (drop p buf)" by (simp add: algebra_simps)
    also have "\<dots> = ?rest" using d by simp
    finally show ?thesis by simp
  qed
  obtain buf' where IH: "grep_lines pattern ?b (?q + 1) = (lines (filter (match pattern) ls), ?q + 1 + length (lines ls), buf')"
    "length buf' = length ?b" "drop (?q + 1 + length (lines ls)) buf' = k @ 0 # z"
    using Cons.IH [OF db] Cons.prems by auto
  have out: "?found \<Longrightarrow> take (Suc (length l)) (drop p (buf[?q := LF])) = l @ [LF]" using d0 by simp
  show ?case
    using IH q s out
    by (subst grep_lines.simps) (auto simp: Let_def algebra_simps)
qed

lemma grep_round_correct:
  assumes "length buf = BUFSZ" "m + length cs < BUFSZ" "take m buf @ cs = lines ls @ k"
    "\<forall>l\<in>set ls. plain_line l" "plain_line k"
  shows "\<exists>buf'. grep_round pattern buf m cs = (lines (filter (match pattern) ls), length k, buf') \<and>
    length buf' = BUFSZ \<and> take (length k) buf' = k"
proof -
  let ?M = "m + length cs"
  let ?b = "(take m buf @ cs @ drop ?M buf)[?M := 0]"
  have len: "length (take m buf @ cs) = ?M" using assms(1,2) by simp
  have dM: "drop ?M buf = buf ! ?M # drop (Suc ?M) buf" using assms(1,2) by (simp add: Cons_nth_drop_Suc)
  have "?b = (take m buf @ cs) @ (drop ?M buf)[0 := 0]"
    using len by (metis append.assoc diff_self_eq_0 list_update_append order_less_irrefl)
  then have b: "drop 0 ?b = lines ls @ k @ 0 # drop (Suc ?M) buf" using assms(3) dM by simp
  obtain buf' where g: "grep_lines pattern ?b 0 = (lines (filter (match pattern) ls), length (lines ls), buf')"
    "length buf' = length ?b" "drop (length (lines ls)) buf' = k @ 0 # drop (Suc ?M) buf"
    using grep_lines_correct [OF b assms(4,5), of pattern] by auto
  have "?M - length (lines ls) = length k"
    using len arg_cong [OF assms(3), of length] by simp
  moreover have "length ?b = BUFSZ" using assms(1,2) by simp
  moreover have "length k \<le> BUFSZ" using arg_cong [OF assms(3), of length] len assms(2) by simp
  ultimately show ?thesis using g by (simp add: grep_round_def Let_def)
qed

text \<open>The bytes kept in the buffer are the beginning of a line, and with the rest of the input they make up the lines
  still to be handled.\<close>

lemma grep_loop_correct:
  assumes rd: "input_of rd rest" and tail: "LF \<notin> set t" "0 \<notin> set t"
    and ls: "\<forall>l\<in>set ls. plain_line l \<and> length l < BUFSZ - 1"
    and buf: "length buf = BUFSZ" "m < BUFSZ" "LF \<notin> set (take m buf)" "take m buf @ rest e = lines ls @ t"
  shows "grep_loop rd pattern buf m out e = Some (out @ lines (filter (match pattern) ls))"
  using ls buf
proof (induction "length (rest e)" arbitrary: e ls buf m out rule: less_induct)
  case less
  let ?kept = "take m buf"
  obtain cs e' where r: "rd e (BUFSZ - m - 1) = (Some cs, e')" "length cs \<le> BUFSZ - m - 1" "rest e = cs @ rest e'"
    "cs = [] \<longrightarrow> BUFSZ - m - 1 = 0 \<or> rest e = []" using rd unfolding input_of_def by blast
  have len: "length ?kept = m" using less.prems by simp
  show ?case
  proof (cases "cs = []")
    case True
    have "ls = []"
    proof (rule ccontr)
      assume "ls \<noteq> []"
      then obtain l ls' where l: "ls = l # ls'" by (cases ls) auto
      have full: "?kept @ rest e = l @ LF # (lines ls' @ t)" using less.prems(5) l by simp
      then obtain us where "?kept = l @ us \<and> us @ rest e = LF # (lines ls' @ t) \<or> ?kept @ us = l \<and> rest e = us @ LF # (lines ls' @ t)"
        by (auto simp: append_eq_append_conv2)
      then show False
      proof (elim disjE conjE)
        assume "?kept = l @ us" "us @ rest e = LF # (lines ls' @ t)"
        with True r(4) len less.prems l show False
          by (cases us) auto
      next
        assume "?kept @ us = l" "rest e = us @ LF # (lines ls' @ t)"
        with True r(4) len less.prems(1) l show False by (auto simp: BUFSZ_def)
      qed
    qed
    with True r show ?thesis by (simp add: grep_loop.simps [of rd])
  next
    case False
    obtain as k where split: "?kept @ cs = lines as @ k" "LF \<notin> set k" "\<forall>l\<in>set as. LF \<notin> set l"
      using split_into_lines [of "?kept @ cs"] by blast
    have "lines as @ k @ rest e' = lines ls @ t" using less.prems(5) r(3) split(1) by (metis append.assoc)
    from lines_prefix [OF this split(3) _ tail(1)] less.prems(1) obtain bs
      where bs: "ls = as @ bs" "k @ rest e' = lines bs @ t" by (auto simp: plain_line_def)
    have "0 \<notin> set (lines bs @ t)" using less.prems(1) bs(1) tail(2) by (auto simp: set_lines plain_line_def split: if_splits)
    then have k: "plain_line k" using split(2) bs(2) by (metis UnI1 plain_line_def set_append)
    have lk: "length k \<le> m + length cs" using arg_cong [OF split(1), of length] len by simp
    have room: "m + length cs < BUFSZ" using r(2) less.prems(3) by linarith
    obtain buf' where g: "grep_round pattern buf m cs = (lines (filter (match pattern) as), length k, buf')"
      "length buf' = BUFSZ" "take (length k) buf' = k"
      using grep_round_correct [of buf m cs as k pattern] less.prems room split(1) k bs(1) by auto
    have "grep_loop rd pattern buf' (length k) (out @ lines (filter (match pattern) as)) e' =
        Some ((out @ lines (filter (match pattern) as)) @ lines (filter (match pattern) bs))"
      using False r less.prems g k bs lk room by (intro less.hyps) (auto simp: plain_line_def)
    then show ?thesis using False r g bs by (simp add: grep_loop.simps [of rd pattern buf])
  qed
qed

section \<open>Properties\<close>

text \<open>C31: The matcher of \<open>grep\<close> decides the language of its pattern: for every pattern and every text (C strings, without
  inner 0 bytes) \<open>match\<close> returns whether some part of the text, at its start after a caret, up to its end before a dollar
  sign, is a word of the pattern, where a dot stands for any byte and a star for any number of the byte before it.\<close>

theorem match_decides_language:
  assumes "0 \<notin> set re" "0 \<notin> set str"
  shows "match re str \<longleftrightarrow> matches re str"
  using assms match_from_correct [of re str] matchhere_correct [of "tl re" str]
  by (cases re) (auto simp: match_def matches_def CARET_def match_from_correct begins_Nil)

theorem match_decides_language_witness:
  "match [97, STAR, 98, DOLLAR] [120, 97, 97, 98] \<and> matches [97, STAR, 98, DOLLAR] [120, 97, 97, 98]"
proof -
  have "match [97, STAR, 98, DOLLAR] [120, 97, 97, 98]" by code_simp
  then show ?thesis using match_decides_language [of "[97, STAR, 98, DOLLAR]" "[120, 97, 97, 98]"]
    by (simp add: STAR_def DOLLAR_def)
qed

text \<open>C32: \<open>grep\<close> ends and writes exactly the matching lines, in order and with their newlines, however \<open>read\<close> cuts the input into pieces:
  if every line has at most 1022 bytes and no 0 byte, the output is the lines the pattern matches; a last line
  without a newline is never printed.\<close>

theorem grep_prints_matching_lines:
  assumes "input_of rd rest" "rest e = lines ls @ t" "\<forall>l\<in>set ls. plain_line l \<and> length l < BUFSZ - 1" "plain_line t"
    "length buf = BUFSZ"
  shows "grep rd pattern buf e = Some (lines (filter (match pattern) ls))"
  using grep_loop_correct [OF assms(1), of t ls buf 0 e pattern "[]"] assms
  by (simp add: grep_def plain_line_def BUFSZ_def)

theorem grep_prints_matching_lines_witness:
  "grep take_reader [97] (replicate BUFSZ 0) [98, LF, 97, 98, LF, 97] = Some [97, 98, LF]"
proof -
  have "match [97] [98] = False" "match [97] [97, 98] = True" by code_simp+
  then show ?thesis
    using grep_prints_matching_lines [OF take_reader_input, of "[98, LF, 97, 98, LF, 97]" "[[98], [97, 98]]" "[97]" "replicate BUFSZ 0" "[97]"]
    by (simp add: plain_line_def LF_def BUFSZ_def)
qed

end
