(* ===== verification/Printf.thy ===== *)
theory Printf
  imports Ulib
begin

text \<open>
  Formatted output: \<^verbatim>\<open>user/printf.c\<close>, and \<^verbatim>\<open>kernel/printf.c\<close> with \<open>consputc\<close> of \<^verbatim>\<open>kernel/console.c\<close>. Output is the list of the bytes
  written. The arguments behind the format are a list: a register value, or a string (\<open>None\<close> for the null
  pointer). A conversion without an argument, or with one of the other kind, is undefined behaviour.
  The locks and the uart are left to theory Console.
\<close>

section \<open>Numbers\<close>

text \<open>The two values of the parameter \<open>base\<close> of the static functions \<open>printint\<close>.\<close>

datatype radix = Dec | Hex

fun base :: "radix \<Rightarrow> nat" where
  "base Dec = 10" | "base Hex = 16"

lemma base_gt_1 [simp]: "1 < base r" "0 < base r"
  by (cases r; simp)+

definition udigits :: "u8 list" where
  "udigits = [48,49,50,51,52,53,54,55,56,57,65,66,67,68,69,70]"

definition kdigits :: "u8 list" where
  "kdigits = [48,49,50,51,52,53,54,55,56,57,97,98,99,100,101,102]"

text \<open>The \<open>do\<close> loop, least significant digit first.\<close>

function digit_loop :: "radix \<Rightarrow> nat \<Rightarrow> nat list" where
  "digit_loop r x = (x mod base r) # (if x div base r = 0 then [] else digit_loop r (x div base r))"
  by pat_completeness auto
termination
proof (relation "measure snd")
  show "((r, x div base r), r, x) \<in> measure snd" if "x div base r \<noteq> 0" for r x
  proof -
    have "0 < x" using that by (cases x) auto
    then show ?thesis using div_less_dividend [OF base_gt_1(1)] by simp
  qed
qed simp

declare digit_loop.simps [simp del]

text \<open>\<open>buf\<close> has 20 elements.\<close>

definition print_number :: "u8 list \<Rightarrow> radix \<Rightarrow> bool \<Rightarrow> nat \<Rightarrow> u8 list result" where
  "print_number tbl r neg x =
     (let buf = map (\<lambda>d. tbl ! d) (digit_loop r x) @ (if neg then [45] else [])
      in if length buf > 20 then Inl (UB ''buf'') else Inr (rev buf))"

definition printint_user :: "u64 \<Rightarrow> radix \<Rightarrow> bool \<Rightarrow> u8 list result" where
  "printint_user xx r sg =
     (let neg = (sg \<and> sint xx < 0); x = (ucast (if neg then - xx else xx) :: u32)
      in print_number udigits r neg (unat x))"

definition printint_kernel :: "u64 \<Rightarrow> radix \<Rightarrow> bool \<Rightarrow> u8 list result" where
  "printint_kernel xx r sg =
     (let neg = (sg \<and> sint xx < 0); x = (if neg then - xx else xx)
      in print_number kdigits r neg (unat x))"

fun ptr_loop :: "u8 list \<Rightarrow> nat \<Rightarrow> u64 \<Rightarrow> u8 list" where
  "ptr_loop tbl 0 x = []"
| "ptr_loop tbl (Suc n) x = (tbl ! unat (drop_bit 60 x)) # ptr_loop tbl n (push_bit 4 x)"

definition printptr :: "u8 list \<Rightarrow> u64 \<Rightarrow> u8 list" where
  "printptr tbl x = [48, 120] @ ptr_loop tbl 16 x"

section \<open>Formats\<close>

datatype varg = A_int u64 | A_str "u8 list option"

datatype conv = C_int radix bool bool | C_ptr | C_char | C_str | C_percent | C_unknown

text \<open>The chain of conditions on the three characters after a percent sign: the conversion (for a number its base, whether
  it is signed and whether it is 64 bits wide) and how many characters it takes besides the first.\<close>

definition conversion :: "u8 \<Rightarrow> u8 \<Rightarrow> u8 \<Rightarrow> conv \<times> nat" where
  "conversion c0 c1 c2 =
     (if c0 = 100 then (C_int Dec True False, 0)
      else if c0 = 108 \<and> c1 = 100 then (C_int Dec True True, 1)
      else if c0 = 108 \<and> c1 = 108 \<and> c2 = 100 then (C_int Dec True True, 2)
      else if c0 = 117 then (C_int Dec False False, 0)
      else if c0 = 108 \<and> c1 = 117 then (C_int Dec False True, 1)
      else if c0 = 108 \<and> c1 = 108 \<and> c2 = 117 then (C_int Dec False True, 2)
      else if c0 = 120 then (C_int Hex False False, 0)
      else if c0 = 108 \<and> c1 = 120 then (C_int Hex False True, 1)
      else if c0 = 108 \<and> c1 = 108 \<and> c2 = 120 then (C_int Hex False True, 2)
      else if c0 = 112 then (C_ptr, 0)
      else if c0 = 99 then (C_char, 0)
      else if c0 = 115 then (C_str, 0)
      else if c0 = 37 then (C_percent, 0)
      else (C_unknown, 0))"

text \<open>\<open>va_arg(ap, int)\<close> and \<open>va_arg(ap, uint32)\<close> read the low half of the register.\<close>

definition int_arg :: "bool \<Rightarrow> bool \<Rightarrow> u64 \<Rightarrow> u64" where
  "int_arg sg wide w = (if wide then w else if sg then scast (ucast w :: u32) else ucast (ucast w :: u32))"

definition null_str :: "u8 list" where
  "null_str = [40,110,117,108,108,41]"

text \<open>\<open>consputc\<close>: what reaches the uart.\<close>

definition BACKSPACE :: u32 where "BACKSPACE = 0x100"

definition consputc :: "u32 \<Rightarrow> u8 list" where
  "consputc c = (if c = BACKSPACE then [8, 32, 8] else [ucast c])"

definition emit :: "u8 list result \<Rightarrow> u8 list result \<Rightarrow> u8 list result" where
  "emit a b = bind_result a (\<lambda>x. bind_result b (\<lambda>y. Inr (x @ y)))"

text \<open>One conversion: the bytes printed and the arguments left. \<open>pr\<close> is \<open>printint\<close>, \<open>tbl\<close> its digits and \<open>pc\<close> the
  output of one character.\<close>

fun convert :: "(u64 \<Rightarrow> radix \<Rightarrow> bool \<Rightarrow> u8 list result) \<Rightarrow> u8 list \<Rightarrow> (u32 \<Rightarrow> u8 list) \<Rightarrow> conv \<Rightarrow> u8 \<Rightarrow> varg list \<Rightarrow>
    (u8 list \<times> varg list) result" where
  "convert pr tbl pc (C_int r sg wide) c0 (A_int w # ap) =
     bind_result (pr (int_arg sg wide w) r sg) (\<lambda>out. Inr (out, ap))"
| "convert pr tbl pc C_ptr c0 (A_int w # ap) = Inr (printptr tbl w, ap)"
| "convert pr tbl pc C_char c0 (A_int w # ap) = Inr (pc (ucast w), ap)"
| "convert pr tbl pc C_str c0 (A_str s # ap) = Inr (case s of None \<Rightarrow> null_str | Some s \<Rightarrow> s, ap)"
| "convert pr tbl pc C_percent c0 ap = Inr ([37], ap)"
| "convert pr tbl pc C_unknown c0 ap = Inr ([37, c0], ap)"
| "convert pr tbl pc _ c0 ap = Inl (UB ''va_arg'')"

text \<open>\<open>vprintf\<close> of \<^verbatim>\<open>user/printf.c\<close>; \<open>percent\<close> is the state after a percent sign.\<close>

function vprintf :: "bool \<Rightarrow> u8 list \<Rightarrow> varg list \<Rightarrow> u8 list result" where
  "vprintf percent [] ap = Inr []"
| "vprintf False (c0 # fmt) ap =
     (if c0 = 37 then vprintf True fmt ap else emit (Inr [c0]) (vprintf False fmt ap))"
| "vprintf True (c0 # fmt) ap =
     (case conversion c0 (char_at fmt 0) (if char_at fmt 0 = 0 then 0 else char_at fmt 1) of (cv, skip) \<Rightarrow>
        bind_result (convert printint_user udigits (\<lambda>c. [ucast c]) cv c0 ap) (\<lambda>(out, ap).
          emit (Inr out) (vprintf False (drop skip fmt) ap)))"
  by pat_completeness auto
termination by (relation "measure (\<lambda>(p, fmt, ap). length fmt)") auto

definition fprintf :: "u8 list \<Rightarrow> varg list \<Rightarrow> u8 list result" where
  "fprintf fmt ap = vprintf False fmt ap"

text \<open>\<open>printf\<close> of \<^verbatim>\<open>kernel/printf.c\<close>.\<close>

function kprintf :: "u8 list \<Rightarrow> varg list \<Rightarrow> u8 list result" where
  "kprintf [] ap = Inr []"
| "kprintf (cx # fmt) ap =
     (if cx \<noteq> 37 then emit (Inr (consputc (ucast cx))) (kprintf fmt ap)
      else case fmt of
             [] \<Rightarrow> Inr []
           | c0 # f \<Rightarrow>
               (case conversion c0 (char_at f 0) (if char_at f 0 = 0 then 0 else char_at f 1) of (cv, skip) \<Rightarrow>
                  bind_result (convert printint_kernel kdigits consputc cv c0 ap) (\<lambda>(out, ap).
                    emit (Inr out) (kprintf (drop skip f) ap))))"
  by pat_completeness auto
termination by (relation "measure (\<lambda>(fmt, ap). length fmt)") auto

text \<open>What \<open>panic(s)\<close> prints before it stops.\<close>

definition panic_output :: "u8 list \<Rightarrow> u8 list result" where
  "panic_output s =
     emit (kprintf [112, 97, 110, 105, 99, 58, 32] []) (kprintf [37, 115, 10] [A_str (Some s)])"

section \<open>Digits\<close>

text \<open>The value of a digit list, least significant digit first.\<close>

fun digit_value :: "radix \<Rightarrow> nat list \<Rightarrow> nat" where
  "digit_value r [] = 0"
| "digit_value r (d # ds) = d + base r * digit_value r ds"

lemma digit_loop_value: "digit_value r (digit_loop r x) = x"
proof (induction r x rule: digit_loop.induct)
  case (1 r x)
  then show ?case by (subst digit_loop.simps) (auto simp: div_eq_0_iff)
qed

lemma digit_loop_range: "d \<in> set (digit_loop r x) \<Longrightarrow> d < base r"
  by (induction r x rule: digit_loop.induct) (subst (asm) (2) digit_loop.simps, auto split: if_splits)

lemma digit_loop_length: "x < base r ^ n \<Longrightarrow> 0 < n \<Longrightarrow> length (digit_loop r x) \<le> n"
proof (induction n arbitrary: x)
  case (Suc n)
  show ?case
  proof (cases "x div base r = 0")
    case True
    then show ?thesis by (subst digit_loop.simps) simp
  next
    case False
    then have "n \<noteq> 0" using Suc.prems by (cases n) auto
    moreover have "x div base r < base r ^ n" using Suc.prems by (simp add: less_mult_imp_div_less mult.commute)
    ultimately have "length (digit_loop r (x div base r)) \<le> n" using Suc.IH by simp
    then show ?thesis by (subst digit_loop.simps) simp
  qed
qed simp

lemma digit_loop_nonempty [simp]: "digit_loop r x \<noteq> []"
  by (subst digit_loop.simps) simp

lemma digit_loop_top: "last (digit_loop r x) = 0 \<Longrightarrow> x = 0"
proof (induction r x rule: digit_loop.induct)
  case (1 r x)
  show ?case
  proof (cases "x div base r = 0")
    case True
    then show ?thesis using 1(2) by (subst (asm) digit_loop.simps) (use mod_less [of x "base r"] in \<open>auto simp: div_eq_0_iff\<close>)
  next
    case False
    have "last (digit_loop r x) = last (digit_loop r (x div base r))"
      using False by (subst digit_loop.simps) simp
    then show ?thesis using 1 False by simp
  qed
qed

text \<open>The digits in the order they are printed.\<close>

definition numeral_of :: "radix \<Rightarrow> nat list \<Rightarrow> nat \<Rightarrow> bool" where
  "numeral_of r ds x \<longleftrightarrow> ds \<noteq> [] \<and> (\<forall>d\<in>set ds. d < base r) \<and> (hd ds = 0 \<longrightarrow> ds = [0]) \<and>
     foldl (\<lambda>v d. base r * v + d) 0 ds = x"

lemma foldl_digit_value: "foldl (\<lambda>v d. base r * v + d) 0 (rev ds) = digit_value r ds"
  by (induction ds) simp_all

lemma numeral_of_digit_loop: "numeral_of r (rev (digit_loop r x)) x"
  unfolding numeral_of_def
proof (intro conjI ballI impI)
  show "foldl (\<lambda>v d. base r * v + d) 0 (rev (digit_loop r x)) = x"
    by (simp add: foldl_digit_value digit_loop_value)
  show "rev (digit_loop r x) = [0]" if "hd (rev (digit_loop r x)) = 0"
  proof -
    have "x = 0" using digit_loop_top that by (simp add: hd_rev)
    then show ?thesis by (subst digit_loop.simps) simp
  qed
qed (auto dest: digit_loop_range)

lemma print_number_ok:
  assumes "x < base r ^ (if neg then 19 else 20)"
  shows "print_number tbl r neg x = Inr ((if neg then [45] else []) @ map (\<lambda>d. tbl ! d) (rev (digit_loop r x)))"
  using digit_loop_length [OF assms] by (auto simp: print_number_def rev_map)

text \<open>The number a conversion stands for: its sign and its absolute value.\<close>

definition negative :: "bool \<Rightarrow> u64 \<Rightarrow> bool" where
  "negative sg xx \<longleftrightarrow> sg \<and> sint xx < 0"

definition magnitude :: "bool \<Rightarrow> u64 \<Rightarrow> nat" where
  "magnitude sg xx = nat (if sg then \<bar>sint xx\<bar> else uint xx)"

lemma sint_range64: "- (2 ^ 63) \<le> sint (x :: u64)" "sint x < 2 ^ 63"
  using sint_greater_eq [of x] sint_less [of x] by simp_all

lemma uint_of_sint: "uint (x :: u64) = sint x mod 2 ^ 64" "uint (- x) = (- sint x) mod 2 ^ 64"
  using uint_word_of_int [of "sint x", where 'a = 64] uint_word_of_int [of "- sint x", where 'a = 64] by simp_all

lemma mod_small64: "0 \<le> k \<Longrightarrow> k \<le> 2 ^ 63 \<Longrightarrow> k mod 2 ^ 64 = (k :: int)"
  by (rule mod_pos_pos_trivial) simp_all

lemma uint_eq_sint: "0 \<le> sint (x :: u64) \<Longrightarrow> uint x = sint x"
  unfolding uint_of_sint(1) [of x] using sint_range64(2) [of x] by (intro mod_small64) simp_all

lemma uint_minus_sint: "sint (x :: u64) < 0 \<Longrightarrow> uint (- x) = - sint x"
  unfolding uint_of_sint(2) [of x] using sint_range64(1) [of x] by (intro mod_small64) simp_all

lemma unat_magnitude: "unat (if negative sg xx then - xx else xx) = magnitude sg xx"
  using uint_eq_sint [of xx] uint_minus_sint [of xx]
  by (auto simp: negative_def magnitude_def simp flip: nat_uint_eq)

lemma magnitude_bound: "magnitude sg xx < base r ^ (if negative sg xx then 19 else 20)"
proof -
  have "(2::nat) ^ 64 \<le> base r ^ 20" "(2::nat) ^ 63 < base r ^ 19" by (cases r; simp)+
  moreover have "magnitude sg xx < 2 ^ 64"
    using unsigned_less [of "if negative sg xx then - xx else xx", where ?'a = nat] unat_magnitude [of sg xx] by simp
  moreover have "magnitude sg xx \<le> 2 ^ 63" if "negative sg xx"
    using that sint_range64 [of xx] by (auto simp: negative_def magnitude_def)
  ultimately show ?thesis by (auto intro: less_le_trans le_less_trans)
qed

lemma udigits_digit: "d < 10 \<Longrightarrow> is_digit (udigits ! d) \<and> uint (udigits ! d) = 48 + int d"
proof -
  have "\<forall>d\<in>set [0..<10]. is_digit (udigits ! d) \<and> uint (udigits ! d) = 48 + int d" by code_simp
  then show "d < 10 \<Longrightarrow> is_digit (udigits ! d) \<and> uint (udigits ! d) = 48 + int d" by simp
qed

lemma atoi_digit_loop:
  "int x + 48 < 2 ^ 31 \<Longrightarrow> atoi_loop 0 (map (\<lambda>d. udigits ! d) (rev (digit_loop Dec x)) @ s) = atoi_loop (int x) s"
proof (induction x arbitrary: s rule: less_induct)
  case (less x)
  have d: "is_digit (udigits ! (x mod 10))" "uint (udigits ! (x mod 10)) = 48 + int (x mod 10)"
    using udigits_digit [of "x mod 10"] by simp_all
  have step: "atoi_loop (int (x div 10)) (udigits ! (x mod 10) # s) = atoi_loop (int x) s"
  proof -
    have "int (x div 10) * 10 + int (x mod 10) = int x" by (metis div_mult_mod_eq of_nat_add of_nat_mult of_nat_numeral)
    then have "int_ok (int (x div 10) * 10)" "int_ok (int (x div 10) * 10 + (48 + int (x mod 10)))"
      "int (x div 10) * 10 + (48 + int (x mod 10)) - 48 = int x"
      using less.prems by (auto simp: int_ok_def)
    then show ?thesis by (simp only: atoi_loop.simps d if_True simp_thms)
  qed
  show ?case
  proof (cases "x div 10 = 0")
    case True
    then show ?thesis using step by (subst digit_loop.simps) simp
  next
    case False
    then have "x div 10 < x" by (cases x) auto
    moreover have "int (x div 10) + 48 < 2 ^ 31" using \<open>x div 10 < x\<close> less.prems by linarith
    ultimately have "atoi_loop 0 (map (\<lambda>d. udigits ! d) (rev (digit_loop Dec (x div 10))) @ udigits ! (x mod 10) # s) =
        atoi_loop (int (x div 10)) (udigits ! (x mod 10) # s)" by (rule less.IH)
    then show ?thesis using False step by (subst digit_loop.simps) simp
  qed
qed

lemma printint_user_int:
  assumes "0 \<le> sint xx" "sint xx < 2 ^ 32"
  shows "printint_user xx r True = Inr (map (\<lambda>d. udigits ! d) (rev (digit_loop r (nat (sint xx)))))"
proof -
  have "uint xx = sint xx" using assms(1) by (rule uint_eq_sint)
  then have "unat xx = nat (sint xx)" by (simp flip: nat_uint_eq)
  moreover from this have "unat (ucast xx :: u32) = nat (sint xx)"
    using assms by (simp add: unsigned_ucast_eq take_bit_eq_mod nat_less_iff)
  moreover have "nat (sint xx) < base r ^ 20"
  proof -
    have "nat (sint xx) < 2 ^ 32" using assms by (simp add: nat_less_iff)
    also have "(2::nat) ^ 32 \<le> base r ^ 20" by (cases r) simp_all
    finally show ?thesis .
  qed
  ultimately show ?thesis using assms by (simp add: printint_user_def print_number_ok)
qed

section \<open>Properties\<close>

text \<open>C33: \<open>printint\<close> of the kernel is correct at full width: for every 64-bit value, signed or not, in base 10 or 16, it prints a minus
  sign exactly for a negative signed value, then the digits of the absolute value without leading zeros, and
  its buffer of 20 bytes is always large enough. The one of \<^verbatim>\<open>user/printf.c\<close> prints the same kind of numeral, but only of the low 32 bits of the
  absolute value, also for \<open>%ld\<close>, \<open>%lu\<close> and \<open>%lx\<close>. The negation of the smallest value, which C leaves undefined, is taken to wrap around, as the
  machine instruction does.\<close>

theorem printint_correct:
  "(\<exists>ds. printint_kernel xx r sg = Inr ((if negative sg xx then [45] else []) @ map (\<lambda>d. kdigits ! d) ds) \<and>
      numeral_of r ds (magnitude sg xx)) \<and>
   (\<exists>ds. printint_user xx r sg = Inr ((if negative sg xx then [45] else []) @ map (\<lambda>d. udigits ! d) ds) \<and>
      numeral_of r ds (magnitude sg xx mod 2 ^ 32))"
proof -
  let ?x = "if negative sg xx then - xx else xx"
  have "magnitude sg xx mod 2 ^ 32 < base r ^ (if negative sg xx then 19 else 20)"
    by (rule le_less_trans [OF mod_less_eq_dividend magnitude_bound])
  moreover have "unat (ucast ?x :: u32) = magnitude sg xx mod 2 ^ 32"
    by (simp add: unsigned_ucast_eq take_bit_eq_mod unat_magnitude [symmetric] del: if_split)
  ultimately have "printint_kernel xx r sg = print_number kdigits r (negative sg xx) (magnitude sg xx)"
    "printint_user xx r sg = print_number udigits r (negative sg xx) (magnitude sg xx mod 2 ^ 32)"
    using unat_magnitude [of sg xx] unfolding printint_kernel_def printint_user_def Let_def negative_def by simp_all
  then show ?thesis
    using print_number_ok [OF magnitude_bound, of kdigits] numeral_of_digit_loop [of r] 
      print_number_ok [OF le_less_trans [OF mod_less_eq_dividend magnitude_bound], of udigits] by auto
qed

text \<open>C34: What \<open>%d\<close> prints, \<open>atoi\<close> reads back: for every \<open>int\<close> from 0 to 2147483599 the round trip gives the number again,
  without overflow on the way.\<close>

theorem atoi_printf_roundtrip:
  assumes "0 \<le> n" "n \<le> 2147483599"
  shows "\<exists>out. fprintf [37, 100] [A_int (word_of_int n)] = Inr out \<and> atoi out = Inr n"
proof -
  let ?w = "int_arg True False (word_of_int n)"
  have u: "uint (word_of_int n :: u64) = n"
    using assms uint_word_of_int [of n, where 'a = 64] mod_pos_pos_trivial [of n "2 ^ 64"] by simp
  then have "sint (ucast (word_of_int n :: u64) :: u32) = n"
    using assms by (simp only: signed_ucast_eq) (simp add: signed_take_bit_int_eq_self)
  then have w: "sint ?w = n" using assms
    by (simp only: int_arg_def if_False if_True signed_scast_eq) (simp add: signed_take_bit_int_eq_self)
  then have "printint_user ?w Dec True = Inr (map (\<lambda>d. udigits ! d) (rev (digit_loop Dec (nat n))))"
    using assms printint_user_int [of ?w Dec] by simp
  moreover have "atoi_loop 0 (map (\<lambda>d. udigits ! d) (rev (digit_loop Dec (nat n))) @ []) = atoi_loop (int (nat n)) []"
    using assms by (intro atoi_digit_loop) simp
  ultimately show ?thesis using assms by (simp add: fprintf_def conversion_def emit_def atoi_def)
qed

theorem atoi_printf_roundtrip_witness: "\<exists>out. fprintf [37, 100] [A_int 61810] = Inr out \<and> atoi out = Inr 61810"
  using atoi_printf_roundtrip [of 61810] by simp

end
