(* ===== verification/Console.thy ===== *)
theory Console
  imports Pipe Printf
begin

text \<open>
  \<^verbatim>\<open>kernel/console.c\<close> and \<^verbatim>\<open>kernel/uart.c\<close>: input with line editing, and output. The registers of the uart are
  the environment: \<open>sent\<close> is what was written to its transmit register, and an interrupt brings whether the
  transmitter is idle and the bytes that have arrived. A call that has to sleep ends with what it needs
  to go on. \<open>wakes\<close> are the channels passed to \<open>wakeup\<close>; what \<open>procdump\<close> prints is an argument. The specification is a line
  editor on two lists of bytes.
\<close>

section \<open>State\<close>

datatype cchan = Chan_r | Chan_tx

record cons =
  cbuf :: "u8 list"
  cr :: u32
  cw :: u32
  ce :: u32
  tx_busy :: bool
  sent :: "u8 list"

definition INPUT_BUF_SIZE :: u32 where "INPUT_BUF_SIZE = 128"

abbreviation ctrl_D :: u32 where "ctrl_D \<equiv> 4"
abbreviation ctrl_H :: u32 where "ctrl_H \<equiv> 8"
abbreviation ctrl_P :: u32 where "ctrl_P \<equiv> 16"
abbreviation ctrl_U :: u32 where "ctrl_U \<equiv> 21"

section \<open>Output\<close>

text \<open>\<open>uartputc_sync\<close> waits until the transmitter is idle; \<open>consputc\<close> is in theory Printf.\<close>

definition put_sync :: "u32 \<Rightarrow> cons \<Rightarrow> cons" where
  "put_sync c s = s\<lparr>sent := sent s @ consputc c\<rparr>"

text \<open>The bytes that are left when \<open>uartwrite\<close> has to wait for the transmitter.\<close>

fun uartwrite :: "u8 list \<Rightarrow> cons \<Rightarrow> u8 list \<times> cons" where
  "uartwrite [] s = ([], s)"
| "uartwrite (b # bs) s =
     (if tx_busy s then (b # bs, s) else uartwrite bs (s\<lparr>sent := sent s @ [b], tx_busy := True\<rparr>))"

datatype wres = W_returns int | W_sleeps int "u8 list"

text \<open>\<open>W_sleeps i bs\<close>: inside \<open>uartwrite\<close> with \<open>bs\<close> left, and \<open>i\<close> bytes written when it returns.\<close>

function consolewrite_loop :: "uproc \<Rightarrow> u64 \<Rightarrow> int \<Rightarrow> int \<Rightarrow> cons \<Rightarrow> kmem \<Rightarrow> (wres \<times> cons \<times> kmem) result" where
  "consolewrite_loop p src i n s k =
     (if i < n
      then let nn = min 32 (n - i)
           in bind_result (copyin (ukend p) (upt p) (usz p) (upt p) (src + of_int i) (nat nn) k) (\<lambda>(bs, ok, k).
                if \<not> ok then Inr (W_returns i, s, k)
                else case uartwrite bs s of
                       ([], s) \<Rightarrow> consolewrite_loop p src (i + nn) n s k
                     | (b # rest, s) \<Rightarrow> Inr (W_sleeps (i + nn) (b # rest), s, k))
      else Inr (W_returns i, s, k))"
  by pat_completeness auto
termination by (relation "measure (\<lambda>(p, src, i, n, s, k). nat (n - i))") auto

declare consolewrite_loop.simps [simp del]

definition consolewrite :: "uproc \<Rightarrow> u64 \<Rightarrow> cint \<Rightarrow> cons \<Rightarrow> kmem \<Rightarrow> (wres \<times> cons \<times> kmem) result" where
  "consolewrite p src n s k = consolewrite_loop p src 0 (sint n) s k"

text \<open>After \<open>sleep\<close> in \<open>uartwrite\<close> returns.\<close>

definition consolewrite_resume ::
  "uproc \<Rightarrow> u64 \<Rightarrow> cint \<Rightarrow> int \<Rightarrow> u8 list \<Rightarrow> cons \<Rightarrow> kmem \<Rightarrow> (wres \<times> cons \<times> kmem) result" where
  "consolewrite_resume p src n i bs s k =
     (case uartwrite bs s of
        ([], s) \<Rightarrow> consolewrite_loop p src i (sint n) s k
      | (b # rest, s) \<Rightarrow> Inr (W_sleeps i (b # rest), s, k))"

section \<open>Input\<close>

text \<open>The third argument is \<open>n\<close>, the bytes still wanted. A sleeping call goes on with the same arguments.\<close>

fun consoleread_loop :: "uproc \<Rightarrow> u64 \<Rightarrow> nat \<Rightarrow> nat \<Rightarrow> cons \<Rightarrow> kmem \<Rightarrow> (outcome \<times> cons \<times> kmem) result" where
  "consoleread_loop p dst target 0 s k = Inr (Returns (int target), s, k)"
| "consoleread_loop p dst target (Suc n) s k =
     (if cr s = cw s
      then if ukilled p then Inr (Returns (-1), s, k) else Inr (Sleeps (int (Suc n)), s, k)
      else let c = cbuf s ! unat (cr s mod INPUT_BUF_SIZE); s = s\<lparr>cr := cr s + 1\<rparr>
           in if c = ucast ctrl_D
              then let s = (if Suc n < target then s\<lparr>cr := cr s - 1\<rparr> else s)
                   in Inr (Returns (int target - int (Suc n)), s, k)
              else bind_result (copyout (ukend p) (upt p) (usz p) (upt p) dst [c] k) (\<lambda>(ok, k).
                     if \<not> ok then Inr (Returns (int target - int (Suc n)), s, k)
                     else if c = 10 then Inr (Returns (int target - int n), s, k)
                     else consoleread_loop p (dst + 1) target n s k))"

definition consoleread :: "uproc \<Rightarrow> u64 \<Rightarrow> cint \<Rightarrow> cons \<Rightarrow> kmem \<Rightarrow> (outcome \<times> cons \<times> kmem) result" where
  "consoleread p dst n s k = consoleread_loop p dst (nat (sint n)) (nat (sint n)) s k"

lemma unat_minus_one_less: "(x :: u32) \<noteq> 0 \<Longrightarrow> unat (x - 1) = unat x - 1"
  by (simp add: unat_minus_one)

function kill_loop :: "cons \<Rightarrow> cons" where
  "kill_loop s =
     (if ce s \<noteq> cw s \<and> cbuf s ! unat ((ce s - 1) mod INPUT_BUF_SIZE) \<noteq> 10
      then kill_loop (put_sync BACKSPACE (s\<lparr>ce := ce s - 1\<rparr>))
      else s)"
  by pat_completeness auto
termination
proof (relation "measure (\<lambda>s. unat (ce s - cw s))")
  fix s :: cons assume "ce s \<noteq> cw s \<and> cbuf s ! unat ((ce s - 1) mod INPUT_BUF_SIZE) \<noteq> 10"
  then have "ce s - cw s \<noteq> 0" by simp
  moreover have eq: "ce s - 1 - cw s = ce s - cw s - 1" by simp
  ultimately have "unat (ce s - 1 - cw s) < unat (ce s - cw s)"
    unfolding eq using unat_minus_one_less [of "ce s - cw s"] unat_eq_0 [of "ce s - cw s"] by simp
  then show "(put_sync BACKSPACE (s\<lparr>ce := ce s - 1\<rparr>), s) \<in> measure (\<lambda>s. unat (ce s - cw s))"
    by (simp add: put_sync_def)
qed simp

declare kill_loop.simps [simp del]

definition consoleintr :: "u8 list \<Rightarrow> u32 \<Rightarrow> cons \<Rightarrow> cchan list \<times> cons" where
  "consoleintr dump c s =
     (if c = ctrl_P then ([], s\<lparr>sent := sent s @ dump\<rparr>)
      else if c = ctrl_U then ([], kill_loop s)
      else if c = ctrl_H \<or> c = 0x7f
      then ([], if ce s \<noteq> cw s then put_sync BACKSPACE (s\<lparr>ce := ce s - 1\<rparr>) else s)
      else if c \<noteq> 0 \<and> ce s - cr s < INPUT_BUF_SIZE
      then let c = (if c = 13 then 10 else c); s = put_sync c s;
               s = s\<lparr>cbuf := (cbuf s)[unat (ce s mod INPUT_BUF_SIZE) := ucast c], ce := ce s + 1\<rparr>
           in if c = 10 \<or> c = ctrl_D \<or> ce s - cr s = INPUT_BUF_SIZE then ([Chan_r], s\<lparr>cw := ce s\<rparr>) else ([], s)
      else ([], s))"

text \<open>\<open>uartintr\<close>, with what the device reports: transmitter idle, and the bytes that \<open>uartgetc\<close> returns.\<close>

fun input_loop :: "u8 list \<Rightarrow> u8 list \<Rightarrow> cons \<Rightarrow> cchan list \<times> cons" where
  "input_loop dump [] s = ([], s)"
| "input_loop dump (c # cs) s =
     (let (w, s) = consoleintr dump (ucast c) s; (w', s) = input_loop dump cs s in (w @ w', s))"

definition uartintr :: "u8 list \<Rightarrow> bool \<Rightarrow> u8 list \<Rightarrow> cons \<Rightarrow> cchan list \<times> cons" where
  "uartintr dump tx_idle arrived s =
     (let (w, s) = (if tx_idle then ([Chan_tx], s\<lparr>tx_busy := False\<rparr>) else ([], s));
          (w', s) = input_loop dump arrived s
      in (w @ w', s))"

section \<open>The ring\<close>

text \<open>The bytes typed and not yet read; the first ones are committed, the rest can still be edited.\<close>

definition typed :: "cons \<Rightarrow> u8 list" where
  "typed s = map (\<lambda>i. cbuf s ! ((unat (cr s) + i) mod 128)) [0..<unat (ce s - cr s)]"

definition ncommitted :: "cons \<Rightarrow> nat" where
  "ncommitted s = unat (cw s - cr s)"

definition cons_inv :: "cons \<Rightarrow> bool" where
  "cons_inv s \<longleftrightarrow> length (cbuf s) = 128 \<and> length (typed s) \<le> 128 \<and> ncommitted s \<le> length (typed s)"

lemma length_typed [simp]: "length (typed s) = unat (ce s - cr s)"
  by (simp add: typed_def)

lemma slot: "unat ((r + of_nat i) mod INPUT_BUF_SIZE) = (unat (r :: u32) + i) mod 128"
proof -
  have "unat (x mod INPUT_BUF_SIZE) = unat x mod 128" for x by (simp add: INPUT_BUF_SIZE_def unat_mod_distrib)
  moreover have "unat (r + of_nat i) mod 128 = (unat r + i) mod 128"
    by (simp add: unat_word_ariths unat_of_nat take_bit_eq_mod mod_mod_cancel mod_simps)
  ultimately show ?thesis by simp
qed

lemma slot_end: "unat (e mod INPUT_BUF_SIZE) = (unat (r :: u32) + unat (e - r)) mod 128"
  using slot [of r "unat (e - r)"] by simp

lemma index_eq: "(a :: u32) = b \<longleftrightarrow> unat (a - r) = unat (b - r)"
proof
  assume "unat (a - r) = unat (b - r)"
  then have "a - r = b - r" by (simp add: word_unat_eq_iff)
  then show "a = b" by simp
qed simp

lemma typed_nth: "i < unat (ce s - cr s) \<Longrightarrow> typed s ! i = cbuf s ! ((unat (cr s) + i) mod 128)"
  by (simp add: typed_def)

lemma typed_put_sync [simp]: "typed (put_sync c s) = typed s" "ncommitted (put_sync c s) = ncommitted s"
  by (simp_all add: typed_def ncommitted_def put_sync_def)

lemma put_sync_fields [simp]:
  "cbuf (put_sync d s) = cbuf s" "ce (put_sync d s) = ce s" "cr (put_sync d s) = cr s" "cw (put_sync d s) = cw s"
  by (simp_all add: put_sync_def)

text \<open>Erasing the last byte, appending one, and reading the first one.\<close>

lemma typed_erase:
  assumes "ce s \<noteq> cr s"
  shows "typed (s\<lparr>ce := ce s - 1\<rparr>) = butlast (typed s)"
    "cbuf s ! unat ((ce s - 1) mod INPUT_BUF_SIZE) = last (typed s)" "typed s \<noteq> []"
proof -
  have n: "unat (ce s - 1 - cr s) = unat (ce s - cr s) - 1" "unat (ce s - cr s) \<noteq> 0"
    using assms unat_minus_one_less [of "ce s - cr s"] unat_eq_0 [of "ce s - cr s"] by (simp_all add: algebra_simps)
  then show "typed (s\<lparr>ce := ce s - 1\<rparr>) = butlast (typed s)"
    by (intro nth_equalityI) (auto simp: typed_nth nth_butlast)
  show ne: "typed s \<noteq> []" using n by (metis length_typed list.size(3))
  show "cbuf s ! unat ((ce s - 1) mod INPUT_BUF_SIZE) = last (typed s)"
    using n ne slot_end [of "ce s - 1" "cr s"] by (simp add: last_conv_nth typed_nth)
qed

lemma typed_append:
  assumes "length (cbuf s) = 128" "unat (ce s - cr s) < 128"
  shows "typed (s\<lparr>cbuf := (cbuf s)[unat (ce s mod INPUT_BUF_SIZE) := c], ce := ce s + 1\<rparr>) = typed s @ [c]"
proof -
  let ?n = "unat (ce s - cr s)"
  have n: "unat (ce s + 1 - cr s) = Suc ?n"
  proof -
    have "unat (ce s + 1 - cr s) = unat ((ce s - cr s) + 1)" by (simp add: algebra_simps)
    also have "\<dots> = ?n + 1" using assms by (subst unat_add_no_wrap) simp_all
    finally show ?thesis by simp
  qed
  have "(unat (cr s) + ?n) mod 128 \<noteq> (unat (cr s) + i) mod 128" if "i < ?n" for i
    using mod_cancel_less [of "unat (cr s)" ?n 128 i] that assms(2) by auto
  then show ?thesis using assms n slot_end [of "ce s" "cr s"]
    by (intro nth_equalityI) (auto simp: typed_nth nth_append nth_list_update less_Suc_eq)
qed

lemma typed_read:
  assumes "cr s \<noteq> ce s"
  shows "typed s = cbuf s ! unat (cr s mod INPUT_BUF_SIZE) # typed (s\<lparr>cr := cr s + 1\<rparr>)"
proof -
  have "ce s - cr s \<noteq> 0" using assms by simp
  then have n: "unat (ce s - (cr s + 1)) = unat (ce s - cr s) - 1" "unat (ce s - cr s) \<noteq> 0"
    using unat_minus_one_less [of "ce s - cr s"] unat_eq_0 [of "ce s - cr s"] by (simp_all add: algebra_simps)
  have "(unat (cr s + 1) + i) mod 128 = (unat (cr s) + Suc i) mod 128" for i
    using slot [of "cr s + 1" i] slot [of "cr s" "Suc i"] by (simp add: algebra_simps)
  then show ?thesis using n slot [of "cr s" 0]
    by (intro nth_equalityI) (auto simp: typed_nth nth_Cons split: nat.splits)
qed

section \<open>The line editor\<close>

text \<open>Committed input and the line being edited. The first result says whether a line was committed.\<close>

definition line_edit :: "u8 \<Rightarrow> u8 list \<times> u8 list \<Rightarrow> bool \<times> u8 list \<times> u8 list" where
  "line_edit c = (\<lambda>(com, ed).
     if c = 16 then (False, com, ed)
     else if c = 21 then (False, com, [])
     else if c = 8 \<or> c = 0x7f then (False, com, butlast ed)
     else if c \<noteq> 0 \<and> length com + length ed < 128
     then let c = (if c = 13 then 10 else c)
          in if c = 10 \<or> c = 4 \<or> length com + length ed = 127 then (True, com @ ed @ [c], [])
             else (False, com, ed @ [c])
     else (False, com, ed))"

definition cons_abs :: "cons \<Rightarrow> u8 list \<times> u8 list" where
  "cons_abs s = (take (ncommitted s) (typed s), drop (ncommitted s) (typed s))"

text \<open>The line being edited never contains a newline.\<close>

definition cons_ok :: "cons \<Rightarrow> bool" where
  "cons_ok s \<longleftrightarrow> cons_inv s \<and> 10 \<notin> set (snd (cons_abs s))"

lemma editing_empty_iff: "cons_inv s \<Longrightarrow> ce s = cw s \<longleftrightarrow> snd (cons_abs s) = []"
  using index_eq [of "ce s" "cw s" "cr s"] by (auto simp: cons_abs_def cons_inv_def ncommitted_def)

lemma erase_step:
  assumes "cons_ok s" "ce s \<noteq> cw s"
  defines "s' \<equiv> put_sync BACKSPACE (s\<lparr>ce := ce s - 1\<rparr>)"
  shows "cons_ok s'" "cons_abs s' = (fst (cons_abs s), butlast (snd (cons_abs s)))"
    "cbuf s ! unat ((ce s - 1) mod INPUT_BUF_SIZE) = last (snd (cons_abs s))"
proof -
  have inv: "cons_inv s" and ne: "snd (cons_abs s) \<noteq> []"
    using assms editing_empty_iff [of s] by (auto simp: cons_ok_def)
  then have lt: "ncommitted s < length (typed s)" by (simp add: cons_abs_def)
  then have cr: "ce s \<noteq> cr s" by auto
  have le: "ncommitted s \<le> length (typed s) - Suc 0" using lt by linarith
  note e = typed_erase [OF cr]
  have nc: "ncommitted (s\<lparr>ce := ce s - 1\<rparr>) = ncommitted s" by (simp add: ncommitted_def)
  show abs: "cons_abs s' = (fst (cons_abs s), butlast (snd (cons_abs s)))"
    using lt le e(1) nc by (simp add: s'_def cons_abs_def butlast_conv_take drop_take min_def del: length_typed)
  show "cbuf s ! unat ((ce s - 1) mod INPUT_BUF_SIZE) = last (snd (cons_abs s))"
    using e(2) lt by (simp add: cons_abs_def last_drop del: length_typed)
  have "length (cbuf s') = 128" "length (typed s') \<le> 128" "ncommitted s' \<le> length (typed s')"
    using inv lt e(1) nc by (auto simp: s'_def cons_inv_def put_sync_def simp del: length_typed)
      (simp_all add: typed_def ncommitted_def)
  then show "cons_ok s'" using abs assms(1) by (auto simp: cons_ok_def cons_inv_def dest: in_set_butlastD)
qed

lemma kill_loop_correct:
  "cons_ok s \<Longrightarrow> cons_ok (kill_loop s) \<and> cons_abs (kill_loop s) = (fst (cons_abs s), [])"
proof (induction s rule: kill_loop.induct)
  case (1 s)
  show ?case
  proof (cases "ce s = cw s")
    case True
    then show ?thesis using 1(2) editing_empty_iff [of s]
      by (subst (1 2) kill_loop.simps) (auto simp: cons_ok_def prod_eq_iff)
  next
    case False
    note e = erase_step [OF 1(2) False]
    have "snd (cons_abs s) \<noteq> []" using 1(2) False editing_empty_iff [of s] by (simp add: cons_ok_def)
    then have nl: "cbuf s ! unat ((ce s - 1) mod INPUT_BUF_SIZE) \<noteq> 10"
      using e(3) 1(2) by (metis cons_ok_def last_in_set)
    have "kill_loop s = kill_loop (put_sync BACKSPACE (s\<lparr>ce := ce s - 1\<rparr>))"
      using False nl by (subst kill_loop.simps) simp
    then show ?thesis using 1(1) [OF _ e(1)] False nl e(2) by simp
  qed
qed

text \<open>An ordinary byte that finds room.\<close>

lemma append_step:
  fixes c :: u8 and d :: u32
  assumes ok: "cons_ok s" and room: "unat (ce s - cr s) < 128"
  defines "s1 \<equiv> (put_sync d s)\<lparr>cbuf := (cbuf s)[unat (ce s mod INPUT_BUF_SIZE) := c], ce := ce s + 1\<rparr>"
  shows "cons_abs s1 = (fst (cons_abs s), snd (cons_abs s) @ [c])" "cons_inv s1"
    "cons_abs (s1\<lparr>cw := ce s1\<rparr>) = (fst (cons_abs s) @ snd (cons_abs s) @ [c], [])" "cons_inv (s1\<lparr>cw := ce s1\<rparr>)"
    "unat (ce s1 - cr s1) = Suc (unat (ce s - cr s))"
proof -
  have inv: "cons_inv s" using ok by (simp add: cons_ok_def)
  have t: "typed s1 = typed s @ [c]"
    using typed_append [of "put_sync d s" c] inv room by (simp add: s1_def cons_inv_def)
  have t2: "typed (s1\<lparr>cw := ce s1\<rparr>) = typed s @ [c]" using t by (simp add: typed_def)
  have n1: "ncommitted s1 = ncommitted s" by (simp add: s1_def ncommitted_def put_sync_def)
  have n2: "ncommitted (s1\<lparr>cw := ce s1\<rparr>) = length (typed s @ [c])"
    using arg_cong [OF t, of length] by (simp add: ncommitted_def)
  have c: "length (cbuf s1) = 128" using inv by (simp add: s1_def cons_inv_def)
  show "cons_abs s1 = (fst (cons_abs s), snd (cons_abs s) @ [c])"
    using inv t n1 by (simp add: cons_abs_def cons_inv_def)
  show "cons_abs (s1\<lparr>cw := ce s1\<rparr>) = (fst (cons_abs s) @ snd (cons_abs s) @ [c], [])"
    using t2 n2 by (simp add: cons_abs_def)
  have len: "length (typed s1) \<le> 128" using t room by simp
  then show "cons_inv s1" using inv t n1 c by (simp add: cons_inv_def del: length_typed)
  show "cons_inv (s1\<lparr>cw := ce s1\<rparr>)" using t2 n2 c len t by (simp add: cons_inv_def del: length_typed)
  show "unat (ce s1 - cr s1) = Suc (unat (ce s - cr s))"
    using arg_cong [OF t, of length] by simp
qed

lemma abs_length: "cons_inv s \<Longrightarrow> length (fst (cons_abs s)) + length (snd (cons_abs s)) = unat (ce s - cr s)"
  by (simp add: cons_abs_def cons_inv_def)

lemma unat_ucast_byte: "unat (ucast (b :: u8) :: u32) = unat b"
  using unsigned_less [of b, where ?'a = nat] by (simp add: unsigned_ucast_eq take_bit_nat_eq_self_iff)

lemma ucast_byte_eq: "(ucast (b :: u8) :: u32) = ucast (c :: u8) \<longleftrightarrow> b = c"
  by (simp only: word_unat_eq_iff unat_ucast_byte)

lemma full_iff: "unat (x :: u32) = 128 \<longleftrightarrow> x = INPUT_BUF_SIZE"
  by (auto simp: INPUT_BUF_SIZE_def word_unat_eq_iff)

text \<open>\<open>line_edit\<close> for a byte that is stored.\<close>

lemma line_edit_store:
  assumes "b \<noteq> 16" "b \<noteq> 21" "b \<noteq> 8" "b \<noteq> 0x7f" "b \<noteq> 0" "length (fst a) + length (snd a) < 128"
  shows "line_edit b a =
    (let c = (if b = 13 then 10 else b)
     in if c = 10 \<or> c = 4 \<or> length (fst a) + length (snd a) = 127 then (True, fst a @ snd a @ [c], [])
        else (False, fst a, snd a @ [c]))"
  using assms by (cases a) (simp add: line_edit_def)

lemma consoleintr_store:
  assumes ok: "cons_ok s" and b: "b \<noteq> 16" "b \<noteq> 21" "b \<noteq> 8" "b \<noteq> 0x7f" "b \<noteq> 0" and room: "unat (ce s - cr s) < 128"
    and r: "consoleintr dump (ucast b) s = (w, s')"
  shows "cons_ok s' \<and> line_edit b (cons_abs s) = (w \<noteq> [], cons_abs s')"
proof -
  let ?c = "if b = 13 then 10 else b :: u8"
  let ?s1 = "(put_sync (ucast ?c) s)\<lparr>cbuf := (cbuf s)[unat (ce s mod INPUT_BUF_SIZE) := ?c], ce := ce s + 1\<rparr>"
  note a = append_step [OF ok room, where c = ?c and d = "ucast ?c"]
  have num: "(ucast b :: u32) \<noteq> 16" "(ucast b :: u32) \<noteq> 21" "(ucast b :: u32) \<noteq> 8" "(ucast b :: u32) \<noteq> 0x7f" "(ucast b :: u32) \<noteq> 0"
    using b ucast_byte_eq [of b 16] ucast_byte_eq [of b 21] ucast_byte_eq [of b 8] ucast_byte_eq [of b "0x7f"]
      ucast_byte_eq [of b 0] by simp_all
  have c: "(if ucast b = (13 :: u32) then 10 else ucast b) = (ucast ?c :: u32)"
    using ucast_byte_eq [of b 13] by auto
  have c': "(ucast ?c :: u32) = 10 \<longleftrightarrow> ?c = 10" "(ucast ?c :: u32) = 4 \<longleftrightarrow> ?c = 4" "ucast (ucast ?c :: u32) = ?c"
    using ucast_byte_eq [of ?c 10] ucast_byte_eq [of ?c 4] by (auto simp: ucast_up_ucast_id is_up_def source_size_def target_size_def)
  have full: "ce ?s1 - cr ?s1 = INPUT_BUF_SIZE \<longleftrightarrow> unat (ce s - cr s) = 127"
    using a(5) full_iff [of "ce ?s1 - cr ?s1"] by simp
  have lt: "ce s - cr s < INPUT_BUF_SIZE" using room by (simp add: INPUT_BUF_SIZE_def word_less_nat_alt)
  have r': "(w, s') = (if ?c = 10 \<or> ?c = 4 \<or> unat (ce s - cr s) = 127 then ([Chan_r], ?s1\<lparr>cw := ce ?s1\<rparr>) else ([], ?s1))"
    using r num lt unfolding consoleintr_def c Let_def c' put_sync_fields full [symmetric] by simp
  have inv: "cons_inv s" using ok by (simp add: cons_ok_def)
  have le: "line_edit b (cons_abs s) =
    (if ?c = 10 \<or> ?c = 4 \<or> unat (ce s - cr s) = 127 then (True, fst (cons_abs s) @ snd (cons_abs s) @ [?c], [])
     else (False, fst (cons_abs s), snd (cons_abs s) @ [?c]))"
    using line_edit_store [OF b, of "cons_abs s"] room abs_length [OF inv] by (simp only: Let_def)
  show ?thesis
  proof (cases "?c = 10 \<or> ?c = 4 \<or> unat (ce s - cr s) = 127")
    case True
    then show ?thesis using r' le a(3,4) by (simp add: cons_ok_def)
  next
    case False
    then show ?thesis using r' le a(1,2) ok by (auto simp: cons_ok_def)
  qed
qed

lemma consoleintr_refines:
  assumes ok: "cons_ok s" and r: "consoleintr dump (ucast b) s = (w, s')"
  shows "cons_ok s' \<and> line_edit b (cons_abs s) = (w \<noteq> [], cons_abs s')"
proof -
  have inv: "cons_inv s" using ok by (simp add: cons_ok_def)
  have sent: "cons_abs (s\<lparr>sent := x\<rparr>) = cons_abs s" "cons_ok (s\<lparr>sent := x\<rparr>) = cons_ok s" for x
    by (simp_all add: cons_ok_def cons_inv_def cons_abs_def typed_def ncommitted_def)
  consider "b = 16" | "b = 21" | "b = 8 \<or> b = 0x7f"
    | "b \<noteq> 16" "b \<noteq> 21" "b \<noteq> 8" "b \<noteq> 0x7f" "b = 0 \<or> \<not> unat (ce s - cr s) < 128"
    | "b \<noteq> 16" "b \<noteq> 21" "b \<noteq> 8" "b \<noteq> 0x7f" "b \<noteq> 0" "unat (ce s - cr s) < 128" by blast
  then show ?thesis
  proof cases
    case 1
    then show ?thesis using ok r sent by (auto simp: consoleintr_def line_edit_def split: prod.splits)
  next
    case 2
    then show ?thesis using ok r kill_loop_correct [OF ok]
      by (auto simp: consoleintr_def line_edit_def split: prod.splits)
  next
    case 3
    then have "(w, s') = ([], if ce s \<noteq> cw s then put_sync BACKSPACE (s\<lparr>ce := ce s - 1\<rparr>) else s)"
      using r by (auto simp: consoleintr_def)
    moreover have "line_edit b (cons_abs s) = (False, fst (cons_abs s), butlast (snd (cons_abs s)))"
      using 3 by (cases "cons_abs s") (auto simp: line_edit_def)
    ultimately show ?thesis using ok erase_step [OF ok] editing_empty_iff [OF inv]
      by (cases "ce s = cw s") (auto simp: prod_eq_iff)
  next
    case 4
    have "(ucast b :: u32) \<noteq> 16" "(ucast b :: u32) \<noteq> 21" "(ucast b :: u32) \<noteq> 8" "(ucast b :: u32) \<noteq> 0x7f"
      using 4 ucast_byte_eq [of b 16] ucast_byte_eq [of b 21] ucast_byte_eq [of b 8] ucast_byte_eq [of b "0x7f"] by simp_all
    moreover have "\<not> (ucast b \<noteq> (0 :: u32) \<and> ce s - cr s < INPUT_BUF_SIZE)"
      using 4(5) by (auto simp: INPUT_BUF_SIZE_def word_less_nat_alt)
    ultimately have "(w, s') = ([], s)" using r by (auto simp: consoleintr_def)
    moreover have "line_edit b (cons_abs s) = (False, cons_abs s)"
      using 4 abs_length [OF inv] by (cases "cons_abs s") (auto simp: line_edit_def)
    ultimately show ?thesis using ok by simp
  next
    case 5
    then show ?thesis by (intro consoleintr_store [OF ok _ _ _ _ _ _ r]) auto
  qed
qed

section \<open>Reading\<close>

lemma read_step:
  assumes ok: "cons_ok s" and ne: "cr s \<noteq> cw s"
  defines "c \<equiv> cbuf s ! unat (cr s mod INPUT_BUF_SIZE)" and "s' \<equiv> s\<lparr>cr := cr s + 1\<rparr>"
  shows "cons_ok s'" "cons_abs s = (c # fst (cons_abs s'), snd (cons_abs s'))"
proof -
  have inv: "cons_inv s" using ok by (simp add: cons_ok_def)
  have "cw s - cr s \<noteq> 0" using ne by simp
  then have w: "ncommitted s \<noteq> 0" "ncommitted s' = ncommitted s - 1"
    using unat_minus_one_less [of "cw s - cr s"] by (simp_all add: ncommitted_def s'_def unat_eq_0 algebra_simps)
  then have "unat (ce s - cr s) \<noteq> 0" using inv by (auto simp: cons_inv_def)
  then have "cr s \<noteq> ce s" by auto
  then have t: "typed s = c # typed s'" using typed_read [of s] by (simp add: c_def s'_def)
  obtain n where n: "ncommitted s = Suc n" using w(1) by (cases "ncommitted s") auto
  show abs: "cons_abs s = (c # fst (cons_abs s'), snd (cons_abs s'))"
    using t w(2) n by (simp add: cons_abs_def)
  have "cons_inv s'" using inv t w n by (simp add: cons_inv_def s'_def del: length_typed)
  then show "cons_ok s'" using ok abs by (simp add: cons_ok_def)
qed

lemma committed_empty_iff: "cons_inv s \<Longrightarrow> cr s = cw s \<longleftrightarrow> fst (cons_abs s) = []"
proof -
  assume inv: "cons_inv s"
  have "cr s = cw s \<longleftrightarrow> cw s - cr s = 0" by auto
  also have "\<dots> \<longleftrightarrow> ncommitted s = 0" by (simp add: ncommitted_def unat_eq_0)
  also have "\<dots> \<longleftrightarrow> fst (cons_abs s) = []" using inv by (auto simp: cons_abs_def cons_inv_def simp del: length_typed)
  finally show ?thesis .
qed

text \<open>What a read takes off the committed input: part of a line, all of it with its newline, or up to an end-of-file mark.\<close>

definition read_piece :: "u8 list \<Rightarrow> bool" where
  "read_piece bs \<longleftrightarrow> 10 \<notin> set (butlast bs) \<and> 4 \<notin> set (butlast bs)"

lemma consoleread_loop_spec:
  assumes "cons_ok s" "consoleread_loop p dst target n s k = Inr (out, s', k')" "n \<le> target"
  shows "cons_ok s' \<and> snd (cons_abs s') = snd (cons_abs s) \<and>
    (\<exists>bs. fst (cons_abs s) = bs @ fst (cons_abs s') \<and> length bs \<le> n \<and> read_piece bs \<and>
      (case out of
         Sleeps j \<Rightarrow> j = int (n - length bs) \<and> length bs < n \<and> fst (cons_abs s') = [] \<and> \<not> ukilled p
       | Returns r \<Rightarrow> r = -1 \<and> ukilled p \<and> fst (cons_abs s') = [] \<or> r = int (target - n + length bs) \<or>
           bs \<noteq> [] \<and> r + 1 = int (target - n + length bs)))"
  using assms
proof (induction n arbitrary: s dst k)
  case 0
  then show ?case by (auto simp: read_piece_def)
next
  case (Suc n)
  have inv: "cons_inv s" using Suc.prems(1) by (simp add: cons_ok_def)
  show ?case
  proof (cases "cr s = cw s")
    case True
    then have "fst (cons_abs s) = []" using committed_empty_iff [OF inv] by simp
    with True Suc.prems show ?thesis by (auto simp: read_piece_def split: if_splits)
  next
    case False
    let ?c = "cbuf s ! unat (cr s mod INPUT_BUF_SIZE)" and ?s = "s\<lparr>cr := cr s + 1\<rparr>"
    note step = read_step [OF Suc.prems(1) False]
    show ?thesis
    proof (cases "?c = 4")
      case True
      then have o: "out = Returns (int target - int (Suc n))"
        and s': "s' = (if Suc n < target then ?s\<lparr>cr := cr ?s - 1\<rparr> else ?s)"
        using Suc.prems(2) False by (auto simp: Let_def)
      show ?thesis
      proof (cases "Suc n < target")
        case lt: True
        then have "s' = s" using s' by simp
        then show ?thesis using o Suc.prems lt by (auto simp: read_piece_def)
      next
        case ge: False
        then have "s' = ?s" using s' by simp
        then show ?thesis using o step Suc.prems(3) ge by (auto simp: read_piece_def intro!: exI [of _ "[?c]"])
      qed
    next
      case c4: False
      obtain ok k1 where co: "copyout (ukend p) (upt p) (usz p) (upt p) dst [?c] k = Inr (ok, k1)"
        using Suc.prems(2) False c4 by (auto simp: bind_result_Inr_iff Let_def)
      consider "\<not> ok" | "ok" "?c = 10" | "ok" "?c \<noteq> 10" by blast
      then show ?thesis
      proof cases
        case 1
        then have "out = Returns (int target - int (Suc n))" "s' = ?s"
          using Suc.prems(2) False c4 co by (auto simp: Let_def)
        then show ?thesis using step Suc.prems(3) by (auto simp: read_piece_def intro!: exI [of _ "[?c]"])
      next
        case 2
        then have "out = Returns (int target - int n)" "s' = ?s"
          using Suc.prems(2) False c4 co by (auto simp: Let_def)
        then show ?thesis using step Suc.prems(3) by (auto simp: read_piece_def intro!: exI [of _ "[?c]"])
      next
        case 3
        then have "consoleread_loop p (dst + 1) target n ?s k1 = Inr (out, s', k')"
          using Suc.prems(2) False c4 co by (auto simp: Let_def)
        from Suc.IH [OF step(1) this] Suc.prems(3) obtain bs where
          b: "cons_ok s'" "snd (cons_abs s') = snd (cons_abs ?s)" "fst (cons_abs ?s) = bs @ fst (cons_abs s')"
          "length bs \<le> n" "read_piece bs"
          "case out of
             Sleeps j \<Rightarrow> j = int (n - length bs) \<and> length bs < n \<and> fst (cons_abs s') = [] \<and> \<not> ukilled p
           | Returns r \<Rightarrow> r = -1 \<and> ukilled p \<and> fst (cons_abs s') = [] \<or> r = int (target - n + length bs) \<or>
               bs \<noteq> [] \<and> r + 1 = int (target - n + length bs)" by auto
        have "read_piece (?c # bs)" using b(5) 3 c4 by (auto simp: read_piece_def)
        then show ?thesis using b step Suc.prems(3)
          by (intro conjI exI [of _ "?c # bs"]) (auto split: outcome.splits)
      qed
    qed
  qed
qed

section \<open>Properties\<close>

text \<open>C35: The console is a line editor. The ring with its three wrapping indices refines two lists, the committed input and the
  line being edited: the interrupt handler for any byte acts on them as the specification \<open>line_edit\<close> says
  (erase, kill, carriage return, end of file, a full buffer) and wakes the readers exactly when it commits; and
  \<open>consoleread\<close> takes a piece of at most one line off the front of the committed input, never bytes still being edited, and sleeps
  only when there is no committed input.\<close>

theorem console_refines_line_editor:
  assumes "cons_ok s"
  shows "(let (w, s') = consoleintr dump (ucast b) s
      in cons_ok s' \<and> line_edit b (cons_abs s) = (w \<noteq> [], cons_abs s')) \<and>
    (\<forall>out s' k'. consoleread p dst n s k = Inr (out, s', k') \<longrightarrow>
      cons_ok s' \<and> snd (cons_abs s') = snd (cons_abs s) \<and>
      (\<exists>bs. fst (cons_abs s) = bs @ fst (cons_abs s') \<and> read_piece bs \<and>
        (case out of
           Sleeps j \<Rightarrow> fst (cons_abs s') = [] \<and> \<not> ukilled p
         | Returns r \<Rightarrow> r = -1 \<and> ukilled p \<or> r = int (length bs) \<or> bs \<noteq> [] \<and> r + 1 = int (length bs))))"
proof (intro conjI allI impI)
  show "let (w, s') = consoleintr dump (ucast b) s
      in cons_ok s' \<and> line_edit b (cons_abs s) = (w \<noteq> [], cons_abs s')"
    using consoleintr_refines [OF assms, of dump b] by (auto split: prod.splits)
next
  fix out s' k'
  assume "consoleread p dst n s k = Inr (out, s', k')"
  then have r: "consoleread_loop p dst (nat (sint n)) (nat (sint n)) s k = Inr (out, s', k')"
    by (simp add: consoleread_def)
  show "cons_ok s'" "snd (cons_abs s') = snd (cons_abs s)"
    using consoleread_loop_spec [OF assms r] by auto
  show "\<exists>bs. fst (cons_abs s) = bs @ fst (cons_abs s') \<and> read_piece bs \<and>
        (case out of
           Sleeps j \<Rightarrow> fst (cons_abs s') = [] \<and> \<not> ukilled p
         | Returns r \<Rightarrow> r = -1 \<and> ukilled p \<or> r = int (length bs) \<or> bs \<noteq> [] \<and> r + 1 = int (length bs))"
    using consoleread_loop_spec [OF assms r] by (auto split: outcome.splits)
qed

definition cons_ex :: cons where
  "cons_ex = \<lparr>cbuf = replicate 128 0, cr = 0xffffffff, cw = 0xffffffff, ce = 0xffffffff, tx_busy = False, sent = []\<rparr>"

theorem console_refines_line_editor_witness:
  "cons_ok cons_ex \<and> (let (w, s') = consoleintr [] (ucast (97 :: u8)) cons_ex
     in cons_ok s' \<and> line_edit 97 ([], []) = (w \<noteq> [], cons_abs s'))"
proof -
  have "cons_ok cons_ex" "cons_abs cons_ex = ([], [])"
    by (simp_all add: cons_ex_def cons_ok_def cons_inv_def cons_abs_def typed_def ncommitted_def)
  then show ?thesis using console_refines_line_editor [of cons_ex "[]" 97] by metis
qed

end
