(* ===== verification/Virtio.thy ===== *)
theory Virtio
  imports Vm
begin

text \<open>
  \<^verbatim>\<open>kernel/virtio_disk.c\<close>: the driver of the disk. The arrays of \<^verbatim>\<open>struct disk\<close> and the queue memory shared with the device are
  functions of the index. The device is not part of the program; it is the two rules \<open>dev_take\<close> and
  \<open>dev_done\<close> of the step relation, which say what the virtio specification promises: it takes the heads that the
  driver made available in order, works on any number of them, and announces each finished one in the used ring after it has stored a status, which may say that the request failed.
  Every step of the driver runs with \<open>vdisk_lock\<close> held, which \<open>sleep\<close> gives up. The calls of \<open>wakeup\<close> and the writes to device
  registers are recorded in \<open>out\<close>, in their order. A thread in \<open>virtio_disk_rw\<close> that waits for its request is an entry of \<open>threads\<close>: its three descriptors and its buffer.
\<close>

section \<open>State\<close>

definition NUM :: nat where "NUM = 8"

definition F_NEXT :: u16 where "F_NEXT = 1"
definition F_WRITE :: u16 where "F_WRITE = 2"

datatype vchan = Free_chan | Buf_chan nat

datatype io = Reg_write nat u32 | Wakeup vchan

record virtq_desc =
  d_addr :: u64
  d_len :: u32
  d_flags :: u16
  d_next :: u16

record virtio_blk_req =
  rq_type :: u32
  rq_reserved :: u32
  rq_sector :: u64

record disk =
  desc :: "nat \<Rightarrow> virtq_desc"
  avail_idx :: u16
  avail_ring :: "nat \<Rightarrow> u16"
  used_ix :: u16
  used_ring :: "nat \<Rightarrow> u32"
  dfree :: "nat \<Rightarrow> bool"
  used_idx :: u16
  info_b :: "nat \<Rightarrow> nat option"
  info_status :: "nat \<Rightarrow> u8"
  ops :: "nat \<Rightarrow> virtio_blk_req"
  bdisk :: "nat \<Rightarrow> bool"
  desc_at :: u64
  avail_at :: u64
  used_at :: u64
  out :: "io list"

definition emit :: "io \<Rightarrow> disk \<Rightarrow> disk" where
  "emit e d = d\<lparr>out := out d @ [e]\<rparr>"

section \<open>Initialisation\<close>

text \<open>What the driver reads from the device while it initialises it.\<close>

record vregs =
  magic_value :: u32
  version :: u32
  device_id :: u32
  vendor_id :: u32
  device_features :: u32
  status_back :: u32
  queue_ready :: u32
  queue_num_max :: u32

text \<open>\<open>struct disk\<close> is static, so all of it is zero before.\<close>

definition zero_desc :: virtq_desc where
  "zero_desc = \<lparr>d_addr = 0, d_len = 0, d_flags = 0, d_next = 0\<rparr>"

definition zero_disk :: disk where
  "zero_disk = \<lparr>desc = (\<lambda>_. zero_desc), avail_idx = 0, avail_ring = (\<lambda>_. 0), used_ix = 0, used_ring = (\<lambda>_. 0),
     dfree = (\<lambda>_. False), used_idx = 0, info_b = (\<lambda>_. None), info_status = (\<lambda>_. 0),
     ops = (\<lambda>_. \<lparr>rq_type = 0, rq_reserved = 0, rq_sector = 0\<rparr>), bdisk = (\<lambda>_. False),
     desc_at = 0, avail_at = 0, used_at = 0, out = []\<rparr>"

definition negotiate :: "u64 \<Rightarrow> u64" where
  "negotiate f = fold (\<lambda>i f. f AND NOT (push_bit i 1)) [5, 7, 11, 12, 27, 29, 28] f"

text \<open>The three pages of queue memory and their registers.\<close>

definition setup_queue :: "kmem \<Rightarrow> disk \<Rightarrow> (disk \<times> kmem) result" where
  "setup_queue k d =
     (let (desc_p, k) = kalloc k; (avail_p, k) = kalloc k; (used_p, k) = kalloc k;
          d = d\<lparr>desc_at := desc_p, avail_at := avail_p, used_at := used_p\<rparr>
      in if desc_p = 0 \<or> avail_p = 0 \<or> used_p = 0 then Inl (Panic ''virtio disk kalloc'')
         else let k = zero_page used_p (zero_page avail_p (zero_page desc_p k));
                  d = d\<lparr>desc := (\<lambda>_. zero_desc), avail_idx := 0, avail_ring := (\<lambda>_. 0), used_ix := 0, used_ring := (\<lambda>_. 0)\<rparr>;
                  d = emit (Reg_write 0x38 (of_nat NUM)) d;
                  d = emit (Reg_write 0x80 (ucast desc_p)) d;
                  d = emit (Reg_write 0x84 (ucast (drop_bit 32 desc_p))) d;
                  d = emit (Reg_write 0x90 (ucast avail_p)) d;
                  d = emit (Reg_write 0x94 (ucast (drop_bit 32 avail_p))) d;
                  d = emit (Reg_write 0xa0 (ucast used_p)) d;
                  d = emit (Reg_write 0xa4 (ucast (drop_bit 32 used_p))) d;
                  d = emit (Reg_write 0x44 1) d
              in Inr (d\<lparr>dfree := (\<lambda>i. i < NUM \<or> dfree d i)\<rparr>, k))"

definition virtio_disk_init :: "vregs \<Rightarrow> kmem \<Rightarrow> disk \<Rightarrow> (disk \<times> kmem) result" where
  "virtio_disk_init r k d =
     (if magic_value r \<noteq> 0x74726976 \<or> version r \<noteq> 2 \<or> device_id r \<noteq> 2 \<or> vendor_id r \<noteq> 0x554d4551
      then Inl (Panic ''could not find virtio disk'')
      else let status = 0; d = emit (Reg_write 0x70 status) d;
               status = status OR 1; d = emit (Reg_write 0x70 status) d;
               status = status OR 2; d = emit (Reg_write 0x70 status) d;
               d = emit (Reg_write 0x20 (ucast (negotiate (ucast (device_features r))))) d;
               status = status OR 8; d = emit (Reg_write 0x70 status) d;
               status = status_back r
           in if status AND 8 = 0 then Inl (Panic ''virtio disk FEATURES_OK unset'')
              else let d = emit (Reg_write 0x30 0) d
                   in if queue_ready r \<noteq> 0 then Inl (Panic ''virtio disk should not be ready'')
                      else if queue_num_max r = 0 then Inl (Panic ''virtio disk has no queue 0'')
                      else if queue_num_max r < of_nat NUM then Inl (Panic ''virtio disk max queue too short'')
                      else bind_result (setup_queue k d) (\<lambda>(d, k).
                             Inr (emit (Reg_write 0x70 (status OR 4)) d, k)))"

section \<open>Descriptors\<close>

fun alloc_loop :: "nat \<Rightarrow> nat \<Rightarrow> disk \<Rightarrow> nat option \<times> disk" where
  "alloc_loop i 0 d = (None, d)"
| "alloc_loop i (Suc n) d =
     (if dfree d i then (Some i, d\<lparr>dfree := (dfree d)(i := False)\<rparr>) else alloc_loop (Suc i) n d)"

definition alloc_desc :: "disk \<Rightarrow> nat option \<times> disk" where
  "alloc_desc d = alloc_loop 0 NUM d"

definition free_desc :: "nat \<Rightarrow> disk \<Rightarrow> disk result" where
  "free_desc i d =
     (if i \<ge> NUM then Inl (Panic ''free_desc 1'')
      else if dfree d i then Inl (Panic ''free_desc 2'')
      else Inr (emit (Wakeup Free_chan)
                  (d\<lparr>desc := (desc d)(i := zero_desc), dfree := (dfree d)(i := True)\<rparr>)))"

text \<open>The loop frees a descriptor in every turn or panics, so it ends.\<close>

lemma free_desc_less:
  assumes "free_desc i d = Inr d'"
  shows "card {j. j < NUM \<and> \<not> dfree d' j} < card {j. j < NUM \<and> \<not> dfree d j}"
proof -
  have d: "i < NUM" "\<not> dfree d i" "dfree d' = (dfree d)(i := True)"
    using assms by (auto simp: free_desc_def emit_def split: if_splits)
  then have "{j. j < NUM \<and> \<not> dfree d' j} = {j. j < NUM \<and> \<not> dfree d j} - {i}" by auto
  then show ?thesis using d card_Diff1_less [of "{j. j < NUM \<and> \<not> dfree d j}" i] by (simp only:) simp
qed

function free_chain :: "nat \<Rightarrow> disk \<Rightarrow> disk result" where
  "free_chain i d =
     (let flag = d_flags (desc d i); nxt = d_next (desc d i)
      in case free_desc i d of
           Inl e \<Rightarrow> Inl e
         | Inr d \<Rightarrow> if flag AND F_NEXT \<noteq> 0 then free_chain (unat nxt) d else Inr d)"
  by pat_completeness auto
termination
  by (relation "measure (\<lambda>(i, d). card {j. j < NUM \<and> \<not> dfree d j})") (auto intro: free_desc_less)

declare free_chain.simps [simp del]

text \<open>The three descriptors in the order of \<open>idx\<close>; \<open>alloc3_loop\<close> gives back what it has when there is none left.\<close>

fun free_all :: "nat list \<Rightarrow> disk \<Rightarrow> disk result" where
  "free_all [] d = Inr d"
| "free_all (i # is) d = bind_result (free_desc i d) (free_all is)"

fun alloc3_loop :: "nat \<Rightarrow> nat list \<Rightarrow> disk \<Rightarrow> (nat list option \<times> disk) result" where
  "alloc3_loop 0 idx d = Inr (Some idx, d)"
| "alloc3_loop (Suc n) idx d =
     (case alloc_desc d of
        (Some i, d) \<Rightarrow> alloc3_loop n (idx @ [i]) d
      | (None, d) \<Rightarrow> bind_result (free_all idx d) (\<lambda>d. Inr (None, d)))"

definition alloc3_desc :: "disk \<Rightarrow> (nat list option \<times> disk) result" where
  "alloc3_desc d = alloc3_loop 3 [] d"

section \<open>Requests\<close>

text \<open>The addresses that the driver puts into descriptors: of \<open>ops[i]\<close>, of \<open>info[i].status\<close> and of the data of a buffer.\<close>

record addrs =
  ops_addr :: "nat \<Rightarrow> u64"
  status_addr :: "nat \<Rightarrow> u64"
  data_addr :: "nat \<Rightarrow> u64"

text \<open>Formatting the descriptors \<open>i0 i1 i2\<close> of a request for buffer \<open>b\<close>, and telling the device.\<close>

definition format_request :: "addrs \<Rightarrow> nat \<Rightarrow> u32 \<Rightarrow> bool \<Rightarrow> nat \<Rightarrow> nat \<Rightarrow> nat \<Rightarrow> disk \<Rightarrow> disk" where
  "format_request a b blockno wr i0 i1 i2 d =
     (let d = d\<lparr>ops := (ops d)(i0 := \<lparr>rq_type = (if wr then 1 else 0), rq_reserved = 0, rq_sector = ucast (blockno * 2)\<rparr>)\<rparr>;
          d = d\<lparr>desc := (desc d)(i0 := \<lparr>d_addr = ops_addr a i0, d_len = 16, d_flags = F_NEXT, d_next = of_nat i1\<rparr>)\<rparr>;
          d = d\<lparr>desc := (desc d)(i1 := \<lparr>d_addr = data_addr a b, d_len = 1024,
                 d_flags = (if wr then 0 else F_WRITE) OR F_NEXT, d_next = of_nat i2\<rparr>)\<rparr>;
          d = d\<lparr>info_status := (info_status d)(i0 := 0xff)\<rparr>;
          d = d\<lparr>desc := (desc d)(i2 := \<lparr>d_addr = status_addr a i0, d_len = 1, d_flags = F_WRITE, d_next = 0\<rparr>)\<rparr>;
          d = d\<lparr>bdisk := (bdisk d)(b := True), info_b := (info_b d)(i0 := Some b)\<rparr>;
          d = d\<lparr>avail_ring := (avail_ring d)(unat (avail_idx d) mod NUM := of_nat i0)\<rparr>
      in emit (Reg_write 0x50 0) (d\<lparr>avail_idx := avail_idx d + 1\<rparr>))"

text \<open>\<open>virtio_disk_rw\<close> up to the point where it waits for the device; \<open>None\<close>: it sleeps for free descriptors.\<close>

definition rw_start :: "addrs \<Rightarrow> nat \<Rightarrow> u32 \<Rightarrow> bool \<Rightarrow> disk \<Rightarrow> ((nat \<times> nat \<times> nat) option \<times> disk) result" where
  "rw_start a b blockno wr d =
     bind_result (alloc3_desc d) (\<lambda>(r, d).
       case r of
         Some [i0, i1, i2] \<Rightarrow> Inr (Some (i0, i1, i2), format_request a b blockno wr i0 i1 i2 d)
       | _ \<Rightarrow> Inr (None, d))"

text \<open>The rest, when \<open>b->disk\<close> is no longer 1.\<close>

definition rw_finish :: "nat \<Rightarrow> disk \<Rightarrow> disk result" where
  "rw_finish i0 d = free_chain i0 (d\<lparr>info_b := (info_b d)(i0 := None)\<rparr>)"

text \<open>\<open>virtio_disk_intr\<close>. A null \<open>info[id].b\<close> or an \<open>id\<close> outside of the array would be undefined behaviour.\<close>

function intr_loop :: "disk \<Rightarrow> disk result" where
  "intr_loop d =
     (if used_idx d = used_ix d then Inr d
      else let id = unat (used_ring d (unat (used_idx d) mod NUM))
           in if id \<ge> NUM then Inl (UB ''info'')
              else if info_status d id \<noteq> 0 then Inl (Panic ''virtio_disk_intr status'')
              else case info_b d id of
                     None \<Rightarrow> Inl (UB ''null buffer'')
                   | Some b \<Rightarrow> intr_loop ((emit (Wakeup (Buf_chan b)) (d\<lparr>bdisk := (bdisk d)(b := False)\<rparr>))\<lparr>used_idx := used_idx d + 1\<rparr>))"
  by pat_completeness auto
termination
proof (relation "measure (\<lambda>d. unat (used_ix d - used_idx d))")
  fix d :: disk and x b
  assume "used_idx d \<noteq> used_ix d"
  then have "used_ix d - used_idx d \<noteq> 0" by simp
  moreover have eq: "used_ix d - (used_idx d + 1) = used_ix d - used_idx d - 1" by simp
  ultimately have "unat (used_ix d - (used_idx d + 1)) < unat (used_ix d - used_idx d)"
    unfolding eq by (simp add: unat_minus_one unat_gt_0)
  then show "((emit (Wakeup (Buf_chan b)) (d\<lparr>bdisk := (bdisk d)(b := False)\<rparr>))\<lparr>used_idx := used_idx d + 1\<rparr>, d) \<in> measure (\<lambda>d. unat (used_ix d - used_idx d))"
    by (simp add: emit_def)
qed simp

declare intr_loop.simps [simp del]

definition virtio_disk_intr :: "u32 \<Rightarrow> disk \<Rightarrow> disk result" where
  "virtio_disk_intr intr_status d = intr_loop (emit (Reg_write 0x64 (intr_status AND 3)) d)"

section \<open>Driver and device\<close>

type_synonym thread = "nat \<times> nat \<times> nat \<times> nat"

record vworld =
  vdisk :: disk
  threads :: "thread list"
  dev_avail :: u16
  inflight :: "nat list"
  dev_status :: "nat \<Rightarrow> u8"

inductive vstep :: "addrs \<Rightarrow> vworld \<Rightarrow> vworld \<Rightarrow> bool" for a where
  vs_start: "b \<notin> (\<lambda>(i0, i1, i2, b). b) ` set (threads w) \<Longrightarrow>
    rw_start a b blockno wr (vdisk w) = Inr (Some (i0, i1, i2), d) \<Longrightarrow>
    vstep a w (w\<lparr>vdisk := d, threads := (i0, i1, i2, b) # threads w\<rparr>)"
| vs_wait: "rw_start a b blockno wr (vdisk w) = Inr (None, d) \<Longrightarrow> vstep a w (w\<lparr>vdisk := d\<rparr>)"
| dev_take: "dev_avail w \<noteq> avail_idx (vdisk w) \<Longrightarrow>
    vstep a w (w\<lparr>inflight := unat (avail_ring (vdisk w) (unat (dev_avail w) mod NUM)) # inflight w,
      dev_avail := dev_avail w + 1\<rparr>)"
| dev_done: "i \<in> set (inflight w) \<Longrightarrow>
    vstep a w (w\<lparr>vdisk := (vdisk w)\<lparr>info_status := (info_status (vdisk w))(i := st),
        used_ring := (used_ring (vdisk w))(unat (used_ix (vdisk w)) mod NUM := of_nat i),
        used_ix := used_ix (vdisk w) + 1\<rparr>,
      inflight := remove1 i (inflight w), dev_status := (dev_status w)(i := st)\<rparr>)"
| vs_intr: "virtio_disk_intr st (vdisk w) = Inr d \<Longrightarrow> vstep a w (w\<lparr>vdisk := d\<rparr>)"
| vs_finish: "(i0, i1, i2, b) \<in> set (threads w) \<Longrightarrow> \<not> bdisk (vdisk w) b \<Longrightarrow> rw_finish i0 (vdisk w) = Inr d \<Longrightarrow>
    vstep a w (w\<lparr>vdisk := d, threads := remove1 (i0, i1, i2, b) (threads w)\<rparr>)"

section \<open>Allocation\<close>

lemma alloc_loop_Some:
  "alloc_loop i n d = (Some j, d') \<Longrightarrow> i \<le> j \<and> j < i + n \<and> dfree d j \<and> d' = d\<lparr>dfree := (dfree d)(j := False)\<rparr>"
  by (induction n arbitrary: i) (force split: if_splits)+

lemma alloc_loop_None: "alloc_loop i n d = (None, d') \<Longrightarrow> d' = d \<and> (\<forall>j. i \<le> j \<and> j < i + n \<longrightarrow> \<not> dfree d j)"
proof (induction n arbitrary: i)
  case (Suc n)
  then have "\<not> dfree d i" "alloc_loop (Suc i) n d = (None, d')" by (auto split: if_splits)
  moreover from this have "d' = d" "\<forall>j. Suc i \<le> j \<and> j < Suc i + n \<longrightarrow> \<not> dfree d j" using Suc.IH [of "Suc i"] by auto
  ultimately show ?case by (metis add_Suc add_Suc_right le_neq_implies_less Suc_leI)
qed auto

lemma alloc_desc_Some: "alloc_desc d = (Some j, d') \<Longrightarrow> j < NUM \<and> dfree d j \<and> d' = d\<lparr>dfree := (dfree d)(j := False)\<rparr>"
  unfolding alloc_desc_def by (drule alloc_loop_Some) simp

lemma alloc_desc_None: "alloc_desc d = (None, d') \<Longrightarrow> d' = d \<and> (\<forall>j<NUM. \<not> dfree d j)"
  unfolding alloc_desc_def by (drule alloc_loop_None) simp

text \<open>What allocation and freeing may change: flags and contents of descriptors.\<close>

definition same_rest :: "disk \<Rightarrow> disk \<Rightarrow> bool" where
  "same_rest d d' \<longleftrightarrow> d' = d\<lparr>desc := desc d', dfree := dfree d', out := out d'\<rparr>"

lemma same_rest_trans: "same_rest d d1 \<Longrightarrow> same_rest d1 d2 \<Longrightarrow> same_rest d d2"
  by (cases d, cases d1, cases d2) (simp add: same_rest_def)

lemma same_rest_upd [simp]:
  "same_rest d (d\<lparr>dfree := f\<rparr>)" "same_rest d (emit e (d\<lparr>desc := g, dfree := f\<rparr>))" "same_rest d d"
  by (simp_all add: same_rest_def emit_def)

lemma free_desc_ok:
  assumes "i < NUM" "\<not> dfree d i"
  obtains d' where "free_desc i d = Inr d'" "dfree d' = (dfree d)(i := True)"
    "\<And>j. j \<noteq> i \<Longrightarrow> desc d' j = desc d j" "same_rest d d'"
proof
  let ?d = "emit (Wakeup Free_chan) (d\<lparr>desc := (desc d)(i := zero_desc), dfree := (dfree d)(i := True)\<rparr>)"
  show "free_desc i d = Inr ?d" using assms by (simp add: free_desc_def)
qed (simp_all, simp_all add: emit_def)

lemma free_all_ok:
  "distinct is \<Longrightarrow> \<forall>i\<in>set is. i < NUM \<and> \<not> dfree d i \<Longrightarrow>
     \<exists>d'. free_all is d = Inr d' \<and> dfree d' = (\<lambda>i. dfree d i \<or> i \<in> set is) \<and>
       (\<forall>i. i \<notin> set is \<longrightarrow> desc d' i = desc d i) \<and> same_rest d d'"
proof (induction "is" arbitrary: d)
  case (Cons i "is")
  obtain d1 where d1: "free_desc i d = Inr d1" "dfree d1 = (dfree d)(i := True)"
    "\<And>j. j \<noteq> i \<Longrightarrow> desc d1 j = desc d j" "same_rest d d1"
    by (rule free_desc_ok [of i d]) (use Cons.prems in auto)
  have "\<forall>j\<in>set is. j < NUM \<and> \<not> dfree d1 j" using Cons.prems d1(2) by auto
  with Cons.IH [of d1] Cons.prems(1) obtain d' where d': "free_all is d1 = Inr d'"
    "dfree d' = (\<lambda>j. dfree d1 j \<or> j \<in> set is)" "\<forall>j. j \<notin> set is \<longrightarrow> desc d' j = desc d1 j" "same_rest d1 d'"
    by auto
  have "dfree d' = (\<lambda>j. dfree d j \<or> j \<in> set (i # is))" using d1(2) d'(2) by (auto simp: fun_eq_iff)
  then show ?case using d1 d' same_rest_trans by auto
qed simp

lemma alloc3_loop_spec:
  assumes "distinct idx" "\<forall>i\<in>set idx. i < NUM \<and> dfree d0 i \<and> \<not> dfree d i"
    "d = d0\<lparr>dfree := (\<lambda>i. dfree d0 i \<and> i \<notin> set idx)\<rparr>"
  shows "\<exists>r d'. alloc3_loop n idx d = Inr (r, d') \<and>
    (case r of
       Some ids \<Rightarrow> length ids = length idx + n \<and> distinct ids \<and> (\<forall>i\<in>set ids. i < NUM \<and> dfree d0 i) \<and>
         d' = d0\<lparr>dfree := (\<lambda>i. dfree d0 i \<and> i \<notin> set ids)\<rparr>
     | None \<Rightarrow> (\<forall>i. \<not> dfree d0 i \<longrightarrow> desc d' i = desc d0 i) \<and> same_rest d0 d' \<and> dfree d' = dfree d0 \<and> card {i. i < NUM \<and> dfree d0 i} < length idx + n)"
  using assms
proof (induction n arbitrary: idx d)
  case 0
  then show ?case by auto
next
  case (Suc n)
  obtain r d1 where al: "alloc_desc d = (r, d1)" by (cases "alloc_desc d")
  show ?case
  proof (cases r)
    case None
    then have n: "d1 = d" "\<forall>j<NUM. \<not> dfree d j" using alloc_desc_None al by auto
    obtain d' where f: "free_all idx d = Inr d'" "dfree d' = (\<lambda>i. dfree d i \<or> i \<in> set idx)"
      "\<forall>i. i \<notin> set idx \<longrightarrow> desc d' i = desc d i" "same_rest d d'"
      using free_all_ok [of idx d] Suc.prems(1,2) by auto
    have "{i. i < NUM \<and> dfree d0 i} = set idx" using n(2) Suc.prems(2,3) by auto
    then have "card {i. i < NUM \<and> dfree d0 i} = length idx" using Suc.prems(1) by (simp add: distinct_card)
    moreover have "dfree d' = dfree d0" using f(2) Suc.prems(2,3) by (auto simp: fun_eq_iff)
    moreover have "same_rest d0 d'" using f(4) Suc.prems(3) same_rest_trans [of d0 d d'] by simp
    moreover have "\<forall>i. \<not> dfree d0 i \<longrightarrow> desc d' i = desc d0 i" using f(3) Suc.prems(2,3) by auto
    ultimately show ?thesis using None al n f(1) by simp
  next
    case (Some j)
    then have j: "j < NUM" "dfree d j" "d1 = d\<lparr>dfree := (dfree d)(j := False)\<rparr>"
      using alloc_desc_Some al by auto
    have "j \<notin> set idx" "dfree d0 j" using j(2) Suc.prems by auto
    moreover have "d1 = d0\<lparr>dfree := \<lambda>i. dfree d0 i \<and> i \<notin> set (idx @ [j])\<rparr>"
      using j(3) Suc.prems(3) by (auto simp: fun_eq_iff)
    ultimately have "\<exists>r d'. alloc3_loop n (idx @ [j]) d1 = Inr (r, d') \<and>
    (case r of
       Some ids \<Rightarrow> length ids = length (idx @ [j]) + n \<and> distinct ids \<and> (\<forall>i\<in>set ids. i < NUM \<and> dfree d0 i) \<and>
         d' = d0\<lparr>dfree := (\<lambda>i. dfree d0 i \<and> i \<notin> set ids)\<rparr>
     | None \<Rightarrow> (\<forall>i. \<not> dfree d0 i \<longrightarrow> desc d' i = desc d0 i) \<and> same_rest d0 d' \<and> dfree d' = dfree d0 \<and> card {i. i < NUM \<and> dfree d0 i} < length (idx @ [j]) + n)"
      using Suc.prems(1,2) j(1) by (intro Suc.IH) auto
    moreover have "length (idx @ [j]) + n = length idx + Suc n" by simp
    ultimately show ?thesis using al Some by (simp only: alloc3_loop.simps prod.case option.case)
  qed
qed

lemma alloc3_desc_spec:
  "\<exists>r d'. alloc3_desc d = Inr (r, d') \<and>
    (case r of
       Some ids \<Rightarrow> \<exists>i0 i1 i2. ids = [i0, i1, i2] \<and> distinct ids \<and> (\<forall>i\<in>set ids. i < NUM \<and> dfree d i) \<and>
         d' = d\<lparr>dfree := (\<lambda>i. dfree d i \<and> i \<notin> set ids)\<rparr>
     | None \<Rightarrow> (\<forall>i. \<not> dfree d i \<longrightarrow> desc d' i = desc d i) \<and> same_rest d d' \<and> dfree d' = dfree d \<and>
         card {i. i < NUM \<and> dfree d i} < 3)"
proof -
  have len3: "\<exists>i0 i1 i2. ids = [i0, i1, i2]" if "length ids = 3" for ids :: "nat list"
    using that by (auto simp: numeral_3_eq_3 length_Suc_conv)
  have "d = d\<lparr>dfree := \<lambda>i. dfree d i \<and> i \<notin> set []\<rparr>" by simp
  then obtain r d' where r: "alloc3_desc d = Inr (r, d')"
    "case r of
       Some ids \<Rightarrow> length ids = length ([] :: nat list) + 3 \<and> distinct ids \<and> (\<forall>i\<in>set ids. i < NUM \<and> dfree d i) \<and>
         d' = d\<lparr>dfree := (\<lambda>i. dfree d i \<and> i \<notin> set ids)\<rparr>
     | None \<Rightarrow> (\<forall>i. \<not> dfree d i \<longrightarrow> desc d' i = desc d i) \<and> same_rest d d' \<and> dfree d' = dfree d \<and>
         card {i. i < NUM \<and> dfree d i} < length ([] :: nat list) + 3"
    using alloc3_loop_spec [of "[]" d d 3] unfolding alloc3_desc_def by auto
  show ?thesis
  proof (cases r)
    case None
    then show ?thesis using r by (intro exI [of _ None] exI [of _ d']) simp
  next
    case (Some ids)
    moreover have "\<exists>i0 i1 i2. ids = [i0, i1, i2]" using len3 r(2) Some by simp
    ultimately show ?thesis using r by (intro exI [of _ r] exI [of _ d']) auto
  qed
qed

text \<open>Freeing a chain of three.\<close>

definition chain :: "disk \<Rightarrow> nat \<Rightarrow> nat \<Rightarrow> nat \<Rightarrow> bool" where
  "chain d i0 i1 i2 \<longleftrightarrow>
     d_flags (desc d i0) AND F_NEXT \<noteq> 0 \<and> d_next (desc d i0) = of_nat i1 \<and>
     d_flags (desc d i1) AND F_NEXT \<noteq> 0 \<and> d_next (desc d i1) = of_nat i2 \<and>
     d_flags (desc d i2) AND F_NEXT = 0"

lemma unat_index: "i < NUM \<Longrightarrow> unat (of_nat i :: u16) = i" "i < NUM \<Longrightarrow> unat (of_nat i :: u32) = i"
  by (simp_all add: NUM_def unat_of_nat take_bit_eq_mod)

lemma free_chain_ok:
  assumes c: "chain d i0 i1 i2" and i: "distinct [i0, i1, i2]" "\<forall>i\<in>set [i0, i1, i2]. i < NUM \<and> \<not> dfree d i"
  shows "\<exists>d'. free_chain i0 d = Inr d' \<and> dfree d' = (\<lambda>i. dfree d i \<or> i \<in> {i0, i1, i2}) \<and>
    (\<forall>i. i \<notin> {i0, i1, i2} \<longrightarrow> desc d' i = desc d i) \<and> same_rest d d'"
proof -
  obtain d1 where d1: "free_desc i0 d = Inr d1" "dfree d1 = (dfree d)(i0 := True)"
    "\<And>j. j \<noteq> i0 \<Longrightarrow> desc d1 j = desc d j" "same_rest d d1"
    by (rule free_desc_ok [of i0 d]) (use i in auto)
  obtain d2 where d2: "free_desc i1 d1 = Inr d2" "dfree d2 = (dfree d1)(i1 := True)"
    "\<And>j. j \<noteq> i1 \<Longrightarrow> desc d2 j = desc d1 j" "same_rest d1 d2"
    by (rule free_desc_ok [of i1 d1]) (use i d1 in auto)
  obtain d3 where d3: "free_desc i2 d2 = Inr d3" "dfree d3 = (dfree d2)(i2 := True)"
    "\<And>j. j \<noteq> i2 \<Longrightarrow> desc d3 j = desc d2 j" "same_rest d2 d3"
    by (rule free_desc_ok [of i2 d2]) (use i d1 d2 in auto)
  have "unat (of_nat i1 :: u16) = i1" "unat (of_nat i2 :: u16) = i2" using i unat_index by auto
  moreover have "desc d1 i1 = desc d i1" "desc d2 i2 = desc d i2" using d1(3) d2(3) i(1) by auto
  ultimately have "free_chain i0 d = Inr d3"
    using c d1(1) d2(1) d3(1) unfolding chain_def
    by (simp add: free_chain.simps [of i0 d] free_chain.simps [of i1 d1] free_chain.simps [of i2 d2])
  moreover have "dfree d3 = (\<lambda>i. dfree d i \<or> i \<in> {i0, i1, i2})"
    using d1(2) d2(2) d3(2) by (auto simp: fun_eq_iff)
  moreover have "same_rest d d3" using d1(4) d2(4) d3(4) same_rest_trans by blast
  ultimately show ?thesis using d1(3) d2(3) d3(3) by auto
qed

section \<open>Invariant\<close>

definition avail_queue :: "vworld \<Rightarrow> nat list" where
  "avail_queue w = window (\<lambda>i. unat (avail_ring (vdisk w) i)) NUM (unat (dev_avail w)) (unat (avail_idx (vdisk w) - dev_avail w))"

definition used_queue :: "disk \<Rightarrow> nat list" where
  "used_queue d = window (\<lambda>i. unat (used_ring d i)) NUM (unat (used_idx d)) (unat (used_ix d - used_idx d))"

definition descs :: "thread list \<Rightarrow> nat list" where
  "descs ts = concat (map (\<lambda>(i0, i1, i2, b). [i0, i1, i2]) ts)"

definition bufs :: "thread list \<Rightarrow> nat list" where
  "bufs ts = map (\<lambda>(i0, i1, i2, b). b) ts"

text \<open>The descriptors in use are those of the waiting threads, each once; the chains are intact; every request is in
  exactly one of the queues until \<open>b->disk\<close> is cleared; the ones the device has announced have the status that it gave them.\<close>

definition requests :: "vworld \<Rightarrow> nat list" where
  "requests w = avail_queue w @ inflight w @ used_queue (vdisk w)"

definition vinv :: "vworld \<Rightarrow> bool" where
  "vinv w \<longleftrightarrow>
     distinct (descs (threads w)) \<and> set (descs (threads w)) = {i. i < NUM \<and> \<not> dfree (vdisk w) i} \<and>
     distinct (bufs (threads w)) \<and>
     (\<forall>(i0, i1, i2, b)\<in>set (threads w). chain (vdisk w) i0 i1 i2 \<and> info_b (vdisk w) i0 = Some b) \<and>
     distinct (requests w) \<and>
     set (requests w) = {i0. \<exists>i1 i2 b. (i0, i1, i2, b) \<in> set (threads w) \<and> bdisk (vdisk w) b} \<and>
     (\<forall>i\<in>set (used_queue (vdisk w)). info_status (vdisk w) i = dev_status w i)"

lemma vinvD:
  assumes "vinv w"
  shows "distinct (descs (threads w))" "set (descs (threads w)) = {i. i < NUM \<and> \<not> dfree (vdisk w) i}"
    "distinct (bufs (threads w))"
    "\<And>i0 i1 i2 b. (i0, i1, i2, b) \<in> set (threads w) \<Longrightarrow> chain (vdisk w) i0 i1 i2 \<and> info_b (vdisk w) i0 = Some b"
    "distinct (requests w)"
    "\<And>i. i \<in> set (requests w) \<longleftrightarrow> (\<exists>i1 i2 b. (i, i1, i2, b) \<in> set (threads w) \<and> bdisk (vdisk w) b)"
    "\<And>i. i \<in> set (used_queue (vdisk w)) \<Longrightarrow> info_status (vdisk w) i = dev_status w i"
  using assms unfolding vinv_def by auto

lemma vinvI:
  assumes "distinct (descs (threads w))" "set (descs (threads w)) = {i. i < NUM \<and> \<not> dfree (vdisk w) i}"
    "distinct (bufs (threads w))"
    "\<And>i0 i1 i2 b. (i0, i1, i2, b) \<in> set (threads w) \<Longrightarrow> chain (vdisk w) i0 i1 i2 \<and> info_b (vdisk w) i0 = Some b"
    "distinct (requests w)"
    "\<And>i. i \<in> set (requests w) \<longleftrightarrow> (\<exists>i1 i2 b. (i, i1, i2, b) \<in> set (threads w) \<and> bdisk (vdisk w) b)"
    "\<And>i. i \<in> set (used_queue (vdisk w)) \<Longrightarrow> info_status (vdisk w) i = dev_status w i"
  shows "vinv w"
  using assms unfolding vinv_def by auto

text \<open>The world after \<open>virtio_disk_init\<close>; the device starts with the first entry of the available ring.\<close>

definition booted :: "disk \<Rightarrow> vworld" where
  "booted d = \<lparr>vdisk = d, threads = [], dev_avail = 0, inflight = [], dev_status = (\<lambda>_. 0)\<rparr>"

lemma init_result:
  assumes "virtio_disk_init r k zero_disk = Inr (d, k')"
  shows "avail_idx d = 0" "used_ix d = 0" "used_idx d = 0" "dfree d = (\<lambda>i. i < NUM)"
  using assms
  by (auto simp: virtio_disk_init_def setup_queue_def Let_def emit_def zero_disk_def split: if_splits prod.splits)

lemma vinv_initial: "virtio_disk_init r k zero_disk = Inr (d, k') \<Longrightarrow> vinv (booted d)"
  using init_result [of r k d k'] by (auto simp: booted_def vinv_def requests_def avail_queue_def used_queue_def window_def descs_def bufs_def)

lemma length_descs: "length (descs ts) = 3 * length ts"
  by (induction ts) (auto simp: descs_def)

lemma descs_mem: "(i0, i1, i2, b) \<in> set ts \<Longrightarrow> {i0, i1, i2} \<subseteq> set (descs ts)"
  unfolding descs_def by force

lemma descs_append [simp]: "descs (xs @ ys) = descs xs @ descs ys" "descs ((i0, i1, i2, b) # ts) = [i0, i1, i2] @ descs ts"
  by (simp_all add: descs_def)

lemma bufs_append [simp]: "bufs (xs @ ys) = bufs xs @ bufs ys" "bufs ((i0, i1, i2, b) # ts) = b # bufs ts"
  by (simp_all add: bufs_def)

lemma thread_unique:
  assumes "distinct (descs ts)" "(i0, i1, i2, b) \<in> set ts" "(i0, j1, j2, c) \<in> set ts"
  shows "(i0, i1, i2, b) = (i0, j1, j2, c)"
  using assms
proof (induction ts)
  case (Cons t ts)
  obtain k0 k1 k2 e where t: "t = (k0, k1, k2, e)" by (cases t)
  have "k0 \<notin> set (descs ts)" "distinct (descs ts)" using Cons.prems(1) t by auto
  with Cons t show ?case using descs_mem by fastforce
qed simp

lemma thread_of_buf:
  assumes "distinct (bufs ts)" "(i0, i1, i2, b) \<in> set ts" "(j0, j1, j2, b) \<in> set ts"
  shows "(i0, i1, i2, b) = (j0, j1, j2, b)"
  using assms inj_onD [of "\<lambda>(i0, i1, i2, b). b" "set ts" "(i0, i1, i2, b)" "(j0, j1, j2, b)"]
  by (auto simp: bufs_def distinct_map)

lemma at_most_two:
  assumes "vinv w"
  shows "length (threads w) \<le> 2" "length (requests w) \<le> 2"
proof -
  note inv = vinvD [OF assms]
  have "card (set (descs (threads w))) = 3 * length (threads w)"
    using inv(1) by (simp only: distinct_card length_descs)
  moreover have "card (set (descs (threads w))) \<le> card {..<NUM}"
    using inv(2) by (intro card_mono) auto
  ultimately show two: "length (threads w) \<le> 2" by (simp add: NUM_def)
  have "set (requests w) \<subseteq> (\<lambda>(i0, i1, i2, b). i0) ` set (threads w)" using inv(6) by (force simp: image_def)
  then have "card (set (requests w)) \<le> card (set (threads w))" by (meson card_image_le card_mono finite_imageI le_trans List.finite_set)
  moreover have "card (set (requests w)) = length (requests w)" using inv(5) by (rule distinct_card)
  ultimately show "length (requests w) \<le> 2" using two card_length [of "threads w"] by linarith
qed

text \<open>Pushing onto and taking off the two shared rings.\<close>

lemma idx_Suc: "unat ((x :: u16) - y) < NUM \<Longrightarrow> unat (x + 1 - y) = Suc (unat (x - y))"
proof -
  assume lt: "unat (x - y) < NUM"
  have "unat (x + 1 - y) = unat ((x - y) + 1)" by (simp add: algebra_simps)
  also have "\<dots> = unat (x - y) + 1" using lt by (subst unat_add_no_wrap) (simp_all add: NUM_def)
  finally show ?thesis by simp
qed

lemma idx_pos: "(x :: u16) \<noteq> y \<Longrightarrow> unat (x - y) = Suc (unat (x - (y + 1)))"
proof -
  assume "x \<noteq> y"
  then have ne: "x - y \<noteq> 0" by simp
  have eq: "x - (y + 1) = x - y - 1" by simp
  show ?thesis unfolding eq using unat_minus_one [OF ne] unat_eq_0 [of "x - y"] ne by simp
qed

lemma idx_mod: "unat ((y :: u16) + 1) mod NUM = Suc (unat y) mod NUM"
  by (simp add: NUM_def unat_word_ariths mod_mod_cancel mod_simps)

lemma idx_end: "unat (x :: u16) mod NUM = (unat y + unat (x - y)) mod NUM"
proof -
  have "unat x = unat (y + (x - y))" by simp
  also have "\<dots> mod NUM = (unat y + unat (x - y)) mod NUM"
    by (simp only: unat_word_ariths) (simp add: NUM_def mod_mod_cancel)
  finally show ?thesis .
qed

lemma used_queue_put:
  assumes "unat (used_ix d - used_idx d) < NUM" "i < NUM"
  shows "used_queue (d\<lparr>info_status := st, used_ring := (used_ring d)(unat (used_ix d) mod NUM := of_nat i), used_ix := used_ix d + 1\<rparr>) =
    used_queue d @ [i]"
proof -
  let ?f = "\<lambda>i. unat (used_ring d i)" and ?n = "unat (used_ix d - used_idx d)"
  have "(\<lambda>j. unat (((used_ring d)(unat (used_ix d) mod NUM := of_nat i)) j)) = ?f((unat (used_idx d) + ?n) mod NUM := i)"
    using unat_index(2) [OF assms(2)] idx_end [of "used_ix d" "used_idx d"] by (auto simp: fun_eq_iff)
  then show ?thesis
    using window_put [OF assms(1), of ?f "unat (used_idx d)" i] idx_Suc [OF assms(1)] by (simp add: used_queue_def)
qed

lemma used_queue_get:
  assumes "used_idx d \<noteq> used_ix d"
  shows "used_queue d = unat (used_ring d (unat (used_idx d) mod NUM)) # used_queue (d\<lparr>bdisk := f, out := g, used_idx := used_idx d + 1\<rparr>)"
  using idx_pos [of "used_ix d" "used_idx d"] assms
  by (simp add: used_queue_def window_get window_mod [OF idx_mod [of "used_idx d"]])

lemma avail_queue_get:
  assumes "dev_avail w \<noteq> avail_idx (vdisk w)"
  shows "avail_queue w = unat (avail_ring (vdisk w) (unat (dev_avail w) mod NUM)) #
    avail_queue (w\<lparr>inflight := is, dev_avail := dev_avail w + 1\<rparr>)"
  using idx_pos [of "avail_idx (vdisk w)" "dev_avail w"] assms
  by (simp add: avail_queue_def window_get window_mod [OF idx_mod [of "dev_avail w"]])

text \<open>What \<open>virtio_disk_intr\<close> does.\<close>

lemma intr_loop_ok:
  assumes "\<And>i. i \<in> set (used_queue d) \<Longrightarrow> i < NUM \<and> info_status d i = 0 \<and> info_b d i = Some (bb i)"
  shows "intr_loop d = Inr (d\<lparr>used_idx := used_ix d, bdisk := (\<lambda>b. bdisk d b \<and> b \<notin> bb ` set (used_queue d)),
    out := out d @ map (\<lambda>i. Wakeup (Buf_chan (bb i))) (used_queue d)\<rparr>)"
  using assms
proof (induction d rule: intr_loop.induct)
  case (1 d)
  show ?case
  proof (cases "used_idx d = used_ix d")
    case True
    then show ?thesis by (subst intr_loop.simps) (simp add: used_queue_def window_def)
  next
    case False
    let ?i = "unat (used_ring d (unat (used_idx d) mod NUM))"
    let ?d = "(emit (Wakeup (Buf_chan (bb ?i))) (d\<lparr>bdisk := (bdisk d)(bb ?i := False)\<rparr>))\<lparr>used_idx := used_idx d + 1\<rparr>"
    have q: "used_queue d = ?i # used_queue ?d" unfolding emit_def using used_queue_get [OF False] by simp
    have same: "info_status ?d = info_status d" "info_b ?d = info_b d" "bdisk ?d = (bdisk d)(bb ?i := False)"
      "out ?d = out d @ [Wakeup (Buf_chan (bb ?i))]" by (simp_all add: emit_def)
    have i: "?i < NUM" "info_status d ?i = 0" "info_b d ?i = Some (bb ?i)"
      using "1.prems" [of ?i] q by simp_all
    have prem: "j < NUM \<and> info_status ?d j = 0 \<and> info_b ?d j = Some (bb j)" if "j \<in> set (used_queue ?d)" for j
      using "1.prems" [of j] that q same by simp
    have "intr_loop d = intr_loop ?d" using False i by (subst intr_loop.simps) (simp add: Let_def)
    also have "\<dots> = Inr (?d\<lparr>used_idx := used_ix ?d, bdisk := (\<lambda>b. bdisk ?d b \<and> b \<notin> bb ` set (used_queue ?d)),
        out := out ?d @ map (\<lambda>i. Wakeup (Buf_chan (bb i))) (used_queue ?d)\<rparr>)"
      using i(1,2) prem by (intro "1.IH" [OF False refl _ _ i(3)]) (simp_all only: not_le not_not)
    also have "\<dots> = Inr (d\<lparr>used_idx := used_ix d, bdisk := (\<lambda>b. bdisk d b \<and> b \<notin> bb ` set (used_queue d)),
        out := out d @ map (\<lambda>i. Wakeup (Buf_chan (bb i))) (used_queue d)\<rparr>)"
    proof -
      have "(\<lambda>b. bdisk ?d b \<and> b \<notin> bb ` set (used_queue ?d)) = (\<lambda>b. bdisk d b \<and> b \<notin> bb ` set (used_queue d))"
        unfolding q same by auto
      moreover have "out ?d @ map (\<lambda>i. Wakeup (Buf_chan (bb i))) (used_queue ?d) = out d @ map (\<lambda>i. Wakeup (Buf_chan (bb i))) (used_queue d)"
        unfolding q same by simp
      ultimately show ?thesis by (simp only:) (simp add: emit_def)
    qed
    finally show ?thesis .
  qed
qed

lemma intr_loop_fails:
  assumes "\<And>i. i \<in> set (used_queue d) \<Longrightarrow> i < NUM \<and> info_b d i \<noteq> None" "j \<in> set (used_queue d)" "info_status d j \<noteq> 0"
  shows "intr_loop d = Inl (Panic ''virtio_disk_intr status'')"
  using assms
proof (induction d rule: intr_loop.induct)
  case (1 d)
  let ?i = "unat (used_ring d (unat (used_idx d) mod NUM))"
  have ne: "used_idx d \<noteq> used_ix d" using "1.prems"(2) by (auto simp: used_queue_def window_def)
  have q: "used_queue d = ?i # used_queue (d\<lparr>bdisk := f, out := g, used_idx := used_idx d + 1\<rparr>)" for f g
    by (rule used_queue_get [OF ne])
  have "?i \<in> set (used_queue d)" by (subst q [of "out d" "bdisk d"]) simp
  then have i: "?i < NUM" "info_b d ?i \<noteq> None" using "1.prems"(1) [of ?i] by blast+
  then obtain b where b: "info_b d ?i = Some b" by blast
  show ?case
  proof (cases "info_status d ?i = 0")
    case True
    let ?d = "(emit (Wakeup (Buf_chan b)) (d\<lparr>bdisk := (bdisk d)(b := False)\<rparr>))\<lparr>used_idx := used_idx d + 1\<rparr>"
    have q': "used_queue d = ?i # used_queue ?d" unfolding emit_def using q by simp
    have same: "info_status ?d = info_status d" "info_b ?d = info_b d" by (simp_all add: emit_def)
    have "intr_loop ?d = Inl (Panic ''virtio_disk_intr status'')"
    proof (rule "1.IH" [OF ne refl _ _ b])
      show "\<not> NUM \<le> ?i" "\<not> info_status d ?i \<noteq> 0" using i(1) True by simp_all
      show "k < NUM \<and> info_b ?d k \<noteq> None" if "k \<in> set (used_queue ?d)" for k using "1.prems"(1) [of k] that q' same by simp
      show "j \<in> set (used_queue ?d)" "info_status ?d j \<noteq> 0" using "1.prems"(2,3) True q' same by auto
    qed
    then show ?thesis using ne i(1) True b by (subst intr_loop.simps) (simp add: Let_def)
  qed (use ne i(1) in \<open>subst intr_loop.simps, simp add: Let_def\<close>)
qed

text \<open>The buffer of a request.\<close>

definition buf_of :: "vworld \<Rightarrow> nat \<Rightarrow> nat" where
  "buf_of w i = the (info_b (vdisk w) i)"

lemma used_queue_ok:
  assumes "vinv w" "i \<in> set (used_queue (vdisk w))"
  shows "i < NUM \<and> info_status (vdisk w) i = dev_status w i \<and> info_b (vdisk w) i = Some (buf_of w i)"
proof -
  note inv = vinvD [OF assms(1)]
  have "i \<in> set (requests w)" using assms(2) by (simp add: requests_def)
  then obtain i1 i2 b where t: "(i, i1, i2, b) \<in> set (threads w)" using inv(6) by blast
  then have "i < NUM" using descs_mem [OF t] inv(2) by auto
  then show ?thesis using inv(4) [OF t] inv(7) [OF assms(2)] by (simp add: buf_of_def)
qed

text \<open>No request that the device has announced has failed.\<close>

definition all_done_ok :: "vworld \<Rightarrow> bool" where
  "all_done_ok w \<longleftrightarrow> (\<forall>i\<in>set (used_queue (vdisk w)). dev_status w i = 0)"

lemma intr_fails:
  assumes "vinv w" "\<not> all_done_ok w"
  shows "virtio_disk_intr st (vdisk w) = Inl (Panic ''virtio_disk_intr status'')"
proof -
  let ?d = "emit (Reg_write 0x64 (st AND 3)) (vdisk w)"
  have u: "used_queue ?d = used_queue (vdisk w)" "info_b ?d = info_b (vdisk w)" "info_status ?d = info_status (vdisk w)"
    by (simp_all add: used_queue_def emit_def)
  obtain j where "j \<in> set (used_queue (vdisk w))" "info_status (vdisk w) j \<noteq> 0"
    using assms(2) used_queue_ok [OF assms(1)] by (auto simp: all_done_ok_def)
  then show ?thesis
    using used_queue_ok [OF assms(1)] by (auto simp: virtio_disk_intr_def u intro!: intr_loop_fails [of ?d j])
qed

lemma intr_result:
  assumes "vinv w" "all_done_ok w"
  shows "virtio_disk_intr st (vdisk w) = Inr ((vdisk w)\<lparr>used_idx := used_ix (vdisk w),
    bdisk := (\<lambda>b. bdisk (vdisk w) b \<and> b \<notin> buf_of w ` set (used_queue (vdisk w))),
    out := out (vdisk w) @ Reg_write 0x64 (st AND 3) # map (\<lambda>i. Wakeup (Buf_chan (buf_of w i))) (used_queue (vdisk w))\<rparr>)"
proof -
  let ?d = "emit (Reg_write 0x64 (st AND 3)) (vdisk w)"
  have u: "used_queue ?d = used_queue (vdisk w)" by (simp add: used_queue_def emit_def)
  have "intr_loop ?d = Inr (?d\<lparr>used_idx := used_ix ?d, bdisk := (\<lambda>b. bdisk ?d b \<and> b \<notin> buf_of w ` set (used_queue ?d)),
    out := out ?d @ map (\<lambda>i. Wakeup (Buf_chan (buf_of w i))) (used_queue ?d)\<rparr>)"
    using used_queue_ok [OF assms(1)] assms(2) by (intro intr_loop_ok) (simp add: u all_done_ok_def, simp add: emit_def)
  then show ?thesis by (simp add: virtio_disk_intr_def u) (simp add: emit_def)
qed

lemma intr_wakes:
  assumes "vinv w" "all_done_ok w"
  shows "\<exists>d ios. virtio_disk_intr st (vdisk w) = Inr d \<and> used_queue d = [] \<and> out d = out (vdisk w) @ ios \<and>
    (\<forall>b. bdisk (vdisk w) b \<and> \<not> bdisk d b \<longrightarrow> Wakeup (Buf_chan b) \<in> set ios)"
  by (simp only: intr_result [OF assms] sum.inject ex_simps simp_thms) (auto simp: used_queue_def window_def)

section \<open>Steps keep the invariant\<close>

lemma vinv_intr:
  assumes inv: "vinv w" and r: "virtio_disk_intr st (vdisk w) = Inr d"
  shows "vinv (w\<lparr>vdisk := d\<rparr>)"
proof -
  note i = vinvD [OF inv]
  let ?w = "w\<lparr>vdisk := d\<rparr>" and ?u = "used_queue (vdisk w)"
  have d: "d = (vdisk w)\<lparr>used_idx := used_ix (vdisk w), bdisk := (\<lambda>b. bdisk (vdisk w) b \<and> b \<notin> buf_of w ` set ?u),
      out := out (vdisk w) @ Reg_write 0x64 (st AND 3) # map (\<lambda>i. Wakeup (Buf_chan (buf_of w i))) ?u\<rparr>"
    using r intr_result [OF inv] intr_fails [OF inv] by (cases "all_done_ok w") simp_all
  have u: "used_queue d = []" by (simp add: d used_queue_def window_def)
  have a: "avail_queue ?w = avail_queue w" by (simp add: d avail_queue_def)
  have q: "requests ?w = avail_queue w @ inflight w" by (simp add: requests_def u a)
  have split: "set (requests ?w) = set (requests w) - set ?u" "distinct (requests ?w)"
    using i(5) unfolding q requests_def [of w] by auto
  have "bdisk d b \<longleftrightarrow> bdisk (vdisk w) b \<and> i0 \<notin> set ?u" if t: "(i0, i1, i2, b) \<in> set (threads w)" for i0 i1 i2 b
  proof -
    have b: "buf_of w i0 = b" using i(4) [OF t] by (simp add: buf_of_def)
    have "i0 = j" if "j \<in> set ?u" "buf_of w j = b" for j
    proof -
      have "j \<in> set (requests w)" using that(1) by (simp add: requests_def)
      then obtain j1 j2 c where j: "(j, j1, j2, c) \<in> set (threads w)" using i(6) [of j] by blast
      then have "c = b" using i(4) [OF j] that(2) by (simp add: buf_of_def)
      then show ?thesis using thread_of_buf [OF i(3) t] j by simp
    qed
    then show ?thesis using b by (auto simp: d image_iff)
  qed
  then have "i \<in> set (requests ?w) \<longleftrightarrow> (\<exists>i1 i2 b. (i, i1, i2, b) \<in> set (threads w) \<and> bdisk d b)" for i
    unfolding split(1) Diff_iff i(6) by blast
  then show ?thesis using i(1-4) split(2) u by (intro vinvI) (auto simp: d chain_def)
qed

lemma vinv_take:
  assumes inv: "vinv w" and ne: "dev_avail w \<noteq> avail_idx (vdisk w)"
  shows "vinv (w\<lparr>inflight := unat (avail_ring (vdisk w) (unat (dev_avail w) mod NUM)) # inflight w, dev_avail := dev_avail w + 1\<rparr>)"
    (is "vinv ?w")
proof -
  note i = vinvD [OF inv]
  have "avail_queue w = unat (avail_ring (vdisk w) (unat (dev_avail w) mod NUM)) # avail_queue ?w"
    by (rule avail_queue_get [OF ne])
  then have "set (requests ?w) = set (requests w)" "distinct (requests ?w)"
    using i(5) by (auto simp: requests_def)
  then show ?thesis using i by (intro vinvI) auto
qed

lemma vinv_done:
  assumes inv: "vinv w" and j: "j \<in> set (inflight w)"
  shows "vinv (w\<lparr>vdisk := (vdisk w)\<lparr>info_status := (info_status (vdisk w))(j := st),
        used_ring := (used_ring (vdisk w))(unat (used_ix (vdisk w)) mod NUM := of_nat j),
        used_ix := used_ix (vdisk w) + 1\<rparr>,
      inflight := remove1 j (inflight w), dev_status := (dev_status w)(j := st)\<rparr>)" (is "vinv ?w")
proof -
  note i = vinvD [OF inv]
  have "j \<in> set (requests w)" using j by (simp add: requests_def)
  then have "j < NUM" using i(2,6) descs_mem by blast
  moreover have "unat (used_ix (vdisk w) - used_idx (vdisk w)) < NUM"
    using at_most_two(2) [OF inv] by (simp add: requests_def used_queue_def NUM_def)
  ultimately have u: "used_queue (vdisk ?w) = used_queue (vdisk w) @ [j]"
    using used_queue_put [of "vdisk w" j] by simp
  have a: "avail_queue ?w = avail_queue w" by (simp add: avail_queue_def)
  have q: "requests ?w = avail_queue w @ remove1 j (inflight w) @ used_queue (vdisk w) @ [j]"
    unfolding requests_def a u by simp
  have "set (requests ?w) = set (requests w)" "distinct (requests ?w)"
    using i(5) j unfolding q requests_def [of w] by (auto dest: notin_set_remove1)
  moreover have "chain (vdisk ?w) = chain (vdisk w)" by (simp add: chain_def fun_eq_iff)
  ultimately show ?thesis using i u by (intro vinvI) auto
qed

text \<open>Descriptors that nobody uses may change.\<close>

lemma vinv_wait:
  assumes inv: "vinv w" and d: "\<And>i. \<not> dfree (vdisk w) i \<Longrightarrow> desc d i = desc (vdisk w) i" "same_rest (vdisk w) d"
    "dfree d = dfree (vdisk w)"
  shows "vinv (w\<lparr>vdisk := d\<rparr>)"
proof -
  note i = vinvD [OF inv]
  obtain f g h where g: "d = (vdisk w)\<lparr>desc := f, dfree := g, out := h\<rparr>" using d(2) unfolding same_rest_def by metis
  have "chain d i0 i1 i2" if t: "(i0, i1, i2, b) \<in> set (threads w)" for i0 i1 i2 b
  proof -
    have "\<not> dfree (vdisk w) i0" "\<not> dfree (vdisk w) i1" "\<not> dfree (vdisk w) i2" using descs_mem [OF t] i(2) by auto
    then show ?thesis using i(4) [OF t] d(1) by (simp add: chain_def)
  qed
  moreover have "requests (w\<lparr>vdisk := d\<rparr>) = requests w" "used_queue d = used_queue (vdisk w)"
    by (simp_all add: g requests_def avail_queue_def used_queue_def)
  moreover have "info_b d = info_b (vdisk w)" "bdisk d = bdisk (vdisk w)" "info_status d = info_status (vdisk w)" by (simp_all add: g)
  ultimately show ?thesis using i d(3) by (intro vinvI) auto
qed

lemma vinv_finish:
  assumes inv: "vinv w" and t: "(i0, i1, i2, b) \<in> set (threads w)" and b: "\<not> bdisk (vdisk w) b"
  shows "\<exists>d. rw_finish i0 (vdisk w) = Inr d \<and> dfree d = (\<lambda>i. dfree (vdisk w) i \<or> i \<in> {i0, i1, i2}) \<and>
    vinv (w\<lparr>vdisk := d, threads := remove1 (i0, i1, i2, b) (threads w)\<rparr>)"
proof -
  note i = vinvD [OF inv]
  let ?d0 = "(vdisk w)\<lparr>info_b := (info_b (vdisk w))(i0 := None)\<rparr>"
  obtain xs ys where ts: "threads w = xs @ (i0, i1, i2, b) # ys" "(i0, i1, i2, b) \<notin> set xs"
    using split_list_first [OF t] by blast
  have rem: "remove1 (i0, i1, i2, b) (threads w) = xs @ ys" using ts by (simp add: remove1_append)
  have dist: "distinct [i0, i1, i2]" "set [i0, i1, i2] \<inter> set (descs (xs @ ys)) = {}" "distinct (descs (xs @ ys))"
    using i(1) by (auto simp: ts(1))
  have used: "\<forall>i\<in>set [i0, i1, i2]. i < NUM \<and> \<not> dfree ?d0 i" using descs_mem [OF t] i(2) by auto
  have "chain ?d0 i0 i1 i2" using i(4) [OF t] by (simp add: chain_def)
  from free_chain_ok [OF this dist(1) used] obtain d where d: "rw_finish i0 (vdisk w) = Inr d"
    "dfree d = (\<lambda>i. dfree ?d0 i \<or> i \<in> {i0, i1, i2})" "\<And>j. j \<notin> {i0, i1, i2} \<Longrightarrow> desc d j = desc ?d0 j" "same_rest ?d0 d"
    unfolding rw_finish_def by auto
  let ?w = "w\<lparr>vdisk := d, threads := xs @ ys\<rparr>"
  obtain f g h where g: "d = ?d0\<lparr>desc := f, dfree := g, out := h\<rparr>" using d(4) unfolding same_rest_def by metis
  have same: "requests ?w = requests w" "used_queue d = used_queue (vdisk w)" "bdisk d = bdisk (vdisk w)"
    "info_status d = info_status (vdisk w)"
    by (simp_all add: g requests_def avail_queue_def used_queue_def)
  have other: "chain d j0 j1 j2 \<and> info_b d j0 = Some c" if u: "(j0, j1, j2, c) \<in> set (xs @ ys)" for j0 j1 j2 c
  proof -
    have "{j0, j1, j2} \<inter> {i0, i1, i2} = {}" using descs_mem [OF u] dist(2) by auto
    then have "desc d j0 = desc (vdisk w) j0" "desc d j1 = desc (vdisk w) j1" "desc d j2 = desc (vdisk w) j2" "j0 \<noteq> i0"
      using d(3) [of j0] d(3) [of j1] d(3) [of j2] by auto
    then show ?thesis using i(4) [of j0 j1 j2 c] u by (auto simp: ts(1) chain_def g)
  qed
  have "set (descs (xs @ ys)) = {i. i < NUM \<and> \<not> dfree d i}"
  proof -
    have "set (descs (threads w)) = set (descs (xs @ ys)) \<union> {i0, i1, i2}" by (auto simp: ts(1))
    then show ?thesis using i(2) dist(2) d(2) by auto
  qed
  moreover have "j \<in> set (requests w) \<longleftrightarrow> (\<exists>i1 i2 b. (j, i1, i2, b) \<in> set (xs @ ys) \<and> bdisk (vdisk w) b)" for j
    using i(6) [of j] b by (auto simp: ts(1))
  ultimately have "vinv ?w" using i(3,5,7) dist(3) other by (intro vinvI) (auto simp: same ts(1))
  then show ?thesis using d(1,2) rem by auto
qed

lemma format_request_spec:
  assumes "distinct [i0, i1, i2]" "d' = format_request a b blockno wr i0 i1 i2 d"
  shows "chain d' i0 i1 i2" "\<And>j. j \<notin> {i0, i1, i2} \<Longrightarrow> desc d' j = desc d j" "info_b d' = (info_b d)(i0 := Some b)"
    "bdisk d' = (bdisk d)(b := True)" "dfree d' = dfree d" "used_queue d' = used_queue d"
    "\<And>j. j \<noteq> i0 \<Longrightarrow> info_status d' j = info_status d j" "avail_idx d' = avail_idx d + 1"
    "avail_ring d' = (avail_ring d)(unat (avail_idx d) mod NUM := of_nat i0)"
proof -
  have "(x OR F_NEXT) AND F_NEXT \<noteq> 0" "F_WRITE AND F_NEXT = 0" "F_NEXT AND F_NEXT \<noteq> 0" for x :: u16
  proof -
    have "bit ((x OR F_NEXT) AND F_NEXT) 0" by (simp add: F_NEXT_def bit_simps)
    then show "(x OR F_NEXT) AND F_NEXT \<noteq> 0" by auto
  qed (simp_all add: F_WRITE_def F_NEXT_def)
  then show "chain d' i0 i1 i2" using assms by (auto simp: chain_def format_request_def emit_def Let_def)
  show "used_queue d' = used_queue d" by (simp add: assms(2) format_request_def emit_def Let_def used_queue_def)
qed (simp_all add: assms(2) format_request_def emit_def Let_def)

lemma avail_queue_put:
  assumes "unat (avail_idx (vdisk w) - dev_avail w) < NUM" "i < NUM" "avail_idx d = avail_idx (vdisk w) + 1"
    "avail_ring d = (avail_ring (vdisk w))(unat (avail_idx (vdisk w)) mod NUM := of_nat i)"
  shows "avail_queue (w\<lparr>vdisk := d, threads := ts\<rparr>) = avail_queue w @ [i]"
proof -
  let ?f = "\<lambda>i. unat (avail_ring (vdisk w) i)" and ?n = "unat (avail_idx (vdisk w) - dev_avail w)"
  have "(\<lambda>j. unat (avail_ring d j)) = ?f((unat (dev_avail w) + ?n) mod NUM := i)"
    using unat_index(1) [OF assms(2)] idx_end [of "avail_idx (vdisk w)" "dev_avail w"] by (auto simp: fun_eq_iff assms(4))
  then show ?thesis
    using window_put [OF assms(1), of ?f "unat (dev_avail w)" i] idx_Suc [OF assms(1)]
    by (simp add: avail_queue_def assms(3))
qed

lemma vinv_start:
  assumes inv: "vinv w" and b: "b \<notin> set (bufs (threads w))"
    and r: "rw_start a b blockno wr (vdisk w) = Inr (Some (i0, i1, i2), d)"
  shows "vinv (w\<lparr>vdisk := d, threads := (i0, i1, i2, b) # threads w\<rparr>)" (is "vinv ?w")
proof -
  note i = vinvD [OF inv]
  let ?d0 = "(vdisk w)\<lparr>dfree := (\<lambda>i. dfree (vdisk w) i \<and> i \<notin> set [i0, i1, i2])\<rparr>"
  obtain r0 d1 where r0: "alloc3_desc (vdisk w) = Inr (r0, d1)" using alloc3_desc_spec [of "vdisk w"] by blast
  then have "r0 = Some [i0, i1, i2]"
    using r alloc3_desc_spec [of "vdisk w"] by (cases r0) (auto simp: rw_start_def)
  with r0 obtain ids where al: "alloc3_desc (vdisk w) = Inr (Some ids, d1)" "ids = [i0, i1, i2]" by blast
  then have ids: "distinct [i0, i1, i2]" "\<forall>j\<in>set [i0, i1, i2]. j < NUM \<and> dfree (vdisk w) j" "d1 = ?d0"
    using alloc3_desc_spec [of "vdisk w"] by auto
  have d: "d = format_request a b blockno wr i0 i1 i2 ?d0" using r al ids(3) by (simp add: rw_start_def)
  note f = format_request_spec [OF ids(1) d]
  have new: "set [i0, i1, i2] \<inter> set (descs (threads w)) = {}" using ids(2) i(2) by auto
  have "unat (avail_idx (vdisk w) - dev_avail w) < NUM"
    using at_most_two(2) [OF inv] by (simp add: requests_def avail_queue_def NUM_def)
  then have av: "avail_queue ?w = avail_queue w @ [i0]"
    using ids(2) f(8,9) by (intro avail_queue_put) auto
  have us: "used_queue (vdisk ?w) = used_queue (vdisk w)" using f(6) by (simp add: used_queue_def)
  have q: "requests ?w = avail_queue w @ [i0] @ inflight w @ used_queue (vdisk w)" unfolding requests_def av us by simp
  have i0: "i0 \<notin> set (requests w)" using i(6) [of i0] new descs_mem by fastforce
  have req: "set (requests ?w) = insert i0 (set (requests w))" "distinct (requests ?w)"
    using i(5) i0 unfolding q requests_def [of w] by auto
  have old: "chain d j0 j1 j2 \<and> info_b d j0 = Some c \<and> c \<noteq> b" if t: "(j0, j1, j2, c) \<in> set (threads w)" for j0 j1 j2 c
  proof -
    have n: "{j0, j1, j2} \<inter> {i0, i1, i2} = {}" using descs_mem [OF t] new by auto
    then have "desc d j0 = desc (vdisk w) j0" "desc d j1 = desc (vdisk w) j1" "desc d j2 = desc (vdisk w) j2" "j0 \<noteq> i0"
      using f(2) [of j0] f(2) [of j1] f(2) [of j2] by auto
    moreover have "c \<noteq> b" using t b by (force simp: bufs_def)
    ultimately show ?thesis using i(4) [OF t] f(3) by (simp add: chain_def)
  qed
  show ?thesis
  proof (rule vinvI)
    show "distinct (descs (threads ?w))" using i(1) ids(1) new by auto
    show "set (descs (threads ?w)) = {i. i < NUM \<and> \<not> dfree (vdisk ?w) i}" using i(2) f(5) ids(2) by auto
    show "distinct (bufs (threads ?w))" using i(3) b by simp
    show "chain (vdisk ?w) j0 j1 j2 \<and> info_b (vdisk ?w) j0 = Some c" if "(j0, j1, j2, c) \<in> set (threads ?w)" for j0 j1 j2 c
      using that old [of j0 j1 j2 c] f(1,3) by (cases "(j0, j1, j2, c) = (i0, i1, i2, b)") auto
    show "distinct (requests ?w)" by fact
    show "j \<in> set (requests ?w) \<longleftrightarrow> (\<exists>i1 i2 b. (j, i1, i2, b) \<in> set (threads ?w) \<and> bdisk (vdisk ?w) b)" for j
    proof -
      have "bdisk d b" "\<And>j0 j1 j2 c. (j0, j1, j2, c) \<in> set (threads w) \<Longrightarrow> bdisk d c \<longleftrightarrow> bdisk (vdisk w) c"
        using f(4) old by auto
      then show ?thesis unfolding req(1) insert_iff i(6) by simp blast
    qed
    show "info_status (vdisk ?w) j = dev_status ?w j" if "j \<in> set (used_queue (vdisk ?w))" for j
    proof -
      have "j \<in> set (used_queue (vdisk w))" using that us by simp
      moreover from this have "j \<noteq> i0" using i0 by (auto simp: requests_def)
      ultimately show ?thesis using f(7) [of j] i(7) by simp
    qed
  qed
qed

lemma vinv_step: "vstep a w w' \<Longrightarrow> vinv w \<Longrightarrow> vinv w'"
proof (induction rule: vstep.induct)
  case (vs_start b w blockno wr i0 i1 i2 d)
  then show ?case by (intro vinv_start) (auto simp: bufs_def)
next
  case (vs_wait b blockno wr w d)
  obtain r d1 where al: "alloc3_desc (vdisk w) = Inr (r, d1)" using alloc3_desc_spec [of "vdisk w"] by blast
  have "r = None" "d = d1"
    using vs_wait.hyps al alloc3_desc_spec [of "vdisk w"] by (auto simp: rw_start_def split: option.splits list.splits)
  then show ?case using al alloc3_desc_spec [of "vdisk w"] vs_wait.prems by (intro vinv_wait) auto
next
  case (vs_finish i0 i1 i2 b w d)
  then show ?case using vinv_finish [of w i0 i1 i2 b] by auto
qed (auto intro: vinv_take vinv_done vinv_intr)

lemma vinv_reachable: "(vstep a)\<^sup>*\<^sup>* w0 w \<Longrightarrow> vinv w0 \<Longrightarrow> vinv w"
  by (induction rule: rtranclp_induct) (auto intro: vinv_step)

text \<open>A device that answers as the driver expects, and three free pages, are enough to initialise it.\<close>

definition good_device :: "vregs \<Rightarrow> bool" where
  "good_device r \<longleftrightarrow> magic_value r = 0x74726976 \<and> version r = 2 \<and> device_id r = 2 \<and> vendor_id r = 0x554d4551 \<and>
     status_back r AND 8 \<noteq> 0 \<and> queue_ready r = 0 \<and> of_nat NUM \<le> queue_num_max r"

lemma init_ok:
  assumes "good_device r" "kmem_inv kend (p # q # s # ps) k"
  shows "\<exists>d k'. virtio_disk_init r k zero_disk = Inr (d, k')"
proof -
  obtain k1 where k1: "kalloc k = (p, k1)" "kmem_inv kend (q # s # ps) k1" using kalloc_inv [OF assms(2)] by blast
  obtain k2 where k2: "kalloc k1 = (q, k2)" "kmem_inv kend (s # ps) k2" using kalloc_inv [OF k1(2)] by blast
  obtain k3 where k3: "kalloc k2 = (s, k3)" using kalloc_inv [OF k2(2)] by blast
  have "p \<noteq> 0" "q \<noteq> 0" "s \<noteq> 0" using assms(2) by (auto simp: kmem_inv_def good_page_def)
  moreover have "queue_num_max r \<noteq> 0" "\<not> queue_num_max r < of_nat NUM" using assms(1) by (auto simp: good_device_def NUM_def)
  ultimately show ?thesis
    using assms(1) k1(1) k2(1) k3 by (simp add: virtio_disk_init_def setup_queue_def good_device_def Let_def)
qed

lemma count_list_distinct: "distinct xs \<Longrightarrow> count_list xs x = (if x \<in> set xs then 1 else 0)"
  by (induction xs) auto

lemma free_count:
  assumes "vinv w"
  shows "card {i. i < NUM \<and> dfree (vdisk w) i} + 3 * length (threads w) = NUM"
proof -
  note i = vinvD [OF assms]
  have "card (set (descs (threads w))) = 3 * length (threads w)" using i(1) by (simp only: distinct_card length_descs)
  moreover have "{..<NUM} = {i. i < NUM \<and> dfree (vdisk w) i} \<union> set (descs (threads w))" using i(2) by auto
  moreover have "{i. i < NUM \<and> dfree (vdisk w) i} \<inter> set (descs (threads w)) = {}" using i(2) by auto
  ultimately show ?thesis by (metis (no_types, lifting) card_Un_disjoint card_lessThan finite_Un finite_lessThan)
qed

lemma rw_start_ok:
  assumes "vinv w"
  shows "\<exists>r d. rw_start a b blockno wr (vdisk w) = Inr (r, d) \<and> (r = None \<longleftrightarrow> length (threads w) = 2)"
proof -
  note n = free_count [OF assms] at_most_two(1) [OF assms]
  obtain r0 d1 where r0: "alloc3_desc (vdisk w) = Inr (r0, d1)" using alloc3_desc_spec [of "vdisk w"] by blast
  show ?thesis
  proof (cases r0)
    case None
    then have "card {i. i < NUM \<and> dfree (vdisk w) i} < 3" using r0 alloc3_desc_spec [of "vdisk w"] by auto
    then have "length (threads w) = 2" using n by (simp add: NUM_def)
    then show ?thesis using None r0 by (simp add: rw_start_def)
  next
    case (Some ids)
    then obtain i0 i1 i2 where ids: "ids = [i0, i1, i2]" "distinct ids" "set ids \<subseteq> {i. i < NUM \<and> dfree (vdisk w) i}"
      using r0 alloc3_desc_spec [of "vdisk w"] by auto
    have "card (set ids) = 3" using ids(1,2) by simp
    moreover have "card (set ids) \<le> card {i. i < NUM \<and> dfree (vdisk w) i}" by (rule card_mono [OF _ ids(3)]) simp
    ultimately have "length (threads w) \<noteq> 2" using n by (simp add: NUM_def)
    then show ?thesis using Some r0 ids(1) by (simp add: rw_start_def)
  qed
qed

section \<open>Properties\<close>

text \<open>C36: The disk driver works with any device that follows the virtio protocol, whatever the order in which requests are issued, taken,
  completed and announced, and whatever status the device reports. In every reachable state there is one possible panic of the driver: if the device
  has announced a request with a status other than 0, the interrupt handler panics with \<open>virtio_disk_intr status\<close>. Neither \<open>free_desc\<close> nor
  the allocation of descriptors can panic, and no null buffer is touched. A request that was issued is in exactly one of the queues until
  \<open>b->disk\<close> is cleared by the interrupt handler, which empties the used ring and wakes up the process that waits for the buffer; then
  \<open>virtio_disk_rw\<close> gives back exactly its own three descriptors; descriptors are never lost, and a thread waits for free ones only while two
  requests are under way.\<close>

theorem virtio_driver_safe:
  assumes "virtio_disk_init r k zero_disk = Inr (d0, k')" "(vstep a)\<^sup>*\<^sup>* (booted d0) w"
  shows "(if \<forall>i\<in>set (used_queue (vdisk w)). dev_status w i = 0
      then \<exists>d ios. virtio_disk_intr st (vdisk w) = Inr d \<and> used_queue d = [] \<and> out d = out (vdisk w) @ ios \<and>
        (\<forall>b. bdisk (vdisk w) b \<and> \<not> bdisk d b \<longrightarrow> Wakeup (Buf_chan b) \<in> set ios)
      else virtio_disk_intr st (vdisk w) = Inl (Panic ''virtio_disk_intr status'')) \<and>
    (\<exists>r d. rw_start a b blockno wr (vdisk w) = Inr (r, d) \<and> (r = None \<longleftrightarrow> length (threads w) = 2)) \<and>
    card {i. i < NUM \<and> dfree (vdisk w) i} + 3 * length (threads w) = NUM \<and>
    ((i0, i1, i2, c) \<in> set (threads w) \<longrightarrow>
      count_list (requests w) i0 = (if bdisk (vdisk w) c then 1 else 0) \<and>
      (\<not> bdisk (vdisk w) c \<longrightarrow> (\<exists>d. rw_finish i0 (vdisk w) = Inr d \<and>
        dfree d = (\<lambda>i. dfree (vdisk w) i \<or> i \<in> {i0, i1, i2}))))"
proof -
  have inv: "vinv w" using vinv_reachable [OF assms(2) vinv_initial [OF assms(1)]] .
  note i = vinvD [OF inv]
  have "count_list (requests w) i0 = (if bdisk (vdisk w) c then 1 else 0)" if t: "(i0, i1, i2, c) \<in> set (threads w)"
  proof -
    have "i0 \<in> set (requests w) \<longleftrightarrow> bdisk (vdisk w) c" using i(6) [of i0] t thread_unique [OF i(1) t] by blast
    then show ?thesis using i(5) by (simp add: count_list_distinct)
  qed
  moreover have "if all_done_ok w
      then \<exists>d ios. virtio_disk_intr st (vdisk w) = Inr d \<and> used_queue d = [] \<and> out d = out (vdisk w) @ ios \<and>
        (\<forall>b. bdisk (vdisk w) b \<and> \<not> bdisk d b \<longrightarrow> Wakeup (Buf_chan b) \<in> set ios)
      else virtio_disk_intr st (vdisk w) = Inl (Panic ''virtio_disk_intr status'')"
    using intr_wakes [OF inv] intr_fails [OF inv] by simp
  ultimately show ?thesis
    using rw_start_ok [OF inv] free_count [OF inv] vinv_finish [OF inv] unfolding all_done_ok_def by blast
qed

definition vregs_ex :: vregs where
  "vregs_ex = \<lparr>magic_value = 0x74726976, version = 2, device_id = 2, vendor_id = 0x554d4551, device_features = 0x30006e54,
     status_back = 11, queue_ready = 0, queue_num_max = 1024\<rparr>"

definition addrs_ex :: addrs where
  "addrs_ex = \<lparr>ops_addr = (\<lambda>i. 0x80010000 + of_nat (16 * i)), status_addr = (\<lambda>i. 0x80010100 + of_nat (16 * i)),
     data_addr = (\<lambda>b. 0x80011000 + of_nat (1024 * b))\<rparr>"

text \<open>With three free pages the driver initialises; then a request is started, which the interrupt handler and further requests can live with.\<close>

theorem virtio_driver_safe_witness:
  "\<exists>k d k' w. virtio_disk_init vregs_ex k zero_disk = Inr (d, k') \<and> (vstep addrs_ex)\<^sup>*\<^sup>* (booted d) w \<and> length (threads w) = 1 \<and>
     card {i. i < NUM \<and> dfree (vdisk w) i} = 5 \<and> (\<exists>d. virtio_disk_intr 1 (vdisk w) = Inr d)"
proof -
  have "good_page 0x80000800 0x80002000" by (simp add: good_page_def PHYSTOP_def KERNBASE_def PGSIZE_def)
  with kfree_inv [OF kmem_ex_inv, of "0x80002000"] obtain k where "kmem_inv 0x80000800 [0x80002000, 0x80003000, 0x80001000] k"
    by auto
  then obtain d0 k' where init: "virtio_disk_init vregs_ex k zero_disk = Inr (d0, k')"
    using init_ok [of vregs_ex "0x80000800" "0x80002000" "0x80003000" "0x80001000" "[]" k] by (auto simp: good_device_def vregs_ex_def NUM_def)
  obtain r d where r: "rw_start addrs_ex 7 3 True (vdisk (booted d0)) = Inr (r, d)" "r = None \<longleftrightarrow> length (threads (booted d0)) = 2"
    using virtio_driver_safe [OF init rtranclp.rtrancl_refl] by blast
  then obtain i0 i1 i2 where "r = Some (i0, i1, i2)" by (cases r) (auto simp: booted_def)
  with r have "vstep addrs_ex (booted d0) ((booted d0)\<lparr>vdisk := d, threads := [(i0, i1, i2, 7)]\<rparr>)" (is "vstep addrs_ex _ ?w")
    using vs_start [of 7 "booted d0" addrs_ex 3 True i0 i1 i2 d] by (simp add: booted_def)
  then have steps: "(vstep addrs_ex)\<^sup>*\<^sup>* (booted d0) ?w" by (rule r_into_rtranclp)
  have "\<forall>i\<in>set (used_queue (vdisk ?w)). dev_status ?w i = 0" by (simp add: booted_def)
  then have "\<exists>d. virtio_disk_intr 1 (vdisk ?w) = Inr d"
    using conjunct1 [OF virtio_driver_safe [OF init steps, where st = 1]] by (subst (asm) if_P) blast+
  moreover have "card {i. i < NUM \<and> dfree (vdisk ?w) i} + 3 * length (threads ?w) = NUM"
    by (rule conjunct1 [OF conjunct2 [OF conjunct2 [OF virtio_driver_safe [OF init steps]]]])
  moreover have "length (threads ?w) = 1" by simp
  ultimately have "card {i. i < NUM \<and> dfree (vdisk ?w) i} = 5 \<and> (\<exists>d. virtio_disk_intr 1 (vdisk ?w) = Inr d)"
    by (simp add: NUM_def)
  then show ?thesis using init steps \<open>length (threads ?w) = 1\<close> by blast
qed

end
