(* ===== verification/Sh.thy ===== *)
theory Sh
  imports Ulib
begin

text \<open>
  \<^verbatim>\<open>user/sh.c\<close>: the parser of the shell. The line is a C string \<open>b\<close>; pointers into it are offsets, and \<open>es\<close> is its length. A command
  holds offsets, as in the source; \<open>nulterminate\<close> puts a 0 at the end of each word in the line. \<open>panic\<close> of the shell, which prints its
  argument and exits, is the error \<open>Panic\<close>. \<open>malloc\<close> is taken to succeed: the code does not check it. The message about leftovers that comes before a \<open>panic\<close> is left out.
\<close>

section \<open>Tokens\<close>

definition whitespace :: "u8 list" where "whitespace = [32, 9, 13, 10, 11]"
definition symbols :: "u8 list" where "symbols = [60, 124, 62, 38, 59, 40, 41]"

abbreviation "LT \<equiv> 60 :: u8"
abbreviation "GT \<equiv> 62 :: u8"
abbreviation "BAR \<equiv> 124 :: u8"
abbreviation "AMP \<equiv> 38 :: u8"
abbreviation "SEMI \<equiv> 59 :: u8"
abbreviation "OPEN \<equiv> 40 :: u8"
abbreviation "CLOSE \<equiv> 41 :: u8"
abbreviation "TWORD \<equiv> 97 :: u8"
abbreviation "TPLUS \<equiv> 43 :: u8"

definition in_str :: "u8 list \<Rightarrow> u8 \<Rightarrow> bool" where
  "in_str s c \<longleftrightarrow> find_char c s \<noteq> None"

function skip_white :: "u8 list \<Rightarrow> nat \<Rightarrow> nat" where
  "skip_white b s = (if s < length b \<and> in_str whitespace (b ! s) then skip_white b (Suc s) else s)"
  by pat_completeness auto
termination by (relation "measure (\<lambda>(b, s). length b - s)") auto

function skip_word :: "u8 list \<Rightarrow> nat \<Rightarrow> nat" where
  "skip_word b s =
     (if s < length b \<and> \<not> in_str whitespace (b ! s) \<and> \<not> in_str symbols (b ! s) then skip_word b (Suc s) else s)"
  by pat_completeness auto
termination by (relation "measure (\<lambda>(b, s). length b - s)") auto

declare skip_white.simps [simp del] skip_word.simps [simp del]

text \<open>The result of \<open>gettoken\<close>: the token, \<open>q\<close>, \<open>eq\<close> and the new \<open>*ps\<close>.\<close>

definition gettoken :: "u8 list \<Rightarrow> nat \<Rightarrow> u8 \<times> nat \<times> nat \<times> nat" where
  "gettoken b ps =
     (let s = skip_white b ps; q = s; c = char_at b s;
          (ret, s) =
            (if c = 0 then (c, s)
             else if c \<in> {BAR, OPEN, CLOSE, SEMI, AMP, LT} then (c, s + 1)
             else if c = GT then (if char_at b (s + 1) = GT then (TPLUS, s + 2) else (c, s + 1))
             else (TWORD, skip_word b s))
      in (ret, q, s, skip_white b s))"

text \<open>\<open>gettoken (ps, es, 0, 0)\<close>, called for its effect on \<open>*ps\<close>.\<close>

definition advance :: "u8 list \<Rightarrow> nat \<Rightarrow> nat" where
  "advance b ps = (case gettoken b ps of (_, _, _, s) \<Rightarrow> s)"

definition peek :: "u8 list \<Rightarrow> nat \<Rightarrow> u8 list \<Rightarrow> bool \<times> nat" where
  "peek b ps toks = (let s = skip_white b ps in (char_at b s \<noteq> 0 \<and> in_str toks (char_at b s), s))"

section \<open>Commands\<close>

definition MAXARGS :: nat where "MAXARGS = 10"

datatype cmd =
    EXEC "nat option list" "nat option list"
  | REDIR cmd nat nat int int
  | PIPE cmd cmd
  | LIST cmd cmd
  | BACK cmd

definition execcmd :: cmd where
  "execcmd = EXEC (replicate MAXARGS None) (replicate MAXARGS None)"

text \<open>Storing into \<open>argv\<close> and \<open>eargv\<close> through the pointer \<open>cmd\<close>, which \<open>ret\<close> reaches through redirections.\<close>

fun set_arg :: "nat \<Rightarrow> nat option \<Rightarrow> nat option \<Rightarrow> cmd \<Rightarrow> cmd result" where
  "set_arg i q eq (EXEC argv eargv) =
     (if i < length argv \<and> i < length eargv then Inr (EXEC (argv[i := q]) (eargv[i := eq])) else Inl (UB ''argv''))"
| "set_arg i q eq (REDIR c file efile mode fd) = bind_result (set_arg i q eq c) (\<lambda>c. Inr (REDIR c file efile mode fd))"
| "set_arg i q eq c = Inl (UB ''not an execcmd'')"

definition O_RDONLY :: int where "O_RDONLY = 0"
definition O_WRONLY :: int where "O_WRONLY = 1"
definition O_CREATE :: int where "O_CREATE = 0x200"
definition O_TRUNC :: int where "O_TRUNC = 0x400"

text \<open>The parsers start at offset \<open>ps\<close> and return the new one. A step of a loop moves on, which the termination proofs need.\<close>

lemma skip_white_spec:
  "s \<le> skip_white b s \<and> (s \<le> length b \<longrightarrow> skip_white b s \<le> length b) \<and>
   (skip_white b s < length b \<longrightarrow> \<not> in_str whitespace (b ! skip_white b s))"
proof (induction b s rule: skip_white.induct)
  case (1 b s)
  then show ?case by (cases "s < length b \<and> in_str whitespace (b ! s)") (auto simp: skip_white.simps [of b s])
qed

lemma skip_white_id: "s < length b \<Longrightarrow> \<not> in_str whitespace (b ! s) \<Longrightarrow> skip_white b s = s"
  by (subst skip_white.simps) simp

lemma skip_white_idem [simp]: "skip_white b (skip_white b s) = skip_white b s"
  using skip_white_spec [of s b] by (cases "skip_white b s < length b") (auto simp: skip_white.simps [of b "skip_white b s"])

lemma skip_word_spec:
  "s \<le> skip_word b s \<and> (s \<le> length b \<longrightarrow> skip_word b s \<le> length b) \<and>
   (\<forall>i. s \<le> i \<and> i < skip_word b s \<longrightarrow> \<not> in_str whitespace (b ! i) \<and> \<not> in_str symbols (b ! i)) \<and>
   (skip_word b s < length b \<longrightarrow> in_str whitespace (b ! skip_word b s) \<or> in_str symbols (b ! skip_word b s))"
proof (induction b s rule: skip_word.induct)
  case (1 b s)
  show ?case
  proof (cases "s < length b \<and> \<not> in_str whitespace (b ! s) \<and> \<not> in_str symbols (b ! s)")
    case True
    then have "skip_word b s = skip_word b (Suc s)" by (subst skip_word.simps) simp
    moreover have "s \<le> i \<longleftrightarrow> i = s \<or> Suc s \<le> i" for i by auto
    ultimately show ?thesis using 1 [OF True] True by (simp only:) blast
  qed (auto simp: skip_word.simps [of b s])
qed

lemma char_at_pos: "char_at b s \<noteq> 0 \<Longrightarrow> s < length b"
  by (auto simp: char_at_def split: if_splits)

lemma in_symbols: "in_str symbols c \<longleftrightarrow> c \<in> {LT, BAR, GT, AMP, SEMI, OPEN, CLOSE}"
  by (auto simp: in_str_def symbols_def)

lemma peek_True: "peek b ps toks = (True, s) \<Longrightarrow> ps \<le> s \<and> s < length b \<and> skip_white b s = s \<and> char_at b s \<noteq> 0"
  using skip_white_spec [of ps b] by (auto simp: peek_def Let_def dest: char_at_pos)

lemma peek_mono: "peek b ps toks = (r, s) \<Longrightarrow> ps \<le> s \<and> (ps \<le> length b \<longrightarrow> s \<le> length b)"
  using skip_white_spec [of ps b] by (auto simp: peek_def Let_def)

lemma skip_word_progress:
  "s < length b \<Longrightarrow> \<not> in_str whitespace (b ! s) \<Longrightarrow> \<not> in_str symbols (b ! s) \<Longrightarrow> s < skip_word b s"
  using skip_word_spec [of "Suc s" b] by (subst skip_word.simps) simp

lemma gettoken_progress:
  assumes "gettoken b ps = (ret, q, eq, s)" "ret \<noteq> 0"
  shows "ps \<le> q \<and> q < eq \<and> eq \<le> s \<and> q < length b"
proof -
  let ?s = "skip_white b ps"
  have c: "char_at b ?s \<noteq> 0" using assms by (auto simp: gettoken_def Let_def split: if_splits)
  then have lt: "?s < length b" by (rule char_at_pos)
  note w = skip_white_spec [of ps b]
  have q: "q = ?s" and s: "s = skip_white b eq" using assms(1) by (auto simp: gettoken_def Let_def split: if_splits)
  have "?s < eq"
  proof (cases "in_str symbols (b ! ?s)")
    case True
    then show ?thesis using assms(1) c lt by (auto simp: gettoken_def Let_def in_symbols char_at_def split: if_splits)
  next
    case False
    then have "eq = skip_word b ?s" using assms(1) c lt by (auto simp: gettoken_def Let_def in_symbols char_at_def split: if_splits)
    then show ?thesis using skip_word_progress [OF lt _ False] w lt by simp
  qed
  then show ?thesis using q s lt w skip_white_spec [of eq b] by simp
qed

lemma gettoken_mono: "gettoken b ps = (ret, q, eq, s) \<Longrightarrow> ps \<le> s"
  using gettoken_progress [of b ps ret q eq s] skip_white_spec [of ps b]
  by (cases "ret = 0") (auto simp: gettoken_def Let_def split: if_splits)

lemma gettoken_after_peek:
  assumes "peek b ps toks = (True, s)" "gettoken b s = (ret, q, eq, s')"
  shows "ps \<le> s \<and> s < s' \<and> s < length b"
proof -
  note p = peek_True [OF assms(1)]
  then have "ret \<noteq> 0" using assms(2) by (auto simp: gettoken_def Let_def split: if_splits)
  then show ?thesis using gettoken_progress [OF assms(2)] p by auto
qed

lemma gettoken_bound: "gettoken b ps = (ret, q, eq, s) \<Longrightarrow> ps \<le> length b \<Longrightarrow> s \<le> length b"
  using skip_white_spec [of ps b] skip_white_spec [of eq b] skip_word_spec [of "skip_white b ps" b]
    char_at_pos [of b "skip_white b ps"] char_at_pos [of b "Suc (skip_white b ps)"]
  by (fastforce simp: gettoken_def Let_def split: if_splits)

lemma token_less:
  "peek b ps toks = (True, s) \<Longrightarrow> gettoken b s = (ret, q, eq, s') \<Longrightarrow> length b - s' < length b - ps"
  using gettoken_after_peek [of b ps toks s ret q eq s'] by auto

lemma advance_mono: "s \<le> advance b s" "s \<le> length b \<Longrightarrow> advance b s \<le> length b"
  using gettoken_mono [of b s] gettoken_bound [of b s] by (auto simp: advance_def split: prod.splits)

lemma advance_less: "peek b ps toks = (True, s) \<Longrightarrow> length b - advance b s < length b - ps"
  using token_less [of b ps toks s] by (auto simp: advance_def split: prod.splits)

lemma redir_less:
  "peek b ps toks = (True, s) \<Longrightarrow> gettoken b s = (ret, q, eq, s') \<Longrightarrow> gettoken b s' = (ret', q', eq', s'') \<Longrightarrow>
    length b - s'' < length b - ps"
  using token_less [of b ps toks s ret q eq s'] gettoken_mono [of b s' ret' q' eq' s''] by simp

section \<open>Parsing\<close>

definition redirection :: "u8 \<Rightarrow> cmd \<Rightarrow> nat \<Rightarrow> nat \<Rightarrow> cmd" where
  "redirection tok c q eq =
     (if tok = LT then REDIR c q eq O_RDONLY 0
      else if tok = GT then REDIR c q eq (O_WRONLY + O_CREATE + O_TRUNC) 1
      else if tok = TPLUS then REDIR c q eq (O_WRONLY + O_CREATE) 1
      else c)"

function parseredirs :: "u8 list \<Rightarrow> cmd \<Rightarrow> nat \<Rightarrow> (cmd \<times> nat) result" where
  "parseredirs b c ps =
     (case peek b ps [LT, GT] of
        (False, s) \<Rightarrow> Inr (c, s)
      | (True, s) \<Rightarrow>
          (case gettoken b s of (tok, _, _, s') \<Rightarrow>
           case gettoken b s' of (word, q, eq, s'') \<Rightarrow>
             if word \<noteq> TWORD then Inl (Panic ''missing file for redirection'')
             else parseredirs b (redirection tok c q eq) s''))"
  by pat_completeness auto
termination
  by (relation "measure (\<lambda>(b, c, s). length b - s)") (auto intro: redir_less [OF sym sym sym])

declare parseredirs.simps [simp del]

lemma parseredirs_mono: "parseredirs b c ps = Inr (c', s) \<Longrightarrow> ps \<le> s \<and> (ps \<le> length b \<longrightarrow> s \<le> length b)"
proof (induction b c ps rule: parseredirs.induct)
  case (1 b c ps)
  obtain r s0 where p: "peek b ps [LT, GT] = (r, s0)" by fastforce
  obtain tok q0 eq0 s1 where t: "gettoken b s0 = (tok, q0, eq0, s1)" by (metis prod_cases4)
  obtain word q eq s2 where w: "gettoken b s1 = (word, q, eq, s2)" by (metis prod_cases4)
  show ?case
  proof (cases r)
    case True
    then have "word = TWORD" "parseredirs b (redirection tok c q eq) s2 = Inr (c', s)"
      using "1.prems" p t w by (auto simp: parseredirs.simps [of b c ps] split: if_splits)
    moreover have "s2 \<le> s \<and> (s2 \<le> length b \<longrightarrow> s \<le> length b)"
      using 1(1) [OF p [symmetric] _ t [symmetric] refl refl w [symmetric] refl refl] True calculation by simp
    moreover have "ps \<le> s2" "s2 \<le> length b"
      using gettoken_after_peek [of b ps "[LT, GT]" s0] gettoken_mono [OF w] gettoken_bound [OF w] gettoken_bound [OF t] p t True by auto
    ultimately show ?thesis by simp
  next
    case False
    then show ?thesis using "1.prems" p peek_mono [OF p] by (simp add: parseredirs.simps [of b c ps])
  qed
qed

lemma args_less:
  assumes "peek b ps toks = (r, s)" "gettoken b s = (tok, q, eq, s')" "parseredirs b c s' = Inr (c', s'')" "tok \<noteq> 0"
  shows "length b - s'' < length b - ps"
  using peek_mono [OF assms(1)] gettoken_progress [OF assms(2,4)] parseredirs_mono [OF assms(3)] by auto

text \<open>The loop over the arguments of \<open>parseexec\<close>.\<close>

function parseargs :: "u8 list \<Rightarrow> cmd \<Rightarrow> nat \<Rightarrow> nat \<Rightarrow> (cmd \<times> nat \<times> nat) result" where
  "parseargs b c argc ps =
     (case peek b ps [BAR, CLOSE, AMP, SEMI] of
        (True, s) \<Rightarrow> Inr (c, argc, s)
      | (False, s) \<Rightarrow>
          (case gettoken b s of (tok, q, eq, s') \<Rightarrow>
             if tok = 0 then Inr (c, argc, s')
             else if tok \<noteq> TWORD then Inl (Panic ''syntax'')
             else (case set_arg argc (Some q) (Some eq) c of
                     Inl e \<Rightarrow> Inl e
                   | Inr c \<Rightarrow>
                       if Suc argc \<ge> MAXARGS then Inl (Panic ''too many args'')
                       else (case parseredirs b c s' of
                               Inl e \<Rightarrow> Inl e
                             | Inr (c, s'') \<Rightarrow> parseargs b c (Suc argc) s''))))"
  by pat_completeness auto
termination
  by (relation "measure (\<lambda>(b, c, n, s). length b - s)") (auto intro: args_less [OF sym sym])

declare parseargs.simps [simp del]

text \<open>The loop over the ampersands of \<open>parseline\<close>.\<close>

function parsebacks :: "u8 list \<Rightarrow> cmd \<Rightarrow> nat \<Rightarrow> cmd \<times> nat" where
  "parsebacks b c ps =
     (case peek b ps [AMP] of
        (True, s) \<Rightarrow> parsebacks b (BACK c) (advance b s)
      | (False, s) \<Rightarrow> (c, s))"
  by pat_completeness auto
termination
  by (relation "measure (\<lambda>(b, c, s). length b - s)") (auto intro: advance_less [OF sym])

declare parsebacks.simps [simp del]

lemma parsebacks_mono: "parsebacks b c ps = (c', s) \<Longrightarrow> ps \<le> s \<and> (ps \<le> length b \<longrightarrow> s \<le> length b)"
proof (induction b c ps rule: parsebacks.induct)
  case (1 b c ps)
  obtain r s0 where p: "peek b ps [AMP] = (r, s0)" by fastforce
  then show ?case
    using "1.prems" "1.IH" [OF p [symmetric]] peek_mono [OF p] advance_mono [of s0 b]
    by (cases r) (auto simp: parsebacks.simps [of b c ps])
qed

lemma parseargs_mono: "parseargs b c argc ps = Inr (c', n, s) \<Longrightarrow> ps \<le> s \<and> (ps \<le> length b \<longrightarrow> s \<le> length b)"
proof (induction b c argc ps rule: parseargs.induct)
  case (1 b c argc ps)
  obtain r s0 where p: "peek b ps [BAR, CLOSE, AMP, SEMI] = (r, s0)" by fastforce
  obtain tok q eq s1 where t: "gettoken b s0 = (tok, q, eq, s1)" by (metis prod_cases4)
  note m = peek_mono [OF p] gettoken_mono [OF t] gettoken_bound [OF t]
  show ?case
  proof (cases "r \<or> tok = 0")
    case True
    then show ?thesis using "1.prems" p t m by (cases r) (auto simp: parseargs.simps [of b c argc ps])
  next
    case False
    then obtain c1 c2 s2 where w: "tok = TWORD" "set_arg argc (Some q) (Some eq) c = Inr c1" "\<not> MAXARGS \<le> Suc argc"
      "parseredirs b c1 s1 = Inr (c2, s2)" "parseargs b c2 (Suc argc) s2 = Inr (c', n, s)"
      using "1.prems" p t by (auto simp: parseargs.simps [of b c argc ps] split: if_splits sum.splits)
    then have "s2 \<le> s \<and> (s2 \<le> length b \<longrightarrow> s \<le> length b)"
      using False by (intro "1.IH" [OF p [symmetric] _ t [symmetric] refl refl]) auto
    then show ?thesis using m parseredirs_mono [OF w(4)] by auto
  qed
qed

text \<open>The recursive part. A nested call starts further to the right, because the parsers never move back.\<close>

function parseline :: "u8 list \<Rightarrow> nat \<Rightarrow> (cmd \<times> nat) result"
  and parsepipe :: "u8 list \<Rightarrow> nat \<Rightarrow> (cmd \<times> nat) result"
  and parseexec :: "u8 list \<Rightarrow> nat \<Rightarrow> (cmd \<times> nat) result"
  and parseblock :: "u8 list \<Rightarrow> nat \<Rightarrow> (cmd \<times> nat) result" where
  "parseline b ps =
     (case parsepipe b ps of
        Inl e \<Rightarrow> Inl e
      | Inr (c, s) \<Rightarrow>
          (case parsebacks b c s of (c, s) \<Rightarrow>
           case peek b s [SEMI] of
             (True, s) \<Rightarrow>
               (case parseline b (advance b s) of Inl e \<Rightarrow> Inl e | Inr (r, s) \<Rightarrow> Inr (LIST c r, s))
           | (False, s) \<Rightarrow> Inr (c, s)))"
| "parsepipe b ps =
     (case parseexec b ps of
        Inl e \<Rightarrow> Inl e
      | Inr (c, s) \<Rightarrow>
          (case peek b s [BAR] of
             (True, s) \<Rightarrow>
               (case parsepipe b (advance b s) of Inl e \<Rightarrow> Inl e | Inr (r, s) \<Rightarrow> Inr (PIPE c r, s))
           | (False, s) \<Rightarrow> Inr (c, s)))"
| "parseexec b ps =
     (case peek b ps [OPEN] of
        (True, s) \<Rightarrow> parseblock b s
      | (False, s) \<Rightarrow>
          (case parseredirs b execcmd s of
             Inl e \<Rightarrow> Inl e
           | Inr (c, s) \<Rightarrow>
               (case parseargs b c 0 s of
                  Inl e \<Rightarrow> Inl e
                | Inr (c, argc, s) \<Rightarrow>
                    (case set_arg argc None None c of Inl e \<Rightarrow> Inl e | Inr c \<Rightarrow> Inr (c, s)))))"
| "parseblock b ps =
     (case peek b ps [OPEN] of
        (False, s) \<Rightarrow> Inl (Panic ''parseblock'')
      | (True, s) \<Rightarrow>
          (case parseline b (advance b s) of
             Inl e \<Rightarrow> Inl e
           | Inr (c, s) \<Rightarrow>
               (case peek b s [CLOSE] of
                  (False, s) \<Rightarrow> Inl (Panic ''syntax - missing )'')
                | (True, s) \<Rightarrow> parseredirs b c (advance b s))))"
  by pat_completeness auto
termination
proof -
  have mono:
    "parseline_parsepipe_parseexec_parseblock_dom (Inl (Inl (b, ps))) \<Longrightarrow> parseline b ps = Inr (c, s) \<Longrightarrow> ps \<le> s"
    "parseline_parsepipe_parseexec_parseblock_dom (Inl (Inr (b, ps))) \<Longrightarrow> parsepipe b ps = Inr (c, s) \<Longrightarrow> ps \<le> s"
    "parseline_parsepipe_parseexec_parseblock_dom (Inr (Inl (b, ps))) \<Longrightarrow> parseexec b ps = Inr (c, s) \<Longrightarrow> ps \<le> s"
    "parseline_parsepipe_parseexec_parseblock_dom (Inr (Inr (b, ps))) \<Longrightarrow> parseblock b ps = Inr (c, s) \<Longrightarrow> ps \<le> s"
    for b ps c s
  proof (induction b ps and b ps and b ps and b ps arbitrary: c s and c s and c s and c s
      rule: parseline_parsepipe_parseexec_parseblock.pinduct)
    case (1 b ps)
    obtain c1 s1 where p: "parsepipe b ps = Inr (c1, s1)"
      using "1.prems" by (auto simp: parseline.psimps [OF "1.hyps"] split: sum.splits)
    obtain c2 s2 where k: "parsebacks b c1 s1 = (c2, s2)" by fastforce
    obtain r s3 where q: "peek b s2 [SEMI] = (r, s3)" by fastforce
    have "s3 \<le> s"
    proof (cases r)
      case True
      then obtain c3 where "parseline b (advance b s3) = Inr (c3, s)"
        using "1.prems" p k q by (auto simp: parseline.psimps [OF "1.hyps"] split: sum.splits)
      then show ?thesis using "1.IH"(2) [OF p refl k [symmetric] q [symmetric]] True advance_mono(1) [of s3 b] by force
    qed (use "1.prems" p k q in \<open>simp add: parseline.psimps [OF "1.hyps"]\<close>)
    then show ?case using "1.IH"(1) [OF p] parsebacks_mono [OF k] peek_mono [OF q] by simp
  next
    case (2 b ps)
    obtain c1 s1 where p: "parseexec b ps = Inr (c1, s1)"
      using "2.prems" by (auto simp: parsepipe.psimps [OF "2.hyps"] split: sum.splits)
    obtain r s2 where q: "peek b s1 [BAR] = (r, s2)" by fastforce
    have "s2 \<le> s"
    proof (cases r)
      case True
      then obtain c3 where "parsepipe b (advance b s2) = Inr (c3, s)"
        using "2.prems" p q by (auto simp: parsepipe.psimps [OF "2.hyps"] split: sum.splits)
      then show ?thesis using "2.IH"(2) [OF p refl q [symmetric]] True advance_mono(1) [of s2 b] by force
    qed (use "2.prems" p q in \<open>simp add: parsepipe.psimps [OF "2.hyps"]\<close>)
    then show ?case using "2.IH"(1) [OF p] peek_mono [OF q] by simp
  next
    case (3 b ps)
    obtain r s1 where q: "peek b ps [OPEN] = (r, s1)" by fastforce
    show ?case
    proof (cases r)
      case True
      then show ?thesis using "3.prems" "3.IH" [OF q [symmetric]] q peek_mono [OF q]
        by (force simp: parseexec.psimps [OF "3.hyps"])
    next
      case False
      then obtain c1 s2 c2 n where "parseredirs b execcmd s1 = Inr (c1, s2)" "parseargs b c1 0 s2 = Inr (c2, n, s)"
        using "3.prems" q by (auto simp: parseexec.psimps [OF "3.hyps"] split: sum.splits)
      then show ?thesis using parseredirs_mono parseargs_mono peek_mono [OF q] by (meson le_trans)
    qed
  next
    case (4 b ps)
    obtain s1 where q: "peek b ps [OPEN] = (True, s1)"
      using "4.prems" by (cases "peek b ps [OPEN]") (auto simp: parseblock.psimps [OF "4.hyps"] split: bool.splits)
    obtain c1 s2 where l: "parseline b (advance b s1) = Inr (c1, s2)"
      using "4.prems" q by (auto simp: parseblock.psimps [OF "4.hyps"] split: sum.splits)
    obtain s3 where r: "peek b s2 [CLOSE] = (True, s3)"
      using "4.prems" q l by (cases "peek b s2 [CLOSE]") (auto simp: parseblock.psimps [OF "4.hyps"] split: bool.splits)
    have "parseredirs b c1 (advance b s3) = Inr (c, s)"
      using "4.prems" q l r by (simp add: parseblock.psimps [OF "4.hyps"])
    moreover have "advance b s1 \<le> s2" using "4.IH" [OF q [symmetric] refl l] .
    ultimately show ?case
      using peek_mono [OF q] peek_mono [OF r] advance_mono(1) [of s1 b] advance_mono(1) [of s3 b] parseredirs_mono
      by (meson le_trans)
  qed
  have after: "length b - advance b s' < length b - ps" if "ps \<le> s" "peek b s toks = (True, s')" for b ps s s' toks
    using advance_less [OF that(2)] that(1) by auto
  show ?thesis
  proof (relation "measures [\<lambda>x. case x of Inl (Inl (b, s)) \<Rightarrow> length b - s | Inl (Inr (b, s)) \<Rightarrow> length b - s
      | Inr (Inl (b, s)) \<Rightarrow> length b - s | Inr (Inr (b, s)) \<Rightarrow> length b - s,
      \<lambda>x. case x of Inl (Inl _) \<Rightarrow> 3 | Inl (Inr _) \<Rightarrow> 2 | Inr (Inl _) \<Rightarrow> 1 | Inr (Inr _) \<Rightarrow> 0]", simp_all, goal_cases)
    case (1 b ps cs c s c2 s2 r s3)
    then show ?case using mono(2) [of b ps] parsebacks_mono [of b] after [of ps s2 b "[SEMI]" s3] by (metis le_trans)
  next
    case (2 b ps cs c s r s2)
    then show ?case using mono(3) [of b ps] after [of ps s b "[BAR]" s2] by metis
  next
    case (3 b ps r s)
    then show ?case using peek_mono [of b ps "[OPEN]" True s] by auto
  next
    case (4 b ps r s)
    then show ?case using advance_less [of b ps "[OPEN]" s] by simp
  qed
qed

declare parseline.simps [simp del] parsepipe.simps [simp del] parseexec.simps [simp del] parseblock.simps [simp del]

fun nul_args :: "nat option list \<Rightarrow> nat option list \<Rightarrow> u8 list \<Rightarrow> u8 list result" where
  "nul_args (None # argv) eargv m = Inr m"
| "nul_args (Some q # argv) (Some e # eargv) m =
     (if e < length m then nul_args argv eargv (m[e := 0]) else Inl (UB ''eargv''))"
| "nul_args argv eargv m = Inl (UB ''argv'')"

primrec nulterminate :: "cmd \<Rightarrow> u8 list \<Rightarrow> u8 list result" where
  "nulterminate (EXEC argv eargv) m = nul_args argv eargv m"
| "nulterminate (REDIR c file efile mode fd) m =
     bind_result (nulterminate c m) (\<lambda>m. if efile < length m then Inr (m[efile := 0]) else Inl (UB ''efile''))"
| "nulterminate (PIPE l r) m = bind_result (nulterminate l m) (nulterminate r)"
| "nulterminate (LIST l r) m = bind_result (nulterminate l m) (nulterminate r)"
| "nulterminate (BACK c) m = nulterminate c m"

text \<open>\<open>parsecmd\<close>: the command and the line, with its final 0, after \<open>nulterminate\<close>.\<close>

definition parsecmd :: "u8 list \<Rightarrow> (cmd \<times> u8 list) result" where
  "parsecmd b =
     bind_result (parseline b 0) (\<lambda>(c, s).
       case peek b s [] of (_, s) \<Rightarrow>
         if s \<noteq> length b then Inl (Panic ''syntax'')
         else bind_result (nulterminate c (b @ [0])) (\<lambda>m. Inr (c, m)))"

section \<open>What commands mean\<close>

datatype command =
    Exec "u8 list list"
  | Redir command "u8 list" int int
  | Pipe command command
  | Seq command command
  | Background command

text \<open>The command that \<open>runcmd\<close> sees: strings are read up to their 0.\<close>

fun strings :: "u8 list \<Rightarrow> nat option list \<Rightarrow> u8 list list" where
  "strings m (Some q # argv) = string_at m q # strings m argv"
| "strings m argv = []"

primrec denote :: "u8 list \<Rightarrow> cmd \<Rightarrow> command" where
  "denote m (EXEC argv eargv) = Exec (strings m argv)"
| "denote m (REDIR c file efile mode fd) = Redir (denote m c) (string_at m file) mode fd"
| "denote m (PIPE l r) = Pipe (denote m l) (denote m r)"
| "denote m (LIST l r) = Seq (denote m l) (denote m r)"
| "denote m (BACK c) = Background (denote m c)"

text \<open>How commands are written.\<close>

definition redir_sign :: "int \<Rightarrow> u8 list" where
  "redir_sign mode = (if mode = O_RDONLY then [LT] else if mode = O_WRONLY + O_CREATE + O_TRUNC then [GT] else [GT, GT])"


primrec print :: "command \<Rightarrow> nat \<Rightarrow> u8 list" where
  "print (Exec ws) k = concat (map (\<lambda>w. 32 # w) ws)"
| "print (Redir c file mode fd) k = print c 3 @ redir_sign mode @ file"
| "print (Pipe l r) k =
     (let t = print l 3 @ BAR # print r 2 in if k > 2 then OPEN # t @ [CLOSE] else t)"
| "print (Background c) k =
     (let t = print c 1 @ [AMP] in if k > 1 then OPEN # t @ [CLOSE] else t)"
| "print (Seq l r) k =
     (let t = print l 1 @ SEMI # print r 0 in if k > 0 then OPEN # t @ [CLOSE] else t)"

definition word_char :: "u8 \<Rightarrow> bool" where
  "word_char c \<longleftrightarrow> c \<noteq> 0 \<and> \<not> in_str whitespace c \<and> \<not> in_str symbols c"

definition redirections :: "(int \<times> int) list" where
  "redirections = [(O_RDONLY, 0), (O_WRONLY + O_CREATE + O_TRUNC, 1), (O_WRONLY + O_CREATE, 1)]"

primrec valid :: "command \<Rightarrow> bool" where
  "valid (Exec ws) \<longleftrightarrow> length ws < MAXARGS \<and> (\<forall>w\<in>set ws. w \<noteq> [] \<and> (\<forall>c\<in>set w. word_char c))"
| "valid (Redir c file mode fd) \<longleftrightarrow> valid c \<and> file \<noteq> [] \<and> (\<forall>c\<in>set file. word_char c) \<and> (mode, fd) \<in> set redirections"
| "valid (Pipe l r) \<longleftrightarrow> valid l \<and> valid r"
| "valid (Seq l r) \<longleftrightarrow> valid l \<and> valid r"
| "valid (Background c) \<longleftrightarrow> valid c"

section \<open>Well-typed commands\<close>

text \<open>A word of the line, from offset \<open>q\<close> up to \<open>e\<close>.\<close>

definition word_span :: "u8 list \<Rightarrow> nat \<times> nat \<Rightarrow> bool" where
  "word_span b = (\<lambda>(q, e). q < e \<and> e \<le> length b \<and> (\<forall>i. q \<le> i \<and> i < e \<longrightarrow> word_char (b ! i)) \<and>
     (e < length b \<longrightarrow> \<not> word_char (b ! e)))"

definition exec_args :: "(nat \<times> nat) list \<Rightarrow> cmd" where
  "exec_args qs = EXEC (map (\<lambda>(q, e). Some q) qs @ replicate (MAXARGS - length qs) None)
     (map (\<lambda>(q, e). Some e) qs @ replicate (MAXARGS - length qs) None)"

inductive typed :: "u8 list \<Rightarrow> cmd \<Rightarrow> bool" for b where
  T_exec: "length qs < MAXARGS \<Longrightarrow> \<forall>s\<in>set qs. word_span b s \<Longrightarrow> typed b (exec_args qs)"
| T_redir: "typed b c \<Longrightarrow> word_span b (q, e) \<Longrightarrow> (mode, fd) \<in> set redirections \<Longrightarrow> typed b (REDIR c q e mode fd)"
| T_pipe: "typed b l \<Longrightarrow> typed b r \<Longrightarrow> typed b (PIPE l r)"
| T_list: "typed b l \<Longrightarrow> typed b r \<Longrightarrow> typed b (LIST l r)"
| T_back: "typed b c \<Longrightarrow> typed b (BACK c)"

text \<open>A command under construction in \<open>parseexec\<close>: \<open>n\<close> arguments so far.\<close>

inductive building :: "u8 list \<Rightarrow> nat \<Rightarrow> cmd \<Rightarrow> bool" for b n where
  B_exec: "length qs = n \<Longrightarrow> n < MAXARGS \<Longrightarrow> \<forall>s\<in>set qs. word_span b s \<Longrightarrow> building b n (exec_args qs)"
| B_redir: "building b n c \<Longrightarrow> word_span b (q, e) \<Longrightarrow> (mode, fd) \<in> set redirections \<Longrightarrow> building b n (REDIR c q e mode fd)"

lemma building_typed: "building b n c \<Longrightarrow> typed b c"
  by (induction rule: building.induct) (auto intro: typed.intros)

lemma set_arg_next:
  assumes "building b n c" "word_span b (q, e)"
  shows "\<exists>c'. set_arg n (Some q) (Some e) c = Inr c' \<and> (Suc n < MAXARGS \<longrightarrow> building b (Suc n) c')"
  using assms
proof (induction rule: building.induct)
  case (B_exec qs)
  have "set_arg n (Some q) (Some e) (exec_args qs) = Inr (exec_args (qs @ [(q, e)]))"
  proof -
    have "MAXARGS - n = Suc (MAXARGS - Suc n)" using B_exec by simp
    then show ?thesis using B_exec by (simp add: exec_args_def list_update_append)
  qed
  then show ?case using B_exec building.B_exec [of "qs @ [(q, e)]" "Suc n" b] by auto
qed (auto intro: building.intros)

lemma set_arg_end: "building b n c \<Longrightarrow> set_arg n None None c = Inr c"
proof (induction rule: building.induct)
  case (B_exec qs)
  then have "MAXARGS - n = Suc (MAXARGS - Suc n)" by simp
  then show ?case using B_exec by (simp add: exec_args_def list_update_append)
qed simp

lemma building_start: "building b 0 execcmd"
  using B_exec [of "[]" 0 b] by (simp add: exec_args_def execcmd_def MAXARGS_def)

lemma gettoken_word:
  assumes "0 \<notin> set b" "gettoken b ps = (TWORD, q, eq, s)"
  shows "word_span b (q, eq)"
proof -
  have p: "ps \<le> q" "q < eq" "q < length b" using gettoken_progress [OF assms(2)] by auto
  have "q = skip_white b ps" "eq = skip_word b q"
    using assms(2) by (auto simp: gettoken_def Let_def split: if_splits)
  moreover have "b ! i \<noteq> 0" if "i < length b" for i using assms(1) that nth_mem by metis
  ultimately show ?thesis using p skip_word_spec [of q b] unfolding word_span_def word_char_def by auto
qed

text \<open>An error of the parser is a \<open>panic\<close> of the shell, never undefined behaviour.\<close>

definition panics_or :: "('a \<Rightarrow> bool) \<Rightarrow> 'a result \<Rightarrow> bool" where
  "panics_or P r \<longleftrightarrow> (case r of Inl e \<Rightarrow> \<exists>msg. e = Panic msg | Inr x \<Rightarrow> P x)"

lemma panics_or_simps [simp]: "panics_or P (Inr x) \<longleftrightarrow> P x" "panics_or P (Inl (Panic msg))"
  by (simp_all add: panics_or_def)

lemma redirection_cases:
  "tok \<in> {LT, GT, TPLUS} \<Longrightarrow> \<exists>mode fd. redirection tok c q eq = REDIR c q eq mode fd \<and> (mode, fd) \<in> set redirections"
  by (auto simp: redirection_def redirections_def)

lemma redir_token:
  "peek b ps [LT, GT] = (True, s) \<Longrightarrow> gettoken b s = (tok, q, eq, s') \<Longrightarrow> tok \<in> {LT, GT, TPLUS}"
  by (auto simp: peek_def gettoken_def Let_def in_str_def split: if_splits)

lemma parseredirs_typed:
  assumes "0 \<notin> set b" "P c"
    and "\<And>c q e mode fd. P c \<Longrightarrow> word_span b (q, e) \<Longrightarrow> (mode, fd) \<in> set redirections \<Longrightarrow> P (REDIR c q e mode fd)"
  shows "panics_or (\<lambda>(c, s). P c) (parseredirs b c ps)"
  using assms
proof (induction b c ps rule: parseredirs.induct)
  case (1 b c ps)
  obtain r s0 where p: "peek b ps [LT, GT] = (r, s0)" by fastforce
  obtain tok q0 eq0 s1 where t: "gettoken b s0 = (tok, q0, eq0, s1)" by (metis prod_cases4)
  obtain word q eq s2 where w: "gettoken b s1 = (word, q, eq, s2)" by (metis prod_cases4)
  show ?case
  proof (cases "r \<and> word = TWORD")
    case True
    obtain mode fd where "redirection tok c q eq = REDIR c q eq mode fd" "(mode, fd) \<in> set redirections"
      using redirection_cases [OF redir_token [OF _ t], of ps c q eq] p True by auto
    then have "P (redirection tok c q eq)" using "1.prems" gettoken_word [OF "1.prems"(1)] w True by auto
    then show ?thesis
      using "1.IH" [OF p [symmetric] _ t [symmetric] refl refl w [symmetric] refl refl] "1.prems"(1,3) True p t w
      by (simp add: parseredirs.simps [of b c ps])
  qed (use "1.prems"(2) p t w in \<open>cases r; auto simp: parseredirs.simps [of b c ps]\<close>)
qed

lemma parseargs_typed:
  assumes "0 \<notin> set b" "building b argc c"
  shows "panics_or (\<lambda>(c, n, s). building b n c) (parseargs b c argc ps)"
  using assms
proof (induction b c argc ps rule: parseargs.induct)
  case (1 b c argc ps)
  obtain r s0 where p: "peek b ps [BAR, CLOSE, AMP, SEMI] = (r, s0)" by fastforce
  obtain tok q eq s1 where t: "gettoken b s0 = (tok, q, eq, s1)" by (metis prod_cases4)
  show ?case
  proof (cases "\<not> r \<and> tok = TWORD")
    case True
    have span: "word_span b (q, eq)" using gettoken_word [OF "1.prems"(1)] t True by blast
    obtain c1 where c1: "set_arg argc (Some q) (Some eq) c = Inr c1" "Suc argc < MAXARGS \<longrightarrow> building b (Suc argc) c1"
      using set_arg_next [OF "1.prems"(2) span] by blast
    show ?thesis
    proof (cases "Suc argc < MAXARGS")
      case room: True
      have "panics_or (\<lambda>(c, s). building b (Suc argc) c) (parseredirs b c1 s1)"
        using c1(2) room "1.prems"(1) by (intro parseredirs_typed) (auto intro: building.intros)
      moreover have "panics_or (\<lambda>(c, n, s). building b n c) (parseargs b c2 (Suc argc) s2)"
        if "parseredirs b c1 s1 = Inr (c2, s2)" "building b (Suc argc) c2" for c2 s2
        using that True room "1.prems"(1) c1(1)
        by (intro "1.IH" [OF p [symmetric] _ t [symmetric] refl refl _ _ c1(1) _ that(1) refl]) auto
      ultimately show ?thesis using True p t c1(1) room
        by (auto simp: parseargs.simps [of b c argc ps] panics_or_def split: sum.splits)
    qed (use True p t c1 in \<open>simp add: parseargs.simps [of b c argc ps]\<close>)
  qed (use "1.prems"(2) p t in \<open>cases r; auto simp: parseargs.simps [of b c argc ps]\<close>)
qed

lemma parsebacks_typed: "typed b c \<Longrightarrow> typed b (fst (parsebacks b c ps))"
proof (induction b c ps rule: parsebacks.induct)
  case (1 b c ps)
  obtain r s where p: "peek b ps [AMP] = (r, s)" by fastforce
  show ?case using "1.prems" "1.IH" [OF p [symmetric]] p
    by (cases r) (auto simp: parsebacks.simps [of b c ps] intro: T_back)
qed

lemma parse_typed:
  "0 \<notin> set b \<Longrightarrow> panics_or (\<lambda>(c, s). typed b c) (parseline b ps)"
  "0 \<notin> set b \<Longrightarrow> panics_or (\<lambda>(c, s). typed b c) (parsepipe b ps)"
  "0 \<notin> set b \<Longrightarrow> panics_or (\<lambda>(c, s). typed b c) (parseexec b ps)"
  "0 \<notin> set b \<Longrightarrow> panics_or (\<lambda>(c, s). typed b c) (parseblock b ps)"
proof (induction b ps and b ps and b ps and b ps rule: parseline_parsepipe_parseexec_parseblock.induct)
  case (1 b ps)
  show ?case
  proof (cases "parsepipe b ps")
    case (Inr cs)
    obtain c s where cs: "cs = (c, s)" by fastforce
    obtain c1 s1 where k: "parsebacks b c s = (c1, s1)" by fastforce
    obtain r s2 where q: "peek b s1 [SEMI] = (r, s2)" by fastforce
    have c1: "typed b c1" using "1.IH"(1) "1.prems" Inr cs k parsebacks_typed [of b c s] by simp
    show ?thesis
    proof (cases r)
      case True
      then have "panics_or (\<lambda>(c, s). typed b c) (parseline b (advance b s2))"
        using "1.IH"(2) [OF Inr _ k [symmetric] q [symmetric]] cs "1.prems" by simp
      then show ?thesis using Inr cs k q True c1
        by (auto simp: parseline.simps [of b ps] panics_or_def split: sum.splits intro: T_list)
    qed (use Inr cs k q c1 in \<open>simp add: parseline.simps [of b ps]\<close>)
  qed (use 1 in \<open>auto simp: parseline.simps [of b ps] panics_or_def\<close>)
next
  case (2 b ps)
  show ?case
  proof (cases "parseexec b ps")
    case (Inr cs)
    obtain c s where cs: "cs = (c, s)" by fastforce
    obtain r s2 where q: "peek b s [BAR] = (r, s2)" by fastforce
    have c: "typed b c" using "2.IH"(1) "2.prems" Inr cs by simp
    show ?thesis
    proof (cases r)
      case True
      then have "panics_or (\<lambda>(c, s). typed b c) (parsepipe b (advance b s2))"
        using "2.IH"(2) [OF Inr _ q [symmetric]] cs "2.prems" by simp
      then show ?thesis using Inr cs q True c
        by (auto simp: parsepipe.simps [of b ps] panics_or_def split: sum.splits intro: T_pipe)
    qed (use Inr cs q c in \<open>simp add: parsepipe.simps [of b ps]\<close>)
  qed (use 2 in \<open>auto simp: parsepipe.simps [of b ps] panics_or_def\<close>)
next
  case (3 b ps)
  obtain r s where q: "peek b ps [OPEN] = (r, s)" by fastforce
  show ?case
  proof (cases r)
    case True
    then show ?thesis using "3.IH" [OF q [symmetric]] "3.prems" q by (simp add: parseexec.simps [of b ps])
  next
    case False
    have "panics_or (\<lambda>(c, s). building b 0 c) (parseredirs b execcmd s)"
      using "3.prems" building_start by (intro parseredirs_typed) (auto intro: building.intros)
    moreover have "panics_or (\<lambda>(c, s). typed b c) (case parseargs b c 0 s1 of Inl e \<Rightarrow> Inl e
        | Inr (c, argc, s) \<Rightarrow> (case set_arg argc None None c of Inl e \<Rightarrow> Inl e | Inr c \<Rightarrow> Inr (c, s)))" if "building b 0 c" for c s1
      using parseargs_typed [OF "3.prems" that, of s1]
      by (auto simp: panics_or_def set_arg_end intro: building_typed split: sum.splits)
    ultimately show ?thesis using q False
      by (cases "parseredirs b execcmd s") (auto simp: parseexec.simps [of b ps] panics_or_def)
  qed
next
  case (4 b ps)
  obtain r s where q: "peek b ps [OPEN] = (r, s)" by fastforce
  show ?case
  proof (cases r)
    case True
    have "panics_or (\<lambda>(c, s). typed b c) (parseredirs b c s3)" if "typed b c" for c s3
      using "4.prems" that by (intro parseredirs_typed) (auto intro: T_redir)
    then have rest: "panics_or (\<lambda>(c, s). typed b c) (case peek b s2 [CLOSE] of (False, s) \<Rightarrow> Inl (Panic ''syntax - missing )'')
        | (True, s) \<Rightarrow> parseredirs b c (advance b s))" if "typed b c" for c s2
      using that by (auto split: prod.splits bool.splits)
    have "panics_or (\<lambda>(c, s). typed b c) (parseline b (advance b s))" using "4.IH" [OF q [symmetric]] "4.prems" True by simp
    then show ?thesis using rest q True
      by (cases "parseline b (advance b s)") (auto simp: parseblock.simps [of b ps] panics_or_def)
  qed (use q in \<open>simp add: parseblock.simps [of b ps]\<close>)
qed


section \<open>The strings of a command\<close>

text \<open>What the command means by the words of the line, and where \<open>nulterminate\<close> writes.\<close>

fun span_words :: "u8 list \<Rightarrow> nat option list \<Rightarrow> nat option list \<Rightarrow> u8 list list" where
  "span_words b (Some q # argv) (Some e # eargv) = take (e - q) (drop q b) # span_words b argv eargv"
| "span_words b argv eargv = []"

primrec spans :: "u8 list \<Rightarrow> cmd \<Rightarrow> command" where
  "spans b (EXEC argv eargv) = Exec (span_words b argv eargv)"
| "spans b (REDIR c file efile mode fd) = Redir (spans b c) (take (efile - file) (drop file b)) mode fd"
| "spans b (PIPE l r) = Pipe (spans b l) (spans b r)"
| "spans b (LIST l r) = Seq (spans b l) (spans b r)"
| "spans b (BACK c) = Background (spans b c)"

primrec ends :: "cmd \<Rightarrow> nat list" where
  "ends (EXEC argv eargv) = [e. Some e \<leftarrow> eargv]"
| "ends (REDIR c file efile mode fd) = ends c @ [efile]"
| "ends (PIPE l r) = ends l @ ends r"
| "ends (LIST l r) = ends l @ ends r"
| "ends (BACK c) = ends c"

definition zeros :: "nat list \<Rightarrow> u8 list \<Rightarrow> u8 list" where
  "zeros es m = foldl (\<lambda>m e. m[e := 0]) m es"

lemma zeros_simps [simp]:
  "zeros [] m = m" "zeros (e # es) m = zeros es (m[e := 0])" "zeros (es @ fs) m = zeros fs (zeros es m)" "length (zeros es m) = length m"
proof -
  show "length (zeros es m) = length m" by (induction es arbitrary: m) (simp_all add: zeros_def)
qed (simp_all add: zeros_def)

lemma zeros_nth: "i < length m \<Longrightarrow> zeros es m ! i = (if i \<in> set es then 0 else m ! i)"
  by (induction es arbitrary: m) (auto simp: nth_list_update)

lemma ends_exec_args: "ends (exec_args qs) = map snd qs"
proof -
  have "concat (map (case_option [] (\<lambda>e. [e])) (map (\<lambda>(q, e). Some e) qs)) = map snd qs"
    by (induction qs) auto
  moreover have "concat (map (case_option [] (\<lambda>e. [e])) (replicate n None)) = []" for n by (induction n) auto
  ultimately show ?thesis by (simp add: exec_args_def)
qed

lemma nul_args_exec:
  assumes "0 < n" "\<forall>(q, e)\<in>set qs. e < length m"
  shows "nul_args (map (\<lambda>(q, e). Some q) qs @ replicate n None) (map (\<lambda>(q, e). Some e) qs @ replicate n None) m = Inr (zeros (map snd qs) m)"
  using assms(2)
proof (induction qs arbitrary: m)
  case Nil
  then show ?case using assms(1) by (cases n) auto
qed auto

lemma span_end: "word_span b (q, e) \<Longrightarrow> e < Suc (length b) \<and> (e = length b \<or> \<not> word_char (b ! e))"
  by (auto simp: word_span_def)

lemma nulterminate_typed:
  "typed b c \<Longrightarrow> length m = Suc (length b) \<Longrightarrow>
     nulterminate c m = Inr (zeros (ends c) m) \<and> (\<forall>e\<in>set (ends c). e = length b \<or> \<not> word_char (b ! e))"
proof (induction arbitrary: m rule: typed.induct)
  case (T_exec qs)
  then have "\<forall>(q, e)\<in>set qs. e < length m \<and> (e = length b \<or> \<not> word_char (b ! e))" using span_end by fastforce
  moreover from this have "nulterminate (exec_args qs) m = Inr (zeros (map snd qs) m)"
    unfolding exec_args_def using T_exec by (simp, intro nul_args_exec) auto
  ultimately show ?case unfolding ends_exec_args by auto
qed (auto dest: span_end)

lemma string_at_span:
  assumes "word_span b (q, e)" "e \<in> set es" "\<forall>e\<in>set es. e = length b \<or> \<not> word_char (b ! e)"
  shows "string_at (zeros es (b @ [0])) q = take (e - q) (drop q b)"
proof -
  let ?m = "zeros es (b @ [0])"
  have s: "q < e" "e \<le> length b" "\<And>i. q \<le> i \<Longrightarrow> i < e \<Longrightarrow> word_char (b ! i)"
    using assms(1) by (auto simp: word_span_def)
  have in_word: "?m ! i = b ! i \<and> b ! i \<noteq> 0" if "q \<le> i" "i < e" for i
  proof -
    have "i \<notin> set es" using s(2) s(3) [OF that] assms(3) that(2) by auto
    then show ?thesis using s(2) s(3) [OF that] that(2) by (simp add: zeros_nth nth_append word_char_def)
  qed
  have zero: "?m ! e = 0" using s(2) assms(2) by (simp add: zeros_nth)
  have split: "drop q ?m = take (e - q) (drop q b) @ 0 # drop (Suc e) ?m"
  proof (rule nth_equalityI)
    show "length (drop q ?m) = length (take (e - q) (drop q b) @ 0 # drop (Suc e) ?m)" using s(1,2) by simp
    fix i assume "i < length (drop q ?m)"
    then show "drop q ?m ! i = (take (e - q) (drop q b) @ 0 # drop (Suc e) ?m) ! i"
      using s(1,2) zero in_word [of "q + i"]
      by (cases "i < e - q"; cases "i = e - q") (auto simp: nth_append nth_Cons' add.commute)
  qed
  have "\<forall>c\<in>set (take (e - q) (drop q b)). c \<noteq> 0"
    using in_word s(1,2) by (auto simp: in_set_conv_nth)
  then show ?thesis unfolding string_at_def split by (simp add: takeWhile_append2)
qed

lemma strings_exec:
  "\<forall>(q, e)\<in>set qs. string_at m q = take (e - q) (drop q b) \<Longrightarrow>
     strings m (map (\<lambda>(q, e). Some q) qs @ replicate n None) =
     span_words b (map (\<lambda>(q, e). Some q) qs @ replicate n None) (map (\<lambda>(q, e). Some e) qs @ replicate n None)"
proof (induction qs)
  case Nil
  then show ?case by (cases n) auto
qed auto

lemma denote_spans:
  assumes "\<forall>e\<in>set es. e = length b \<or> \<not> word_char (b ! e)"
  shows "typed b c \<Longrightarrow> set (ends c) \<subseteq> set es \<Longrightarrow> denote (zeros es (b @ [0])) c = spans b c"
proof (induction rule: typed.induct)
  case (T_exec qs)
  then have "\<forall>(q, e)\<in>set qs. string_at (zeros es (b @ [0])) q = take (e - q) (drop q b)"
    using string_at_span [OF _ _ assms] unfolding ends_exec_args by fastforce
  then show ?case by (simp add: exec_args_def strings_exec)
qed (auto intro: string_at_span [OF _ _ assms])

lemma span_words_exec:
  "span_words b (map (\<lambda>(q, e). Some q) qs @ replicate n None) (map (\<lambda>(q, e). Some e) qs @ replicate n None) =
     map (\<lambda>(q, e). take (e - q) (drop q b)) qs"
proof (induction qs)
  case Nil
  then show ?case by (cases n) auto
qed auto

lemma spans_exec_args: "spans b (exec_args qs) = Exec (map (\<lambda>(q, e). take (e - q) (drop q b)) qs)"
  by (simp add: exec_args_def span_words_exec)

lemma span_word:
  assumes "word_span b (q, e)"
  shows "take (e - q) (drop q b) \<noteq> [] \<and> (\<forall>c\<in>set (take (e - q) (drop q b)). word_char c)"
proof -
  have "length (take (e - q) (drop q b)) = e - q" "q < e" using assms by (auto simp: word_span_def)
  then have "take (e - q) (drop q b) \<noteq> []" by auto
  moreover have "\<forall>c\<in>set (take (e - q) (drop q b)). word_char c"
    using assms by (auto simp: word_span_def in_set_conv_nth)
  ultimately show ?thesis by blast
qed

lemma spans_valid: "typed b c \<Longrightarrow> valid (spans b c)"
proof (induction rule: typed.induct)
  case (T_exec qs)
  then show ?case using span_word by (fastforce simp: spans_exec_args)
next
  case (T_redir c q e mode fd)
  then show ?case using span_word [of b q e] by simp
qed auto

text \<open>What \<open>parsecmd\<close> returns, from the result of \<open>parseline\<close>.\<close>

lemma parsecmd_result:
  assumes "0 \<notin> set b" "parseline b 0 = Inr (c, s)"
  shows "typed b c"
    and "parsecmd b = (if skip_white b s = length b then Inr (c, zeros (ends c) (b @ [0])) else Inl (Panic ''syntax''))"
    and "denote (zeros (ends c) (b @ [0])) c = spans b c"
proof -
  show t: "typed b c" using parse_typed(1) [OF assms(1), of 0] assms(2) by simp
  have n: "nulterminate c (b @ [0]) = Inr (zeros (ends c) (b @ [0]))" "\<forall>e\<in>set (ends c). e = length b \<or> \<not> word_char (b ! e)"
    using nulterminate_typed [OF t, of "b @ [0]"] by auto
  show "parsecmd b = (if skip_white b s = length b then Inr (c, zeros (ends c) (b @ [0])) else Inl (Panic ''syntax''))"
    using assms(2) n(1) by (simp add: parsecmd_def peek_def Let_def)
  show "denote (zeros (ends c) (b @ [0])) c = spans b c" using denote_spans [OF n(2) t] by simp
qed

section \<open>Reading what was printed\<close>

definition next_char :: "u8 list \<Rightarrow> nat \<Rightarrow> u8" where
  "next_char b p = char_at b (skip_white b p)"

lemma peek_next: "peek b p toks = (next_char b p \<noteq> 0 \<and> in_str toks (next_char b p), skip_white b p)"
  by (simp add: peek_def next_char_def Let_def)

lemma next_char_skip [simp]: "next_char b (skip_white b p) = next_char b p"
  by (simp add: next_char_def)

lemma peek_skip [simp]: "peek b (skip_white b p) toks = peek b p toks"
  by (simp add: peek_next)

lemma gettoken_skip [simp]: "gettoken b (skip_white b p) = gettoken b p"
  by (simp add: gettoken_def)

lemma parser_skip [simp]:
  "parseredirs b c (skip_white b p) = parseredirs b c p" "parsebacks b c (skip_white b p) = parsebacks b c p"
  "parseargs b c n (skip_white b p) = parseargs b c n p" "parseexec b (skip_white b p) = parseexec b p"
  "parsepipe b (skip_white b p) = parsepipe b p" "parseline b (skip_white b p) = parseline b p"
proof -
  show e: "parseexec b (skip_white b p) = parseexec b p" by (simp add: parseexec.simps [of b "skip_white b p"] parseexec.simps [of b p])
  show q: "parsepipe b (skip_white b p) = parsepipe b p" by (simp add: parsepipe.simps [of b "skip_white b p"] parsepipe.simps [of b p] e)
  show "parseline b (skip_white b p) = parseline b p" by (simp add: parseline.simps [of b "skip_white b p"] parseline.simps [of b p] q)
qed (simp_all add: parseredirs.simps [of b c "skip_white b p"] parseredirs.simps [of b c p]
    parsebacks.simps [of b c "skip_white b p"] parsebacks.simps [of b c p]
    parseargs.simps [of b c n "skip_white b p"] parseargs.simps [of b c n p])

lemma drop_Cons: "drop p b = c # r \<Longrightarrow> p < length b \<and> b ! p = c \<and> drop (Suc p) b = r"
  by (metis Cons_nth_drop_Suc drop_eq_Nil linorder_not_less list.discI list.inject)

lemma skip_white_Cons: "drop p b = c # r \<Longrightarrow> skip_white b p = (if in_str whitespace c then skip_white b (Suc p) else p)"
  by (subst skip_white.simps) (auto dest!: drop_Cons)

lemma next_char_Cons: "drop p b = c # r \<Longrightarrow> \<not> in_str whitespace c \<Longrightarrow> next_char b p = c"
  by (auto simp: next_char_def skip_white_Cons char_at_def dest!: drop_Cons)

lemma skip_word_append:
  "drop p b = w @ r \<Longrightarrow> \<forall>c\<in>set w. word_char c \<Longrightarrow> 0 \<notin> set b \<Longrightarrow> r = [] \<or> \<not> word_char (hd r) \<Longrightarrow> skip_word b p = p + length w"
proof (induction w arbitrary: p)
  case Nil
  show ?case
  proof (cases r)
    case (Cons c r')
    then have d: "p < length b" "b ! p = c" using drop_Cons [of p b c r'] Nil.prems(1) by simp_all
    then have "c \<noteq> 0" using Nil.prems(3) by (metis nth_mem)
    then show ?thesis using Nil.prems(4) Cons d by (subst skip_word.simps) (auto simp: word_char_def)
  qed (use Nil in \<open>subst skip_word.simps, auto\<close>)
next
  case (Cons c w)
  have d: "p < length b" "b ! p = c" "drop (Suc p) b = w @ r" using drop_Cons [of p b c "w @ r"] Cons.prems(1) by simp_all
  have "skip_word b p = skip_word b (Suc p)" using d Cons.prems(2) by (subst skip_word.simps) (simp add: word_char_def)
  then show ?case using Cons.IH [OF d(3)] Cons.prems by simp
qed

lemma gettoken_of_word:
  assumes "drop p b = w @ r" "w \<noteq> []" "\<forall>c\<in>set w. word_char c" "0 \<notin> set b" "r = [] \<or> \<not> word_char (hd r)"
  shows "gettoken b p = (TWORD, p, p + length w, skip_white b (p + length w))"
    and "next_char b p = hd w" and "word_span b (p, p + length w)" and "take (length w) (drop p b) = w"
proof -
  obtain c w' where w: "w = c # w'" using assms(2) by (cases w) auto
  then have c: "word_char c" "drop p b = c # w' @ r" using assms(1,3) by auto
  have s: "skip_white b p = p" using skip_white_Cons [OF c(2)] c(1) by (simp add: word_char_def)
  have a: "char_at b p = c" using drop_Cons [OF c(2)] by (simp add: char_at_def)
  have "skip_word b p = p + length w" by (rule skip_word_append [OF assms(1,3,4,5)])
  then show g: "gettoken b p = (TWORD, p, p + length w, skip_white b (p + length w))"
    using s a c(1) by (simp add: gettoken_def Let_def word_char_def in_symbols)
  show "next_char b p = hd w" using next_char_Cons [OF c(2)] c(1) w by (simp add: word_char_def)
  show "word_span b (p, p + length w)" using gettoken_word [OF assms(4) g] .
  show "take (length w) (drop p b) = w" using assms(1) by simp
qed

text \<open>A symbol or the end ends a word.\<close>

lemma next_char_stops:
  assumes "drop p b = r" "next_char b p = 0 \<or> in_str symbols (next_char b p)" "0 \<notin> set b"
  shows "r = [] \<or> \<not> word_char (hd r)"
proof (cases r)
  case (Cons c r')
  then have d: "p < length b" "b ! p = c" using drop_Cons [of p b c r'] assms(1) by simp_all
  show ?thesis
  proof (cases "in_str whitespace c")
    case False
    then have "next_char b p = c" using next_char_Cons assms(1) Cons by blast
    moreover have "c \<noteq> 0" using assms(3) d by (metis nth_mem)
    ultimately show ?thesis using assms(2) Cons by (auto simp: word_char_def)
  qed (simp add: Cons word_char_def)
qed simp

lemma advance_symbol:
  assumes "next_char b p \<in> {BAR, OPEN, CLOSE, SEMI, AMP}"
  shows "advance b p = skip_white b (Suc (skip_white b p))"
  using assms by (auto simp: advance_def gettoken_def next_char_def Let_def)

lemma advance_Cons:
  "drop p b = c # r \<Longrightarrow> c \<in> {BAR, OPEN, CLOSE, SEMI, AMP} \<Longrightarrow> next_char b p = c \<and> advance b p = skip_white b (Suc p)"
proof -
  assume a: "drop p b = c # r" "c \<in> {BAR, OPEN, CLOSE, SEMI, AMP}"
  then have "\<not> in_str whitespace c" by (auto simp: in_str_def whitespace_def)
  then show ?thesis using a next_char_Cons [OF a(1)] advance_symbol [of b p] skip_white_Cons [OF a(1)] by simp
qed

text \<open>The rest of \<open>parseexec\<close> after \<open>parseredirs\<close>, with \<open>n\<close> arguments.\<close>

definition finish :: "u8 list \<Rightarrow> nat \<Rightarrow> (cmd \<times> nat) result \<Rightarrow> (cmd \<times> nat) result" where
  "finish b n r =
     (case r of
        Inl e \<Rightarrow> Inl e
      | Inr (c, s) \<Rightarrow>
          (case parseargs b c n s of
             Inl e \<Rightarrow> Inl e
           | Inr (c, argc, s) \<Rightarrow> (case set_arg argc None None c of Inl e \<Rightarrow> Inl e | Inr c \<Rightarrow> Inr (c, s))))"

lemma parseexec_finish: "next_char b p \<noteq> OPEN \<Longrightarrow> parseexec b p = finish b 0 (parseredirs b execcmd p)"
  by (subst parseexec.simps) (simp add: peek_next finish_def in_str_def)

lemma finish_end:
  assumes "building b n c" "next_char b p \<in> {0, BAR, CLOSE, AMP, SEMI}"
  shows "finish b n (Inr (c, p)) = Inr (c, skip_white b p)"
proof -
  have "parseargs b c n p = Inr (c, n, skip_white b p)"
  proof (cases "next_char b p = 0")
    case True
    then have "gettoken b (skip_white b p) = (0, skip_white b p, skip_white b p, skip_white b p)"
      by (simp add: gettoken_def next_char_def Let_def)
    then show ?thesis using True by (subst parseargs.simps) (simp add: peek_next)
  next
    case False
    then have "peek b p [BAR, CLOSE, AMP, SEMI] = (True, skip_white b p)" using assms(2) by (auto simp: peek_next in_str_def)
    then show ?thesis by (subst parseargs.simps) simp
  qed
  then show ?thesis using set_arg_end [OF assms(1)] by (simp add: finish_def)
qed

lemma parseredirs_none: "next_char b p \<notin> {LT, GT} \<Longrightarrow> parseredirs b c p = Inr (c, skip_white b p)"
  by (subst parseredirs.simps) (auto simp: peek_next in_str_def)

lemma word_not_special: "word_char c \<Longrightarrow> c \<notin> {LT, GT, BAR, AMP, SEMI, OPEN, CLOSE} \<and> c \<noteq> 0"
  by (auto simp: word_char_def in_symbols)

lemma set_arg_exec:
  "length qs < MAXARGS \<Longrightarrow> set_arg (length qs) (Some q) (Some e) (exec_args qs) = Inr (exec_args (qs @ [(q, e)]))"
proof -
  assume "length qs < MAXARGS"
  then have "MAXARGS - length qs = Suc (MAXARGS - Suc (length qs))" by simp
  then show ?thesis by (simp add: exec_args_def list_update_append)
qed

lemma read_word:
  assumes "drop p b = 32 # w @ r" "w \<noteq> []" "\<forall>c\<in>set w. word_char c" "0 \<notin> set b" "r = [] \<or> \<not> word_char (hd r)"
    "Suc (length qs) < MAXARGS"
  shows "finish b (length qs) (parseredirs b (exec_args qs) p) =
    finish b (Suc (length qs)) (parseredirs b (exec_args (qs @ [(Suc p, Suc p + length w)])) (Suc p + length w))"
proof -
  have d: "drop (Suc p) b = w @ r" using drop_Cons [OF assms(1)] by simp
  note t = gettoken_of_word [OF d assms(2-5)]
  have "in_str whitespace 32" by (simp add: in_str_def whitespace_def)
  then have sk: "skip_white b p = skip_white b (Suc p)" using skip_white_Cons [OF assms(1)] by simp
  then have nx: "next_char b p = hd w" using t(2) by (simp add: next_char_def)
  have sp: "word_char (hd w)" using assms(2,3) by simp
  have g: "gettoken b (skip_white b (Suc p)) = (TWORD, Suc p, Suc p + length w, skip_white b (Suc p + length w))"
    using t(1) by simp
  have "parseredirs b (exec_args qs) p = Inr (exec_args qs, skip_white b (Suc p))"
    using parseredirs_none [of b p] nx word_not_special [OF sp] sk by simp
  moreover have "parseargs b (exec_args qs) (length qs) (skip_white b (Suc p)) =
    (case parseredirs b (exec_args (qs @ [(Suc p, Suc p + length w)])) (Suc p + length w) of
       Inl e \<Rightarrow> Inl e | Inr (c, s'') \<Rightarrow> parseargs b c (Suc (length qs)) s'')"
    using g t(2) word_not_special [OF sp] assms(6) set_arg_exec [of qs "Suc p" "Suc p + length w"]
    by (subst parseargs.simps) (simp add: peek_next in_str_def)
  ultimately show ?thesis by (simp add: finish_def split: sum.splits)
qed

lemma read_words:
  assumes "drop p b = concat (map (\<lambda>w. 32 # w) ws) @ r" "\<forall>w\<in>set ws. w \<noteq> [] \<and> (\<forall>c\<in>set w. word_char c)" "0 \<notin> set b"
    "r = [] \<or> \<not> word_char (hd r)" "length qs + length ws < MAXARGS" "\<forall>s\<in>set qs. word_span b s"
  shows "\<exists>qs'. length qs' = length qs + length ws \<and> (\<forall>s\<in>set qs'. word_span b s) \<and>
    map (\<lambda>(q, e). take (e - q) (drop q b)) qs' = map (\<lambda>(q, e). take (e - q) (drop q b)) qs @ ws \<and>
    finish b (length qs) (parseredirs b (exec_args qs) p) =
    finish b (length qs') (parseredirs b (exec_args qs') (p + length (concat (map (\<lambda>w. 32 # w) ws))))"
  using assms
proof (induction ws arbitrary: p qs)
  case Nil
  then show ?case by (intro exI [of _ qs]) simp
next
  case (Cons w ws)
  let ?r = "concat (map (\<lambda>w. 32 # w) ws) @ r" and ?q = "(Suc p, Suc p + length w)"
  have d: "drop p b = 32 # w @ ?r" "drop (Suc p) b = w @ ?r" "drop (Suc p + length w) b = ?r"
  proof -
    show *: "drop p b = 32 # w @ ?r" using Cons.prems(1) by simp
    show **: "drop (Suc p) b = w @ ?r" using drop_Cons [OF *] by simp
    have "drop (length w) (drop (Suc p) b) = ?r" by (simp add: **)
    then show "drop (Suc p + length w) b = ?r" by (simp add: add.commute)
  qed
  have w: "w \<noteq> []" "\<forall>c\<in>set w. word_char c" using Cons.prems(2) by auto
  have stop: "?r = [] \<or> \<not> word_char (hd ?r)"
    using Cons.prems(4) by (cases ws) (auto simp: word_char_def in_str_def whitespace_def)
  note t = gettoken_of_word [OF d(2) w Cons.prems(3) stop]
  have step: "finish b (length qs) (parseredirs b (exec_args qs) p) =
    finish b (Suc (length qs)) (parseredirs b (exec_args (qs @ [?q])) (Suc p + length w))"
    using Cons.prems(5) by (intro read_word [OF d(1) w Cons.prems(3) stop]) simp
  have "\<forall>s\<in>set (qs @ [?q]). word_span b s" using Cons.prems(6) t(3) by auto
  from Cons.IH [OF d(3) _ Cons.prems(3,4) _ this] Cons.prems(2,5) obtain qs' where qs':
    "length qs' = length (qs @ [?q]) + length ws" "\<forall>s\<in>set qs'. word_span b s"
    "map (\<lambda>(q, e). take (e - q) (drop q b)) qs' = map (\<lambda>(q, e). take (e - q) (drop q b)) (qs @ [?q]) @ ws"
    "finish b (length (qs @ [?q])) (parseredirs b (exec_args (qs @ [?q])) (Suc p + length w)) =
     finish b (length qs') (parseredirs b (exec_args qs') (Suc p + length w + length (concat (map (\<lambda>w. 32 # w) ws))))"
    by auto
  show ?case using qs' step t(4) by (intro exI [of _ qs']) (auto simp: add.assoc)
qed

lemma read_redir:
  assumes "drop p b = redir_sign mode @ f @ r" "f \<noteq> []" "\<forall>c\<in>set f. word_char c" "0 \<notin> set b" "r = [] \<or> \<not> word_char (hd r)"
    "(mode, fd) \<in> set redirections"
  shows "\<exists>q e. parseredirs b c p = parseredirs b (REDIR c q e mode fd) (p + length (redir_sign mode @ f)) \<and>
    word_span b (q, e) \<and> take (e - q) (drop q b) = f \<and> next_char b p \<in> {LT, GT}"
proof -
  let ?n = "length (redir_sign mode)"
  have hd: "\<exists>x y. redir_sign mode = x # y \<and> x \<in> {LT, GT}" by (simp add: redir_sign_def)
  then obtain x y where x: "redir_sign mode = x # y" "x \<in> {LT, GT}" by blast
  have nw: "\<not> in_str whitespace x" using x(2) by (auto simp: in_str_def whitespace_def)
  have dx: "drop p b = x # y @ f @ r" using assms(1) x(1) by simp
  have nx: "next_char b p = x" "skip_white b p = p" "char_at b p = x"
    using next_char_Cons [OF dx nw] skip_white_Cons [OF dx] nw drop_Cons [OF dx] by (simp_all add: char_at_def)
  have df: "drop (p + ?n) b = f @ r"
  proof -
    have "drop ?n (drop p b) = f @ r" unfolding assms(1) by simp
    then show ?thesis by (simp add: add.commute)
  qed
  have f0: "char_at b (p + ?n) = hd f" "word_char (hd f)"
    using df assms(2,3) by (cases f; auto simp: char_at_def dest!: drop_Cons)+
  have "\<exists>tok q0. gettoken b p = (tok, q0, p + ?n, skip_white b (p + ?n)) \<and> redirection tok c q e = REDIR c q e mode fd" for q e
  proof -
    consider "mode = 0" "fd = 0" "redir_sign mode = [LT]" | "mode = 0x601" "fd = 1" "redir_sign mode = [GT]"
      | "mode = 0x201" "fd = 1" "redir_sign mode = [GT, GT]"
      using assms(6) by (auto simp: redirections_def redir_sign_def O_RDONLY_def O_WRONLY_def O_CREATE_def O_TRUNC_def)
    then show ?thesis
    proof cases
      case 1
      then show ?thesis using nx x by (auto simp: gettoken_def Let_def redirection_def O_RDONLY_def)
    next
      case 2
      then have "char_at b (Suc p) \<noteq> GT" using f0 word_not_special by fastforce
      then show ?thesis using 2 nx x by (auto simp: gettoken_def Let_def redirection_def O_WRONLY_def O_CREATE_def O_TRUNC_def)
    next
      case 3
      then have "char_at b (Suc p) = GT" using assms(1) drop_Cons [of p b GT "GT # f @ r"] drop_Cons [of "Suc p" b GT "f @ r"]
        by (simp add: char_at_def)
      then show ?thesis using 3 nx x by (auto simp: gettoken_def Let_def redirection_def O_WRONLY_def O_CREATE_def O_TRUNC_def)
    qed
  qed
  then obtain tok q0 where tok: "gettoken b p = (tok, q0, p + ?n, skip_white b (p + ?n))"
    "redirection tok c (p + ?n) (p + ?n + length f) = REDIR c (p + ?n) (p + ?n + length f) mode fd" by blast
  note t = gettoken_of_word [OF df assms(2-5)]
  have "peek b p [LT, GT] = (True, p)" using nx x(2) by (auto simp: peek_next in_str_def)
  then have "parseredirs b c p = parseredirs b (REDIR c (p + ?n) (p + ?n + length f) mode fd) (p + ?n + length f)"
    using tok t(1) by (subst parseredirs.simps) simp
  then show ?thesis using t(3,4) nx(1) x(2)
    by (intro exI [of _ "p + ?n"] exI [of _ "p + ?n + length f"]) (simp add: add.assoc)
qed

text \<open>At each level: a printed command is read back wherever it stands in the line, if what follows cannot belong to it.\<close>

definition reads_exec :: "command \<Rightarrow> bool" where
  "reads_exec c \<longleftrightarrow> (\<forall>b p r. 0 \<notin> set b \<longrightarrow> drop p b = print c 3 @ r \<longrightarrow>
     next_char b (p + length (print c 3)) \<in> {0, BAR, CLOSE, AMP, SEMI, LT, GT} \<longrightarrow>
     (\<exists>cmd. spans b cmd = c \<and>
       (parseexec b p = parseredirs b cmd (p + length (print c 3)) \<or>
        (\<exists>n. building b n cmd \<and> parseexec b p = finish b n (parseredirs b cmd (p + length (print c 3)))))))"

definition reads_pipe :: "command \<Rightarrow> bool" where
  "reads_pipe c \<longleftrightarrow> (\<forall>b p r. 0 \<notin> set b \<longrightarrow> drop p b = print c 2 @ r \<longrightarrow>
     next_char b (p + length (print c 2)) \<in> {0, CLOSE, AMP, SEMI} \<longrightarrow>
     (\<exists>cmd. spans b cmd = c \<and> parsepipe b p = Inr (cmd, skip_white b (p + length (print c 2)))))"

definition reads_back :: "command \<Rightarrow> bool" where
  "reads_back c \<longleftrightarrow> (\<forall>b p r. 0 \<notin> set b \<longrightarrow> drop p b = print c 1 @ r \<longrightarrow>
     next_char b (p + length (print c 1)) \<in> {0, CLOSE, AMP, SEMI} \<longrightarrow>
     (\<exists>cmd cmd0 s. spans b cmd = c \<and> parsepipe b p = Inr (cmd0, s) \<and>
        parsebacks b cmd0 s = parsebacks b cmd (p + length (print c 1))))"

definition reads_line :: "command \<Rightarrow> bool" where
  "reads_line c \<longleftrightarrow> (\<forall>b p r. 0 \<notin> set b \<longrightarrow> drop p b = print c 0 @ r \<longrightarrow>
     next_char b (p + length (print c 0)) \<in> {0, CLOSE} \<longrightarrow>
     (\<exists>cmd. spans b cmd = c \<and> parseline b p = Inr (cmd, skip_white b (p + length (print c 0)))))"

lemma drop_after: "drop p b = t @ r \<Longrightarrow> drop (p + length t) b = r"
  by (metis append_eq_conv_conj drop_drop add.commute)

lemma exec_Exec: "valid (Exec ws) \<Longrightarrow> reads_exec (Exec ws)"
  unfolding reads_exec_def
proof (intro allI impI)
  fix b p r
  let ?t = "print (Exec ws) 3"
  assume v: "valid (Exec ws)" and b: "0 \<notin> set b" and d: "drop p b = ?t @ r"
    and nx: "next_char b (p + length ?t) \<in> {0, BAR, CLOSE, AMP, SEMI, LT, GT}"
  have stop: "r = [] \<or> \<not> word_char (hd r)"
    using nx by (intro next_char_stops [OF drop_after [OF d] _ b]) (auto simp: in_symbols)
  have d': "drop p b = concat (map (\<lambda>w. 32 # w) ws) @ r" using d by simp
  have v': "\<forall>w\<in>set ws. w \<noteq> [] \<and> (\<forall>c\<in>set w. word_char c)" "length ([] :: (nat \<times> nat) list) + length ws < MAXARGS"
    "\<forall>s\<in>set []. word_span b s" using v by auto
  have "\<exists>qs. length qs = length ws \<and> (\<forall>s\<in>set qs. word_span b s) \<and> map (\<lambda>(q, e). take (e - q) (drop q b)) qs = ws \<and>
    finish b 0 (parseredirs b (exec_args []) p) = finish b (length qs) (parseredirs b (exec_args qs) (p + length ?t))"
    using read_words [OF d' v'(1) b stop v'(2,3)] by (simp only: list.size add_0 list.map append_Nil print.simps)
  then obtain qs where qs: "length qs = length ws" "\<forall>s\<in>set qs. word_span b s" "map (\<lambda>(q, e). take (e - q) (drop q b)) qs = ws"
    "finish b 0 (parseredirs b (exec_args []) p) = finish b (length qs) (parseredirs b (exec_args qs) (p + length ?t))" by blast
  have "next_char b p \<noteq> OPEN"
  proof (cases ws)
    case Nil
    then show ?thesis using nx by auto
  next
    case (Cons w ws')
    then obtain x xs where x: "w = x # xs" "word_char x" using v by (cases w) auto
    have d1: "drop p b = 32 # x # xs @ concat (map (\<lambda>w. 32 # w) ws') @ r" using d Cons x by simp
    have "next_char b p = next_char b (Suc p)"
      using skip_white_Cons [OF d1] by (simp add: next_char_def in_str_def whitespace_def)
    also have "\<dots> = x" using drop_Cons [OF d1] x(2) by (intro next_char_Cons) (auto simp: word_char_def)
    finally show ?thesis using word_not_special [OF x(2)] by simp
  qed
  moreover have "exec_args [] = execcmd" by (simp add: exec_args_def execcmd_def)
  ultimately have "parseexec b p = finish b (length qs) (parseredirs b (exec_args qs) (p + length ?t))"
    using parseexec_finish [of b p] qs(4) by simp
  moreover have "building b (length qs) (exec_args qs)" using qs(1,2) v by (intro B_exec) auto
  ultimately show "\<exists>cmd. spans b cmd = Exec ws \<and> (parseexec b p = parseredirs b cmd (p + length ?t) \<or>
        (\<exists>n. building b n cmd \<and> parseexec b p = finish b n (parseredirs b cmd (p + length ?t))))"
    using qs(3) spans_exec_args by blast
qed

lemma exec_Redir:
  assumes "reads_exec c" "valid (Redir c f mode fd)"
  shows "reads_exec (Redir c f mode fd)"
  unfolding reads_exec_def
proof (intro allI impI)
  fix b p r
  let ?t = "print (Redir c f mode fd) 3" and ?tc = "print c 3"
  assume b: "0 \<notin> set b" and d: "drop p b = ?t @ r"
    and nx: "next_char b (p + length ?t) \<in> {0, BAR, CLOSE, AMP, SEMI, LT, GT}"
  have stop: "r = [] \<or> \<not> word_char (hd r)"
    using nx by (intro next_char_stops [OF drop_after [OF d] _ b]) (auto simp: in_symbols)
  have d1: "drop p b = ?tc @ redir_sign mode @ f @ r" using d by simp
  note d2 = drop_after [OF d1]
  have f: "f \<noteq> []" "\<forall>c\<in>set f. word_char c" "(mode, fd) \<in> set redirections" using assms(2) by auto
  note rd = read_redir [OF d2 f(1,2) b stop f(3)]
  have "next_char b (p + length ?tc) \<in> {LT, GT}" using rd by blast
  then obtain cmd where cmd: "spans b cmd = c" "parseexec b p = parseredirs b cmd (p + length ?tc) \<or>
        (\<exists>n. building b n cmd \<and> parseexec b p = finish b n (parseredirs b cmd (p + length ?tc)))"
    using assms(1) b d1 unfolding reads_exec_def by blast
  obtain q e where q: "parseredirs b cmd (p + length ?tc) = parseredirs b (REDIR cmd q e mode fd) (p + length ?t)"
    "word_span b (q, e)" "take (e - q) (drop q b) = f"
    using rd [of cmd] by (auto simp: add.assoc)
  have "spans b (REDIR cmd q e mode fd) = Redir c f mode fd" using cmd(1) q(3) by simp
  moreover have "building b n cmd \<Longrightarrow> building b n (REDIR cmd q e mode fd)" for n using B_redir q(2) f(3) by blast
  ultimately show "\<exists>cmd. spans b cmd = Redir c f mode fd \<and> (parseexec b p = parseredirs b cmd (p + length ?t) \<or>
        (\<exists>n. building b n cmd \<and> parseexec b p = finish b n (parseredirs b cmd (p + length ?t))))"
    using cmd(2) q(1) by metis
qed

lemma exec_block:
  assumes "reads_line c" "print c 3 = OPEN # print c 0 @ [CLOSE]"
  shows "reads_exec c"
  unfolding reads_exec_def
proof (intro allI impI)
  fix b p r
  let ?t = "print c 0"
  assume b: "0 \<notin> set b" and d: "drop p b = print c 3 @ r"
  have d0: "drop p b = OPEN # ?t @ CLOSE # r" using d assms(2) by simp
  then have d1: "drop (Suc p) b = ?t @ CLOSE # r" using drop_Cons [OF d0] by simp
  note d2 = drop_after [OF d1]
  have o: "next_char b p = OPEN" "advance b p = skip_white b (Suc p)" using advance_Cons [OF d0] by auto
  have k: "next_char b (Suc p + length ?t) = CLOSE" "advance b (Suc p + length ?t) = skip_white b (Suc (Suc p + length ?t))"
    using advance_Cons [OF d2] by auto
  obtain cmd where cmd: "spans b cmd = c" "parseline b (Suc p) = Inr (cmd, skip_white b (Suc p + length ?t))"
    using assms(1) b d1 k(1) unfolding reads_line_def by blast
  have p: "skip_white b p = p" using skip_white_Cons [OF d0] by (simp add: in_str_def whitespace_def)
  have "parseblock b p = parseredirs b cmd (Suc (Suc p + length ?t))"
    using o k cmd(2) p by (subst parseblock.simps) (simp add: peek_next in_str_def advance_def)
  moreover have "parseexec b p = parseblock b p"
    using o p by (subst parseexec.simps) (simp add: peek_next in_str_def)
  moreover have "Suc (Suc p + length ?t) = p + length (print c 3)" using assms(2) by simp
  ultimately show "\<exists>cmd. spans b cmd = c \<and> (parseexec b p = parseredirs b cmd (p + length (print c 3)) \<or>
        (\<exists>n. building b n cmd \<and> parseexec b p = finish b n (parseredirs b cmd (p + length (print c 3)))))"
    using cmd(1) by metis
qed

text \<open>Reading at the level of \<open>parseexec\<close> when no redirection follows.\<close>

lemma reads_execD:
  assumes "reads_exec c" "0 \<notin> set b" "drop p b = print c 3 @ r"
    "next_char b (p + length (print c 3)) \<in> {0, BAR, CLOSE, AMP, SEMI}"
  shows "\<exists>cmd. spans b cmd = c \<and> parseexec b p = Inr (cmd, skip_white b (p + length (print c 3)))"
proof -
  let ?p = "p + length (print c 3)"
  obtain cmd where cmd: "spans b cmd = c" "parseexec b p = parseredirs b cmd ?p \<or>
        (\<exists>n. building b n cmd \<and> parseexec b p = finish b n (parseredirs b cmd ?p))"
    using assms unfolding reads_exec_def by blast
  have "parseredirs b cmd ?p = Inr (cmd, skip_white b ?p)" using assms(4) by (intro parseredirs_none) auto
  moreover have "building b n cmd \<Longrightarrow> finish b n (Inr (cmd, skip_white b ?p)) = Inr (cmd, skip_white b ?p)" for n
    using finish_end [of b n cmd "skip_white b ?p"] assms(4) by simp
  ultimately show ?thesis using cmd by auto
qed

lemma pipe_exec: "reads_exec c \<Longrightarrow> print c 2 = print c 3 \<Longrightarrow> reads_pipe c"
  unfolding reads_pipe_def
proof (intro allI impI)
  fix b p r
  assume e: "reads_exec c" and t: "print c 2 = print c 3" and b: "0 \<notin> set b" and d: "drop p b = print c 2 @ r"
    and nx: "next_char b (p + length (print c 2)) \<in> {0, CLOSE, AMP, SEMI}"
  obtain cmd where cmd: "spans b cmd = c" "parseexec b p = Inr (cmd, skip_white b (p + length (print c 2)))"
    using reads_execD [OF e b, of p r] d nx t by auto
  then have "parsepipe b p = Inr (cmd, skip_white b (p + length (print c 2)))"
    using nx by (subst parsepipe.simps) (auto simp: peek_next in_str_def)
  then show "\<exists>cmd. spans b cmd = c \<and> parsepipe b p = Inr (cmd, skip_white b (p + length (print c 2)))" using cmd by blast
qed

lemma pipe_Pipe:
  assumes "reads_exec l" "reads_pipe r"
  shows "reads_pipe (Pipe l r)"
  unfolding reads_pipe_def
proof (intro allI impI)
  fix b p s
  let ?l = "print l 3" and ?r = "print r 2"
  assume b: "0 \<notin> set b" and d: "drop p b = print (Pipe l r) 2 @ s"
    and nx: "next_char b (p + length (print (Pipe l r) 2)) \<in> {0, CLOSE, AMP, SEMI}"
  have d1: "drop p b = ?l @ BAR # ?r @ s" using d by simp
  note d2 = drop_after [OF d1]
  have a: "next_char b (p + length ?l) = BAR" "advance b (p + length ?l) = skip_white b (Suc (p + length ?l))"
    using advance_Cons [OF d2] by auto
  have d3: "drop (Suc (p + length ?l)) b = ?r @ s" using drop_Cons [OF d2] by simp
  obtain lc where lc: "spans b lc = l" "parseexec b p = Inr (lc, skip_white b (p + length ?l))"
    using reads_execD [OF assms(1) b d1] a(1) by auto
  obtain rc where rc: "spans b rc = r" "parsepipe b (Suc (p + length ?l)) = Inr (rc, skip_white b (Suc (p + length ?l) + length ?r))"
    using assms(2) b d3 nx unfolding reads_pipe_def by (fastforce simp: add.assoc)
  have "parsepipe b p = Inr (PIPE lc rc, skip_white b (Suc (p + length ?l) + length ?r))"
    using lc(2) rc(2) a by (subst parsepipe.simps) (simp add: peek_next in_str_def advance_def)
  then show "\<exists>cmd. spans b cmd = Pipe l r \<and> parsepipe b p = Inr (cmd, skip_white b (p + length (print (Pipe l r) 2)))"
    using lc(1) rc(1) by (intro exI [of _ "PIPE lc rc"]) (simp add: add.assoc)
qed

lemma back_pipe: "reads_pipe c \<Longrightarrow> print c 1 = print c 2 \<Longrightarrow> reads_back c"
  unfolding reads_back_def reads_pipe_def by (metis parser_skip(2))

lemma back_Background:
  assumes "reads_back c"
  shows "reads_back (Background c)"
  unfolding reads_back_def
proof (intro allI impI)
  fix b p r
  let ?c = "print c 1"
  assume b: "0 \<notin> set b" and d: "drop p b = print (Background c) 1 @ r"
  have d1: "drop p b = ?c @ AMP # r" using d by simp
  note d2 = drop_after [OF d1]
  have a: "next_char b (p + length ?c) = AMP" "advance b (p + length ?c) = skip_white b (Suc (p + length ?c))"
    using advance_Cons [OF d2] by auto
  obtain cmd cmd0 s where cmd: "spans b cmd = c" "parsepipe b p = Inr (cmd0, s)" "parsebacks b cmd0 s = parsebacks b cmd (p + length ?c)"
    using assms b d1 a(1) unfolding reads_back_def by blast
  have "parsebacks b cmd (p + length ?c) = parsebacks b (BACK cmd) (Suc (p + length ?c))"
    using a by (subst parsebacks.simps) (simp add: peek_next in_str_def advance_def)
  then show "\<exists>cmd cmd0 s. spans b cmd = Background c \<and> parsepipe b p = Inr (cmd0, s) \<and>
      parsebacks b cmd0 s = parsebacks b cmd (p + length (print (Background c) 1))"
    using cmd by (intro exI [of _ "BACK cmd"] exI [of _ cmd0] exI [of _ s]) simp
qed

lemma reads_backD:
  assumes "reads_back c" "0 \<notin> set b" "drop p b = print c 1 @ r" "next_char b (p + length (print c 1)) \<in> {0, CLOSE, SEMI}"
  shows "\<exists>cmd cmd0 s. spans b cmd = c \<and> parsepipe b p = Inr (cmd0, s) \<and>
    parsebacks b cmd0 s = (cmd, skip_white b (p + length (print c 1)))"
proof -
  obtain cmd cmd0 s where cmd: "spans b cmd = c" "parsepipe b p = Inr (cmd0, s)"
    "parsebacks b cmd0 s = parsebacks b cmd (p + length (print c 1))"
    using assms unfolding reads_back_def by blast
  moreover have "parsebacks b cmd (p + length (print c 1)) = (cmd, skip_white b (p + length (print c 1)))"
    using assms(4) by (subst parsebacks.simps) (auto simp: peek_next in_str_def)
  ultimately show ?thesis by metis
qed

lemma line_back: "reads_back c \<Longrightarrow> print c 0 = print c 1 \<Longrightarrow> reads_line c"
  unfolding reads_line_def
proof (intro allI impI)
  fix b p r
  assume k: "reads_back c" and t: "print c 0 = print c 1" and b: "0 \<notin> set b" and d: "drop p b = print c 0 @ r"
    and nx: "next_char b (p + length (print c 0)) \<in> {0, CLOSE}"
  obtain cmd cmd0 s where cmd: "spans b cmd = c" "parsepipe b p = Inr (cmd0, s)"
    "parsebacks b cmd0 s = (cmd, skip_white b (p + length (print c 0)))"
    using reads_backD [OF k b, of p r] d nx t by auto
  then have "parseline b p = Inr (cmd, skip_white b (p + length (print c 0)))"
    using nx by (subst parseline.simps) (auto simp: peek_next in_str_def)
  then show "\<exists>cmd. spans b cmd = c \<and> parseline b p = Inr (cmd, skip_white b (p + length (print c 0)))" using cmd by blast
qed

lemma line_Seq:
  assumes "reads_back l" "reads_line r"
  shows "reads_line (Seq l r)"
  unfolding reads_line_def
proof (intro allI impI)
  fix b p s
  let ?l = "print l 1" and ?r = "print r 0"
  assume b: "0 \<notin> set b" and d: "drop p b = print (Seq l r) 0 @ s"
    and nx: "next_char b (p + length (print (Seq l r) 0)) \<in> {0, CLOSE}"
  have d1: "drop p b = ?l @ SEMI # ?r @ s" using d by simp
  note d2 = drop_after [OF d1]
  have a: "next_char b (p + length ?l) = SEMI" "advance b (p + length ?l) = skip_white b (Suc (p + length ?l))"
    using advance_Cons [OF d2] by auto
  have d3: "drop (Suc (p + length ?l)) b = ?r @ s" using drop_Cons [OF d2] by simp
  obtain lc lc0 s0 where lc: "spans b lc = l" "parsepipe b p = Inr (lc0, s0)" "parsebacks b lc0 s0 = (lc, skip_white b (p + length ?l))"
    using reads_backD [OF assms(1) b d1] a(1) by auto
  obtain rc where rc: "spans b rc = r" "parseline b (Suc (p + length ?l)) = Inr (rc, skip_white b (Suc (p + length ?l) + length ?r))"
    using assms(2) b d3 nx unfolding reads_line_def by (fastforce simp: add.assoc)
  have "parseline b p = Inr (LIST lc rc, skip_white b (Suc (p + length ?l) + length ?r))"
    using lc(2,3) rc(2) a by (subst parseline.simps) (simp add: peek_next in_str_def advance_def)
  then show "\<exists>cmd. spans b cmd = Seq l r \<and> parseline b p = Inr (cmd, skip_white b (p + length (print (Seq l r) 0)))"
    using lc(1) rc(1) by (intro exI [of _ "LIST lc rc"]) (simp add: add.assoc)
qed

lemma reads_all: "valid c \<Longrightarrow> reads_exec c \<and> reads_pipe c \<and> reads_back c \<and> reads_line c"
proof (induction c)
  case (Exec ws)
  have "reads_exec (Exec ws)" using Exec by (rule exec_Exec)
  moreover from this have "reads_pipe (Exec ws)" by (rule pipe_exec) simp
  moreover from this have "reads_back (Exec ws)" by (rule back_pipe) simp
  moreover from this have "reads_line (Exec ws)" by (rule line_back) simp
  ultimately show ?case by blast
next
  case (Redir c f mode fd)
  have "reads_exec (Redir c f mode fd)" using Redir by (intro exec_Redir) auto
  moreover from this have "reads_pipe (Redir c f mode fd)" by (rule pipe_exec) simp
  moreover from this have "reads_back (Redir c f mode fd)" by (rule back_pipe) simp
  moreover from this have "reads_line (Redir c f mode fd)" by (rule line_back) simp
  ultimately show ?case by blast
next
  case (Pipe l r)
  have "reads_pipe (Pipe l r)" using Pipe by (intro pipe_Pipe) auto
  moreover from this have "reads_back (Pipe l r)" by (rule back_pipe) simp
  moreover from this have "reads_line (Pipe l r)" by (rule line_back) simp
  moreover from this have "reads_exec (Pipe l r)" by (rule exec_block) simp
  ultimately show ?case by blast
next
  case (Seq l r)
  have "reads_line (Seq l r)" using Seq by (intro line_Seq) auto
  moreover from this have "reads_exec (Seq l r)" by (rule exec_block) simp
  moreover from this have "reads_pipe (Seq l r)" by (rule pipe_exec) simp
  moreover from this have "reads_back (Seq l r)" by (rule back_pipe) simp
  ultimately show ?case by blast
next
  case (Background c)
  have "reads_back (Background c)" using Background by (intro back_Background) auto
  moreover from this have "reads_line (Background c)" by (rule line_back) simp
  moreover from this have "reads_exec (Background c)" by (rule exec_block) simp
  moreover from this have "reads_pipe (Background c)" by (rule pipe_exec) simp
  ultimately show ?case by blast
qed

lemma print_nonzero: "valid c \<Longrightarrow> 0 \<notin> set (print c k)"
proof (induction c arbitrary: k)
  case (Exec ws)
  then show ?case by (auto simp: word_char_def)
next
  case (Redir c f mode fd)
  then show ?case by (auto simp: redir_sign_def word_char_def)
qed (auto simp: Let_def)

lemma parsecmd_print:
  assumes "valid c"
  shows "\<exists>cmd m. parsecmd (print c 0) = Inr (cmd, m) \<and> denote m cmd = c"
proof -
  let ?b = "print c 0"
  have b: "0 \<notin> set ?b" using assms by (rule print_nonzero)
  have e: "skip_white ?b (length ?b) = length ?b" by (subst skip_white.simps) simp
  have "next_char ?b (0 + length ?b) \<in> {0, CLOSE}" by (simp add: next_char_def e char_at_def)
  moreover have "drop 0 ?b = ?b @ []" by simp
  ultimately obtain cmd where cmd: "spans ?b cmd = c" "parseline ?b 0 = Inr (cmd, skip_white ?b (0 + length ?b))"
    using reads_all [OF assms] b unfolding reads_line_def by blast
  note r = parsecmd_result [OF b cmd(2)]
  show ?thesis using r(2,3) cmd(1) e by simp
qed

lemma parsecmd_valid:
  assumes "0 \<notin> set b" "parsecmd b = Inr (c, m)"
  shows "valid (denote m c)"
proof -
  obtain s where s: "parseline b 0 = Inr (c, s)"
    using assms(2) by (cases "parseline b 0") (auto simp: parsecmd_def bind_result_Inr_iff split: prod.splits if_splits)
  have "m = zeros (ends c) (b @ [0])"
    using parsecmd_result(2) [OF assms(1) s] assms(2) by (simp split: if_splits)
  then show ?thesis using parsecmd_result(1,3) [OF assms(1) s] spans_valid by simp
qed

section \<open>Properties\<close>

text \<open>C37: The parser of the shell is safe on every line: it ends (the definitions are total), it fails only with one of its own error messages, and never
  writes outside of \<open>argv\<close>, outside of the line or through a null pointer. A command it returns is well-typed: fewer than
  \<open>MAXARGS\<close> arguments, then a null pointer; the string that each pointer reads after \<open>nulterminate\<close> is exactly the word of the original line that it
  points to, and is a non-empty word without white space and symbols; the modes of redirections are the three that exist.\<close>

theorem parsecmd_typed:
  assumes "0 \<notin> set b"
  shows "case parsecmd b of
      Inl e \<Rightarrow> \<exists>msg. e = Panic msg
    | Inr (c, m) \<Rightarrow> typed b c \<and> denote m c = spans b c \<and> valid (denote m c) \<and> length m = length b + 1"
proof (cases "parseline b 0")
  case (Inl e)
  then show ?thesis using parse_typed(1) [OF assms, of 0] by (simp add: parsecmd_def panics_or_def)
next
  case (Inr cs)
  obtain c s where "cs = (c, s)" by fastforce
  then have r: "parseline b 0 = Inr (c, s)" using Inr by simp
  show ?thesis using parsecmd_result [OF assms r] spans_valid by simp
qed

text \<open>\<open>ls -l>out\<close>\<close>

definition line_ex :: "u8 list" where
  "line_ex = [108, 115, 32, 45, 108, 62, 111, 117, 116]"

theorem parsecmd_typed_witness:
  "0 \<notin> set line_ex \<and> (case parsecmd line_ex of
      Inl e \<Rightarrow> \<exists>msg. e = Panic msg
    | Inr (c, m) \<Rightarrow> typed line_ex c \<and> denote m c = spans line_ex c \<and> valid (denote m c) \<and> length m = length line_ex + 1)"
proof -
  have "0 \<notin> set line_ex" by (simp add: line_ex_def)
  with parsecmd_typed [OF this] show ?thesis by blast
qed

text \<open>C38: Every command can be written down, and the shell reads it back: for each command with fewer than \<open>MAXARGS\<close> arguments, made of words and the
  existing redirections, \<open>parsecmd\<close> accepts its text, with parentheses only where they are needed, and the result means the same command. So
  pipes, lists and background commands nest as written, and redirections go to the command they are attached to. As an accepted line means such a command,
  printing what a line means and parsing again changes nothing.\<close>

theorem parse_print_roundtrip:
  shows "(valid c \<longrightarrow> (\<exists>cmd m. parsecmd (print c 0) = Inr (cmd, m) \<and> denote m cmd = c)) \<and>
    (0 \<notin> set b \<and> parsecmd b = Inr (cmd, m) \<longrightarrow>
      (\<exists>cmd' m'. parsecmd (print (denote m cmd) 0) = Inr (cmd', m') \<and> denote m' cmd' = denote m cmd))"
  using parsecmd_print parsecmd_valid by blast

text \<open>\<open>(ls & ; wc) > o\<close>\<close>

definition command_ex :: command where
  "command_ex = Redir (Seq (Background (Exec [[108, 115]])) (Exec [[119, 99]])) [111] 0x601 1"

theorem parse_print_roundtrip_witness:
  "valid command_ex \<and> print command_ex 0 = [40, 32, 108, 115, 38, 59, 32, 119, 99, 41, 62, 111] \<and>
    (\<exists>cmd m. parsecmd (print command_ex 0) = Inr (cmd, m) \<and> denote m cmd = command_ex)"
proof -
  have v: "valid command_ex"
    by (simp add: command_ex_def MAXARGS_def word_char_def in_str_def whitespace_def symbols_def redirections_def
        O_RDONLY_def O_WRONLY_def O_CREATE_def O_TRUNC_def)
  moreover have "print command_ex 0 = [40, 32, 108, 115, 38, 59, 32, 119, 99, 41, 62, 111]"
    by (simp add: command_ex_def redir_sign_def O_RDONLY_def O_WRONLY_def O_CREATE_def O_TRUNC_def)
  ultimately show ?thesis using parse_print_roundtrip [of command_ex] by simp
qed

end
