(* ===== verification/Shtrace.thy ===== *)
theory Shtrace
  imports Main
begin

text \<open>
  The order in which the programs that a process starts run: what \<open>fork\<close>, \<open>wait\<close>, \<open>exec\<close> and \<open>exit\<close> allow, for \<open>Runcmd\<close>.
  A \<open>sched\<close> is what is left of a process when only these calls are looked at; \<open>runs\<close> gives the traces of it and of the processes it forks, and
  \<open>happens\<close> the traces that are meant, by composing programs with "and then", "at the same time" and "without waiting". The lemmas compute the traces
  of the ways in which \<^verbatim>\<open>user/sh.c\<close> uses \<open>fork\<close> and \<open>wait\<close>.
\<close>

section \<open>Processes and their traces\<close>

text \<open>\<open>Done\<close> is about to exit, \<open>Run j\<close> to become the program \<open>j\<close>, \<open>Running j\<close> is that program; \<open>Spawn c s\<close> forks \<open>c\<close> and goes on as \<open>s\<close>,
  \<open>Await s\<close> calls \<open>wait\<close> and goes on as \<open>s\<close>.\<close>

datatype 'j sched = Done | Run 'j | Running 'j | Spawn "'j sched" "'j sched" | Await "'j sched"

text \<open>A program starts, a program ends, and the process looked at exits. A process that has become a program ends and exits.\<close>

datatype 'j event = Starts 'j | Ends 'j | Exits

definition quiet :: "'j event list \<Rightarrow> 'j event list" where
  "quiet u = filter (\<lambda>e. e \<noteq> Exits) u"

text \<open>\<open>runs s z u w\<close>: a process that is at \<open>s\<close>, with \<open>z\<close> children that have exited and are not waited for, and whose other children
  and their descendants still do \<open>u\<close>, where \<open>Exits\<close> is the exit of a child, can do \<open>w\<close> together with them, where \<open>Exits\<close> is its own exit. At each
  point either a descendant does the next event of \<open>u\<close> or the process takes a step. \<open>wait\<close> returns when a child has exited, any one, or at once if there
  is none. A child that is forked runs on its own, interleaved with the others. After the exit the descendants go on.\<close>

inductive runs :: "'j sched \<Rightarrow> nat \<Rightarrow> 'j event list \<Rightarrow> 'j event list \<Rightarrow> bool" where
  run_other: "runs s z u w \<Longrightarrow> e \<noteq> Exits \<Longrightarrow> runs s z (e # u) (e # w)"
| run_zombie: "runs s (Suc z) u w \<Longrightarrow> runs s z (Exits # u) w"
| run_exit: "runs Done z u (Exits # quiet u)"
| run_start: "runs (Running j) z u w \<Longrightarrow> runs (Run j) z u (Starts j # w)"
| run_end: "runs Done z u w \<Longrightarrow> runs (Running j) z u (Ends j # w)"
| run_spawn: "runs c 0 [] x \<Longrightarrow> v \<in> shuffles u x \<Longrightarrow> runs s z v w \<Longrightarrow> runs (Spawn c s) z u w"
| run_await: "runs s z u w \<Longrightarrow> runs (Await s) (Suc z) u w"
| run_no_child: "runs s 0 u w \<Longrightarrow> Exits \<notin> set u \<Longrightarrow> runs (Await s) 0 u w"

text \<open>The traces of a process that has no child yet.\<close>

definition traces :: "'j sched \<Rightarrow> 'j event list set" where
  "traces s = {w. runs s 0 [] w}"

section \<open>What is meant\<close>

datatype 'j plan = Idle | Job 'j | Then "'j plan" "'j plan" | Both "'j plan" "'j plan" | Detach "'j plan"

text \<open>The events of a plan, with \<open>Exits\<close> where it counts as finished. \<open>Then a b\<close>: \<open>b\<close> begins when \<open>a\<close> is finished; what \<open>a\<close> has left behind goes on
  beside \<open>b\<close>. \<open>Both a b\<close>: \<open>a\<close> and \<open>b\<close> at the same time, finished at some point after both are. \<open>Detach a\<close>: finished at any point.\<close>

primrec happens :: "'j plan \<Rightarrow> 'j event list set" where
  "happens Idle = {[Exits]}"
| "happens (Job j) = {[Starts j, Ends j, Exits]}"
| "happens (Then a b) = {p @ w |p q v w. p @ Exits # q \<in> happens a \<and> v \<in> happens b \<and> w \<in> shuffles q v}"
| "happens (Both a b) =
     {p @ q @ r @ Exits # t |p q r t u v. u \<in> happens a \<and> v \<in> happens b \<and> p @ Exits # q @ Exits # r @ t \<in> shuffles u v}"
| "happens (Detach a) = {p @ Exits # q |p q r t. r @ Exits # t \<in> happens a \<and> r @ t = p @ q}"

section \<open>Interleavings\<close>

lemma quiet_simps [simp]: "quiet [] = []" "quiet (Exits # u) = quiet u" "e \<noteq> Exits \<Longrightarrow> quiet (e # u) = e # quiet u"
  "quiet (u @ v) = quiet u @ quiet v"
  by (simp_all add: quiet_def)

lemma quiet_id: "Exits \<notin> set u \<Longrightarrow> quiet u = u"
  unfolding quiet_def by (induction u) auto

lemma quiet_shuffles: "v \<in> shuffles x y \<Longrightarrow> quiet v \<in> shuffles (quiet x) (quiet y)"
  unfolding quiet_def using filter_shuffles [of "\<lambda>e. e \<noteq> Exits" x y] by auto

lemma quiet_shuffles_ex: "v \<in> shuffles (quiet x) (quiet y) \<Longrightarrow> \<exists>w\<in>shuffles x y. quiet w = v"
  unfolding quiet_def filter_shuffles [symmetric] by (elim imageE) blast

lemma shuffles_assoc: "w \<in> shuffles xs v \<Longrightarrow> v \<in> shuffles ys zs \<Longrightarrow> \<exists>u\<in>shuffles xs ys. w \<in> shuffles u zs"
proof (induction w arbitrary: xs v ys zs)
  case (Cons a w)
  from Cons.prems(1) consider xs' where "xs = a # xs'" "w \<in> shuffles xs' v" | v' where "v = a # v'" "w \<in> shuffles xs v'"
    by (auto simp: Cons_in_shuffles_iff neq_Nil_conv)
  then show ?case
  proof cases
    case 1
    then obtain u where "u \<in> shuffles xs' ys" "w \<in> shuffles u zs" using Cons.IH Cons.prems(2) by blast
    then show ?thesis using 1 by (intro bexI [of _ "a # u"]) (auto intro: Cons_in_shuffles_leftI)
  next
    case 2
    from Cons.prems(2) 2(1) consider ys' where "ys = a # ys'" "v' \<in> shuffles ys' zs" | zs' where "zs = a # zs'" "v' \<in> shuffles ys zs'"
      by (auto simp: Cons_in_shuffles_iff neq_Nil_conv)
    then show ?thesis
    proof cases
      case 1
      then obtain u where "u \<in> shuffles xs ys'" "w \<in> shuffles u zs" using Cons.IH 2(2) by blast
      then show ?thesis using 1 by (intro bexI [of _ "a # u"]) (auto intro: Cons_in_shuffles_leftI Cons_in_shuffles_rightI)
    next
      case 2
      then obtain u where "u \<in> shuffles xs ys" "w \<in> shuffles u zs'" using Cons.IH \<open>w \<in> shuffles xs v'\<close> by blast
      then show ?thesis using 2 by (auto intro: Cons_in_shuffles_rightI)
    qed
  qed
qed auto

lemma shuffles_assoc': "w \<in> shuffles u zs \<Longrightarrow> u \<in> shuffles xs ys \<Longrightarrow> \<exists>v\<in>shuffles ys zs. w \<in> shuffles xs v"
  using shuffles_assoc [of w zs u ys xs] by (auto simp: shuffles_commutes)

text \<open>Events of processes that are not children are independent.\<close>

lemma runs_split:
  "runs s z v w \<Longrightarrow> v \<in> shuffles q u \<Longrightarrow> Exits \<notin> set q \<Longrightarrow> \<exists>w'. runs s z u w' \<and> w \<in> shuffles q w'"
proof (induction arbitrary: q u rule: runs.induct)
  case (run_other s z v w e)
  from run_other.prems(1) consider q' where "q = e # q'" "v \<in> shuffles q' u" | u' where "u = e # u'" "v \<in> shuffles q u'"
    by (auto simp: Cons_in_shuffles_iff neq_Nil_conv)
  then show ?case
  proof cases
    case 1
    then obtain w' where "runs s z u w'" "w \<in> shuffles q' w'" using run_other.IH [of q' u] run_other.prems(2) by auto
    then show ?thesis using 1(1) by (intro exI [of _ w']) (auto intro: Cons_in_shuffles_leftI)
  next
    case 2
    then obtain w' where "runs s z u' w'" "w \<in> shuffles q w'" using run_other.IH [of q u'] run_other.prems(2) by auto
    then show ?thesis using 2(1) runs.run_other [OF _ run_other.hyps(2), of s z u' w']
      by (intro exI [of _ "e # w'"]) (auto intro: Cons_in_shuffles_rightI)
  qed
next
  case (run_zombie s z v w)
  then obtain u' where u: "u = Exits # u'" "v \<in> shuffles q u'" by (auto simp: Cons_in_shuffles_iff neq_Nil_conv)
  then obtain w' where "runs s (Suc z) u' w'" "w \<in> shuffles q w'" using run_zombie.IH run_zombie.prems(2) by blast
  then show ?case unfolding u(1) by (intro exI [of _ w'] conjI runs.run_zombie)
next
  case (run_exit z v)
  have "quiet v \<in> shuffles q (quiet u)" using quiet_shuffles [OF run_exit(1)] quiet_id [OF run_exit(2)] by simp
  then show ?case by (intro exI [of _ "Exits # quiet u"] conjI runs.run_exit Cons_in_shuffles_rightI)
next
  case (run_start j z v w)
  then obtain w' where "runs (Running j) z u w'" "w \<in> shuffles q w'" by blast
  then show ?case by (intro exI [of _ "Starts j # w'"] conjI runs.run_start Cons_in_shuffles_rightI)
next
  case (run_end z v w j)
  then obtain w' where "runs Done z u w'" "w \<in> shuffles q w'" by blast
  then show ?case by (intro exI [of _ "Ends j # w'"] conjI runs.run_end Cons_in_shuffles_rightI)
next
  case (run_spawn c x v2 v s z w)
  obtain y where "y \<in> shuffles u x" "v2 \<in> shuffles q y" using shuffles_assoc' [OF run_spawn.hyps(2) run_spawn.prems(1)] by blast
  then show ?case using run_spawn.IH(2) [of q y] run_spawn.prems(2) runs.run_spawn [OF run_spawn.hyps(1)] by blast
next
  case (run_await s z v w)
  then show ?case using runs.run_await by blast
next
  case (run_no_child s v w)
  then have "Exits \<notin> set u" using set_shuffles by fastforce
  then show ?case using run_no_child runs.run_no_child by blast
qed

lemma runs_prefix: "runs s z v w \<Longrightarrow> Exits \<notin> set q \<Longrightarrow> runs s z (q @ v) (q @ w)"
  by (induction q) (auto intro: runs.run_other)

lemma shuffles_Cons_right: "w \<in> shuffles q (e # x) \<Longrightarrow> \<exists>q1 q2 w'. q = q1 @ q2 \<and> w = q1 @ e # w' \<and> w' \<in> shuffles q2 x"
proof (induction q arbitrary: w)
  case Nil
  then show ?case by auto
next
  case (Cons a q)
  then consider "\<exists>w'. w = a # w' \<and> w' \<in> shuffles q (e # x)" | "\<exists>w'. w = e # w' \<and> w' \<in> shuffles (a # q) x" by auto
  then show ?case
  proof cases
    case 1
    then obtain w' q1 q2 w2 where "w = a # w'" "q = q1 @ q2" "w' = q1 @ e # w2" "w2 \<in> shuffles q2 x" using Cons.IH by blast
    then show ?thesis by (intro exI [of _ "a # q1"] exI [of _ q2] exI [of _ w2]) simp
  next
    case 2
    then show ?thesis by (metis append_Nil)
  qed
qed

lemma shuffles_prefix: "v \<in> shuffles q u \<Longrightarrow> p @ v \<in> shuffles (p @ q) u"
  by (induction p) (auto intro: Cons_in_shuffles_leftI)

lemma runs_merge:
  "runs s z u w' \<Longrightarrow> w \<in> shuffles q w' \<Longrightarrow> Exits \<notin> set q \<Longrightarrow> \<exists>v\<in>shuffles q u. runs s z v w"
proof (induction arbitrary: q w rule: runs.induct)
  case (run_other s z u w' e)
  obtain q1 q2 w1 where q: "q = q1 @ q2" "w = q1 @ e # w1" "w1 \<in> shuffles q2 w'" using shuffles_Cons_right [OF run_other.prems(1)] by blast
  obtain v where v: "v \<in> shuffles q2 u" "runs s z v w1" using run_other.IH [OF q(3)] run_other.prems(2) q(1) by auto
  have "runs s z (q1 @ e # v) w" unfolding q(2) using run_other.prems(2) q(1) by (intro runs_prefix runs.run_other v(2) run_other.hyps(2)) auto
  moreover have "q1 @ e # v \<in> shuffles q (e # u)" unfolding q(1) by (intro shuffles_prefix Cons_in_shuffles_rightI v(1))
  ultimately show ?case by blast
next
  case (run_zombie s z u w')
  then obtain v where "v \<in> shuffles q u" "runs s (Suc z) v w" by blast
  then show ?case by (intro bexI [of _ "Exits # v"] runs.run_zombie Cons_in_shuffles_rightI)
next
  case (run_exit z u)
  obtain q1 q2 w1 where q: "q = q1 @ q2" "w = q1 @ Exits # w1" "w1 \<in> shuffles q2 (quiet u)" using shuffles_Cons_right [OF run_exit(1)] by blast
  then obtain v where "v \<in> shuffles q2 u" "quiet v = w1" using quiet_shuffles_ex [of w1 q2 u] quiet_id [of q2] run_exit(2) by auto
  then show ?case using q run_exit(2) runs_prefix [OF runs.run_exit, of q1 z v] shuffles_prefix [of v q2 u q1]
    by (intro bexI [of _ "q1 @ v"]) auto
next
  case (run_start j z u w')
  obtain q1 q2 w1 where q: "q = q1 @ q2" "w = q1 @ Starts j # w1" "w1 \<in> shuffles q2 w'" using shuffles_Cons_right [OF run_start.prems(1)] by blast
  obtain v where "v \<in> shuffles q2 u" "runs (Running j) z v w1" using run_start.IH [OF q(3)] run_start.prems(2) q(1) by auto
  then show ?case using q run_start.prems(2) runs_prefix [OF runs.run_start, of j z v w1 q1] shuffles_prefix [of v q2 u q1]
    by (intro bexI [of _ "q1 @ v"]) auto
next
  case (run_end z u w' j)
  obtain q1 q2 w1 where q: "q = q1 @ q2" "w = q1 @ Ends j # w1" "w1 \<in> shuffles q2 w'" using shuffles_Cons_right [OF run_end.prems(1)] by blast
  obtain v where "v \<in> shuffles q2 u" "runs Done z v w1" using run_end.IH [OF q(3)] run_end.prems(2) q(1) by auto
  then show ?case using q run_end.prems(2) runs_prefix [OF runs.run_end, of z v w1 q1 j] shuffles_prefix [of v q2 u q1]
    by (intro bexI [of _ "q1 @ v"]) auto
next
  case (run_spawn c x v u s z w')
  obtain y where y: "y \<in> shuffles q v" "runs s z y w" using run_spawn.IH(2) run_spawn.prems by blast
  then obtain u' where "u' \<in> shuffles q u" "y \<in> shuffles u' x" using shuffles_assoc [OF y(1) run_spawn.hyps(2)] by blast
  then show ?case using y(2) runs.run_spawn [OF run_spawn.hyps(1)] by blast
next
  case (run_await s z u w')
  then show ?case using runs.run_await by blast
next
  case (run_no_child s u w')
  then obtain v where v: "v \<in> shuffles q u" "runs s 0 v w" by blast
  then have "Exits \<notin> set v" using run_no_child.hyps(2) run_no_child.prems(2) set_shuffles by fastforce
  then show ?case using v runs.run_no_child by blast
qed

lemma runs_quiet_pool: "Exits \<notin> set q \<Longrightarrow> runs s z q w \<longleftrightarrow> (\<exists>w'. runs s z [] w' \<and> w \<in> shuffles q w')"
  using runs_split [of s z q w q "[]"] runs_merge [of s z "[]" _ w q] by auto

text \<open>A run has one \<open>Exits\<close>, its own.\<close>

lemma runs_one_exit: "runs s z u w \<Longrightarrow> \<exists>p q. w = p @ Exits # q \<and> Exits \<notin> set p \<and> Exits \<notin> set q"
proof (induction rule: runs.induct)
  case (run_other s z u w e)
  then obtain p q where "w = p @ Exits # q" "Exits \<notin> set p" "Exits \<notin> set q" by blast
  then show ?case using run_other.hyps(2) by (intro exI [of _ "e # p"] exI [of _ q]) simp
next
  case (run_exit z u)
  then show ?case by (intro exI [of _ "[]"] exI [of _ "quiet u"]) (simp add: quiet_def)
next
  case (run_start j z u w)
  then obtain p q where "w = p @ Exits # q" "Exits \<notin> set p" "Exits \<notin> set q" by blast
  then show ?case by (intro exI [of _ "Starts j # p"] exI [of _ q]) simp
next
  case (run_end z u w j)
  then obtain p q where "w = p @ Exits # q" "Exits \<notin> set p" "Exits \<notin> set q" by blast
  then show ?case by (intro exI [of _ "Ends j # p"] exI [of _ q]) simp
qed blast+

lemma runs_await_zombie: "runs (Await s) (Suc z) u w \<longleftrightarrow> runs s z u w"
proof
  assume "runs (Await s) (Suc z) u w"
  then show "runs s z u w"
    by (induction "Await s" "Suc z" u w arbitrary: z rule: runs.induct) (auto intro: runs.intros)
qed (rule runs.run_await)

inductive_cases runs_awaitE: "runs (Await s) 0 (e # u) w"

lemma runs_await_none: "runs (Await s) 0 (p @ Exits # q) w \<longleftrightarrow> (\<exists>w'. w = p @ w' \<and> runs s 0 q w')" if "Exits \<notin> set p"
  using that
proof (induction p arbitrary: w)
  case Nil
  have "runs (Await s) 0 (Exits # q) w \<longleftrightarrow> runs (Await s) (Suc 0) q w" by (auto elim: runs_awaitE intro: runs.run_zombie)
  then show ?case by (simp add: runs_await_zombie)
next
  case (Cons e p)
  then have "runs (Await s) 0 (e # p @ Exits # q) w \<longleftrightarrow> (\<exists>w'. w = e # w' \<and> runs (Await s) 0 (p @ Exits # q) w')"
    by (auto elim: runs_awaitE intro: runs.run_other)
  then show ?case using Cons by auto
qed

lemma runs_spawn: "runs (Spawn c s) z u w \<longleftrightarrow> (\<exists>x v. runs c 0 [] x \<and> v \<in> shuffles u x \<and> runs s z v w)"
proof
  assume "runs (Spawn c s) z u w"
  then show "\<exists>x v. runs c 0 [] x \<and> v \<in> shuffles u x \<and> runs s z v w"
  proof (induction "Spawn c s" z u w rule: runs.induct)
    case (run_other z u w e)
    then obtain x v where "runs c 0 [] x" "v \<in> shuffles u x" "runs s z v w" by blast
    then show ?case using run_other.hyps(3)
      by (intro exI [of _ x] exI [of _ "e # v"] conjI runs.run_other Cons_in_shuffles_leftI)
  next
    case (run_zombie z u w)
    then obtain x v where "runs c 0 [] x" "v \<in> shuffles u x" "runs s (Suc z) v w" by blast
    then show ?case by (intro exI [of _ x] exI [of _ "Exits # v"] conjI runs.run_zombie Cons_in_shuffles_leftI)
  qed blast
qed (blast intro: runs.run_spawn)

lemma runs_done: "runs Done z u w \<longleftrightarrow> (\<exists>a b. quiet u = a @ b \<and> w = a @ Exits # b)"
proof
  assume "runs Done z u w"
  then show "\<exists>a b. quiet u = a @ b \<and> w = a @ Exits # b"
  proof (induction "Done :: 'a sched" z u w rule: runs.induct)
    case (run_other z u w e)
    then obtain a b where "quiet u = a @ b" "w = a @ Exits # b" by blast
    then show ?case using run_other.hyps(3) by (intro exI [of _ "e # a"] exI [of _ b]) simp
  qed auto
next
  assume "\<exists>a b. quiet u = a @ b \<and> w = a @ Exits # b"
  then obtain a b where "quiet u = a @ b" "w = a @ Exits # b" by blast
  then show "runs Done z u w"
  proof (induction u arbitrary: z a w)
    case Nil
    then show ?case using runs.run_exit [of z "[]"] by simp
  next
    case (Cons e u)
    show ?case
    proof (cases "a = []")
      case True
      then show ?thesis using runs.run_exit [of z "e # u"] Cons.prems by simp
    next
      case False
      show ?thesis
      proof (cases "e = Exits")
        case True
        then show ?thesis using Cons.IH [of a w "Suc z"] Cons.prems by (auto intro: runs.run_zombie)
      next
        case e: False
        then obtain a' where "a = e # a'" "quiet u = a' @ b" using False Cons.prems(1) by (cases a) auto
        then show ?thesis using Cons.IH [of a' "a' @ Exits # b" z] Cons.prems(2) e by (auto intro: runs.run_other)
      qed
    qed
  qed
qed

lemma one_exit_unique:
  "p @ Exits # q = p' @ Exits # q' \<Longrightarrow> Exits \<notin> set p \<Longrightarrow> Exits \<notin> set q \<Longrightarrow> p = p' \<and> q = q'"
  by (induction p arbitrary: p') (auto simp: Cons_eq_append_conv)

lemma traces_one_exit:
  assumes "p @ Exits # q \<in> traces s"
  shows "Exits \<notin> set p" "Exits \<notin> set q"
proof -
  obtain p' q' where "p @ Exits # q = p' @ Exits # q'" "Exits \<notin> set p'" "Exits \<notin> set q'"
    using assms runs_one_exit [of s 0 "[]" "p @ Exits # q"] by (auto simp: traces_def)
  then have "p' = p" "q' = q" using one_exit_unique [of p' q' p q] by auto
  then show "Exits \<notin> set p" "Exits \<notin> set q" using \<open>Exits \<notin> set p'\<close> \<open>Exits \<notin> set q'\<close> by auto
qed

lemma traces_exit: "w \<in> traces s \<Longrightarrow> \<exists>p q. w = p @ Exits # q"
  unfolding traces_def using runs_one_exit by blast

lemma traces_done: "traces Done = {[Exits]}"
  by (auto simp: traces_def runs_done)

inductive_cases runs_run0: "runs (Run j) 0 [] w"
inductive_cases runs_running0: "runs (Running j) 0 [] w"

lemma traces_run: "traces (Run j) = {[Starts j, Ends j, Exits]}"
  by (auto simp: traces_def runs_done elim!: runs_run0 runs_running0 intro!: runs.run_start runs.run_end)

lemma traces_spawn: "w \<in> traces (Spawn c s) \<longleftrightarrow> (\<exists>p q. p @ Exits # q \<in> traces c \<and> runs s 0 (p @ Exits # q) w)"
proof -
  have "w \<in> traces (Spawn c s) \<longleftrightarrow> (\<exists>x. x \<in> traces c \<and> runs s 0 x w)" by (auto simp: traces_def runs_spawn)
  also have "\<dots> \<longleftrightarrow> (\<exists>p q. p @ Exits # q \<in> traces c \<and> runs s 0 (p @ Exits # q) w)" using traces_exit by metis
  finally show ?thesis .
qed

lemma traces_then: "traces (Spawn c (Await s)) = {p @ w |p q v w. p @ Exits # q \<in> traces c \<and> v \<in> traces s \<and> w \<in> shuffles q v}"
proof -
  have "runs (Await s) 0 (p @ Exits # q) w \<longleftrightarrow> (\<exists>w' v. w = p @ w' \<and> v \<in> traces s \<and> w' \<in> shuffles q v)" if "p @ Exits # q \<in> traces c" for p q w
    unfolding runs_await_none [OF traces_one_exit(1) [OF that]] runs_quiet_pool [OF traces_one_exit(2) [OF that]] traces_def by blast
  then have "w \<in> traces (Spawn c (Await s)) \<longleftrightarrow>
      (\<exists>p q. p @ Exits # q \<in> traces c \<and> (\<exists>w' v. w = p @ w' \<and> v \<in> traces s \<and> w' \<in> shuffles q v))" for w
    unfolding traces_spawn by metis
  then show ?thesis by blast
qed

lemma traces_detach: "traces (Spawn c Done) = {p @ Exits # q |p q r t. r @ Exits # t \<in> traces c \<and> r @ t = p @ q}"
proof -
  have "runs Done 0 (r @ Exits # t) w \<longleftrightarrow> (\<exists>p q. r @ t = p @ q \<and> w = p @ Exits # q)" if "r @ Exits # t \<in> traces c" for r t w
    using traces_one_exit [OF that] by (simp add: runs_done quiet_id)
  then have "w \<in> traces (Spawn c Done) \<longleftrightarrow>
      (\<exists>r t. r @ Exits # t \<in> traces c \<and> (\<exists>p q. r @ t = p @ q \<and> w = p @ Exits # q))" for w
    unfolding traces_spawn by metis
  then show ?thesis by blast
qed

lemma count_exits: "w \<in> traces s \<Longrightarrow> count_list w Exits = 1"
  using traces_exit [of w s] traces_one_exit [of _ _ s] by auto

lemma count_shuffles: "x \<in> shuffles u v \<Longrightarrow> count_list x e = count_list u e + count_list v e"
  by (induction u v arbitrary: x rule: shuffles.induct) auto

lemma runs_await_two:
  assumes "count_list x Exits = 2"
  shows "runs (Await (Await Done)) 0 x w \<longleftrightarrow> (\<exists>p q r t. x = p @ Exits # q @ Exits # r @ t \<and> w = p @ q @ r @ Exits # t)"
proof -
  have run: "runs (Await (Await Done)) 0 x w \<longleftrightarrow> (\<exists>r t. y = r @ t \<and> w = p @ q @ r @ Exits # t)" if x: "x = p @ Exits # q @ Exits # y" for p q y
  proof -
    have "count_list p Exits + count_list q Exits + count_list y Exits = 0" using assms unfolding x by simp
    then have "Exits \<notin> set p" "Exits \<notin> set q" "Exits \<notin> set y" by (auto simp: count_list_0_iff)
    then show ?thesis unfolding x by (auto simp: runs_await_none runs_done quiet_id)
  qed
  have "Exits \<in> set x" using assms by (intro ccontr [of "Exits \<in> set x"]) simp
  then obtain p x1 where p: "x = p @ Exits # x1" "Exits \<notin> set p" by (auto dest: split_list_first)
  then have "Exits \<in> set x1" using assms by (intro ccontr [of "Exits \<in> set x1"]) simp
  then obtain q y where q: "x1 = q @ Exits # y" by (auto dest: split_list)
  have x: "x = p @ Exits # q @ Exits # y" using p(1) q by simp
  show ?thesis
  proof
    assume "runs (Await (Await Done)) 0 x w"
    then show "\<exists>p q r t. x = p @ Exits # q @ Exits # r @ t \<and> w = p @ q @ r @ Exits # t" using run [OF x] x by blast
  next
    assume "\<exists>p q r t. x = p @ Exits # q @ Exits # r @ t \<and> w = p @ q @ r @ Exits # t"
    then show "runs (Await (Await Done)) 0 x w" using run by blast
  qed
qed

lemma traces_both:
  "traces (Spawn c (Spawn d (Await (Await Done)))) =
     {p @ q @ r @ Exits # t |p q r t u v. u \<in> traces c \<and> v \<in> traces d \<and> p @ Exits # q @ Exits # r @ t \<in> shuffles u v}"
proof -
  let ?two = "\<lambda>x w. \<exists>p q r t. x = p @ Exits # q @ Exits # r @ t \<and> w = p @ q @ r @ Exits # t"
  have two: "runs (Await (Await Done)) 0 x w \<longleftrightarrow> ?two x w" if "u \<in> traces c" "v \<in> traces d" "x \<in> shuffles u v" for x u v w
    using count_shuffles [OF that(3), of Exits] count_exits [OF that(1)] count_exits [OF that(2)] by (intro runs_await_two) simp
  have spawn: "w \<in> traces (Spawn c (Spawn d (Await (Await Done)))) \<longleftrightarrow>
      (\<exists>u v x. (u \<in> traces c \<and> v \<in> traces d \<and> x \<in> shuffles u v) \<and> runs (Await (Await Done)) 0 x w)" for w
    by (auto simp: traces_def runs_spawn)
  have e: "w \<in> traces (Spawn c (Spawn d (Await (Await Done)))) \<longleftrightarrow>
      (\<exists>u v x. (u \<in> traces c \<and> v \<in> traces d \<and> x \<in> shuffles u v) \<and> ?two x w)" for w
    unfolding spawn by (rule iff_exI, rule iff_exI, rule iff_exI, rule conj_cong [OF refl], elim conjE, rule two)
  show ?thesis
  proof (rule set_eqI, unfold e mem_Collect_eq, rule iffI, goal_cases)
    case (1 w)
    then obtain u v p q r t where "u \<in> traces c" "v \<in> traces d" "p @ Exits # q @ Exits # r @ t \<in> shuffles u v" "w = p @ q @ r @ Exits # t"
      by fast
    then show ?case by (intro exI conjI)
  next
    case (2 w)
    then obtain u v p q r t where "u \<in> traces c" "v \<in> traces d" "p @ Exits # q @ Exits # r @ t \<in> shuffles u v" "w = p @ q @ r @ Exits # t"
      by fast
    then show ?case
      by (intro exI [of _ u] exI [of _ v] exI [of _ "p @ Exits # q @ Exits # r @ t"] exI [of _ p] exI [of _ q] exI [of _ r] exI [of _ t] conjI refl)
  qed
qed

lemma happens_exit: "\<exists>p q. p @ Exits # q \<in> happens a"
proof (induction a)
  case Idle
  show ?case by (intro exI [of _ "[]"]) simp
next
  case (Job j)
  show ?case by (intro exI [of _ "[Starts j, Ends j]"] exI [of _ "[]"]) simp
next
  case (Then a b)
  then obtain p q p' q' where a: "p @ Exits # q \<in> happens a" "p' @ Exits # q' \<in> happens b" by blast
  moreover have "q @ p' @ Exits # q' \<in> shuffles q (p' @ Exits # q')" using shuffles_prefix [of "p' @ Exits # q'" "[]" _ q] by simp
  ultimately have "p @ q @ p' @ Exits # q' \<in> happens (Then a b)" by simp blast
  then show ?case by (intro exI [of _ "p @ q @ p'"] exI [of _ q']) simp
next
  case (Both a b)
  then obtain p q p' q' where a: "p @ Exits # q \<in> happens a" "p' @ Exits # q' \<in> happens b" by blast
  moreover have "p @ Exits # (q @ p') @ Exits # [] @ q' \<in> shuffles (p @ Exits # q) (p' @ Exits # q')"
    using shuffles_prefix [of "p' @ Exits # q'" "[]" _ "p @ Exits # q"] by simp
  ultimately have "p @ (q @ p') @ [] @ Exits # q' \<in> happens (Both a b)" unfolding happens.simps by fast
  then show ?case by (intro exI [of _ "p @ q @ p'"] exI [of _ q']) simp
next
  case (Detach a)
  then obtain p q where a: "p @ Exits # q \<in> happens a" by blast
  then have "p @ Exits # q \<in> happens (Detach a)" by auto
  then show ?case by blast
qed

lemma happens_then_idle [simp]: "happens (Then Idle b) = happens b"
  by (auto simp: append_eq_Cons_conv Cons_eq_append_conv)

lemma happens_then_job: "happens (Then (Job j) b) = {Starts j # Ends j # w |w. w \<in> happens b}"
  by (auto simp: append_eq_Cons_conv Cons_eq_append_conv)

end
