(* ===== verification/Runcmd.thy ===== *)
theory Runcmd
  imports Sh Shtrace
begin

text \<open>
  \<^verbatim>\<open>user/sh.c\<close>: running commands. A process of the shell is the tree of the system calls it makes, \<open>prog\<close>, with a branch for each result;
  \<open>runcmd\<close> and the loop of \<open>main\<close> build such trees. What the calls do to the descriptors of a process is stated by \<open>launches\<close>, which gives the
  programs that are started with the descriptors they start with: \<open>open\<close>, \<open>dup\<close> and \<open>pipe\<close> take the lowest free descriptors
  and \<open>fork\<close> copies the table. It leaves a process in which only \<open>fork\<close>, \<open>wait\<close>, \<open>exec\<close> and \<open>exit\<close> remain, whose traces are those
  of \<open>Shtrace\<close>: when each program starts and ends.
\<close>

section \<open>Processes as trees of system calls\<close>

datatype prog =
    Exit int
  | Close int prog
  | Open "u8 list" int "int \<Rightarrow> prog"
  | Dup int "int \<Rightarrow> prog"
  | Pipe_call "(int \<times> int) option \<Rightarrow> prog"
  | Fork "int \<Rightarrow> prog"
  | Wait prog
  | Exec_call "u8 list" "u8 list list" prog
  | Print int "u8 list" prog
  | Chdir_call "u8 list" "int \<Rightarrow> prog"

definition str :: "string \<Rightarrow> u8 list" where
  "str s = map of_char s"

definition sh_panic :: "string \<Rightarrow> prog" where
  "sh_panic s = Print 2 (str s @ [10]) (Exit 1)"

definition fork1 :: "(int \<Rightarrow> prog) \<Rightarrow> prog" where
  "fork1 k = Fork (\<lambda>pid. if pid = -1 then sh_panic ''fork'' else k pid)"

text \<open>\<open>runcmd\<close>, on a command whose strings are in \<open>m\<close>.\<close>

primrec runcmd :: "u8 list \<Rightarrow> cmd \<Rightarrow> prog" where
  "runcmd m (EXEC argv eargv) =
     (case strings m argv of
        [] \<Rightarrow> Exit 1
      | file # args \<Rightarrow> Exec_call file (file # args) (Print 2 (str ''exec '' @ file @ str '' failed'' @ [10]) (Exit 0)))"
| "runcmd m (REDIR c file efile mode fd) =
     Close fd (Open (string_at m file) mode (\<lambda>r.
       if r < 0 then Print 2 (str ''open '' @ string_at m file @ str '' failed'' @ [10]) (Exit 1)
       else runcmd m c))"
| "runcmd m (LIST l r) = fork1 (\<lambda>pid. if pid = 0 then runcmd m l else Wait (runcmd m r))"
| "runcmd m (PIPE l r) =
     Pipe_call (\<lambda>p. case p of
         None \<Rightarrow> sh_panic ''pipe''
       | Some (p0, p1) \<Rightarrow>
           fork1 (\<lambda>pid.
             if pid = 0 then Close 1 (Dup p1 (\<lambda>_. Close p0 (Close p1 (runcmd m l))))
             else fork1 (\<lambda>pid.
               if pid = 0 then Close 0 (Dup p0 (\<lambda>_. Close p0 (Close p1 (runcmd m r))))
               else Close p0 (Close p1 (Wait (Wait (Exit 0)))))))"
| "runcmd m (BACK c) = fork1 (\<lambda>pid. if pid = 0 then runcmd m c else Exit 0)"

section \<open>Descriptors\<close>

datatype fobj = Console | Opened "u8 list" int | Read_end nat | Write_end nat

type_synonym fds = "int \<Rightarrow> fobj option"

text \<open>The lowest free descriptor of \<open>NOFILE\<close>.\<close>

definition lowest :: "fds \<Rightarrow> int option" where
  "lowest f = find (\<lambda>i. f i = None) (map int [0..<16])"

text \<open>The processes that run and the programs they start, with the number of pipes made so far. A program is its arguments and its descriptors. \<open>can\<close> says
  which files can be opened; the other calls fail when the table is full. \<open>fork\<close> is taken to succeed, with pid 1 in the parent, and so are \<open>exec\<close> and
  \<open>chdir\<close>.\<close>

type_synonym job = "u8 list list \<times> fds"

primrec launches :: "(u8 list \<Rightarrow> int \<Rightarrow> bool) \<Rightarrow> prog \<Rightarrow> fds \<Rightarrow> nat \<Rightarrow> job sched \<times> nat" where
  "launches can (Exit n) f k = (Done, k)"
| "launches can (Close i p) f k = launches can p (f(i := None)) k"
| "launches can (Open path mode p) f k =
     (case lowest f of
        Some i \<Rightarrow> if can path mode then launches can (p i) (f(i := Some (Opened path mode))) k else launches can (p (-1)) f k
      | None \<Rightarrow> launches can (p (-1)) f k)"
| "launches can (Dup i p) f k =
     (case lowest f of
        Some j \<Rightarrow> if f i = None then launches can (p (-1)) f k else launches can (p j) (f(j := f i)) k
      | None \<Rightarrow> launches can (p (-1)) f k)"
| "launches can (Pipe_call p) f k =
     (case lowest f of
        None \<Rightarrow> launches can (p None) f k
      | Some i \<Rightarrow>
          let f' = f(i := Some (Read_end k))
          in case lowest f' of
               None \<Rightarrow> launches can (p None) f k
             | Some j \<Rightarrow> launches can (p (Some (i, j))) (f'(j := Some (Write_end k))) (Suc k))"
| "launches can (Fork p) f k =
     (let (c, k) = launches can (p 0) f k; (s, k) = launches can (p 1) f k in (Spawn c s, k))"
| "launches can (Wait p) f k = (let (s, k) = launches can p f k in (Await s, k))"
| "launches can (Exec_call file argv p) f k = (Run (argv, f), k)"
| "launches can (Print i s p) f k = launches can p f k"
| "launches can (Chdir_call path p) f k = launches can (p 0) f k"

text \<open>What a command should do: a redirection replaces one descriptor, a pipe the output of the left and the input of the right, which run at the same time;
  \<open>;\<close> waits for what is before it, \<open>&\<close> does not.\<close>

primrec jobs :: "(u8 list \<Rightarrow> int \<Rightarrow> bool) \<Rightarrow> command \<Rightarrow> fds \<Rightarrow> nat \<Rightarrow> job plan \<times> nat" where
  "jobs can (Exec ws) f k = (if ws = [] then Idle else Job (ws, f), k)"
| "jobs can (Redir c file mode fd) f k =
     (if can file mode then jobs can c (f(fd := Some (Opened file mode))) k else (Idle, k))"
| "jobs can (Pipe l r) f k =
     (let (a, k') = jobs can l (f(1 := Some (Write_end k))) (Suc k);
          (b, k') = jobs can r (f(0 := Some (Read_end k))) k'
      in (Both a b, k'))"
| "jobs can (Seq l r) f k = (let (a, k) = jobs can l f k; (b, k) = jobs can r f k in (Then a b, k))"
| "jobs can (Background c) f k = (let (a, k) = jobs can c f k in (Detach a, k))"

text \<open>A process does what a plan says, with the same pipes.\<close>

definition does :: "job sched \<times> nat \<Rightarrow> job plan \<times> nat \<Rightarrow> bool" where
  "does x y \<longleftrightarrow> traces (fst x) = happens (fst y) \<and> snd x = snd y"

section \<open>Running implements the meaning\<close>

text \<open>Standard input, output and error are open, and two more descriptors are free.\<close>

definition std_open :: "fds \<Rightarrow> bool" where
  "std_open f \<longleftrightarrow> f 0 \<noteq> None \<and> f 1 \<noteq> None \<and> f 2 \<noteq> None \<and>
     (\<exists>i j. lowest f = Some i \<and> lowest (f(i := Some Console)) = Some j)"

lemma upt_16: "map int [0..<16] = [0, 1, 2, 3, 4, 5, 6, 7, 8, 9, 10, 11, 12, 13, 14, 15]"
  by (simp add: upt_rec)

lemma lowest_0: "f 0 = None \<Longrightarrow> lowest f = Some 0"
  by (simp add: lowest_def upt_16)

lemma lowest_1: "f 0 \<noteq> None \<Longrightarrow> f 1 = None \<Longrightarrow> lowest f = Some 1"
  by (simp add: lowest_def upt_16)

lemma lowest_cong: "(\<And>i. f i = None \<longleftrightarrow> g i = None) \<Longrightarrow> lowest f = lowest g"
  by (simp add: lowest_def)

lemma lowest_free: "lowest f = Some i \<Longrightarrow> f i = None"
  by (auto simp: lowest_def find_Some_iff)

lemma std_open_upd: "std_open f \<Longrightarrow> f i \<noteq> None \<Longrightarrow> std_open (f(i := Some x))"
  unfolding std_open_def
  using lowest_cong [of "f(i := Some x)" f] lowest_cong [of "(f(i := Some x))(j := Some Console)" "f(j := Some Console)" for j]
  by (auto simp: fun_upd_def)


lemma launches_fork1 [simp]:
  "launches can (fork1 p) f k = (let (c, k) = launches can (p 0) f k; (s, k) = launches can (p 1) f k in (Spawn c s, k))"
  by (simp add: fork1_def)

text \<open>The ways in which \<open>fork\<close> and \<open>wait\<close> are used.\<close>

lemma does_done [simp]: "does (Done, k) (Idle, k)"
  by (simp add: does_def traces_done)

lemma does_run [simp]: "does (Run j, k) (Job j, k)"
  by (simp add: does_def traces_run)

lemma does_then:
  "does (launches can p f k) (a, k1) \<Longrightarrow> does (launches can q f k1) (b, k2) \<Longrightarrow>
    does (launches can (fork1 (\<lambda>pid. if pid = 0 then p else Wait q)) f k) (Then a b, k2)"
  by (cases "launches can p f k"; cases "launches can q f k1") (clarsimp simp: does_def traces_then)

lemma does_both:
  "does (launches can p f k) (a, k1) \<Longrightarrow> does (launches can q f k1) (b, k2) \<Longrightarrow>
    does (launches can (fork1 (\<lambda>pid. if pid = 0 then p
            else fork1 (\<lambda>pid. if pid = 0 then q else Close i (Close j (Wait (Wait (Exit 0))))))) f k) (Both a b, k2)"
  by (cases "launches can p f k"; cases "launches can q f k1") (clarsimp simp: does_def traces_both)

lemma does_detach:
  "does (launches can p f k) (a, k1) \<Longrightarrow> does (launches can (fork1 (\<lambda>pid. if pid = 0 then p else Exit n)) f k) (Detach a, k1)"
  by (cases "launches can p f k") (clarsimp simp: does_def traces_detach)

text \<open>The two ends of a new pipe, and what is left of them in the children.\<close>

lemma pipe_ends:
  assumes "std_open f"
  obtains i j where "lowest f = Some i" "lowest (f(i := Some (Read_end k))) = Some j" "i \<notin> {0, 1, 2}" "j \<notin> {0, 1, 2}" "i \<noteq> j"
    "f i = None" "f j = None"
proof -
  obtain i j where i: "lowest f = Some i" "lowest (f(i := Some Console)) = Some j" using assms by (auto simp: std_open_def)
  have j: "lowest (f(i := Some (Read_end k))) = Some j"
    using i(2) lowest_cong [of "f(i := Some (Read_end k))" "f(i := Some Console)"] by simp
  have "f i = None" "i \<noteq> j" "f j = None" using lowest_free [OF i(1)] lowest_free [OF j] by (auto split: if_splits)
  moreover have "f 0 \<noteq> None" "f 1 \<noteq> None" "f 2 \<noteq> None" using assms by (auto simp: std_open_def)
  ultimately show thesis by (intro that [OF i(1) j]) auto
qed

lemma runcmd_jobs:
  "valid (denote m c) \<Longrightarrow> std_open f \<Longrightarrow> does (launches can (runcmd m c) f k) (jobs can (denote m c) f k)"
proof (induction c arbitrary: f k)
  case (EXEC argv eargv)
  then show ?case by (auto split: list.splits)
next
  case (REDIR c fn efile mode fd)
  have fd: "fd = 0 \<or> fd = 1" using REDIR.prems(1) by (auto simp: redirections_def)
  have o: "f 0 \<noteq> None" "f 1 \<noteq> None" using REDIR.prems(2) by (auto simp: std_open_def)
  then have low: "lowest (f(fd := None)) = Some fd" using fd lowest_0 [of "f(fd := None)"] lowest_1 [of "f(fd := None)"] by auto
  have "std_open (f(fd := Some x))" for x using std_open_upd [OF REDIR.prems(2)] o fd by auto
  then show ?case using REDIR.IH REDIR.prems(1) low fd by auto
next
  case (PIPE l r)
  obtain i j where p: "lowest f = Some i" "lowest (f(i := Some (Read_end k))) = Some j" "i \<notin> {0, 1, 2}" "j \<notin> {0, 1, 2}" "i \<noteq> j"
    "f i = None" "f j = None" using pipe_ends [OF PIPE.prems(2)] by blast
  let ?f = "f(i := Some (Read_end k), j := Some (Write_end k))"
  have o: "f 0 \<noteq> None" "f 1 \<noteq> None" using PIPE.prems(2) by (auto simp: std_open_def)
  have left: "does (launches can (Close 1 (Dup j (\<lambda>_. Close i (Close j (runcmd m l))))) ?f k') (jobs can (denote m l) (f(1 := Some (Write_end k))) k')" for k'
  proof -
    have "lowest (?f(1 := None)) = Some 1" using o p(3,4) by (intro lowest_1) auto
    moreover have "?f(1 := Some (Write_end k), i := None, j := None) = f(1 := Some (Write_end k))" using p by (auto simp: fun_eq_iff)
    ultimately show ?thesis using PIPE.IH(1) PIPE.prems std_open_upd [OF PIPE.prems(2)] o p(4) by simp
  qed
  have right: "does (launches can (Close 0 (Dup i (\<lambda>_. Close i (Close j (runcmd m r))))) ?f k') (jobs can (denote m r) (f(0 := Some (Read_end k))) k')" for k'
  proof -
    have "lowest (?f(0 := None)) = Some 0" using p(3,4) by (intro lowest_0) auto
    moreover have "?f(0 := Some (Read_end k), i := None, j := None) = f(0 := Some (Read_end k))" using p by (auto simp: fun_eq_iff)
    ultimately show ?thesis using PIPE.IH(2) PIPE.prems std_open_upd [OF PIPE.prems(2)] o p(3,5) by simp
  qed
  obtain a k1 where a: "jobs can (denote m l) (f(1 := Some (Write_end k))) (Suc k) = (a, k1)" by fastforce
  obtain b k2 where b: "jobs can (denote m r) (f(0 := Some (Read_end k))) k1 = (b, k2)" by fastforce
  show ?case using p(1,2) does_both [OF left [of "Suc k", unfolded a] right [of k1, unfolded b], of i j] a b by (simp del: launches_fork1 add: Let_def)
next
  case (LIST l r)
  obtain a k1 where a: "jobs can (denote m l) f k = (a, k1)" by fastforce
  obtain b k2 where b: "jobs can (denote m r) f k1 = (b, k2)" by fastforce
  show ?case using does_then [of can "runcmd m l" f k a k1 "runcmd m r" b k2] LIST.IH(1) [of f k] LIST.IH(2) [of f k1] LIST.prems a b
    by (simp del: launches_fork1)
next
  case (BACK c)
  obtain a k1 where a: "jobs can (denote m c) f k = (a, k1)" by fastforce
  show ?case using BACK does_detach [of can "runcmd m c" f k a k1 0] BACK.IH [of f k] a by (simp del: launches_fork1)
qed

section \<open>The main loop\<close>

text \<open>\<open>getcmd\<close>: prompt, and one line of at most \<open>nbuf - 1\<close> bytes into the cleared buffer; \<open>None\<close> for -1. The string in the buffer ends at the first 0.\<close>

definition getcmd :: "'e reader \<Rightarrow> int \<Rightarrow> 'e \<Rightarrow> u8 list option \<times> 'e" where
  "getcmd rd nbuf e =
     (let (bs, e) = gets rd nbuf e; buf = takeWhile (\<lambda>c. c \<noteq> 0) bs
      in (if buf = [] then None else Some buf, e))"

text \<open>What \<open>main\<close> does with a line, and then \<open>next\<close>. An error of the parser in the child is a \<open>panic\<close>; undefined behaviour does not occur.\<close>

definition run_line :: "u8 list \<Rightarrow> prog \<Rightarrow> prog" where
  "run_line buf nxt =
     (let cmd = dropWhile (\<lambda>c. c = 32 \<or> c = 9) buf
      in if char_at cmd 0 = 10 then nxt
         else if char_at cmd 0 = 99 \<and> char_at cmd 1 = 100 \<and> char_at cmd 2 = 32
         then let dir = drop 3 (butlast cmd)
              in Chdir_call dir (\<lambda>r. if r < 0 then Print 2 (str ''cannot cd '' @ dir @ [10]) nxt else nxt)
         else fork1 (\<lambda>pid.
                if pid = 0
                then case parsecmd cmd of
                       Inl (Panic s) \<Rightarrow> sh_panic s
                     | Inl _ \<Rightarrow> Exit 1
                     | Inr (c, m) \<Rightarrow> runcmd m c
                else Wait nxt))"

text \<open>The loop of \<open>main\<close>, on the lines that \<open>getcmd\<close> returns before -1.\<close>

primrec main_loop :: "u8 list list \<Rightarrow> prog" where
  "main_loop [] = Exit 0"
| "main_loop (buf # lines) = run_line buf (main_loop lines)"

text \<open>At the start \<open>main\<close> opens the console until it gets a descriptor of at least 3, which it closes.\<close>

lemma lowest_range: "lowest f = Some i \<Longrightarrow> i \<in> int ` {0..<16} \<and> f i = None"
  by (auto simp: lowest_def find_Some_iff in_set_conv_nth)

function open_std :: "fds \<Rightarrow> fds" where
  "open_std f =
     (case lowest f of
        None \<Rightarrow> f
      | Some i \<Rightarrow>
          let f' = f(i := Some Console)
          in if i \<ge> 3 then f'(i := None) else open_std f')"
  by pat_completeness auto
termination
proof (relation "measure (\<lambda>f. card {i \<in> int ` {0..<16}. f i = None})")
  fix f :: fds and i f'
  assume "lowest f = Some i" "f' = f(i := Some Console)"
  then have "{j \<in> int ` {0..<16}. f' j = None} \<subset> {j \<in> int ` {0..<16}. f j = None}" using lowest_range [of f i] by auto
  then show "(f', f) \<in> measure (\<lambda>f. card {i \<in> int ` {0..<16}. f i = None})" by (simp add: psubset_card_mono)
qed simp

declare open_std.simps [simp del]

lemma open_std_opens:
  assumes "\<forall>i\<ge>3. f i = None"
  shows "open_std f = (\<lambda>i. if i \<in> {0, 1, 2} \<and> f i = None then Some Console else f i)"
  using assms
  by (cases "f 0"; cases "f 1"; cases "f 2")
    (auto simp: fun_eq_iff open_std.simps [of f] open_std.simps [of "f(x := y)" for x y]
      open_std.simps [of "f(x := y, x' := y')" for x y x' y'] open_std.simps [of "f(x := y, x' := y', x'' := y'')" for x y x' y' x'' y'']
      lowest_def upt_16 Let_def)

lemma std_open_start: "\<forall>i\<ge>3. f i = None \<Longrightarrow> std_open (open_std f)"
  unfolding std_open_def by (simp add: open_std_opens lowest_def upt_16)

text \<open>The last byte of a \<open>cd\<close> line is cut off even when it is not a newline, as at the end of the input: \<open>cd foo\<close> changes to \<open>fo\<close>.\<close>

lemma cd_without_newline:
  "\<exists>k. run_line (str ''cd foo'') nxt = Chdir_call (str ''fo'') k" "\<exists>k. run_line (str ''cd foo'' @ [10]) nxt = Chdir_call (str ''foo'') k"
  by (simp_all add: run_line_def str_def Let_def char_at_def)

section \<open>Property\<close>

text \<open>What a line should do: nothing if it is blank or \<open>cd\<close> or if the parser rejects it, else what its meaning says. Each line waits for the one before.\<close>

definition line_jobs :: "(u8 list \<Rightarrow> int \<Rightarrow> bool) \<Rightarrow> u8 list \<Rightarrow> fds \<Rightarrow> nat \<Rightarrow> job plan \<times> nat" where
  "line_jobs can buf f k =
     (let cmd = dropWhile (\<lambda>c. c = 32 \<or> c = 9) buf
      in if char_at cmd 0 = 10 \<or> take 3 cmd = str ''cd '' then (Idle, k)
         else case parsecmd cmd of Inl _ \<Rightarrow> (Idle, k) | Inr (c, m) \<Rightarrow> jobs can (denote m c) f k)"

primrec script_jobs :: "(u8 list \<Rightarrow> int \<Rightarrow> bool) \<Rightarrow> u8 list list \<Rightarrow> fds \<Rightarrow> nat \<Rightarrow> job plan \<times> nat" where
  "script_jobs can [] f k = (Idle, k)"
| "script_jobs can (buf # lines) f k =
     (let (a, k) = line_jobs can buf f k; (b, k) = script_jobs can lines f k in (Then a b, k))"

lemma cd_iff: "take 3 cmd = str ''cd '' \<longleftrightarrow> char_at cmd 0 = 99 \<and> char_at cmd 1 = 100 \<and> char_at cmd 2 = 32"
  by (cases cmd; cases "tl cmd"; cases "tl (tl cmd)") (auto simp: str_def char_at_def)

lemma does_skip: "does x (b, k) \<Longrightarrow> does x (Then Idle b, k)"
  by (simp add: does_def del: happens.simps(3))

lemma does_run_line:
  assumes "0 \<notin> set buf" "std_open f" "line_jobs can buf f k = (a, k1)" "does (launches can nxt f k1) (b, k2)"
  shows "does (launches can (run_line buf nxt) f k) (Then a b, k2)"
proof -
  let ?cmd = "dropWhile (\<lambda>c. c = 32 \<or> c = 9) buf"
  let ?child = "case parsecmd ?cmd of Inl (Panic s) \<Rightarrow> sh_panic s | Inl _ \<Rightarrow> Exit 1 | Inr (c, m) \<Rightarrow> runcmd m c"
  have z: "0 \<notin> set ?cmd" using assms(1) by (auto dest: set_dropWhileD)
  show ?thesis
  proof (cases "char_at ?cmd 0 = 10 \<or> take 3 ?cmd = str ''cd ''")
    case True
    then have "launches can (run_line buf nxt) f k = launches can nxt f k" "a = Idle" "k1 = k"
      using assms(3) unfolding run_line_def line_jobs_def by (auto simp: Let_def cd_iff)
    then show ?thesis using assms(4) by (simp add: does_skip)
  next
    case False
    then have line: "run_line buf nxt = fork1 (\<lambda>pid. if pid = 0 then ?child else Wait nxt)"
      unfolding run_line_def Let_def cd_iff by (intro if_not_P [THEN trans]) auto
    have "does (launches can (runcmd m c) f k) (a, k1)" if "parsecmd ?cmd = Inr (c, m)" for c m
      using runcmd_jobs [OF parsecmd_valid [OF z that] assms(2), of can k] assms(3) that False by (simp add: line_jobs_def)
    then have "does (launches can ?child f k) (a, k1)"
      using assms(3) False by (cases "parsecmd ?cmd") (auto simp: line_jobs_def sh_panic_def split: error.splits)
    then show ?thesis unfolding line using assms(4) by (rule does_then)
  qed
qed

text \<open>C39: The shell runs its script as it is meant. For every sequence of lines, after it has opened the console, the runs of the shell and its children are
  exactly those that the script means: which programs start, with their arguments and with all of their descriptors, and when. A command after \<open>;\<close> or
  on the next line starts only when the programs before it have ended, except those put in the background with \<open>&\<close>, which is not waited for; the two sides of a pipe run
  at the same time and both are waited for. A redirection replaces exactly the descriptor it names, or stops the command if the file cannot be opened; the
  two sides of a pipe get one end each as output and input, and no other descriptor for a pipe is left open in any program, so that a reader sees the end of its
  input; a line that does not parse starts nothing. The runs are complete ones, in which every program ends; \<open>fork\<close>, \<open>exec\<close> and \<open>chdir\<close> succeed.\<close>

theorem shell_implements_meaning:
  assumes "\<forall>buf\<in>set lines. 0 \<notin> set buf" "\<forall>i\<ge>3. f i = None"
  shows "{w. runs (fst (launches can (main_loop lines) (open_std f) k)) 0 [] w} = happens (fst (script_jobs can lines (open_std f) k)) \<and>
    snd (launches can (main_loop lines) (open_std f) k) = snd (script_jobs can lines (open_std f) k)"
proof -
  have "does (launches can (main_loop lines) (open_std f) k) (script_jobs can lines (open_std f) k)" using assms(1)
  proof (induction lines arbitrary: k)
    case (Cons buf lines)
    obtain a k1 where a: "line_jobs can buf (open_std f) k = (a, k1)" by fastforce
    obtain b k2 where b: "script_jobs can lines (open_std f) k1 = (b, k2)" by fastforce
    have "does (launches can (run_line buf (main_loop lines)) (open_std f) k) (Then a b, k2)"
      using does_run_line [OF _ std_open_start [OF assms(2)] a, of "main_loop lines" b k2] Cons.IH [of k1] Cons.prems b by simp
    then show ?case using a b by simp
  qed simp
  then show ?thesis by (simp add: does_def traces_def)
qed

text \<open>Two scripts of one line. In \<open>( a; b); c\<close> each program starts when the one before has ended. In \<open>( a; b)| c\<close> the first two write to pipe 0, from which the third
  reads while they run.\<close>

definition seq_ex :: command where
  "seq_ex = Seq (Seq (Exec [[97]]) (Exec [[98]])) (Exec [[99]])"

definition pipe_ex :: command where
  "pipe_ex = Pipe (Seq (Exec [[97]]) (Exec [[98]])) (Exec [[99]])"

definition con_ex :: fds where
  "con_ex = open_std (\<lambda>_. None)"

lemma valid_ex: "valid seq_ex" "valid pipe_ex"
  by (simp_all add: pipe_ex_def seq_ex_def MAXARGS_def word_char_def in_str_def whitespace_def symbols_def)

lemma line_jobs_ex:
  "line_jobs can (print seq_ex 0) f 0 = jobs can seq_ex f 0" "line_jobs can (print pipe_ex 0) f 0 = jobs can pipe_ex f 0"
proof -
  obtain c m where c: "parsecmd (print seq_ex 0) = Inr (c, m)" "denote m c = seq_ex" using parsecmd_print [OF valid_ex(1)] by blast
  have t: "print seq_ex 0 = [40, 32, 97, 59, 32, 98, 41, 59, 32, 99]" by (simp add: seq_ex_def)
  show "line_jobs can (print seq_ex 0) f 0 = jobs can seq_ex f 0" using c unfolding t by (simp add: line_jobs_def str_def)
next
  obtain c m where c: "parsecmd (print pipe_ex 0) = Inr (c, m)" "denote m c = pipe_ex" using parsecmd_print [OF valid_ex(2)] by blast
  have t: "print pipe_ex 0 = [40, 32, 97, 59, 32, 98, 41, 124, 32, 99]" by (simp add: pipe_ex_def)
  show "line_jobs can (print pipe_ex 0) f 0 = jobs can pipe_ex f 0" using c unfolding t by (simp add: line_jobs_def str_def)
qed

theorem shell_implements_meaning_witness:
  "{w. runs (fst (launches (\<lambda>_ _. True) (main_loop [print seq_ex 0]) con_ex 0)) 0 [] w} =
      {[Starts ([[97]], con_ex), Ends ([[97]], con_ex), Starts ([[98]], con_ex), Ends ([[98]], con_ex),
        Starts ([[99]], con_ex), Ends ([[99]], con_ex), Exits]} \<and>
    {w. runs (fst (launches (\<lambda>_ _. True) (main_loop [print pipe_ex 0]) con_ex 0)) 0 [] w} =
      happens (Then (Both (Then (Job ([[97]], con_ex(1 := Some (Write_end 0)))) (Job ([[98]], con_ex(1 := Some (Write_end 0)))))
                          (Job ([[99]], con_ex(0 := Some (Read_end 0))))) Idle)"
proof -
  have "happens (Then (Then (Then (Job a) (Job b)) (Job c)) Idle) = {[Starts a, Ends a, Starts b, Ends b, Starts c, Ends c, Exits]}" for a b c :: job
    by (auto simp: append_eq_Cons_conv Cons_eq_append_conv)
  moreover have "fst (script_jobs (\<lambda>_ _. True) [print seq_ex 0] con_ex 0) =
      Then (Then (Then (Job ([[97]], con_ex)) (Job ([[98]], con_ex))) (Job ([[99]], con_ex))) Idle"
    by (simp add: line_jobs_ex) (simp add: seq_ex_def)
  moreover have "fst (script_jobs (\<lambda>_ _. True) [print pipe_ex 0] con_ex 0) =
      Then (Both (Then (Job ([[97]], con_ex(1 := Some (Write_end 0)))) (Job ([[98]], con_ex(1 := Some (Write_end 0)))))
                 (Job ([[99]], con_ex(0 := Some (Read_end 0))))) Idle"
    by (simp add: line_jobs_ex) (simp add: pipe_ex_def)
  ultimately show ?thesis
    using shell_implements_meaning [of "[print seq_ex 0]" "\<lambda>_. None" "\<lambda>_ _. True" 0] print_nonzero [OF valid_ex(1)]
      shell_implements_meaning [of "[print pipe_ex 0]" "\<lambda>_. None" "\<lambda>_ _. True" 0] print_nonzero [OF valid_ex(2)]
    unfolding con_ex_def by (simp del: happens.simps script_jobs.simps main_loop.simps)
qed

end
