(* ===== verification/Umalloc.thy ===== *)
theory Umalloc
  imports Xv6_Prelude
begin

text \<open>
  \<^verbatim>\<open>user/umalloc.c\<close>: the allocator of the user library, a circular list of free blocks in the order of their addresses. Headers are kept by address:
  \<open>hptr\<close> and \<open>hsize\<close> are the two fields of the header at an address; a pointer \<open>p + n\<close> to headers is \<open>hdr_add p n\<close>. \<open>sbrk\<close> is the system call,
  a parameter, with an environment that it may change; \<open>None\<close> is its error. The loops are partial functions; that they end is part of the theorem.
\<close>

section \<open>The allocator\<close>

record uheap =
  hptr :: "u64 \<Rightarrow> u64"
  hsize :: "u64 \<Rightarrow> u32"
  freep :: u64

definition hdr_add :: "u64 \<Rightarrow> u32 \<Rightarrow> u64" where
  "hdr_add p n = p + 16 * ucast n"

partial_function (option) free_loop :: "uheap \<Rightarrow> u64 \<Rightarrow> u64 \<Rightarrow> u64 option" where
  "free_loop h bp p =
     (if bp > p \<and> bp < hptr h p then Some p
      else if p \<ge> hptr h p \<and> (bp > p \<or> bp < hptr h p) then Some p
      else free_loop h bp (hptr h p))"

text \<open>Linking the block at \<open>bp\<close> behind \<open>p\<close>, joined with its neighbours.\<close>

definition link_right :: "u64 \<Rightarrow> u64 \<Rightarrow> uheap \<Rightarrow> uheap" where
  "link_right bp p h =
     (if hdr_add bp (hsize h bp) = hptr h p
      then h\<lparr>hsize := (hsize h)(bp := hsize h bp + hsize h (hptr h p)), hptr := (hptr h)(bp := hptr h (hptr h p))\<rparr>
      else h\<lparr>hptr := (hptr h)(bp := hptr h p)\<rparr>)"

definition link_left :: "u64 \<Rightarrow> u64 \<Rightarrow> uheap \<Rightarrow> uheap" where
  "link_left bp p h =
     (if hdr_add p (hsize h p) = bp
      then h\<lparr>hsize := (hsize h)(p := hsize h p + hsize h bp), hptr := (hptr h)(p := hptr h bp)\<rparr>
      else h\<lparr>hptr := (hptr h)(p := bp)\<rparr>)"

definition free :: "u64 \<Rightarrow> uheap \<Rightarrow> uheap option" where
  "free ap h =
     (let bp = ap - 16
      in case free_loop h bp (freep h) of
           None \<Rightarrow> None
         | Some p \<Rightarrow> Some ((link_left bp p (link_right bp p h))\<lparr>freep := p\<rparr>))"

type_synonym 'e sbrk = "cint \<Rightarrow> 'e \<Rightarrow> u64 option \<times> 'e"

text \<open>\<open>morecore\<close>: the pointer that it returns (0 for failure). The number of bytes is computed in 64 bits and passed as an \<open>int\<close>.\<close>

definition morecore :: "'e sbrk \<Rightarrow> u32 \<Rightarrow> uheap \<Rightarrow> 'e \<Rightarrow> (u64 \<times> uheap \<times> 'e) option" where
  "morecore sbrk nu h e =
     (let nu = (if nu < 4096 then 4096 else nu)
      in case sbrk (ucast (ucast nu * 16 :: u64)) e of
           (None, e) \<Rightarrow> Some (0, h, e)
         | (Some hp, e) \<Rightarrow>
             (case free (hp + 16) (h\<lparr>hsize := (hsize h)(hp := nu)\<rparr>) of
                None \<Rightarrow> None
              | Some h \<Rightarrow> Some (freep h, h, e)))"

text \<open>Taking \<open>n\<close> units from the block at \<open>p\<close>: all of it, or its end.\<close>

definition carve :: "u32 \<Rightarrow> u64 \<Rightarrow> u64 \<Rightarrow> uheap \<Rightarrow> u64 \<times> uheap" where
  "carve n prevp p h =
     (if hsize h p = n then (p, h\<lparr>hptr := (hptr h)(prevp := hptr h p)\<rparr>)
      else let h = h\<lparr>hsize := (hsize h)(p := hsize h p - n)\<rparr>;
               p = hdr_add p (hsize h p)
           in (p, h\<lparr>hsize := (hsize h)(p := n)\<rparr>))"

partial_function (option) malloc_loop :: "'e sbrk \<Rightarrow> u32 \<Rightarrow> u64 \<Rightarrow> u64 \<Rightarrow> uheap \<Rightarrow> 'e \<Rightarrow> (u64 \<times> uheap \<times> 'e) option" where
  "malloc_loop sbrk n prevp p h e =
     (if hsize h p \<ge> n
      then (case carve n prevp p h of (p, h) \<Rightarrow> Some (p + 16, h\<lparr>freep := prevp\<rparr>, e))
      else if p = freep h
      then (case morecore sbrk n h e of
              None \<Rightarrow> None
            | Some (q, h, e) \<Rightarrow>
                if q = 0 then Some (0, h, e) else malloc_loop sbrk n q (hptr h q) h e)
      else malloc_loop sbrk n p (hptr h p) h e)"

definition nunits :: "u32 \<Rightarrow> u32" where
  "nunits nbytes = ucast ((ucast nbytes + 16 - 1) div 16 + 1 :: u64)"

definition init_base :: "u64 \<Rightarrow> uheap \<Rightarrow> uheap" where
  "init_base base h =
     (if freep h = 0
      then h\<lparr>hptr := (hptr h)(base := base), freep := base, hsize := (hsize h)(base := 0)\<rparr>
      else h)"

definition malloc :: "u64 \<Rightarrow> 'e sbrk \<Rightarrow> u32 \<Rightarrow> uheap \<Rightarrow> 'e \<Rightarrow> (u64 \<times> uheap \<times> 'e) option" where
  "malloc base sbrk nbytes h e =
     (let h = init_base base h; prevp = freep h
      in malloc_loop sbrk (nunits nbytes) prevp (hptr h prevp) h e)"

section \<open>The invariant\<close>

text \<open>A block is its address and its size in headers. The heap stays below \<open>LIMIT\<close>, so that sizes fit into 32 bits.\<close>

type_synonym block = "u64 \<times> nat"

definition LIMIT :: nat where "LIMIT = 2 ^ 36"

fun extent :: "block \<Rightarrow> nat set" where
  "extent (a, n) = {unat a ..< unat a + 16 * n}"

definition bytes_of :: "block list \<Rightarrow> nat set" where
  "bytes_of bs = \<Union> (extent ` set bs)"

text \<open>Free blocks in the order of addresses, above \<open>lo\<close>, never adjacent; \<open>above lo bs\<close> is the end of the last.\<close>

fun ordered :: "nat \<Rightarrow> block list \<Rightarrow> bool" where
  "ordered lo [] \<longleftrightarrow> True"
| "ordered lo ((a, n) # bs) \<longleftrightarrow> lo < unat a \<and> 0 < n \<and> ordered (unat a + 16 * n) bs"

fun above :: "nat \<Rightarrow> block list \<Rightarrow> nat" where
  "above lo [] = lo"
| "above lo ((a, n) # bs) = above (unat a + 16 * n) bs"

text \<open>\<open>xs\<close> are the headers that follow \<open>p\<close>.\<close>

fun succs :: "uheap \<Rightarrow> u64 \<Rightarrow> u64 list \<Rightarrow> bool" where
  "succs h p [] \<longleftrightarrow> True"
| "succs h p (x # xs) \<longleftrightarrow> hptr h p = x \<and> succs h x xs"

definition block_ok :: "u64 \<Rightarrow> uheap \<Rightarrow> block \<Rightarrow> bool" where
  "block_ok base h b \<longleftrightarrow> (case b of (a, n) \<Rightarrow> unat base + 16 \<le> unat a \<and> 0 < n \<and> unat a + 16 * n \<le> LIMIT \<and> hsize h a = of_nat n)"

definition disjoint_blocks :: "block list \<Rightarrow> bool" where
  "disjoint_blocks bs \<longleftrightarrow> distinct bs \<and> (\<forall>x\<in>set bs. \<forall>y\<in>set bs. x \<noteq> y \<longrightarrow> extent x \<inter> extent y = {})"

text \<open>\<open>F\<close>: the free blocks; \<open>A\<close>: the blocks that are allocated.\<close>

definition heap_inv :: "u64 \<Rightarrow> uheap \<Rightarrow> block list \<Rightarrow> block list \<Rightarrow> bool" where
  "heap_inv base h F A \<longleftrightarrow>
     base \<noteq> 0 \<and> hsize h base = 0 \<and> freep h \<in> set (base # map fst F) \<and>
     succs h base (map fst F @ [base]) \<and> ordered (unat base + 15) F \<and>
     (\<forall>b\<in>set (F @ A). block_ok base h b) \<and> disjoint_blocks A \<and> bytes_of F \<inter> bytes_of A = {}"

section \<open>Lists in the heap\<close>

lemma succs_append: "succs h p (xs @ ys) \<longleftrightarrow> succs h p xs \<and> succs h (last (p # xs)) ys"
  by (induction xs arbitrary: p) auto

lemma succs_cong: "(\<And>x. x \<in> set (butlast (p # xs)) \<Longrightarrow> hptr h' x = hptr h x) \<Longrightarrow> succs h' p xs = succs h p xs"
  by (induction xs arbitrary: p) auto

lemma succs_map: "succs h p xs \<longleftrightarrow> map (hptr h) (butlast (p # xs)) = xs"
  by (induction xs arbitrary: p) auto

lemma succs_sorted:
  "succs h p xs \<Longrightarrow> sorted_wrt (<) (p # xs) \<Longrightarrow> x \<in> set (butlast (p # xs)) \<Longrightarrow> x < hptr h x \<and> hptr h x \<in> set xs"
  by (induction xs arbitrary: p) (auto split: if_splits)

lemma ordered_append: "ordered lo (L @ R) \<longleftrightarrow> ordered lo L \<and> ordered (above lo L) R"
  by (induction lo L rule: ordered.induct) auto

lemma above_append: "above lo (L @ R) = above (above lo L) R"
  by (induction lo L rule: above.induct) auto

lemma ordered_mono: "ordered lo F \<Longrightarrow> lo' \<le> lo \<Longrightarrow> ordered lo' F"
  by (cases F) auto

lemma ordered_bounds: "ordered lo F \<Longrightarrow> (a, n) \<in> set F \<Longrightarrow> lo < unat a \<and> 0 < n"
proof (induction lo F rule: ordered.induct)
  case (2 lo a' n' F)
  then show ?case by (cases "(a, n) = (a', n')") fastforce+
qed simp

lemma ordered_sorted: "ordered lo F \<Longrightarrow> sorted_wrt (<) (map fst F)"
proof (induction lo F rule: ordered.induct)
  case (2 lo a n F)
  then have "unat a < unat x" if "x \<in> set (map fst F)" for x
    using that ordered_bounds [of "unat a + 16 * n" F] by fastforce
  then show ?case using 2 by (auto simp: word_less_nat_alt)
qed simp

lemma bytes_of_simps [simp]: "bytes_of [] = {}" "bytes_of (b # F) = extent b \<union> bytes_of F" "bytes_of (F @ G) = bytes_of F \<union> bytes_of G"
  by (auto simp: bytes_of_def)

lemma bytes_above: "ordered lo F \<Longrightarrow> j \<in> bytes_of F \<Longrightarrow> lo < j"
  by (induction lo F rule: ordered.induct) auto

lemma above_mono: "ordered lo F \<Longrightarrow> lo \<le> above lo F"
  by (induction lo F rule: ordered.induct) auto

lemma bytes_below: "ordered lo F \<Longrightarrow> j \<in> bytes_of F \<Longrightarrow> j < above lo F"
proof (induction lo F rule: ordered.induct)
  case (2 lo a n F)
  then show ?case using above_mono [of "unat a + 16 * n" F] by auto
qed simp

text \<open>What the invariant says of the list.\<close>

lemma heap_invD:
  assumes "heap_inv base h F A"
  shows "base \<noteq> 0" "hsize h base = 0" "freep h \<in> set (base # map fst F)" "succs h base (map fst F @ [base])"
    "ordered (unat base + 15) F" "\<And>b. b \<in> set F \<Longrightarrow> block_ok base h b" "\<And>b. b \<in> set A \<Longrightarrow> block_ok base h b"
    "disjoint_blocks A" "bytes_of F \<inter> bytes_of A = {}"
  using assms by (auto simp: heap_inv_def)

lemma nodes_sorted:
  assumes "ordered (unat base + 15) F"
  shows "sorted_wrt (<) (base # map fst F)" "distinct (base # map fst F)"
proof -
  have "base < x" if "x \<in> set (map fst F)" for x
    using that ordered_bounds [OF assms] by (fastforce simp: word_less_nat_alt)
  then show s: "sorted_wrt (<) (base # map fst F)" using ordered_sorted [OF assms] by simp
  show "distinct (base # map fst F)" using s strict_sorted_iff [of "base # map fst F"] by simp
qed

lemma extent_mem: "b \<in> set F \<Longrightarrow> extent b \<subseteq> bytes_of F"
  by (auto simp: bytes_of_def)

lemma block_okD:
  assumes "block_ok base h (a, n)"
  shows "unat base + 16 \<le> unat a" "0 < n" "unat a + 16 * n \<le> LIMIT" "n < 2 ^ 32" "hsize h a = of_nat n" "unat (hsize h a) = n"
    "unat (hdr_add a (of_nat n)) = unat a + 16 * n" "unat a \<in> extent (a, n)" "base < a"
proof -
  show 1: "unat base + 16 \<le> unat a" "0 < n" "unat a + 16 * n \<le> LIMIT" "hsize h a = of_nat n"
    using assms by (auto simp: block_ok_def)
  then show n: "n < 2 ^ 32" by (simp add: LIMIT_def)
  then show "unat (hsize h a) = n" using 1(4) by (simp add: unat_of_nat take_bit_eq_mod)
  have "unat (16 * ucast (of_nat n :: u32) :: u64) = 16 * n"
    using n by (simp add: unat_word_ariths unsigned_ucast_eq unat_of_nat take_bit_eq_mod)
  then show "unat (hdr_add a (of_nat n)) = unat a + 16 * n"
    using 1(3) unfolding hdr_add_def by (subst unat_add_no_wrap) (simp_all add: LIMIT_def)
  show "unat a \<in> extent (a, n)" using 1(2) by simp
  show "base < a" using 1(1) by (simp add: word_less_nat_alt)
qed

section \<open>Freeing\<close>

lemma free_loop_forward:
  assumes "succs h p xs" "sorted_wrt (<) (p # xs)" "last (p # xs) < bp"
  shows "free_loop h bp p = free_loop h bp (last (p # xs))"
  using assms
proof (induction xs arbitrary: p)
  case (Cons x xs)
  have "last (x # xs) \<in> set (x # xs)" by (rule last_in_set) simp
  then have "x \<le> last (x # xs)" using Cons.prems(2) by auto
  then have "hptr h p = x" "p < x" "x < bp" using Cons.prems by auto
  then have "free_loop h bp p = free_loop h bp x" by (subst free_loop.simps) auto
  then show ?case using Cons by simp
qed simp

lemma free_loop_wrap:
  assumes "succs h r (rs @ [base])" "sorted_wrt (<) (r # rs)" "bp < r" "base < bp"
  shows "free_loop h bp r = free_loop h bp base"
  using assms
proof (induction rs arbitrary: r)
  case Nil
  then show ?case by (subst free_loop.simps) auto
next
  case (Cons x rs)
  then have "hptr h r = x" "r < x" by auto
  then have "free_loop h bp r = free_loop h bp x" using Cons.prems(3) by (subst free_loop.simps) auto
  then show ?case using Cons by auto
qed

text \<open>The loop finds the block after which \<open>bp\<close> belongs.\<close>

lemma free_loop_finds:
  assumes s: "succs h base (map fst (L @ R) @ [base])" and o: "ordered (unat base + 15) (L @ R)"
    and l: "\<forall>x\<in>set (map fst L). x < bp" and r: "\<forall>x\<in>set (map fst R). bp < x" and b: "base < bp"
    and start: "p \<in> set (base # map fst (L @ R))"
  shows "free_loop h bp p = Some (last (base # map fst L))"
proof -
  let ?p = "last (base # map fst L)"
  have sort: "sorted_wrt (<) (base # map fst L @ map fst R)" using nodes_sorted(1) [OF o] by simp
  have sL: "succs h base (map fst L)" and sR: "succs h ?p (map fst R @ [base])" using s by (auto simp: succs_append)
  have pb: "?p < bp" using l b last_in_set [of "base # map fst L"] by (auto simp del: last.simps)
  have stop: "free_loop h bp ?p = Some ?p"
  proof (cases R)
    case Nil
    then have "hptr h ?p = base" using sR by simp
    moreover have "\<forall>x\<in>set (base # map fst L). base \<le> x" using sort by (auto simp: less_imp_le)
    then have "base \<le> ?p" using last_in_set [of "base # map fst L"] by blast
    ultimately show ?thesis using pb by (subst free_loop.simps) auto
  next
    case (Cons x R')
    then have "hptr h ?p = fst x" "bp < fst x" using sR r by auto
    then show ?thesis using pb by (subst free_loop.simps) auto
  qed
  have from_base: "free_loop h bp base = Some ?p"
    using free_loop_forward [OF sL _ pb] sort stop by (simp add: sorted_wrt_append)
  consider "p = base" | xs ys where "map fst L = xs @ p # ys" | xs ys where "map fst R = xs @ p # ys"
  proof -
    have "p = base \<or> p \<in> set (map fst L) \<or> p \<in> set (map fst R)" using start by auto
    then show thesis using that split_list by metis
  qed
  then show ?thesis
  proof cases
    case 1
    then show ?thesis using from_base by simp
  next
    case (2 xs ys)
    have "succs h p ys" "sorted_wrt (<) (p # ys)" "last (p # ys) = ?p"
      using sL sort unfolding 2 by (auto simp: succs_append sorted_wrt_append)
    then show ?thesis using free_loop_forward [of h p ys bp] pb stop by simp
  next
    case (3 xs ys)
    have "succs h p (ys @ [base])" "sorted_wrt (<) (p # ys)" "bp < p"
      using sR sort r unfolding 3 by (auto simp: succs_append sorted_wrt_append)
    then show ?thesis using free_loop_wrap [of h p ys base bp] b from_base by simp
  qed
qed

text \<open>Linking the block in: between \<open>L\<close> and \<open>R\<close>, joined with its neighbours.\<close>

lemma above_last: "L \<noteq> [] \<Longrightarrow> above lo L = unat (fst (last L)) + 16 * snd (last L)"
  by (induction lo L rule: above.induct) auto

lemma link_right_spec:
  assumes s: "succs h p (map fst R @ [base])" and R: "ordered (unat bp + 16 * n - 1) R" "\<forall>b\<in>set R. block_ok base h b"
    and b: "block_ok base h (bp, n)" and p: "p < bp" and base: "hsize h base = 0"
  shows "\<exists>n' R'. link_right bp p h = h\<lparr>hsize := (hsize h)(bp := of_nat n'), hptr := (hptr h)(bp := hd (map fst R' @ [base]))\<rparr> \<and>
    extent (bp, n') \<union> bytes_of R' = extent (bp, n) \<union> bytes_of R \<and> n \<le> n' \<and> unat bp + 16 * n' \<le> LIMIT \<and>
    ordered (unat bp + 16 * n') R' \<and> set R' \<subseteq> set R \<and> succs h (hd (map fst R' @ [base])) (tl (map fst R' @ [base]))"
proof -
  note bd = block_okD [OF b]
  have q: "hptr h p = hd (map fst R @ [base])" "succs h (hd (map fst R @ [base])) (tl (map fst R @ [base]))"
    using s by (cases R; simp)+
  show ?thesis
  proof (cases "hdr_add bp (hsize h bp) = hptr h p")
    case True
    then have eq: "unat (hptr h p) = unat bp + 16 * n" using bd(5,7) by metis
    obtain q s R' where R': "R = (q, s) # R'"
    proof (cases R)
      case Nil
      then show ?thesis using q(1) eq bd(1,2) by simp
    qed auto
    then have qs: "unat q = unat bp + 16 * n" "block_ok base h (q, s)" using eq q(1) R(2) by auto
    note qd = block_okD [OF qs(2)]
    have hq: "hptr h p = q" using q(1) R' by simp
    have "succs h q (map fst R' @ [base])" using q(2) R' by simp
    then have hq': "hptr h q = hd (map fst R' @ [base])" "succs h (hd (map fst R' @ [base])) (tl (map fst R' @ [base]))"
      by (cases R'; simp)+
    have "hsize h bp + hsize h q = of_nat (n + s)" using bd(5) qd(5) by simp
    then have "link_right bp p h = h\<lparr>hsize := (hsize h)(bp := of_nat (n + s)), hptr := (hptr h)(bp := hd (map fst R' @ [base]))\<rparr>"
      using True hq hq'(1) by (simp add: link_right_def)
    moreover have "extent (bp, n + s) \<union> bytes_of R' = extent (bp, n) \<union> bytes_of R" using R' qs(1) by auto
    moreover have "ordered (unat bp + 16 * (n + s)) R'" using R(1) R' qs(1) by (simp add: algebra_simps)
    moreover have "unat bp + 16 * (n + s) \<le> LIMIT" using qd(3) qs(1) by simp
    ultimately show ?thesis using R' hq'(2) by (intro exI [of _ "n + s"] exI [of _ R']) (simp del: extent.simps, blast)
  next
    case False
    moreover have "(hsize h)(bp := of_nat n) = hsize h" using bd(5) by (intro fun_upd_idem) simp
    ultimately have "link_right bp p h = h\<lparr>hsize := (hsize h)(bp := of_nat n), hptr := (hptr h)(bp := hd (map fst R @ [base]))\<rparr>"
      using q(1) by (simp add: link_right_def)
    moreover have "ordered (unat bp + 16 * n) R"
    proof (cases R)
      case (Cons x R')
      obtain a k where x: "x = (a, k)" by fastforce
      have "a \<noteq> hdr_add bp (of_nat n)" using False q(1) Cons x bd(5) by simp
      then have "unat a \<noteq> unat bp + 16 * n" using bd(7) word_unat_eq_iff by metis
      then show ?thesis using R(1) Cons x bd(2) by auto
    qed simp
    ultimately show ?thesis using q(2) bd(3) by (intro exI [of _ n] exI [of _ R]) simp
  qed
qed

lemma succs_hd: "succs h x (xs @ [y]) \<longleftrightarrow> hptr h x = hd (xs @ [y]) \<and> succs h (hd (xs @ [y])) (tl (xs @ [y]))"
  by (cases xs) auto

lemma succs_tail_cong:
  assumes "\<And>x. x \<in> set (map fst R) \<Longrightarrow> hptr g x = hptr h x"
  shows "succs g (hd (map fst R @ [base])) (tl (map fst R @ [base])) = succs h (hd (map fst R @ [base])) (tl (map fst R @ [base]))"
proof (cases R)
  case (Cons r R')
  then have "butlast (fst r # map fst R' @ [base]) = map fst R" by (simp add: butlast_append)
  then have "succs g (fst r) (map fst R' @ [base]) = succs h (fst r) (map fst R' @ [base])" using assms by (intro succs_cong) metis
  then show ?thesis using Cons by simp
qed simp

lemma last_not_before: "distinct (x # xs) \<Longrightarrow> last (x # xs) \<notin> set (butlast (x # xs))"
  by (metis append_butlast_last_id distinct_butlast list.discI not_distinct_conv_prefix)

lemma succs_before_cong:
  "distinct (x # xs) \<Longrightarrow> (\<And>y. y \<in> set (x # xs) \<Longrightarrow> y \<noteq> last (x # xs) \<Longrightarrow> hptr g y = hptr h y) \<Longrightarrow> succs g x xs = succs h x xs"
  using last_not_before [of x xs] by (intro succs_cong) (metis in_set_butlastD)

lemma disjoint_extents:
  assumes "extent (a, n) \<inter> extent (b, m) = {}" "0 < n" "0 < m" "unat a \<le> unat b"
  shows "unat a + 16 * n \<le> unat b"
proof (rule ccontr)
  assume "\<not> unat a + 16 * n \<le> unat b"
  then have "unat b \<in> extent (a, n) \<inter> extent (b, m)" using assms(3,4) by simp
  then show False using assms(1) by blast
qed

text \<open>Where a block outside of the free list belongs.\<close>

lemma split_free:
  assumes F: "ordered (unat base + 15) F" "\<forall>b\<in>set F. block_ok base h b" and b: "block_ok base h (bp, n)"
    and dis: "extent (bp, n) \<inter> bytes_of F = {}"
  obtains L R where "F = L @ R" "\<forall>x\<in>set (map fst L). x < bp" "\<forall>x\<in>set (map fst R). bp < x"
    "above (unat base + 15) L \<le> unat bp" "ordered (unat bp + 16 * n - 1) R"
proof -
  note bd = block_okD [OF b]
  define L where "L = takeWhile (\<lambda>(a, k). a < bp) F"
  define R where "R = dropWhile (\<lambda>(a, k). a < bp) F"
  have F': "F = L @ R" by (simp add: L_def R_def)
  have d: "extent (bp, n) \<inter> extent (a, k) = {}" if "(a, k) \<in> set F" for a k
    using dis that extent_mem [OF that] by blast
  have l: "\<forall>x\<in>set (map fst L). x < bp" by (auto simp: L_def dest: set_takeWhileD)
  have hdR: "bp < a \<and> unat bp + 16 * n \<le> unat a" if R: "R = (a, k) # R'" for a k R'
  proof -
    have m: "(a, k) \<in> set F" using F' R by simp
    then have k: "block_ok base h (a, k)" using F(2) by blast
    have "\<not> a < bp" using R hd_dropWhile [of "\<lambda>(a, k). a < bp" F] by (auto simp: R_def)
    then have "unat bp \<le> unat a" by (simp add: word_less_nat_alt)
    then have "unat bp + 16 * n \<le> unat a" using disjoint_extents [OF d [OF m]] bd(2) block_okD(2) [OF k] by blast
    then show ?thesis using bd(2) by (simp add: word_less_nat_alt)
  qed
  have oR: "ordered (unat bp + 16 * n - 1) R"
  proof (cases R)
    case (Cons x R')
    obtain a k where x: "x = (a, k)" by fastforce
    have "ordered (above (unat base + 15) L) R" using F(1) F' ordered_append by blast
    then show ?thesis using hdR [of a k R'] Cons x bd(2) by auto
  qed simp
  have "\<forall>x\<in>set (map fst R). bp < x"
  proof (cases R)
    case (Cons x R')
    obtain a k where x: "x = (a, k)" by fastforce
    have "sorted_wrt (<) (map fst R)" using ordered_sorted [OF oR] .
    then show ?thesis using hdR [of a k R'] Cons x by auto
  qed simp
  moreover have "above (unat base + 15) L \<le> unat bp"
  proof (cases L rule: rev_cases)
    case Nil
    then show ?thesis using bd(1) by simp
  next
    case (snoc L' x)
    obtain a k where x: "x = (a, k)" by fastforce
    have m: "(a, k) \<in> set F" "a < bp" using F' snoc x l by auto
    then have "block_ok base h (a, k)" using F(2) by blast
    then have "unat a + 16 * k \<le> unat bp"
      using disjoint_extents [of a k bp n] d [OF m(1)] m(2) bd(2) block_okD(2) by (auto simp: word_less_nat_alt Int_commute)
    then show ?thesis using snoc x by (simp add: above_append)
  qed
  ultimately show thesis using that F' l oR by blast
qed

lemma block_ok_cong: "hsize h' (fst b) = hsize h (fst b) \<Longrightarrow> block_ok base h' b = block_ok base h b"
  by (auto simp: block_ok_def split: prod.splits)

text \<open>A heap that differs from one with the invariant only in the links and sizes of its free blocks.\<close>

lemma heap_invI:
  assumes inv: "heap_inv base h F A"
    and "freep h' \<in> set (base # map fst F')" "succs h' base (map fst F' @ [base])" "ordered (unat base + 15) F'"
    and F': "\<forall>b\<in>set F'. block_ok base h' b" and bytes: "bytes_of F' \<inter> bytes_of A' = {}"
    and A': "\<forall>b\<in>set A'. block_ok base h' b" "disjoint_blocks A'" and base: "hsize h' base = 0"
  shows "heap_inv base h' F' A'"
  using assms heap_invD(1) [OF inv] by (auto simp: heap_inv_def)

lemma alloc_not_free:
  assumes "heap_inv base h F A" "(a, k) \<in> set A"
  shows "a \<notin> set (base # map fst F)"
proof -
  note i = heap_invD [OF assms(1)]
  note ad = block_okD [OF i(7) [OF assms(2)]]
  have "a \<notin> fst ` set F"
  proof
    assume "a \<in> fst ` set F"
    then obtain k' where k': "(a, k') \<in> set F" by auto
    then have "unat a \<in> bytes_of F" using block_okD(8) [OF i(6) [OF k']] extent_mem by blast
    moreover have "unat a \<in> bytes_of A" using ad(8) extent_mem assms(2) by blast
    ultimately show False using i(9) by blast
  qed
  then show ?thesis using ad(9) by auto
qed

lemma alloc_other:
  assumes "disjoint_blocks ((a, k) # A)" "block_ok base h (a, k)" "(c, m) \<in> set A" "block_ok base h (c, m)"
  shows "c \<noteq> a"
proof
  assume "c = a"
  moreover have "extent (a, k) \<inter> extent (c, m) = {}" using assms(1,3) unfolding disjoint_blocks_def by auto
  ultimately show False using block_okD(8) [OF assms(2)] block_okD(8) [OF assms(4)] by auto
qed

lemma disjoint_blocksD: "disjoint_blocks (b # A) \<Longrightarrow> disjoint_blocks A \<and> extent b \<inter> bytes_of A = {}"
  unfolding disjoint_blocks_def bytes_of_def by auto

text \<open>Joining the block with its left neighbour or linking it in behind it.\<close>

lemma link_left_spec:
  assumes L: "succs h base (map fst L)" "ordered (unat base + 15) L" "above (unat base + 15) L \<le> unat bp" "\<forall>b\<in>set L. block_ok base h b"
    "\<forall>x\<in>set (map fst L). x < bp" "hsize h base = 0"
    and R: "hptr h bp = hd (map fst R @ [base])" "succs h (hd (map fst R @ [base])) (tl (map fst R @ [base]))"
      "ordered (unat bp + 16 * n) R" "\<forall>b\<in>set R. block_ok base h b" "\<forall>x\<in>set (map fst R). bp < x"
    and b: "block_ok base h (bp, n)" and p: "p = last (base # map fst L)" and h': "h' = (link_left bp p h)\<lparr>freep := p\<rparr>"
  shows "\<exists>F'. freep h' \<in> set (base # map fst F') \<and> succs h' base (map fst F' @ [base]) \<and> ordered (unat base + 15) F' \<and>
    (\<forall>b\<in>set F'. block_ok base h' b) \<and> bytes_of F' = bytes_of L \<union> extent (bp, n) \<union> bytes_of R \<and> (\<exists>x k. (x, k) \<in> set F' \<and> n \<le> k) \<and>
    hsize h' base = 0 \<and> (\<forall>x. x \<notin> set (map fst L) \<longrightarrow> hsize h' x = hsize h x)"
proof -
  note bd = block_okD [OF b]
  have pL: "p \<in> set (base # map fst L)" using p last_in_set [of "base # map fst L"] by simp
  then have pb: "p < bp" using L(5) bd(9) by auto
  have R': "bp \<notin> set (map fst R)" "p \<notin> set (map fst R)" using R(5) pb by auto
  have baseR: "base \<notin> set (map fst R)" using R(5) bd(9) by fastforce
  have sorted: "sorted_wrt (<) (base # map fst L)" "distinct (base # map fst L)" using nodes_sorted [OF L(2)] by auto
  have tail: "succs g (hd (map fst R @ [base])) (tl (map fst R @ [base]))" if "\<And>x. x \<in> set (map fst R) \<Longrightarrow> hptr g x = hptr h x" for g
    using succs_tail_cong [of R g h base] that R(2) by blast
  show ?thesis
  proof (cases "hdr_add p (hsize h p) = bp")
    case True
    have "p \<noteq> base" using True L(6) pb by (auto simp: hdr_add_def)
    then have "L \<noteq> []" using p by auto
    then obtain L1 x where L1': "L = L1 @ [x]" by (cases L rule: rev_cases) auto
    then obtain sp where L1: "L = L1 @ [(p, sp)]" using p by (cases x) auto
    have pk: "block_ok base h (p, sp)" using L(4) L1 by auto
    note pd = block_okD [OF pk]
    have eq: "unat bp = unat p + 16 * sp" using True pd(5,7) by metis
    have "hsize h p + hsize h bp = of_nat (sp + n)" using pd(5) bd(5) by simp
    then have g: "hptr h' = (hptr h)(p := hd (map fst R @ [base]))" "hsize h' = (hsize h)(p := of_nat (sp + n))" "freep h' = p"
      using True R(1) by (simp_all add: h' link_left_def)
    let ?F = "L1 @ (p, sp + n) # R"
    have nin: "p \<notin> set (base # map fst L1)" using sorted(2) L1 by auto
    have "succs h' base (map fst L1 @ [p])"
    proof -
      have "succs h base (map fst L1 @ [p])" using L(1) L1 by simp
      moreover have "hptr h' x = hptr h x" if "x \<in> set (butlast (base # map fst L1 @ [p]))" for x
        using that nin g(1) by (auto simp: butlast_append split: if_splits)
      ultimately show ?thesis using succs_cong [of base "map fst L1 @ [p]" h' h] by blast
    qed
    moreover have "hptr h' p = hd (map fst R @ [base])" using g(1) by simp
    moreover have "succs h' (hd (map fst R @ [base])) (tl (map fst R @ [base]))" using g(1) R'(2) by (intro tail) auto
    ultimately have "succs h' base ((map fst L1 @ [p]) @ map fst R @ [base])" 
      unfolding succs_append [of h' base "map fst L1 @ [p]"] using succs_hd [of h' p "map fst R" base] by simp
    then have "succs h' base (map fst ?F @ [base])" by simp
    moreover have "ordered (unat base + 15) ?F"
      using L(2) L1 R(3) eq by (auto simp: ordered_append algebra_simps)
    moreover have "\<forall>b\<in>set ?F. block_ok base h' b"
    proof -
      have "block_ok base h' (p, sp + n)" using pd(1) bd(2,3) eq g(2) by (simp add: block_ok_def algebra_simps)
      moreover have "block_ok base h' b" if "b \<in> set L1 \<union> set R" for b
      proof -
        have "fst b \<noteq> p" using that nin R'(2) by force
        then show ?thesis using that L(4) L1 R(4) block_ok_cong [of h' b h] g(2) by auto
      qed
      ultimately show ?thesis by auto
    qed
    moreover have "bytes_of ?F = bytes_of L \<union> extent (bp, n) \<union> bytes_of R" using L1 eq by auto
    moreover have "hsize h' base = 0" using g(2) L(6) \<open>p \<noteq> base\<close> by simp
    moreover have "\<exists>x k. (x, k) \<in> set ?F \<and> n \<le> k" by (intro exI [of _ p] exI [of _ "sp + n"]) simp
    ultimately show ?thesis using g L1 by (intro exI [of _ ?F]) (simp del: extent.simps)
  next
    case False
    have g: "hptr h' = (hptr h)(p := bp)" "hsize h' = hsize h" "freep h' = p" using False by (simp_all add: h' link_left_def)
    let ?F = "L @ (bp, n) # R"
    have "succs h' base (map fst L)" using L(1) succs_before_cong [OF sorted(2), of h' h] g(1) p by simp
    moreover have "hptr h' p = bp" "hptr h' bp = hd (map fst R @ [base])" using g(1) R(1) pb by auto
    moreover have "succs h' (hd (map fst R @ [base])) (tl (map fst R @ [base]))" using g(1) R'(2) by (intro tail) auto
    ultimately have "succs h' base (map fst L @ bp # map fst R @ [base])" using succs_hd [of h' bp "map fst R" base]
      by (simp add: succs_append [of h' base "map fst L"] p [symmetric] del: last.simps)
    then have "succs h' base (map fst ?F @ [base])" by simp
    moreover have "above (unat base + 15) L < unat bp"
    proof (cases L rule: rev_cases)
      case Nil
      then show ?thesis using bd(1) by simp
    next
      case (snoc L1 x)
      then obtain sp where L1: "L = L1 @ [(p, sp)]" using p by (cases x) auto
      note pd = block_okD [of base h p sp]
      have "unat p + 16 * sp \<noteq> unat bp" using False pd(5,7) L(4) L1 word_unat_eq_iff by (metis in_set_conv_decomp)
      then show ?thesis using L(3) L1 by (simp add: above_append)
    qed
    then have "ordered (unat base + 15) ?F" using L(2) R(3) bd(2) by (simp add: ordered_append)
    moreover have "\<forall>b\<in>set ?F. block_ok base h' b" using L(4) R(4) b block_ok_cong [of h' _ h] g(2) by auto
    moreover have "bytes_of ?F = bytes_of L \<union> extent (bp, n) \<union> bytes_of R" by auto
    ultimately show ?thesis using g L(6) pL by (intro exI [of _ ?F]) auto
  qed
qed

lemma free_spec:
  assumes inv: "heap_inv base h F ((bp, n) # A)"
  shows "\<exists>h' F'. free (bp + 16) h = Some h' \<and> heap_inv base h' F' A \<and> bytes_of F' = bytes_of F \<union> extent (bp, n) \<and>
    (\<exists>x k. (x, k) \<in> set F' \<and> n \<le> k)"
proof -
  note i = heap_invD [OF inv]
  have b: "block_ok base h (bp, n)" using i(7) by simp
  note bd = block_okD [OF b]
  have dis: "extent (bp, n) \<inter> bytes_of F = {}" using i(9) by auto
  obtain L R where LR: "F = L @ R" "\<forall>x\<in>set (map fst L). x < bp" "\<forall>x\<in>set (map fst R). bp < x"
    "above (unat base + 15) L \<le> unat bp" "ordered (unat bp + 16 * n - 1) R"
    using split_free [OF i(5) _ b dis] i(6) by blast
  define p where "p = last (base # map fst L)"
  have sL: "succs h base (map fst L)" and sR: "succs h p (map fst R @ [base])"
    using i(4) unfolding p_def LR(1) by (auto simp: succs_append simp del: last.simps)
  have p: "p < bp" using LR(2) bd(9) last_in_set [of "base # map fst L"] by (auto simp: p_def simp del: last.simps)
  have loop: "free_loop h bp (freep h) = Some p"
    unfolding p_def using i(3,4,5) LR(1) by (intro free_loop_finds [OF _ _ LR(2,3) bd(9)]) auto
  obtain n' R' where r: "link_right bp p h = h\<lparr>hsize := (hsize h)(bp := of_nat n'), hptr := (hptr h)(bp := hd (map fst R' @ [base]))\<rparr>"
    "extent (bp, n') \<union> bytes_of R' = extent (bp, n) \<union> bytes_of R" "n \<le> n'" "unat bp + 16 * n' \<le> LIMIT"
    "ordered (unat bp + 16 * n') R'" "set R' \<subseteq> set R" "succs h (hd (map fst R' @ [base])) (tl (map fst R' @ [base]))"
    using link_right_spec [OF sR LR(5) _ b p i(2)] i(6) LR(1) by auto
  define h1 where "h1 = link_right bp p h"
  have h1: "hptr h1 = (hptr h)(bp := hd (map fst R' @ [base]))" "hsize h1 = (hsize h)(bp := of_nat n')" by (simp_all add: h1_def r(1))
  have notbp: "fst c \<noteq> bp" if "c \<in> set L \<union> set R" for c using that LR(2,3) by fastforce
  have R': "\<forall>x\<in>set (map fst R'). bp < x" using LR(3) r(6) by auto
  have ok1: "block_ok base h1 c" if "c \<in> set L \<union> set R'" for c
  proof -
    have c: "c \<in> set L \<union> set R" using that r(6) by blast
    then have "block_ok base h c" using i(6) [of c] LR(1) by simp
    then show ?thesis using notbp [OF c] h1(2) block_ok_cong [of h1 c h] by simp
  qed
  have okb: "block_ok base h1 (bp, n')" using bd(1,2) r(3,4) h1(2) by (simp add: block_ok_def)
  have sL1: "succs h1 base (map fst L)"
  proof -
    have "hptr h1 x = hptr h x" if "x \<in> set (butlast (base # map fst L))" for x
      using that in_set_butlastD [OF that] LR(2) bd(9) h1(1) by auto
    then show ?thesis using sL succs_cong [of base "map fst L" h1 h] by blast
  qed
  have sR1: "succs h1 (hd (map fst R' @ [base])) (tl (map fst R' @ [base]))"
    using r(7) R' h1(1) by (subst succs_tail_cong [of R' h1 h]) auto
  define h' where "h' = (link_left bp p h1)\<lparr>freep := p\<rparr>"
  have oL: "ordered (unat base + 15) L" using i(5) LR(1) ordered_append by blast
  have pre: "\<forall>b\<in>set L. block_ok base h1 b" "\<forall>b\<in>set R'. block_ok base h1 b" "hsize h1 base = 0" "hptr h1 bp = hd (map fst R' @ [base])"
    using ok1 h1 i(2) bd(9) by auto
  obtain F' where F': "freep h' \<in> set (base # map fst F')" "succs h' base (map fst F' @ [base])" "ordered (unat base + 15) F'"
    "\<forall>b\<in>set F'. block_ok base h' b" "bytes_of F' = bytes_of L \<union> extent (bp, n') \<union> bytes_of R'" "\<exists>x k. (x, k) \<in> set F' \<and> n' \<le> k"
    "hsize h' base = 0" "\<And>x. x \<notin> set (map fst L) \<Longrightarrow> hsize h' x = hsize h1 x"
    using link_left_spec [OF sL1 oL LR(4) pre(1) LR(2) pre(3,4) sR1 r(5) pre(2) R' okb p_def h'_def] by blast
  have bytes: "bytes_of F' = bytes_of F \<union> extent (bp, n)" using F'(5) r(2) LR(1) by auto
  note dA = disjoint_blocksD [OF i(8)]
  have okA: "block_ok base h' c" if c: "c \<in> set A" for c
  proof -
    obtain a k where ak: "c = (a, k)" by fastforce
    have "block_ok base h c" using i(7) c by simp
    then have "a \<noteq> bp" using alloc_other [OF i(8) b] c ak by blast
    moreover have "a \<notin> set (map fst L)" using alloc_not_free [OF inv, of a k] c ak LR(1) by auto
    ultimately have "hsize h' a = hsize h a" using F'(8) h1(2) by simp
    then show ?thesis using block_ok_cong [of h' c h] ak \<open>block_ok base h c\<close> by simp
  qed
  have "bytes_of F' \<inter> bytes_of A = {}" using bytes i(9) dA by auto
  then have "heap_inv base h' F' A" using F'(1-4,7) okA dA by (intro heap_invI [OF inv]) auto
  moreover have "free (bp + 16) h = Some h'" using loop by (simp add: free_def h1_def h'_def)
  moreover have "\<exists>x k. (x, k) \<in> set F' \<and> n \<le> k" using F'(6) r(3) by (meson le_trans)
  ultimately show ?thesis using bytes by blast
qed

section \<open>Allocating\<close>

lemma succ_unique:
  assumes "heap_inv base h F A" "x \<in> set (base # map fst F)" "y \<in> set (base # map fst F)" "hptr h x = hptr h y"
  shows "x = y"
proof -
  note i = heap_invD [OF assms(1)]
  have "map (hptr h) (base # map fst F) = map fst F @ [base]" using i(4) by (simp add: succs_map butlast_append)
  moreover have "distinct (map fst F @ [base])" using nodes_sorted(2) [OF i(5)] by simp
  ultimately have "inj_on (hptr h) (set (base # map fst F))" using distinct_map by metis
  then show ?thesis using assms(2-4) inj_onD by metis
qed

text \<open>The order in which \<open>malloc\<close> visits the blocks.\<close>

lemma visits:
  assumes "heap_inv base h F A"
  obtains V where "succs h (freep h) V" "V \<noteq> []" "distinct V" "set V = set (base # map fst F)" "last V = freep h"
proof -
  note i = heap_invD [OF assms]
  have d: "distinct (base # map fst F)" using nodes_sorted(2) [OF i(5)] .
  show thesis
  proof (cases "freep h = base")
    case True
    then show thesis using that [of "map fst F @ [base]"] i(4) d by auto
  next
    case False
    then obtain xs ys where x: "map fst F = xs @ freep h # ys" using i(3) split_list [of "freep h" "map fst F"] by auto
    have "succs h (freep h) (ys @ [base])" "succs h base (xs @ [freep h])"
      using i(4) unfolding x by (auto simp: succs_append)
    then have "succs h (freep h) (ys @ base # xs @ [freep h])" by (auto simp: succs_append)
    moreover have "distinct (ys @ base # xs @ [freep h])" using d unfolding x by auto
    ultimately show thesis using that [of "ys @ base # xs @ [freep h]"] x by auto
  qed
qed

text \<open>The rest of a turn of the loop: taking the block, or asking for memory.\<close>

definition take_block :: "u32 \<Rightarrow> u64 \<Rightarrow> u64 \<Rightarrow> uheap \<Rightarrow> 'e \<Rightarrow> (u64 \<times> uheap \<times> 'e) option" where
  "take_block n prevp p h e = (case carve n prevp p h of (p, h) \<Rightarrow> Some (p + 16, h\<lparr>freep := prevp\<rparr>, e))"

definition grow :: "'e sbrk \<Rightarrow> u32 \<Rightarrow> uheap \<Rightarrow> 'e \<Rightarrow> (u64 \<times> uheap \<times> 'e) option" where
  "grow sbrk n h e =
     (case morecore sbrk n h e of
        None \<Rightarrow> None
      | Some (q, h, e) \<Rightarrow> if q = 0 then Some (0, h, e) else malloc_loop sbrk n q (hptr h q) h e)"

lemma malloc_loop_step:
  "malloc_loop sbrk n prevp p h e =
     (if n \<le> hsize h p then take_block n prevp p h e else if p = freep h then grow sbrk n h e else malloc_loop sbrk n p (hptr h p) h e)"
  by (subst malloc_loop.simps) (simp add: take_block_def grow_def)

lemma malloc_scan:
  assumes "succs h p V" "V \<noteq> []" "distinct V" "last V = freep h"
  shows "(\<exists>prevp x. prevp \<in> set (p # V) \<and> x \<in> set V \<and> hptr h prevp = x \<and> n \<le> hsize h x \<and>
      malloc_loop sbrk n p (hd V) h e = take_block n prevp x h e) \<or>
    (\<forall>x\<in>set V. \<not> n \<le> hsize h x) \<and> malloc_loop sbrk n p (hd V) h e = grow sbrk n h e"
  using assms
proof (induction V arbitrary: p)
  case (Cons x V)
  note step = malloc_loop_step [of sbrk n p x h e]
  consider "n \<le> hsize h x" | "\<not> n \<le> hsize h x" "V = []" | "\<not> n \<le> hsize h x" "V \<noteq> []" by blast
  then show ?case
  proof cases
    case 1
    then show ?thesis using step Cons.prems(1) by (intro disjI1 exI [of _ p] exI [of _ x]) simp
  next
    case 2
    then show ?thesis using step Cons.prems(4) by simp
  next
    case 3
    have "x \<noteq> freep h" using Cons.prems(3,4) 3(2) last_in_set [OF 3(2)] by auto
    moreover have "hptr h x = hd V" using Cons.prems(1) 3(2) by (cases V) auto
    ultimately have eq: "malloc_loop sbrk n p x h e = malloc_loop sbrk n x (hd V) h e" using 3(1) step by simp
    have "(\<exists>prevp y. prevp \<in> set (x # V) \<and> y \<in> set V \<and> hptr h prevp = y \<and> n \<le> hsize h y \<and>
        malloc_loop sbrk n x (hd V) h e = take_block n prevp y h e) \<or>
      (\<forall>y\<in>set V. \<not> n \<le> hsize h y) \<and> malloc_loop sbrk n x (hd V) h e = grow sbrk n h e"
      using Cons.prems 3(2) by (intro Cons.IH) auto
    then show ?thesis unfolding list.sel eq using 3(1) by auto
  qed
qed simp

text \<open>Taking \<open>k\<close> units from a free block.\<close>

lemma take_block_spec:
  assumes inv: "heap_inv base h F A" and x: "(x, m) \<in> set F" "hptr h prevp = x" "prevp \<in> set (base # map fst F)"
    and k: "0 < k" "k \<le> m"
  shows "\<exists>h' F' y. take_block (of_nat k) prevp x h e = Some (y + 16, h', e) \<and> heap_inv base h' F' ((y, k) # A) \<and>
    bytes_of F = bytes_of F' \<union> extent (y, k) \<and> y \<noteq> 0"
proof -
  note i = heap_invD [OF inv]
  note xd = block_okD [OF i(6) [OF x(1)]]
  obtain L R where F: "F = L @ (x, m) # R" using split_list [OF x(1)] by blast
  have sL: "succs h base (map fst L)" and lx: "hptr h (last (base # map fst L)) = x" and sR: "succs h x (map fst R @ [base])"
    using i(4) unfolding F by (auto simp: succs_append simp del: last.simps)
  have "last (base # map fst L) \<in> set (base # map fst F)" using last_in_set [of "base # map fst L"] F by (auto simp del: last.simps)
  then have pv: "prevp = last (base # map fst L)" using succ_unique [OF inv x(3)] x(2) lx by metis
  have dF: "distinct (base # map fst F)" using nodes_sorted(2) [OF i(5)] .
  have oF: "ordered (unat base + 15) L" "above (unat base + 15) L < unat x" "ordered (unat x + 16 * m) R"
    using i(5) by (auto simp: F ordered_append)
  have dA: "extent b \<inter> extent (x, m) = {}" if "b \<in> set A" for b
    using i(9) extent_mem [OF x(1)] extent_mem [OF that] by blast
  have sep: "bytes_of (L @ R) \<inter> extent (x, m) = {}"
  proof -
    have "j < unat x" if "j \<in> bytes_of L" for j using bytes_below [OF oF(1) that] oF(2) by simp
    moreover have "unat x + 16 * m < j" if "j \<in> bytes_of R" for j using bytes_above [OF oF(3) that] .
    ultimately show ?thesis by fastforce
  qed
  have newA: "disjoint_blocks ((y, k) # A)" if "extent (y, k) \<subseteq> extent (x, m)" for y
  proof -
    have ne: "unat y \<in> extent (y, k)" using k(1) by simp
    have "extent b \<inter> extent (y, k) = {}" if "b \<in> set A" for b using dA [OF that] \<open>extent (y, k) \<subseteq> extent (x, m)\<close> by blast
    moreover from this have "(y, k) \<notin> set A" using ne by blast
    ultimately show ?thesis using i(8) unfolding disjoint_blocks_def by (auto simp del: extent.simps simp: Int_commute)
  qed
  show ?thesis
  proof (cases "m = k")
    case True
    define h' where "h' = h\<lparr>hptr := (hptr h)(prevp := hptr h x), freep := prevp\<rparr>"
    have t: "take_block (of_nat k) prevp x h e = Some (x + 16, h', e)"
      using True xd(5) by (simp add: take_block_def carve_def h'_def)
    let ?F = "L @ R"
    have "distinct (base # map fst L)" using dF F by simp
    then have "succs h' base (map fst L)" using sL succs_before_cong [of base "map fst L" h' h] pv by (auto simp: h'_def simp del: last.simps)
    moreover have "succs h' prevp (map fst R @ [base])"
    proof -
      have "set (base # map fst L) \<inter> set (map fst R) = {}" using dF F by auto
      then have "prevp \<notin> set (map fst R)" using pv last_in_set [of "base # map fst L"] by blast
      then have "succs h' (hd (map fst R @ [base])) (tl (map fst R @ [base]))"
        using sR succs_hd [of h x "map fst R" base] by (subst succs_tail_cong [of R h' h]) (auto simp: h'_def)
      moreover have "hptr h' prevp = hd (map fst R @ [base])" using sR succs_hd [of h x "map fst R" base] by (simp add: h'_def)
      ultimately show ?thesis using succs_hd by blast
    qed
    ultimately have "succs h' base (map fst ?F @ [base])" unfolding pv by (simp add: succs_append del: last.simps)
    moreover have "freep h' \<in> set (base # map fst ?F)" using pv last_in_set [of "base # map fst L"] by (auto simp: h'_def simp del: last.simps)
    moreover have "ordered (unat base + 15) ?F"
      using oF ordered_mono [OF oF(3), of "above (unat base + 15) L"] by (simp add: ordered_append)
    moreover have ok: "block_ok base h' b = block_ok base h b" for b by (rule block_ok_cong) (simp add: h'_def)
    moreover have bytes: "bytes_of F = bytes_of ?F \<union> extent (x, k)" using F True by auto
    moreover have "bytes_of ?F \<inter> bytes_of ((x, k) # A) = {}" using sep bytes i(9) True by auto
    ultimately have "heap_inv base h' ?F ((x, k) # A)"
      using i(2,6,7) F True newA [of x] by (intro heap_invI [OF inv]) (auto simp: h'_def)
    then show ?thesis using t bytes xd(9) by (intro exI [of _ h'] exI [of _ ?F] exI [of _ x]) auto
  next
    case False
    then have km: "k < m" using k(2) by simp
    define y where "y = hdr_add x (of_nat (m - k))"
    define h' where "h' = h\<lparr>hsize := (hsize h)(x := of_nat (m - k), y := of_nat k), freep := prevp\<rparr>"
    have uy: "unat y = unat x + 16 * (m - k)"
    proof -
      have "block_ok base (h\<lparr>hsize := (hsize h)(x := of_nat (m - k))\<rparr>) (x, m - k)" using xd(1,3) km by (simp add: block_ok_def)
      from block_okD(7) [OF this] show ?thesis by (simp add: y_def)
    qed
    have sub: "hsize h x - of_nat k = of_nat (m - k)" using xd(5) k(2) by (simp add: of_nat_diff)
    have "unat (of_nat k :: u32) = k" using km xd(4) by (simp add: unat_of_nat take_bit_eq_mod)
    then have "hsize h x \<noteq> of_nat k" using xd(6) km by auto
    then have t: "take_block (of_nat k) prevp x h e = Some (y + 16, h', e)"
      using sub by (simp add: take_block_def carve_def h'_def y_def Let_def)
    let ?F = "L @ (x, m - k) # R"
    have ext: "extent (x, m) = extent (x, m - k) \<union> extent (y, k)" "extent (x, m - k) \<inter> extent (y, k) = {}"
      using uy km by auto
    have yx: "unat y \<in> extent (x, m)" "y \<noteq> x" "base < y" using uy km k(1) xd(1) by (auto simp: word_less_nat_alt)
    have yin: "fst b \<noteq> y" if "b \<in> set L \<union> set R \<union> set A" for b
    proof -
      have "block_ok base h b" using that i(6) [of b] i(7) [of b] F by auto
      then have "unat (fst b) \<in> extent b" using block_okD(8) by (metis prod.collapse)
      moreover have "extent b \<inter> extent (x, m) = {}" using that sep dA [of b] extent_mem [of b "L @ R"] by (auto simp del: extent.simps)
      ultimately show ?thesis using yx(1) by blast
    qed
    have bytes: "bytes_of F = bytes_of ?F \<union> extent (y, k)" using F ext(1) by (auto simp del: extent.simps)
    have sF: "succs h' base (map fst ?F @ [base])"
      using i(4) F succs_cong [of base "map fst ?F @ [base]" h' h] by (simp add: h'_def)
    have ok: "block_ok base h' b" if "b \<in> set L \<union> set R \<union> set A" for b
    proof -
      have "block_ok base h b" using that i(6) [of b] i(7) [of b] F by auto
      moreover have "fst b \<noteq> x"
        using that dF F alloc_not_free [OF inv, of "fst b" "snd b"] by force
      ultimately show ?thesis using yin [OF that] block_ok_cong [of h' b h] by (simp add: h'_def)
    qed
    moreover have "block_ok base h' (x, m - k)" "block_ok base h' (y, k)"
      using xd(1,3) km k(1) yx(2) uy by (auto simp: block_ok_def h'_def)
    moreover have "ordered (unat base + 15) ?F"
      using oF km ordered_mono [OF oF(3), of "unat x + 16 * (m - k)"] by (simp add: ordered_append)
    moreover have "freep h' \<in> set (base # map fst ?F)" using x(3) F by (simp add: h'_def)
    moreover have "bytes_of ?F \<inter> bytes_of ((y, k) # A) = {}" using sep ext bytes i(9) by (auto simp del: extent.simps)
    moreover have "disjoint_blocks ((y, k) # A)" using newA ext(1) by blast
    moreover have "hsize h' base = 0" using i(2) xd(9) yx(3) by (auto simp: h'_def)
    ultimately have "heap_inv base h' ?F ((y, k) # A)" using sF by (intro heap_invI [OF inv]) auto
    then show ?thesis using t bytes yx(3) by (intro exI [of _ h'] exI [of _ ?F] exI [of _ y]) auto
  qed
qed

text \<open>What \<open>sbrk\<close> promises: with a positive argument it moves the break up by that much, within the address space, and returns the old one, or fails.\<close>

definition sbrk_ok :: "'e sbrk \<Rightarrow> ('e \<Rightarrow> nat) \<Rightarrow> bool" where
  "sbrk_ok sbrk brk \<longleftrightarrow> (\<forall>n e. 0 < sint n \<longrightarrow>
     (case sbrk n e of
        (None, e') \<Rightarrow> brk e' = brk e
      | (Some p, e') \<Rightarrow> unat p = brk e \<and> brk e' = brk e + nat (sint n) \<and> brk e' \<le> LIMIT))"

lemma sbrk_okD:
  assumes "sbrk_ok sbrk brk" "0 < sint n" "sbrk n e = (r, e')"
  shows "r = None \<Longrightarrow> brk e' = brk e"
    "r = Some p \<Longrightarrow> unat p = brk e \<and> brk e' = brk e + nat (sint n) \<and> brk e' \<le> LIMIT"
  using assms(1) [unfolded sbrk_ok_def, rule_format, OF assms(2), of e] assms(3) by auto

text \<open>The heap lies below the break.\<close>

definition heap_at :: "u64 \<Rightarrow> ('e \<Rightarrow> nat) \<Rightarrow> uheap \<Rightarrow> 'e \<Rightarrow> block list \<Rightarrow> block list \<Rightarrow> bool" where
  "heap_at base brk h e F A \<longleftrightarrow> heap_inv base h F A \<and> unat base + 16 \<le> brk e \<and> bytes_of F \<union> bytes_of A \<subseteq> {..< brk e}"

lemma morecore_spec:
  assumes at: "heap_at base brk h e F A" and sb: "sbrk_ok sbrk brk" and k: "0 < k" "k < 2 ^ 27"
  shows "\<exists>q h' e'. morecore sbrk (of_nat k) h e = Some (q, h', e') \<and> brk e \<le> brk e' \<and>
    (q = 0 \<and> h' = h \<and> heap_at base brk h e' F A \<or>
     q \<noteq> 0 \<and> q = freep h' \<and> (\<exists>F'. heap_at base brk h' e' F' A \<and> bytes_of F \<subseteq> bytes_of F' \<and> (\<exists>x m. (x, m) \<in> set F' \<and> k \<le> m)))"
proof -
  have inv: "heap_inv base h F A" and below: "unat base + 16 \<le> brk e" "bytes_of F \<union> bytes_of A \<subseteq> {..< brk e}" using at by (auto simp: heap_at_def)
  note i = heap_invD [OF inv]
  define nu where "nu = max k 4096"
  have nu: "k \<le> nu" "0 < nu" "nu < 2 ^ 27" using k by (auto simp: nu_def)
  have uk: "unat (of_nat k :: u32) = k" "unat (of_nat nu :: u32) = nu" using k nu by (simp_all add: unat_of_nat take_bit_eq_mod)
  have cond: "(if (of_nat k :: u32) < 4096 then 4096 else of_nat k) = (of_nat nu :: u32)"
    using uk(1) by (auto simp: nu_def word_less_nat_alt max_def)
  define c where "c = (ucast (ucast (of_nat nu :: u32) * 16 :: u64) :: cint)"
  have uc: "unat c = 16 * nu"
    using nu(3) by (simp add: c_def unsigned_ucast_eq unat_word_ariths unat_of_nat take_bit_eq_mod)
  have sc: "sint c = int (16 * nu)"
  proof -
    have "uint c = int (16 * nu)" using uc by (metis uint_nat)
    moreover have "sint c = signed_take_bit 31 (uint c)" by (simp add: sint_uint)
    ultimately show ?thesis using nu(3) by (simp add: signed_take_bit_int_eq_self)
  qed
  have pos: "0 < sint c" using sc nu(2) by simp
  obtain r e' where r: "sbrk c e = (r, e')" by fastforce
  show ?thesis
  proof (cases r)
    case None
    then have "morecore sbrk (of_nat k) h e = Some (0, h, e')" using r cond by (simp add: morecore_def Let_def c_def)
    moreover have "brk e' = brk e" using sbrk_okD(1) [OF sb pos r None] .
    ultimately show ?thesis using at by (auto simp: heap_at_def)
  next
    case (Some hp)
    then have hp: "unat hp = brk e" "brk e' = brk e + 16 * nu" "brk e' \<le> LIMIT"
      using sbrk_okD(2) [OF sb pos r Some] sc by auto
    define h0 where "h0 = h\<lparr>hsize := (hsize h)(hp := of_nat nu)\<rparr>"
    have other: "a \<noteq> hp" if "(a, m) \<in> set (F @ A)" for a m
    proof -
      have "block_ok base h (a, m)" using that i(6,7) by auto
      then have "unat a \<in> bytes_of F \<union> bytes_of A" using that block_okD(8) extent_mem by fastforce
      then show ?thesis using below(2) hp(1) by auto
    qed
    have same: "block_ok base h0 b = block_ok base h b" if "b \<in> set (F @ A)" for b
      using other [of "fst b" "snd b"] that by (intro block_ok_cong) (simp add: h0_def)
    have new: "extent (hp, nu) \<inter> (bytes_of F \<union> bytes_of A) = {}" using below(2) hp(1) by fastforce
    have nu_ok: "block_ok base h0 (hp, nu)" using hp below(1) nu(2) by (simp add: block_ok_def h0_def)
    have "heap_inv base h0 F ((hp, nu) # A)"
    proof (rule heap_invI [OF inv])
      show "freep h0 \<in> set (base # map fst F)" "ordered (unat base + 15) F" using i(3,5) by (auto simp: h0_def)
      show "succs h0 base (map fst F @ [base])" using i(4) succs_cong [of base _ h0 h] by (simp add: h0_def)
      show "\<forall>b\<in>set F. block_ok base h0 b" "\<forall>b\<in>set ((hp, nu) # A). block_ok base h0 b"
        using same nu_ok i(6,7) by auto
      show "bytes_of F \<inter> bytes_of ((hp, nu) # A) = {}" using new i(9) by (auto simp del: extent.simps)
      show "disjoint_blocks ((hp, nu) # A)"
      proof -
        have "extent b \<inter> extent (hp, nu) = {}" if "b \<in> set A" for b using new extent_mem [OF that] by blast
        moreover have "(hp, nu) \<notin> set A" using other by auto
        ultimately show ?thesis using i(8) unfolding disjoint_blocks_def by (auto simp del: extent.simps simp: Int_commute)
      qed
      show "hsize h0 base = 0" using i(2) below(1) hp(1) by (auto simp: h0_def)
    qed
    from free_spec [OF this] obtain h' F' x m where f: "free (hp + 16) h0 = Some h'" "heap_inv base h' F' A"
      "bytes_of F' = bytes_of F \<union> extent (hp, nu)" "(x, m) \<in> set F'" "nu \<le> m" by blast
    have "morecore sbrk (of_nat k) h e = Some (freep h', h', e')"
      using r Some cond f(1) by (simp add: morecore_def Let_def c_def h0_def)
    moreover have "freep h' \<noteq> 0"
    proof -
      note i' = heap_invD [OF f(2)]
      have "\<forall>y\<in>set (base # map fst F'). base \<le> y" using nodes_sorted(1) [OF i'(5)] by (auto simp: less_imp_le)
      then show ?thesis using i'(1,3) by (metis word_le_0_iff)
    qed
    moreover have "heap_at base brk h' e' F' A" using f(2,3) below hp by (auto simp: heap_at_def)
    moreover have "bytes_of F \<subseteq> bytes_of F'" "k \<le> m" using f(3,5) nu(1) by auto
    ultimately have "\<exists>F'. heap_at base brk h' e' F' A \<and> bytes_of F \<subseteq> bytes_of F' \<and> (\<exists>x m. (x, m) \<in> set F' \<and> k \<le> m)"
      "morecore sbrk (of_nat k) h e = Some (freep h', h', e')" "freep h' \<noteq> 0" "brk e \<le> brk e'" using f(4) hp(2) by (blast, auto)
    then show ?thesis by blast
  qed
qed

lemma malloc_loop_spec:
  assumes at: "heap_at base brk h e F A" and sb: "sbrk_ok sbrk brk" and k: "0 < k" "k < 2 ^ 27"
  shows "\<exists>p h' e'. malloc_loop sbrk (of_nat k) (freep h) (hptr h (freep h)) h e = Some (p, h', e') \<and> brk e \<le> brk e' \<and>
    (p = 0 \<and> heap_at base brk h' e' F A \<or>
     (\<exists>y F'. p = y + 16 \<and> y \<noteq> 0 \<and> heap_at base brk h' e' F' ((y, k) # A)))"
proof -
  have uk: "unat (of_nat k :: u32) = k" using k by (simp add: unat_of_nat take_bit_eq_mod)
  have fit: "\<exists>m. (x, m) \<in> set F' \<and> k \<le> m"
    if "heap_inv base h' F' A" "x \<in> set (base # map fst F')" "of_nat k \<le> hsize h' x" for h' F' x
  proof -
    note i = heap_invD [OF that(1)] and x = that(2) and s = that(3)
    have le: "k \<le> unat (hsize h' x)" using s uk by (simp add: word_le_nat_alt)
    then have "x \<noteq> base" using i(2) k(1) by auto
    then obtain m where "(x, m) \<in> set F'" using x by auto
    then show ?thesis using le block_okD(6) [OF i(6)] by metis
  qed
  have taken: "\<exists>p h'' e'. take_block (of_nat k) prevp x h' e1 = Some (p, h'', e') \<and> brk e1 \<le> brk e' \<and>
      (\<exists>y F''. p = y + 16 \<and> y \<noteq> 0 \<and> heap_at base brk h'' e' F'' ((y, k) # A))"
    if a: "heap_at base brk h' e1 F' A" "prevp \<in> set (base # map fst F')" "x \<in> set (base # map fst F')" "hptr h' prevp = x"
      "of_nat k \<le> hsize h' x" for h' F' prevp x e1
  proof -
    have inv: "heap_inv base h' F' A" using a(1) by (simp add: heap_at_def)
    obtain m where m: "(x, m) \<in> set F'" "k \<le> m" using fit [OF inv a(3,5)] by blast
    obtain h'' F'' y where t: "take_block (of_nat k) prevp x h' e1 = Some (y + 16, h'', e1)" "heap_inv base h'' F'' ((y, k) # A)"
      "bytes_of F' = bytes_of F'' \<union> extent (y, k)" "y \<noteq> 0"
      using take_block_spec [OF inv m(1) a(4,2) k(1) m(2), where e = e1] by blast
    moreover have "bytes_of ((y, k) # A) = extent (y, k) \<union> bytes_of A" by (rule bytes_of_simps)
    ultimately have "heap_at base brk h'' e1 F'' ((y, k) # A)" using a(1) unfolding heap_at_def by blast
    then show ?thesis using t(1,4) by blast
  qed
  have scan: "(\<exists>prevp x. prevp \<in> set (base # map fst F') \<and> x \<in> set (base # map fst F') \<and> hptr h' prevp = x \<and> of_nat k \<le> hsize h' x \<and>
      malloc_loop sbrk (of_nat k) (freep h') (hptr h' (freep h')) h' e1 = take_block (of_nat k) prevp x h' e1) \<or>
    (\<forall>x\<in>set (base # map fst F'). \<not> of_nat k \<le> hsize h' x) \<and>
      malloc_loop sbrk (of_nat k) (freep h') (hptr h' (freep h')) h' e1 = grow sbrk (of_nat k) h' e1"
    if inv: "heap_inv base h' F' A" for h' F' e1
  proof -
    obtain V where V: "succs h' (freep h') V" "V \<noteq> []" "distinct V" "set V = set (base # map fst F')" "last V = freep h'"
      using visits [OF inv] by blast
    have "hd V = hptr h' (freep h')" using V(1,2) by (cases V) auto
    moreover have "set (freep h' # V) = set (base # map fst F')" using V(4) heap_invD(3) [OF inv] by auto
    ultimately show ?thesis using malloc_scan [OF V(1-3,5), of "of_nat k" sbrk e1] V(4) by metis
  qed
  have inv: "heap_inv base h F A" using at by (simp add: heap_at_def)
  show ?thesis
  proof (rule disjE [OF scan [OF inv, of e]])
    assume "\<exists>prevp x. prevp \<in> set (base # map fst F) \<and> x \<in> set (base # map fst F) \<and> hptr h prevp = x \<and> of_nat k \<le> hsize h x \<and>
      malloc_loop sbrk (of_nat k) (freep h) (hptr h (freep h)) h e = take_block (of_nat k) prevp x h e"
    then show ?thesis using taken [OF at] by metis
  next
    assume grow: "(\<forall>x\<in>set (base # map fst F). \<not> of_nat k \<le> hsize h x) \<and>
      malloc_loop sbrk (of_nat k) (freep h) (hptr h (freep h)) h e = grow sbrk (of_nat k) h e"
    obtain q h1 e1 where m: "morecore sbrk (of_nat k) h e = Some (q, h1, e1)" "brk e \<le> brk e1"
      "q = 0 \<and> h1 = h \<and> heap_at base brk h e1 F A \<or>
       q \<noteq> 0 \<and> q = freep h1 \<and> (\<exists>F'. heap_at base brk h1 e1 F' A \<and> bytes_of F \<subseteq> bytes_of F' \<and> (\<exists>x m. (x, m) \<in> set F' \<and> k \<le> m))"
      using morecore_spec [OF at sb k] by blast
    show ?thesis
    proof (cases "q = 0")
      case True
      then show ?thesis using m grow by (simp add: grow_def)
    next
      case False
      then obtain F' x s where F': "q = freep h1" "heap_at base brk h1 e1 F' A" "(x, s) \<in> set F'" "k \<le> s" using m(3) by blast
      have inv1: "heap_inv base h1 F' A" using F'(2) by (simp add: heap_at_def)
      have "unat (hsize h1 x) = s" using block_okD(6) [OF heap_invD(6) [OF inv1 F'(3)]] .
      then have "of_nat k \<le> hsize h1 x" using uk F'(4) by (simp add: word_le_nat_alt)
      moreover have "x \<in> set (base # map fst F')" using F'(3) by force
      ultimately have some: "\<not> (\<forall>x\<in>set (base # map fst F'). \<not> of_nat k \<le> hsize h1 x)" by blast
      have "\<exists>prevp x. prevp \<in> set (base # map fst F') \<and> x \<in> set (base # map fst F') \<and> hptr h1 prevp = x \<and> of_nat k \<le> hsize h1 x \<and>
        malloc_loop sbrk (of_nat k) (freep h1) (hptr h1 (freep h1)) h1 e1 = take_block (of_nat k) prevp x h1 e1"
        using scan [OF inv1, of e1] by (simp only: some simp_thms)
      then obtain prevp z where z: "prevp \<in> set (base # map fst F')" "z \<in> set (base # map fst F')"
        "hptr h1 prevp = z" "of_nat k \<le> hsize h1 z"
        "malloc_loop sbrk (of_nat k) (freep h1) (hptr h1 (freep h1)) h1 e1 = take_block (of_nat k) prevp z h1 e1" by (elim exE conjE)
      have "malloc_loop sbrk (of_nat k) (freep h) (hptr h (freep h)) h e = take_block (of_nat k) prevp z h1 e1"
        using grow m(1) False F'(1) z(5) by (simp add: grow_def)
      moreover obtain p h'' e' where "take_block (of_nat k) prevp z h1 e1 = Some (p, h'', e')" "brk e1 \<le> brk e'"
        "\<exists>y F''. p = y + 16 \<and> y \<noteq> 0 \<and> heap_at base brk h'' e' F'' ((y, k) # A)"
        using taken [OF F'(2) z(1-4)] by blast
      ultimately show ?thesis using m(2) by (intro exI [of _ p] exI [of _ h''] exI [of _ e']) auto
    qed
  qed
qed

section \<open>Property\<close>

lemma heap_inv_perm:
  assumes "heap_inv base h F A" "set A' = set A" "distinct A'"
  shows "heap_inv base h F A'"
  using assms by (simp add: heap_inv_def disjoint_blocks_def bytes_of_def)

lemma unat_nunits:
  assumes "unat nbytes + 32 < 2 ^ 31"
  shows "nunits nbytes = of_nat ((unat nbytes + 15) div 16 + 1)" "(unat nbytes + 15) div 16 + 1 < 2 ^ 27"
    "unat nbytes \<le> 16 * ((unat nbytes + 15) div 16)"
proof -
  have "unat ((ucast nbytes + 16 - 1) div 16 + 1 :: u64) = (unat nbytes + 15) div 16 + 1"
    using assms by (simp add: unat_word_ariths unat_div unsigned_ucast_eq take_bit_eq_mod)
  then show "nunits nbytes = of_nat ((unat nbytes + 15) div 16 + 1)"
    unfolding nunits_def by (metis of_nat_unat)
  show "(unat nbytes + 15) div 16 + 1 < 2 ^ 27" "unat nbytes \<le> 16 * ((unat nbytes + 15) div 16)" using assms by simp_all
qed

text \<open>The state of the allocator before the first call, when \<open>freep\<close> is null, and after it.\<close>

definition umalloc_ok :: "u64 \<Rightarrow> ('e \<Rightarrow> nat) \<Rightarrow> uheap \<Rightarrow> 'e \<Rightarrow> block list \<Rightarrow> block list \<Rightarrow> bool" where
  "umalloc_ok base brk h e F A \<longleftrightarrow>
     (if freep h = 0 then base \<noteq> 0 \<and> unat base + 16 \<le> brk e \<and> F = [] \<and> A = [] else heap_at base brk h e F A)"

lemma heap_at_freep: "heap_at base brk h e F A \<Longrightarrow> freep h \<noteq> 0"
proof -
  assume "heap_at base brk h e F A"
  then have inv: "heap_inv base h F A" by (simp add: heap_at_def)
  have "\<forall>y\<in>set (base # map fst F). base \<le> y" using nodes_sorted(1) [OF heap_invD(5) [OF inv]] by (auto simp: less_imp_le)
  then show ?thesis using heap_invD(1,3) [OF inv] by (metis word_le_0_iff)
qed

lemma init_base_ok: "umalloc_ok base brk h e F A \<Longrightarrow> heap_at base brk (init_base base h) e F A"
  by (auto simp: umalloc_ok_def init_base_def heap_at_def heap_inv_def disjoint_blocks_def split: if_splits)

text \<open>C40: The allocator of the user library is correct. Every call ends. \<open>malloc\<close> of up to 2 GB returns null, or a block that is large enough and lies apart from
  every other allocated block and from all free ones, also for the very first call; \<open>free\<close> of an allocated block gives exactly its bytes back to the free list, joined with
  free neighbours. Both keep the invariant: the free list is circular, in the order of the addresses, without adjacent blocks,
  and apart from what is allocated. So this holds after every sequence of calls.\<close>

theorem umalloc_correct:
  assumes ok: "umalloc_ok base brk h e F A" and sb: "sbrk_ok sbrk brk"
  shows "(unat nbytes + 32 < 2 ^ 31 \<longrightarrow>
      (\<exists>p h' e'. malloc base sbrk nbytes h e = Some (p, h', e') \<and>
        (p = 0 \<and> umalloc_ok base brk h' e' F A \<or>
         (\<exists>y k F'. p = y + 16 \<and> unat nbytes \<le> 16 * (k - 1) \<and> umalloc_ok base brk h' e' F' ((y, k) # A) \<and> disjoint_blocks ((y, k) # A))))) \<and>
    ((a, k) \<in> set A \<longrightarrow>
      (\<exists>h' F'. free (a + 16) h = Some h' \<and> umalloc_ok base brk h' e F' (remove1 (a, k) A) \<and> bytes_of F' = bytes_of F \<union> extent (a, k)))"
proof (intro conjI impI)
  assume n: "unat nbytes + 32 < 2 ^ 31"
  let ?k = "(unat nbytes + 15) div 16 + 1" and ?h = "init_base base h"
  obtain p h' e' where m: "malloc_loop sbrk (of_nat ?k) (freep ?h) (hptr ?h (freep ?h)) ?h e = Some (p, h', e')"
    "p = 0 \<and> heap_at base brk h' e' F A \<or> (\<exists>y F'. p = y + 16 \<and> y \<noteq> 0 \<and> heap_at base brk h' e' F' ((y, ?k) # A))"
    using malloc_loop_spec [OF init_base_ok [OF ok] sb _ unat_nunits(2) [OF n]] by (metis add_gr_0 zero_less_one)
  have "malloc base sbrk nbytes h e = Some (p, h', e')" using m(1) unat_nunits(1) [OF n] by (simp add: malloc_def Let_def)
  moreover have okI: "umalloc_ok base brk h' e' F1 A1" if "heap_at base brk h' e' F1 A1" for F1 A1
    using that heap_at_freep [OF that] by (simp add: umalloc_ok_def)
  moreover have "disjoint_blocks A1" if "heap_at base brk h' e' F1 A1" for F1 A1 using that heap_invD(8) by (auto simp: heap_at_def)
  moreover have "unat nbytes \<le> 16 * (?k - 1)" using unat_nunits(3) [OF n] by simp
  ultimately show "\<exists>p h' e'. malloc base sbrk nbytes h e = Some (p, h', e') \<and>
        (p = 0 \<and> umalloc_ok base brk h' e' F A \<or>
         (\<exists>y k F'. p = y + 16 \<and> unat nbytes \<le> 16 * (k - 1) \<and> umalloc_ok base brk h' e' F' ((y, k) # A) \<and> disjoint_blocks ((y, k) # A)))"
    using m(2) by blast
next
  assume a: "(a, k) \<in> set A"
  then have at: "heap_at base brk h e F A" using ok by (auto simp: umalloc_ok_def split: if_splits)
  then have inv: "heap_inv base h F A" by (simp add: heap_at_def)
  have d: "distinct A" using heap_invD(8) [OF inv] by (simp add: disjoint_blocks_def)
  have "heap_inv base h F ((a, k) # remove1 (a, k) A)" using a d by (intro heap_inv_perm [OF inv]) auto
  from free_spec [OF this] obtain h' F' where f: "free (a + 16) h = Some h'" "heap_inv base h' F' (remove1 (a, k) A)"
    "bytes_of F' = bytes_of F \<union> extent (a, k)" by blast
  have "bytes_of (remove1 (a, k) A) \<subseteq> bytes_of A" using set_remove1_subset [of "(a, k)" A] by (auto simp: bytes_of_def)
  then have "heap_at base brk h' e F' (remove1 (a, k) A)" using at f(2,3) extent_mem [OF a] unfolding heap_at_def by blast
  then have "umalloc_ok base brk h' e F' (remove1 (a, k) A)" using heap_at_freep [of base brk h' e] by (auto simp: umalloc_ok_def)
  then show "\<exists>h' F'. free (a + 16) h = Some h' \<and> umalloc_ok base brk h' e F' (remove1 (a, k) A) \<and> bytes_of F' = bytes_of F \<union> extent (a, k)"
    using f by blast
qed

text \<open>A break that moves up to \<open>LIMIT\<close>. Two calls, then the first block is given back.\<close>

definition bump_sbrk :: "nat sbrk" where
  "bump_sbrk n e = (if e + nat (sint n) \<le> LIMIT then (Some (of_nat e), e + nat (sint n)) else (None, e))"

lemma bump_sbrk_ok: "sbrk_ok bump_sbrk (\<lambda>e. min e LIMIT)"
  unfolding sbrk_ok_def bump_sbrk_def
  by (auto simp: LIMIT_def unat_of_nat take_bit_eq_mod)

definition uheap0 :: uheap where
  "uheap0 = \<lparr>hptr = (\<lambda>_. 0), hsize = (\<lambda>_. 0), freep = 0\<rparr>"

theorem umalloc_correct_witness:
  "\<exists>p h e. malloc 0x3000 bump_sbrk 100 uheap0 0x4000 = Some (p, h, e) \<and>
     (p \<noteq> 0 \<longrightarrow> (\<exists>h'. free p h = Some h' \<and> (\<exists>F. umalloc_ok 0x3000 (\<lambda>e. min e LIMIT) h' e F [])))"
proof -
  have ok: "umalloc_ok 0x3000 (\<lambda>e. min e LIMIT) uheap0 0x4000 [] []" by (simp add: umalloc_ok_def uheap0_def LIMIT_def)
  have "unat (100 :: u32) + 32 < 2 ^ 31" by simp
  with umalloc_correct [OF ok bump_sbrk_ok, of 100] obtain p h e where m: "malloc 0x3000 bump_sbrk 100 uheap0 0x4000 = Some (p, h, e)"
    "p = 0 \<or> (\<exists>y k F'. p = y + 16 \<and> umalloc_ok 0x3000 (\<lambda>e. min e LIMIT) h e F' [(y, k)])" by blast
  show ?thesis
  proof (cases "p = 0")
    case False
    then obtain y k F' where y: "p = y + 16" "umalloc_ok 0x3000 (\<lambda>e. min e LIMIT) h e F' [(y, k)]" using m(2) by blast
    have "\<exists>h' F. free (y + 16) h = Some h' \<and> umalloc_ok 0x3000 (\<lambda>e. min e LIMIT) h' e F []"
      using umalloc_correct [OF y(2) bump_sbrk_ok, where nbytes = 0 and a = y and k = k] by auto
    then show ?thesis using m(1) y(1) by blast
  qed (use m(1) in blast)
qed

text \<open>For requests close to 4 GB the number of bytes does not fit into the \<open>int\<close> that \<open>sbrk\<close> takes: \<open>morecore\<close> asks for 0 bytes and records a block of 4 GB.\<close>

lemma malloc_huge_request: "nunits 0xfffffff0 = 0x10000000" "(ucast (ucast (0x10000000 :: u32) * 16 :: u64) :: cint) = 0"
  by (simp_all add: nunits_def)

end
