(* ===== verification/Spec2Isabelle.thy ===== *)
theory Spec2Isabelle
  imports Fsdir Fsinode Mkfs Fileref Sched Grep Console Virtio Runcmd Umalloc
begin

text \<open>
  A verification development for the xv6 operating system of this repository (\<^verbatim>\<open>src/xv6-OS\<close>): the kernel
  under \<^verbatim>\<open>kernel/\<close>, and user programs and library under \<^verbatim>\<open>user/\<close>.

  \<^bold>\<open>The program.\<close> A user process runs until it traps. \<open>usertrap\<close> (\<^verbatim>\<open>trap.c\<close>) dispatches to \<open>syscall\<close>
  (\<^verbatim>\<open>syscall.c\<close>), to a device interrupt, to a lazily allocated page or to killing the process. System calls work on the
  process table (\<^verbatim>\<open>proc.c\<close>), on open files (\<^verbatim>\<open>sysfile.c\<close>, \<^verbatim>\<open>file.c\<close>) and on the address space (\<^verbatim>\<open>vm.c\<close>, on pages of
  \<^verbatim>\<open>kalloc.c\<close>). An open file is a pipe (\<^verbatim>\<open>pipe.c\<close>), a device (\<^verbatim>\<open>console.c\<close>, \<^verbatim>\<open>uart.c\<close>) or an inode of the file system
  (\<^verbatim>\<open>fs.c\<close>), whose blocks go through the write-ahead log (\<^verbatim>\<open>log.c\<close>) and the buffer cache (\<^verbatim>\<open>bio.c\<close>) to the disk
  (\<^verbatim>\<open>virtio_disk.c\<close>). \<open>exec\<close> (\<^verbatim>\<open>exec.c\<close>) replaces the address space by a program from the file system. CPUs
  share all of this under spin locks (\<^verbatim>\<open>spinlock.c\<close>), and \<open>scheduler\<close>, \<open>sleep\<close> and \<open>wakeup\<close> move processes between them.

  \<^bold>\<open>The theories\<close>, each with the source it models.

  \<^item> \<open>Xv6_Prelude\<close>: C integers as words, results with panics, memory, constants of the headers, ring buffers.
  \<^item> \<open>Kstring\<close>: \<^verbatim>\<open>kernel/string.c\<close> and the string routines of \<^verbatim>\<open>user/ulib.c\<close>. \<open>memmove\<close> copies the old source whatever
    the overlap; \<open>safestrcpy\<close> terminates its result within bounds.
  \<^item> \<open>Kalloc\<close>: \<^verbatim>\<open>kernel/kalloc.c\<close>, the free list threaded through the free pages. The locale \<open>page_allocator\<close> is the
    interface, interpreted on \<open>kalloc\<close> and \<open>kfree\<close>.
  \<^item> \<open>Vm\<close>: \<^verbatim>\<open>kernel/vm.c\<close>, Sv39 page tables in physical memory. \<open>mappages\<close> maps exactly the range asked for;
    \<open>copyinstr\<close> stays within its limit.
  \<^item> \<open>Spinlock\<close>, \<open>Sleeplock\<close>: \<^verbatim>\<open>kernel/spinlock.c\<close>, \<^verbatim>\<open>kernel/sleeplock.c\<close>. Mutual exclusion for every interleaving of the
    memory accesses of \<open>acquire\<close> and \<open>release\<close>.
  \<^item> \<open>Bio\<close>, \<open>Log\<close>: \<^verbatim>\<open>kernel/bio.c\<close>, \<^verbatim>\<open>kernel/log.c\<close>. The cache is transparent; a crash after any number of the
    block writes of a commit followed by recovery is all or nothing.
  \<^item> \<open>Fs\<close>: \<^verbatim>\<open>kernel/fs.c\<close>, every function, on the log.
  \<^item> \<open>Pipe\<close>: \<^verbatim>\<open>kernel/pipe.c\<close>; the ring interprets the locale \<open>bounded_queue\<close>.
  \<^item> \<open>Kstate\<close>, \<open>Proc\<close>, \<open>Fork\<close>: the process table of \<^verbatim>\<open>kernel/proc.c\<close>. \<open>Sched\<close>: its scheduler on any number of CPUs: no panic in
    \<open>sched\<close>, a process on one CPU at most, no lost wakeup, no deadlock of the process locks.
  \<^item> \<open>File\<close>, \<open>Sysfile\<close>, \<open>Exec\<close>, \<open>Syscall\<close>: \<^verbatim>\<open>file.c\<close>, \<^verbatim>\<open>sysfile.c\<close>, \<^verbatim>\<open>exec.c\<close>, \<^verbatim>\<open>sysproc.c\<close>, \<^verbatim>\<open>syscall.c\<close>, \<^verbatim>\<open>trap.c\<close>. \<open>Fileref\<close>: across
    all system calls the reference count of a file is the number of descriptors that refer to it.
  \<^item> \<open>Freemap\<close>, \<open>Fscontent\<close>, \<open>Fswrite\<close>, \<open>Fsinode\<close>, \<open>Fsdir\<close>: what \<open>Fs\<close> does in a transaction. The free map never hands out a block twice; \<open>readi\<close> returns the bytes
    of the file, \<open>writei\<close> changes just the bytes asked for and fits in the log, \<open>ilock\<close> reads back what \<open>iupdate\<close>
    has written, \<open>dirlink\<close> adds one entry that \<open>dirlookup\<close> finds.
  \<^item> \<open>Mkfs\<close>: \<^verbatim>\<open>mkfs/mkfs.c\<close>; the kernel finds in the image every file of the host under its name, with its contents.
  \<^item> \<open>Ulib\<close>, \<open>Printf\<close>: the rest of \<^verbatim>\<open>user/ulib.c\<close>, \<^verbatim>\<open>user/printf.c\<close> and \<^verbatim>\<open>kernel/printf.c\<close>. Numbers are printed correctly within the buffer, and read back.
  \<^item> \<open>Console\<close>: \<^verbatim>\<open>kernel/console.c\<close> and \<^verbatim>\<open>kernel/uart.c\<close>; the ring refines a line editor on two lists.
  \<^item> \<open>Virtio\<close>: \<^verbatim>\<open>kernel/virtio_disk.c\<close> with a device that follows the virtio protocol; the driver panics only on a status that
    reports a failure, and loses neither requests nor descriptors.
  \<^item> \<open>Sh\<close>, \<open>Shtrace\<close>, \<open>Runcmd\<close>: \<^verbatim>\<open>user/sh.c\<close>; the parser is safe and reads back what commands mean, and running a script starts the right
    programs with the right descriptors, one after the other or at the same time as the script says.
  \<^item> \<open>Umalloc\<close>: \<^verbatim>\<open>user/umalloc.c\<close>; allocated blocks never overlap, and the free list stays ordered and coalesced.
  \<^item> \<open>Grep\<close>: \<^verbatim>\<open>user/grep.c\<close>; the matcher decides the language of the pattern, and the matching lines are printed.


  \<^bold>\<open>State and operations.\<close> A struct is a record with the fields of the struct, an array with a fixed table is a
  function of the index or a list, a pointer into a table is the index, a nullable pointer an option. An \<open>int\<close> is a 32-bit word
  read by \<open>sint\<close> where its width matters, otherwise the integer it denotes. An operation takes the state
  and returns it updated inside \<open>result\<close>: \<open>Panic\<close> for \<open>panic\<close>, \<open>UB\<close> for undefined behaviour (an access out of bounds, signed
  overflow), \<open>Diverges\<close> for a loop that never ends, \<open>Blocked\<close> for waiting that only another CPU can end. A system call that sleeps
  has the outcome \<open>Sleeps\<close> and goes on later from there. Outside of \<open>Spinlock\<close> and \<open>Sched\<close> a critical section is one step, which mutual exclusion
  justifies. Code outside of \<^verbatim>\<open>src\<close> (addresses chosen by the linker, devices) is an argument.

  \<^bold>\<open>Loops and fuel.\<close> Loops over tables recurse on the number of entries left; walks of the buffer list have the fuel \<open>NBUF + 1\<close>, one more than the list
  has nodes; \<open>freewalk\<close> recurses to the three levels of a page table. Loops bounded by data have a termination proof by a
  measure, loops that may run forever (scanning for a terminating 0 byte, reading input) are partial functions into \<open>option\<close>, and the properties prove that they return.

  \<^bold>\<open>Not modelled.\<close> Assembly (\<^verbatim>\<open>entry.S\<close>, \<^verbatim>\<open>swtch.S\<close>, \<^verbatim>\<open>trampoline.S\<close>, \<^verbatim>\<open>kernelvec.S\<close>); \<^verbatim>\<open>start.c\<close>, \<^verbatim>\<open>main.c\<close>, \<^verbatim>\<open>plic.c\<close> and the initialisation of devices, which
  only write control registers; \<open>procdump\<close>; the test programs (\<^verbatim>\<open>usertests.c\<close>, \<^verbatim>\<open>grind.c\<close>, \<^verbatim>\<open>stressfs.c\<close>, \<^verbatim>\<open>forktest.c\<close>,
  \<^verbatim>\<open>logstress.c\<close>, \<^verbatim>\<open>forphan.c\<close>, \<^verbatim>\<open>dorphan.c\<close>, \<^verbatim>\<open>zombie.c\<close>), which exercise the kernel and have no contract of their own; the other user programs.
  The weak memory model of the hardware is not modelled: a memory access is atomic and ordered.
\<close>

end
